(* ===== verification/Prelude.thy ===== *)
theory Prelude
  imports Main "HOL-Library.Monad_Syntax" "HOL-Library.Multiset"
begin

text \<open>
  Shared vocabulary of the development: the pieces of the C language and of its standard library
  that several programs use (truncating division, \<open>fgets\<close>, \<open>strtok\<close>, \<open>atoi\<close>), the option monad used
  for undefined behaviour, and generic lemmas on lists.

  \<open>None\<close> is undefined behaviour or non-termination: a NULL or dangling pointer is dereferenced, an
  array is indexed out of range, or a loop does not end.  A theorem that says an operation returns
  \<open>Some\<close> therefore says that it is memory safe and that it terminates.
\<close>

named_theorems list_upd_simps \<open>reading back after a list update\<close>

section \<open>Undefined behaviour\<close>

definition ensure :: "bool \<Rightarrow> unit option" where
  "ensure b = (if b then Some () else None)"

lemma ensure_True [simp]: "ensure True = Some ()"
  by (simp add: ensure_def)

lemma ensure_False [simp]: "ensure False = None"
  by (simp add: ensure_def)

lemma bind_ensure [simp]: "(ensure b \<bind> f) = (if b then f () else None)"
  by (simp add: ensure_def)

text \<open>
  Evaluating a monadic program by \<open>simp\<close>: with these congruences the simplifier evaluates the first
  action and leaves the continuation alone until the result is known.
\<close>

lemma bind_weak_cong: "m = m' \<Longrightarrow> Option.bind m f = Option.bind m' f"
  by simp

lemmas eval_congs = bind_weak_cong option.case_cong_weak prod.case_cong_weak let_weak_cong

text \<open>Array accesses: out of range is undefined behaviour.\<close>

definition arr_get :: "'a list \<Rightarrow> nat \<Rightarrow> 'a option" where
  "arr_get xs i = (if i < length xs then Some (xs ! i) else None)"

definition arr_set :: "'a list \<Rightarrow> nat \<Rightarrow> 'a \<Rightarrow> 'a list option" where
  "arr_set xs i v = (if i < length xs then Some (xs[i := v]) else None)"

lemma arr_get_in [simp]: "i < length xs \<Longrightarrow> arr_get xs i = Some (xs ! i)"
  by (simp add: arr_get_def)

lemma arr_set_in [simp]: "i < length xs \<Longrightarrow> arr_set xs i v = Some (xs[i := v])"
  by (simp add: arr_set_def)

section \<open>Integers\<close>

text \<open>C's \<open>/\<close> and \<open>%\<close> on signed integers truncate towards zero.\<close>

definition cdiv :: "int \<Rightarrow> int \<Rightarrow> int" where
  "cdiv a b = sgn a * sgn b * (\<bar>a\<bar> div \<bar>b\<bar>)"

definition cmod :: "int \<Rightarrow> int \<Rightarrow> int" where
  "cmod a b = a - cdiv a b * b"

lemma cdiv_nonneg [simp]: "0 \<le> a \<Longrightarrow> 0 < b \<Longrightarrow> cdiv a b = a div b"
  by (cases "a = 0") (auto simp: cdiv_def)

lemma cmod_nonneg [simp]: "0 \<le> a \<Longrightarrow> 0 < b \<Longrightarrow> cmod a b = a mod b"
  by (simp add: cmod_def minus_div_mult_eq_mod)

text \<open>\<open>size_t\<close> is modelled by \<open>nat\<close> with the wrap-around of a 64-bit word written out.\<close>

definition SIZE_MOD :: nat where
  "SIZE_MOD = 2 ^ 64"

definition SIZE_MINUS_1 :: nat where \<comment> \<open>\<open>(size_t)-1\<close>\<close>
  "SIZE_MINUS_1 = 2 ^ 64 - 1"

definition size_inc :: "nat \<Rightarrow> nat" where
  "size_inc n = (n + 1) mod SIZE_MOD"

definition size_dec :: "nat \<Rightarrow> nat" where
  "size_dec n = (n + SIZE_MINUS_1) mod SIZE_MOD"

lemma size_inc_small: "n < SIZE_MINUS_1 \<Longrightarrow> size_inc n = Suc n"
  by (simp add: size_inc_def SIZE_MOD_def SIZE_MINUS_1_def)

lemma size_dec_small: "0 < n \<Longrightarrow> n \<le> SIZE_MINUS_1 \<Longrightarrow> size_dec n = n - 1"
proof -
  assume n: "0 < n" "n \<le> SIZE_MINUS_1"
  then obtain m where m: "n = Suc m" by (cases n) auto
  have *: "n + SIZE_MINUS_1 = m + SIZE_MOD"
    by (simp add: m SIZE_MOD_def SIZE_MINUS_1_def)
  moreover have "m < SIZE_MOD"
    using n by (simp add: m SIZE_MOD_def SIZE_MINUS_1_def)
  ultimately show ?thesis unfolding size_dec_def * by (simp add: m)
qed

section \<open>Strings\<close>

abbreviation newline :: char where
  "newline \<equiv> CHR 0x0A"

abbreviation carriage_return :: char where
  "carriage_return \<equiv> CHR 0x0D"

definition is_space :: "char \<Rightarrow> bool" where
  "is_space c \<longleftrightarrow> c \<in> {CHR '' '', CHR 0x09, CHR 0x0A, CHR 0x0B, CHR 0x0C, CHR 0x0D}"

definition is_digit :: "char \<Rightarrow> bool" where
  "is_digit c \<longleftrightarrow> (48::nat) \<le> of_char c \<and> of_char c \<le> (57::nat)"

fun digits_value :: "nat \<Rightarrow> string \<Rightarrow> nat" where
  "digits_value acc [] = acc"
| "digits_value acc (c # cs) =
     (if is_digit c then digits_value (10 * acc + (of_char c - 48)) cs else acc)"

text \<open>\<open>atoi\<close>: leading white space, an optional sign, then digits up to the first other character.\<close>

definition atoi :: "string \<Rightarrow> int" where
  "atoi s = (case dropWhile is_space s of
       [] \<Rightarrow> 0
     | c # cs \<Rightarrow> (if c = CHR ''-'' then - int (digits_value 0 cs)
                else if c = CHR ''+'' then int (digits_value 0 cs)
                else int (digits_value 0 (c # cs))))"

text \<open>\<open>printf\<close>'s \<open>%d\<close>.\<close>

fun nat_digits :: "nat \<Rightarrow> string" where
  "nat_digits n = (if n < 10 then [char_of (48 + n)]
                   else nat_digits (n div 10) @ [char_of (48 + n mod 10)])"

declare nat_digits.simps [simp del]

definition fmt_d :: "int \<Rightarrow> string" where
  "fmt_d n = (if n < 0 then CHR ''-'' # nat_digits (nat (- n)) else nat_digits (nat n))"

text \<open>
  Repeated calls of \<open>strtok\<close> with one delimiter set return the maximal runs of other characters,
  in order, and then NULL.
\<close>

function tokens :: "(char \<Rightarrow> bool) \<Rightarrow> string \<Rightarrow> string list" where
  "tokens delim s =
     (case dropWhile delim s of
        [] \<Rightarrow> []
      | c # cs \<Rightarrow> (c # takeWhile (Not \<circ> delim) cs) # tokens delim (dropWhile (Not \<circ> delim) cs))"
  by pat_completeness auto
termination
proof (relation "measure (\<lambda>(d, s). length s)", goal_cases)
  case (2 d s c cs)
  have "length (dropWhile (Not \<circ> d) cs) \<le> length cs" by (rule length_dropWhile_le)
  moreover have "length (c # cs) \<le> length s"
    using length_dropWhile_le [of d s] 2 by simp
  ultimately show ?case by simp
qed simp

declare tokens.simps [simp del]

lemma tokens_nonempty: "t \<in> set (tokens d s) \<Longrightarrow> t \<noteq> []"
proof (induction d s rule: tokens.induct)
  case (1 d s)
  then show ?case
    by (cases "dropWhile d s") (auto simp: tokens.simps [of d s])
qed

text \<open>
  \<open>fgets(buf, n, stream)\<close> reads at most \<open>n - 1\<close> characters and stops after a newline; \<open>None\<close> is the
  NULL it returns at end of file.
\<close>

fun read_line :: "nat \<Rightarrow> string \<Rightarrow> string \<times> string" where
  "read_line 0 cs = ([], cs)"
| "read_line (Suc n) [] = ([], [])"
| "read_line (Suc n) (c # cs) =
     (if c = newline then ([c], cs)
      else (let (l, r) = read_line n cs in (c # l, r)))"

definition fgets :: "nat \<Rightarrow> string \<Rightarrow> (string \<times> string) option" where
  "fgets n stream = (if stream = [] then None else Some (read_line (n - 1) stream))"

lemma read_line_append: "read_line n cs = (l, r) \<Longrightarrow> cs = l @ r"
  by (induction n cs arbitrary: l r rule: read_line.induct) (auto split: if_splits prod.splits)

lemma read_line_length: "read_line n cs = (l, r) \<Longrightarrow> length l \<le> n"
  by (induction n cs arbitrary: l r rule: read_line.induct) (auto split: if_splits prod.splits)

lemma read_line_progress: "read_line (Suc n) (c # cs) = (l, r) \<Longrightarrow> length r < length (c # cs)"
  using read_line_append [of "Suc n" "c # cs" l r]
  by (cases l) (auto split: if_splits prod.splits)

lemma fgets_progress:
  assumes "fgets n stream = Some (l, r)" and "1 < n"
  shows "length r < length stream"
proof -
  obtain c cs where s: "stream = c # cs"
    using assms(1) by (cases stream) (auto simp: fgets_def)
  obtain m where n: "n - 1 = Suc m"
    using assms(2) by (cases "n - 1") auto
  have "read_line (Suc m) (c # cs) = (l, r)"
    using assms(1) unfolding fgets_def n s by (simp del: read_line.simps)
  from read_line_progress [OF this] show ?thesis by (simp add: s)
qed

section \<open>Lists\<close>

lemma nth_list_update_simp [list_upd_simps]:
  "i < length xs \<Longrightarrow> xs[i := v] ! j = (if j = i then v else xs ! j)"
  by (simp add: nth_list_update)

lemma sum_list_map_upt: "sum_list (map f [0..<n]) = (\<Sum>i<n. f i)"
  by (simp add: interv_sum_list_conv_sum_set_nat lessThan_atLeast0)

end
