(* ===== verification/Banker.thy ===== *)
theory Banker
  imports Prelude
begin

text \<open>
  The banker's algorithm of \<open>CS2303 Operating System/Project 6/banker.c\<close>: the global arrays as a
  record, the safety check with its two nested loops, request, release and finish handling, and
  the command loop of \<open>main\<close> over the characters of standard input.
\<close>

section \<open>State\<close>

definition NUMBER_OF_CUSTOMERS :: nat where
  "NUMBER_OF_CUSTOMERS = 5"

definition NUMBER_OF_RESOURCES :: nat where
  "NUMBER_OF_RESOURCES = 4"

definition BANKER_BUFFER_SIZE :: nat where
  "BANKER_BUFFER_SIZE = 32"

record banker =
  available :: "int list"
  maximum :: "int list list"
  allocation :: "int list list"
  need :: "int list list"

abbreviation vec_add :: "int list \<Rightarrow> int list \<Rightarrow> int list" where
  "vec_add \<equiv> map2 (+)"

abbreviation vec_sub :: "int list \<Rightarrow> int list \<Rightarrow> int list" where
  "vec_sub \<equiv> map2 (-)"

text \<open>
  The loop shared by the guards of the code: compare component by component and stop at the first
  entry of \<open>xs\<close> that exceeds the one of \<open>ys\<close>.
\<close>

fun all_le :: "int list \<Rightarrow> int list \<Rightarrow> bool" where
  "all_le (x # xs) (y # ys) = (if x > y then False else all_le xs ys)"
| "all_le _ _ = True"

section \<open>The safety check\<close>

record scan =
  work :: "int list"
  finish :: "bool list"
  finish_count :: nat
  found :: bool

text \<open>One iteration of the loop over the customers.\<close>

definition visit :: "banker \<Rightarrow> nat \<Rightarrow> scan \<Rightarrow> scan" where
  "visit b i s =
     (if \<not> finish s ! i then
        (if all_le (need b ! i) (work s) then
           s\<lparr>found := True,
             finish := (finish s)[i := True],
             finish_count := finish_count s + 1,
             work := vec_add (work s) (allocation b ! i)\<rparr>
         else s)
      else s)"

definition scan_pass :: "banker \<Rightarrow> scan \<Rightarrow> scan" where
  "scan_pass b s = fold (visit b) [0..<NUMBER_OF_CUSTOMERS] (s\<lparr>found := False\<rparr>)"

lemma visit_progress:
  "finish_count s \<le> finish_count (visit b i s) \<and>
   (found (visit b i s) \<longrightarrow> found s \<or> finish_count s < finish_count (visit b i s))"
  by (simp add: visit_def)

lemma fold_visit_progress:
  "finish_count s \<le> finish_count (fold (visit b) is s) \<and>
   (found (fold (visit b) is s) \<longrightarrow> found s \<or> finish_count s < finish_count (fold (visit b) is s))"
proof (induction "is" arbitrary: s)
  case (Cons i "is")
  show ?case
    using visit_progress [of s b i] Cons.IH [of "visit b i s"] by fastforce
qed simp

lemma scan_pass_progress: "found (scan_pass b s) \<Longrightarrow> finish_count s < finish_count (scan_pass b s)"
  using fold_visit_progress [of "s\<lparr>found := False\<rparr>" b] by (simp add: scan_pass_def)

function check_loop :: "banker \<Rightarrow> scan \<Rightarrow> bool" where
  "check_loop b s =
     (if finish_count s < NUMBER_OF_CUSTOMERS then
        (let s' = scan_pass b s in
         if \<not> found s' then False else check_loop b s')
      else True)"
  by pat_completeness auto
termination
  by (relation "measure (\<lambda>(b, s). NUMBER_OF_CUSTOMERS - finish_count s)")
     (auto dest: scan_pass_progress)

declare check_loop.simps [simp del]

definition check_safe :: "banker \<Rightarrow> bool" where
  "check_safe b = check_loop b
     \<lparr>work = available b, finish = replicate NUMBER_OF_CUSTOMERS False, finish_count = 0, found = False\<rparr>"

section \<open>Request, release, finish\<close>

definition apply_request :: "banker \<Rightarrow> nat \<Rightarrow> int list \<Rightarrow> banker" where
  "apply_request b c request = b\<lparr>
     available := vec_sub (available b) request,
     allocation := (allocation b)[c := vec_add (allocation b ! c) request],
     need := (need b)[c := vec_sub (need b ! c) request]\<rparr>"

definition undo_request :: "banker \<Rightarrow> nat \<Rightarrow> int list \<Rightarrow> banker" where
  "undo_request b c request = b\<lparr>
     available := vec_add (available b) request,
     allocation := (allocation b)[c := vec_sub (allocation b ! c) request],
     need := (need b)[c := vec_add (need b ! c) request]\<rparr>"

definition request_resources :: "banker \<Rightarrow> nat \<Rightarrow> int list \<Rightarrow> banker \<times> string" where
  "request_resources b c request =
     (if \<not> all_le request (need b ! c) then (b, ''Request exceeds need.'' @ [newline])
      else if \<not> all_le request (available b) then (b, ''Request exceeds available.'' @ [newline])
      else
        (let b' = apply_request b c request in
         if check_safe b' then (b', ''Successfully allocated resources.'' @ [newline])
         else (undo_request b' c request, ''Request denied to maintain safety.'' @ [newline])))"

definition release_resources :: "banker \<Rightarrow> nat \<Rightarrow> int list \<Rightarrow> banker \<times> string" where
  "release_resources b c release =
     (if \<not> all_le release (allocation b ! c) then (b, ''Release exceeds allocation.'' @ [newline])
      else (undo_request b c release, ''Successfully released resources.'' @ [newline]))"

definition check_finish :: "banker \<Rightarrow> nat \<Rightarrow> banker \<times> string" where
  "check_finish b c =
     (if \<exists>v \<in> set (need b ! c). v \<noteq> 0 then (b, [])
      else (b\<lparr>available := vec_add (available b) (allocation b ! c),
              allocation := (allocation b)[c := replicate NUMBER_OF_RESOURCES 0],
              need := (need b)[c := replicate NUMBER_OF_RESOURCES 0],
              maximum := (maximum b)[c := replicate NUMBER_OF_RESOURCES 0]\<rparr>,
            ''Customer '' @ fmt_d (int c) @ '' has finished, all resources released.'' @ [newline]))"

definition show_row :: "int list \<Rightarrow> string" where
  "show_row xs = concat (map (\<lambda>x. fmt_d x @ '' '') xs) @ [newline]"

definition print_status :: "banker \<Rightarrow> string" where
  "print_status b =
     ''Available:'' @ [newline] @ show_row (available b) @
     ''Maximum:'' @ [newline] @ concat (map show_row (maximum b)) @
     ''Allocation:'' @ [newline] @ concat (map show_row (allocation b)) @
     ''Need:'' @ [newline] @ concat (map show_row (need b))"

section \<open>The command loop\<close>

text \<open>
  The argument loop of \<open>RQ\<close> and \<open>RL\<close>: read one number per resource and stop at the first negative
  or too large one.  \<open>Missing\<close> is \<open>atoi(NULL)\<close>, which the code runs into when the line is too short.
\<close>

datatype parsed = Missing | Rejected string | Parsed "int list"

fun parse_vector :: "string \<Rightarrow> string \<Rightarrow> int list \<Rightarrow> string list \<Rightarrow> parsed" where
  "parse_vector negative exceeds [] ts = Parsed []"
| "parse_vector negative exceeds (l # ls) [] = Missing"
| "parse_vector negative exceeds (l # ls) (t # ts) =
     (let v = atoi t in
      if v < 0 then Rejected negative
      else if v > l then Rejected exceeds
      else (case parse_vector negative exceeds ls ts of
              Parsed vs \<Rightarrow> Parsed (v # vs)
            | r \<Rightarrow> r))"

datatype banker_step = Exit | Crash | Continue banker string

definition command_request :: "banker \<Rightarrow> string list \<Rightarrow> banker_step" where
  "command_request b args =
     (case args of
        [] \<Rightarrow> Crash
      | n # ts \<Rightarrow>
          (let c = atoi n in
           if c < 0 \<or> c \<ge> int NUMBER_OF_CUSTOMERS
           then Continue b (''Invalid customer number.'' @ [newline])
           else (case parse_vector (''Request must be non-negative.'' @ [newline])
                        (''Request exceeds need.'' @ [newline]) (need b ! nat c) ts of
                   Missing \<Rightarrow> Crash
                 | Rejected m \<Rightarrow> Continue b m
                 | Parsed request \<Rightarrow>
                     (let (b1, out1) = request_resources b (nat c) request;
                          (b2, out2) = check_finish b1 (nat c)
                      in Continue b2 (out1 @ out2)))))"

definition command_release :: "banker \<Rightarrow> string list \<Rightarrow> banker_step" where
  "command_release b args =
     (case args of
        [] \<Rightarrow> Crash
      | n # ts \<Rightarrow>
          (let c = atoi n in
           if c < 0 \<or> c \<ge> int NUMBER_OF_CUSTOMERS
           then Continue b (''Invalid customer number'' @ [newline])
           else (case parse_vector (''Release must be non-negative.'' @ [newline])
                        (''Release exceeds allocation.'' @ [newline]) (allocation b ! nat c) ts of
                   Missing \<Rightarrow> Crash
                 | Rejected m \<Rightarrow> Continue b m
                 | Parsed release \<Rightarrow>
                     (let (b1, out1) = release_resources b (nat c) release
                      in Continue b1 out1))))"

definition banker_command :: "banker \<Rightarrow> string \<Rightarrow> banker_step" where
  "banker_command b line =
     (if line = ''exit'' @ [newline] then Exit
      else (case tokens (\<lambda>c. c = CHR '' '') line of
              [] \<Rightarrow> Crash
            | token # args \<Rightarrow>
                if token = ''RQ'' then command_request b args
                else if token = ''RL'' then command_release b args
                else if token = ''*'' @ [newline] then Continue b (print_status b)
                else Continue b (''Unknown command.'' @ [newline])))"

text \<open>
  The \<open>while (1)\<close> loop of \<open>main\<close> over the characters of standard input.  At end of file \<open>fgets\<close>
  leaves the block-local buffer uninitialised, so the loop goes on with an indeterminate command:
  the run ends in \<open>Crashed\<close>.  Both results carry the state and the output so far.
\<close>

datatype banker_run = Finished banker string | Crashed banker string

function banker_loop :: "banker \<Rightarrow> string \<Rightarrow> string \<Rightarrow> banker_run" where
  "banker_loop b out stdin =
     (case fgets BANKER_BUFFER_SIZE stdin of
        None \<Rightarrow> Crashed b out
      | Some (line, rest) \<Rightarrow>
          (case banker_command b line of
             Exit \<Rightarrow> Finished b (out @ ''Enter command > '')
           | Crash \<Rightarrow> Crashed b (out @ ''Enter command > '')
           | Continue b' msg \<Rightarrow> banker_loop b' (out @ ''Enter command > '' @ msg) rest))"
  by pat_completeness auto
termination
  by (relation "measure (\<lambda>(b, out, stdin). length stdin)")
     (auto dest: fgets_progress simp: BANKER_BUFFER_SIZE_def)

declare banker_loop.simps [simp del]

text \<open>
  The initialisation of \<open>main\<close>: \<open>argv\<close> holds the program name and the available resources,
  \<open>file_ints\<close> the integers \<open>fscanf\<close> reads from \<open>input.txt\<close>; where it reads none the global array
  keeps its initial zero.
\<close>

fun parse_available :: "string list \<Rightarrow> int list option" where
  "parse_available [] = Some []"
| "parse_available (a # as) =
     (if atoi a < 0 then None else map_option ((#) (atoi a)) (parse_available as))"

definition read_maximum :: "int list \<Rightarrow> int list list" where
  "read_maximum file_ints =
     map (\<lambda>i. map (\<lambda>j. let k = i * NUMBER_OF_RESOURCES + j
                          in if k < length file_ints then file_ints ! k else 0)
                [0..<NUMBER_OF_RESOURCES])
         [0..<NUMBER_OF_CUSTOMERS]"

definition banker_init :: "string list \<Rightarrow> int list \<Rightarrow> string + banker" where
  "banker_init argv file_ints =
     (if length argv \<noteq> NUMBER_OF_RESOURCES + 1 then
        Inl (''Invalid number of arguments.'' @ [newline] @
             ''Usage: ./banker <available resource 1> <...> <available resource '' @
             fmt_d (int NUMBER_OF_RESOURCES) @ ''>'' @ [newline])
      else (case parse_available (tl argv) of
              None \<Rightarrow> Inl (''Available resources must be non-negative.'' @ [newline])
            | Some av \<Rightarrow> Inr \<lparr>available = av, maximum = read_maximum file_ints,
                              allocation = replicate NUMBER_OF_CUSTOMERS (replicate NUMBER_OF_RESOURCES 0),
                              need = read_maximum file_ints\<rparr>))"

section \<open>Shape of the arrays\<close>

definition banker_wf :: "banker \<Rightarrow> bool" where
  "banker_wf b \<longleftrightarrow>
     length (available b) = NUMBER_OF_RESOURCES \<and>
     length (maximum b) = NUMBER_OF_CUSTOMERS \<and> (\<forall>i < NUMBER_OF_CUSTOMERS. length (maximum b ! i) = NUMBER_OF_RESOURCES) \<and>
     length (allocation b) = NUMBER_OF_CUSTOMERS \<and> (\<forall>i < NUMBER_OF_CUSTOMERS. length (allocation b ! i) = NUMBER_OF_RESOURCES) \<and>
     length (need b) = NUMBER_OF_CUSTOMERS \<and> (\<forall>i < NUMBER_OF_CUSTOMERS. length (need b ! i) = NUMBER_OF_RESOURCES)"

lemma banker_wfD [simp]:
  assumes "banker_wf b"
  shows "length (available b) = NUMBER_OF_RESOURCES"
    and "length (maximum b) = NUMBER_OF_CUSTOMERS"
    and "length (allocation b) = NUMBER_OF_CUSTOMERS"
    and "length (need b) = NUMBER_OF_CUSTOMERS"
    and "i < NUMBER_OF_CUSTOMERS \<Longrightarrow> length (maximum b ! i) = NUMBER_OF_RESOURCES"
    and "i < NUMBER_OF_CUSTOMERS \<Longrightarrow> length (allocation b ! i) = NUMBER_OF_RESOURCES"
    and "i < NUMBER_OF_CUSTOMERS \<Longrightarrow> length (need b ! i) = NUMBER_OF_RESOURCES"
  using assms by (auto simp: banker_wf_def)

lemma all_le_iff:
  "length xs = length ys \<Longrightarrow> all_le xs ys \<longleftrightarrow> (\<forall>j < length xs. xs ! j \<le> ys ! j)"
proof (induction xs ys rule: all_le.induct)
  case (1 x xs y ys)
  then show ?case by (auto simp: nth_Cons' less_Suc_eq_0_disj)
qed auto

lemma vec_eqI:
  "length xs = n \<Longrightarrow> length ys = n \<Longrightarrow> (\<And>j. j < n \<Longrightarrow> xs ! j = ys ! j) \<Longrightarrow> xs = ys"
  by (simp add: nth_equalityI)

lemma banker_wf_apply:
  "banker_wf b \<Longrightarrow> c < NUMBER_OF_CUSTOMERS \<Longrightarrow> length v = NUMBER_OF_RESOURCES \<Longrightarrow> banker_wf (apply_request b c v)"
  by (auto simp: banker_wf_def apply_request_def nth_list_update simp del: banker_wfD)

lemma banker_wf_undo:
  "banker_wf b \<Longrightarrow> c < NUMBER_OF_CUSTOMERS \<Longrightarrow> length v = NUMBER_OF_RESOURCES \<Longrightarrow> banker_wf (undo_request b c v)"
  by (auto simp: banker_wf_def undo_request_def nth_list_update simp del: banker_wfD)

lemma undo_apply_request:
  assumes "banker_wf b" "c < NUMBER_OF_CUSTOMERS" "length v = NUMBER_OF_RESOURCES"
  shows "undo_request (apply_request b c v) c v = b"
proof -
  have *: "vec_add (vec_sub x v) v = x" "vec_sub (vec_add x v) v = x"
    if "length x = NUMBER_OF_RESOURCES" for x
    using that assms(3) by (auto intro!: nth_equalityI)
  show ?thesis
    using assms by (simp add: undo_request_def apply_request_def *)
qed

section \<open>Safe sequences\<close>

text \<open>
  The textbook notion: the customers can be finished one after the other, each one's remaining need
  being covered by the free resources plus what the earlier ones hold.
\<close>

fun completes :: "int list list \<Rightarrow> int list list \<Rightarrow> int list \<Rightarrow> nat list \<Rightarrow> bool" where
  "completes nd al w [] = True"
| "completes nd al w (i # is) = (all_le (nd ! i) w \<and> completes nd al (vec_add w (al ! i)) is)"

definition safe_order :: "banker \<Rightarrow> nat list \<Rightarrow> bool" where
  "safe_order b order \<longleftrightarrow> distinct order \<and> set order = {..<NUMBER_OF_CUSTOMERS} \<and>
     completes (need b) (allocation b) (available b) order"

definition work_after :: "int list list \<Rightarrow> int list \<Rightarrow> nat list \<Rightarrow> int list" where
  "work_after al w is = foldl (\<lambda>w i. vec_add w (al ! i)) w is"

lemma work_after_simps [simp]:
  "work_after al w [] = w"
  "work_after al w (i # is) = work_after al (vec_add w (al ! i)) is"
  "work_after al w (is @ [i]) = vec_add (work_after al w is) (al ! i)"
  by (simp_all add: work_after_def)

lemma completes_append:
  "completes nd al w (is @ js) \<longleftrightarrow> completes nd al w is \<and> completes nd al (work_after al w is) js"
  by (induction "is" arbitrary: w) auto

lemma length_work_after:
  "length w = n \<Longrightarrow> \<forall>i \<in> set is. length (al ! i) = n \<Longrightarrow> length (work_after al w is) = n"
  by (induction "is" arbitrary: w) auto

lemma work_after_nth:
  "length w = n \<Longrightarrow> \<forall>i \<in> set is. length (al ! i) = n \<Longrightarrow> j < n \<Longrightarrow>
   work_after al w is ! j = w ! j + (\<Sum>i\<leftarrow>is. al ! i ! j)"
  by (induction "is" arbitrary: w) auto

lemma work_after_mono:
  assumes "distinct xs" "distinct ys" "set xs \<subseteq> set ys" "length w = n" "j < n"
    and "\<forall>i \<in> set ys. length (al ! i) = n \<and> 0 \<le> al ! i ! j"
  shows "work_after al w xs ! j \<le> work_after al w ys ! j"
proof -
  have "(\<Sum>i\<leftarrow>xs. al ! i ! j) = (\<Sum>i\<in>set xs. al ! i ! j)"
    using assms(1) by (simp add: sum_list_distinct_conv_sum_set)
  also have "\<dots> \<le> (\<Sum>i\<in>set ys. al ! i ! j)"
    using assms by (intro sum_mono2) auto
  also have "\<dots> = (\<Sum>i\<leftarrow>ys. al ! i ! j)"
    using assms(2) by (simp add: sum_list_distinct_conv_sum_set)
  finally show ?thesis
    using assms by (simp add: work_after_nth [where n = n] subset_iff)
qed

section \<open>The safety check decides safety\<close>

definition nonneg_alloc :: "banker \<Rightarrow> bool" where
  "nonneg_alloc b \<longleftrightarrow> (\<forall>i < NUMBER_OF_CUSTOMERS. \<forall>j < NUMBER_OF_RESOURCES. 0 \<le> allocation b ! i ! j)"

text \<open>\<open>fin\<close> is the sequence of the customers marked so far, in the order in which they were marked.\<close>

definition scan_inv :: "banker \<Rightarrow> scan \<Rightarrow> nat list \<Rightarrow> bool" where
  "scan_inv b s fin \<longleftrightarrow> distinct fin \<and> set fin \<subseteq> {..<NUMBER_OF_CUSTOMERS} \<and>
     finish s = map (\<lambda>i. i \<in> set fin) [0..<NUMBER_OF_CUSTOMERS] \<and>
     finish_count s = length fin \<and>
     work s = work_after (allocation b) (available b) fin \<and>
     completes (need b) (allocation b) (available b) fin"

lemma visit_inv:
  assumes "scan_inv b s fin" "i < NUMBER_OF_CUSTOMERS"
  shows "\<exists>fin'. scan_inv b (visit b i s) fin'"
proof (cases "i \<in> set fin \<or> \<not> all_le (need b ! i) (work s)")
  case True
  then have "visit b i s = s"
    using assms by (auto simp: visit_def scan_inv_def)
  with assms(1) show ?thesis by auto
next
  case False
  then have "scan_inv b (visit b i s) (fin @ [i])"
    using assms
    by (auto simp: visit_def scan_inv_def completes_append nth_list_update intro!: nth_equalityI
        split: if_splits)
  then show ?thesis ..
qed

lemma fold_visit_inv:
  "scan_inv b s fin \<Longrightarrow> set is \<subseteq> {..<NUMBER_OF_CUSTOMERS} \<Longrightarrow> \<exists>fin'. scan_inv b (fold (visit b) is s) fin'"
proof (induction "is" arbitrary: s fin)
  case (Cons i "is")
  then show ?case using visit_inv [of b s fin i] by fastforce
qed auto

lemma scan_pass_inv: "scan_inv b s fin \<Longrightarrow> \<exists>fin'. scan_inv b (scan_pass b s) fin'"
  unfolding scan_pass_def
  by (rule fold_visit_inv [where fin = fin]) (auto simp: scan_inv_def)

lemma visit_found: "found s \<Longrightarrow> found (visit b i s)"
  by (simp add: visit_def)

lemma fold_visit_found: "found s \<Longrightarrow> found (fold (visit b) is s)"
  by (induction "is" arbitrary: s) (auto simp: visit_found)

lemma fold_visit_stuck:
  "\<not> found (fold (visit b) is s) \<Longrightarrow>
   fold (visit b) is s = s \<and> (\<forall>i \<in> set is. finish s ! i \<or> \<not> all_le (need b ! i) (work s))"
proof (induction "is" arbitrary: s)
  case (Cons i "is")
  have "\<not> found (visit b i s)"
    using Cons.prems fold_visit_found by auto
  then have "visit b i s = s" and "finish s ! i \<or> \<not> all_le (need b ! i) (work s)"
    by (auto simp: visit_def split: if_splits)
  with Cons show ?case by simp
qed simp

lemma stuck_not_safe:
  assumes wf: "banker_wf b" and pos: "nonneg_alloc b" and inv: "scan_inv b s fin"
    and less: "finish_count s < NUMBER_OF_CUSTOMERS" and stuck: "\<not> found (scan_pass b s)"
  shows "\<not> safe_order b order"
proof
  assume "safe_order b order"
  then have ord: "distinct order" "set order = {..<NUMBER_OF_CUSTOMERS}"
      "completes (need b) (allocation b) (available b) order"
    by (auto simp: safe_order_def)
  have "card (set fin) < NUMBER_OF_CUSTOMERS"
    using inv less by (simp add: scan_inv_def distinct_card)
  then have "\<exists>i \<in> set order. i \<notin> set fin"
    using ord(2) inv by (metis card_lessThan less_irrefl scan_inv_def subsetI subset_antisym)
  then obtain pre i post where split: "order = pre @ i # post" "i \<notin> set fin" "set pre \<subseteq> set fin"
    using split_list_first_prop [of order "\<lambda>i. i \<notin> set fin"] by blast
  have i: "i < NUMBER_OF_CUSTOMERS" using ord(2) split(1) by auto
  have "all_le (need b ! i) (work s)"
  proof -
    have le: "all_le (need b ! i) (work_after (allocation b) (available b) pre)"
      using ord(3) by (simp add: split(1) completes_append)
    have fin: "distinct fin" "set fin \<subseteq> {..<NUMBER_OF_CUSTOMERS}"
        "work s = work_after (allocation b) (available b) fin"
      using inv by (auto simp: scan_inv_def)
    have sub: "\<forall>k \<in> set fin. length (allocation b ! k) = NUMBER_OF_RESOURCES"
        "\<forall>k \<in> set pre. length (allocation b ! k) = NUMBER_OF_RESOURCES"
      using fin(2) split(3) wf by auto
    have mono: "work_after (allocation b) (available b) pre ! j \<le> work_after (allocation b) (available b) fin ! j"
      if j: "j < NUMBER_OF_RESOURCES" for j
    proof (rule work_after_mono [where n = NUMBER_OF_RESOURCES])
      show "distinct pre" "distinct fin" using ord(1) split(1) fin by auto
      show "\<forall>k \<in> set fin. length (allocation b ! k) = NUMBER_OF_RESOURCES \<and> 0 \<le> allocation b ! k ! j"
        using sub(1) fin(2) pos j by (auto simp: nonneg_alloc_def)
    qed (use wf j split(3) in auto)
    have len: "length (work_after (allocation b) (available b) pre) = NUMBER_OF_RESOURCES"
        "length (work_after (allocation b) (available b) fin) = NUMBER_OF_RESOURCES"
        "length (need b ! i) = NUMBER_OF_RESOURCES"
      using wf i by (auto intro!: length_work_after sub)
    have "need b ! i ! j \<le> work_after (allocation b) (available b) pre ! j" if "j < NUMBER_OF_RESOURCES" for j
      using le that by (simp add: all_le_iff len)
    then have "all_le (need b ! i) (work_after (allocation b) (available b) fin)"
      using mono by (auto simp: all_le_iff len intro: order_trans)
    then show ?thesis by (simp add: fin(3))
  qed
  moreover have "finish s ! i \<or> \<not> all_le (need b ! i) (work s)"
    using fold_visit_stuck [of b "[0..<NUMBER_OF_CUSTOMERS]" "s\<lparr>found := False\<rparr>"] stuck i
    by (auto simp: scan_pass_def)
  ultimately show False using inv i split(2) by (auto simp: scan_inv_def)
qed

lemma check_loop_correct:
  assumes "banker_wf b" "nonneg_alloc b" "scan_inv b s fin"
  shows "check_loop b s \<longleftrightarrow> (\<exists>order. safe_order b order)"
  using assms
proof (induction b s arbitrary: fin rule: check_loop.induct)
  case (1 b s)
  show ?case
  proof (cases "finish_count s < NUMBER_OF_CUSTOMERS")
    case False
    then have "card (set fin) \<ge> NUMBER_OF_CUSTOMERS" and sub: "set fin \<subseteq> {..<NUMBER_OF_CUSTOMERS}"
      using 1 by (auto simp: scan_inv_def distinct_card)
    then have "set fin = {..<NUMBER_OF_CUSTOMERS}"
      by (intro card_subset_eq) (auto intro: card_mono [of "{..<NUMBER_OF_CUSTOMERS}", simplified] le_antisym)
    then have "safe_order b fin" using 1 by (simp add: safe_order_def scan_inv_def)
    then show ?thesis using False by (auto simp: check_loop.simps [of b s])
  next
    case True
    obtain fin' where fin': "scan_inv b (scan_pass b s) fin'"
      using scan_pass_inv 1 by blast
    show ?thesis
    proof (cases "found (scan_pass b s)")
      case found: True
      then show ?thesis
        using 1 fin' True by (simp add: check_loop.simps [of b s])
    next
      case False
      then show ?thesis
        using stuck_not_safe 1 True by (auto simp: check_loop.simps [of b s])
    qed
  qed
qed

lemma check_safe_correct:
  "banker_wf b \<Longrightarrow> nonneg_alloc b \<Longrightarrow> check_safe b \<longleftrightarrow> (\<exists>order. safe_order b order)"
  unfolding check_safe_def
  by (rule check_loop_correct [where fin = "[]"])
     (auto simp: scan_inv_def intro!: nth_equalityI)

section \<open>Safety is kept\<close>

definition safe :: "banker \<Rightarrow> bool" where
  "safe b \<longleftrightarrow> (\<exists>order. safe_order b order)"

lemma completes_cong:
  "\<forall>i \<in> set is. nd' ! i = nd ! i \<and> al' ! i = al ! i \<Longrightarrow> completes nd' al' w is = completes nd al w is"
  by (induction "is" arbitrary: w) auto

lemma completes_mono:
  assumes "completes nd al w is" "all_le w w'" "length w = n" "length w' = n"
    and "\<forall>i \<in> set is. length (nd ! i) = n \<and> length (al ! i) = n"
  shows "completes nd al w' is"
  using assms
proof (induction "is" arbitrary: w w')
  case (Cons i "is")
  have le: "\<forall>j < n. w ! j \<le> w' ! j" and fit: "\<forall>j < n. nd ! i ! j \<le> w ! j"
    using Cons.prems by (auto simp: all_le_iff)
  then have "\<forall>j < n. nd ! i ! j \<le> w' ! j"
    using order_trans by blast
  then have "all_le (nd ! i) w'"
    using Cons.prems by (simp add: all_le_iff)
  moreover have "completes nd al (vec_add w' (al ! i)) is"
  proof (rule Cons.IH [of "vec_add w (al ! i)"])
    show "completes nd al (vec_add w (al ! i)) is" using Cons.prems(1) by simp
    have "length (al ! i) = n" using Cons.prems(5) by simp
    then show "all_le (vec_add w (al ! i)) (vec_add w' (al ! i))"
      using le Cons.prems(3,4) by (subst all_le_iff) auto
    show "length (vec_add w (al ! i)) = n" "length (vec_add w' (al ! i)) = n"
      using Cons.prems(3,4) \<open>length (al ! i) = n\<close> by simp_all
    show "\<forall>i \<in> set is. length (nd ! i) = n \<and> length (al ! i) = n" using Cons.prems(5) by simp
  qed
  ultimately show ?case by simp
qed simp

text \<open>
  Customer \<open>c\<close> gives back \<open>v\<close>: it holds \<open>v\<close> less and needs \<open>x\<close>, at most \<open>v\<close> more than before.
\<close>

lemma completes_give_back:
  assumes "completes nd al w is" "distinct is" "\<forall>i \<in> set is. i < m"
    and len: "length nd = m" "length al = m" "\<forall>i < m. length (nd ! i) = n \<and> length (al ! i) = n"
      "length w = n" "length v = n" "length x = n" "c < m"
    and v: "\<forall>j < n. 0 \<le> v ! j" and x': "\<forall>j < n. \<forall>u. nd ! c ! j \<le> u \<longrightarrow> x ! j \<le> u + v ! j"
  shows "completes (nd[c := x]) (al[c := vec_sub (al ! c) v]) (vec_add w v) is"
  using assms(1-3) len(4)
proof (induction "is" arbitrary: w)
  case (Cons i "is")
  have fit: "\<forall>j < n. nd ! i ! j \<le> w ! j" and rest: "completes nd al (vec_add w (al ! i)) is"
    using Cons.prems len by (auto simp: all_le_iff)
  show ?case
  proof (cases "i = c")
    case True
    have "vec_add (vec_add w v) (vec_sub (al ! c) v) = vec_add w (al ! c)"
      using Cons.prems len by (intro vec_eqI [where n = n]) auto
    moreover have "completes (nd[c := x]) (al[c := vec_sub (al ! c) v]) (vec_add w (al ! c)) is"
    proof (subst completes_cong [of "is" _ nd _ al])
      have "\<forall>k \<in> set is. c \<noteq> k" using Cons.prems(2) True by auto
      then show "\<forall>i \<in> set is. nd[c := x] ! i = nd ! i \<and> al[c := vec_sub (al ! c) v] ! i = al ! i"
        by simp
    qed (use rest True in simp)
    moreover have "all_le x (vec_add w v)"
      using fit True x' Cons.prems len by (auto simp: all_le_iff)
    ultimately show ?thesis using True Cons.prems len by simp
  next
    case False
    have "vec_add (vec_add w v) (al ! i) = vec_add (vec_add w (al ! i)) v"
      using Cons.prems len by (intro vec_eqI [where n = n]) auto
    moreover have "completes (nd[c := x]) (al[c := vec_sub (al ! c) v]) (vec_add (vec_add w (al ! i)) v) is"
      using rest Cons.prems len x' by (intro Cons.IH) auto
    moreover have "all_le (nd ! i) (vec_add w v)"
      using fit v Cons.prems len by (force simp: all_le_iff)
    ultimately show ?thesis using False by simp
  qed
qed simp

definition reachable_inv :: "(nat \<Rightarrow> int) \<Rightarrow> banker \<Rightarrow> bool" where
  "reachable_inv t b \<longleftrightarrow> banker_wf b \<and> nonneg_alloc b \<and>
     (\<forall>j < NUMBER_OF_RESOURCES. 0 \<le> available b ! j) \<and>
     (\<forall>j < NUMBER_OF_RESOURCES.
        available b ! j + (\<Sum>i < NUMBER_OF_CUSTOMERS. allocation b ! i ! j) = t j) \<and>
     (\<forall>i < NUMBER_OF_CUSTOMERS. \<forall>j < NUMBER_OF_RESOURCES.
        need b ! i ! j + allocation b ! i ! j = maximum b ! i ! j)"

lemma sum_update:
  fixes xs :: "int list list"
  assumes "c < n"
  shows "(\<Sum>i < n. (if c = i then v else xs ! i) ! j) = (\<Sum>i < n. xs ! i ! j) - xs ! c ! j + v ! j"
proof -
  have "(\<Sum>i < n. (if c = i then v else xs ! i) ! j) =
        v ! j + (\<Sum>i \<in> {..<n} - {c}. (if c = i then v else xs ! i) ! j)"
    using assms by (subst sum.remove [of _ c]) auto
  also have "(\<Sum>i \<in> {..<n} - {c}. (if c = i then v else xs ! i) ! j) = (\<Sum>i \<in> {..<n} - {c}. xs ! i ! j)"
    by (rule sum.cong) auto
  also have "\<dots> = (\<Sum>i < n. xs ! i ! j) - xs ! c ! j"
    using assms by (subst sum.remove [of "{..<n}" c]) auto
  finally show ?thesis by simp
qed

lemma reachable_inv_apply:
  assumes "reachable_inv t b" "c < NUMBER_OF_CUSTOMERS" "length v = NUMBER_OF_RESOURCES"
    and "\<forall>j < NUMBER_OF_RESOURCES. 0 \<le> v ! j" "all_le v (available b)"
  shows "reachable_inv t (apply_request b c v)"
proof -
  have wf: "banker_wf b" using assms(1) by (simp add: reachable_inv_def)
  have "banker_wf (apply_request b c v)"
    using wf assms by (simp add: banker_wf_apply)
  then show ?thesis
    using assms wf unfolding reachable_inv_def
    by (auto simp: apply_request_def nonneg_alloc_def nth_list_update all_le_iff sum_update)
qed

lemma reachable_inv_undo:
  assumes "reachable_inv t b" "c < NUMBER_OF_CUSTOMERS" "length v = NUMBER_OF_RESOURCES"
    and "\<forall>j < NUMBER_OF_RESOURCES. 0 \<le> v ! j" "all_le v (allocation b ! c)"
  shows "reachable_inv t (undo_request b c v)"
proof -
  have wf: "banker_wf b" using assms(1) by (simp add: reachable_inv_def)
  have "banker_wf (undo_request b c v)"
    using wf assms by (simp add: banker_wf_undo)
  then show ?thesis
    using assms wf unfolding reachable_inv_def
    by (auto simp: undo_request_def nonneg_alloc_def nth_list_update all_le_iff sum_update)
qed

lemma reachable_invD:
  assumes "reachable_inv t b"
  shows "banker_wf b" "nonneg_alloc b"
    and "j < NUMBER_OF_RESOURCES \<Longrightarrow> 0 \<le> available b ! j"
    and "i < NUMBER_OF_CUSTOMERS \<Longrightarrow> j < NUMBER_OF_RESOURCES \<Longrightarrow> 0 \<le> allocation b ! i ! j"
    and "j < NUMBER_OF_RESOURCES \<Longrightarrow>
      available b ! j + (\<Sum>i < NUMBER_OF_CUSTOMERS. allocation b ! i ! j) = t j"
  using assms by (auto simp: reachable_inv_def nonneg_alloc_def)

lemma reachable_inv_finish:
  assumes "reachable_inv t b" "c < NUMBER_OF_CUSTOMERS"
  shows "reachable_inv t (fst (check_finish b c))"
proof (cases "\<exists>v \<in> set (need b ! c). v \<noteq> 0")
  case True
  then show ?thesis using assms by (simp add: check_finish_def)
next
  case False
  have wf: "banker_wf b" using assms(1) by (simp add: reachable_inv_def)
  have "banker_wf (fst (check_finish b c))"
    using wf assms(2) by (auto simp: banker_wf_def check_finish_def nth_list_update simp del: banker_wfD)
  then show ?thesis
    using False assms wf unfolding reachable_inv_def
    by (auto simp: check_finish_def nonneg_alloc_def nth_list_update sum_update)
qed

lemma safe_undo_request:
  assumes inv: "reachable_inv t b" and c: "c < NUMBER_OF_CUSTOMERS" and v: "length v = NUMBER_OF_RESOURCES"
    and pos: "\<forall>j < NUMBER_OF_RESOURCES. 0 \<le> v ! j" and "safe b"
  shows "safe (undo_request b c v)"
proof -
  obtain order where order: "safe_order b order" using \<open>safe b\<close> by (auto simp: safe_def)
  note wf = reachable_invD(1) [OF inv]
  have "completes ((need b)[c := vec_add (need b ! c) v]) ((allocation b)[c := vec_sub (allocation b ! c) v])
          (vec_add (available b) v) order"
    using order wf c v pos
    by (intro completes_give_back [where m = NUMBER_OF_CUSTOMERS and n = NUMBER_OF_RESOURCES])
       (auto simp: safe_order_def)
  then show ?thesis
    using order by (auto simp: safe_def safe_order_def undo_request_def)
qed

lemma safe_check_finish:
  assumes inv: "reachable_inv t b" and c: "c < NUMBER_OF_CUSTOMERS" and "safe b"
  shows "safe (fst (check_finish b c))"
proof (cases "\<exists>v \<in> set (need b ! c). v \<noteq> 0")
  case True
  then show ?thesis using assms by (simp add: check_finish_def)
next
  case False
  obtain order where order: "safe_order b order" using \<open>safe b\<close> by (auto simp: safe_def)
  note wf = reachable_invD(1) [OF inv]
  let ?z = "replicate NUMBER_OF_RESOURCES 0"
  have zero: "\<forall>j < NUMBER_OF_RESOURCES. need b ! c ! j = 0"
    using False wf c by (metis banker_wfD(7) nth_mem)
  have "completes ((need b)[c := ?z])
          ((allocation b)[c := vec_sub (allocation b ! c) (allocation b ! c)])
          (vec_add (available b) (allocation b ! c)) order"
    using order wf c inv zero
    by (intro completes_give_back [where m = NUMBER_OF_CUSTOMERS and n = NUMBER_OF_RESOURCES])
       (auto simp: safe_order_def reachable_inv_def nonneg_alloc_def)
  moreover have "vec_sub (allocation b ! c) (allocation b ! c) = ?z"
    using wf c by (intro vec_eqI [where n = NUMBER_OF_RESOURCES]) auto
  ultimately show ?thesis
    using order False by (auto simp: safe_def safe_order_def check_finish_def)
qed

lemma check_safe_iff_safe: "reachable_inv t b \<Longrightarrow> check_safe b \<longleftrightarrow> safe b"
  by (simp add: check_safe_correct safe_def reachable_invD)

text \<open>The whole request: either granted, and then the new state is safe, or nothing changes.\<close>

lemma request_resources_cases:
  assumes "banker_wf b" "c < NUMBER_OF_CUSTOMERS" "length v = NUMBER_OF_RESOURCES"
  shows "fst (request_resources b c v) =
    (if all_le v (need b ! c) \<and> all_le v (available b) \<and> check_safe (apply_request b c v)
     then apply_request b c v else b)"
  using assms by (simp add: request_resources_def Let_def undo_apply_request)

lemma reachable_inv_request:
  assumes "reachable_inv t b" "c < NUMBER_OF_CUSTOMERS" "length v = NUMBER_OF_RESOURCES"
    and "\<forall>j < NUMBER_OF_RESOURCES. 0 \<le> v ! j"
  shows "reachable_inv t (fst (request_resources b c v))"
  using assms by (simp add: request_resources_cases reachable_invD reachable_inv_apply)

lemma safe_request:
  assumes "reachable_inv t b" "c < NUMBER_OF_CUSTOMERS" "length v = NUMBER_OF_RESOURCES"
    and "\<forall>j < NUMBER_OF_RESOURCES. 0 \<le> v ! j" "safe b"
  shows "safe (fst (request_resources b c v))"
  using assms check_safe_iff_safe [OF reachable_inv_apply]
  by (auto simp: request_resources_cases reachable_invD)

lemma parse_vector_Parsed:
  "parse_vector ng ex ls ts = Parsed vs \<Longrightarrow>
   length vs = length ls \<and> (\<forall>j < length ls. 0 \<le> vs ! j \<and> vs ! j \<le> ls ! j)"
  by (induction ng ex ls ts arbitrary: vs rule: parse_vector.induct)
     (auto simp: Let_def nth_Cons' split: if_splits parsed.splits)

text \<open>Every command keeps the invariant and safety.\<close>

text \<open>\<open>k\<close> says whether safety is claimed as well.\<close>

definition good :: "(nat \<Rightarrow> int) \<Rightarrow> bool \<Rightarrow> banker \<Rightarrow> bool" where
  "good t k b \<longleftrightarrow> reachable_inv t b \<and> (k \<longrightarrow> safe b)"

lemma command_request_good:
  assumes "good t k b" "command_request b args = Continue b' out"
  shows "good t k b'"
proof -
  have inv: "reachable_inv t b" and sf: "k \<longrightarrow> safe b" using assms by (auto simp: good_def)
  show ?thesis
  proof (cases "b' = b")
    case False
    then obtain c v where c: "c < NUMBER_OF_CUSTOMERS"
      and v: "parse_vector (''Request must be non-negative.'' @ [newline])
                (''Request exceeds need.'' @ [newline]) (need b ! c) (tl args) = Parsed v"
      and b': "b' = fst (check_finish (fst (request_resources b c v)) c)"
      using assms(2)
      by (auto simp: command_request_def Let_def split: list.splits if_splits parsed.splits prod.splits)
         (metis fst_conv nat_less_iff not_le zless_nat_eq_int_zless)+
    have "length v = NUMBER_OF_RESOURCES" "\<forall>j < NUMBER_OF_RESOURCES. 0 \<le> v ! j"
      using parse_vector_Parsed [OF v] c inv by (auto simp: reachable_invD)
    then show ?thesis
      using inv sf c unfolding b' good_def
      by (blast intro: reachable_inv_finish reachable_inv_request safe_check_finish safe_request)
  qed (use assms in simp)
qed

lemma command_release_good:
  assumes "good t k b" "command_release b args = Continue b' out"
  shows "good t k b'"
proof -
  have inv: "reachable_inv t b" and sf: "k \<longrightarrow> safe b" using assms by (auto simp: good_def)
  show ?thesis
  proof (cases "b' = b")
    case False
    then obtain c v where c: "c < NUMBER_OF_CUSTOMERS"
      and v: "parse_vector (''Release must be non-negative.'' @ [newline])
                (''Release exceeds allocation.'' @ [newline]) (allocation b ! c) (tl args) = Parsed v"
      and b': "b' = fst (release_resources b c v)"
      using assms(2)
      by (auto simp: command_release_def Let_def split: list.splits if_splits parsed.splits prod.splits)
         (metis fst_conv nat_less_iff not_le zless_nat_eq_int_zless)+
    have "length v = NUMBER_OF_RESOURCES" "\<forall>j < NUMBER_OF_RESOURCES. 0 \<le> v ! j"
      "all_le v (allocation b ! c)"
      using parse_vector_Parsed [OF v] c inv by (auto simp: reachable_invD all_le_iff)
    then show ?thesis
      using inv sf c unfolding b' good_def release_resources_def
      by (simp add: reachable_inv_undo safe_undo_request)
  qed (use assms in simp)
qed

lemma banker_command_good:
  "good t k b \<Longrightarrow> banker_command b line = Continue b' out \<Longrightarrow> good t k b'"
  by (cases "tokens (\<lambda>c. c = CHR '' '') line")
     (auto simp: banker_command_def dest: command_request_good command_release_good split: if_split_asm)

fun run_state :: "banker_run \<Rightarrow> banker" where
  "run_state (Finished b out) = b"
| "run_state (Crashed b out) = b"

lemma banker_loop_good: "good t k b \<Longrightarrow> good t k (run_state (banker_loop b out stdin))"
proof (induction b out stdin rule: banker_loop.induct)
  case (1 b out stdin)
  show ?case
  proof (cases "fgets BANKER_BUFFER_SIZE stdin")
    case None
    then show ?thesis using "1.prems" by (simp add: banker_loop.simps [of b out stdin])
  next
    case (Some p)
    obtain line rest where p: "p = (line, rest)" by (cases p)
    show ?thesis
    proof (cases "banker_command b line")
      case (Continue b' msg)
      then have "good t k b'" using "1.prems" banker_command_good by blast
      then show ?thesis
        using "1.IH" [OF Some p [symmetric] Continue] Some p Continue
        by (simp add: banker_loop.simps [of b out stdin])
    qed (use "1.prems" Some p in \<open>simp_all add: banker_loop.simps [of b out stdin]\<close>)
  qed
qed

lemma parse_available_Some:
  "parse_available as = Some av \<Longrightarrow> length av = length as \<and> (\<forall>a \<in> set av. 0 \<le> a)"
  by (induction as arbitrary: av) (auto split: if_splits)

lemma banker_init_inv:
  assumes "banker_init argv ints = Inr b"
  shows "reachable_inv (\<lambda>j. available b ! j) b"
  using assms parse_available_Some [of "tl argv" "available b"]
  by (auto simp: banker_init_def reachable_inv_def banker_wf_def nonneg_alloc_def read_maximum_def
      simp del: banker_wfD split: if_split_asm option.split_asm)

lemma reachable_inv_bounds:
  assumes inv: "reachable_inv t b" and "i < NUMBER_OF_CUSTOMERS" "j < NUMBER_OF_RESOURCES"
  shows "available b ! j + (\<Sum>i < NUMBER_OF_CUSTOMERS. allocation b ! i ! j) = t j \<and>
    0 \<le> available b ! j \<and> available b ! j \<le> t j \<and>
    0 \<le> allocation b ! i ! j \<and> allocation b ! i ! j \<le> t j \<and>
    need b ! i ! j + allocation b ! i ! j = maximum b ! i ! j"
proof -
  have "allocation b ! i ! j \<le> (\<Sum>i < NUMBER_OF_CUSTOMERS. allocation b ! i ! j)"
    using assms(2,3) reachable_invD(4) [OF inv] by (intro member_le_sum) auto
  moreover have "0 \<le> (\<Sum>i < NUMBER_OF_CUSTOMERS. allocation b ! i ! j)"
    using assms(3) reachable_invD(4) [OF inv] by (intro sum_nonneg) auto
  moreover have "need b ! i ! j + allocation b ! i ! j = maximum b ! i ! j"
    using assms by (simp add: reachable_inv_def)
  ultimately show ?thesis
    using reachable_invD(3) [OF inv, of j] reachable_invD(4) [OF inv, of i j]
      reachable_invD(5) [OF inv, of j] assms(2,3) by linarith
qed

section \<open>A safe state can be driven to completion\<close>

lemma safe_apply_full:
  assumes inv: "reachable_inv t b" and i: "i < NUMBER_OF_CUSTOMERS" and "safe b"
    and le: "all_le (need b ! i) (available b)"
  shows "safe (apply_request b i (need b ! i))"
proof -
  let ?nd = "need b" and ?al = "allocation b" and ?w = "available b" and ?n = "need b ! i"
  let ?nd' = "?nd[i := vec_sub ?n ?n]" and ?al' = "?al[i := vec_add (?al ! i) ?n]"
  let ?w1 = "vec_add ?w (?al ! i)"
  note wf [simp] = reachable_invD(1) [OF inv]
  note pos = reachable_invD(4) [OF inv]
  obtain order where order: "safe_order b order" using \<open>safe b\<close> by (auto simp: safe_def)
  then have "i \<in> set order" using i by (simp add: safe_order_def)
  then obtain pre post where split: "order = pre @ i # post" by (meson split_list)
  have mem: "set pre \<subseteq> {..<NUMBER_OF_CUSTOMERS}" "i \<notin> set pre" "i \<notin> set post"
    using order split by (auto simp: safe_order_def)
  have comp: "completes ?nd ?al ?w pre" "completes ?nd ?al (work_after ?al ?w (pre @ [i])) post"
    using order split by (auto simp: safe_order_def completes_append)
  have len: "\<forall>k \<in> set pre. length (?nd ! k) = NUMBER_OF_RESOURCES \<and> length (?al ! k) = NUMBER_OF_RESOURCES"
      "\<forall>k \<in> set (pre @ [i]). length (?al ! k) = NUMBER_OF_RESOURCES"
      "length ?w1 = NUMBER_OF_RESOURCES" "length ?w = NUMBER_OF_RESOURCES"
    using mem i by auto
  have "all_le ?w ?w1" using i pos by (simp add: all_le_iff)
  then have pre: "completes ?nd ?al ?w1 pre"
    using completes_mono [OF comp(1) _ len(4,3,1)] by simp
  have "work_after ?al ?w1 pre = work_after ?al ?w (pre @ [i])"
    using len i
    by (intro vec_eqI [where n = NUMBER_OF_RESOURCES])
       (auto simp: length_work_after work_after_nth [where n = NUMBER_OF_RESOURCES] simp del: work_after_simps(3))
  then have all: "completes ?nd ?al ?w1 (pre @ post)"
    using pre comp(2) by (simp add: completes_append)
  have "\<forall>k \<in> set (pre @ post). i \<noteq> k" using mem by auto
  then have "completes ?nd' ?al' ?w1 (pre @ post)"
    using all by (subst completes_cong [of _ _ ?nd _ ?al]) auto
  moreover have "vec_add (vec_sub ?w ?n) (vec_add (?al ! i) ?n) = ?w1"
    using i by (intro vec_eqI [where n = NUMBER_OF_RESOURCES]) auto
  moreover have "all_le (vec_sub ?n ?n) (vec_sub ?w ?n)"
    using le i by (auto simp: all_le_iff)
  ultimately have "completes ?nd' ?al' (vec_sub ?w ?n) (i # pre @ post)"
    using i by simp
  moreover have "distinct (i # pre @ post)" "set (i # pre @ post) = {..<NUMBER_OF_CUSTOMERS}"
    using order mem unfolding split safe_order_def by auto
  ultimately have "safe_order (apply_request b i ?n) (i # pre @ post)"
    by (simp add: safe_order_def apply_request_def)
  then show ?thesis unfolding safe_def by blast
qed

text \<open>The customers of a list, one after the other, request everything they still need.\<close>

fun grant_all :: "banker \<Rightarrow> nat list \<Rightarrow> banker" where
  "grant_all b [] = b"
| "grant_all b (i # is) =
     grant_all (fst (check_finish (fst (request_resources b i (need b ! i))) i)) is"

definition nonneg_need :: "banker \<Rightarrow> bool" where
  "nonneg_need b \<longleftrightarrow> (\<forall>i < NUMBER_OF_CUSTOMERS. \<forall>j < NUMBER_OF_RESOURCES. 0 \<le> need b ! i ! j)"

lemma grant_one:
  assumes inv: "reachable_inv t b" and i: "i < NUMBER_OF_CUSTOMERS" and sf: "safe b"
    and nn: "nonneg_need b" and le: "all_le (need b ! i) (available b)"
  shows "fst (check_finish (fst (request_resources b i (need b ! i))) i) = b\<lparr>
    available := vec_add (available b) (allocation b ! i),
    allocation := (allocation b)[i := replicate NUMBER_OF_RESOURCES 0],
    need := (need b)[i := replicate NUMBER_OF_RESOURCES 0],
    maximum := (maximum b)[i := replicate NUMBER_OF_RESOURCES 0]\<rparr>"
proof -
  let ?n = "need b ! i"
  note wf [simp] = reachable_invD(1) [OF inv]
  have pos: "\<forall>j < NUMBER_OF_RESOURCES. 0 \<le> ?n ! j" using nn i by (simp add: nonneg_need_def)
  have "check_safe (apply_request b i ?n)"
    using check_safe_iff_safe [OF reachable_inv_apply [OF inv i _ pos le]] safe_apply_full [OF inv i sf le] i
    by simp
  then have "fst (request_resources b i ?n) = apply_request b i ?n"
    using i le by (simp add: request_resources_cases all_le_iff)
  moreover have "\<not> (\<exists>v \<in> set (vec_sub ?n ?n). v \<noteq> 0)"
    by (auto simp: set_zip)
  moreover have "vec_add (vec_sub (available b) ?n) (vec_add (allocation b ! i) ?n) =
      vec_add (available b) (allocation b ! i)"
    using i by (intro vec_eqI [where n = NUMBER_OF_RESOURCES]) auto
  ultimately show ?thesis
    using i by (simp add: check_finish_def apply_request_def)
qed

lemma grant_all_spec:
  assumes "reachable_inv t b" "safe b" "nonneg_need b" "distinct is" "set is \<subseteq> {..<NUMBER_OF_CUSTOMERS}"
    and "completes (need b) (allocation b) (available b) is"
  shows "reachable_inv t (grant_all b is) \<and>
    (\<forall>k < NUMBER_OF_CUSTOMERS.
      allocation (grant_all b is) ! k = (if k \<in> set is then replicate NUMBER_OF_RESOURCES 0 else allocation b ! k) \<and>
      need (grant_all b is) ! k = (if k \<in> set is then replicate NUMBER_OF_RESOURCES 0 else need b ! k))"
  using assms
proof (induction "is" arbitrary: b)
  case (Cons i "is")
  let ?b = "fst (check_finish (fst (request_resources b i (need b ! i))) i)"
  have i: "i < NUMBER_OF_CUSTOMERS" and le: "all_le (need b ! i) (available b)"
    and rest: "completes (need b) (allocation b) (vec_add (available b) (allocation b ! i)) is"
    using Cons.prems by auto
  note b = grant_one [OF Cons.prems(1) i Cons.prems(2,3) le]
  note wf [simp] = reachable_invD(1) [OF Cons.prems(1)]
  have pos: "\<forall>j < NUMBER_OF_RESOURCES. 0 \<le> need b ! i ! j"
    using Cons.prems(3) i by (simp add: nonneg_need_def)
  have inv: "reachable_inv t ?b" and sf: "safe ?b"
    using Cons.prems(1,2) i pos
    by (simp_all add: reachable_inv_finish reachable_inv_request safe_request
        safe_check_finish [OF reachable_inv_request])
  have nn: "nonneg_need ?b"
    using Cons.prems(3) i unfolding b by (auto simp: nonneg_need_def nth_list_update)
  have neq: "\<forall>k \<in> set is. i \<noteq> k" using Cons.prems(4) by auto
  have "completes (need ?b) (allocation ?b) (available ?b) is"
    using rest neq unfolding b by (subst completes_cong [of "is" _ "need b" _ "allocation b"]) auto
  from Cons.IH [OF inv sf nn _ _ this] Cons.prems(4,5)
  show ?case
    using i by (auto simp: b nth_list_update)
qed simp

lemma grant_all_complete:
  assumes "reachable_inv t b" "nonneg_need b" "safe_order b order"
  shows "(\<forall>i < NUMBER_OF_CUSTOMERS. need (grant_all b order) ! i = replicate NUMBER_OF_RESOURCES 0) \<and>
    (\<forall>j < NUMBER_OF_RESOURCES. available (grant_all b order) ! j = t j)"
proof -
  have "safe b" using assms(3) by (auto simp: safe_def)
  then have *: "reachable_inv t (grant_all b order)"
    "\<forall>k < NUMBER_OF_CUSTOMERS. allocation (grant_all b order) ! k = replicate NUMBER_OF_RESOURCES 0 \<and>
       need (grant_all b order) ! k = replicate NUMBER_OF_RESOURCES 0"
    using grant_all_spec [OF assms(1) _ assms(2), of order] assms(3) by (auto simp: safe_order_def)
  show ?thesis
    using *(2) reachable_invD(5) [OF *(1)] by auto
qed

section \<open>Properties\<close>

text \<open>
  C1 (equivalence).  The greedy double loop of \<open>check_safe\<close> decides the textbook notion of a safe
  state: it returns 1 exactly when some order of all the customers lets each of them obtain its
  remaining need from the free resources and those released by the earlier ones.
\<close>

theorem banker_check_safe_iff:
  assumes "banker_wf b" and "nonneg_alloc b"
  shows "check_safe b \<longleftrightarrow> (\<exists>order. safe_order b order)"
  using assms by (rule check_safe_correct)

definition sample_banker :: banker where
  "sample_banker = \<lparr>available = [3, 3, 2, 1],
     maximum = [[7, 5, 3, 2], [3, 2, 2, 1], [9, 0, 2, 3], [2, 2, 2, 1], [4, 3, 3, 2]],
     allocation = [[0, 1, 0, 1], [2, 0, 0, 0], [3, 0, 2, 1], [2, 1, 1, 0], [0, 0, 2, 1]],
     need = [[7, 4, 3, 1], [1, 2, 2, 1], [6, 0, 0, 2], [0, 1, 1, 1], [4, 3, 1, 1]]\<rparr>"

lemma less_customers: "i < NUMBER_OF_CUSTOMERS \<longleftrightarrow> i \<in> {0, 1, 2, 3, 4}"
  by (auto simp: NUMBER_OF_CUSTOMERS_def)

lemma less_resources: "j < NUMBER_OF_RESOURCES \<longleftrightarrow> j \<in> {0, 1, 2, 3}"
  by (auto simp: NUMBER_OF_RESOURCES_def)

lemmas banker_bounds = less_customers less_resources NUMBER_OF_CUSTOMERS_def NUMBER_OF_RESOURCES_def

lemma sample_inv: "reachable_inv (\<lambda>j. [10, 5, 7, 4] ! j) sample_banker"
  by (auto simp: reachable_inv_def banker_wf_def nonneg_alloc_def sample_banker_def less_customers
      less_resources) (simp_all add: NUMBER_OF_CUSTOMERS_def NUMBER_OF_RESOURCES_def numeral_eq_Suc)

theorem banker_check_safe_iff_witness:
  "check_safe sample_banker \<and> (\<exists>order. safe_order sample_banker order)"
proof -
  have "check_safe sample_banker" by code_simp
  then show ?thesis
    using banker_check_safe_iff [of sample_banker] reachable_invD(1,2) [OF sample_inv] by simp
qed

text \<open>
  C2 (safety).  Started in a safe state, the program never leaves the safe states, whatever
  characters arrive on standard input (also when the run ends by dereferencing NULL after an
  incomplete command or at end of file).
\<close>

theorem banker_run_stays_safe:
  assumes "banker_init argv ints = Inr b" and "check_safe b"
  shows "check_safe (run_state (banker_loop b [] stdin))"
proof -
  note inv = banker_init_inv [OF assms(1)]
  then have "good (\<lambda>j. available b ! j) True b"
    using assms(2) check_safe_iff_safe by (simp add: good_def)
  from banker_loop_good [OF this, of "[]" stdin] show ?thesis
    using check_safe_iff_safe by (auto simp: good_def)
qed

definition sample_args :: "string list" where
  "sample_args = [''./banker'', ''10'', ''6'', ''7'', ''8'']"

definition sample_ints :: "int list" where
  "sample_ints = [6, 4, 7, 3, 4, 2, 3, 2, 2, 5, 3, 3, 6, 3, 3, 2, 5, 6, 7, 5]"

theorem banker_run_stays_safe_witness:
  "\<exists>b. banker_init sample_args sample_ints = Inr b \<and>
     check_safe (run_state (banker_loop b [] (''RQ 0 1 1 1 1'' @ [newline] @ ''exit'' @ [newline])))"
proof -
  obtain b where b: "banker_init sample_args sample_ints = Inr b"
    by (cases "banker_init sample_args sample_ints")
       (simp_all add: banker_init_def sample_args_def NUMBER_OF_RESOURCES_def atoi_def is_space_def
         is_digit_def)
  have "(case banker_init sample_args sample_ints of Inr b \<Rightarrow> check_safe b | Inl _ \<Rightarrow> False)"
    by code_simp
  then show ?thesis
    using banker_run_stays_safe [OF b] b by auto
qed



text \<open>
  C4 (functional).  What a request does on every branch: it is refused with the state unchanged when
  it exceeds the need, when it exceeds what is available, or when granting it would leave the safe
  states; otherwise exactly the requested amounts move from available and need to allocation.
\<close>

theorem banker_request_decision:
  assumes "reachable_inv t b" and "c < NUMBER_OF_CUSTOMERS" and "length v = NUMBER_OF_RESOURCES"
    and "\<forall>j < NUMBER_OF_RESOURCES. 0 \<le> v ! j"
  shows "request_resources b c v =
    (if \<not> all_le v (need b ! c) then (b, ''Request exceeds need.'' @ [newline])
     else if \<not> all_le v (available b) then (b, ''Request exceeds available.'' @ [newline])
     else if \<exists>order. safe_order (apply_request b c v) order
     then (apply_request b c v, ''Successfully allocated resources.'' @ [newline])
     else (b, ''Request denied to maintain safety.'' @ [newline]))"
  using assms undo_apply_request [of b c v] check_safe_iff_safe [OF reachable_inv_apply [OF assms]]
  by (auto simp: request_resources_def Let_def safe_def reachable_invD)

theorem banker_request_decision_witness:
  "request_resources sample_banker 0 [3, 3, 2, 1] =
     (sample_banker, ''Request denied to maintain safety.'' @ [newline]) \<and>
   \<not> (\<exists>order. safe_order (apply_request sample_banker 0 [3, 3, 2, 1]) order)"
proof -
  have v: "(0::nat) < NUMBER_OF_CUSTOMERS" "length [3, 3, 2, 1 :: int] = NUMBER_OF_RESOURCES"
      "\<forall>j < NUMBER_OF_RESOURCES. 0 \<le> [3, 3, 2, 1 :: int] ! j"
    by (simp_all add: NUMBER_OF_CUSTOMERS_def NUMBER_OF_RESOURCES_def)
       (auto simp: less_resources [unfolded NUMBER_OF_RESOURCES_def])
  have "\<not> check_safe (apply_request sample_banker 0 [3, 3, 2, 1])" by code_simp
  moreover have "reachable_inv (\<lambda>j. [10, 5, 7, 4] ! j) (apply_request sample_banker 0 [3, 3, 2, 1])"
    by (rule reachable_inv_apply [OF sample_inv v]) (simp add: sample_banker_def)
  ultimately have "\<not> (\<exists>order. safe_order (apply_request sample_banker 0 [3, 3, 2, 1]) order)"
    using check_safe_iff_safe by (simp add: safe_def)
  then show ?thesis
    using banker_request_decision [OF sample_inv v] by (simp add: sample_banker_def)
qed

text \<open>
  C5 (liveness).  A safe state is not a dead end: letting the customers request all they still need,
  in a safe order, succeeds for every one of them; at the end all needs are met and every resource is
  available again.
\<close>

theorem banker_safe_can_finish:
  assumes "reachable_inv t b" and "nonneg_need b" and "safe_order b order"
  shows "(\<forall>i < NUMBER_OF_CUSTOMERS. need (grant_all b order) ! i = replicate NUMBER_OF_RESOURCES 0) \<and>
    (\<forall>j < NUMBER_OF_RESOURCES. available (grant_all b order) ! j = t j)"
  using assms by (rule grant_all_complete)

theorem banker_safe_can_finish_witness:
  "safe_order sample_banker [1, 3, 4, 0, 2] \<and>
   available (grant_all sample_banker [1, 3, 4, 0, 2]) ! 0 = 10"
proof -
  have order: "safe_order sample_banker [1, 3, 4, 0, 2]"
    by (auto simp: safe_order_def less_customers sample_banker_def)
  have "nonneg_need sample_banker"
    by (auto simp: nonneg_need_def less_customers less_resources sample_banker_def)
  from banker_safe_can_finish [OF sample_inv this order] order show ?thesis
    by (simp add: banker_bounds)
qed

end
