(* ===== verification/Ring.thy ===== *)
theory Ring
  imports Prelude
begin

text \<open>
  Circular doubly linked lists with a sentinel, over split heap fields: \<open>n\<close> and \<open>p\<close> are the next and
  previous fields as functions of the address.  The LRU cache and both orders of the free list of the
  allocator are such rings, so their pointer manipulations are proved once, here.
\<close>

type_synonym ptr = nat

abbreviation (input) NULL :: ptr where
  "NULL \<equiv> 0"

text \<open>\<open>seg n p a xs b\<close>: following next from \<open>a\<close> visits \<open>xs\<close> and arrives at \<open>b\<close>, and previous leads back.\<close>

fun seg :: "(ptr \<Rightarrow> ptr) \<Rightarrow> (ptr \<Rightarrow> ptr) \<Rightarrow> ptr \<Rightarrow> ptr list \<Rightarrow> ptr \<Rightarrow> bool" where
  "seg n p a [] b = (n a = b \<and> p b = a)"
| "seg n p a (x # xs) b = (n a = x \<and> p x = a \<and> seg n p x xs b)"

definition ring :: "(ptr \<Rightarrow> ptr) \<Rightarrow> (ptr \<Rightarrow> ptr) \<Rightarrow> ptr \<Rightarrow> ptr list \<Rightarrow> bool" where
  "ring n p h xs \<longleftrightarrow> distinct (h # xs) \<and> seg n p h xs h"

lemma seg_append: "seg n p a (xs @ y # ys) b \<longleftrightarrow> seg n p a xs y \<and> seg n p y ys b"
  by (induction xs arbitrary: a) auto

lemma seg_upd_next [simp]: "c \<noteq> a \<Longrightarrow> c \<notin> set xs \<Longrightarrow> seg (n(c := v)) p a xs b = seg n p a xs b"
  by (induction xs arbitrary: a) auto

lemma seg_upd_prev [simp]: "c \<noteq> b \<Longrightarrow> c \<notin> set xs \<Longrightarrow> seg n (p(c := v)) a xs b = seg n p a xs b"
  by (induction xs arbitrary: a) auto

lemma seg_next: "seg n p a xs b \<Longrightarrow> n a = hd (xs @ [b])"
  by (cases xs) auto

lemma seg_prev: "seg n p a xs b \<Longrightarrow> p b = last (a # xs)"
  by (induction xs arbitrary: a) auto

text \<open>Redirecting the end of a segment.\<close>

lemma seg_relink_end:
  "seg n p a xs b \<Longrightarrow> distinct (a # xs) \<Longrightarrow> c \<notin> set xs \<Longrightarrow>
   seg (n(last (a # xs) := c)) (p(c := last (a # xs))) a xs c"
proof (induction xs arbitrary: a)
  case (Cons x xs)
  have "last (x # xs) \<in> set (x # xs)" by (rule last_in_set) simp
  then have "last (x # xs) \<noteq> a" using Cons.prems(2) by (metis distinct.simps(2))
  with Cons show ?case by simp
qed simp

lemma last_Cons_mem: "last (a # xs) \<in> insert a (set xs)"
  using last_in_set [of "a # xs"] by simp

section \<open>Rings\<close>

lemma ring_empty [simp]: "ring n p h [] \<longleftrightarrow> n h = h \<and> p h = h"
  by (simp add: ring_def)

lemma ring_distinct: "ring n p h xs \<Longrightarrow> distinct xs \<and> h \<notin> set xs"
  by (simp add: ring_def)

lemma ring_head_next: "ring n p h xs \<Longrightarrow> n h = hd (xs @ [h])"
  by (auto simp: ring_def dest: seg_next)

lemma ring_head_prev: "ring n p h xs \<Longrightarrow> p h = last (h # xs)"
  unfolding ring_def by (metis seg_prev)

lemma ring_node_next: "ring n p h (xs @ x # ys) \<Longrightarrow> n x = hd (ys @ [h])"
  by (auto simp: ring_def seg_append dest: seg_next)

lemma ring_node_prev: "ring n p h (xs @ x # ys) \<Longrightarrow> p x = last (h # xs)"
  by (auto simp: ring_def seg_append dest!: seg_prev)

lemma ring_unlink:
  assumes "ring n p h (xs @ x # ys)"
  shows "ring (n(p x := n x)) (p(n x := p x)) h (xs @ ys)"
proof -
  have d: "distinct (h # xs @ x # ys)" and s: "seg n p h xs x" "seg n p x ys h"
    using assms by (auto simp: ring_def seg_append)
  have px: "p x = last (h # xs)" and nx: "n x = hd (ys @ [h])"
    using assms ring_node_prev ring_node_next by blast+
  show ?thesis
  proof (cases ys)
    case Nil
    then show ?thesis
      using d seg_relink_end [OF s(1), of h] px nx by (simp add: ring_def)
  next
    case (Cons y ys')
    have "seg (n(p x := y)) (p(y := p x)) h xs y"
      using d seg_relink_end [OF s(1), of y] px Cons by auto
    moreover have "seg (n(p x := y)) (p(y := p x)) y ys' h"
    proof -
      have "p x \<notin> set (y # ys')" "y \<notin> set ys'" "y \<noteq> h"
        using d px Cons last_in_set [of "h # xs"] by auto
      then show ?thesis using s(2) Cons by auto
    qed
    ultimately show ?thesis
      using d Cons nx by (auto simp: ring_def seg_append)
  qed
qed

lemma ring_link:
  assumes "ring n p h (xs @ ys)" and "x \<noteq> h" "x \<notin> set xs" "x \<notin> set ys"
    and a: "a = last (h # xs)" and b: "b = hd (ys @ [h])"
  shows "ring (n(a := x, x := b)) (p(b := x, x := a)) h (xs @ x # ys)"
proof -
  have d: "distinct (h # xs @ ys)" using assms by (simp add: ring_def)
  have xa: "x \<noteq> a" using assms(2,3) last_in_set [of "h # xs"] by (auto simp: a)
  have xb: "x \<noteq> b" using assms(2,4) by (cases ys) (auto simp: b)
  show ?thesis
  proof (cases ys)
    case Nil
    then have s: "seg n p h xs h" using assms(1) by (simp add: ring_def)
    have "seg (n(a := x)) (p(x := a)) h xs x"
      using seg_relink_end [OF s, of x] d assms(3) a by simp
    moreover have "b = h" "h \<notin> set xs" using Nil b d by auto
    moreover have "p(h := x, x := a) = p(x := a, h := x)" using assms(2) by (simp add: fun_upd_twist)
    ultimately show ?thesis
      using Nil xa xb assms(2-4) d by (simp add: ring_def seg_append)
  next
    case (Cons y ys')
    then have s: "seg n p h xs y" "seg n p y ys' h" and beq: "b = y"
      using assms(1) b by (auto simp: ring_def seg_append)
    have "a \<notin> set (y # ys')" using d last_in_set [of "h # xs"] Cons by (auto simp: a)
    moreover have "y \<notin> set xs" "y \<notin> set ys'" "y \<noteq> h" using d Cons by auto
    moreover have "seg (n(a := x)) (p(x := a)) h xs x"
      using seg_relink_end [OF s(1), of x] d assms(3) a by simp
    moreover have "x \<noteq> y" "x \<notin> set ys'" using assms(4) Cons by auto
    moreover have "p(y := x, x := a) = p(x := a, y := x)" using \<open>x \<noteq> y\<close> by (simp add: fun_upd_twist)
    ultimately show ?thesis
      using Cons xa xb assms(2-4) d s(2) beq by (simp add: ring_def seg_append)
  qed
qed

text \<open>The form in which the programs append before the sentinel.\<close>

lemma ring_append:
  assumes "ring n p h xs" and "x \<noteq> h" "x \<notin> set xs"
  shows "ring (n(p h := x, x := h)) (p(h := x, x := p h)) h (xs @ [x])"
  using ring_link [of n p h xs "[]" x] assms ring_head_prev [OF assms(1)] by simp

text \<open>A ring read backwards is a ring, and the two fields are inverse to each other on it.\<close>

lemma seg_rev: "seg n p a xs b \<longleftrightarrow> seg p n b (rev xs) a"
proof (induction xs arbitrary: a)
  case (Cons x xs)
  then show ?case by (auto simp: seg_append)
qed auto

lemma ring_rev: "ring n p h xs \<Longrightarrow> ring p n h (rev xs)"
  using seg_rev [of n p h xs h] by (auto simp: ring_def)

lemma seg_inverse: "seg n p a xs b \<Longrightarrow> x \<in> insert a (set xs) \<Longrightarrow> p (n x) = x \<and> n x \<in> insert b (set xs)"
proof (induction xs arbitrary: a)
  case (Cons y ys)
  then show ?case by (cases "x = a") auto
qed simp

lemma ring_inverse:
  assumes "ring n p h xs" "x \<in> insert h (set xs)"
  shows "p (n x) = x" "n (p x) = x" "n x \<in> insert h (set xs)" "p x \<in> insert h (set xs)"
  using seg_inverse [of n p h xs h x] seg_inverse [of p n h "rev xs" h x] assms seg_rev [of n p h xs h]
  by (auto simp: ring_def)

end
