(* ===== verification/LRU_Cache.thy ===== *)
theory LRU_Cache
  imports Ring
begin

text \<open>
  The generic LRU cache of \<open>CS2303 Operating System/Project 8/LRU_cache.c\<close> at the level of its
  pointers: a circular doubly linked list with a sentinel node, in a heap of nodes of its own.  A node
  that is not in \<open>allocated\<close> has been freed or was never obtained from \<open>malloc\<close>; touching it is
  undefined behaviour (\<open>None\<close>).  \<open>'d\<close> is the type of the data pointers; the comparison function of the
  struct is an argument \<open>eq\<close> of the operations, because it reads the memory the data pointers refer to.
\<close>

section \<open>Nodes and memory\<close>

record 'd LRU_cache =
  lru_head :: ptr
  lru_size :: nat
  lru_capacity :: nat
  node_data :: "ptr \<Rightarrow> 'd option"
  node_prev :: "ptr \<Rightarrow> ptr"
  node_next :: "ptr \<Rightarrow> ptr"
  allocated :: "ptr set"
  brk :: ptr

definition rd_next :: "'d LRU_cache \<Rightarrow> ptr \<Rightarrow> ptr option" where
  "rd_next L q = (if q \<in> allocated L then Some (node_next L q) else None)"

definition rd_prev :: "'d LRU_cache \<Rightarrow> ptr \<Rightarrow> ptr option" where
  "rd_prev L q = (if q \<in> allocated L then Some (node_prev L q) else None)"

definition rd_data :: "'d LRU_cache \<Rightarrow> ptr \<Rightarrow> 'd option option" where
  "rd_data L q = (if q \<in> allocated L then Some (node_data L q) else None)"

definition wr_next :: "'d LRU_cache \<Rightarrow> ptr \<Rightarrow> ptr \<Rightarrow> 'd LRU_cache option" where
  "wr_next L q v = (if q \<in> allocated L then Some (L\<lparr>node_next := (node_next L)(q := v)\<rparr>) else None)"

definition wr_prev :: "'d LRU_cache \<Rightarrow> ptr \<Rightarrow> ptr \<Rightarrow> 'd LRU_cache option" where
  "wr_prev L q v = (if q \<in> allocated L then Some (L\<lparr>node_prev := (node_prev L)(q := v)\<rparr>) else None)"

definition wr_data :: "'d LRU_cache \<Rightarrow> ptr \<Rightarrow> 'd option \<Rightarrow> 'd LRU_cache option" where
  "wr_data L q v = (if q \<in> allocated L then Some (L\<lparr>node_data := (node_data L)(q := v)\<rparr>) else None)"

definition malloc_node :: "'d LRU_cache \<Rightarrow> ptr \<times> 'd LRU_cache" where
  "malloc_node L = (brk L, L\<lparr>allocated := insert (brk L) (allocated L), brk := Suc (brk L)\<rparr>)"

definition free_node :: "'d LRU_cache \<Rightarrow> ptr \<Rightarrow> 'd LRU_cache option" where
  "free_node L q = (if q \<in> allocated L then Some (L\<lparr>allocated := allocated L - {q}\<rparr>) else None)"

lemmas mem_defs = rd_next_def rd_prev_def rd_data_def wr_next_def wr_prev_def wr_data_def
  malloc_node_def free_node_def

section \<open>Operations\<close>

definition LRU_cache_create :: "nat \<Rightarrow> 'd LRU_cache" where
  "LRU_cache_create cap =
     \<lparr>lru_head = 1, lru_size = 0, lru_capacity = cap,
      node_data = (\<lambda>_. None), node_prev = (\<lambda>_. NULL)(1 := 1), node_next = (\<lambda>_. NULL)(1 := 1),
      allocated = {1}, brk = 2\<rparr>"

partial_function (option) clear_loop :: "'d LRU_cache \<Rightarrow> ptr \<Rightarrow> 'd LRU_cache option" where
  "clear_loop L node =
     (if node = lru_head L then Some L
      else do {
        next \<leftarrow> rd_next L node;
        L1 \<leftarrow> free_node L node;
        clear_loop L1 next
      })"

definition LRU_cache_clear :: "'d LRU_cache \<Rightarrow> 'd LRU_cache option" where
  "LRU_cache_clear L = do {
     node \<leftarrow> rd_next L (lru_head L);
     L1 \<leftarrow> clear_loop L node;
     L2 \<leftarrow> wr_next L1 (lru_head L1) (lru_head L1);
     L3 \<leftarrow> wr_prev L2 (lru_head L2) (lru_head L2);
     Some (L3\<lparr>lru_size := 0\<rparr>)
   }"

definition LRU_cache_destroy :: "'d LRU_cache \<Rightarrow> 'd LRU_cache option" where
  "LRU_cache_destroy L = do {
     L1 \<leftarrow> LRU_cache_clear L;
     L2 \<leftarrow> free_node L1 (lru_head L1);
     Some (L2\<lparr>lru_head := NULL\<rparr>)
   }"

definition LRU_cache_size :: "'d LRU_cache \<Rightarrow> nat" where
  "LRU_cache_size L = lru_size L"

definition LRU_cache_capacity :: "'d LRU_cache \<Rightarrow> nat" where
  "LRU_cache_capacity L = lru_capacity L"

definition LRU_cache_empty :: "'d LRU_cache \<Rightarrow> bool" where
  "LRU_cache_empty L \<longleftrightarrow> lru_size L = 0"

definition LRU_cache_full :: "'d LRU_cache \<Rightarrow> bool" where
  "LRU_cache_full L \<longleftrightarrow> lru_size L = lru_capacity L"

text \<open>
  The search loop that \<open>LRU_cache_query\<close> and \<open>LRU_cache_remove\<close> have in common: the first node
  whose data equals the key, \<open>None\<close> inside \<open>Some\<close> when the sentinel is reached.
\<close>

partial_function (option) find_loop :: "('d \<Rightarrow> 'd \<Rightarrow> bool) \<Rightarrow> 'd LRU_cache \<Rightarrow> 'd \<Rightarrow> ptr \<Rightarrow> ptr option option" where
  "find_loop eq L key node =
     (if node = lru_head L then Some None
      else do {
        data \<leftarrow> rd_data L node;
        d \<leftarrow> data;
        if eq d key then Some (Some node)
        else do { next \<leftarrow> rd_next L node; find_loop eq L key next }
      })"

text \<open>\<open>node->prev->next = node->next; node->next->prev = node->prev;\<close>\<close>

definition unlink_node :: "'d LRU_cache \<Rightarrow> ptr \<Rightarrow> 'd LRU_cache option" where
  "unlink_node L node = do {
     prior \<leftarrow> rd_prev L node;
     after \<leftarrow> rd_next L node;
     L1 \<leftarrow> wr_next L prior after;
     after1 \<leftarrow> rd_next L1 node;
     prior1 \<leftarrow> rd_prev L1 node;
     wr_prev L1 after1 prior1
   }"

text \<open>Link \<open>node\<close> before the sentinel, that is at the most recently used end.\<close>

definition link_last :: "'d LRU_cache \<Rightarrow> ptr \<Rightarrow> 'd LRU_cache option" where
  "link_last L node = do {
     last1 \<leftarrow> rd_prev L (lru_head L);
     L1 \<leftarrow> wr_prev L node last1;
     L2 \<leftarrow> wr_next L1 node (lru_head L1);
     last2 \<leftarrow> rd_prev L2 (lru_head L2);
     L3 \<leftarrow> wr_next L2 last2 node;
     wr_prev L3 (lru_head L3) node
   }"

definition LRU_cache_query ::
  "('d \<Rightarrow> 'd \<Rightarrow> bool) \<Rightarrow> 'd LRU_cache \<Rightarrow> 'd \<Rightarrow> ('d LRU_cache \<times> 'd option) option" where
  "LRU_cache_query eq L key = do {
     first \<leftarrow> rd_next L (lru_head L);
     hit \<leftarrow> find_loop eq L key first;
     (case hit of
        None \<Rightarrow> Some (L, None)
      | Some node \<Rightarrow> do {
          L1 \<leftarrow> unlink_node L node;
          L2 \<leftarrow> link_last L1 node;
          data \<leftarrow> rd_data L2 node;
          Some (L2, data)
        })
   }"

text \<open>The eviction of \<open>LRU_cache_insert\<close>: unlink and free the node after the sentinel.\<close>

definition evict_first :: "'d LRU_cache \<Rightarrow> ('d LRU_cache \<times> 'd option) option" where
  "evict_first L = do {
     node \<leftarrow> rd_next L (lru_head L);
     after \<leftarrow> rd_next L node;
     L1 \<leftarrow> wr_next L (lru_head L) after;
     after1 \<leftarrow> rd_next L1 node;
     L2 \<leftarrow> wr_prev L1 after1 (lru_head L1);
     removed_data \<leftarrow> rd_data L2 node;
     L3 \<leftarrow> free_node L2 node;
     Some (L3\<lparr>lru_size := size_dec (lru_size L3)\<rparr>, removed_data)
   }"

definition LRU_cache_insert ::
  "('d \<Rightarrow> 'd \<Rightarrow> bool) \<Rightarrow> 'd LRU_cache \<Rightarrow> 'd \<Rightarrow> ('d LRU_cache \<times> 'd option) option" where
  "LRU_cache_insert eq L data = do {
     (L0, query_data) \<leftarrow> LRU_cache_query eq L data;
     (if query_data \<noteq> None then Some (L0, None)
      else do {
        (L1, removed_data) \<leftarrow> (if LRU_cache_full L0 then evict_first L0 else Some (L0, None));
        (let (node, L2) = malloc_node L1 in do {
          L3 \<leftarrow> wr_data L2 node (Some data);
          L4 \<leftarrow> link_last L3 node;
          Some (L4\<lparr>lru_size := size_inc (lru_size L4)\<rparr>, removed_data)
        })
      })
   }"

definition LRU_cache_least_recently_used :: "'d LRU_cache \<Rightarrow> 'd option option" where
  "LRU_cache_least_recently_used L =
     (if LRU_cache_empty L then Some None
      else do { first \<leftarrow> rd_next L (lru_head L); rd_data L first })"

definition LRU_cache_remove ::
  "('d \<Rightarrow> 'd \<Rightarrow> bool) \<Rightarrow> 'd LRU_cache \<Rightarrow> 'd \<Rightarrow> ('d LRU_cache \<times> 'd option) option" where
  "LRU_cache_remove eq L key = do {
     first \<leftarrow> rd_next L (lru_head L);
     hit \<leftarrow> find_loop eq L key first;
     (case hit of
        None \<Rightarrow> Some (L, None)
      | Some node \<Rightarrow> do {
          L1 \<leftarrow> unlink_node L node;
          removed_data \<leftarrow> rd_data L1 node;
          L2 \<leftarrow> free_node L1 node;
          Some (L2\<lparr>lru_size := size_dec (lru_size L2)\<rparr>, removed_data)
        })
   }"

text \<open>\<open>LRU_cache_print\<close> calls the print function on the data in ring order; the model returns that order.\<close>

partial_function (option) print_loop :: "'d LRU_cache \<Rightarrow> ptr \<Rightarrow> 'd option list \<Rightarrow> 'd option list option" where
  "print_loop L node acc =
     (if node = lru_head L then Some acc
      else do {
        data \<leftarrow> rd_data L node;
        next \<leftarrow> rd_next L node;
        print_loop L next (acc @ [data])
      })"

definition LRU_cache_print :: "'d LRU_cache \<Rightarrow> 'd option list option" where
  "LRU_cache_print L = do { first \<leftarrow> rd_next L (lru_head L); print_loop L first [] }"

declare clear_loop.simps [code] find_loop.simps [code] print_loop.simps [code]

section \<open>Representation\<close>

text \<open>
  \<open>lru_nodes L ps ds\<close>: the ring consists of the nodes \<open>ps\<close> holding the data \<open>ds\<close>, least recently
  used first; exactly the sentinel and these nodes are allocated (nothing leaks).
\<close>

definition lru_nodes :: "'d LRU_cache \<Rightarrow> ptr list \<Rightarrow> 'd list \<Rightarrow> bool" where
  "lru_nodes L ps ds \<longleftrightarrow>
     ring (node_next L) (node_prev L) (lru_head L) ps \<and>
     map (node_data L) ps = map Some ds \<and>
     allocated L = insert (lru_head L) (set ps) \<and> (\<forall>q \<in> allocated L. q < brk L) \<and>
     lru_size L = length ds \<and> length ds \<le> lru_capacity L \<and> lru_capacity L < SIZE_MINUS_1"

definition lru_rep :: "'d LRU_cache \<Rightarrow> 'd list \<Rightarrow> bool" where
  "lru_rep L ds \<longleftrightarrow> (\<exists>ps. lru_nodes L ps ds)"

lemma lru_nodes_length: "lru_nodes L ps ds \<Longrightarrow> length ps = length ds"
  unfolding lru_nodes_def by (metis length_map)

lemma find_loop_seg:
  assumes "seg (node_next L) pv a ps (lru_head L)" and "lru_head L \<notin> set ps"
    and "map (node_data L) ps = map Some ds" and "set ps \<subseteq> allocated L"
  shows "find_loop eq L key (hd (ps @ [lru_head L])) =
    Some (case List.extract (\<lambda>d. eq d key) ds of
        None \<Rightarrow> None
      | Some (ys, y, zs) \<Rightarrow> Some (ps ! length ys))"
  using assms
proof (induction ps arbitrary: a ds)
  case Nil
  then show ?case by (simp add: find_loop.simps extract_Nil_code)
next
  case (Cons q ps)
  then obtain d ds' where ds: "ds = d # ds'" "node_data L q = Some d" "map (node_data L) ps = map Some ds'"
    by (cases ds) auto
  have "q \<noteq> lru_head L" "q \<in> allocated L" "node_next L q = hd (ps @ [lru_head L])"
    using Cons.prems by (auto dest: seg_next)
  then show ?case
    using Cons ds
    by (auto simp: find_loop.simps [of eq L key q] rd_data_def rd_next_def extract_Cons_code
        split: option.splits)
qed

section \<open>The list the cache stands for\<close>

definition spec_query :: "('d \<Rightarrow> bool) \<Rightarrow> 'd list \<Rightarrow> 'd list \<times> 'd option" where
  "spec_query m ds = (case List.extract m ds of
       None \<Rightarrow> (ds, None)
     | Some (ys, y, zs) \<Rightarrow> (ys @ zs @ [y], Some y))"

definition spec_insert :: "nat \<Rightarrow> ('d \<Rightarrow> bool) \<Rightarrow> 'd list \<Rightarrow> 'd \<Rightarrow> 'd list \<times> 'd option" where
  "spec_insert cap m ds d = (case List.extract m ds of
       Some (ys, y, zs) \<Rightarrow> (ys @ zs @ [y], None)
     | None \<Rightarrow> (if length ds = cap then (tl ds @ [d], Some (hd ds)) else (ds @ [d], None)))"

definition spec_remove :: "('d \<Rightarrow> bool) \<Rightarrow> 'd list \<Rightarrow> 'd list \<times> 'd option" where
  "spec_remove m ds = (case List.extract m ds of
       None \<Rightarrow> (ds, None)
     | Some (ys, y, zs) \<Rightarrow> (ys @ zs, Some y))"

lemma lru_nodesD:
  assumes "lru_nodes L ps ds"
  shows "lru_head L \<in> allocated L" "lru_head L \<notin> set ps" "distinct ps"
    and "q \<in> set ps \<Longrightarrow> q \<in> allocated L"
    and "seg (node_next L) (node_prev L) (lru_head L) ps (lru_head L)"
    and "map (node_data L) ps = map Some ds"
    and "node_next L (lru_head L) = hd (ps @ [lru_head L])"
    and "node_prev L (lru_head L) = last (lru_head L # ps)"
proof -
  have r: "ring (node_next L) (node_prev L) (lru_head L) ps" using assms by (simp add: lru_nodes_def)
  show "node_next L (lru_head L) = hd (ps @ [lru_head L])" using ring_head_next [OF r] .
  show "node_prev L (lru_head L) = last (lru_head L # ps)" using ring_head_prev [OF r] .
qed (use assms in \<open>auto simp: lru_nodes_def ring_def\<close>)

lemma find_first:
  assumes "lru_nodes L ps ds"
  shows "rd_next L (lru_head L) = Some (hd (ps @ [lru_head L]))"
    and "find_loop eq L key (hd (ps @ [lru_head L])) =
      Some (case List.extract (\<lambda>d. eq d key) ds of
          None \<Rightarrow> None
        | Some (ys, y, zs) \<Rightarrow> Some (ps ! length ys))"
  using find_loop_seg [OF lru_nodesD(5,2,6) [OF assms]] lru_nodesD [OF assms]
  by (auto simp: rd_next_def lru_nodes_def)

text \<open>The node at a position of the ring can be unlinked; it stays allocated with its data.\<close>

lemma unlink_node_at:
  assumes "lru_nodes L (xs @ q # ys) ds"
  shows "unlink_node L q = Some (L\<lparr>node_next := (node_next L)(node_prev L q := node_next L q),
                                   node_prev := (node_prev L)(node_next L q := node_prev L q)\<rparr>)"
proof -
  have r: "ring (node_next L) (node_prev L) (lru_head L) (xs @ q # ys)"
    and al: "allocated L = insert (lru_head L) (set (xs @ q # ys))"
    using assms by (auto simp: lru_nodes_def)
  have "node_prev L q \<in> allocated L" "node_next L q \<in> allocated L"
    using ring_node_prev [OF r] ring_node_next [OF r] al last_in_set [of "lru_head L # xs"]
    by (auto simp: hd_append neq_Nil_conv split: list.splits)
  then show ?thesis
    using al by (auto simp: unlink_node_def mem_defs)
qed

lemma link_last_simple:
  assumes "lru_head L \<in> allocated L" "q \<in> allocated L" "node_prev L (lru_head L) \<in> allocated L"
    and "q \<noteq> lru_head L"
  shows "link_last L q = Some (L\<lparr>
      node_next := (node_next L)(node_prev L (lru_head L) := q, q := lru_head L),
      node_prev := (node_prev L)(lru_head L := q, q := node_prev L (lru_head L))\<rparr>)
    \<or> node_prev L (lru_head L) = q"
  using assms by (auto simp: link_last_def mem_defs fun_upd_twist)

lemma query_hit:
  assumes rep: "lru_nodes L (xs @ q # ys) (ds1 @ d # ds2)" and len: "length xs = length ds1"
  shows "\<exists>L'. (do { L1 \<leftarrow> unlink_node L q; L2 \<leftarrow> link_last L1 q; data \<leftarrow> rd_data L2 q; Some (L2, data) })
      = Some (L', Some d) \<and> lru_nodes L' (xs @ ys @ [q]) (ds1 @ ds2 @ [d]) \<and>
      lru_capacity L' = lru_capacity L"
proof -
  let ?h = "lru_head L"
  define L1 where "L1 = L\<lparr>node_next := (node_next L)(node_prev L q := node_next L q),
                          node_prev := (node_prev L)(node_next L q := node_prev L q)\<rparr>"
  have r: "ring (node_next L) (node_prev L) ?h (xs @ q # ys)"
    and al: "allocated L = insert ?h (set (xs @ q # ys))"
    and dt: "map (node_data L) (xs @ q # ys) = map Some (ds1 @ d # ds2)"
    using rep by (auto simp: lru_nodes_def)
  then have dt': "map (node_data L) xs = map Some ds1" "node_data L q = Some d"
      "map (node_data L) ys = map Some ds2"
    using len by auto
  have q: "q \<noteq> ?h" "q \<notin> set (xs @ ys)" using r by (auto simp: ring_def)
  have r1: "ring (node_next L1) (node_prev L1) ?h (xs @ ys)"
    using ring_unlink [OF r] by (simp add: L1_def)
  have "node_prev L1 ?h = last (?h # xs @ ys)" using ring_head_prev [OF r1] .
  then have last: "node_prev L1 ?h \<in> allocated L" "node_prev L1 ?h \<noteq> q"
    using last_in_set [of "?h # xs @ ys"] al q by (auto simp del: last.simps)
  then have link: "link_last L1 q = Some (L1\<lparr>
      node_next := (node_next L1)(node_prev L1 ?h := q, q := ?h),
      node_prev := (node_prev L1)(?h := q, q := node_prev L1 ?h)\<rparr>)" (is "_ = Some ?L2")
    using link_last_simple [of L1 q] al q(1) by (auto simp: L1_def)
  have "ring (node_next ?L2) (node_prev ?L2) ?h ((xs @ ys) @ [q])"
    using ring_append [OF r1 q] by simp
  then have "lru_nodes ?L2 (xs @ ys @ [q]) (ds1 @ ds2 @ [d])"
    using rep dt' unfolding lru_nodes_def by (auto simp: L1_def)
  then show ?thesis
    using unlink_node_at [OF rep] link al dt' by (auto simp: L1_def [symmetric] rd_data_def) (auto simp: L1_def)
qed

lemma lru_nodes_split:
  assumes "lru_nodes L ps (ds1 @ d # ds2)"
  obtains xs q ys where "ps = xs @ q # ys" "length xs = length ds1" "ps ! length ds1 = q"
proof -
  have "length ds1 < length ps" using lru_nodes_length [OF assms] by simp
  then show ?thesis
    using that [of "take (length ds1) ps" "ps ! length ds1" "drop (Suc (length ds1)) ps"]
    by (simp add: id_take_nth_drop)
qed

theorem LRU_cache_query_refines:
  assumes "lru_rep L ds"
  shows "\<exists>L'. LRU_cache_query eq L key = Some (L', snd (spec_query (\<lambda>d. eq d key) ds)) \<and>
    lru_rep L' (fst (spec_query (\<lambda>d. eq d key) ds)) \<and> lru_capacity L' = lru_capacity L"
proof -
  obtain ps where rep: "lru_nodes L ps ds" using assms by (auto simp: lru_rep_def)
  note f = find_first(1) [OF rep] find_first(2) [OF rep, of eq key]
  show ?thesis
  proof (cases "List.extract (\<lambda>d. eq d key) ds")
    case None
    then show ?thesis
      using f assms unfolding LRU_cache_query_def spec_query_def
      by simp
  next
    case (Some t)
    then obtain ds1 d ds2 where t: "t = (ds1, d, ds2)" and ds: "ds = ds1 @ d # ds2"
      by (cases t) (auto dest: extract_SomeE)
    obtain xs q ys where ps: "ps = xs @ q # ys" "length xs = length ds1" "ps ! length ds1 = q"
      using lru_nodes_split [OF rep [unfolded ds]] .
    obtain L' where L': "(do { L1 \<leftarrow> unlink_node L q; L2 \<leftarrow> link_last L1 q; data \<leftarrow> rd_data L2 q; Some (L2, data) })
        = Some (L', Some d)" "lru_nodes L' (xs @ ys @ [q]) (ds1 @ ds2 @ [d])" "lru_capacity L' = lru_capacity L"
      using query_hit [OF rep [unfolded ps(1) ds] ps(2)] by (elim exE conjE)
    have "LRU_cache_query eq L key = Some (L', Some d)"
      unfolding L'(1) [symmetric] LRU_cache_query_def using f Some t ps(3) by simp
    moreover have "spec_query (\<lambda>d. eq d key) ds = (ds1 @ ds2 @ [d], Some d)"
      by (simp add: spec_query_def Some t)
    ultimately show ?thesis using L'(2,3) by (auto simp: lru_rep_def)
  qed
qed

lemma evict_first_nodes:
  assumes rep: "lru_nodes L (q # ps) (d # ds)"
  shows "\<exists>L'. evict_first L = Some (L', Some d) \<and> lru_nodes L' ps ds \<and> lru_capacity L' = lru_capacity L"
proof -
  let ?h = "lru_head L"
  have r: "ring (node_next L) (node_prev L) ?h ([] @ q # ps)"
    and al: "allocated L = insert ?h (set (q # ps))"
    and dt: "node_data L q = Some d" "map (node_data L) ps = map Some ds"
    and sz: "lru_size L = Suc (length ds)" "Suc (length ds) \<le> lru_capacity L" "lru_capacity L < SIZE_MINUS_1"
    using rep by (auto simp: lru_nodes_def)
  have hn: "node_next L ?h = q" and qp: "node_prev L q = ?h" and qn: "node_next L q = hd (ps @ [?h])"
    using ring_head_next [OF r] ring_node_prev [OF r] ring_node_next [OF r] by auto
  have q: "q \<noteq> ?h" "q \<notin> set ps" using r by (auto simp: ring_def)
  have "node_next L q \<in> allocated L" using qn al by (cases ps) auto
  moreover have "size_dec (lru_size L) = length ds"
    using size_dec_small [of "lru_size L"] sz by simp
  moreover have "ring ((node_next L)(?h := node_next L q)) ((node_prev L)(node_next L q := ?h)) ?h ps"
    using ring_unlink [OF r] qp by simp
  ultimately show ?thesis
    using rep dt q hn al sz unfolding lru_nodes_def
    by (auto simp: evict_first_def mem_defs)
qed

lemma append_node:
  assumes rep: "lru_nodes L ps ds" and room: "length ds < lru_capacity L"
  shows "\<exists>L'. (let (node, L2) = malloc_node L in do {
            L3 \<leftarrow> wr_data L2 node (Some d);
            L4 \<leftarrow> link_last L3 node;
            Some (L4\<lparr>lru_size := size_inc (lru_size L4)\<rparr>, r)
          }) = Some (L', r) \<and> lru_nodes L' (ps @ [brk L]) (ds @ [d]) \<and> lru_capacity L' = lru_capacity L"
proof -
  let ?h = "lru_head L" and ?q = "brk L"
  define L3 where "L3 = L\<lparr>node_data := (node_data L)(?q := Some d),
      allocated := insert ?q (allocated L), brk := Suc ?q\<rparr>"
  have r: "ring (node_next L) (node_prev L) ?h ps" and al: "allocated L = insert ?h (set ps)"
    and fresh: "\<forall>q \<in> allocated L. q < ?q"
    and sz: "lru_size L = length ds" "lru_capacity L < SIZE_MINUS_1"
    and dt: "map (node_data L) ps = map Some ds"
    using rep by (auto simp: lru_nodes_def)
  have q: "?q \<noteq> ?h" "?q \<notin> set ps" using fresh al by auto
  have "node_prev L ?h \<in> allocated L"
    unfolding ring_head_prev [OF r] al by (rule last_Cons_mem)
  moreover from this have "node_prev L ?h \<noteq> ?q" using fresh by (metis less_irrefl)
  ultimately have link: "link_last L3 ?q = Some (L3\<lparr>
      node_next := (node_next L)(node_prev L ?h := ?q, ?q := ?h),
      node_prev := (node_prev L)(?h := ?q, ?q := node_prev L ?h)\<rparr>)" (is "_ = Some ?L4")
    using link_last_simple [of L3 ?q] al q(1) by (auto simp: L3_def)
  have dt': "map ((node_data L)(?q := Some d)) ps = map Some ds"
    using dt q(2) by (metis fun_upd_apply map_cong)
  have "size_inc (lru_size L) = Suc (length ds)"
    using size_inc_small [of "lru_size L"] sz room by simp
  moreover have "ring (node_next ?L4) (node_prev ?L4) ?h (ps @ [?q])"
    using ring_append [OF r q] by simp
  ultimately have "lru_nodes (?L4\<lparr>lru_size := size_inc (lru_size ?L4)\<rparr>) (ps @ [?q]) (ds @ [d])"
    using rep room dt' fresh unfolding lru_nodes_def by (auto simp: L3_def less_SucI)
  moreover have "wr_data (snd (malloc_node L)) ?q (Some d) = Some L3"
    by (simp add: mem_defs L3_def)
  ultimately show ?thesis
    using link by (auto simp: malloc_node_def L3_def)
qed

theorem LRU_cache_insert_refines:
  assumes rep: "lru_rep L ds" and cap: "0 < lru_capacity L"
  shows "\<exists>L'. LRU_cache_insert eq L d = Some (L', snd (spec_insert (lru_capacity L) (\<lambda>x. eq x d) ds d)) \<and>
    lru_rep L' (fst (spec_insert (lru_capacity L) (\<lambda>x. eq x d) ds d)) \<and>
    lru_capacity L' = lru_capacity L"
proof -
  obtain L0 where L0: "LRU_cache_query eq L d = Some (L0, snd (spec_query (\<lambda>x. eq x d) ds))"
      "lru_rep L0 (fst (spec_query (\<lambda>x. eq x d) ds))" "lru_capacity L0 = lru_capacity L"
    using LRU_cache_query_refines [OF rep] by blast
  show ?thesis
  proof (cases "List.extract (\<lambda>x. eq x d) ds")
    case (Some t)
    then show ?thesis
      using L0 by (cases t) (auto simp: LRU_cache_insert_def spec_insert_def spec_query_def)
  next
    case None
    then have miss: "LRU_cache_query eq L d = Some (L0, None)" and rep0: "lru_rep L0 ds"
      using L0 by (auto simp: spec_query_def)
    then obtain ps where nodes: "lru_nodes L0 ps ds" by (auto simp: lru_rep_def)
    have size: "lru_size L0 = length ds" "length ds \<le> lru_capacity L0"
      using nodes by (auto simp: lru_nodes_def)
    show ?thesis
    proof (cases "length ds = lru_capacity L")
      case True
      then obtain d0 ds' q ps' where ds: "ds = d0 # ds'" and ps: "ps = q # ps'"
        using cap lru_nodes_length [OF nodes] by (cases ds; cases ps) auto
      obtain L1 where L1: "evict_first L0 = Some (L1, Some d0)" "lru_nodes L1 ps' ds'"
          "lru_capacity L1 = lru_capacity L0"
        using evict_first_nodes [OF nodes [unfolded ds ps]] by (elim exE conjE)
      have "length ds' < lru_capacity L1" using True ds L0(3) L1(3) by simp
      from append_node [OF L1(2) this, of d "Some d0"] show ?thesis
        using None miss L1 True L0(3) size ds
        by (auto simp: LRU_cache_insert_def spec_insert_def LRU_cache_full_def lru_rep_def)
    next
      case False
      then have "length ds < lru_capacity L0" using size L0(3) by simp
      from append_node [OF nodes this, of d None] show ?thesis
        using None miss False L0(3) size
        by (auto simp: LRU_cache_insert_def spec_insert_def LRU_cache_full_def lru_rep_def)
    qed
  qed
qed

theorem LRU_cache_remove_refines:
  assumes rep: "lru_rep L ds"
  shows "\<exists>L'. LRU_cache_remove eq L key = Some (L', snd (spec_remove (\<lambda>d. eq d key) ds)) \<and>
    lru_rep L' (fst (spec_remove (\<lambda>d. eq d key) ds)) \<and> lru_capacity L' = lru_capacity L"
proof -
  obtain ps where nodes: "lru_nodes L ps ds" using rep by (auto simp: lru_rep_def)
  note f = find_first(1) [OF nodes] find_first(2) [OF nodes, of eq key]
  show ?thesis
  proof (cases "List.extract (\<lambda>d. eq d key) ds")
    case None
    then show ?thesis
      using f rep unfolding LRU_cache_remove_def spec_remove_def by simp
  next
    case (Some t)
    then obtain ds1 d ds2 where t: "t = (ds1, d, ds2)" and ds: "ds = ds1 @ d # ds2"
      by (cases t) (auto dest: extract_SomeE)
    obtain xs q ys where ps: "ps = xs @ q # ys" "length xs = length ds1" "ps ! length ds1 = q"
      using lru_nodes_split [OF nodes [unfolded ds]] .
    note nodes' = nodes [unfolded ps(1) ds]
    let ?L1 = "L\<lparr>node_next := (node_next L)(node_prev L q := node_next L q),
                  node_prev := (node_prev L)(node_next L q := node_prev L q)\<rparr>"
    let ?L2 = "?L1\<lparr>allocated := allocated L - {q}, lru_size := size_dec (lru_size L)\<rparr>"
    have r: "ring (node_next L) (node_prev L) (lru_head L) (xs @ q # ys)"
      and al: "allocated L = insert (lru_head L) (set (xs @ q # ys))"
      and dt: "map (node_data L) (xs @ q # ys) = map Some (ds1 @ d # ds2)"
      and sz: "lru_size L = Suc (length (ds1 @ ds2))" "Suc (length (ds1 @ ds2)) \<le> lru_capacity L"
        "lru_capacity L < SIZE_MINUS_1"
      using nodes' by (auto simp: lru_nodes_def)
    have q: "q \<noteq> lru_head L" "q \<notin> set (xs @ ys)" using r by (auto simp: ring_def)
    have dt': "map (node_data L) xs = map Some ds1" "node_data L q = Some d"
        "map (node_data L) ys = map Some ds2"
      using dt ps(2) by auto
    have "size_dec (lru_size L) = length (ds1 @ ds2)"
      using size_dec_small [of "lru_size L"] sz by simp
    then have "lru_nodes ?L2 (xs @ ys) (ds1 @ ds2)"
      using nodes' ring_unlink [OF r] dt' q sz unfolding lru_nodes_def by auto
    moreover have "LRU_cache_remove eq L key = Some (?L2, Some d)"
      using f Some t ps(3) unlink_node_at [OF nodes'] al dt'(2)
      by (simp add: LRU_cache_remove_def rd_data_def free_node_def)
    moreover have "spec_remove (\<lambda>d. eq d key) ds = (ds1 @ ds2, Some d)"
      by (simp add: spec_remove_def Some t)
    ultimately show ?thesis by (auto simp: lru_rep_def)
  qed
qed

lemma LRU_cache_create_rep: "cap < SIZE_MINUS_1 \<Longrightarrow> lru_rep (LRU_cache_create cap) []"
  by (auto simp: lru_rep_def lru_nodes_def LRU_cache_create_def intro!: exI [of _ "[]"])

lemma lru_rep_size:
  "lru_rep L ds \<Longrightarrow> LRU_cache_size L = length ds \<and> length ds \<le> lru_capacity L \<and>
     (LRU_cache_empty L \<longleftrightarrow> ds = []) \<and> (LRU_cache_full L \<longleftrightarrow> length ds = lru_capacity L)"
  by (auto simp: lru_rep_def lru_nodes_def LRU_cache_size_def LRU_cache_empty_def LRU_cache_full_def)

lemma LRU_cache_least_recently_used_rep:
  assumes "lru_rep L ds"
  shows "LRU_cache_least_recently_used L = Some (case ds of [] \<Rightarrow> None | d # _ \<Rightarrow> Some d)"
proof -
  obtain ps where nodes: "lru_nodes L ps ds" using assms by (auto simp: lru_rep_def)
  then show ?thesis
    using find_first(1) [OF nodes] lru_nodesD(4,6) [OF nodes] lru_rep_size [OF assms]
    by (cases ds; cases ps) (auto simp: LRU_cache_least_recently_used_def rd_data_def)
qed

lemma print_loop_seg:
  assumes "seg (node_next L) pv a ps (lru_head L)" and "lru_head L \<notin> set ps"
    and "map (node_data L) ps = map Some ds" and "set ps \<subseteq> allocated L"
  shows "print_loop L (hd (ps @ [lru_head L])) acc = Some (acc @ map Some ds)"
  using assms
proof (induction ps arbitrary: a ds acc)
  case Nil
  then show ?case by (simp add: print_loop.simps)
next
  case (Cons q ps)
  have "q \<noteq> lru_head L" "q \<in> allocated L" "node_next L q = hd (ps @ [lru_head L])"
    using Cons.prems by (auto dest: seg_next)
  with Cons show ?case
    by (cases ds) (auto simp: print_loop.simps [of L q] rd_data_def rd_next_def)
qed

lemma LRU_cache_print_rep: "lru_rep L ds \<Longrightarrow> LRU_cache_print L = Some (map Some ds)"
  using find_first(1) print_loop_seg [OF lru_nodesD(5,2,6)]
  by (fastforce simp: lru_rep_def LRU_cache_print_def dest: lru_nodesD(4))

text \<open>Clearing frees every node of the ring exactly once and nothing else.\<close>

lemma clear_loop_seg:
  assumes "seg (node_next L) pv a ps (lru_head L)" and "distinct ps" "lru_head L \<notin> set ps"
    and "set ps \<subseteq> allocated L"
  shows "clear_loop L (hd (ps @ [lru_head L])) = Some (L\<lparr>allocated := allocated L - set ps\<rparr>)"
  using assms
proof (induction ps arbitrary: a L)
  case Nil
  then show ?case by (simp add: clear_loop.simps)
next
  case (Cons q ps)
  let ?L = "L\<lparr>allocated := allocated L - {q}\<rparr>"
  have q: "q \<noteq> lru_head L" "q \<in> allocated L" "node_next L q = hd (ps @ [lru_head L])"
    using Cons.prems by (auto dest: seg_next)
  have "clear_loop ?L (hd (ps @ [lru_head ?L])) = Some (?L\<lparr>allocated := allocated ?L - set ps\<rparr>)"
    using Cons.prems by (intro Cons.IH [of _ q]) auto
  then show ?case
    using q by (simp add: clear_loop.simps [of L q] rd_next_def free_node_def)
       (simp add: Diff_insert2 [symmetric])
qed

lemma LRU_cache_clear_rep:
  assumes "lru_rep L ds"
  shows "\<exists>L'. LRU_cache_clear L = Some L' \<and> lru_rep L' [] \<and> lru_capacity L' = lru_capacity L \<and>
    allocated L' = {lru_head L'}"
proof -
  obtain ps where nodes: "lru_nodes L ps ds" using assms by (auto simp: lru_rep_def)
  have al: "allocated L = insert (lru_head L) (set ps)" "\<forall>q \<in> allocated L. q < brk L"
    using nodes by (auto simp: lru_nodes_def)
  have "clear_loop L (hd (ps @ [lru_head L])) = Some (L\<lparr>allocated := allocated L - set ps\<rparr>)"
    using clear_loop_seg [OF lru_nodesD(5,3,2) [OF nodes]] al by auto
  moreover have "allocated L - set ps = {lru_head L}"
    using al lru_nodesD(2) [OF nodes] by auto
  ultimately show ?thesis
    using find_first(1) [OF nodes] nodes al
    by (auto simp: LRU_cache_clear_def wr_next_def wr_prev_def lru_rep_def lru_nodes_def intro!: exI [of _ "[]"])
qed

lemma LRU_cache_destroy_no_leak:
  "lru_rep L ds \<Longrightarrow> \<exists>L'. LRU_cache_destroy L = Some L' \<and> allocated L' = {}"
  using LRU_cache_clear_rep [of L ds] by (auto simp: LRU_cache_destroy_def free_node_def)

text \<open>The definitions that evaluate an operation on a concrete cache.\<close>

lemmas lru_eval = LRU_cache_create_def LRU_cache_insert_def LRU_cache_query_def LRU_cache_remove_def
  LRU_cache_least_recently_used_def LRU_cache_full_def LRU_cache_empty_def find_loop.simps print_loop.simps
  LRU_cache_print_def unlink_node_def link_last_def evict_first_def mem_defs
  size_inc_small size_dec_small SIZE_MINUS_1_def Let_def

section \<open>The contract of a cache for its clients\<close>

fun insert_all :: "('c \<Rightarrow> 'd \<Rightarrow> ('c \<times> 'd option) option) \<Rightarrow> 'c \<Rightarrow> 'd list \<Rightarrow> 'c option" where
  "insert_all ins c [] = Some c"
| "insert_all ins c (e # es) = do { (c', r) \<leftarrow> ins c e; insert_all ins c' es }"

lemma spec_insert_keeps:
  assumes "length ds \<le> cap" and "ds = xs @ y # ys" and "Suc (length ys) < cap"
  shows "\<exists>xs' ys'. fst (spec_insert cap m ds e) = xs' @ y # ys' \<and> length ys' \<le> Suc (length ys)"
proof (cases "List.extract m ds")
  case None
  show ?thesis
  proof (cases xs)
    case Nil
    then show ?thesis using None assms by (auto simp: spec_insert_def intro: exI [of _ "[]"])
  next
    case (Cons x xs')
    then show ?thesis
      using None assms
      by (auto simp: spec_insert_def intro: exI [of _ xs'] exI [of _ "x # xs'"])
  qed
next
  case (Some t)
  then obtain as b cs where t: "t = (as, b, cs)" "ds = as @ b # cs"
    by (cases t) (auto dest: extract_SomeE)
  then have "as @ b # cs = xs @ y # ys" using assms(2) by simp
  then consider us where "xs = as @ b # us" "cs = us @ y # ys" | "as = xs" "b = y" "cs = ys"
    | us where "as = xs @ y # us" "ys = us @ b # cs"
    by (auto simp: append_eq_append_conv2 Cons_eq_append_conv append_eq_Cons_conv)
  then show ?thesis
  proof cases
    case 1
    have "fst (spec_insert cap m ds e) = (as @ us) @ y # (ys @ [b])"
      using Some t 1 by (simp add: spec_insert_def)
    then show ?thesis by (metis length_append_singleton order_refl)
  next
    case 2
    have "fst (spec_insert cap m ds e) = (as @ cs) @ y # []"
      using Some t 2 by (simp add: spec_insert_def)
    then show ?thesis by (metis le0 list.size(3))
  next
    case 3
    have "fst (spec_insert cap m ds e) = xs @ y # (us @ cs @ [b])" "length (us @ cs @ [b]) \<le> Suc (length ys)"
      using Some t 3 by (simp_all add: spec_insert_def)
    then show ?thesis by blast
  qed
qed

lemma spec_insert_last:
  "0 < cap \<Longrightarrow> (\<And>y. m y \<Longrightarrow> r y) \<Longrightarrow> r e \<Longrightarrow> \<exists>xs y. fst (spec_insert cap m ds e) = xs @ [y] \<and> r y"
  by (auto simp: spec_insert_def split: option.splits dest: extract_SomeE)

lemma spec_insert_length:
  "0 < cap \<Longrightarrow> length ds \<le> cap \<Longrightarrow> length (fst (spec_insert cap m ds e)) \<le> cap"
  by (auto simp: spec_insert_def split: option.splits dest!: extract_SomeE)

locale lru_store =
  fixes rep :: "'c \<Rightarrow> 'd list \<Rightarrow> bool"
    and ins :: "'c \<Rightarrow> 'd \<Rightarrow> ('c \<times> 'd option) option"
    and query :: "'c \<Rightarrow> 'd \<Rightarrow> ('c \<times> 'd option) option"
    and cap :: "'c \<Rightarrow> nat"
    and eq :: "'d \<Rightarrow> 'd \<Rightarrow> bool"
  assumes rep_bound: "rep c ds \<Longrightarrow> length ds \<le> cap c"
    and ins_law: "rep c ds \<Longrightarrow> 0 < cap c \<Longrightarrow>
      \<exists>c'. ins c d = Some (c', snd (spec_insert (cap c) (\<lambda>x. eq x d) ds d)) \<and>
           rep c' (fst (spec_insert (cap c) (\<lambda>x. eq x d) ds d)) \<and> cap c' = cap c"
    and query_law: "rep c ds \<Longrightarrow>
      \<exists>c'. query c d = Some (c', snd (spec_query (\<lambda>x. eq x d) ds)) \<and>
           rep c' (fst (spec_query (\<lambda>x. eq x d) ds)) \<and> cap c' = cap c"
begin

lemma insert_all_keeps:
  assumes "rep c (xs @ y # ys)" and "length ys + length es < cap c"
  shows "\<exists>c' xs' ys'. insert_all ins c es = Some c' \<and> rep c' (xs' @ y # ys')"
  using assms
proof (induction es arbitrary: c xs ys)
  case (Cons e es)
  obtain c1 r where c1: "ins c e = Some (c1, r)"
      "rep c1 (fst (spec_insert (cap c) (\<lambda>x. eq x e) (xs @ y # ys) e))" "cap c1 = cap c"
    using ins_law [OF Cons.prems(1), of e] Cons.prems(2) by auto
  obtain xs' ys' where "fst (spec_insert (cap c) (\<lambda>x. eq x e) (xs @ y # ys) e) = xs' @ y # ys'"
      "length ys' \<le> Suc (length ys)"
    using spec_insert_keeps [OF rep_bound [OF Cons.prems(1)] refl, of "\<lambda>x. eq x e" e] Cons.prems(2)
    by (auto simp del: append.simps)
  with c1 Cons.prems(2) Cons.IH [of c1 xs' ys'] show ?case by auto
qed auto

text \<open>An entry that was just inserted is still found after fewer than \<open>cap\<close> further insertions.\<close>

lemma recent_survives:
  assumes "rep c ds" and "0 < cap c" and "eq d d" and "length es < cap c"
  shows "\<exists>c1 r c2 c3 y. ins c d = Some (c1, r) \<and> insert_all ins c1 es = Some c2 \<and>
    query c2 d = Some (c3, Some y) \<and> eq y d"
proof -
  obtain c1 r where c1: "ins c d = Some (c1, r)"
      "rep c1 (fst (spec_insert (cap c) (\<lambda>x. eq x d) ds d))" "cap c1 = cap c"
    using ins_law [OF assms(1,2)] by blast
  obtain xs y where last: "fst (spec_insert (cap c) (\<lambda>x. eq x d) ds d) = xs @ [y]" "eq y d"
    using spec_insert_last [of "cap c" "\<lambda>x. eq x d" "\<lambda>x. eq x d"] assms(2,3) by blast
  obtain c2 xs' ys' where c2: "insert_all ins c1 es = Some c2" "rep c2 (xs' @ y # ys')"
    using insert_all_keeps [of c1 xs y "[]" es] c1 last assms(4) by auto
  obtain t where t: "List.extract (\<lambda>x. eq x d) (xs' @ y # ys') = Some t"
    using last(2) by (cases "List.extract (\<lambda>x. eq x d) (xs' @ y # ys')") (auto simp: extract_None_iff)
  then have "\<exists>z. snd (spec_query (\<lambda>x. eq x d) (xs' @ y # ys')) = Some z \<and> eq z d"
    by (cases t) (auto simp: spec_query_def dest: extract_SomeE)
  then show ?thesis using c1(1) c2 query_law [OF c2(2), of d] by auto
qed

end

interpretation lru: lru_store lru_rep "LRU_cache_insert eq" "LRU_cache_query eq" lru_capacity eq
  for eq :: "'d \<Rightarrow> 'd \<Rightarrow> bool"
  by unfold_locales
     (simp_all add: lru_rep_size LRU_cache_insert_refines LRU_cache_query_refines)

section \<open>Runs\<close>

datatype 'd lru_op = Query 'd | Insert 'd | Remove 'd

fun lru_step :: "('d \<Rightarrow> 'd \<Rightarrow> bool) \<Rightarrow> 'd LRU_cache \<Rightarrow> 'd lru_op \<Rightarrow> ('d LRU_cache \<times> 'd option) option" where
  "lru_step eq L (Query d) = LRU_cache_query eq L d"
| "lru_step eq L (Insert d) = LRU_cache_insert eq L d"
| "lru_step eq L (Remove d) = LRU_cache_remove eq L d"

fun spec_step :: "('d \<Rightarrow> 'd \<Rightarrow> bool) \<Rightarrow> nat \<Rightarrow> 'd list \<Rightarrow> 'd lru_op \<Rightarrow> 'd list \<times> 'd option" where
  "spec_step eq cap ds (Query d) = spec_query (\<lambda>x. eq x d) ds"
| "spec_step eq cap ds (Insert d) = spec_insert cap (\<lambda>x. eq x d) ds d"
| "spec_step eq cap ds (Remove d) = spec_remove (\<lambda>x. eq x d) ds"

fun lru_run :: "('d \<Rightarrow> 'd \<Rightarrow> bool) \<Rightarrow> 'd LRU_cache \<Rightarrow> 'd lru_op list \<Rightarrow> ('d LRU_cache \<times> 'd option list) option" where
  "lru_run eq L [] = Some (L, [])"
| "lru_run eq L (op # ops) = do {
     (L1, r) \<leftarrow> lru_step eq L op;
     (L2, rs) \<leftarrow> lru_run eq L1 ops;
     Some (L2, r # rs)
   }"

fun spec_run :: "('d \<Rightarrow> 'd \<Rightarrow> bool) \<Rightarrow> nat \<Rightarrow> 'd list \<Rightarrow> 'd lru_op list \<Rightarrow> 'd list \<times> 'd option list" where
  "spec_run eq cap ds [] = (ds, [])"
| "spec_run eq cap ds (op # ops) =
     (let (ds1, r) = spec_step eq cap ds op; (ds2, rs) = spec_run eq cap ds1 ops in (ds2, r # rs))"

lemma lru_step_refines:
  assumes "lru_rep L ds" "0 < lru_capacity L"
  shows "\<exists>L'. lru_step eq L op = Some (L', snd (spec_step eq (lru_capacity L) ds op)) \<and>
    lru_rep L' (fst (spec_step eq (lru_capacity L) ds op)) \<and> lru_capacity L' = lru_capacity L"
  using LRU_cache_query_refines [OF assms(1)] LRU_cache_insert_refines [OF assms]
    LRU_cache_remove_refines [OF assms(1)]
  by (cases op) auto

lemma lru_run_refines:
  assumes "lru_rep L ds" "0 < lru_capacity L"
  shows "\<exists>L'. lru_run eq L ops = Some (L', snd (spec_run eq (lru_capacity L) ds ops)) \<and>
    lru_rep L' (fst (spec_run eq (lru_capacity L) ds ops))"
  using assms
proof (induction ops arbitrary: L ds)
  case (Cons op ops)
  obtain L1 where L1: "lru_step eq L op = Some (L1, snd (spec_step eq (lru_capacity L) ds op))"
      "lru_rep L1 (fst (spec_step eq (lru_capacity L) ds op))" "lru_capacity L1 = lru_capacity L"
    using lru_step_refines [OF Cons.prems] by blast
  show ?case
    using Cons.IH [OF L1(2)] Cons.prems(2) L1(1,3) by (auto simp: split_beta)
qed auto

section \<open>Properties\<close>

text \<open>
  C6 (refinement).  The doubly linked ring with its sentinel is a list of at most \<open>cap\<close> data, least
  recently used first: from creation, every sequence of queries, insertions and removals runs without
  a bad pointer and returns what the list specification returns, printing shows the list in order, and
  destroying afterwards frees every node.
\<close>

theorem LRU_cache_refines_list:
  assumes "0 < cap" "cap < SIZE_MINUS_1"
  shows "\<exists>L L'. lru_run eq (LRU_cache_create cap) ops = Some (L, snd (spec_run eq cap [] ops)) \<and>
    LRU_cache_print L = Some (map Some (fst (spec_run eq cap [] ops))) \<and>
    LRU_cache_destroy L = Some L' \<and> allocated L' = {}"
proof -
  obtain L where L: "lru_run eq (LRU_cache_create cap) ops = Some (L, snd (spec_run eq cap [] ops))"
      "lru_rep L (fst (spec_run eq cap [] ops))"
    using lru_run_refines [OF LRU_cache_create_rep [OF assms(2)], of eq ops] assms(1)
    by (auto simp: LRU_cache_create_def)
  then show ?thesis using LRU_cache_destroy_no_leak [OF L(2)] LRU_cache_print_rep [OF L(2)] by blast
qed

theorem LRU_cache_refines_list_witness:
  "\<exists>L L'. lru_run (=) (LRU_cache_create 2) [Insert (1 :: nat), Insert 2, Query 1, Insert 3, Query 2] =
      Some (L, [None, None, Some 1, Some 2, None]) \<and>
    LRU_cache_print L = Some [Some 1, Some 3] \<and> LRU_cache_destroy L = Some L' \<and> allocated L' = {}"
proof -
  have "spec_run (=) 2 [] [Insert (1 :: nat), Insert 2, Query 1, Insert 3, Query 2] =
      ([1, 3], [None, None, Some 1, Some 2, None])"
    by (simp add: spec_insert_def spec_query_def extract_Nil_code extract_Cons_code)
  then show ?thesis
    using LRU_cache_refines_list [of 2 "(=)" "[Insert (1 :: nat), Insert 2, Query 1, Insert 3, Query 2]"]
    by (simp add: SIZE_MINUS_1_def)
qed

text \<open>What was just inserted stays: after inserting \<open>d\<close>, fewer than the capacity further
  insertions of any data leave an entry equal to \<open>d\<close> in the cache, and a query finds it.\<close>

lemma LRU_cache_recent_survives:
  assumes "lru_rep L ds" and "0 < lru_capacity L" and "eq d d" and "length es < lru_capacity L"
  shows "\<exists>L1 r L2 L3 y. LRU_cache_insert eq L d = Some (L1, r) \<and>
    insert_all (LRU_cache_insert eq) L1 es = Some L2 \<and> LRU_cache_query eq L2 d = Some (L3, Some y) \<and> eq y d"
  using lru.recent_survives [where eq = eq and c = L and d = d and es = es, OF assms] .

lemma LRU_cache_recent_survives_witness:
  "\<exists>L1 r L2 L3 y. LRU_cache_insert (=) (LRU_cache_create 3) (7 :: nat) = Some (L1, r) \<and>
    insert_all (LRU_cache_insert (=)) L1 [8, 9] = Some L2 \<and> LRU_cache_query (=) L2 7 = Some (L3, Some y) \<and> y = 7"
  by (rule LRU_cache_recent_survives [OF LRU_cache_create_rep])
     (simp_all add: SIZE_MINUS_1_def LRU_cache_create_def)

text \<open>
  Inserting data for which equal data is cached does not replace it, contrary to the comment
  in the header: the node is only moved to the recent end, and queries keep returning the old data.
\<close>

lemma LRU_cache_insert_keeps_old:
  assumes "lru_rep L (xs @ y # ys)" "eq y d" "\<forall>x \<in> set xs. \<not> eq x d" "0 < lru_capacity L"
  shows "\<exists>L'. LRU_cache_insert eq L d = Some (L', None) \<and> lru_rep L' (xs @ ys @ [y])"
proof -
  have "List.extract (\<lambda>x. eq x d) (xs @ y # ys) = Some (xs, y, ys)"
    using assms(2,3) by (simp add: extract_Some_iff)
  then show ?thesis
    using LRU_cache_insert_refines [OF assms(1,4), of eq d] by (auto simp: spec_insert_def)
qed

lemma LRU_cache_insert_keeps_old_witness:
  "\<exists>L L'. LRU_cache_insert (\<lambda>a b. fst a = fst b) (LRU_cache_create 2) (1 :: nat, 10 :: nat) = Some (L, None) \<and>
    LRU_cache_insert (\<lambda>a b. fst a = fst b) L (1, 20) = Some (L', None) \<and> lru_rep L' [(1, 10)]"
proof -
  let ?eq = "\<lambda>a b. fst a = fst (b :: nat \<times> nat)"
  have "lru_rep (LRU_cache_create 2 :: (nat \<times> nat) LRU_cache) []"
    by (rule LRU_cache_create_rep) (simp add: SIZE_MINUS_1_def)
  moreover have cap: "lru_capacity (LRU_cache_create 2 :: (nat \<times> nat) LRU_cache) = 2"
    by (simp add: LRU_cache_create_def)
  ultimately obtain L where L: "LRU_cache_insert ?eq (LRU_cache_create 2) (1, 10) = Some (L, None)"
      "lru_rep L [(1, 10)]" "lru_capacity L = 2"
    using LRU_cache_insert_refines [of "LRU_cache_create 2" "[]" ?eq "(1, 10)"]
    by (auto simp: spec_insert_def extract_Nil_code)
  then show ?thesis
    using LRU_cache_insert_keeps_old [of L "[]" "(1, 10)" "[]" ?eq "(1, 20)"] by auto
qed

end
