(* ===== verification/TLB.thy ===== *)
theory TLB
  imports LRU_Cache
begin

text \<open>
  The translation lookaside buffer of \<open>CS2303 Operating System/Project 8/TLB.c\<close>: an array of entries
  and an LRU cache whose data pointers point into that array.  A pointer to an entry is either the
  address of \<open>entries[i]\<close> or the address of a local variable (the keys built by the operations), and
  the comparison function reads the entries through these pointers.
\<close>

section \<open>State\<close>

record TLB_entry =
  te_page :: nat
  te_frame :: nat
  te_valid :: bool

datatype entry_ref = Slot nat | Local TLB_entry

record TLB =
  entries :: "TLB_entry list"
  tlb_cache :: "entry_ref LRU_cache"
  hit_count :: nat
  miss_count :: nat

fun deref :: "TLB_entry list \<Rightarrow> entry_ref \<Rightarrow> TLB_entry" where
  "deref es (Slot i) = es ! i"
| "deref es (Local e) = e"

definition TLB_entry_equal :: "TLB_entry list \<Rightarrow> entry_ref \<Rightarrow> entry_ref \<Rightarrow> bool" where
  "TLB_entry_equal es a b \<longleftrightarrow> te_page (deref es a) = te_page (deref es b)"

text \<open>Writing through an entry pointer; only slots of the array are ever written.\<close>

fun store_entry :: "TLB_entry list \<Rightarrow> entry_ref \<Rightarrow> TLB_entry \<Rightarrow> TLB_entry list option" where
  "store_entry es (Slot i) e = arr_set es i e"
| "store_entry es (Local _) e = None"

text \<open>The conversion of a \<open>size_t\<close> to the \<open>int\<close> that \<open>TLB_query\<close> returns.\<close>

definition to_int32 :: "nat \<Rightarrow> int" where
  "to_int32 n = (int n + 2 ^ 31) mod 2 ^ 32 - 2 ^ 31"

lemma to_int32_small: "n < 2 ^ 31 \<Longrightarrow> to_int32 n = int n"
  by (simp add: to_int32_def)

section \<open>Operations\<close>

definition invalid_entry :: TLB_entry where
  "invalid_entry = \<lparr>te_page = SIZE_MINUS_1, te_frame = SIZE_MINUS_1, te_valid = False\<rparr>"

definition TLB_create :: "nat \<Rightarrow> TLB" where
  "TLB_create cap =
     \<lparr>entries = replicate cap invalid_entry, tlb_cache = LRU_cache_create cap, hit_count = 0, miss_count = 0\<rparr>"

definition TLB_destroy :: "TLB \<Rightarrow> TLB option" where
  "TLB_destroy T = do {
     c \<leftarrow> LRU_cache_destroy (tlb_cache T);
     Some (T\<lparr>entries := [], tlb_cache := c\<rparr>)
   }"

definition TLB_clear :: "TLB \<Rightarrow> TLB option" where
  "TLB_clear T = do {
     es \<leftarrow> foldl (\<lambda>r i. do { es \<leftarrow> r; arr_set es i invalid_entry }) (Some (entries T))
             [0..<lru_capacity (tlb_cache T)];
     c \<leftarrow> LRU_cache_clear (tlb_cache T);
     Some (T\<lparr>entries := es, tlb_cache := c, hit_count := 0, miss_count := 0\<rparr>)
   }"

definition TLB_full :: "TLB \<Rightarrow> bool" where
  "TLB_full T \<longleftrightarrow> LRU_cache_full (tlb_cache T)"

definition TLB_empty :: "TLB \<Rightarrow> bool" where
  "TLB_empty T \<longleftrightarrow> LRU_cache_empty (tlb_cache T)"

definition TLB_size :: "TLB \<Rightarrow> nat" where
  "TLB_size T = LRU_cache_size (tlb_cache T)"

definition TLB_capacity :: "TLB \<Rightarrow> nat" where
  "TLB_capacity T = LRU_cache_capacity (tlb_cache T)"

definition TLB_hit_count :: "TLB \<Rightarrow> nat" where
  "TLB_hit_count T = hit_count T"

definition TLB_miss_count :: "TLB \<Rightarrow> nat" where
  "TLB_miss_count T = miss_count T"

definition key_entry :: "nat \<Rightarrow> entry_ref" where
  "key_entry page = Local \<lparr>te_page = page, te_frame = 0, te_valid = False\<rparr>"

definition TLB_query :: "TLB \<Rightarrow> nat \<Rightarrow> (TLB \<times> int) option" where
  "TLB_query T page = do {
     (c, query_data) \<leftarrow> LRU_cache_query (TLB_entry_equal (entries T)) (tlb_cache T) (key_entry page);
     (case query_data of
        None \<Rightarrow> Some (T\<lparr>tlb_cache := c, miss_count := size_inc (miss_count T)\<rparr>, -1)
      | Some r \<Rightarrow> Some (T\<lparr>tlb_cache := c, hit_count := size_inc (hit_count T)\<rparr>,
                        to_int32 (te_frame (deref (entries T) r))))
   }"

text \<open>Where \<open>TLB_insert\<close> puts the new entry: the evicted one, or the first invalid slot of the array.\<close>

definition choose_slot :: "TLB \<Rightarrow> (entry_ref LRU_cache \<times> entry_ref) option" where
  "choose_slot T =
     (if TLB_full T then do {
        least_recently_used \<leftarrow> LRU_cache_least_recently_used (tlb_cache T);
        r \<leftarrow> least_recently_used;
        (c, removed) \<leftarrow> LRU_cache_remove (TLB_entry_equal (entries T)) (tlb_cache T) r;
        Some (c, r)
      }
      else do {
        i \<leftarrow> List.find (\<lambda>i. \<not> te_valid (entries T ! i)) [0..<lru_capacity (tlb_cache T)];
        Some (tlb_cache T, Slot i)
      })"

definition TLB_insert :: "TLB \<Rightarrow> nat \<Rightarrow> nat \<Rightarrow> TLB option" where
  "TLB_insert T page frame = do {
     (c, entry_to_insert) \<leftarrow> choose_slot T;
     es \<leftarrow> store_entry (entries T) entry_to_insert \<lparr>te_page = page, te_frame = frame, te_valid = True\<rparr>;
     (c', removed) \<leftarrow> LRU_cache_insert (TLB_entry_equal es) c entry_to_insert;
     Some (T\<lparr>entries := es, tlb_cache := c'\<rparr>)
   }"

definition TLB_remove :: "TLB \<Rightarrow> nat \<Rightarrow> (TLB \<times> bool) option" where
  "TLB_remove T page = do {
     (c, removed_entry) \<leftarrow> LRU_cache_remove (TLB_entry_equal (entries T)) (tlb_cache T) (key_entry page);
     (case removed_entry of
        None \<Rightarrow> Some (T\<lparr>tlb_cache := c\<rparr>, False)
      | Some r \<Rightarrow> do {
          es \<leftarrow> store_entry (entries T) r invalid_entry;
          Some (T\<lparr>entries := es, tlb_cache := c\<rparr>, True)
        })
   }"

text \<open>What \<open>TLB_print\<close> writes: the entry array, then the cache, least recently used first.\<close>

definition print_TLB_entry :: "TLB_entry list \<Rightarrow> entry_ref \<Rightarrow> string" where
  "print_TLB_entry es r = ''  Page number: '' @ nat_digits (te_page (deref es r)) @
     '', Frame number: '' @ nat_digits (te_frame (deref es r)) @ [newline]"

definition TLB_print_line :: "TLB \<Rightarrow> nat \<Rightarrow> string option" where
  "TLB_print_line T i = do {
     e \<leftarrow> arr_get (entries T) i;
     Some (''  Entry '' @ nat_digits i @ '': '' @
       (if te_valid e
        then ''Page number: '' @ nat_digits (te_page e) @ '', Frame number: '' @ nat_digits (te_frame e) @ [newline]
        else ''Invalid'' @ [newline]))
   }"

definition TLB_print :: "TLB \<Rightarrow> string option" where
  "TLB_print T = do {
     lines \<leftarrow> those (map (TLB_print_line T) [0..<lru_capacity (tlb_cache T)]);
     refs \<leftarrow> LRU_cache_print (tlb_cache T);
     rs \<leftarrow> those refs;
     Some (''TLB:'' @ [newline] @ concat lines @ ''Internal LRU cache:'' @ [newline] @
       concat (map (print_TLB_entry (entries T)) rs))
   }"

section \<open>The association list the TLB stands for\<close>

text \<open>\<open>tlb_rep T al\<close>: \<open>al\<close> lists the cached pairs of page and frame, least recently used first.\<close>

definition entry_pair :: "TLB_entry list \<Rightarrow> nat \<Rightarrow> nat \<times> nat" where
  "entry_pair es i = (te_page (es ! i), te_frame (es ! i))"

definition tlb_slots :: "TLB \<Rightarrow> nat list \<Rightarrow> bool" where
  "tlb_slots T is \<longleftrightarrow> lru_rep (tlb_cache T) (map Slot is) \<and> distinct is \<and>
     set is = {i. i < length (entries T) \<and> te_valid (entries T ! i)} \<and>
     length (entries T) = lru_capacity (tlb_cache T) \<and> 0 < lru_capacity (tlb_cache T) \<and>
     distinct (map (\<lambda>i. te_page (entries T ! i)) is)"

definition tlb_rep :: "TLB \<Rightarrow> (nat \<times> nat) list \<Rightarrow> bool" where
  "tlb_rep T al \<longleftrightarrow> (\<exists>is. tlb_slots T is \<and> al = map (entry_pair (entries T)) is)"

lemma extract_map:
  "List.extract m (map f xs) =
     map_option (\<lambda>(ys, y, zs). (map f ys, f y, map f zs)) (List.extract (m \<circ> f) xs)"
  by (induction xs) (auto simp: extract_Nil_code extract_Cons_code split: option.splits)

lemma spec_query_map:
  "spec_query m (map f xs) = (map f (fst (spec_query (m \<circ> f) xs)), map_option f (snd (spec_query (m \<circ> f) xs)))"
  by (auto simp: spec_query_def extract_map split: option.splits)

lemma spec_remove_map:
  "spec_remove m (map f xs) = (map f (fst (spec_remove (m \<circ> f) xs)), map_option f (snd (spec_remove (m \<circ> f) xs)))"
  by (auto simp: spec_remove_def extract_map split: option.splits)

lemma mset_spec_query [simp]: "mset (fst (spec_query m xs)) = mset xs"
  by (auto simp: spec_query_def split: option.splits dest!: extract_SomeE)

lemma set_spec_query [simp]: "set (fst (spec_query m xs)) = set xs"
  by (metis mset_spec_query set_mset_mset)

lemma distinct_spec_query [simp]: "distinct (fst (spec_query m xs)) = distinct xs"
  by (metis mset_spec_query mset_eq_imp_distinct_iff)

lemma spec_query_result:
  "snd (spec_query m xs) = Some y \<Longrightarrow> y \<in> set xs \<and> m y"
  "snd (spec_query m xs) = None \<Longrightarrow> \<forall>x \<in> set xs. \<not> m x"
  by (auto simp: spec_query_def extract_None_iff split: option.splits dest!: extract_SomeE)

lemma tlb_key_match:
  "(\<lambda>r. TLB_entry_equal es r (key_entry page)) \<circ> Slot = (\<lambda>i. te_page (es ! i) = page)"
  by (auto simp: TLB_entry_equal_def key_entry_def)

lemma tlb_pair_match: "(\<lambda>e. fst e = page) \<circ> entry_pair es = (\<lambda>i. te_page (es ! i) = page)"
  by (auto simp: entry_pair_def)

lemma TLB_create_rep: "0 < cap \<Longrightarrow> cap < SIZE_MINUS_1 \<Longrightarrow> tlb_rep (TLB_create cap) []"
  by (auto simp: tlb_rep_def tlb_slots_def TLB_create_def LRU_cache_create_rep invalid_entry_def)
     (simp_all add: LRU_cache_create_def)

text \<open>The frame that a query returns, and its effect on the recency order.\<close>

theorem TLB_query_refines:
  assumes "tlb_rep T al" and "\<forall>e \<in> set al. snd e < 2 ^ 31"
  shows "\<exists>T'. TLB_query T page = Some (T', case map_of al page of None \<Rightarrow> -1 | Some f \<Rightarrow> int f) \<and>
    tlb_rep T' (fst (spec_query (\<lambda>e. fst e = page) al)) \<and>
    lru_capacity (tlb_cache T') = lru_capacity (tlb_cache T)"
proof -
  obtain js where slots: "tlb_slots T js" and al: "al = map (entry_pair (entries T)) js"
    using assms(1) by (auto simp: tlb_rep_def)
  let ?m = "\<lambda>i. te_page (entries T ! i) = page"
  obtain c where c: "LRU_cache_query (TLB_entry_equal (entries T)) (tlb_cache T) (key_entry page) =
      Some (c, map_option Slot (snd (spec_query ?m js)))"
    "lru_rep c (map Slot (fst (spec_query ?m js)))" "lru_capacity c = lru_capacity (tlb_cache T)"
    using LRU_cache_query_refines [of "tlb_cache T" "map Slot js" "TLB_entry_equal (entries T)" "key_entry page"]
      slots by (auto simp: spec_query_map tlb_key_match tlb_slots_def)
  have dist: "distinct (map (\<lambda>i. te_page (entries T ! i)) js)"
    using slots by (simp add: tlb_slots_def)
  then have dist': "distinct (map (\<lambda>i. te_page (entries T ! i)) (fst (spec_query ?m js)))"
    by (metis mset_map mset_spec_query mset_eq_imp_distinct_iff)
  have slots': "tlb_slots (T\<lparr>tlb_cache := c, hit_count := h, miss_count := k\<rparr>) (fst (spec_query ?m js))" for h k
    using slots c(2,3) dist' by (simp add: tlb_slots_def)
  have rep': "tlb_rep (T\<lparr>tlb_cache := c, hit_count := h, miss_count := k\<rparr>) (fst (spec_query (\<lambda>e. fst e = page) al))" for h k
    using slots' [where h = h and k = k] unfolding tlb_rep_def al spec_query_map tlb_pair_match
    by (auto intro!: exI [of _ "fst (spec_query ?m js)"])
  have keys: "map fst al = map (\<lambda>i. te_page (entries T ! i)) js"
    by (simp add: al entry_pair_def)
  show ?thesis
  proof (cases "snd (spec_query ?m js)")
    case None
    then have "map_of al page = None"
      using spec_query_result(2) [OF None] keys by (auto simp: map_of_eq_None_iff al entry_pair_def)
    then show ?thesis
      using c None rep' [where h = "hit_count T"] by (simp add: TLB_query_def)
  next
    case (Some i)
    then have i: "i \<in> set js" "te_page (entries T ! i) = page" using spec_query_result(1) by fastforce+
    then have "(page, te_frame (entries T ! i)) \<in> set al" by (auto simp: al entry_pair_def)
    then have "map_of al page = Some (te_frame (entries T ! i))" "te_frame (entries T ! i) < 2 ^ 31"
      using dist keys assms(2) by (auto simp: map_of_is_SomeI)
    then show ?thesis
      using c Some rep' [where k = "miss_count T"] by (simp add: TLB_query_def to_int32_small)
  qed
qed

lemma spec_remove_filter:
  "distinct (map f xs) \<Longrightarrow> fst (spec_remove (\<lambda>x. f x = k) xs) = filter (\<lambda>x. f x \<noteq> k) xs"
proof (cases "List.extract (\<lambda>x. f x = k) xs")
  case None
  then have "\<forall>x \<in> set xs. f x \<noteq> k" by (simp add: extract_None_iff)
  then have "filter (\<lambda>x. f x \<noteq> k) xs = xs" by (simp add: filter_id_conv)
  then show ?thesis using None by (simp add: spec_remove_def)
next
  case (Some t)
  then obtain ys y zs where t: "t = (ys, y, zs)" "xs = ys @ y # zs" "f y = k"
    by (cases t) (auto dest: extract_SomeE)
  assume "distinct (map f xs)"
  then have "\<forall>x \<in> set (ys @ zs). f x \<noteq> k"
    unfolding t(2) t(3) [symmetric] by (auto simp: image_iff)
  then have "filter (\<lambda>x. f x \<noteq> k) (ys @ zs) = ys @ zs" by (simp only: filter_id_conv)
  then show ?thesis using Some t by (simp add: spec_remove_def)
qed

lemma spec_remove_result:
  "snd (spec_remove m xs) = Some y \<Longrightarrow> y \<in> set xs \<and> m y"
  "snd (spec_remove m xs) = None \<Longrightarrow> fst (spec_remove m xs) = xs \<and> (\<forall>x \<in> set xs. \<not> m x)"
  by (auto simp: spec_remove_def extract_None_iff split: option.splits dest!: extract_SomeE)

text \<open>The common end of both branches of \<open>TLB_insert\<close>: fill slot \<open>i\<close> and append it.\<close>

lemma fill_slot:
  assumes c: "lru_rep c (map Slot js)" "lru_capacity c = lru_capacity (tlb_cache T)"
    and len: "length (entries T) = lru_capacity (tlb_cache T)" "length js < lru_capacity (tlb_cache T)"
    and i: "i < length (entries T)" "i \<notin> set js" and "distinct js"
    and vs: "insert i (set js) = insert i {k. k < length (entries T) \<and> te_valid (entries T ! k)}"
    and pages: "distinct (map (\<lambda>k. te_page (entries T ! k)) js)" "page \<notin> (\<lambda>k. te_page (entries T ! k)) ` set js"
  shows "\<exists>T'. (do {
       es \<leftarrow> store_entry (entries T) (Slot i) \<lparr>te_page = page, te_frame = frame, te_valid = True\<rparr>;
       (c', removed) \<leftarrow> LRU_cache_insert (TLB_entry_equal es) c (Slot i);
       Some (T\<lparr>entries := es, tlb_cache := c'\<rparr>)
     }) = Some T' \<and> tlb_rep T' (map (entry_pair (entries T)) js @ [(page, frame)]) \<and>
     lru_capacity (tlb_cache T') = lru_capacity (tlb_cache T) \<and>
     hit_count T' = hit_count T \<and> miss_count T' = miss_count T"
proof -
  let ?e = "\<lparr>te_page = page, te_frame = frame, te_valid = True\<rparr>"
  let ?es = "(entries T)[i := ?e]"
  have same: "k \<in> set js \<Longrightarrow> ?es ! k = entries T ! k" for k
    using i(2) by (metis nth_list_update_neq)
  have "List.extract ((\<lambda>x. TLB_entry_equal ?es x (Slot i)) \<circ> Slot) js = None"
    using pages(2) i same by (auto simp: extract_None_iff TLB_entry_equal_def)
  then have spec: "spec_insert (lru_capacity c) (\<lambda>x. TLB_entry_equal ?es x (Slot i)) (map Slot js) (Slot i) =
      (map Slot (js @ [i]), None)"
    using len c(2) by (simp add: spec_insert_def extract_map)
  obtain c' where c': "LRU_cache_insert (TLB_entry_equal ?es) c (Slot i) = Some (c', None)"
      "lru_rep c' (map Slot (js @ [i]))" "lru_capacity c' = lru_capacity c"
    using LRU_cache_insert_refines [OF c(1), of "TLB_entry_equal ?es" "Slot i"] len c(2) spec by auto
  have "map (\<lambda>k. te_page (?es ! k)) js = map (\<lambda>k. te_page (entries T ! k)) js"
    using same by simp
  then have "distinct (map (\<lambda>k. te_page (?es ! k)) js)" using pages(1) by metis
  moreover have "te_page (?es ! i) \<notin> (\<lambda>k. te_page (?es ! k)) ` set js"
    using i same pages(2) by auto
  moreover have "set (js @ [i]) = {k. k < length ?es \<and> te_valid (?es ! k)}"
    using vs i by (auto simp: nth_list_update)
  ultimately have "tlb_slots (T\<lparr>entries := ?es, tlb_cache := c'\<rparr>) (js @ [i])"
    using c' c len i \<open>distinct js\<close> unfolding tlb_slots_def by auto
  moreover have "map (entry_pair ?es) (js @ [i]) = map (entry_pair (entries T)) js @ [(page, frame)]"
    using same i by (simp add: entry_pair_def)
  ultimately have "tlb_rep (T\<lparr>entries := ?es, tlb_cache := c'\<rparr>) (map (entry_pair (entries T)) js @ [(page, frame)])"
    unfolding tlb_rep_def by (intro exI [of _ "js @ [i]"]) simp
  then show ?thesis using c' c(2) i(1) by simp
qed

theorem TLB_insert_refines:
  assumes "tlb_rep T al" and new: "page \<notin> fst ` set al"
  shows "\<exists>T'. TLB_insert T page frame = Some T' \<and>
    tlb_rep T' ((if length al = lru_capacity (tlb_cache T) then tl al else al) @ [(page, frame)]) \<and>
    lru_capacity (tlb_cache T') = lru_capacity (tlb_cache T)"
proof -
  obtain js where slots: "tlb_slots T js" and al: "al = map (entry_pair (entries T)) js"
    using assms(1) by (auto simp: tlb_rep_def)
  let ?es = "entries T" and ?c = "tlb_cache T"
  have js: "lru_rep ?c (map Slot js)" "distinct js" "set js = {k. k < length ?es \<and> te_valid (?es ! k)}"
      "length ?es = lru_capacity ?c" "0 < lru_capacity ?c" "distinct (map (\<lambda>i. te_page (?es ! i)) js)"
    using slots by (auto simp: tlb_slots_def)
  have full: "TLB_full T \<longleftrightarrow> length js = lru_capacity ?c" and le: "length js \<le> lru_capacity ?c"
    using lru_rep_size [OF js(1)] by (auto simp: TLB_full_def)
  have new': "page \<notin> (\<lambda>k. te_page (?es ! k)) ` set js"
    using new by (auto simp: al entry_pair_def image_image)
  show ?thesis
  proof (cases "length js = lru_capacity ?c")
    case True
    then obtain i js' where i: "js = i # js'" using js(5) by (cases js) auto
    let ?m = "\<lambda>r. TLB_entry_equal ?es r (Slot i)"
    have "spec_remove ?m (map Slot js) = (map Slot js', Some (Slot i))"
      by (simp add: i spec_remove_def extract_Cons_code TLB_entry_equal_def)
    then obtain c where c: "LRU_cache_remove (TLB_entry_equal ?es) ?c (Slot i) = Some (c, Some (Slot i))"
        "lru_rep c (map Slot js')" "lru_capacity c = lru_capacity ?c"
      using LRU_cache_remove_refines [OF js(1), of "TLB_entry_equal ?es" "Slot i"] by auto
    have choose: "choose_slot T = Some (c, Slot i)"
      using True full c(1) LRU_cache_least_recently_used_rep [OF js(1)] i by (simp add: choose_slot_def)
    have "length js' < lru_capacity ?c" using True i by simp
    moreover have "i < length ?es" "i \<notin> set js'" "distinct js'" using js i by auto
    moreover have "insert i (set js') = insert i {k. k < length ?es \<and> te_valid (?es ! k)}"
      using js(3) i by auto
    moreover have "distinct (map (\<lambda>k. te_page (?es ! k)) js')" using js(6) i by simp
    moreover have "page \<notin> (\<lambda>k. te_page (?es ! k)) ` set js'" using new' i by simp
    ultimately show ?thesis
      using fill_slot [OF c(2,3) js(4), of i page frame] choose True i
      by (auto simp: TLB_insert_def al)
  next
    case False
    have "\<exists>k < lru_capacity ?c. \<not> te_valid (?es ! k)"
    proof (rule ccontr)
      assume "\<not> ?thesis"
      then have "set js = {..<lru_capacity ?c}" using js(3,4) by auto
      then show False using distinct_card [OF js(2)] False by simp
    qed
    then obtain i where i: "List.find (\<lambda>i. \<not> te_valid (?es ! i)) [0..<lru_capacity ?c] = Some i"
      by (cases "List.find (\<lambda>i. \<not> te_valid (?es ! i)) [0..<lru_capacity ?c]") (auto simp: find_None_iff)
    then have i': "i < lru_capacity ?c" "\<not> te_valid (?es ! i)"
      by (auto simp: find_Some_iff)
    have choose: "choose_slot T = Some (?c, Slot i)"
      using False full i by (simp add: choose_slot_def)
    have "i < length ?es" "i \<notin> set js" using i' js(3,4) by auto
    moreover have "length js < lru_capacity ?c" using False le by simp
    ultimately show ?thesis
      using fill_slot [OF js(1) refl js(4), of i page frame] choose False js new'
      by (auto simp: TLB_insert_def al)
  qed
qed

theorem TLB_remove_refines:
  assumes "tlb_rep T al"
  shows "\<exists>T'. TLB_remove T page = Some (T', page \<in> fst ` set al) \<and>
    tlb_rep T' (filter (\<lambda>e. fst e \<noteq> page) al) \<and>
    lru_capacity (tlb_cache T') = lru_capacity (tlb_cache T)"
proof -
  obtain js where slots: "tlb_slots T js" and al: "al = map (entry_pair (entries T)) js"
    using assms(1) by (auto simp: tlb_rep_def)
  let ?es = "entries T" and ?c = "tlb_cache T"
  let ?m = "\<lambda>i. te_page (?es ! i) = page"
  let ?js = "filter (\<lambda>i. te_page (?es ! i) \<noteq> page) js"
  have js: "lru_rep ?c (map Slot js)" "distinct js" "set js = {k. k < length ?es \<and> te_valid (?es ! k)}"
      "length ?es = lru_capacity ?c" "0 < lru_capacity ?c" "distinct (map (\<lambda>i. te_page (?es ! i)) js)"
    using slots by (auto simp: tlb_slots_def)
  have al': "filter (\<lambda>e. fst e \<noteq> page) al = map (entry_pair ?es) ?js"
    by (auto simp: al filter_map comp_def entry_pair_def)
  obtain c where c: "LRU_cache_remove (TLB_entry_equal ?es) ?c (key_entry page) =
      Some (c, map_option Slot (snd (spec_remove ?m js)))"
    "lru_rep c (map Slot ?js)" "lru_capacity c = lru_capacity ?c"
    using LRU_cache_remove_refines [OF js(1), of "TLB_entry_equal ?es" "key_entry page"]
      spec_remove_filter [OF js(6)] by (auto simp: spec_remove_map tlb_key_match)
  show ?thesis
  proof (cases "snd (spec_remove ?m js)")
    case None
    then have "?js = js" "page \<notin> fst ` set al"
      using spec_remove_result(2) [OF None] by (auto simp: al entry_pair_def filter_id_conv)
    then show ?thesis
      using c None js al' unfolding tlb_rep_def tlb_slots_def
      by (auto simp: TLB_remove_def intro!: exI [of _ js])
  next
    case (Some i)
    then have i: "i \<in> set js" "te_page (?es ! i) = page" using spec_remove_result(1) by fastforce+
    let ?es' = "?es[i := invalid_entry]"
    have i': "i < length ?es" using i js by auto
    have only: "k \<in> set js \<Longrightarrow> te_page (?es ! k) = page \<Longrightarrow> k = i" for k
      using js(6) i by (auto simp: distinct_map inj_on_def)
    have same: "k \<in> set ?js \<Longrightarrow> ?es' ! k = ?es ! k" for k
      using i by (cases "k = i") auto
    have valid: "set ?js = {k. k < length ?es' \<and> te_valid (?es' ! k)}"
    proof (rule set_eqI)
      fix k
      have "k \<in> set js \<longleftrightarrow> k < length ?es \<and> te_valid (?es ! k)" using js(3) by blast
      then show "k \<in> set ?js \<longleftrightarrow> k \<in> {k. k < length ?es' \<and> te_valid (?es' ! k)}"
      proof (cases "k = i")
        case True
        then show ?thesis using i' i(2) by (simp add: invalid_entry_def)
      next
        case False
        then have "?es' ! k = ?es ! k" by simp
        moreover have "k \<in> set js \<longrightarrow> te_page (?es ! k) \<noteq> page" using only False by blast
        ultimately show ?thesis
          using \<open>k \<in> set js \<longleftrightarrow> k < length ?es \<and> te_valid (?es ! k)\<close> by (simp only: set_filter length_list_update mem_Collect_eq) blast
      qed
    qed
    have "map (\<lambda>k. te_page (?es' ! k)) ?js = map (\<lambda>k. te_page (?es ! k)) ?js"
      by (rule map_cong [OF refl]) (simp only: same)
    moreover have "distinct (map (\<lambda>k. te_page (?es ! k)) ?js)"
      using js(6) by (rule distinct_map_filter)
    ultimately have "distinct (map (\<lambda>k. te_page (?es' ! k)) ?js)" by metis
    then have "tlb_slots (T\<lparr>entries := ?es', tlb_cache := c\<rparr>) ?js"
      using c(2,3) js(2,4,5) valid by (simp add: tlb_slots_def del: set_filter)
    moreover have "map (entry_pair ?es') ?js = map (entry_pair ?es) ?js"
      by (rule map_cong [OF refl]) (simp only: same entry_pair_def)
    ultimately have "tlb_rep (T\<lparr>entries := ?es', tlb_cache := c\<rparr>) (filter (\<lambda>e. fst e \<noteq> page) al)"
      unfolding tlb_rep_def al' by (intro exI [of _ ?js]) simp
    moreover have "page \<in> fst ` set al" using i by (force simp: al entry_pair_def)
    ultimately show ?thesis using c Some i' by (simp add: TLB_remove_def)
  qed
qed

lemmas tlb_eval = TLB_create_def TLB_query_def TLB_insert_def TLB_remove_def choose_slot_def TLB_full_def
  key_entry_def TLB_entry_equal_def invalid_entry_def to_int32_def

section \<open>Properties\<close>

text \<open>A translation that was inserted is returned: inserting an absent page evicts at most
  the least recently used entry, the query of the page then returns its frame, and removing the page
  makes the next query miss.\<close>

lemma TLB_insert_query_remove:
  assumes "tlb_rep T al" and "page \<notin> fst ` set al" and "\<forall>e \<in> set al. snd e < 2 ^ 31" and "frame < 2 ^ 31"
  shows "\<exists>T1 T2 T3 T4. TLB_insert T page frame = Some T1 \<and> TLB_query T1 page = Some (T2, int frame) \<and>
    TLB_remove T2 page = Some (T3, True) \<and> TLB_query T3 page = Some (T4, -1) \<and>
    tlb_rep T2 ((if length al = TLB_capacity T then tl al else al) @ [(page, frame)])"
proof -
  let ?al = "if length al = lru_capacity (tlb_cache T) then tl al else al"
  obtain T1 where T1: "TLB_insert T page frame = Some T1" "tlb_rep T1 (?al @ [(page, frame)])"
    using TLB_insert_refines [OF assms(1,2)] by blast
  have sub: "set ?al \<subseteq> set al" by (cases al) auto
  then have new: "page \<notin> fst ` set ?al" using assms(2) by blast
  have small: "\<forall>e \<in> set (?al @ [(page, frame)]). snd e < 2 ^ 31"
    using sub assms(3,4) by (metis UnE empty_iff insert_iff list.set(1,2) set_append snd_conv subsetD)
  have lookup: "map_of (?al @ [(page, frame)]) page = Some frame"
    using new by (simp add: map_add_def map_of_eq_None_iff [symmetric] split: option.splits)
  have "List.extract (\<lambda>e. fst e = page) (?al @ [(page, frame)]) = Some (?al, (page, frame), [])"
    using new by (auto simp: extract_Some_iff)
  then have spec: "fst (spec_query (\<lambda>e. fst e = page) (?al @ [(page, frame)])) = ?al @ [(page, frame)]"
    by (simp add: spec_query_def)
  obtain T2 where T2: "TLB_query T1 page = Some (T2, int frame)" "tlb_rep T2 (?al @ [(page, frame)])"
    using TLB_query_refines [OF T1(2) small, of page] unfolding lookup spec by auto
  obtain T3 where T3: "TLB_remove T2 page = Some (T3, True)"
      "tlb_rep T3 (filter (\<lambda>e. fst e \<noteq> page) (?al @ [(page, frame)]))"
    using TLB_remove_refines [OF T2(2), of page] by auto
  have "map_of (filter (\<lambda>e. fst e \<noteq> page) (?al @ [(page, frame)])) page = None"
    by (simp only: map_of_eq_None_iff) auto
  moreover have "\<forall>e \<in> set (filter (\<lambda>e. fst e \<noteq> page) (?al @ [(page, frame)])). snd e < 2 ^ 31"
    using small by (metis filter_is_subset subsetD)
  ultimately obtain T4 where "TLB_query T3 page = Some (T4, -1)"
    using TLB_query_refines [OF T3(2), of page] by (metis option.simps(4))
  then show ?thesis
    using T1(1) T2 T3(1) by (auto simp: TLB_capacity_def LRU_cache_capacity_def)
qed

lemma TLB_insert_query_remove_witness:
  "\<exists>T1 T2 T3 T4. TLB_insert (TLB_create 2) 5 9 = Some T1 \<and> TLB_query T1 5 = Some (T2, int 9) \<and>
    TLB_remove T2 5 = Some (T3, True) \<and> TLB_query T3 5 = Some (T4, -1)"
  using TLB_insert_query_remove [OF TLB_create_rep [of 2], of 5 9] by (auto simp: SIZE_MINUS_1_def)

text \<open>
  \<open>TLB_insert\<close> relies on the page being absent.  Inserting a cached page again uses up a
  second entry of the array, keeps the stale frame, and, the array being full while the cache is not,
  makes the next insertion write through the NULL pointer.
\<close>

lemma TLB_double_insert_breaks:
  "\<exists>T1 T2 T3. TLB_insert (TLB_create 2) 5 1 = Some T1 \<and> TLB_insert T1 5 2 = Some T2 \<and>
    TLB_query T2 5 = Some (T3, 1) \<and> TLB_size T3 = 1 \<and> TLB_insert T3 6 3 = None"
  by (simp add: tlb_eval lru_eval arr_set_def upt_rec TLB_size_def LRU_cache_size_def cong: eval_congs)

end
