(* ===== verification/Physical_Memory.thy ===== *)
theory Physical_Memory
  imports Prelude "HOL-Library.Word"
begin

text \<open>
  Physical memory of \<open>CS2303 Operating System/Project 8/physical_memory.c\<close>: a byte array divided
  into frames.  A pointer to a frame is its index in the frame array; \<open>memcpy\<close> outside the byte array
  is undefined behaviour.
\<close>

type_synonym byte = "8 word"

section \<open>Copying bytes\<close>

definition read_bytes :: "byte list \<Rightarrow> nat \<Rightarrow> nat \<Rightarrow> byte list option" where
  "read_bytes mem a n = (if a + n \<le> length mem then Some (take n (drop a mem)) else None)"

definition write_bytes :: "byte list \<Rightarrow> nat \<Rightarrow> byte list \<Rightarrow> byte list option" where
  "write_bytes mem a bs =
     (if a + length bs \<le> length mem then Some (take a mem @ bs @ drop (a + length bs) mem) else None)"

lemma length_write_bytes: "write_bytes mem a bs = Some mem' \<Longrightarrow> length mem' = length mem"
  by (auto simp: write_bytes_def split: if_splits)

lemma nth_write_bytes:
  "write_bytes mem a bs = Some mem' \<Longrightarrow> i < length mem \<Longrightarrow>
     mem' ! i = (if a \<le> i \<and> i < a + length bs then bs ! (i - a) else mem ! i)"
  by (auto simp: write_bytes_def nth_append split: if_splits)

lemma nth_read_bytes: "read_bytes mem a n = Some bs \<Longrightarrow> i < n \<Longrightarrow> bs ! i = mem ! (a + i)"
  by (auto simp: read_bytes_def split: if_splits)

lemma length_read_bytes: "read_bytes mem a n = Some bs \<Longrightarrow> length bs = n"
  by (auto simp: read_bytes_def split: if_splits)

section \<open>State and operations\<close>

record physical_memory_frame =
  pf_number :: nat
  pf_address :: nat
  pf_valid :: bool
  pf_dirty :: bool

record physical_memory =
  pm_memory :: "byte list"
  pm_size :: nat
  pm_frames :: "physical_memory_frame list"
  pm_frame_size :: nat

text \<open>\<open>mem\<close> is the array \<open>memory_ptr\<close> points to.  A frame size of 0 divides by zero.\<close>

definition physical_memory_create :: "byte list \<Rightarrow> nat \<Rightarrow> nat \<Rightarrow> physical_memory option" where
  "physical_memory_create mem memory_size frame_size = do {
     ensure (frame_size \<noteq> 0);
     Some \<lparr>pm_memory = mem, pm_size = memory_size,
       pm_frames = map (\<lambda>i. \<lparr>pf_number = i, pf_address = i * frame_size, pf_valid = False, pf_dirty = False\<rparr>)
         [0..<memory_size div frame_size],
       pm_frame_size = frame_size\<rparr>
   }"

definition physical_memory_destroy :: "physical_memory \<Rightarrow> physical_memory" where
  "physical_memory_destroy M = \<lparr>pm_memory = [], pm_size = 0, pm_frames = [], pm_frame_size = 0\<rparr>"

definition physical_memory_get_frame :: "physical_memory \<Rightarrow> nat \<Rightarrow> physical_memory_frame option" where
  "physical_memory_get_frame M frame_number = arr_get (pm_frames M) frame_number"

definition physical_memory_get_frame_address :: "physical_memory \<Rightarrow> nat \<Rightarrow> nat option" where
  "physical_memory_get_frame_address M frame_number = do {
     f \<leftarrow> arr_get (pm_frames M) frame_number;
     Some (pf_address f)
   }"

definition physical_memory_read :: "physical_memory \<Rightarrow> nat \<Rightarrow> nat \<Rightarrow> nat \<Rightarrow> byte list option" where
  "physical_memory_read M frame_number offset byte_size = do {
     a \<leftarrow> physical_memory_get_frame_address M frame_number;
     read_bytes (pm_memory M) (a + offset) byte_size
   }"

definition set_frame :: "physical_memory \<Rightarrow> nat \<Rightarrow> (physical_memory_frame \<Rightarrow> physical_memory_frame) \<Rightarrow> physical_memory option" where
  "set_frame M i g = do {
     f \<leftarrow> arr_get (pm_frames M) i;
     Some (M\<lparr>pm_frames := (pm_frames M)[i := g f]\<rparr>)
   }"

definition physical_memory_write :: "physical_memory \<Rightarrow> nat \<Rightarrow> nat \<Rightarrow> byte list \<Rightarrow> physical_memory option" where
  "physical_memory_write M frame_number offset bs = do {
     a \<leftarrow> physical_memory_get_frame_address M frame_number;
     mem \<leftarrow> write_bytes (pm_memory M) (a + offset) bs;
     set_frame (M\<lparr>pm_memory := mem\<rparr>) frame_number (\<lambda>f. f\<lparr>pf_dirty := True\<rparr>)
   }"

definition physical_memory_swap_frame_data ::
  "physical_memory \<Rightarrow> nat \<Rightarrow> byte list \<Rightarrow> (physical_memory \<times> byte list \<times> bool) option" where
  "physical_memory_swap_frame_data M frame_number data_swap_buffer = do {
     M1 \<leftarrow> set_frame M frame_number (\<lambda>f. f\<lparr>pf_valid := True\<rparr>);
     M2 \<leftarrow> set_frame M1 frame_number (\<lambda>f. f\<lparr>pf_dirty := False\<rparr>);
     f \<leftarrow> physical_memory_get_frame M2 frame_number;
     a \<leftarrow> physical_memory_get_frame_address M2 frame_number;
     (if pf_valid f \<and> pf_dirty f then do {
        temp_buffer \<leftarrow> read_bytes (pm_memory M2) a (pm_frame_size M2);
        mem \<leftarrow> write_bytes (pm_memory M2) a (take (pm_frame_size M2) data_swap_buffer);
        buf \<leftarrow> write_bytes data_swap_buffer 0 temp_buffer;
        Some (M2\<lparr>pm_memory := mem\<rparr>, buf, True)
      }
      else do {
        bs \<leftarrow> read_bytes (pm_memory M2) a (pm_frame_size M2);
        buf \<leftarrow> write_bytes data_swap_buffer 0 bs;
        Some (M2, buf, False)
      })
   }"

section \<open>Frames laid out one after the other\<close>

definition pm_ok :: "physical_memory \<Rightarrow> nat \<Rightarrow> nat \<Rightarrow> bool" where
  "pm_ok M ps n \<longleftrightarrow> 0 < ps \<and> pm_frame_size M = ps \<and> n = pm_size M div ps \<and>
     length (pm_memory M) = pm_size M \<and> length (pm_frames M) = n \<and>
     (\<forall>f < n. pf_number (pm_frames M ! f) = f \<and> pf_address (pm_frames M ! f) = f * ps)"

lemma frame_in_memory:
  assumes "pm_ok M ps n" "f < n" "d \<le> ps"
  shows "f * ps + d \<le> length (pm_memory M)"
proof -
  have "f * ps + d \<le> Suc f * ps" using assms(3) by simp
  also have "\<dots> \<le> n * ps" using assms(2) by (intro mult_le_mono1) simp
  also have "\<dots> \<le> pm_size M" using assms(1) by (simp add: pm_ok_def)
  finally show ?thesis using assms(1) by (simp add: pm_ok_def)
qed

lemma frame_byte_in_memory: "pm_ok M ps n \<Longrightarrow> f < n \<Longrightarrow> d < ps \<Longrightarrow> f * ps + d < length (pm_memory M)"
  using frame_in_memory [of M ps n f "Suc d"] by simp

lemma frame_bytes_disjoint:
  assumes "d < ps" "e < (ps :: nat)"
  shows "f * ps + d = g * ps + e \<longleftrightarrow> f = g \<and> d = e"
proof
  assume eq: "f * ps + d = g * ps + e"
  then have "(f * ps + d) div ps = (g * ps + e) div ps" by simp
  then have "f = g" using assms by simp
  with eq show "f = g \<and> d = e" by simp
qed simp

lemma pm_ok_frame:
  assumes "pm_ok M ps n" "f < n"
  shows "physical_memory_get_frame M f = Some (pm_frames M ! f)"
    and "physical_memory_get_frame_address M f = Some (f * ps)"
  using assms by (auto simp: pm_ok_def physical_memory_get_frame_def physical_memory_get_frame_address_def)

lemma pm_ok_create:
  "0 < ps \<Longrightarrow> length mem = sz \<Longrightarrow> \<exists>M. physical_memory_create mem sz ps = Some M \<and> pm_ok M ps (sz div ps)"
  by (simp add: physical_memory_create_def pm_ok_def)

lemma set_frame_ok:
  assumes "pm_ok M ps n" "f < n" "\<And>fr. pf_number (g fr) = pf_number fr \<and> pf_address (g fr) = pf_address fr"
  shows "set_frame M f g = Some (M\<lparr>pm_frames := (pm_frames M)[f := g (pm_frames M ! f)]\<rparr>)"
    and "pm_ok (M\<lparr>pm_frames := (pm_frames M)[f := g (pm_frames M ! f)]\<rparr>) ps n"
  using assms by (auto simp: set_frame_def pm_ok_def nth_list_update)

text \<open>Reading one byte of a frame, and writing one.\<close>

lemma physical_memory_read_byte:
  assumes "pm_ok M ps n" "f < n" "d < ps"
  shows "physical_memory_read M f d 1 = Some [pm_memory M ! (f * ps + d)]"
  using frame_byte_in_memory [OF assms] pm_ok_frame [OF assms(1,2)]
  by (simp add: physical_memory_read_def read_bytes_def take_Suc hd_drop_conv_nth)

lemma physical_memory_write_byte:
  assumes "pm_ok M ps n" "f < n" "d < ps"
  shows "physical_memory_write M f d [v] = Some (M\<lparr>pm_memory := (pm_memory M)[f * ps + d := v],
      pm_frames := (pm_frames M)[f := (pm_frames M ! f)\<lparr>pf_dirty := True\<rparr>]\<rparr>)"
proof -
  have "write_bytes (pm_memory M) (f * ps + d) [v] = Some ((pm_memory M)[f * ps + d := v])"
    using frame_byte_in_memory [OF assms] by (simp add: write_bytes_def upd_conv_take_nth_drop)
  then show ?thesis
    using pm_ok_frame [OF assms(1,2)] assms(1,2)
    by (simp add: physical_memory_write_def set_frame_def pm_ok_def)
qed

text \<open>The swap routine clears the dirty flag before it tests it, so it never swaps.\<close>

lemma swap_never_swaps:
  assumes "physical_memory_swap_frame_data M f buf = Some (M', buf', r)"
  shows "\<not> r \<and> pm_memory M' = pm_memory M"
  using assms
  by (auto simp: physical_memory_swap_frame_data_def set_frame_def physical_memory_get_frame_def arr_get_def
      split: bind_splits if_splits)

end
