(* ===== verification/Virtual_Memory.thy ===== *)
theory Virtual_Memory
  imports TLB Physical_Memory
begin

unbundle bit_operations_syntax

text \<open>
  The virtual memory of \<open>CS2303 Operating System/Project 8/virtual_memory.c\<close>: a page table whose
  entries are cached by an LRU cache of pointers, the TLB, the physical memory and the backing store.
  A pointer to a page table entry is an index of the table or the address of a local key; a pointer to
  a frame is its index.  Addresses are unbounded integers here: all products stay below the size of the
  physical memory or of the backing store, which the process has allocated.
\<close>

section \<open>The backing store\<close>

text \<open>
  An open file: content, position, and whether the mode of \<open>fopen\<close> allows writing.  \<open>fwrite\<close> on a
  stream opened with \<open>"rb"\<close> fails and writes nothing; \<open>fread\<close> stores the bytes that are left.
\<close>

record stream =
  f_content :: "byte list"
  f_pos :: nat
  f_writable :: bool

definition fseek_set :: "stream \<Rightarrow> nat \<Rightarrow> stream" where
  "fseek_set s pos = s\<lparr>f_pos := pos\<rparr>"

definition fread :: "stream \<Rightarrow> nat \<Rightarrow> stream \<times> byte list" where
  "fread s n = (let bs = take n (drop (f_pos s) (f_content s))
                in (s\<lparr>f_pos := f_pos s + length bs\<rparr>, bs))"

definition fwrite :: "stream \<Rightarrow> byte list \<Rightarrow> stream" where
  "fwrite s bs =
     (if f_writable s
      then s\<lparr>f_content := take (f_pos s) (f_content s @ replicate (f_pos s - length (f_content s)) 0) @ bs @
               drop (f_pos s + length bs) (f_content s),
             f_pos := f_pos s + length bs\<rparr>
      else s)"

section \<open>State\<close>

record page_table_entry =
  pt_page :: nat
  pt_frame :: nat
  pt_valid :: bool

datatype page_ref = Page nat | Page_Key page_table_entry

record virtual_memory =
  vm_page_size :: nat
  vm_page_table :: "page_table_entry list"
  vm_page_table_capacity :: nat
  vm_page_cache :: "page_ref LRU_cache"
  vm_tlb :: TLB
  vm_physical :: physical_memory
  vm_backing :: "stream option"
  vm_page_faults :: nat
  vm_total_accesses :: nat
  vm_log_enabled :: bool
  vm_log_file :: "(int \<times> int \<times> int) list option"

fun page_entry :: "page_table_entry list \<Rightarrow> page_ref \<Rightarrow> page_table_entry" where
  "page_entry pt (Page i) = pt ! i"
| "page_entry pt (Page_Key e) = e"

fun store_page_entry :: "page_table_entry list \<Rightarrow> page_ref \<Rightarrow> page_table_entry \<Rightarrow> page_table_entry list option" where
  "store_page_entry pt (Page i) e = arr_set pt i e"
| "store_page_entry pt (Page_Key _) e = None"

definition page_table_entry_equal :: "page_table_entry list \<Rightarrow> page_ref \<Rightarrow> page_ref \<Rightarrow> bool" where
  "page_table_entry_equal pt a b \<longleftrightarrow> pt_page (page_entry pt a) = pt_page (page_entry pt b)"

section \<open>Operations\<close>

text \<open>
  \<open>store\<close> is the content of the backing store file, \<open>None\<close> when \<open>fopen\<close> fails; \<open>mem\<close> is the array
  \<open>physical_memory_ptr\<close> points to.
\<close>

definition virtual_memory_create ::
  "nat \<Rightarrow> nat \<Rightarrow> nat \<Rightarrow> nat \<Rightarrow> byte list \<Rightarrow> byte list option \<Rightarrow> virtual_memory option" where
  "virtual_memory_create page_size page_table_capacity tlb_size physical_memory_capacity mem store = do {
     ensure (page_size \<noteq> 0);
     pm \<leftarrow> physical_memory_create mem physical_memory_capacity page_size;
     Some \<lparr>vm_page_size = page_size,
       vm_page_table = map (\<lambda>i. \<lparr>pt_page = i, pt_frame = SIZE_MINUS_1, pt_valid = False\<rparr>) [0..<page_table_capacity],
       vm_page_table_capacity = page_table_capacity,
       vm_page_cache = LRU_cache_create (physical_memory_capacity div page_size),
       vm_tlb = TLB_create tlb_size,
       vm_physical = pm,
       vm_backing = map_option (\<lambda>c. \<lparr>f_content = c, f_pos = 0, f_writable = False\<rparr>) store,
       vm_page_faults = 0, vm_total_accesses = 0, vm_log_enabled = False, vm_log_file = None\<rparr>
   }"

text \<open>Copy one frame to its page's place in the backing store.\<close>

definition write_back :: "virtual_memory \<Rightarrow> page_table_entry \<Rightarrow> nat \<Rightarrow> virtual_memory option" where
  "write_back V e frame_number = do {
     a \<leftarrow> physical_memory_get_frame_address (vm_physical V) frame_number;
     s \<leftarrow> vm_backing V;
     bs \<leftarrow> read_bytes (pm_memory (vm_physical V)) a (vm_page_size V);
     Some (V\<lparr>vm_backing := Some (fwrite (fseek_set s (pt_page e * vm_page_size V)) bs)\<rparr>)
   }"

definition destroy_step :: "virtual_memory \<Rightarrow> page_table_entry \<Rightarrow> virtual_memory option" where
  "destroy_step V e =
     (if \<not> pt_valid e then Some V
      else do {
        frame \<leftarrow> physical_memory_get_frame (vm_physical V) (pt_frame e);
        if pf_valid frame \<and> pf_dirty frame then write_back V e (pf_number frame) else Some V
      })"

definition virtual_memory_destroy :: "virtual_memory \<Rightarrow> virtual_memory option" where
  "virtual_memory_destroy V = do {
     V1 \<leftarrow> foldl (\<lambda>r i. do { V1 \<leftarrow> r; e \<leftarrow> arr_get (vm_page_table V1) i; destroy_step V1 e })
             (Some V) [0..<vm_page_table_capacity V];
     c \<leftarrow> LRU_cache_destroy (vm_page_cache V1);
     t \<leftarrow> TLB_destroy (vm_tlb V1);
     s \<leftarrow> vm_backing V1;
     Some (V1\<lparr>vm_page_table := [], vm_page_cache := c, vm_tlb := t,
              vm_physical := physical_memory_destroy (vm_physical V1)\<rparr>)
   }"

text \<open>\<open>virtual_memory_get_physical_address\<close>: the eviction of the least recently used page \<dots>\<close>

definition evict_page :: "virtual_memory \<Rightarrow> (virtual_memory \<times> nat) option" where
  "evict_page V = do {
     least_recently_used \<leftarrow> LRU_cache_least_recently_used (vm_page_cache V);
     r \<leftarrow> least_recently_used;
     (let e = page_entry (vm_page_table V) r; frame_index = pt_frame e in do {
        frame_to_evict \<leftarrow> physical_memory_get_frame (vm_physical V) frame_index;
        V1 \<leftarrow> (if pf_dirty frame_to_evict then do {
                 V1 \<leftarrow> write_back V e (pf_number frame_to_evict);
                 pm \<leftarrow> set_frame (vm_physical V1) frame_index (\<lambda>f. f\<lparr>pf_dirty := False\<rparr>);
                 Some (V1\<lparr>vm_physical := pm\<rparr>)
               }
               else Some V);
        (c, removed) \<leftarrow> LRU_cache_remove (page_table_entry_equal (vm_page_table V1)) (vm_page_cache V1) r;
        (t, found) \<leftarrow> TLB_remove (vm_tlb V1) (pt_page e);
        pt \<leftarrow> store_page_entry (vm_page_table V1) r (e\<lparr>pt_frame := SIZE_MINUS_1, pt_valid := False\<rparr>);
        Some (V1\<lparr>vm_page_cache := c, vm_tlb := t, vm_page_table := pt\<rparr>, frame_index)
     })
   }"

text \<open>\<open>\<dots>\<close> the search for a free frame, and the load of the page into it.\<close>

definition free_frame :: "virtual_memory \<Rightarrow> nat option" where
  "free_frame V = List.find
     (\<lambda>i. case physical_memory_get_frame (vm_physical V) i of Some f \<Rightarrow> \<not> pf_valid f | None \<Rightarrow> False)
     [0..<pm_size (vm_physical V) div vm_page_size V]"

definition load_page :: "virtual_memory \<Rightarrow> nat \<Rightarrow> nat \<Rightarrow> (virtual_memory \<times> nat) option" where
  "load_page V page_number frame_index = do {
     frame_to_insert \<leftarrow> physical_memory_get_frame (vm_physical V) frame_index;
     s \<leftarrow> vm_backing V;
     a \<leftarrow> physical_memory_get_frame_address (vm_physical V) (pf_number frame_to_insert);
     (let (s', bs) = fread (fseek_set s (page_number * vm_page_size V)) (vm_page_size V) in do {
        mem \<leftarrow> write_bytes (pm_memory (vm_physical V)) a bs;
        e \<leftarrow> arr_get (vm_page_table V) page_number;
        pt \<leftarrow> arr_set (vm_page_table V) page_number
               (e\<lparr>pt_frame := pf_number frame_to_insert, pt_valid := True\<rparr>);
        pm \<leftarrow> set_frame ((vm_physical V)\<lparr>pm_memory := mem\<rparr>) frame_index
               (\<lambda>f. f\<lparr>pf_valid := True, pf_dirty := False\<rparr>);
        (c, removed) \<leftarrow> LRU_cache_insert (page_table_entry_equal pt) (vm_page_cache V) (Page page_number);
        t \<leftarrow> TLB_insert (vm_tlb V) page_number (pf_number frame_to_insert);
        Some (V\<lparr>vm_backing := Some s', vm_page_table := pt, vm_physical := pm, vm_page_cache := c, vm_tlb := t\<rparr>,
              pf_number frame_to_insert)
     })
   }"

definition page_fault :: "virtual_memory \<Rightarrow> nat \<Rightarrow> (virtual_memory \<times> nat) option" where
  "page_fault V page_number = do {
     (V1, frame_index) \<leftarrow> (if LRU_cache_full (vm_page_cache V) then evict_page V
                           else do { i \<leftarrow> free_frame V; Some (V, i) });
     load_page V1 page_number frame_index
   }"

definition page_of :: "int \<Rightarrow> nat" where
  "page_of address = nat (drop_bit 8 (address AND 0xFF00))"

definition offset_of :: "int \<Rightarrow> nat" where
  "offset_of address = nat (address AND 0x00FF)"

definition virtual_memory_get_physical_address :: "virtual_memory \<Rightarrow> int \<Rightarrow> (virtual_memory \<times> int) option" where
  "virtual_memory_get_physical_address V address =
     (let page_number = page_of address; offset = offset_of address;
          V0 = V\<lparr>vm_total_accesses := size_inc (vm_total_accesses V)\<rparr> in do {
        (t, tlb_frame) \<leftarrow> TLB_query (vm_tlb V0) page_number;
        (let V1 = V0\<lparr>vm_tlb := t\<rparr> in
         if tlb_frame \<noteq> -1 then Some (V1, tlb_frame * int (vm_page_size V1) + int offset)
         else do {
           (c, hit) \<leftarrow> LRU_cache_query (page_table_entry_equal (vm_page_table V1)) (vm_page_cache V1)
                         (Page_Key \<lparr>pt_page = page_number, pt_frame = 0, pt_valid = False\<rparr>);
           (let V2 = V1\<lparr>vm_page_cache := c\<rparr> in
            case hit of
              Some r \<Rightarrow> do {
                t' \<leftarrow> TLB_insert (vm_tlb V2) page_number (pt_frame (page_entry (vm_page_table V2) r));
                Some (V2\<lparr>vm_tlb := t'\<rparr>,
                      int (pt_frame (page_entry (vm_page_table V2) r) * vm_page_size V2 + offset))
              }
            | None \<Rightarrow> do {
                (V3, frame) \<leftarrow> page_fault (V2\<lparr>vm_page_faults := size_inc (vm_page_faults V2)\<rparr>) page_number;
                Some (V3, int (frame * vm_page_size V3 + offset))
              })
         })
      })"

definition log_access :: "virtual_memory \<Rightarrow> int \<Rightarrow> int \<Rightarrow> byte \<Rightarrow> virtual_memory option" where
  "log_access V address physical_address value =
     (if vm_log_enabled V then do {
        lines \<leftarrow> vm_log_file V;
        Some (V\<lparr>vm_log_file := Some (lines @ [(address, physical_address, sint value)])\<rparr>)
      }
      else Some V)"

definition virtual_memory_read :: "virtual_memory \<Rightarrow> int \<Rightarrow> (virtual_memory \<times> byte) option" where
  "virtual_memory_read V address = do {
     (V1, pa) \<leftarrow> virtual_memory_get_physical_address V address;
     (let frame_number = nat (pa div int (vm_page_size V1)); offset = nat (pa mod int (vm_page_size V1)) in do {
        bs \<leftarrow> physical_memory_read (vm_physical V1) frame_number offset 1;
        V2 \<leftarrow> log_access V1 address pa (hd bs);
        Some (V2, hd bs)
     })
   }"

definition virtual_memory_write :: "virtual_memory \<Rightarrow> int \<Rightarrow> byte \<Rightarrow> virtual_memory option" where
  "virtual_memory_write V address value = do {
     (V1, pa) \<leftarrow> virtual_memory_get_physical_address V address;
     (let frame_number = nat (pa div int (vm_page_size V1)); offset = nat (pa mod int (vm_page_size V1)) in do {
        pm \<leftarrow> physical_memory_write (vm_physical V1) frame_number offset [value];
        log_access (V1\<lparr>vm_physical := pm\<rparr>) address pa value
     })
   }"

text \<open>\<open>opened\<close>: whether \<open>fopen(filename, "a")\<close> succeeds; the log starts with the lines written since.\<close>

definition virtual_memory_set_log :: "virtual_memory \<Rightarrow> bool \<Rightarrow> bool \<Rightarrow> virtual_memory" where
  "virtual_memory_set_log V enabled opened =
     V\<lparr>vm_log_enabled := enabled, vm_log_file := (if enabled \<and> opened then Some [] else None)\<rparr>"

text \<open>The loop of \<open>test\<close> in \<open>main.c\<close>: read every address of the query file.\<close>

fun read_all :: "virtual_memory \<Rightarrow> int list \<Rightarrow> virtual_memory option" where
  "read_all V [] = Some V"
| "read_all V (a # as) = do { (V', v) \<leftarrow> virtual_memory_read V a; read_all V' as }"

text \<open>\<open>check\<close> of \<open>main.c\<close>: the first line where the two files differ, 0 when there is none.\<close>

fun check_lines :: "nat \<Rightarrow> string list \<Rightarrow> string list \<Rightarrow> nat" where
  "check_lines line (c # cs) (a # as) = (if c \<noteq> a then line else check_lines (line + 1) cs as)"
| "check_lines line _ _ = 0"

text \<open>\<open>main\<close> of \<open>main.c\<close> with its constants: the counters it prints, and the log.\<close>

definition vm_main :: "byte list \<Rightarrow> byte list option \<Rightarrow> int list \<Rightarrow>
    (nat \<times> nat \<times> nat \<times> nat \<times> (int \<times> int \<times> int) list) option" where
  "vm_main memory store queries = do {
     V \<leftarrow> virtual_memory_create 256 256 16 (256 * 256) memory store;
     V1 \<leftarrow> read_all (virtual_memory_set_log V True True) queries;
     V2 \<leftarrow> virtual_memory_destroy V1;
     lines \<leftarrow> vm_log_file V1;
     Some (vm_total_accesses V1, vm_page_faults V1, TLB_hit_count (vm_tlb V1), TLB_miss_count (vm_tlb V1), lines)
   }"

section \<open>The flat memory it stands for\<close>

definition page_frame :: "virtual_memory \<Rightarrow> nat \<Rightarrow> nat" where
  "page_frame V p = pt_frame (vm_page_table V ! p)"

definition resident :: "virtual_memory \<Rightarrow> nat \<Rightarrow> bool" where
  "resident V p \<longleftrightarrow> pt_valid (vm_page_table V ! p)"

definition store_bytes :: "virtual_memory \<Rightarrow> byte list" where
  "store_bytes V = (case vm_backing V of Some s \<Rightarrow> f_content s | None \<Rightarrow> [])"

definition vm_byte :: "virtual_memory \<Rightarrow> nat \<Rightarrow> nat \<Rightarrow> byte" where
  "vm_byte V p d =
     (if resident V p then pm_memory (vm_physical V) ! (page_frame V p * vm_page_size V + d)
      else store_bytes V ! (p * vm_page_size V + d))"

definition frame_dirty :: "virtual_memory \<Rightarrow> nat \<Rightarrow> bool" where
  "frame_dirty V f = pf_dirty (pm_frames (vm_physical V) ! f)"

definition frame_valid :: "virtual_memory \<Rightarrow> nat \<Rightarrow> bool" where
  "frame_valid V f = pf_valid (pm_frames (vm_physical V) ! f)"

text \<open>
  \<open>vm_inv n V ps al X\<close>: the resident pages are \<open>ps\<close> (least recently used first in the page cache),
  the TLB holds \<open>al\<close>, and of the \<open>n\<close> frames exactly those of the resident pages and those of \<open>X\<close>
  (evicted and not yet reused) are marked valid.  Frames that are not dirty agree with the store.
\<close>

definition vm_inv :: "nat \<Rightarrow> virtual_memory \<Rightarrow> nat list \<Rightarrow> (nat \<times> nat) list \<Rightarrow> nat set \<Rightarrow> bool" where
  "vm_inv n V ps al X \<longleftrightarrow>
     256 \<le> vm_page_size V \<and> pm_ok (vm_physical V) (vm_page_size V) n \<and> 0 < n \<and> n < 2 ^ 31 \<and>
     length (vm_page_table V) = vm_page_table_capacity V \<and> 256 \<le> vm_page_table_capacity V \<and>
     (\<forall>i < vm_page_table_capacity V. pt_page (vm_page_table V ! i) = i) \<and>
     lru_rep (vm_page_cache V) (map Page ps) \<and> lru_capacity (vm_page_cache V) = n \<and>
     distinct ps \<and> set ps \<subseteq> {..<256} \<and>
     (\<forall>i < vm_page_table_capacity V. resident V i \<longleftrightarrow> i \<in> set ps) \<and>
     (\<forall>p \<in> set ps. page_frame V p < n) \<and> inj_on (page_frame V) (set ps) \<and>
     X \<subseteq> {..<n} \<and> X \<inter> page_frame V ` set ps = {} \<and>
     (\<forall>f < n. frame_valid V f \<longleftrightarrow> f \<in> page_frame V ` set ps \<union> X) \<and>
     tlb_rep (vm_tlb V) al \<and> (\<forall>(p, f) \<in> set al. p \<in> set ps \<and> f = page_frame V p) \<and>
     vm_backing V \<noteq> None \<and> 256 * vm_page_size V \<le> length (store_bytes V) \<and>
     (\<forall>p \<in> set ps. \<not> frame_dirty V (page_frame V p) \<longrightarrow>
        (\<forall>d < vm_page_size V. pm_memory (vm_physical V) ! (page_frame V p * vm_page_size V + d) =
                              store_bytes V ! (p * vm_page_size V + d)))"

text \<open>Nothing can be lost: the store is writable, no page is dirty, or there is a frame for every page.\<close>

definition loss_free :: "nat \<Rightarrow> virtual_memory \<Rightarrow> bool" where
  "loss_free n V \<longleftrightarrow> (case vm_backing V of Some s \<Rightarrow> f_writable s | None \<Rightarrow> False) \<or>
     (\<forall>f < n. \<not> frame_dirty V f) \<or> 256 \<le> n"

text \<open>What no operation of the translation changes.\<close>

definition same_mode :: "virtual_memory \<Rightarrow> virtual_memory \<Rightarrow> bool" where
  "same_mode V V' \<longleftrightarrow> vm_page_size V' = vm_page_size V \<and> vm_log_enabled V' = vm_log_enabled V \<and>
     vm_log_file V' = vm_log_file V \<and> map_option f_writable (vm_backing V') = map_option f_writable (vm_backing V)"

definition same_bytes :: "virtual_memory \<Rightarrow> virtual_memory \<Rightarrow> bool" where
  "same_bytes V V' \<longleftrightarrow> (\<forall>p < 256. \<forall>d < vm_page_size V. vm_byte V' p d = vm_byte V p d)"

lemma same_trans:
  "same_mode V V1 \<Longrightarrow> same_mode V1 V2 \<Longrightarrow> same_mode V V2"
  "same_mode V V1 \<Longrightarrow> same_bytes V V1 \<Longrightarrow> same_bytes V1 V2 \<Longrightarrow> same_bytes V V2"
  by (simp_all add: same_mode_def same_bytes_def)

section \<open>Pages, offsets, frames\<close>

lemma page_of_bound: "page_of a < 256"
proof -
  have "drop_bit 8 (a AND 0xFF00) = drop_bit 8 a AND 0xFF"
    by (simp add: drop_bit_and)
  also have "\<dots> = take_bit 8 (drop_bit 8 a)"
    using take_bit_eq_mask [of 8 "drop_bit 8 a"] by (simp add: mask_eq_exp_minus_1)
  finally show ?thesis
    using take_bit_int_less_exp [of 8 "drop_bit 8 a"] by (simp add: page_of_def)
qed

lemma offset_of_bound: "offset_of a < 256"
proof -
  have "a AND 0xFF = take_bit 8 a"
    using take_bit_eq_mask [of 8 a] by (simp add: mask_eq_exp_minus_1)
  then show ?thesis
    using take_bit_int_less_exp [of 8 a] by (simp add: offset_of_def)
qed

lemma in_frame:
  assumes "d < (ps :: nat)"
  shows "f * ps \<le> g * ps + d \<and> g * ps + d < f * ps + ps \<longleftrightarrow> g = f"
proof
  assume a: "f * ps \<le> g * ps + d \<and> g * ps + d < f * ps + ps"
  have "f < Suc g" using a assms by (metis add.commute le_less_trans mult_Suc mult_less_cancel2 nat_add_left_cancel_less)
  moreover have "g < Suc f"
    using a by (metis add.commute add_lessD1 mult_Suc mult_less_cancel2)
  ultimately show "g = f" by simp
qed (use assms in auto)

lemma frame_arith:
  assumes "d < (ps :: nat)"
  shows "nat (int (f * ps + d) div int ps) = f" "nat (int (f * ps + d) mod int ps) = d"
    "nat ((int f * int ps + int d) div int ps) = f" "nat ((int f * int ps + int d) mod int ps) = d"
  using assms by (simp_all flip: of_nat_mult of_nat_add zdiv_int zmod_int add: div_mult_self3)

lemma fread_page:
  assumes "Suc page * ps \<le> length (f_content s)"
  shows "fread (fseek_set s (page * ps)) ps =
    (s\<lparr>f_pos := page * ps + ps\<rparr>, take ps (drop (page * ps) (f_content s)))"
  using assms by (simp add: fread_def fseek_set_def Let_def)

lemma fwrite_nth:
  assumes "f_writable s" "Suc p * ps \<le> length (f_content s)" "length bs = ps"
  shows "length (f_content (fwrite (fseek_set s (p * ps)) bs)) = length (f_content s)"
    "d < ps \<Longrightarrow> Suc q * ps \<le> length (f_content s) \<Longrightarrow> f_content (fwrite (fseek_set s (p * ps)) bs) ! (q * ps + d) =
      (if q = p then bs ! d else f_content s ! (q * ps + d))"
proof -
  show "length (f_content (fwrite (fseek_set s (p * ps)) bs)) = length (f_content s)"
    using assms by (simp add: fwrite_def fseek_set_def)
  assume d: "d < ps" "Suc q * ps \<le> length (f_content s)"
  have *: "f_content (fwrite (fseek_set s (p * ps)) bs) =
      take (p * ps) (f_content s) @ bs @ drop (p * ps + ps) (f_content s)"
    using assms by (simp add: fwrite_def fseek_set_def)
  show "f_content (fwrite (fseek_set s (p * ps)) bs) ! (q * ps + d) =
      (if q = p then bs ! d else f_content s ! (q * ps + d))"
    unfolding * using in_frame [OF d(1), of p q] assms d
    by (auto simp: nth_append)
qed

section \<open>The invariant, in usable pieces\<close>

lemma vm_invD:
  assumes "vm_inv n V ps al X"
  shows "256 \<le> vm_page_size V" "pm_ok (vm_physical V) (vm_page_size V) n" "0 < n" "n < 2 ^ 31"
    "length (vm_page_table V) = vm_page_table_capacity V" "256 \<le> vm_page_table_capacity V"
    "\<And>i. i < vm_page_table_capacity V \<Longrightarrow> pt_page (vm_page_table V ! i) = i"
    "lru_rep (vm_page_cache V) (map Page ps)" "lru_capacity (vm_page_cache V) = n"
    "distinct ps" "\<And>p. p \<in> set ps \<Longrightarrow> p < 256"
    "\<And>i. i < vm_page_table_capacity V \<Longrightarrow> resident V i \<longleftrightarrow> i \<in> set ps"
    "\<And>p. p \<in> set ps \<Longrightarrow> page_frame V p < n" "inj_on (page_frame V) (set ps)"
    "X \<subseteq> {..<n}" "X \<inter> page_frame V ` set ps = {}"
    "\<And>f. f < n \<Longrightarrow> frame_valid V f \<longleftrightarrow> f \<in> page_frame V ` set ps \<union> X"
    "tlb_rep (vm_tlb V) al" "\<And>p f. (p, f) \<in> set al \<Longrightarrow> p \<in> set ps \<and> f = page_frame V p"
    "256 * vm_page_size V \<le> length (store_bytes V)"
    "\<And>p d. p \<in> set ps \<Longrightarrow> \<not> frame_dirty V (page_frame V p) \<Longrightarrow> d < vm_page_size V \<Longrightarrow>
       pm_memory (vm_physical V) ! (page_frame V p * vm_page_size V + d) = store_bytes V ! (p * vm_page_size V + d)"
  using assms by (auto simp: vm_inv_def)

lemma vm_invI:
  assumes "256 \<le> vm_page_size V" "pm_ok (vm_physical V) (vm_page_size V) n" "0 < n" "n < 2 ^ 31"
    "length (vm_page_table V) = vm_page_table_capacity V" "256 \<le> vm_page_table_capacity V"
    "\<And>i. i < vm_page_table_capacity V \<Longrightarrow> pt_page (vm_page_table V ! i) = i"
    "lru_rep (vm_page_cache V) (map Page ps)" "lru_capacity (vm_page_cache V) = n"
    "distinct ps" "\<And>p. p \<in> set ps \<Longrightarrow> p < 256"
    "\<And>i. i < vm_page_table_capacity V \<Longrightarrow> resident V i \<longleftrightarrow> i \<in> set ps"
    "\<And>p. p \<in> set ps \<Longrightarrow> page_frame V p < n" "inj_on (page_frame V) (set ps)"
    "X \<subseteq> {..<n}" "X \<inter> page_frame V ` set ps = {}"
    "\<And>f. f < n \<Longrightarrow> frame_valid V f \<longleftrightarrow> f \<in> page_frame V ` set ps \<union> X"
    "tlb_rep (vm_tlb V) al" "\<And>p f. (p, f) \<in> set al \<Longrightarrow> p \<in> set ps \<and> f = page_frame V p"
    "vm_backing V \<noteq> None" "256 * vm_page_size V \<le> length (store_bytes V)"
    "\<And>p d. p \<in> set ps \<Longrightarrow> \<not> frame_dirty V (page_frame V p) \<Longrightarrow> d < vm_page_size V \<Longrightarrow>
       pm_memory (vm_physical V) ! (page_frame V p * vm_page_size V + d) = store_bytes V ! (p * vm_page_size V + d)"
  shows "vm_inv n V ps al X"
  unfolding vm_inv_def by (intro conjI allI impI ballI) (auto simp: assms assms(4) [simplified] split: prod.splits)

lemma vm_inv_backing:
  assumes "vm_inv n V ps al X"
  obtains s where "vm_backing V = Some s" "store_bytes V = f_content s" "256 * vm_page_size V \<le> length (f_content s)"
  using assms by (cases "vm_backing V") (auto simp: vm_inv_def store_bytes_def)

lemma page_in_store:
  assumes "256 * ps \<le> (len :: nat)" "p < 256"
  shows "Suc p * ps \<le> len"
proof -
  have "Suc p * ps \<le> 256 * ps" using assms(2) by (intro mult_le_mono1) simp
  then show ?thesis using assms(1) by (rule order_trans)
qed

text \<open>The fields that only the translation caches use.\<close>

lemma vm_inv_tlb:
  assumes "vm_inv n V ps al X" "tlb_rep T al'" "\<And>p f. (p, f) \<in> set al' \<Longrightarrow> p \<in> set ps \<and> f = page_frame V p"
  shows "vm_inv n (V\<lparr>vm_tlb := T\<rparr>) ps al' X"
  using assms(1,2) assms(3) unfolding vm_inv_def page_frame_def resident_def store_bytes_def frame_dirty_def frame_valid_def
  by (auto split: prod.splits)

lemma vm_inv_cache:
  assumes "vm_inv n V ps al X" "lru_rep C (map Page qs)" "lru_capacity C = n" "mset qs = mset ps"
  shows "vm_inv n (V\<lparr>vm_page_cache := C\<rparr>) qs al X"
proof -
  have *: "set qs = set ps" "distinct qs = distinct ps"
    using assms(4) by (metis set_mset_mset) (metis assms(4) mset_eq_imp_distinct_iff)
  show ?thesis
    using assms(1-3) unfolding vm_inv_def page_frame_def resident_def store_bytes_def frame_dirty_def frame_valid_def *
    by simp
qed

text \<open>Writing back a page leaves memory alone and makes the store agree on that page.\<close>

lemma write_back_step:
  assumes inv: "vm_inv n V ps al X" and p: "p \<in> set ps"
  shows "\<exists>s'. write_back V (vm_page_table V ! p) (page_frame V p) = Some (V\<lparr>vm_backing := Some s'\<rparr>) \<and>
    map_option f_writable (vm_backing V) = Some (f_writable s') \<and>
    length (f_content s') = length (store_bytes V) \<and>
    (\<forall>q < 256. \<forall>d < vm_page_size V. f_content s' ! (q * vm_page_size V + d) =
       (if f_writable s' \<and> q = p then vm_byte V p d else store_bytes V ! (q * vm_page_size V + d)))"
proof -
  note D = vm_invD [OF inv]
  obtain s where s: "vm_backing V = Some s" "store_bytes V = f_content s" "256 * vm_page_size V \<le> length (f_content s)"
    using inv by (rule vm_inv_backing)
  let ?f = "page_frame V p" and ?sz = "vm_page_size V"
  have f: "?f < n" and p256: "p < 256" "p < vm_page_table_capacity V"
    using D(13,11) [OF p] D(6) by simp_all
  have pg: "pt_page (vm_page_table V ! p) = p" using D(7) p256 by simp
  have rd: "read_bytes (pm_memory (vm_physical V)) (?f * ?sz) ?sz =
      Some (take ?sz (drop (?f * ?sz) (pm_memory (vm_physical V))))"
    using frame_in_memory [OF D(2) f, of ?sz] by (simp add: read_bytes_def)
  let ?bs = "take ?sz (drop (?f * ?sz) (pm_memory (vm_physical V)))"
  let ?s = "fwrite (fseek_set s (p * ?sz)) ?bs"
  have bs: "length ?bs = ?sz" "\<And>d. d < ?sz \<Longrightarrow> ?bs ! d = vm_byte V p d"
    using frame_in_memory [OF D(2) f, of ?sz] p D(12) [OF p256(2)] by (simp_all add: vm_byte_def)
  have wb: "write_back V (vm_page_table V ! p) ?f = Some (V\<lparr>vm_backing := Some ?s\<rparr>)"
    using pm_ok_frame(2) [OF D(2) f] s(1) rd pg by (simp add: write_back_def)
  have mode: "f_writable ?s = f_writable s" by (simp add: fwrite_def fseek_set_def)
  show ?thesis
  proof (cases "f_writable s")
    case True
    note w = fwrite_nth [OF True page_in_store [OF s(3) p256(1)] bs(1)]
    show ?thesis
      using wb mode w(1) w(2) [OF _ page_in_store [OF s(3)]] bs(2) s True by (intro exI [of _ ?s]) auto
  next
    case False
    then have "f_content ?s = f_content s" by (simp add: fwrite_def fseek_set_def)
    then show ?thesis using wb mode s False by (intro exI [of _ ?s]) simp
  qed
qed

section \<open>Eviction\<close>

lemma evict_page_step:
  assumes inv: "vm_inv n V (p # ps) al {}"
    and safe: "(\<exists>s. vm_backing V = Some s \<and> f_writable s) \<or> \<not> frame_dirty V (page_frame V p)"
  shows "\<exists>V'. evict_page V = Some (V', page_frame V p) \<and>
    vm_inv n V' ps (filter (\<lambda>e. fst e \<noteq> p) al) {page_frame V p} \<and> same_mode V V' \<and> same_bytes V V' \<and>
    (\<forall>f. frame_dirty V' f \<longrightarrow> frame_dirty V f)"
proof -
  note D = vm_invD [OF inv]
  let ?f = "page_frame V p" and ?sz = "vm_page_size V" and ?pt = "vm_page_table V"
  have p: "p < 256" "p < vm_page_table_capacity V" "?f < n" "p \<notin> set ps"
    using D(11,13) [of p] D(6,10) by simp_all
  have pg: "pt_page (?pt ! p) = p" using D(7) p(2) by simp
  obtain s where s: "vm_backing V = Some s" "store_bytes V = f_content s" "256 * ?sz \<le> length (f_content s)"
    using inv by (rule vm_inv_backing)
  have lr: "LRU_cache_least_recently_used (vm_page_cache V) = Some (Some (Page p))"
    using LRU_cache_least_recently_used_rep [OF D(8)] by simp
  have gf: "physical_memory_get_frame (vm_physical V) ?f = Some (pm_frames (vm_physical V) ! ?f)"
      "pf_number (pm_frames (vm_physical V) ! ?f) = ?f"
    using pm_ok_frame [OF D(2) p(3)] D(2) p(3) by (simp_all add: pm_ok_def)
  let ?g = "\<lambda>fr. if frame_dirty V ?f then fr\<lparr>pf_dirty := False\<rparr> else fr"
  let ?pm = "(vm_physical V)\<lparr>pm_frames := (pm_frames (vm_physical V))[?f := ?g (pm_frames (vm_physical V) ! ?f)]\<rparr>"
  have "\<exists>s'. (if pf_dirty (pm_frames (vm_physical V) ! ?f) then do {
          V1 \<leftarrow> write_back V (?pt ! p) ?f;
          pm \<leftarrow> set_frame (vm_physical V1) ?f (\<lambda>f. f\<lparr>pf_dirty := False\<rparr>);
          Some (V1\<lparr>vm_physical := pm\<rparr>)
        } else Some V) = Some (V\<lparr>vm_backing := Some s', vm_physical := ?pm\<rparr>) \<and>
      f_writable s' = f_writable s \<and> length (f_content s') = length (f_content s) \<and>
      (\<forall>q < 256. \<forall>d < ?sz. f_content s' ! (q * ?sz + d) =
         (if q = p then vm_byte V p d else f_content s ! (q * ?sz + d)))"
  proof (cases "frame_dirty V ?f")
    case True
    then have w: "f_writable s" using safe s(1) by simp
    show ?thesis
      using write_back_step [OF inv, of p] s w True set_frame_ok(1) [OF D(2) p(3), of "\<lambda>f. f\<lparr>pf_dirty := False\<rparr>"]
      by (auto simp: frame_dirty_def)
  next
    case False
    have "?pm = vm_physical V" using False by simp
    then have "V\<lparr>vm_backing := Some s, vm_physical := ?pm\<rparr> = V" using s(1) by simp
    moreover have "\<forall>d < ?sz. vm_byte V p d = f_content s ! (p * ?sz + d)"
      using D(21) [of p] False D(12) [OF p(2)] s(2) by (simp add: vm_byte_def)
    ultimately show ?thesis
      using False by (intro exI [of _ s]) (simp add: frame_dirty_def)
  qed
  then obtain s' where V1: "(if pf_dirty (pm_frames (vm_physical V) ! ?f) then do {
          V1 \<leftarrow> write_back V (?pt ! p) ?f;
          pm \<leftarrow> set_frame (vm_physical V1) ?f (\<lambda>f. f\<lparr>pf_dirty := False\<rparr>);
          Some (V1\<lparr>vm_physical := pm\<rparr>)
        } else Some V) = Some (V\<lparr>vm_backing := Some s', vm_physical := ?pm\<rparr>)"
      "f_writable s' = f_writable s" "length (f_content s') = length (f_content s)"
      "\<And>q d. q < 256 \<Longrightarrow> d < ?sz \<Longrightarrow> f_content s' ! (q * ?sz + d) =
         (if q = p then vm_byte V p d else f_content s ! (q * ?sz + d))"
    by blast
  have "spec_remove (\<lambda>d. page_table_entry_equal ?pt d (Page p)) (map Page (p # ps)) = (map Page ps, Some (Page p))"
    by (simp add: spec_remove_def extract_Cons_code page_table_entry_equal_def)
  then obtain c where c: "LRU_cache_remove (page_table_entry_equal ?pt) (vm_page_cache V) (Page p) = Some (c, Some (Page p))"
      "lru_rep c (map Page ps)" "lru_capacity c = n"
    using LRU_cache_remove_refines [OF D(8), of "page_table_entry_equal ?pt" "Page p"] D(9) by auto
  obtain t where t: "TLB_remove (vm_tlb V) p = Some (t, p \<in> fst ` set al)"
      "tlb_rep t (filter (\<lambda>e. fst e \<noteq> p) al)"
    using TLB_remove_refines [OF D(18)] by blast
  let ?e = "(?pt ! p)\<lparr>pt_frame := SIZE_MINUS_1, pt_valid := False\<rparr>"
  define V' where "V' = V\<lparr>vm_backing := Some s', vm_physical := ?pm, vm_page_cache := c, vm_tlb := t, vm_page_table := ?pt[p := ?e]\<rparr>"
  have run: "evict_page V = Some (V', ?f)"
    using lr gf V1(1) c(1) t(1) pg p(2) D(5)
    by (simp add: evict_page_def page_frame_def [symmetric] Let_def V'_def cong: if_cong)
  have fields: "vm_backing V' = Some s'" "vm_physical V' = ?pm" "vm_page_cache V' = c" "vm_tlb V' = t"
      "vm_page_table V' = ?pt[p := ?e]" "vm_page_size V' = ?sz" "vm_page_table_capacity V' = vm_page_table_capacity V"
      "vm_log_enabled V' = vm_log_enabled V" "vm_log_file V' = vm_log_file V"
    by (simp_all add: V'_def)
  have fs: "length (pm_frames (vm_physical V)) = n" using D(2) by (simp add: pm_ok_def)
  have same [simp]: "q \<noteq> p \<Longrightarrow> page_frame V' q = page_frame V q" "resident V' q \<longleftrightarrow> q \<noteq> p \<and> resident V q"
      "frame_dirty V' f \<longleftrightarrow> frame_dirty V f \<and> f \<noteq> ?f" "frame_valid V' f = frame_valid V f"
      "store_bytes V' = f_content s'" "pm_memory (vm_physical V') = pm_memory (vm_physical V)" for q f
    using p(2,3) D(5) fs fields
    by (auto simp: page_frame_def resident_def frame_dirty_def frame_valid_def store_bytes_def nth_list_update)
  have ps: "q \<in> set ps \<Longrightarrow> q \<noteq> p \<and> page_frame V q \<noteq> ?f" for q
    using p(4) D(14) by (auto simp: inj_on_def)
  have img: "page_frame V' ` set ps = page_frame V ` set ps"
    using ps by (intro image_cong) auto
  have pm: "pm_ok ?pm ?sz n"
    using set_frame_ok(2) [OF D(2) p(3), of ?g] by simp
  have al: "(q, g) \<in> set al \<Longrightarrow> q \<noteq> p \<Longrightarrow> q \<in> set ps \<and> g = page_frame V q" for q g
    using D(19) [of q g] by auto
  have "vm_inv n V' ps (filter (\<lambda>e. fst e \<noteq> p) al) {?f}"
  proof (rule vm_invI, goal_cases)
    case 3 show ?case by (fact D(3))
  next
    case (7 i) then show ?case using D(5) D(7) [of i] by (cases "i = p") (auto simp: fields)
  next
    case 14 then show ?case
      using D(14) ps by (auto simp: inj_on_def)
  next
    case 16
    have "?f \<notin> page_frame V ` set ps" by (metis imageE ps)
    then show ?case unfolding img by simp
  next
    case (17 f) then show ?case using D(17) unfolding img by auto
  next
    case (19 q g) then show ?case using al [of q g] ps [of q] by auto
  next
    case (22 q d)
    then have "pm_memory (vm_physical V) ! (page_frame V q * ?sz + d) = store_bytes V ! (q * ?sz + d)"
      using ps [of q] D(21) [of q d] by (simp add: fields(6))
    then show ?case using 22 ps [of q] V1(4) [of q d] D(11) [of q] s(2) by (simp add: fields(6))
  qed (use D(1,4,5,6,9,10,20) D(11,12,13) pm c(2,3) t(2) ps p s V1(2,3) in \<open>auto simp: fields\<close>)
  moreover have "same_bytes V V'"
    using V1(4) s(2) by (simp add: same_bytes_def vm_byte_def fields(6))
  ultimately show ?thesis
    using run V1(2) s(1) by (intro exI [of _ V']) (auto simp: same_mode_def fields)
qed

section \<open>Loading a page\<close>

lemma free_frame_step:
  assumes inv: "vm_inv n V ps al {}" and room: "length ps < n"
  shows "\<exists>f < n. free_frame V = Some f \<and> f \<notin> page_frame V ` set ps"
proof -
  note D = vm_invD [OF inv]
  have "card (page_frame V ` set ps) < card {..<n}"
    using room card_image_le [of "set ps" "page_frame V"] card_length [of ps] by simp
  then obtain f where f: "f < n" "f \<notin> page_frame V ` set ps"
    by (metis card_mono finite_imageI finite_set leD lessThan_iff subsetI)
  have n: "pm_size (vm_physical V) div vm_page_size V = n" using D(2) by (simp add: pm_ok_def)
  have chk: "i < n \<Longrightarrow> (case physical_memory_get_frame (vm_physical V) i of Some f \<Rightarrow> \<not> pf_valid f | None \<Rightarrow> False)
      \<longleftrightarrow> i \<notin> page_frame V ` set ps" for i
    using pm_ok_frame(1) [OF D(2)] D(17) [of i] by (simp add: frame_valid_def)
  show ?thesis
  proof (cases "free_frame V")
    case None
    then have False using f chk [of f] n by (auto simp: free_frame_def find_None_iff)
    then show ?thesis ..
  next
    case (Some i)
    then have "i < n" "i \<notin> page_frame V ` set ps"
      using chk n by (auto simp: free_frame_def find_Some_iff)
    then show ?thesis using Some by blast
  qed
qed

lemma load_page_step:
  assumes inv: "vm_inv n V ps al X" and f: "f < n" "f \<notin> page_frame V ` set ps" "X \<subseteq> {f}"
    and p: "p < 256" "p \<notin> set ps" and room: "length ps < n"
  shows "\<exists>V' al'. load_page V p f = Some (V', f) \<and> vm_inv n V' (ps @ [p]) al' {} \<and> page_frame V' p = f \<and>
    same_mode V V' \<and> same_bytes V V' \<and> (\<forall>g. frame_dirty V' g \<longrightarrow> frame_dirty V g)"
proof -
  note D = vm_invD [OF inv]
  let ?sz = "vm_page_size V" and ?pt = "vm_page_table V" and ?pm = "vm_physical V"
  obtain s where s: "vm_backing V = Some s" "store_bytes V = f_content s" "256 * ?sz \<le> length (f_content s)"
    using inv by (rule vm_inv_backing)
  let ?s = "s\<lparr>f_pos := p * ?sz + ?sz\<rparr>" and ?bs = "take ?sz (drop (p * ?sz) (f_content s))"
  have in_store: "Suc p * ?sz \<le> length (f_content s)" using s(3) p(1) by (rule page_in_store)
  then have bs: "length ?bs = ?sz" "\<And>d. d < ?sz \<Longrightarrow> ?bs ! d = f_content s ! (p * ?sz + d)" by simp_all
  have gf: "physical_memory_get_frame ?pm f = Some (pm_frames ?pm ! f)" "pf_number (pm_frames ?pm ! f) = f"
      "physical_memory_get_frame_address ?pm f = Some (f * ?sz)" "length (pm_frames ?pm) = n"
    using pm_ok_frame [OF D(2) f(1)] D(2) f(1) by (simp_all add: pm_ok_def)
  obtain mem where mem: "write_bytes (pm_memory ?pm) (f * ?sz) ?bs = Some mem"
    using frame_in_memory [OF D(2) f(1), of ?sz] bs(1) by (simp add: write_bytes_def)
  have mem_nth: "g < n \<Longrightarrow> d < ?sz \<Longrightarrow> mem ! (g * ?sz + d) =
      (if g = f then f_content s ! (p * ?sz + d) else pm_memory ?pm ! (g * ?sz + d))" for g d
    using nth_write_bytes [OF mem, of "g * ?sz + d"] frame_byte_in_memory [OF D(2), of g d] bs
      in_frame [of d ?sz f g] by auto
  have pcap: "p < vm_page_table_capacity V" using p(1) D(6) by simp
  let ?e = "(?pt ! p)\<lparr>pt_frame := f, pt_valid := True\<rparr>" and ?pt' = "?pt[p := (?pt ! p)\<lparr>pt_frame := f, pt_valid := True\<rparr>]"
  let ?fr = "(pm_frames ?pm ! f)\<lparr>pf_valid := True, pf_dirty := False\<rparr>"
  let ?pm' = "?pm\<lparr>pm_memory := mem, pm_frames := (pm_frames ?pm)[f := ?fr]\<rparr>"
  have page: "i < vm_page_table_capacity V \<Longrightarrow> pt_page (?pt' ! i) = i" for i
    using D(5) D(7) [of i] by (cases "i = p") auto
  have "q \<in> set ps \<Longrightarrow> \<not> page_table_entry_equal ?pt' (Page q) (Page p)" for q
    using page D(11) [of q] D(6) p pcap by (auto simp: page_table_entry_equal_def)
  then have "List.extract (\<lambda>x. page_table_entry_equal ?pt' x (Page p)) (map Page ps) = None"
    by (auto simp: extract_None_iff)
  then obtain c where c: "LRU_cache_insert (page_table_entry_equal ?pt') (vm_page_cache V) (Page p) = Some (c, None)"
      "lru_rep c (map Page (ps @ [p]))" "lru_capacity c = n"
    using LRU_cache_insert_refines [OF D(8), of "page_table_entry_equal ?pt'" "Page p"] D(3,9) room
    by (auto simp: spec_insert_def)
  have "p \<notin> fst ` set al" using D(19) p(2) by force
  then obtain t where t: "TLB_insert (vm_tlb V) p f = Some t"
      "tlb_rep t ((if length al = lru_capacity (tlb_cache (vm_tlb V)) then tl al else al) @ [(p, f)])"
    using TLB_insert_refines [OF D(18), of p f] by blast
  let ?al = "(if length al = lru_capacity (tlb_cache (vm_tlb V)) then tl al else al) @ [(p, f)]"
  define V' where "V' = V\<lparr>vm_backing := Some ?s, vm_page_table := ?pt', vm_physical := ?pm', vm_page_cache := c, vm_tlb := t\<rparr>"
  have run: "load_page V p f = Some (V', f)"
    using gf s(1) mem fread_page [OF in_store] pcap D(5) c(1) t(1) f(1)
    by (simp add: load_page_def Let_def set_frame_def V'_def)
  have fields: "vm_backing V' = Some ?s" "vm_physical V' = ?pm'" "vm_page_cache V' = c" "vm_tlb V' = t"
      "vm_page_table V' = ?pt'" "vm_page_size V' = ?sz" "vm_page_table_capacity V' = vm_page_table_capacity V"
      "vm_log_enabled V' = vm_log_enabled V" "vm_log_file V' = vm_log_file V"
    by (simp_all add: V'_def)
  have same [simp]: "q \<noteq> p \<Longrightarrow> page_frame V' q = page_frame V q" "page_frame V' p = f"
      "resident V' q \<longleftrightarrow> q = p \<or> resident V q" "frame_dirty V' g \<longleftrightarrow> frame_dirty V g \<and> g \<noteq> f"
      "frame_valid V' g \<longleftrightarrow> frame_valid V g \<or> g = f" "store_bytes V' = f_content s" "pm_memory (vm_physical V') = mem" for q g
    using pcap D(5) f(1) gf(4) fields
    by (auto simp: page_frame_def resident_def frame_dirty_def frame_valid_def store_bytes_def nth_list_update)
  have ps: "q \<in> set ps \<Longrightarrow> q \<noteq> p \<and> page_frame V q \<noteq> f" for q using p(2) f(2) by auto
  have img: "page_frame V' ` set (ps @ [p]) = insert f (page_frame V ` set ps)"
    using ps by (auto simp: image_iff)
  have al: "(q, g) \<in> set ?al \<Longrightarrow> (q, g) \<in> set al \<or> (q, g) = (p, f)" for q g
    by (cases al) (auto split: if_splits)
  have "vm_inv n V' (ps @ [p]) ?al {}"
  proof (rule vm_invI, goal_cases)
    case 2 then show ?case
      using D(2) length_write_bytes [OF mem] f(1) by (auto simp: pm_ok_def nth_list_update fields)
  next
    case 14 then show ?case using D(14) ps by (auto simp: inj_on_def)
  next
    case (17 g) then show ?case unfolding img using D(17) [of g] f(3) by auto
  next
    case (19 q g) then show ?case using al [of q g] D(19) [of q g] ps [of q] by auto
  next
    case (22 q d)
    show ?case
    proof (cases "q = p")
      case False
      then have "q \<in> set ps" using 22 by simp
      then show ?thesis using 22 ps [of q] D(21) [of q d] D(13) [of q] mem_nth s(2) False by (simp add: fields(6))
    qed (use 22 mem_nth f(1) in \<open>simp add: fields(6)\<close>)
  qed (use D(1,3,4,5,6,9,10,20) D(11,12,13) c(2,3) t(2) ps p s page f(1) in \<open>auto simp: fields\<close>)
  moreover have "same_bytes V V'"
  proof -
    have "vm_byte V' q d = vm_byte V q d" if "q < 256" "d < ?sz" for q d
    proof (cases "q = p")
      case True
      then show ?thesis using D(12) [OF pcap] p(2) mem_nth [OF f(1) that(2)] s(2) by (simp add: vm_byte_def fields(6))
    next
      case False
      then show ?thesis
        using that D(12) [of q] D(6) D(13) [of q] ps [of q] mem_nth [of "page_frame V q" d] s(2)
        by (auto simp: vm_byte_def fields(6))
    qed
    then show ?thesis by (simp add: same_bytes_def)
  qed
  ultimately show ?thesis
    using run s(1) by (intro exI [of _ V'] exI [of _ ?al]) (auto simp: same_mode_def fields)
qed

section \<open>Translation\<close>

text \<open>The abstraction does not look at the counters, the TLB and the page cache.\<close>

lemma vm_view [simp]:
  "page_frame (V\<lparr>vm_tlb := T\<rparr>) = page_frame V" "page_frame (V\<lparr>vm_page_cache := C\<rparr>) = page_frame V"
  "page_frame (V\<lparr>vm_page_faults := k\<rparr>) = page_frame V" "page_frame (V\<lparr>vm_total_accesses := k\<rparr>) = page_frame V"
  "resident (V\<lparr>vm_tlb := T\<rparr>) = resident V" "resident (V\<lparr>vm_page_cache := C\<rparr>) = resident V"
  "resident (V\<lparr>vm_page_faults := k\<rparr>) = resident V" "resident (V\<lparr>vm_total_accesses := k\<rparr>) = resident V"
  "frame_dirty (V\<lparr>vm_tlb := T\<rparr>) = frame_dirty V" "frame_dirty (V\<lparr>vm_page_cache := C\<rparr>) = frame_dirty V"
  "frame_dirty (V\<lparr>vm_page_faults := k\<rparr>) = frame_dirty V" "frame_dirty (V\<lparr>vm_total_accesses := k\<rparr>) = frame_dirty V"
  "vm_byte (V\<lparr>vm_tlb := T\<rparr>) = vm_byte V" "vm_byte (V\<lparr>vm_page_cache := C\<rparr>) = vm_byte V"
  "vm_byte (V\<lparr>vm_page_faults := k\<rparr>) = vm_byte V" "vm_byte (V\<lparr>vm_total_accesses := k\<rparr>) = vm_byte V"
  by (simp_all add: fun_eq_iff page_frame_def resident_def frame_dirty_def vm_byte_def store_bytes_def)

lemma vm_inv_counters:
  "vm_inv n V ps al X \<Longrightarrow> vm_inv n (V\<lparr>vm_page_faults := k\<rparr>) ps al X"
  "vm_inv n V ps al X \<Longrightarrow> vm_inv n (V\<lparr>vm_total_accesses := k\<rparr>) ps al X"
  by (simp_all add: vm_inv_def store_bytes_def frame_valid_def)

lemma loss_free_mono:
  assumes "same_mode V V'" "\<forall>f. frame_dirty V' f \<longrightarrow> frame_dirty V f" "loss_free n V"
  shows "loss_free n V'"
  using assms unfolding loss_free_def same_mode_def by (auto split: option.splits)

text \<open>What a step of the translation guarantees.\<close>

definition vm_step :: "nat \<Rightarrow> virtual_memory \<Rightarrow> virtual_memory \<Rightarrow> bool" where
  "vm_step n V V' \<longleftrightarrow> same_mode V V' \<and> same_bytes V V' \<and> (\<forall>f. frame_dirty V' f \<longrightarrow> frame_dirty V f) \<and>
     (\<exists>ps al. vm_inv n V' ps al {})"

lemma page_fault_step:
  assumes inv: "vm_inv n V ps al {}" and safe: "loss_free n V" and p: "p < 256" "p \<notin> set ps"
  shows "\<exists>V' f. page_fault V p = Some (V', f) \<and> vm_step n V V' \<and> f < n \<and> resident V' p \<and> page_frame V' p = f"
proof -
  note D = vm_invD [OF inv]
  have full: "LRU_cache_full (vm_page_cache V) \<longleftrightarrow> length ps = n" and len: "length ps \<le> n"
    using lru_rep_size [OF D(8)] D(9) by auto
  have res: "vm_inv n V' (qs @ [p]) al' {} \<Longrightarrow> resident V' p" for V' qs al'
    using vm_invD(12) [of n V' "qs @ [p]" al' "{}" p] vm_invD(6) [of n V' "qs @ [p]" al' "{}"] p(1) by simp
  show ?thesis
  proof (cases "length ps = n")
    case True
    then obtain q qs where qs: "ps = q # qs" using D(3) by (cases ps) auto
    have "insert p (set ps) \<subseteq> {..<256}" using p(1) D(11) by auto
    then have "card (insert p (set ps)) \<le> 256"
      using card_mono [of "{..<256::nat}" "insert p (set ps)"] by simp
    then have "n < 256" using p(2) D(10) True by (simp add: distinct_card)
    then have "(\<exists>s. vm_backing V = Some s \<and> f_writable s) \<or> \<not> frame_dirty V (page_frame V q)"
      using safe D(13) [of q] qs by (auto simp: loss_free_def split: option.splits)
    then obtain V1 where V1: "evict_page V = Some (V1, page_frame V q)"
        "vm_inv n V1 qs (filter (\<lambda>e. fst e \<noteq> q) al) {page_frame V q}" "same_mode V V1" "same_bytes V V1"
        "\<forall>f. frame_dirty V1 f \<longrightarrow> frame_dirty V f"
      using evict_page_step [of n V q qs al] inv qs by blast
    have f: "page_frame V q < n" "page_frame V q \<notin> page_frame V1 ` set qs"
      using vm_invD(16) [OF V1(2)] D(13) [of q] qs by auto
    obtain V2 al' where V2: "load_page V1 p (page_frame V q) = Some (V2, page_frame V q)"
        "vm_inv n V2 (qs @ [p]) al' {}" "page_frame V2 p = page_frame V q" "same_mode V1 V2" "same_bytes V1 V2"
        "\<forall>g. frame_dirty V2 g \<longrightarrow> frame_dirty V1 g"
      using load_page_step [OF V1(2) f _ p(1)] p(2) qs True by auto
    have "page_fault V p = Some (V2, page_frame V q)"
      using V1(1) V2(1) full True by (simp add: page_fault_def)
    moreover have "vm_step n V V2"
      unfolding vm_step_def
      using V1(3-5) V2(2,4-6) same_trans(1) [OF V1(3) V2(4)] same_trans(2) [OF V1(3,4) V2(5)] by blast
    ultimately show ?thesis using f(1) res [OF V2(2)] V2(3) by blast
  next
    case False
    then have room: "length ps < n" using len by simp
    obtain f where f: "f < n" "free_frame V = Some f" "f \<notin> page_frame V ` set ps"
      using free_frame_step [OF inv room] by blast
    obtain V2 al' where V2: "load_page V p f = Some (V2, f)"
        "vm_inv n V2 (ps @ [p]) al' {}" "page_frame V2 p = f" "same_mode V V2" "same_bytes V V2"
        "\<forall>g. frame_dirty V2 g \<longrightarrow> frame_dirty V g"
      using load_page_step [OF inv f(1,3) _ p room] by auto
    have "page_fault V p = Some (V2, f)"
      using V2(1) f(2) False full by (simp add: page_fault_def)
    moreover have "vm_step n V V2"
      unfolding vm_step_def using V2(2,4-6) by blast
    ultimately show ?thesis using f(1) res [OF V2(2)] V2(3) by blast
  qed
qed

text \<open>
  The translation of an address: the frame it returns holds the page, whatever path was taken (TLB hit,
  page cache hit or page fault), and no byte of the address space changes.
\<close>

lemma translate_step:
  assumes inv: "vm_inv n V ps al {}" and safe: "loss_free n V"
  shows "\<exists>V' f. virtual_memory_get_physical_address V a = Some (V', int (f * vm_page_size V + offset_of a)) \<and>
    vm_step n V V' \<and> f < n \<and> resident V' (page_of a) \<and> page_frame V' (page_of a) = f"
proof -
  note D = vm_invD [OF inv]
  let ?p = "page_of a" and ?sz = "vm_page_size V"
  let ?V0 = "V\<lparr>vm_total_accesses := size_inc (vm_total_accesses V)\<rparr>"
  have pcap: "?p < vm_page_table_capacity V" using page_of_bound [of a] D(6) by simp
  have inv0: "vm_inv n ?V0 ps al {}" using inv by (rule vm_inv_counters)
  have "\<forall>e \<in> set al. snd e < 2 ^ 31" using D(4,13,19) by fastforce
  then obtain t where t: "TLB_query (vm_tlb V) ?p = Some (t, case map_of al ?p of None \<Rightarrow> -1 | Some f \<Rightarrow> int f)"
      "tlb_rep t (fst (spec_query (\<lambda>e. fst e = ?p) al))"
    using TLB_query_refines [OF D(18), of ?p] by blast
  let ?al = "fst (spec_query (\<lambda>e. fst e = ?p) al)"
  have al: "(p, f) \<in> set ?al \<Longrightarrow> p \<in> set ps \<and> f = page_frame V p" for p f using D(19) by simp
  have inv1: "vm_inv n (?V0\<lparr>vm_tlb := t\<rparr>) ps ?al {}"
    using vm_inv_tlb [OF inv0 t(2)] al by simp
  show ?thesis
  proof (cases "map_of al ?p")
    case (Some f)
    then have f: "?p \<in> set ps" "f = page_frame V ?p" using D(19) map_of_SomeD by fast+
    have "virtual_memory_get_physical_address V a = Some (?V0\<lparr>vm_tlb := t\<rparr>, int (f * ?sz + offset_of a))"
      using t(1) Some by (simp add: virtual_memory_get_physical_address_def Let_def)
    moreover have "vm_step n V (?V0\<lparr>vm_tlb := t\<rparr>)"
      using inv1 by (auto simp: vm_step_def same_mode_def same_bytes_def)
    ultimately show ?thesis
      using f D(12) [OF pcap] D(13) [of ?p] by (intro exI [of _ "?V0\<lparr>vm_tlb := t\<rparr>"] exI [of _ f]) simp
  next
    case None
    let ?key = "Page_Key \<lparr>pt_page = ?p, pt_frame = 0, pt_valid = False\<rparr>"
    let ?m = "\<lambda>d. page_table_entry_equal (vm_page_table V) d ?key"
    have m: "q \<in> set ps \<Longrightarrow> ?m (Page q) \<longleftrightarrow> q = ?p" for q
      using D(7) [of q] D(11) [of q] D(6) by (simp add: page_table_entry_equal_def)
    obtain c where c: "LRU_cache_query (page_table_entry_equal (vm_page_table V)) (vm_page_cache V) ?key =
        Some (c, map_option Page (snd (spec_query (?m \<circ> Page) ps)))"
        "lru_rep c (map Page (fst (spec_query (?m \<circ> Page) ps)))" "lru_capacity c = n"
      using LRU_cache_query_refines [OF D(8), of "page_table_entry_equal (vm_page_table V)" ?key] D(9)
      by (auto simp: spec_query_map)
    let ?qs = "fst (spec_query (?m \<circ> Page) ps)"
    let ?V2 = "?V0\<lparr>vm_tlb := t, vm_page_cache := c\<rparr>"
    have inv2: "vm_inv n ?V2 ?qs ?al {}"
      using vm_inv_cache [OF inv1 c(2,3)] by simp
    have step2: "same_mode V ?V2" "same_bytes V ?V2" "frame_dirty ?V2 = frame_dirty V"
      by (simp_all add: same_mode_def same_bytes_def)
    show ?thesis
    proof (cases "snd (spec_query (?m \<circ> Page) ps)")
      case (Some q)
      then have q: "q = ?p" "?p \<in> set ps" using spec_query_result(1) [OF Some] m by auto
      have "?p \<notin> fst ` set ?al" using None by (simp add: map_of_eq_None_iff)
      then obtain t' where t': "TLB_insert t ?p (page_frame V ?p) = Some t'"
          "tlb_rep t' ((if length ?al = lru_capacity (tlb_cache t) then tl ?al else ?al) @ [(?p, page_frame V ?p)])"
        using TLB_insert_refines [OF t(2)] by blast
      let ?al' = "(if length ?al = lru_capacity (tlb_cache t) then tl ?al else ?al) @ [(?p, page_frame V ?p)]"
      have "(p, f) \<in> set ?al' \<Longrightarrow> (p, f) \<in> set ?al \<or> (p, f) = (?p, page_frame V ?p)" for p f
        by (cases ?al) (auto split: if_splits)
      then have al': "(p, f) \<in> set ?al' \<Longrightarrow> p \<in> set ps \<and> f = page_frame V p" for p f
        using al [of p f] q(2) by blast
      let ?V3 = "?V2\<lparr>vm_tlb := t'\<rparr>"
      have inv3: "vm_inv n ?V3 ?qs ?al' {}"
      proof (rule vm_inv_tlb [OF inv2 t'(2)])
        fix p f assume "(p, f) \<in> set ?al'"
        from al' [OF this] show "p \<in> set ?qs \<and> f = page_frame ?V2 p" by simp
      qed
      have "virtual_memory_get_physical_address V a = Some (?V3, int (page_frame V ?p * ?sz + offset_of a))"
        using t(1) None c(1) Some q(1) t'(1)
        by (simp add: virtual_memory_get_physical_address_def Let_def page_frame_def)
      moreover have "vm_step n V ?V3"
        using inv3 by (auto simp: vm_step_def same_mode_def same_bytes_def)
      ultimately show ?thesis
        using q D(12) [OF pcap] D(13) [of ?p] by (intro exI [of _ ?V3] exI [of _ "page_frame V ?p"]) simp
    next
      case none: None
      then have new: "?p \<notin> set ps" using spec_query_result(2) [OF none] m by fastforce
      let ?V3 = "?V2\<lparr>vm_page_faults := size_inc (vm_page_faults V)\<rparr>"
      have inv3: "vm_inv n ?V3 ?qs ?al {}" using inv2 by (rule vm_inv_counters)
      have safe3: "loss_free n ?V3" using safe by (simp add: loss_free_def)
      obtain V' f where V': "page_fault ?V3 ?p = Some (V', f)" "vm_step n ?V3 V'" "f < n"
          "resident V' ?p" "page_frame V' ?p = f"
        using page_fault_step [OF inv3 safe3 page_of_bound, of a] new by auto
      have sz: "vm_page_size V' = ?sz" using V'(2) by (simp add: vm_step_def same_mode_def)
      have "virtual_memory_get_physical_address V a = Some (V', int (f * ?sz + offset_of a))"
        using t(1) None c(1) none V'(1) sz
        by (simp add: virtual_memory_get_physical_address_def Let_def)
      moreover have "vm_step n V V'"
        using V'(2) by (simp add: vm_step_def same_mode_def same_bytes_def)
      ultimately show ?thesis using V'(3-5) by blast
    qed
  qed
qed

section \<open>Reading and writing\<close>

definition log_ok :: "virtual_memory \<Rightarrow> bool" where
  "log_ok V \<longleftrightarrow> (vm_log_enabled V \<longrightarrow> vm_log_file V \<noteq> None)"

lemma vm_view_log [simp]:
  "page_frame (V\<lparr>vm_log_file := l\<rparr>) = page_frame V" "resident (V\<lparr>vm_log_file := l\<rparr>) = resident V"
  "frame_dirty (V\<lparr>vm_log_file := l\<rparr>) = frame_dirty V" "vm_byte (V\<lparr>vm_log_file := l\<rparr>) = vm_byte V"
  "loss_free n (V\<lparr>vm_log_file := l\<rparr>) = loss_free n V"
  by (simp_all add: fun_eq_iff page_frame_def resident_def frame_dirty_def vm_byte_def store_bytes_def loss_free_def)

lemma log_access_step:
  assumes "vm_inv n V ps al X" and "log_ok V"
  shows "\<exists>l. log_access V a pa v = Some (V\<lparr>vm_log_file := l\<rparr>) \<and> vm_inv n (V\<lparr>vm_log_file := l\<rparr>) ps al X \<and>
    log_ok (V\<lparr>vm_log_file := l\<rparr>) \<and>
    (vm_log_enabled V \<longrightarrow> l = Some (the (vm_log_file V) @ [(a, pa, sint v)]))"
proof -
  have inv: "vm_inv n (V\<lparr>vm_log_file := l\<rparr>) ps al X" for l
    using assms(1) by (simp add: vm_inv_def store_bytes_def frame_valid_def)
  show ?thesis
  proof (cases "vm_log_enabled V")
    case True
    then obtain lines where "vm_log_file V = Some lines" using assms(2) by (auto simp: log_ok_def)
    then show ?thesis using True inv by (simp add: log_access_def log_ok_def)
  next
    case False
    then show ?thesis
      using assms(1) by (intro exI [of _ "vm_log_file V"]) (simp add: log_access_def log_ok_def)
  qed
qed

text \<open>The state between two accesses, and the byte at an address.\<close>

definition vm_good :: "nat \<Rightarrow> virtual_memory \<Rightarrow> bool" where
  "vm_good n V \<longleftrightarrow> (\<exists>ps al. vm_inv n V ps al {}) \<and> loss_free n V \<and> log_ok V"

definition vm_at :: "virtual_memory \<Rightarrow> int \<Rightarrow> byte" where
  "vm_at V a = vm_byte V (page_of a) (offset_of a)"

lemma vm_good_translate:
  assumes "vm_good n V"
  shows "\<exists>V' f ps al. virtual_memory_get_physical_address V a = Some (V', int (f * vm_page_size V + offset_of a)) \<and>
    vm_inv n V' ps al {} \<and> loss_free n V' \<and> log_ok V' \<and> same_mode V V' \<and> same_bytes V V' \<and>
    f < n \<and> resident V' (page_of a) \<and> page_frame V' (page_of a) = f \<and> offset_of a < vm_page_size V"
proof -
  obtain ps al where inv: "vm_inv n V ps al {}" and *: "loss_free n V" "log_ok V"
    using assms by (auto simp: vm_good_def)
  obtain V' f where V': "virtual_memory_get_physical_address V a = Some (V', int (f * vm_page_size V + offset_of a))"
      "vm_step n V V'" "f < n" "resident V' (page_of a)" "page_frame V' (page_of a) = f"
    using translate_step [OF inv *(1)] by blast
  have "loss_free n V'" "log_ok V'"
    using loss_free_mono [of V V' n] V'(2) * by (auto simp: vm_step_def log_ok_def same_mode_def)
  moreover have "offset_of a < vm_page_size V" using offset_of_bound [of a] vm_invD(1) [OF inv] by simp
  ultimately show ?thesis using V' unfolding vm_step_def by blast
qed

lemma same_bytes_at: "same_bytes V V' \<Longrightarrow> 256 \<le> vm_page_size V \<Longrightarrow> vm_at V' a = vm_at V a"
  using page_of_bound [of a] offset_of_bound [of a] by (simp add: same_bytes_def vm_at_def)

theorem virtual_memory_read_step:
  assumes "vm_good n V"
  shows "\<exists>V' pa. virtual_memory_read V a = Some (V', vm_at V a) \<and> vm_good n V' \<and> same_bytes V V' \<and>
    vm_page_size V' = vm_page_size V \<and> vm_log_enabled V' = vm_log_enabled V \<and>
    map_option f_writable (vm_backing V') = map_option f_writable (vm_backing V) \<and>
    (vm_log_enabled V \<longrightarrow> vm_log_file V' = Some (the (vm_log_file V) @ [(a, pa, sint (vm_at V a))]))"
proof -
  obtain V1 f ps al where V1: "virtual_memory_get_physical_address V a = Some (V1, int (f * vm_page_size V + offset_of a))"
      "vm_inv n V1 ps al {}" "loss_free n V1" "log_ok V1" "same_mode V V1" "same_bytes V V1"
      "f < n" "resident V1 (page_of a)" "page_frame V1 (page_of a) = f" "offset_of a < vm_page_size V"
    using vm_good_translate [OF assms, of a] by blast
  have sz: "vm_page_size V1 = vm_page_size V" using V1(5) by (simp add: same_mode_def)
  have pm: "pm_ok (vm_physical V1) (vm_page_size V) n" using vm_invD(2) [OF V1(2)] sz by simp
  have "vm_at V1 a = vm_at V a" using same_bytes_at [OF V1(6)] vm_invD(1) [OF V1(2)] sz by simp
  then have byte: "pm_memory (vm_physical V1) ! (f * vm_page_size V + offset_of a) = vm_at V a"
    using V1(8,9) sz by (simp add: vm_at_def vm_byte_def)
  let ?pa = "int (f * vm_page_size V + offset_of a)"
  obtain l where l: "log_access V1 a ?pa (vm_at V a) = Some (V1\<lparr>vm_log_file := l\<rparr>)"
      "vm_inv n (V1\<lparr>vm_log_file := l\<rparr>) ps al {}" "log_ok (V1\<lparr>vm_log_file := l\<rparr>)"
      "vm_log_enabled V1 \<longrightarrow> l = Some (the (vm_log_file V1) @ [(a, ?pa, sint (vm_at V a))])"
    using log_access_step [OF V1(2,4)] by blast
  have "virtual_memory_read V a = Some (V1\<lparr>vm_log_file := l\<rparr>, vm_at V a)"
    using V1(1) frame_arith(1,2) [OF V1(10), of f] physical_memory_read_byte [OF pm V1(7,10)] byte l(1) sz
    by (simp add: virtual_memory_read_def Let_def)
  moreover have "vm_good n (V1\<lparr>vm_log_file := l\<rparr>)"
    using l(2,3) V1(3) by (auto simp: vm_good_def)
  moreover have "same_bytes V (V1\<lparr>vm_log_file := l\<rparr>)" using V1(6) by (simp add: same_bytes_def)
  ultimately show ?thesis
    using l(4) V1(5) by (intro exI [of _ "V1\<lparr>vm_log_file := l\<rparr>"] exI [of _ ?pa]) (simp add: same_mode_def)
qed

text \<open>Writes keep the invariant; they need a store or a memory that loses nothing.\<close>

definition durable :: "nat \<Rightarrow> virtual_memory \<Rightarrow> bool" where
  "durable n V \<longleftrightarrow> (case vm_backing V of Some s \<Rightarrow> f_writable s | None \<Rightarrow> False) \<or> 256 \<le> n"

lemma vm_inv_write:
  assumes inv: "vm_inv n V ps al {}" and p: "p \<in> set ps" and d: "d < vm_page_size V"
    and pm: "physical_memory_write (vm_physical V) (page_frame V p) d [v] = Some pm"
  shows "vm_inv n (V\<lparr>vm_physical := pm\<rparr>) ps al {} \<and>
    (\<forall>q < 256. \<forall>e < vm_page_size V. vm_byte (V\<lparr>vm_physical := pm\<rparr>) q e =
      (if q = p \<and> e = d then v else vm_byte V q e))"
proof -
  note D = vm_invD [OF inv]
  let ?f = "page_frame V p" and ?sz = "vm_page_size V" and ?M = "vm_physical V"
  have f: "?f < n" using D(13) [OF p] .
  have pm': "pm = ?M\<lparr>pm_memory := (pm_memory ?M)[?f * ?sz + d := v],
      pm_frames := (pm_frames ?M)[?f := (pm_frames ?M ! ?f)\<lparr>pf_dirty := True\<rparr>]\<rparr>"
    using physical_memory_write_byte [OF D(2) f d, of v] pm by simp
  define V' where "V' = V\<lparr>vm_physical := pm\<rparr>"
  have len: "length (pm_frames ?M) = n" using D(2) by (simp add: pm_ok_def)
  have same [simp]: "page_frame V' = page_frame V" "resident V' = resident V"
      "frame_dirty V' g \<longleftrightarrow> frame_dirty V g \<or> g = ?f" "frame_valid V' g = frame_valid V g"
      "store_bytes V' = store_bytes V" "vm_page_size V' = ?sz" for g
    using f len
    by (auto simp: V'_def pm' page_frame_def resident_def frame_dirty_def frame_valid_def store_bytes_def
        nth_list_update fun_eq_iff)
  have fields: "vm_page_cache V' = vm_page_cache V" "vm_tlb V' = vm_tlb V" "vm_page_table V' = vm_page_table V"
      "vm_page_table_capacity V' = vm_page_table_capacity V"
    by (simp_all add: V'_def)
  have mem: "g < n \<Longrightarrow> e < ?sz \<Longrightarrow> pm_memory (vm_physical V') ! (g * ?sz + e) =
      (if g = ?f \<and> e = d then v else pm_memory ?M ! (g * ?sz + e))" for g e
    using frame_bytes_disjoint [OF d, of e ?f g] frame_byte_in_memory [OF D(2) f d]
    by (auto simp: V'_def pm' nth_list_update)
  have inj: "q \<in> set ps \<Longrightarrow> page_frame V q = ?f \<Longrightarrow> q = p" for q
    using D(14) p by (auto simp: inj_on_def)
  have "vm_inv n V' ps al {}"
  proof (rule vm_invI, goal_cases)
    case 2 show ?case using D(2) f by (auto simp: V'_def pm' pm_ok_def nth_list_update)
  next
    case 3 show ?case by (fact D(3))
  next
    case 14 show ?case using D(14) by (simp add: inj_on_def)
  next
    case (22 q e)
    then show ?case using D(21) [of q e] mem [of "page_frame V q" e] D(13) [of q] by simp
  next
    case (19 q g) then show ?case using D(19) by simp
  next
    case 20 then show ?case using inv by (simp add: V'_def vm_inv_def)
  qed (use D(1,4,5,6,8,9,10,18,20) D(7,11,12,13,17) in \<open>simp_all add: fields\<close>)
  moreover have "vm_byte V' q e = (if q = p \<and> e = d then v else vm_byte V q e)" if "q < 256" "e < ?sz" for q e
    using that D(12) [of q] D(6) D(13) [of q] mem [of "page_frame V q" e] inj [of q] p
    by (auto simp: vm_byte_def)
  ultimately show ?thesis by (simp add: V'_def)
qed

theorem virtual_memory_write_step:
  assumes "vm_good n V" and "durable n V"
  shows "\<exists>V'. virtual_memory_write V a v = Some V' \<and> vm_good n V' \<and> durable n V' \<and>
    vm_page_size V' = vm_page_size V \<and>
    (\<forall>q < 256. \<forall>e < vm_page_size V. vm_byte V' q e =
      (if q = page_of a \<and> e = offset_of a then v else vm_byte V q e))"
proof -
  obtain V1 f ps al where V1: "virtual_memory_get_physical_address V a = Some (V1, int (f * vm_page_size V + offset_of a))"
      "vm_inv n V1 ps al {}" "loss_free n V1" "log_ok V1" "same_mode V V1" "same_bytes V V1"
      "f < n" "resident V1 (page_of a)" "page_frame V1 (page_of a) = f" "offset_of a < vm_page_size V"
    using vm_good_translate [OF assms(1), of a] by blast
  have sz: "vm_page_size V1 = vm_page_size V" using V1(5) by (simp add: same_mode_def)
  have p: "page_of a \<in> set ps"
    using vm_invD(12) [OF V1(2), of "page_of a"] V1(8) page_of_bound [of a] vm_invD(6) [OF V1(2)] by simp
  have pm: "pm_ok (vm_physical V1) (vm_page_size V) n" using vm_invD(2) [OF V1(2)] sz by simp
  obtain pm' where pm': "physical_memory_write (vm_physical V1) f (offset_of a) [v] = Some pm'"
    using physical_memory_write_byte [OF pm V1(7,10)] by blast
  let ?V2 = "V1\<lparr>vm_physical := pm'\<rparr>"
  have V2: "vm_inv n ?V2 ps al {}"
      "\<forall>q < 256. \<forall>e < vm_page_size V1. vm_byte ?V2 q e =
        (if q = page_of a \<and> e = offset_of a then v else vm_byte V1 q e)"
    using vm_inv_write [OF V1(2) p, of "offset_of a" v pm'] V1(9,10) pm' sz by auto
  have dur: "durable n ?V2"
    using assms(2) V1(5) by (auto simp: durable_def same_mode_def split: option.splits)
  then have "loss_free n ?V2" by (auto simp: loss_free_def durable_def)
  moreover have "log_ok ?V2" using V1(4) by (simp add: log_ok_def)
  moreover obtain l where l: "log_access ?V2 a (int (f * vm_page_size V + offset_of a)) v = Some (?V2\<lparr>vm_log_file := l\<rparr>)"
      "vm_inv n (?V2\<lparr>vm_log_file := l\<rparr>) ps al {}" "log_ok (?V2\<lparr>vm_log_file := l\<rparr>)"
    using log_access_step [OF V2(1) calculation(2)] by blast
  ultimately have good: "vm_good n (?V2\<lparr>vm_log_file := l\<rparr>)" by (auto simp: vm_good_def)
  have "virtual_memory_write V a v = Some (?V2\<lparr>vm_log_file := l\<rparr>)"
    using V1(1) frame_arith(1,2) [OF V1(10), of f] pm' l(1) sz
    by (simp add: virtual_memory_write_def Let_def)
  then show ?thesis
    using good V2(2) V1(6) dur sz
    by (intro exI [of _ "?V2\<lparr>vm_log_file := l\<rparr>"]) (auto simp: same_bytes_def durable_def)
qed

section \<open>Whole runs\<close>

datatype vm_op = Read int | Write int byte

fun vm_run :: "virtual_memory \<Rightarrow> vm_op list \<Rightarrow> (virtual_memory \<times> byte list) option" where
  "vm_run V [] = Some (V, [])"
| "vm_run V (Read a # ops) = do {
     (V1, v) \<leftarrow> virtual_memory_read V a;
     (V2, vs) \<leftarrow> vm_run V1 ops;
     Some (V2, v # vs)
   }"
| "vm_run V (Write a v # ops) = do { V1 \<leftarrow> virtual_memory_write V a v; vm_run V1 ops }"

text \<open>The specification: one flat array of 64 KB indexed by the low 16 bits of the address.\<close>

fun flat_run :: "(nat \<Rightarrow> byte) \<Rightarrow> vm_op list \<Rightarrow> byte list" where
  "flat_run m [] = []"
| "flat_run m (Read a # ops) = m (nat (a mod 2 ^ 16)) # flat_run m ops"
| "flat_run m (Write a v # ops) = flat_run (m(nat (a mod 2 ^ 16) := v)) ops"

fun is_read :: "vm_op \<Rightarrow> bool" where
  "is_read (Read _) = True"
| "is_read (Write _ _) = False"

lemma flat_index: "page_of a * 256 + offset_of a = nat (a mod 2 ^ 16)"
proof -
  have "drop_bit 8 (a AND 0xFF00) = take_bit 8 (drop_bit 8 a)"
    using take_bit_eq_mask [of 8 "drop_bit 8 a"] by (simp add: drop_bit_and mask_eq_exp_minus_1)
  moreover have "a AND 0xFF = take_bit 8 a"
    using take_bit_eq_mask [of 8 a] by (simp add: mask_eq_exp_minus_1)
  moreover have "a mod 2 ^ 16 = a div 256 mod 256 * 256 + a mod 256"
    using mod_mult2_eq' [of a 256 256] by (simp add: mult.commute)
  ultimately show ?thesis
    by (simp add: page_of_def offset_of_def take_bit_eq_mod drop_bit_eq_div nat_add_distrib nat_mult_distrib)
qed

lemma flat_index_eq: "nat (a mod 2 ^ 16) = q * 256 + e \<longleftrightarrow> page_of a = q \<and> offset_of a = e" if "e < 256"
  using frame_bytes_disjoint [OF offset_of_bound [of a] that, of "page_of a" q] by (simp only: flat_index)

theorem vm_run_refines:
  assumes "vm_good n V" and "durable n V \<or> (\<forall>op \<in> set ops. is_read op)"
    and "\<forall>q < 256. \<forall>e < 256. m (q * 256 + e) = vm_byte V q e"
  shows "\<exists>V'. vm_run V ops = Some (V', flat_run m ops) \<and> vm_good n V'"
  using assms
proof (induction ops arbitrary: V m)
  case (Cons op ops)
  have sz: "256 \<le> vm_page_size V" using Cons.prems(1) by (auto simp: vm_good_def vm_inv_def)
  show ?case
  proof (cases op)
    case (Read a)
    obtain V1 where V1: "virtual_memory_read V a = Some (V1, vm_at V a)" "vm_good n V1" "same_bytes V V1"
        "map_option f_writable (vm_backing V1) = map_option f_writable (vm_backing V)"
      using virtual_memory_read_step [OF Cons.prems(1)] by metis
    have "durable n V1 \<or> (\<forall>op \<in> set ops. is_read op)"
      using Cons.prems(2) V1(4) by (auto simp: durable_def split: option.splits)
    moreover have "\<forall>q < 256. \<forall>e < 256. m (q * 256 + e) = vm_byte V1 q e"
      using Cons.prems(3) V1(3) sz by (simp add: same_bytes_def)
    ultimately obtain V' where "vm_run V1 ops = Some (V', flat_run m ops)" "vm_good n V'"
      using Cons.IH [OF V1(2)] by blast
    moreover have "m (nat (a mod 2 ^ 16)) = vm_at V a"
      unfolding flat_index [symmetric] using Cons.prems(3) page_of_bound offset_of_bound by (simp add: vm_at_def)
    ultimately show ?thesis using Read V1(1) by simp
  next
    case (Write a v)
    then have dur: "durable n V" using Cons.prems(2) by auto
    obtain V1 where V1: "virtual_memory_write V a v = Some V1" "vm_good n V1" "durable n V1"
        "\<forall>q < 256. \<forall>e < vm_page_size V. vm_byte V1 q e =
           (if q = page_of a \<and> e = offset_of a then v else vm_byte V q e)"
      using virtual_memory_write_step [OF Cons.prems(1) dur] by metis
    have "\<forall>q < 256. \<forall>e < 256. (m(nat (a mod 2 ^ 16) := v)) (q * 256 + e) = vm_byte V1 q e"
    proof (intro allI impI)
      fix q e :: nat assume "q < 256" "e < 256"
      then show "(m(nat (a mod 2 ^ 16) := v)) (q * 256 + e) = vm_byte V1 q e"
        using V1(4) Cons.prems(3) sz flat_index_eq [of e a q] by (cases "nat (a mod 2 ^ 16) = q * 256 + e") auto
    qed
    then show ?thesis using Cons.IH [OF V1(2)] V1(1,3) Write by simp
  qed
qed simp

lemma virtual_memory_create_good:
  assumes "0 < tlb_size" "tlb_size < SIZE_MINUS_1" "0 < n" "n < 2 ^ 31" "length mem = n * 256" "256 * 256 \<le> length store"
  shows "\<exists>V. virtual_memory_create 256 256 tlb_size (n * 256) mem (Some store) = Some V \<and> vm_good n V \<and>
    (256 \<le> n \<longrightarrow> durable n V) \<and> vm_log_enabled V = False \<and> vm_log_file V = None \<and>
    (\<forall>q < 256. \<forall>e < 256. store ! (q * 256 + e) = vm_byte V q e)"
proof -
  obtain pm where pm: "physical_memory_create mem (n * 256) 256 = Some pm" "pm_ok pm 256 n"
      "\<And>f. f < n \<Longrightarrow> \<not> pf_valid (pm_frames pm ! f) \<and> \<not> pf_dirty (pm_frames pm ! f)"
  proof -
    obtain pm where "physical_memory_create mem (n * 256) 256 = Some pm"
      by (simp add: physical_memory_create_def)
    then show thesis using assms(5) that by (simp add: physical_memory_create_def pm_ok_def) fastforce
  qed
  let ?V = "the (virtual_memory_create 256 256 tlb_size (n * 256) mem (Some store))"
  have V: "virtual_memory_create 256 256 tlb_size (n * 256) mem (Some store) = Some ?V"
    using pm(1) by (simp add: virtual_memory_create_def)
  have cap: "LRU_cache_create n = (LRU_cache_create n :: page_ref LRU_cache)" "n < SIZE_MINUS_1"
    using assms(4) by (auto simp: SIZE_MINUS_1_def)
  have "vm_inv n ?V [] [] {}"
    using pm assms LRU_cache_create_rep [OF cap(2)] TLB_create_rep [OF assms(1,2)]
    by (simp add: vm_inv_def virtual_memory_create_def resident_def frame_valid_def frame_dirty_def store_bytes_def)
       (simp add: LRU_cache_create_def)
  moreover have "loss_free n ?V"
    using pm by (simp add: loss_free_def virtual_memory_create_def frame_dirty_def)
  moreover have "256 \<le> n \<longrightarrow> durable n ?V" by (simp add: durable_def)
  moreover have "\<forall>q < 256. \<forall>e < 256. store ! (q * 256 + e) = vm_byte ?V q e"
    using pm(1) by (simp add: virtual_memory_create_def vm_byte_def resident_def store_bytes_def)
  moreover have "log_ok ?V" "vm_log_enabled ?V = False \<and> vm_log_file ?V = None"
    using pm(1) by (simp_all add: virtual_memory_create_def log_ok_def)
  ultimately show ?thesis using V unfolding vm_good_def by blast
qed

text \<open>Destroying: every dirty resident page is written back, and all tables are released.\<close>

lemma destroy_loop:
  assumes inv: "vm_inv n V ps al {}" and "\<forall>i \<in> set is. i < vm_page_table_capacity V"
  shows "\<exists>s'. foldl (\<lambda>r i. do { V1 \<leftarrow> r; e \<leftarrow> arr_get (vm_page_table V1) i; destroy_step V1 e })
    (Some (V\<lparr>vm_backing := Some s\<rparr>)) is = Some (V\<lparr>vm_backing := Some s'\<rparr>)"
  using assms(2)
proof (induction "is" arbitrary: s)
  case (Cons i js)
  note D = vm_invD [OF inv]
  have "\<exists>s1. destroy_step (V\<lparr>vm_backing := Some s\<rparr>) (vm_page_table V ! i) = Some (V\<lparr>vm_backing := Some s1\<rparr>)"
  proof (cases "resident V i")
    case True
    then have f: "page_frame V i < n" using D(12,13) Cons.prems by simp
    have num: "pf_number (pm_frames (vm_physical V) ! page_frame V i) = page_frame V i"
      using D(2) f by (simp add: pm_ok_def)
    have "read_bytes (pm_memory (vm_physical V)) (page_frame V i * vm_page_size V) (vm_page_size V) \<noteq> None"
      using frame_in_memory [OF D(2) f, of "vm_page_size V"] by (simp add: read_bytes_def)
    then show ?thesis
      using True pm_ok_frame [OF D(2) f] num
      by (auto simp: destroy_step_def write_back_def resident_def page_frame_def [symmetric])
  qed (auto simp: destroy_step_def resident_def intro: exI [of _ s])
  then show ?case
    using Cons D(5) by fastforce
qed auto

lemma virtual_memory_destroy_ok:
  assumes "vm_good n V"
  shows "virtual_memory_destroy V \<noteq> None"
proof -
  obtain ps al where inv: "vm_inv n V ps al {}" using assms by (auto simp: vm_good_def)
  obtain s where s: "vm_backing V = Some s" using inv by (rule vm_inv_backing)
  then have V: "V\<lparr>vm_backing := Some s\<rparr> = V" by simp
  obtain s' where s': "foldl (\<lambda>r i. do { V1 \<leftarrow> r; e \<leftarrow> arr_get (vm_page_table V1) i; destroy_step V1 e })
      (Some V) [0..<vm_page_table_capacity V] = Some (V\<lparr>vm_backing := Some s'\<rparr>)"
    using destroy_loop [OF inv, of "[0..<vm_page_table_capacity V]" s] unfolding V by auto
  obtain c where c: "LRU_cache_destroy (vm_page_cache V) = Some c"
    using LRU_cache_destroy_no_leak [OF vm_invD(8) [OF inv]] by blast
  obtain js where "lru_rep (tlb_cache (vm_tlb V)) (map Slot js)"
    using vm_invD(18) [OF inv] by (auto simp: tlb_rep_def tlb_slots_def)
  then obtain t where "TLB_destroy (vm_tlb V) = Some t"
    using LRU_cache_destroy_no_leak by (fastforce simp: TLB_destroy_def)
  then show ?thesis using s' c by (simp add: virtual_memory_destroy_def)
qed

lemma read_all_log:
  assumes "vm_good n V" "vm_log_enabled V" "vm_log_file V = Some lines"
    and "\<forall>q < 256. \<forall>e < 256. m (q * 256 + e) = vm_byte V q e"
  shows "\<exists>V' new. read_all V as = Some V' \<and> vm_good n V' \<and> vm_log_file V' = Some (lines @ new) \<and>
    map (\<lambda>(a, pa, v). (a, v)) new = map (\<lambda>a. (a, sint (m (nat (a mod 2 ^ 16))))) as"
  using assms
proof (induction as arbitrary: V lines)
  case (Cons a as)
  have sz: "256 \<le> vm_page_size V" using Cons.prems(1) by (auto simp: vm_good_def vm_inv_def)
  obtain V1 pa where V1: "virtual_memory_read V a = Some (V1, vm_at V a)" "vm_good n V1" "same_bytes V V1"
      "vm_log_enabled V1" "vm_log_file V1 = Some (lines @ [(a, pa, sint (vm_at V a))])"
    using virtual_memory_read_step [OF Cons.prems(1), of a] Cons.prems(2,3) by auto
  have "\<forall>q < 256. \<forall>e < 256. m (q * 256 + e) = vm_byte V1 q e"
    using Cons.prems(4) V1(3) sz by (simp add: same_bytes_def)
  then obtain V' new where "read_all V1 as = Some V'" "vm_good n V'"
      "vm_log_file V' = Some ((lines @ [(a, pa, sint (vm_at V a))]) @ new)"
      "map (\<lambda>(a, pa, v). (a, v)) new = map (\<lambda>a. (a, sint (m (nat (a mod 2 ^ 16))))) as"
    using Cons.IH [OF V1(2,4,5)] by blast
  moreover have "m (nat (a mod 2 ^ 16)) = vm_at V a"
    unfolding flat_index [symmetric] using Cons.prems(4) page_of_bound offset_of_bound by (simp add: vm_at_def)
  ultimately show ?case using V1(1) by (intro exI [of _ V'] exI [of _ "(a, pa, sint (vm_at V a)) # new"]) simp
qed simp

text \<open>The definitions that evaluate a run on a concrete memory.\<close>

lemmas vm_eval = virtual_memory_create_def physical_memory_create_def virtual_memory_get_physical_address_def
  page_of_def offset_of_def page_fault_def free_frame_def load_page_def evict_page_def write_back_def fread_def
  fwrite_def fseek_set_def read_bytes_def write_bytes_def physical_memory_get_frame_def
  physical_memory_get_frame_address_def set_frame_def page_table_entry_equal_def virtual_memory_read_def
  virtual_memory_write_def physical_memory_read_def physical_memory_write_def log_access_def
  lru_eval tlb_eval arr_get_def arr_set_def upt_rec

section \<open>Properties\<close>

text \<open>
  C7 (refinement).  Virtual memory is a flat array of 64 KB: with at least one frame, any sequence of
  reads returns the bytes of the backing store, whatever pages are evicted in between; with a frame for
  every page, as in \<open>main.c\<close>, any sequence of reads and writes behaves as on a flat array.  No step
  touches memory outside its objects.
\<close>

theorem virtual_memory_flat:
  assumes "0 < tlb_size" "tlb_size < SIZE_MINUS_1" "0 < n" "n < 2 ^ 31"
    and "length mem = n * 256" "256 * 256 \<le> length store"
    and "256 \<le> n \<or> (\<forall>op \<in> set ops. is_read op)"
  shows "\<exists>V V'. virtual_memory_create 256 256 tlb_size (n * 256) mem (Some store) = Some V \<and>
    vm_run V ops = Some (V', flat_run ((!) store) ops)"
  using virtual_memory_create_good [OF assms(1-6)] vm_run_refines [where n = n] assms(7) by blast

theorem virtual_memory_flat_witness:
  "\<exists>V V'. virtual_memory_create 256 256 2 (1 * 256) (replicate 256 0) (Some (replicate 65536 7)) = Some V \<and>
    vm_run V [Read 0, Read 300, Read 5] = Some (V', flat_run ((!) (replicate 65536 7)) [Read 0, Read 300, Read 5])"
  by (rule virtual_memory_flat) (simp_all add: SIZE_MINUS_1_def)

text \<open>
  C8 (functional).  The program of \<open>main.c\<close>: for every list of query addresses it runs to the end
  without undefined behaviour, and the log it writes holds for each query, in order, the address and
  the signed value of the byte of the backing store at its low 16 bits.
\<close>

theorem virtual_memory_main_log:
  assumes "length memory = 65536" "65536 \<le> length store"
  shows "\<exists>accesses faults hits misses lines. vm_main memory (Some store) queries =
      Some (accesses, faults, hits, misses, lines) \<and>
    map (\<lambda>(a, pa, v). (a, v)) lines = map (\<lambda>a. (a, sint (store ! nat (a mod 2 ^ 16)))) queries"
proof -
  obtain V where V: "virtual_memory_create 256 256 16 (256 * 256) memory (Some store) = Some V" "vm_good 256 V"
      "\<forall>q < 256. \<forall>e < 256. store ! (q * 256 + e) = vm_byte V q e"
    using virtual_memory_create_good [of 16 256 memory store] assms by (auto simp: SIZE_MINUS_1_def)
  let ?V = "virtual_memory_set_log V True True"
  obtain ps al where inv: "vm_inv 256 V ps al {}" and lf: "loss_free 256 V" using V(2) by (auto simp: vm_good_def)
  have "vm_inv 256 ?V ps al {}"
    using inv by (simp add: vm_inv_def virtual_memory_set_log_def page_frame_def [abs_def] resident_def
        store_bytes_def frame_valid_def frame_dirty_def)
  moreover have "loss_free 256 ?V" by (simp add: loss_free_def)
  ultimately have good: "vm_good 256 ?V"
    by (auto simp: vm_good_def log_ok_def virtual_memory_set_log_def)
  have bytes: "\<forall>q < 256. \<forall>e < 256. store ! (q * 256 + e) = vm_byte ?V q e"
    using V(3) by (simp add: vm_byte_def resident_def page_frame_def store_bytes_def virtual_memory_set_log_def)
  obtain V1 new where V1: "read_all ?V queries = Some V1" "vm_good 256 V1" "vm_log_file V1 = Some ([] @ new)"
      "map (\<lambda>(a, pa, v). (a, v)) new = map (\<lambda>a. (a, sint (store ! nat (a mod 2 ^ 16)))) queries"
    using read_all_log [OF good _ _ bytes, of "[]" queries] by (auto simp: virtual_memory_set_log_def)
  obtain V2 where "virtual_memory_destroy V1 = Some V2" using virtual_memory_destroy_ok [OF V1(2)] by auto
  then show ?thesis using V(1) V1 by (simp add: vm_main_def)
qed

theorem virtual_memory_main_log_witness:
  "\<exists>accesses faults hits misses lines. vm_main (replicate 65536 0) (Some (replicate 65536 255)) [7, 65543] =
      Some (accesses, faults, hits, misses, lines) \<and>
    map (\<lambda>(a, pa, v). (a, v)) lines = [(7, -1), (65543, -1)]"
  using virtual_memory_main_log [of "replicate 65536 0" "replicate 65536 255" "[7, 65543]"] by simp


end
