(* ===== verification/Freelist.thy ===== *)
theory Freelist
  imports Ring
begin

text \<open>
  The free list of \<open>CS2303 Operating System/Project 7/freelist.c\<close>: every free block is a node of two
  circular lists with the same sentinel, one in address order (\<open>prev\<close>, \<open>next\<close>) and one in size order
  (\<open>smaller\<close>, \<open>larger\<close>).  Nodes live in a heap whose accesses fail on nodes that are not allocated;
  block addresses are integers, sizes naturals.
\<close>

section \<open>State\<close>

record freelist =
  fl_node :: ptr
  fl_address :: int
  fl_size :: nat
  nd_address :: "ptr \<Rightarrow> int"
  nd_size :: "ptr \<Rightarrow> nat"
  nd_prev :: "ptr \<Rightarrow> ptr"
  nd_next :: "ptr \<Rightarrow> ptr"
  nd_smaller :: "ptr \<Rightarrow> ptr"
  nd_larger :: "ptr \<Rightarrow> ptr"
  fl_alloc :: "ptr set"
  fl_brk :: ptr

text \<open>Reading and writing a field of a node; \<open>malloc\<close> and \<open>free\<close>.\<close>

definition fl_rd :: "(freelist \<Rightarrow> ptr \<Rightarrow> 'a) \<Rightarrow> freelist \<Rightarrow> ptr \<Rightarrow> 'a option" where
  "fl_rd fld F q = (if q \<in> fl_alloc F then Some (fld F q) else None)"

definition fl_wr ::
  "(((ptr \<Rightarrow> 'a) \<Rightarrow> (ptr \<Rightarrow> 'a)) \<Rightarrow> freelist \<Rightarrow> freelist) \<Rightarrow> freelist \<Rightarrow> ptr \<Rightarrow> 'a \<Rightarrow> freelist option" where
  "fl_wr upd F q v = (if q \<in> fl_alloc F then Some (upd (\<lambda>f. f(q := v)) F) else None)"

definition fl_malloc :: "freelist \<Rightarrow> ptr \<times> freelist" where
  "fl_malloc F = (fl_brk F, F\<lparr>fl_alloc := insert (fl_brk F) (fl_alloc F), fl_brk := Suc (fl_brk F)\<rparr>)"

definition fl_dispose :: "freelist \<Rightarrow> ptr \<Rightarrow> freelist option" where
  "fl_dispose F q = (if q \<in> fl_alloc F then Some (F\<lparr>fl_alloc := fl_alloc F - {q}\<rparr>) else None)"

text \<open>
  The merge loop reads \<open>next->next\<close> after freeing \<open>next\<close>.  With \<open>stale\<close> the freed node keeps its
  fields until the next \<open>malloc\<close>, as the usual allocators do for this field; without, the access is
  the undefined behaviour the C standard makes it.
\<close>

definition fl_rd_freed :: "bool \<Rightarrow> (freelist \<Rightarrow> ptr \<Rightarrow> 'a) \<Rightarrow> freelist \<Rightarrow> ptr \<Rightarrow> 'a option" where
  "fl_rd_freed stale fld F q = (if stale then Some (fld F q) else fl_rd fld F q)"

section \<open>Operations\<close>

definition freelist_create :: "int \<Rightarrow> nat \<Rightarrow> freelist" where
  "freelist_create address sz =
     \<lparr>fl_node = 1, fl_address = address, fl_size = sz,
      nd_address = (\<lambda>_. 0)(1 := 0, 2 := address), nd_size = (\<lambda>_. 0)(1 := 0, 2 := sz),
      nd_prev = (\<lambda>_. NULL)(1 := 2, 2 := 1), nd_next = (\<lambda>_. NULL)(1 := 2, 2 := 1),
      nd_smaller = (\<lambda>_. NULL)(1 := 2, 2 := 1), nd_larger = (\<lambda>_. NULL)(1 := 2, 2 := 1),
      fl_alloc = {1, 2}, fl_brk = 3\<rparr>"

partial_function (option) freelist_destroy_loop :: "freelist \<Rightarrow> ptr \<Rightarrow> freelist option" where
  "freelist_destroy_loop F node =
     (if node = fl_node F then Some F
      else do {
        next \<leftarrow> fl_rd nd_next F node;
        F1 \<leftarrow> fl_dispose F node;
        freelist_destroy_loop F1 next
      })"

definition freelist_destroy :: "freelist \<Rightarrow> freelist option" where
  "freelist_destroy F = do {
     node \<leftarrow> fl_rd nd_next F (fl_node F);
     F1 \<leftarrow> freelist_destroy_loop F node;
     F2 \<leftarrow> fl_dispose F1 (fl_node F1);
     Some (F2\<lparr>fl_node := NULL, fl_address := 0, fl_size := 0\<rparr>)
   }"

text \<open>
  The search loops: starting at \<open>current\<close>, advance along the field \<open>fld\<close> while the next node is not
  the sentinel and satisfies the condition.
\<close>

partial_function (option) fl_seek ::
  "(freelist \<Rightarrow> ptr \<Rightarrow> ptr) \<Rightarrow> (freelist \<Rightarrow> ptr \<Rightarrow> bool option) \<Rightarrow> freelist \<Rightarrow> ptr \<Rightarrow> ptr option" where
  "fl_seek fld P F current = do {
     nxt \<leftarrow> fl_rd fld F current;
     (if nxt \<noteq> fl_node F then do {
        ok \<leftarrow> P F nxt;
        (if ok then fl_seek fld P F nxt else Some current)
      }
      else Some current)
   }"

definition freelist_internal_insert :: "freelist \<Rightarrow> ptr \<Rightarrow> ptr \<Rightarrow> freelist option" where
  "freelist_internal_insert F node new_node = do {
     F1 \<leftarrow> fl_wr nd_prev_update F new_node node;
     after \<leftarrow> fl_rd nd_next F1 node;
     F2 \<leftarrow> fl_wr nd_next_update F1 new_node after;
     after2 \<leftarrow> fl_rd nd_next F2 node;
     F3 \<leftarrow> fl_wr nd_prev_update F2 after2 new_node;
     fl_wr nd_next_update F3 node new_node
   }"

text \<open>The detaching from the size order that \<open>remove\<close> and \<open>sort\<close> share.\<close>

definition fl_detach :: "freelist \<Rightarrow> ptr \<Rightarrow> freelist option" where
  "fl_detach F node = do {
     smaller \<leftarrow> fl_rd nd_smaller F node;
     larger \<leftarrow> fl_rd nd_larger F node;
     (if smaller \<noteq> NULL \<and> larger \<noteq> NULL then do {
        F1 \<leftarrow> fl_wr nd_larger_update F smaller larger;
        larger1 \<leftarrow> fl_rd nd_larger F1 node;
        smaller1 \<leftarrow> fl_rd nd_smaller F1 node;
        fl_wr nd_smaller_update F1 larger1 smaller1
      }
      else Some F)
   }"

definition freelist_internal_remove :: "freelist \<Rightarrow> ptr \<Rightarrow> freelist option" where
  "freelist_internal_remove F node = do {
     prior \<leftarrow> fl_rd nd_prev F node;
     after \<leftarrow> fl_rd nd_next F node;
     F1 \<leftarrow> fl_wr nd_next_update F prior after;
     after1 \<leftarrow> fl_rd nd_next F1 node;
     prior1 \<leftarrow> fl_rd nd_prev F1 node;
     F2 \<leftarrow> fl_wr nd_prev_update F1 after1 prior1;
     F3 \<leftarrow> fl_detach F2 node;
     fl_dispose F3 node
   }"

definition smaller_than :: "nat \<Rightarrow> freelist \<Rightarrow> ptr \<Rightarrow> bool option" where
  "smaller_than n F q = do { s \<leftarrow> fl_rd nd_size F q; Some (s < n) }"

definition freelist_internal_sort :: "freelist \<Rightarrow> ptr \<Rightarrow> freelist option" where
  "freelist_internal_sort F node = do {
     F1 \<leftarrow> fl_detach F node;
     n \<leftarrow> fl_rd nd_size F1 node;
     current \<leftarrow> fl_seek nd_larger (smaller_than n) F1 (fl_node F1);
     larger \<leftarrow> fl_rd nd_larger F1 current;
     F2 \<leftarrow> fl_wr nd_larger_update F1 node larger;
     F3 \<leftarrow> fl_wr nd_smaller_update F2 node current;
     larger3 \<leftarrow> fl_rd nd_larger F3 current;
     F4 \<leftarrow> fl_wr nd_smaller_update F3 larger3 node;
     fl_wr nd_larger_update F4 current node
   }"

text \<open>The two loops of \<open>freelist_internal_merge\<close>.\<close>

definition fl_touch :: "freelist \<Rightarrow> ptr \<Rightarrow> ptr \<Rightarrow> bool option" where
  "fl_touch F p q = do {
     a \<leftarrow> fl_rd nd_address F p;
     s \<leftarrow> fl_rd nd_size F p;
     b \<leftarrow> fl_rd nd_address F q;
     Some (a + int s = b)
   }"

definition fl_grow :: "freelist \<Rightarrow> ptr \<Rightarrow> ptr \<Rightarrow> freelist option" where
  "fl_grow F p q = do {
     s \<leftarrow> fl_rd nd_size F p;
     t \<leftarrow> fl_rd nd_size F q;
     fl_wr nd_size_update F p (s + t)
   }"

partial_function (option) merge_prev :: "freelist \<Rightarrow> ptr \<Rightarrow> ptr \<Rightarrow> (freelist \<times> ptr) option" where
  "merge_prev F node prev =
     (if prev \<noteq> fl_node F then do {
        touch \<leftarrow> fl_touch F prev node;
        (if touch then do {
           F1 \<leftarrow> fl_grow F prev node;
           F2 \<leftarrow> freelist_internal_remove F1 node;
           prev' \<leftarrow> fl_rd nd_prev F2 prev;
           merge_prev F2 prev prev'
         }
         else Some (F, node))
      }
      else Some (F, node))"

partial_function (option) merge_next :: "bool \<Rightarrow> freelist \<Rightarrow> ptr \<Rightarrow> ptr \<Rightarrow> freelist option" where
  "merge_next stale F node next =
     (if next \<noteq> fl_node F then do {
        touch \<leftarrow> fl_touch F node next;
        (if touch then do {
           F1 \<leftarrow> fl_grow F node next;
           F2 \<leftarrow> freelist_internal_remove F1 next;
           next' \<leftarrow> fl_rd_freed stale nd_next F2 next;
           merge_next stale F2 node next'
         }
         else Some F)
      }
      else Some F)"

declare freelist_destroy_loop.simps [code] fl_seek.simps [code] merge_prev.simps [code] merge_next.simps [code]

definition freelist_internal_merge :: "bool \<Rightarrow> freelist \<Rightarrow> ptr \<Rightarrow> freelist option" where
  "freelist_internal_merge stale F node = do {
     prev \<leftarrow> fl_rd nd_prev F node;
     (F1, node1) \<leftarrow> merge_prev F node prev;
     next \<leftarrow> fl_rd nd_next F1 node1;
     F2 \<leftarrow> merge_next stale F1 node1 next;
     freelist_internal_sort F2 node1
   }"

definition freelist_alloc :: "freelist \<Rightarrow> ptr \<Rightarrow> nat \<Rightarrow> freelist option" where
  "freelist_alloc F node sz = do {
     s \<leftarrow> fl_rd nd_size F node;
     (if s > sz then do {
        a \<leftarrow> fl_rd nd_address F node;
        F1 \<leftarrow> fl_wr nd_address_update F node (a + int sz);
        F2 \<leftarrow> fl_wr nd_size_update F1 node (s - sz);
        freelist_internal_sort F2 node
      }
      else freelist_internal_remove F node)
   }"

definition before_address :: "int \<Rightarrow> freelist \<Rightarrow> ptr \<Rightarrow> bool option" where
  "before_address a F q = do { b \<leftarrow> fl_rd nd_address F q; Some (b < a) }"

definition freelist_free :: "bool \<Rightarrow> freelist \<Rightarrow> int \<Rightarrow> nat \<Rightarrow> freelist option" where
  "freelist_free stale F address sz = (let (new_node, F0) = fl_malloc F in do {
     F1 \<leftarrow> fl_wr nd_address_update F0 new_node address;
     F2 \<leftarrow> fl_wr nd_size_update F1 new_node sz;
     F3 \<leftarrow> fl_wr nd_smaller_update F2 new_node NULL;
     F4 \<leftarrow> fl_wr nd_larger_update F3 new_node NULL;
     node \<leftarrow> fl_seek nd_next (before_address address) F4 (fl_node F4);
     F5 \<leftarrow> freelist_internal_insert F4 node new_node;
     freelist_internal_merge stale F5 new_node
   })"

section \<open>Rings in the node heap\<close>

lemma fl_wr_const [simp]:
  "nd_address_update (\<lambda>f. f(q := a)) F = F\<lparr>nd_address := (nd_address F)(q := a)\<rparr>"
  "nd_size_update (\<lambda>f. f(q := n)) F = F\<lparr>nd_size := (nd_size F)(q := n)\<rparr>"
  "nd_prev_update (\<lambda>f. f(q := r)) F = F\<lparr>nd_prev := (nd_prev F)(q := r)\<rparr>"
  "nd_next_update (\<lambda>f. f(q := r)) F = F\<lparr>nd_next := (nd_next F)(q := r)\<rparr>"
  "nd_smaller_update (\<lambda>f. f(q := r)) F = F\<lparr>nd_smaller := (nd_smaller F)(q := r)\<rparr>"
  "nd_larger_update (\<lambda>f. f(q := r)) F = F\<lparr>nd_larger := (nd_larger F)(q := r)\<rparr>"
  by simp_all

text \<open>The sentinel and the nodes \<open>qs\<close> are all allocated, below the next fresh address and not NULL.\<close>

definition fl_heap :: "freelist \<Rightarrow> ptr set \<Rightarrow> bool" where
  "fl_heap F qs \<longleftrightarrow> fl_alloc F = insert (fl_node F) qs \<and> (\<forall>q \<in> fl_alloc F. NULL < q \<and> q < fl_brk F)"

lemma filter_neq_id [simp]: "q \<notin> set xs \<Longrightarrow> filter (\<lambda>x. x \<noteq> q) xs = xs"
  by (induction xs) auto

lemma last_neq: "x \<noteq> h \<Longrightarrow> x \<notin> set us \<Longrightarrow> x \<noteq> last (h # us)"
  using last_in_set [of "h # us"] by (metis list.distinct(1) set_ConsD)

lemma hd_neq: "x \<noteq> h \<Longrightarrow> x \<notin> set vs \<Longrightarrow> x \<noteq> hd (vs @ [h])"
  by (cases vs) auto

lemma last_alloc: "set xs \<subseteq> A \<Longrightarrow> h \<in> A \<Longrightarrow> last (h # xs) \<in> A"
  using last_in_set [of "h # xs"] by auto

lemma hd_alloc: "set ys \<subseteq> A \<Longrightarrow> h \<in> A \<Longrightarrow> hd (ys @ [h]) \<in> A"
  by (cases ys) auto

text \<open>The search loops stop behind the longest prefix of nodes that satisfy the condition.\<close>

lemma fl_seek_ring:
  assumes "seg (fld F) p a xs (fl_node F)" and "set xs \<subseteq> fl_alloc F" "a \<in> fl_alloc F" "fl_node F \<notin> set xs"
    and "\<And>q. q \<in> set xs \<Longrightarrow> P F q = Some (Q q)"
  shows "fl_seek fld P F a = Some (last (a # takeWhile Q xs))"
  using assms
proof (induction xs arbitrary: a)
  case (Cons x xs)
  then have "fl_seek fld P F x = Some (last (x # takeWhile Q xs))" by auto
  then show ?case using Cons.prems by (simp add: fl_seek.simps [of fld P F a] fl_rd_def)
qed (simp add: fl_seek.simps fl_rd_def)

lemma freelist_internal_insert_step:
  assumes r: "ring (nd_next F) (nd_prev F) h (xs @ ys)" and "set (xs @ ys) \<subseteq> fl_alloc F" "h \<in> fl_alloc F"
    and x: "x \<in> fl_alloc F" "x \<noteq> h" "x \<notin> set xs" "x \<notin> set ys"
  shows "\<exists>n p. freelist_internal_insert F (last (h # xs)) x = Some (F\<lparr>nd_next := n, nd_prev := p\<rparr>) \<and>
    ring n p h (xs @ x # ys)"
proof -
  let ?a = "last (h # xs)" and ?b = "hd (ys @ [h])"
  have ab: "?a \<in> fl_alloc F" "?b \<in> fl_alloc F" using assms(2,3) last_alloc hd_alloc by auto
  have na: "nd_next F ?a = ?b"
  proof (cases xs rule: rev_cases)
    case Nil then show ?thesis using ring_head_next [OF r] by simp
  next
    case (snoc zs z) then show ?thesis using ring_node_next [of _ _ h zs z ys] r by simp
  qed
  have xa: "x \<noteq> ?a" using x last_in_set [of "h # xs"] by auto
  have xb: "x \<noteq> ?b" using x by (cases ys) auto
  have "freelist_internal_insert F ?a x = Some (F\<lparr>nd_next := (nd_next F)(?a := x, x := ?b),
      nd_prev := (nd_prev F)(?b := x, x := ?a)\<rparr>)"
    using ab x(1) na xa xb
    by (simp add: freelist_internal_insert_def fl_wr_def fl_rd_def fun_upd_twist [of x])
  then show ?thesis using ring_link [OF r x(2-4) refl refl] by blast
qed

text \<open>Detaching a node from the size order, and removing it from both.\<close>

lemma fl_detach_step:
  assumes r: "ring (nd_larger F) (nd_smaller F) h (xs @ x # ys)" and "set (xs @ x # ys) \<subseteq> fl_alloc F" "h \<in> fl_alloc F"
    and pos: "\<forall>q \<in> fl_alloc F. NULL < q"
  shows "\<exists>l s. fl_detach F x = Some (F\<lparr>nd_larger := l, nd_smaller := s\<rparr>) \<and> ring l s h (xs @ ys) \<and>
    (\<forall>z. z \<notin> insert h (set (xs @ ys)) \<longrightarrow> l z = nd_larger F z \<and> s z = nd_smaller F z)"
proof -
  have n: "nd_larger F x = hd (ys @ [h])" and p: "nd_smaller F x = last (h # xs)"
    using ring_node_next [OF r] ring_node_prev [OF r] by auto
  then have al: "nd_larger F x \<in> fl_alloc F" "nd_smaller F x \<in> fl_alloc F"
    using assms(2,3) last_alloc [of xs _ h] hd_alloc [of ys _ h] by auto
  have "nd_smaller F x \<noteq> x" using r p last_in_set [of "h # xs"] by (auto simp: ring_def)
  then have "fl_detach F x = Some (F\<lparr>nd_larger := (nd_larger F)(nd_smaller F x := nd_larger F x),
      nd_smaller := (nd_smaller F)(nd_larger F x := nd_smaller F x)\<rparr>)"
    using al pos assms(2) by (simp add: fl_detach_def fl_wr_def fl_rd_def)
  moreover have "nd_smaller F x \<in> insert h (set (xs @ ys))"
    using p last_in_set [of "h # xs"] by auto
  moreover have "nd_larger F x \<in> insert h (set (xs @ ys))"
    using n by (cases ys) auto
  ultimately show ?thesis using ring_unlink [OF r]
    by (intro exI [of _ "(nd_larger F)(nd_smaller F x := nd_larger F x)"]
          exI [of _ "(nd_smaller F)(nd_larger F x := nd_smaller F x)"] conjI) auto
qed

lemma fl_detach_null:
  "x \<in> fl_alloc F \<Longrightarrow> nd_smaller F x = NULL \<or> nd_larger F x = NULL \<Longrightarrow> fl_detach F x = Some F"
  by (auto simp: fl_detach_def fl_rd_def)

lemma fl_detach_addr:
  "fl_detach (F\<lparr>nd_next := n, nd_prev := p\<rparr>) x = map_option (\<lambda>G. G\<lparr>nd_next := n, nd_prev := p\<rparr>) (fl_detach F x)"
  by (simp add: fl_detach_def fl_rd_def fl_wr_def)

lemma freelist_internal_remove_step:
  assumes r: "ring (nd_next F) (nd_prev F) h (xs @ x # ys)" and "set (xs @ x # ys) \<subseteq> fl_alloc F" "h \<in> fl_alloc F"
    and d: "\<And>n p. fl_detach (F\<lparr>nd_next := n, nd_prev := p\<rparr>) x = Some (F\<lparr>nd_next := n, nd_prev := p, nd_larger := l, nd_smaller := s\<rparr>)"
  shows "\<exists>n p. freelist_internal_remove F x = Some (F\<lparr>nd_next := n, nd_prev := p, nd_larger := l, nd_smaller := s,
      fl_alloc := fl_alloc F - {x}\<rparr>) \<and> ring n p h (xs @ ys) \<and> n x = hd (ys @ [h])"
proof -
  have n: "nd_next F x = hd (ys @ [h])" and p: "nd_prev F x = last (h # xs)"
    using ring_node_next [OF r] ring_node_prev [OF r] by auto
  then have al: "nd_next F x \<in> fl_alloc F" "nd_prev F x \<in> fl_alloc F"
    using assms(2,3) last_alloc [of xs _ h] hd_alloc [of ys _ h] by auto
  have px: "nd_prev F x \<noteq> x" using r p last_in_set [of "h # xs"] by (auto simp: ring_def)
  let ?n = "(nd_next F)(nd_prev F x := nd_next F x)" and ?p = "(nd_prev F)(nd_next F x := nd_prev F x)"
  have "freelist_internal_remove F x = Some (F\<lparr>nd_next := ?n, nd_prev := ?p, nd_larger := l, nd_smaller := s,
      fl_alloc := fl_alloc F - {x}\<rparr>)"
    using al assms(2) px d [where n = ?n and p = ?p]
    by (simp add: freelist_internal_remove_def fl_wr_def fl_rd_def fl_dispose_def)
  moreover have "?n x = hd (ys @ [h])" using px n by simp
  ultimately show ?thesis using ring_unlink [OF r] by blast
qed

text \<open>Both cases together: a node is taken out of both orders and freed.\<close>

lemma fl_remove:
  assumes r: "ring (nd_next F) (nd_prev F) (fl_node F) (us @ q # vs)"
    and s: "ring (nd_larger F) (nd_smaller F) (fl_node F) ss"
    and heap: "fl_heap F (set (us @ q # vs))" and sub: "set ss \<subseteq> set (us @ q # vs)"
    and null: "q \<notin> set ss \<Longrightarrow> nd_smaller F q = NULL"
  shows "\<exists>n p l s. freelist_internal_remove F q = Some (F\<lparr>nd_next := n, nd_prev := p, nd_larger := l, nd_smaller := s,
      fl_alloc := fl_alloc F - {q}\<rparr>) \<and> ring n p (fl_node F) (us @ vs) \<and> n q = hd (vs @ [fl_node F]) \<and>
    ring l s (fl_node F) (filter (\<lambda>x. x \<noteq> q) ss) \<and>
    (\<forall>z. z \<notin> insert (fl_node F) (set ss) \<longrightarrow> l z = nd_larger F z \<and> s z = nd_smaller F z)"
proof -
  have al: "set (us @ q # vs) \<subseteq> fl_alloc F" "fl_node F \<in> fl_alloc F" "\<forall>q \<in> fl_alloc F. NULL < q"
    using heap by (auto simp: fl_heap_def)
  have "\<exists>l s. (\<forall>n p. fl_detach (F\<lparr>nd_next := n, nd_prev := p\<rparr>) q =
        Some (F\<lparr>nd_next := n, nd_prev := p, nd_larger := l, nd_smaller := s\<rparr>)) \<and>
      ring l s (fl_node F) (filter (\<lambda>x. x \<noteq> q) ss) \<and>
      (\<forall>z. z \<notin> insert (fl_node F) (set ss) \<longrightarrow> l z = nd_larger F z \<and> s z = nd_smaller F z)"
  proof (cases "q \<in> set ss")
    case True
    then obtain as bs where ss: "ss = as @ q # bs" by (auto simp: in_set_conv_decomp)
    have dist: "distinct ss" using s by (simp add: ring_def)
    then have flt: "filter (\<lambda>x. x \<noteq> q) ss = as @ bs" unfolding ss by auto
    have sub': "set (as @ q # bs) \<subseteq> fl_alloc F" using sub al(1) ss by blast
    obtain l s' where ls: "fl_detach F q = Some (F\<lparr>nd_larger := l, nd_smaller := s'\<rparr>)" "ring l s' (fl_node F) (as @ bs)"
        "\<forall>z. z \<notin> insert (fl_node F) (set (as @ bs)) \<longrightarrow> l z = nd_larger F z \<and> s' z = nd_smaller F z"
      using fl_detach_step [OF s [unfolded ss] sub' al(2,3)] by blast
    have "\<forall>n p. fl_detach (F\<lparr>nd_next := n, nd_prev := p\<rparr>) q =
        Some (F\<lparr>nd_next := n, nd_prev := p, nd_larger := l, nd_smaller := s'\<rparr>)"
      using ls(1) by (simp add: fl_detach_addr)
    moreover have "ring l s' (fl_node F) (filter (\<lambda>x. x \<noteq> q) ss)" using ls(2) flt by simp
    moreover have "\<forall>z. z \<notin> insert (fl_node F) (set ss) \<longrightarrow> l z = nd_larger F z \<and> s' z = nd_smaller F z"
      using ls(3) ss by auto
    ultimately show ?thesis by blast
  next
    case False
    then have "filter (\<lambda>x. x \<noteq> q) ss = ss" by (auto simp: filter_id_conv)
    then show ?thesis
      using s null False al(1) fl_detach_null [of q "F\<lparr>nd_next := n, nd_prev := p\<rparr>" for n p]
      by (intro exI [of _ "nd_larger F"] exI [of _ "nd_smaller F"]) simp
  qed
  then obtain l s' where ls: "\<And>n p. fl_detach (F\<lparr>nd_next := n, nd_prev := p\<rparr>) q =
        Some (F\<lparr>nd_next := n, nd_prev := p, nd_larger := l, nd_smaller := s'\<rparr>)"
      "ring l s' (fl_node F) (filter (\<lambda>x. x \<noteq> q) ss)"
      "\<forall>z. z \<notin> insert (fl_node F) (set ss) \<longrightarrow> l z = nd_larger F z \<and> s' z = nd_smaller F z"
    by blast
  show ?thesis
    using freelist_internal_remove_step [OF r al(1,2) ls(1)] ls(2,3) by blast
qed

section \<open>The free list as a set of addresses\<close>

definition blk_end :: "freelist \<Rightarrow> ptr \<Rightarrow> int" where
  "blk_end F q = nd_address F q + int (nd_size F q)"

definition sep :: "freelist \<Rightarrow> ptr \<Rightarrow> ptr \<Rightarrow> bool" where
  "sep F a b \<longleftrightarrow> blk_end F a < nd_address F b"

definition in_range :: "freelist \<Rightarrow> ptr \<Rightarrow> bool" where
  "in_range F q \<longleftrightarrow> 0 < nd_size F q \<and> fl_address F \<le> nd_address F q \<and> blk_end F q \<le> fl_address F + int (fl_size F)"

definition free_set :: "freelist \<Rightarrow> ptr list \<Rightarrow> int set" where
  "free_set F qs = (\<Union>q \<in> set qs. {nd_address F q ..< blk_end F q})"

text \<open>
  \<open>free_rep F as ss\<close>: \<open>as\<close> are the nodes in address order, \<open>ss\<close> the same nodes in size order; the
  blocks are non-empty, in range, pairwise disjoint and not even adjacent.
\<close>

definition free_rep :: "freelist \<Rightarrow> ptr list \<Rightarrow> ptr list \<Rightarrow> bool" where
  "free_rep F as ss \<longleftrightarrow>
     ring (nd_next F) (nd_prev F) (fl_node F) as \<and> ring (nd_larger F) (nd_smaller F) (fl_node F) ss \<and>
     fl_heap F (set as) \<and> set ss = set as \<and> sorted (map (nd_size F) ss) \<and> nd_size F (fl_node F) = 0 \<and>
     (\<forall>q \<in> set as. in_range F q) \<and> sorted_wrt (sep F) as"

text \<open>The same, except that node \<open>m\<close> may be out of place in size order and may touch its neighbours.\<close>

definition mid_rep :: "freelist \<Rightarrow> ptr list \<Rightarrow> ptr \<Rightarrow> ptr list \<Rightarrow> ptr list \<Rightarrow> bool" where
  "mid_rep F xs m ys ss \<longleftrightarrow>
     ring (nd_next F) (nd_prev F) (fl_node F) (xs @ m # ys) \<and> ring (nd_larger F) (nd_smaller F) (fl_node F) ss \<and>
     fl_heap F (set (xs @ m # ys)) \<and> set ss - {m} = set (xs @ ys) \<and> (m \<notin> set ss \<longrightarrow> nd_smaller F m = NULL) \<and>
     sorted (map (nd_size F) (filter (\<lambda>q. q \<noteq> m) ss)) \<and> nd_size F (fl_node F) = 0 \<and>
     (\<forall>q \<in> set (xs @ m # ys). in_range F q) \<and> sorted_wrt (sep F) (xs @ ys) \<and>
     (\<forall>a \<in> set xs. blk_end F a \<le> nd_address F m) \<and> (\<forall>b \<in> set ys. blk_end F m \<le> nd_address F b)"

definition fl_same :: "freelist \<Rightarrow> freelist \<Rightarrow> bool" where
  "fl_same F F' \<longleftrightarrow> fl_node F' = fl_node F \<and> fl_address F' = fl_address F \<and> fl_size F' = fl_size F \<and>
     nd_address F' (fl_node F) = nd_address F (fl_node F)"

lemma insert_sorted_by:
  "sorted (map f xs) \<Longrightarrow> sorted (map f (takeWhile (\<lambda>q. f q < f m) xs @ m # dropWhile (\<lambda>q. f q < (f m :: nat)) xs))"
proof (induction xs)
  case (Cons x xs)
  then show ?case
    by (auto simp: sorted_append dest!: set_takeWhileD set_dropWhileD [of _ _ xs] intro: less_imp_le)
qed simp

lemma mid_repD:
  assumes "mid_rep F xs m ys ss"
  shows "ring (nd_next F) (nd_prev F) (fl_node F) (xs @ m # ys)" "ring (nd_larger F) (nd_smaller F) (fl_node F) ss"
    "fl_heap F (set (xs @ m # ys))" "set ss - {m} = set (xs @ ys)" "m \<notin> set ss \<Longrightarrow> nd_smaller F m = NULL"
    "sorted (map (nd_size F) (filter (\<lambda>q. q \<noteq> m) ss))" "nd_size F (fl_node F) = 0"
    "\<And>q. q \<in> set (xs @ m # ys) \<Longrightarrow> in_range F q" "sorted_wrt (sep F) (xs @ ys)"
    "\<And>a. a \<in> set xs \<Longrightarrow> blk_end F a \<le> nd_address F m" "\<And>b. b \<in> set ys \<Longrightarrow> blk_end F m \<le> nd_address F b"
    "distinct (fl_node F # xs @ m # ys)" "set ss \<subseteq> set (xs @ m # ys)"
    "set (xs @ m # ys) \<subseteq> fl_alloc F" "fl_node F \<in> fl_alloc F" "\<forall>q \<in> fl_alloc F. NULL < q"
  using assms by (auto simp: mid_rep_def ring_def fl_heap_def)

lemma fl_detach_mid:
  assumes mid: "mid_rep F xs m ys ss"
  shows "\<exists>l s. fl_detach F m = Some (F\<lparr>nd_larger := l, nd_smaller := s\<rparr>) \<and>
    ring l s (fl_node F) (filter (\<lambda>q. q \<noteq> m) ss)"
proof -
  note D = mid_repD [OF mid]
  show ?thesis
  proof (cases "m \<in> set ss")
    case True
    then obtain as bs where ss: "ss = as @ m # bs" by (auto simp: in_set_conv_decomp)
    then have flt: "filter (\<lambda>q. q \<noteq> m) ss = as @ bs" using D(2) by (auto simp: ring_def)
    have sub: "set (as @ m # bs) \<subseteq> fl_alloc F" using D(13,14) ss by blast
    have r: "ring (nd_larger F) (nd_smaller F) (fl_node F) (as @ m # bs)" using D(2) ss by simp
    show ?thesis using fl_detach_step [OF r sub D(15,16)] unfolding flt by blast
  next
    case False
    then have "fl_detach F m = Some (F\<lparr>nd_larger := nd_larger F, nd_smaller := nd_smaller F\<rparr>)"
      using fl_detach_null [of m F] D(5,14) by simp
    then show ?thesis using D(2) False by (intro exI conjI) simp_all
  qed
qed

lemma freelist_internal_sort_step:
  assumes mid: "mid_rep F xs m ys ss" and gap: "\<forall>a \<in> set xs. sep F a m" "\<forall>b \<in> set ys. sep F m b"
  shows "\<exists>l s ss'. freelist_internal_sort F m = Some (F\<lparr>nd_larger := l, nd_smaller := s\<rparr>) \<and>
    free_rep (F\<lparr>nd_larger := l, nd_smaller := s\<rparr>) (xs @ m # ys) ss'"
proof -
  note D = mid_repD [OF mid]
  let ?h = "fl_node F" and ?Q = "\<lambda>q. nd_size F q < nd_size F m" and ?ss = "filter (\<lambda>q. q \<noteq> m) ss"
  obtain l s where ls: "fl_detach F m = Some (F\<lparr>nd_larger := l, nd_smaller := s\<rparr>)" "ring l s ?h ?ss"
    using fl_detach_mid [OF mid] by blast
  let ?F1 = "F\<lparr>nd_larger := l, nd_smaller := s\<rparr>"
  let ?us = "takeWhile ?Q ?ss" and ?vs = "dropWhile ?Q ?ss"
  let ?c = "last (?h # ?us)" and ?b = "hd (?vs @ [?h])"
  have al: "set ?ss \<subseteq> fl_alloc F" "m \<in> fl_alloc F" using D(13,14) by auto
  have hss: "?h \<notin> set ?ss" using ls(2) by (auto simp: ring_def)
  have sub: "set ?us \<subseteq> set ?ss" "set ?vs \<subseteq> set ?ss" by (auto dest: set_takeWhileD set_dropWhileD)
  have seek: "fl_seek nd_larger (smaller_than (nd_size F m)) ?F1 ?h = Some ?c"
  proof (rule fl_seek_ring [where p = s])
    show "seg (nd_larger ?F1) s ?h ?ss (fl_node ?F1)" using ls(2) by (simp add: ring_def)
    show "smaller_than (nd_size F m) ?F1 q = Some (?Q q)" if "q \<in> set ?ss" for q
      using subsetD [OF al(1) that] by (simp add: smaller_than_def fl_rd_def)
  qed (use al(1) D(15) hss in simp_all)
  have r: "ring l s ?h (?us @ ?vs)" using ls(2) by simp
  have cb: "?c \<in> fl_alloc F" "?b \<in> fl_alloc F" using last_alloc hd_alloc al(1) D(15) sub by (metis subset_trans)+
  have lc: "l ?c = ?b"
  proof (cases ?us rule: rev_cases)
    case Nil then show ?thesis using ring_head_next [OF r] by simp
  next
    case (snoc zs z) then show ?thesis using ring_node_next [of l s ?h zs z ?vs] r by simp
  qed
  have m: "m \<noteq> ?h" "m \<notin> set ?us" "m \<notin> set ?vs" using D(12) sub by auto
  have mc: "m \<noteq> ?c" and mb: "m \<noteq> ?b" using last_neq hd_neq m by metis+
  let ?l = "l(?c := m, m := ?b)" and ?s = "s(?b := m, m := ?c)"
  have run: "freelist_internal_sort F m = Some (F\<lparr>nd_larger := ?l, nd_smaller := ?s\<rparr>)"
    using ls(1) seek lc mc mb cb al(2)
    by (simp add: freelist_internal_sort_def fl_rd_def fl_wr_def fun_upd_twist [of m])
  have ring': "ring ?l ?s ?h (?us @ m # ?vs)" using ring_link [OF r m refl refl] .
  have "sorted_wrt (sep F) (xs @ m # ys)"
    using D(9) gap by (auto simp: sorted_wrt_append)
  moreover have "set (?us @ m # ?vs) = set (xs @ m # ys)"
  proof -
    have eq: "set (as @ m # bs) = insert m (set (as @ bs))" for as bs by auto
    have "set ?ss = set (xs @ ys)" using D(4) by auto
    then show ?thesis by (simp only: eq takeWhile_dropWhile_id)
  qed
  moreover have "sorted (map (nd_size F) (?us @ m # ?vs))" using insert_sorted_by [OF D(6)] .
  ultimately have "free_rep (F\<lparr>nd_larger := ?l, nd_smaller := ?s\<rparr>) (xs @ m # ys) (?us @ m # ?vs)"
    using D(1,3,7,8) ring' unfolding free_rep_def fl_heap_def
    by (simp add: in_range_def blk_end_def sep_def [abs_def])
  then show ?thesis using run by blast
qed

section \<open>Merging\<close>

lemma ring_dist_remove: "distinct (h # xs @ m # ys) \<Longrightarrow> set (xs @ m # ys) - {m} = set (xs @ ys)"
  by auto

text \<open>Absorbing the node \<open>b\<close> into the node \<open>a\<close> that ends where \<open>b\<close> begins.\<close>

lemma mid_absorb:
  assumes r: "ring (nd_next F) (nd_prev F) (fl_node F) (us @ q # vs)"
    and mid: "mid_rep F xs m ys ss" and al: "us @ q # vs = xs @ m # ys" and k: "k \<in> set (us @ vs)" "k \<noteq> q"
  shows "\<exists>n p l s. fl_grow F k q = Some (F\<lparr>nd_size := (nd_size F)(k := nd_size F k + nd_size F q)\<rparr>) \<and>
    freelist_internal_remove (F\<lparr>nd_size := (nd_size F)(k := nd_size F k + nd_size F q)\<rparr>) q =
      Some (F\<lparr>nd_size := (nd_size F)(k := nd_size F k + nd_size F q), nd_next := n, nd_prev := p, nd_larger := l,
        nd_smaller := s, fl_alloc := fl_alloc F - {q}\<rparr>) \<and>
    ring n p (fl_node F) (us @ vs) \<and> n q = hd (vs @ [fl_node F]) \<and>
    ring l s (fl_node F) (filter (\<lambda>x. x \<noteq> q) ss) \<and>
    (\<forall>z. z \<notin> insert (fl_node F) (set ss) \<longrightarrow> l z = nd_larger F z \<and> s z = nd_smaller F z)"
proof -
  note D = mid_repD [OF mid]
  let ?F = "F\<lparr>nd_size := (nd_size F)(k := nd_size F k + nd_size F q)\<rparr>"
  have kq: "k \<in> fl_alloc F" "q \<in> fl_alloc F" using D(14) k unfolding al [symmetric] by auto
  then have grow: "fl_grow F k q = Some ?F" by (simp add: fl_grow_def fl_rd_def fl_wr_def)
  have heap: "fl_heap ?F (set (us @ q # vs))" using D(3) unfolding al by (simp add: fl_heap_def)
  have null: "q \<notin> set ss \<Longrightarrow> nd_smaller ?F q = NULL"
  proof -
    assume q: "q \<notin> set ss"
    have "q \<in> set (xs @ m # ys)" unfolding al [symmetric] by simp
    then have "q = m" using q D(4) by auto
    then show ?thesis using q D(5) by simp
  qed
  show ?thesis
    using fl_remove [of ?F us q vs ss] r D(2,13) heap null grow al by simp
qed

lemma free_set_simps [simp]:
  "free_set F [] = {}" "free_set F (x # xs) = {nd_address F x ..< blk_end F x} \<union> free_set F xs"
  "free_set F (xs @ ys) = free_set F xs \<union> free_set F ys"
  by (auto simp: free_set_def)

lemma free_set_cong:
  "nd_address F' = nd_address F \<Longrightarrow> (\<And>x. x \<noteq> a \<Longrightarrow> blk_end F' x = blk_end F x) \<Longrightarrow> a \<notin> set zs \<Longrightarrow>
   free_set F' zs = free_set F zs"
  unfolding free_set_def by (intro SUP_cong refl) (metis)

lemma interval_join: "a \<le> b \<Longrightarrow> b \<le> (c :: int) \<Longrightarrow> {a ..< b} \<union> {b ..< c} = {a ..< c}"
  by auto

lemma sorted_map_filter: "sorted (map f xs) \<Longrightarrow> sorted (map f (filter P xs))"
  by (induction xs) auto

lemma mid_prev_step:
  assumes mid: "mid_rep F (xs @ [a]) m ys ss" and touch: "blk_end F a = nd_address F m"
  shows "\<exists>F' ss'. fl_grow F a m \<bind> (\<lambda>F1. freelist_internal_remove F1 m) = Some F' \<and>
    mid_rep F' xs a ys ss' \<and> free_set F' (xs @ a # ys) = free_set F ((xs @ [a]) @ m # ys) \<and> fl_same F F' \<and>
    (\<forall>x \<in> set xs. sep F' x a) \<and> nd_address F' = nd_address F \<and> blk_end F' a = blk_end F m"
proof -
  note D = mid_repD [OF mid]
  have dist: "distinct (fl_node F # (xs @ [a]) @ m # ys)" by (rule D(12))
  then have am: "a \<noteq> m" "a \<notin> set xs" "a \<notin> set ys" "m \<notin> set xs" "m \<notin> set ys" "fl_node F \<noteq> a" by auto
  let ?sz = "(nd_size F)(a := nd_size F a + nd_size F m)"
  obtain n p l s where F': "fl_grow F a m = Some (F\<lparr>nd_size := ?sz\<rparr>)"
      "freelist_internal_remove (F\<lparr>nd_size := ?sz\<rparr>) m = Some (F\<lparr>nd_size := ?sz, nd_next := n, nd_prev := p,
         nd_larger := l, nd_smaller := s, fl_alloc := fl_alloc F - {m}\<rparr>)"
      "ring n p (fl_node F) ((xs @ [a]) @ ys)" "ring l s (fl_node F) (filter (\<lambda>x. x \<noteq> m) ss)"
    using mid_absorb [OF D(1) mid refl, of a] am(1) by auto
  define F2 where "F2 = F\<lparr>nd_size := ?sz, nd_next := n, nd_prev := p, nd_larger := l, nd_smaller := s,
    fl_alloc := fl_alloc F - {m}\<rparr>"
  have f: "nd_size F2 = ?sz" "nd_next F2 = n" "nd_prev F2 = p" "nd_larger F2 = l" "nd_smaller F2 = s"
      "fl_alloc F2 = fl_alloc F - {m}" "nd_address F2 = nd_address F" "fl_node F2 = fl_node F"
      "fl_address F2 = fl_address F" "fl_size F2 = fl_size F" "fl_brk F2 = fl_brk F"
    by (simp_all add: F2_def)
  have ends: "blk_end F2 a = blk_end F m" "\<And>x. x \<noteq> a \<Longrightarrow> blk_end F2 x = blk_end F x"
    using touch by (simp_all add: blk_end_def f)
  have seps: "x \<noteq> a \<Longrightarrow> sep F2 x y = sep F x y" for x y by (simp add: sep_def ends f)
  have sepa: "\<forall>x \<in> set xs. sep F x a" using D(9) by (auto simp: sorted_wrt_append)
  have "mid_rep F2 xs a ys (filter (\<lambda>x. x \<noteq> m) ss)"
    unfolding mid_rep_def f
  proof (intro conjI)
    show "fl_heap F2 (set (xs @ a # ys))"
    proof -
      have "fl_alloc F = insert (fl_node F) (set (xs @ [a] @ m # ys))" using D(3) by (simp add: fl_heap_def)
      moreover have "fl_node F \<noteq> m" using dist by auto
      ultimately have "fl_alloc F - {m} = insert (fl_node F) (set (xs @ a # ys))" using am(1,4,5) by auto
      then show ?thesis using D(3) unfolding fl_heap_def f by auto
    qed
    have "set ss - {m} = insert a (set (xs @ ys))" using D(4) by auto
    then have s: "set (filter (\<lambda>x. x \<noteq> m) ss) = insert a (set (xs @ ys))" by auto
    then show "set (filter (\<lambda>x. x \<noteq> m) ss) - {a} = set (xs @ ys)" using am by auto
    from s show "a \<notin> set (filter (\<lambda>x. x \<noteq> m) ss) \<longrightarrow> s a = NULL" by blast
    have "map ?sz (filter (\<lambda>q. q \<noteq> a) (filter (\<lambda>x. x \<noteq> m) ss)) =
        map (nd_size F) (filter (\<lambda>q. q \<noteq> a) (filter (\<lambda>x. x \<noteq> m) ss))" by simp
    then show "sorted (map ?sz (filter (\<lambda>q. q \<noteq> a) (filter (\<lambda>x. x \<noteq> m) ss)))"
      using sorted_map_filter [OF D(6)] by (simp only:)
    show "sorted_wrt (sep F2) (xs @ ys)"
    proof (rule sorted_wrt_mono_rel [of _ "sep F"])
      show "sorted_wrt (sep F) (xs @ ys)" using D(9) by (auto simp: sorted_wrt_append)
    next
      fix x y assume "x \<in> set (xs @ ys)" "sep F x y"
      then show "sep F2 x y" using seps [of x y] am by auto
    qed
    show "\<forall>q \<in> set (xs @ a # ys). in_range F2 q"
      using D(8) am(1-3) D(8) [of m] ends by (auto simp: in_range_def f)
    show "\<forall>x \<in> set xs. blk_end F2 x \<le> nd_address F a" using sepa am(2) by (metis ends(2) less_imp_le sep_def)
    show "\<forall>b \<in> set ys. blk_end F2 a \<le> nd_address F b" using D(11) ends(1) by simp
  qed (use F'(3,4) D(7) am in auto)
  moreover have "free_set F2 (xs @ a # ys) = free_set F ((xs @ [a]) @ m # ys)"
  proof -
    have "{nd_address F a ..< blk_end F a} \<union> {nd_address F m ..< blk_end F m} = {nd_address F a ..< blk_end F m}"
      unfolding touch by (rule interval_join) (use touch in \<open>simp_all add: blk_end_def\<close>)
    moreover have "free_set F2 xs = free_set F xs" "free_set F2 ys = free_set F ys"
      using am free_set_cong [OF f(7) ends(2)] by simp_all
    ultimately show ?thesis using ends(1) by (simp add: f Un_assoc [symmetric])
  qed
  moreover have "fl_same F F2" by (simp add: fl_same_def f)
  moreover have "\<forall>x \<in> set xs. sep F2 x a" using sepa seps am(2) by metis
  moreover have "fl_grow F a m \<bind> (\<lambda>F1. freelist_internal_remove F1 m) = Some F2"
    using F'(1,2) by (simp add: F2_def)
  ultimately show ?thesis using ends(1) f(7) by blast
qed

lemma mid_next_step:
  assumes mid: "mid_rep F xs m (b # ys) ss" and touch: "blk_end F m = nd_address F b"
  shows "\<exists>F' ss'. fl_grow F m b \<bind> (\<lambda>F1. freelist_internal_remove F1 b) = Some F' \<and>
    mid_rep F' xs m ys ss' \<and> free_set F' (xs @ m # ys) = free_set F (xs @ m # b # ys) \<and> fl_same F F' \<and>
    nd_next F' b = hd (ys @ [fl_node F]) \<and> nd_address F' = nd_address F \<and> blk_end F' m = blk_end F b \<and>
    (\<forall>y \<in> set ys. sep F' m y) \<and> (\<forall>x \<in> set xs. sep F' x m = sep F x m)"
proof -
  note D = mid_repD [OF mid]
  have dist: "distinct (fl_node F # xs @ m # b # ys)" by (rule D(12))
  then have am: "m \<noteq> b" "m \<notin> set xs" "m \<notin> set ys" "b \<notin> set xs" "b \<notin> set ys" "fl_node F \<noteq> m" "fl_node F \<noteq> b"
    by auto
  let ?sz = "(nd_size F)(m := nd_size F m + nd_size F b)"
  have r: "ring (nd_next F) (nd_prev F) (fl_node F) ((xs @ [m]) @ b # ys)" using D(1) by simp
  obtain n p l s where F': "fl_grow F m b = Some (F\<lparr>nd_size := ?sz\<rparr>)"
      "freelist_internal_remove (F\<lparr>nd_size := ?sz\<rparr>) b = Some (F\<lparr>nd_size := ?sz, nd_next := n, nd_prev := p,
         nd_larger := l, nd_smaller := s, fl_alloc := fl_alloc F - {b}\<rparr>)"
      "ring n p (fl_node F) ((xs @ [m]) @ ys)" "n b = hd (ys @ [fl_node F])"
      "ring l s (fl_node F) (filter (\<lambda>x. x \<noteq> b) ss)"
      "\<forall>z. z \<notin> insert (fl_node F) (set ss) \<longrightarrow> l z = nd_larger F z \<and> s z = nd_smaller F z"
    using mid_absorb [OF r mid, of m] am(1) by auto
  define F2 where "F2 = F\<lparr>nd_size := ?sz, nd_next := n, nd_prev := p, nd_larger := l, nd_smaller := s,
    fl_alloc := fl_alloc F - {b}\<rparr>"
  have f: "nd_size F2 = ?sz" "nd_next F2 = n" "nd_prev F2 = p" "nd_larger F2 = l" "nd_smaller F2 = s"
      "fl_alloc F2 = fl_alloc F - {b}" "nd_address F2 = nd_address F" "fl_node F2 = fl_node F"
      "fl_address F2 = fl_address F" "fl_size F2 = fl_size F" "fl_brk F2 = fl_brk F"
    by (simp_all add: F2_def)
  have ends: "blk_end F2 m = blk_end F b" "\<And>x. x \<noteq> m \<Longrightarrow> blk_end F2 x = blk_end F x"
    using touch by (simp_all add: blk_end_def f)
  have seps: "x \<noteq> m \<Longrightarrow> sep F2 x y = sep F x y" for x y by (simp add: sep_def ends f)
  have sepb: "\<forall>y \<in> set ys. sep F b y" using D(9) by (auto simp: sorted_wrt_append)
  have "mid_rep F2 xs m ys (filter (\<lambda>x. x \<noteq> b) ss)"
    unfolding mid_rep_def f
  proof (intro conjI)
    show "fl_heap F2 (set (xs @ m # ys))"
    proof -
      have "fl_alloc F = insert (fl_node F) (set (xs @ m # b # ys))" using D(3) by (simp add: fl_heap_def)
      then have "fl_alloc F - {b} = insert (fl_node F) (set (xs @ m # ys))" using am(1,4,5,7) by auto
      then show ?thesis using D(3) unfolding fl_heap_def f by auto
    qed
    have s: "set ss - {m} = insert b (set (xs @ ys))" using D(4) by auto
    have "set (filter (\<lambda>x. x \<noteq> b) ss) - {m} = (set ss - {m}) - {b}" by auto
    also have "\<dots> = set (xs @ ys)" unfolding s using am by auto
    finally show "set (filter (\<lambda>x. x \<noteq> b) ss) - {m} = set (xs @ ys)" .
    show "m \<notin> set (filter (\<lambda>x. x \<noteq> b) ss) \<longrightarrow> s m = NULL"
      using F'(6) D(5) am by auto
    have "map ?sz (filter (\<lambda>q. q \<noteq> m) (filter (\<lambda>x. x \<noteq> b) ss)) =
        map (nd_size F) (filter (\<lambda>x. x \<noteq> b) (filter (\<lambda>q. q \<noteq> m) ss))" by (simp add: conj_commute)
    then show "sorted (map ?sz (filter (\<lambda>q. q \<noteq> m) (filter (\<lambda>x. x \<noteq> b) ss)))"
      using sorted_map_filter [OF D(6)] by (simp only:)
    show "sorted_wrt (sep F2) (xs @ ys)"
    proof (rule sorted_wrt_mono_rel [of _ "sep F"])
      show "sorted_wrt (sep F) (xs @ ys)" using D(9) by (auto simp: sorted_wrt_append)
    next
      fix x y assume "x \<in> set (xs @ ys)" "sep F x y"
      then show "sep F2 x y" using seps [of x y] am by auto
    qed
    show "\<forall>q \<in> set (xs @ m # ys). in_range F2 q"
      using D(8) am(1-3) D(8) [of m] D(8) [of b] ends by (auto simp: in_range_def f)
    show "\<forall>x \<in> set xs. blk_end F2 x \<le> nd_address F m" using D(10) am(2) by (metis ends(2))
    show "\<forall>y \<in> set ys. blk_end F2 m \<le> nd_address F y"
      unfolding ends(1) using sepb by (auto simp: sep_def)
  qed (use F'(3,5) D(7) am in auto)
  moreover have "free_set F2 (xs @ m # ys) = free_set F (xs @ m # b # ys)"
  proof -
    have "{nd_address F m ..< blk_end F m} \<union> {nd_address F b ..< blk_end F b} = {nd_address F m ..< blk_end F b}"
      unfolding touch by (rule interval_join) (simp_all add: touch [symmetric] blk_end_def)
    moreover have "free_set F2 xs = free_set F xs" "free_set F2 ys = free_set F ys"
      using am free_set_cong [OF f(7) ends(2)] by simp_all
    ultimately show ?thesis using ends(1) by (simp add: f Un_assoc [symmetric])
  qed
  moreover have "fl_same F F2" by (simp add: fl_same_def f)
  moreover have "\<forall>y \<in> set ys. sep F2 m y" using sepb by (simp add: sep_def ends(1) f)
  moreover have "\<forall>x \<in> set xs. sep F2 x m = sep F x m" using seps am(2) by metis
  moreover have "fl_grow F m b \<bind> (\<lambda>F1. freelist_internal_remove F1 b) = Some F2"
    using F'(1,2) by (simp add: F2_def)
  ultimately show ?thesis using ends(1) f(2,7) F'(4) by blast
qed

text \<open>
  The two loops run at most once each: the free blocks around the new one do not touch each other, so
  after one merge the condition is false.
\<close>

lemma fl_touch_eq: "p \<in> fl_alloc F \<Longrightarrow> q \<in> fl_alloc F \<Longrightarrow> fl_touch F p q = Some (blk_end F p = nd_address F q)"
  by (simp add: fl_touch_def fl_rd_def blk_end_def)

lemma merge_prev_stop:
  assumes mid: "mid_rep F xs m ys ss" and gap: "\<forall>x \<in> set xs. sep F x m"
  shows "merge_prev F m (last (fl_node F # xs)) = Some (F, m)"
proof (cases xs rule: rev_cases)
  case (snoc zs a)
  note D = mid_repD [OF mid]
  have "blk_end F a \<noteq> nd_address F m" using gap snoc by (auto simp: sep_def)
  then show ?thesis
    using snoc D(12,14) fl_touch_eq [of a F m] by (simp add: merge_prev.simps [of F m a])
qed (simp add: merge_prev.simps)

lemma merge_prev_step:
  assumes mid: "mid_rep F xs m ys ss"
  shows "\<exists>F' m' xs' ss'. merge_prev F m (last (fl_node F # xs)) = Some (F', m') \<and> mid_rep F' xs' m' ys ss' \<and>
    free_set F' (xs' @ m' # ys) = free_set F (xs @ m # ys) \<and> fl_same F F' \<and> (\<forall>x \<in> set xs'. sep F' x m') \<and>
    nd_address F' = nd_address F \<and> blk_end F' m' = blk_end F m"
proof (cases "\<exists>zs a. xs = zs @ [a] \<and> blk_end F a = nd_address F m")
  case True
  then obtain zs a where xs: "xs = zs @ [a]" "blk_end F a = nd_address F m" by blast
  note D = mid_repD [OF mid]
  have a: "a \<noteq> fl_node F" "a \<in> fl_alloc F" "m \<in> fl_alloc F" using D(12,14) xs(1) by auto
  obtain F' ss' where F': "fl_grow F a m \<bind> (\<lambda>F1. freelist_internal_remove F1 m) = Some F'"
      "mid_rep F' zs a ys ss'" "free_set F' (zs @ a # ys) = free_set F (xs @ m # ys)" "fl_same F F'"
      "\<forall>x \<in> set zs. sep F' x a" "nd_address F' = nd_address F" "blk_end F' a = blk_end F m"
    using mid_prev_step [OF mid [unfolded xs(1)] xs(2)] xs(1) by auto
  have node: "fl_node F' = fl_node F" using F'(4) by (simp add: fl_same_def)
  have "fl_rd nd_prev F' a = Some (last (fl_node F' # zs))"
    using ring_node_prev [OF mid_repD(1) [OF F'(2)]] mid_repD(14) [OF F'(2)] by (simp add: fl_rd_def)
  then have "merge_prev F m a = Some (F', a)"
    using a xs(2) fl_touch_eq [OF a(2,3)] F'(1) merge_prev_stop [OF F'(2,5)]
    by (auto simp: merge_prev.simps [of F m a] split: bind_splits)
  then show ?thesis using F'(2-) xs(1) by auto
next
  case False
  note D = mid_repD [OF mid]
  have "merge_prev F m (last (fl_node F # xs)) = Some (F, m)"
  proof (cases xs rule: rev_cases)
    case (snoc zs a)
    then show ?thesis
      using False D(12,14) fl_touch_eq [of a F m] by (simp add: merge_prev.simps [of F m a])
  qed (simp add: merge_prev.simps)
  moreover have "\<forall>x \<in> set xs. sep F x m"
  proof (cases xs rule: rev_cases)
    case (snoc zs a)
    have last: "sep F a m" using False snoc D(10) [of a] by (fastforce simp: sep_def)
    moreover have "sep F x m" if "x \<in> set zs" for x
    proof -
      have "sep F x a" using D(9) that snoc by (auto simp: sorted_wrt_append)
      then show ?thesis
        using last D(8) [of a] snoc by (auto simp: sep_def in_range_def blk_end_def)
    qed
    ultimately show ?thesis using snoc by auto
  qed simp
  ultimately show ?thesis using mid by (auto simp: fl_same_def)
qed

lemma merge_next_stop:
  assumes mid: "mid_rep F xs m ys ss" and "\<not> (\<exists>b zs. ys = b # zs \<and> blk_end F m = nd_address F b)"
  shows "merge_next stale F m (hd (ys @ [fl_node F])) = Some F" "\<forall>y \<in> set ys. sep F m y"
proof -
  note D = mid_repD [OF mid]
  show "merge_next stale F m (hd (ys @ [fl_node F])) = Some F"
    using assms(2) D(12,14) fl_touch_eq [of m F "hd ys"]
    by (cases ys) (auto simp: merge_next.simps)
  show "\<forall>y \<in> set ys. sep F m y"
  proof (cases ys)
    case (Cons b zs)
    have first: "sep F m b" using assms(2) Cons D(11) [of b] by (fastforce simp: sep_def)
    moreover have "sep F m y" if "y \<in> set zs" for y
    proof -
      have "sep F b y" using D(9) that Cons by (auto simp: sorted_wrt_append)
      then show ?thesis using first D(8) [of b] Cons by (auto simp: sep_def in_range_def blk_end_def)
    qed
    ultimately show ?thesis using Cons by auto
  qed simp
qed

lemma merge_next_step:
  assumes mid: "mid_rep F xs m ys ss" and gap: "\<forall>x \<in> set xs. sep F x m"
  shows "\<exists>F' ys' ss'. merge_next True F m (hd (ys @ [fl_node F])) = Some F' \<and> mid_rep F' xs m ys' ss' \<and>
    free_set F' (xs @ m # ys') = free_set F (xs @ m # ys) \<and> fl_same F F' \<and>
    (\<forall>x \<in> set xs. sep F' x m) \<and> (\<forall>y \<in> set ys'. sep F' m y)"
proof (cases "\<exists>b zs. ys = b # zs \<and> blk_end F m = nd_address F b")
  case True
  then obtain b zs where ys: "ys = b # zs" "blk_end F m = nd_address F b" by blast
  note D = mid_repD [OF mid]
  have b: "b \<noteq> fl_node F" "b \<in> fl_alloc F" "m \<in> fl_alloc F" using D(12,14) ys(1) by auto
  obtain F' ss' where F': "fl_grow F m b \<bind> (\<lambda>F1. freelist_internal_remove F1 b) = Some F'"
      "mid_rep F' xs m zs ss'" "free_set F' (xs @ m # zs) = free_set F (xs @ m # ys)" "fl_same F F'"
      "nd_next F' b = hd (zs @ [fl_node F])" "\<forall>y \<in> set zs. sep F' m y" "\<forall>x \<in> set xs. sep F' x m = sep F x m"
    using mid_next_step [OF mid [unfolded ys(1)] ys(2)] ys(1) by auto
  have node: "fl_node F' = fl_node F" using F'(4) by (simp add: fl_same_def)
  have "merge_next True F' m (hd (zs @ [fl_node F'])) = Some F'"
    by (rule merge_next_stop(1) [OF F'(2)]) (use F'(6) in \<open>auto simp: sep_def\<close>)
  then have "merge_next True F m b = Some F'"
    using b ys(2) fl_touch_eq [OF b(3,2)] F'(1,5) node
    by (auto simp: merge_next.simps [of True F m b] fl_rd_freed_def split: bind_splits)
  then show ?thesis using F'(2-) ys(1) gap by auto
next
  case False
  then show ?thesis using merge_next_stop [OF mid False] mid gap by (auto simp: fl_same_def)
qed

lemma free_repD:
  assumes "free_rep F as ss"
  shows "ring (nd_next F) (nd_prev F) (fl_node F) as" "ring (nd_larger F) (nd_smaller F) (fl_node F) ss"
    "fl_heap F (set as)" "set ss = set as" "sorted (map (nd_size F) ss)" "nd_size F (fl_node F) = 0"
    "\<And>q. q \<in> set as \<Longrightarrow> in_range F q" "sorted_wrt (sep F) as" "distinct (fl_node F # as)"
    "set as \<subseteq> fl_alloc F" "fl_node F \<in> fl_alloc F" "distinct ss" "fl_node F \<notin> set ss"
  using assms by (auto simp: free_rep_def ring_def fl_heap_def)

lemma freelist_internal_merge_step:
  assumes mid: "mid_rep F xs m ys ss"
  shows "\<exists>F' as ss'. freelist_internal_merge True F m = Some F' \<and> free_rep F' as ss' \<and>
    free_set F' as = free_set F (xs @ m # ys) \<and> fl_same F F'"
proof -
  obtain F1 m1 xs1 ss1 where F1: "merge_prev F m (last (fl_node F # xs)) = Some (F1, m1)" "mid_rep F1 xs1 m1 ys ss1"
      "free_set F1 (xs1 @ m1 # ys) = free_set F (xs @ m # ys)" "fl_same F F1" "\<forall>x \<in> set xs1. sep F1 x m1"
    using merge_prev_step [OF mid] by blast
  obtain F2 ys2 ss2 where F2: "merge_next True F1 m1 (hd (ys @ [fl_node F1])) = Some F2" "mid_rep F2 xs1 m1 ys2 ss2"
      "free_set F2 (xs1 @ m1 # ys2) = free_set F1 (xs1 @ m1 # ys)" "fl_same F1 F2"
      "\<forall>x \<in> set xs1. sep F2 x m1" "\<forall>y \<in> set ys2. sep F2 m1 y"
    using merge_next_step [OF F1(2,5)] by blast
  obtain l s ss3 where F3: "freelist_internal_sort F2 m1 = Some (F2\<lparr>nd_larger := l, nd_smaller := s\<rparr>)"
      "free_rep (F2\<lparr>nd_larger := l, nd_smaller := s\<rparr>) (xs1 @ m1 # ys2) ss3"
    using freelist_internal_sort_step [OF F2(2,5,6)] by blast
  have "freelist_internal_merge True F m = Some (F2\<lparr>nd_larger := l, nd_smaller := s\<rparr>)"
    using F1(1) F2(1) F3(1) ring_node_prev [OF mid_repD(1) [OF mid]] mid_repD(14) [OF mid]
      ring_node_next [OF mid_repD(1) [OF F1(2)]] mid_repD(14) [OF F1(2)]
    by (simp add: freelist_internal_merge_def fl_rd_def)
  moreover have "free_set (F2\<lparr>nd_larger := l, nd_smaller := s\<rparr>) zs = free_set F2 zs" for zs
    by (simp add: free_set_def blk_end_def)
  ultimately show ?thesis
    using F1(3,4) F2(3,4) F3(2) by (auto simp: fl_same_def)
qed

section \<open>The contract of the free list\<close>

lemma set_insert_mid: "set (xs @ m # ys) = insert m (set (xs @ ys))"
  by auto

lemma interval_cut:
  fixes a b c :: int
  assumes "{a ..< b} \<inter> X = {}" "{a ..< b} \<inter> Y = {}" "a \<le> c" "c \<le> b"
  shows "X \<union> ({a ..< b} \<union> Y) - {a ..< c} = X \<union> ({c ..< b} \<union> Y)"
proof -
  have "{a ..< c} \<subseteq> {a ..< b}" "{a ..< b} - {a ..< c} = {c ..< b}" using assms(3,4) by auto
  then show ?thesis using assms(1,2) by blast
qed

lemma sep_disjoint:
  assumes "sorted_wrt (sep F) (xs @ m # ys)" "\<And>q. q \<in> set (xs @ m # ys) \<Longrightarrow> in_range F q"
  shows "{nd_address F m ..< blk_end F m} \<inter> free_set F xs = {}" "{nd_address F m ..< blk_end F m} \<inter> free_set F ys = {}"
  using assms by (auto simp: sorted_wrt_append sep_def free_set_def)

lemma freelist_alloc_step:
  assumes rep: "free_rep F (xs @ m # ys) ss" and n: "0 < n" "n \<le> nd_size F m"
  shows "\<exists>F' as' ss'. freelist_alloc F m n = Some F' \<and> free_rep F' as' ss' \<and> fl_same F F' \<and>
    free_set F' as' = free_set F (xs @ m # ys) - {nd_address F m ..< nd_address F m + int n}"
proof -
  note D = free_repD [OF rep]
  have m: "m \<in> fl_alloc F" "m \<noteq> fl_node F" "m \<notin> set xs" "m \<notin> set ys" using D(9,10) by auto
  note disj = sep_disjoint [OF D(8) D(7)]
  show ?thesis
  proof (cases "nd_size F m > n")
    case True
    let ?a = "nd_address F m + int n" and ?F = "F\<lparr>nd_address := (nd_address F)(m := nd_address F m + int n),
      nd_size := (nd_size F)(m := nd_size F m - n)\<rparr>"
    have f: "blk_end ?F m = blk_end F m" "x \<noteq> m \<Longrightarrow> blk_end ?F x = blk_end F x" "x \<noteq> m \<Longrightarrow> nd_address ?F x = nd_address F x" for x
      using True by (simp_all add: blk_end_def)
    have others: "set ss - {m} = set (xs @ ys)" using D(4) m by auto
    have sw: "sorted_wrt (sep F) (xs @ ys)" "\<forall>x \<in> set xs. sep F x m" "\<forall>y \<in> set ys. sep F m y"
      using D(8) by (auto simp: sorted_wrt_append)
    have gap: "\<forall>x \<in> set xs. sep ?F x m" "\<forall>y \<in> set ys. sep ?F m y"
      using sw(2,3) m f True by (auto simp: sep_def blk_end_def)
    have mid: "mid_rep ?F xs m ys ss"
      unfolding mid_rep_def
    proof (intro conjI)
      show "sorted (map (nd_size ?F) (filter (\<lambda>q. q \<noteq> m) ss))"
      proof -
        have "map (nd_size ?F) (filter (\<lambda>q. q \<noteq> m) ss) = map (nd_size F) (filter (\<lambda>q. q \<noteq> m) ss)" by simp
        then show ?thesis using sorted_map_filter [OF D(5)] by (simp only:)
      qed
      show "sorted_wrt (sep ?F) (xs @ ys)"
      proof (rule sorted_wrt_mono_rel [OF _ sw(1)])
        fix x y assume "x \<in> set (xs @ ys)" "y \<in> set (xs @ ys)" "sep F x y"
        then show "sep ?F x y" using m by (auto simp: sep_def blk_end_def)
      qed
      show "\<forall>q \<in> set (xs @ m # ys). in_range ?F q"
      proof -
        have "in_range F m" using D(7) by simp
        then have "in_range ?F m" using True by (auto simp: in_range_def blk_end_def)
        moreover have "in_range ?F q" if "q \<in> set xs \<or> q \<in> set ys" for q
          using that D(7) [of q] m by (auto simp: in_range_def blk_end_def)
        ultimately show ?thesis by auto
      qed
      show "\<forall>a \<in> set xs. blk_end ?F a \<le> nd_address ?F m" "\<forall>b \<in> set ys. blk_end ?F m \<le> nd_address ?F b"
        using gap by (auto simp: sep_def)
      show "set ss - {m} = set (xs @ ys)" by (rule others)
      show "m \<notin> set ss \<longrightarrow> nd_smaller ?F m = NULL" using D(4) by simp
      show "fl_heap ?F (set (xs @ m # ys))" using D(3) by (simp add: fl_heap_def)
    qed (use D(1,2,6) m in simp_all)
    obtain l s ss' where srt: "freelist_internal_sort ?F m = Some (?F\<lparr>nd_larger := l, nd_smaller := s\<rparr>)"
        "free_rep (?F\<lparr>nd_larger := l, nd_smaller := s\<rparr>) (xs @ m # ys) ss'"
      using freelist_internal_sort_step [OF mid gap] by blast
    have "freelist_alloc F m n = Some (?F\<lparr>nd_larger := l, nd_smaller := s\<rparr>)"
      using m(1) True srt(1) by (simp add: freelist_alloc_def fl_rd_def fl_wr_def)
    moreover have "free_set (?F\<lparr>nd_larger := l, nd_smaller := s\<rparr>) (xs @ m # ys) =
        free_set F (xs @ m # ys) - {nd_address F m ..< nd_address F m + int n}"
    proof -
      have "free_set (?F\<lparr>nd_larger := l, nd_smaller := s\<rparr>) zs = free_set F zs" if "m \<notin> set zs" for zs
        unfolding free_set_def blk_end_def using that by (intro SUP_cong) auto
      moreover have "nd_address F m \<le> nd_address F m + int n" "nd_address F m + int n \<le> blk_end F m"
        using True by (simp_all add: blk_end_def)
      moreover have "blk_end (?F\<lparr>nd_larger := l, nd_smaller := s\<rparr>) m = blk_end F m"
        using True by (simp add: blk_end_def)
      ultimately show ?thesis
        using m(3,4) interval_cut [OF disj] by simp
    qed
    moreover have "fl_same F (?F\<lparr>nd_larger := l, nd_smaller := s\<rparr>)" using m(2) by (simp add: fl_same_def)
    ultimately show ?thesis using srt(2) by blast
  next
    case False
    then have eq: "nd_size F m = n" using n(2) by simp
    have sub: "set ss \<subseteq> set (xs @ m # ys)" using D(4) by simp
    obtain nx p l s where rm: "freelist_internal_remove F m = Some (F\<lparr>nd_next := nx, nd_prev := p, nd_larger := l,
        nd_smaller := s, fl_alloc := fl_alloc F - {m}\<rparr>)" "ring nx p (fl_node F) (xs @ ys)"
        "ring l s (fl_node F) (filter (\<lambda>x. x \<noteq> m) ss)"
      using fl_remove [OF D(1,2,3) sub] D(4) by auto
    let ?F = "F\<lparr>nd_next := nx, nd_prev := p, nd_larger := l, nd_smaller := s, fl_alloc := fl_alloc F - {m}\<rparr>"
    have "fl_alloc F - {m} = insert (fl_node F) (set (xs @ ys))"
      using D(3) m by (auto simp: fl_heap_def)
    then have "fl_heap ?F (set (xs @ ys))" using D(3) by (auto simp: fl_heap_def)
    moreover have "set (filter (\<lambda>x. x \<noteq> m) ss) = set (xs @ ys)" using D(4) m by auto
    moreover have "sorted_wrt (sep F) (xs @ ys)" using D(8) by (auto simp: sorted_wrt_append)
    ultimately have "free_rep ?F (xs @ ys) (filter (\<lambda>x. x \<noteq> m) ss)"
      using rm(2,3) sorted_map_filter [OF D(5)] D(6,7) unfolding free_rep_def
      by (simp add: in_range_def blk_end_def sep_def [abs_def])
    moreover have "freelist_alloc F m n = Some ?F"
      using m(1) eq rm(1) by (simp add: freelist_alloc_def fl_rd_def)
    moreover have "free_set ?F (xs @ ys) = free_set F (xs @ m # ys) - {nd_address F m ..< nd_address F m + int n}"
    proof -
      have "free_set ?F zs = free_set F zs" for zs by (simp add: free_set_def blk_end_def)
      then show ?thesis using disj eq by (auto simp: blk_end_def)
    qed
    ultimately show ?thesis by (auto simp: fl_same_def)
  qed
qed

lemma before_split:
  assumes "sorted_wrt (sep F) as" "\<And>q. q \<in> set as \<Longrightarrow> in_range F q" "0 < n" "{a ..< a + int n} \<inter> free_set F as = {}"
  shows "x \<in> set (takeWhile (\<lambda>q. nd_address F q < a) as) \<Longrightarrow> blk_end F x \<le> a"
    "y \<in> set (dropWhile (\<lambda>q. nd_address F q < a) as) \<Longrightarrow> a + int n \<le> nd_address F y"
proof -
  assume "x \<in> set (takeWhile (\<lambda>q. nd_address F q < a) as)"
  then have x: "x \<in> set as" "nd_address F x < a" by (auto dest: set_takeWhileD)
  show "blk_end F x \<le> a"
  proof (rule ccontr)
    assume "\<not> blk_end F x \<le> a"
    then have "a \<in> free_set F as" using x by (auto simp: free_set_def intro!: bexI [of _ x])
    moreover have "a \<in> {a ..< a + int n}" using assms(3) by simp
    ultimately show False using assms(4) by blast
  qed
next
  assume y: "y \<in> set (dropWhile (\<lambda>q. nd_address F q < a) as)"
  then have yas: "y \<in> set as" by (auto dest: set_dropWhileD)
  have ge: "a \<le> nd_address F y"
  proof (cases "dropWhile (\<lambda>q. nd_address F q < a) as")
    case (Cons b zs)
    then have b: "a \<le> nd_address F b"
      using hd_dropWhile [of "\<lambda>q. nd_address F q < a" as] by simp
    have "sorted_wrt (sep F) (b # zs)"
      using assms(1) Cons by (metis sorted_wrt_append takeWhile_dropWhile_id)
    then have "y = b \<or> sep F b y" using y Cons by auto
    moreover have "0 < nd_size F b"
      using assms(2) [of b] Cons by (metis in_range_def list.set_intros(1) set_dropWhileD)
    ultimately show ?thesis using b by (auto simp: sep_def blk_end_def)
  next
    case Nil
    then show ?thesis using y by (simp only: list.set empty_iff)
  qed
  show "a + int n \<le> nd_address F y"
  proof (rule ccontr)
    assume "\<not> a + int n \<le> nd_address F y"
    then have "nd_address F y \<in> {a ..< a + int n} \<inter> free_set F as"
      using ge yas assms(2) [OF yas] by (auto simp: free_set_def in_range_def blk_end_def)
    then show False using assms(4) by simp
  qed
qed

lemma freelist_free_prepare:
  assumes rep: "free_rep F as ss" and n: "0 < n" and range: "fl_address F \<le> a" "a + int n \<le> fl_address F + int (fl_size F)"
    and disj: "{a ..< a + int n} \<inter> free_set F as = {}"
  shows "\<exists>F1 xs ys. freelist_free stale F a n = freelist_internal_merge stale F1 (fl_brk F) \<and>
    as = xs @ ys \<and> mid_rep F1 xs (fl_brk F) ys ss \<and> fl_same F F1 \<and>
    blk_end F1 (fl_brk F) = a + int n \<and> (\<forall>q \<in> set as. nd_address F1 q = nd_address F q) \<and>
    free_set F1 (xs @ fl_brk F # ys) = free_set F as \<union> {a ..< a + int n}"
proof -
  note D = free_repD [OF rep]
  let ?x = "fl_brk F" and ?h = "fl_node F" and ?Q = "\<lambda>q. nd_address F q < a"
  let ?xs = "takeWhile ?Q as" and ?ys = "dropWhile ?Q as"
  have x: "?x \<notin> set as" "?x \<noteq> ?h" "?x \<notin> set ss" using D(3,4) by (auto simp: fl_heap_def)
  let ?F0 = "F\<lparr>fl_alloc := insert ?x (fl_alloc F), fl_brk := Suc ?x, nd_address := (nd_address F)(?x := a),
    nd_size := (nd_size F)(?x := n), nd_smaller := (nd_smaller F)(?x := NULL), nd_larger := (nd_larger F)(?x := NULL)\<rparr>"
  have seek: "fl_seek nd_next (before_address a) ?F0 ?h = Some (last (?h # ?xs))"
  proof (rule fl_seek_ring [where p = "nd_prev F"])
    show "seg (nd_next ?F0) (nd_prev F) ?h as (fl_node ?F0)" using D(1) by (simp add: ring_def)
    show "before_address a ?F0 q = Some (?Q q)" if "q \<in> set as" for q
      using that D(10) x by (auto simp: before_address_def fl_rd_def)
  qed (use D(9,10,11) in auto)
  have r0: "ring (nd_next ?F0) (nd_prev ?F0) ?h (?xs @ ?ys)" using D(1) by simp
  have xy: "?x \<notin> set ?xs" "?x \<notin> set ?ys" using x(1) by (auto dest: set_takeWhileD set_dropWhileD)
  have sub0: "set (?xs @ ?ys) \<subseteq> fl_alloc ?F0" using D(10) by auto
  obtain nx p where ins: "freelist_internal_insert ?F0 (last (?h # ?xs)) ?x = Some (?F0\<lparr>nd_next := nx, nd_prev := p\<rparr>)"
      "ring nx p ?h (?xs @ ?x # ?ys)"
    using freelist_internal_insert_step [OF r0 sub0 _ _ x(2) xy] D(11) by auto
  define F1 where "F1 = ?F0\<lparr>nd_next := nx, nd_prev := p\<rparr>"
  have f: "nd_address F1 = (nd_address F)(?x := a)" "nd_size F1 = (nd_size F)(?x := n)" "nd_next F1 = nx" "nd_prev F1 = p"
      "nd_smaller F1 = (nd_smaller F)(?x := NULL)" "nd_larger F1 = (nd_larger F)(?x := NULL)" "fl_node F1 = ?h"
      "fl_alloc F1 = insert ?x (fl_alloc F)" "fl_brk F1 = Suc ?x" "fl_address F1 = fl_address F" "fl_size F1 = fl_size F"
    by (simp_all add: F1_def)
  have run: "freelist_free stale F a n = freelist_internal_merge stale F1 ?x"
    using seek ins(1) by (simp add: freelist_free_def fl_malloc_def fl_wr_def F1_def)
  have ends: "blk_end F1 ?x = a + int n" "q \<noteq> ?x \<Longrightarrow> blk_end F1 q = blk_end F q" for q by (simp_all add: blk_end_def f)
  have mem: "q \<in> set ?xs \<or> q \<in> set ?ys \<Longrightarrow> q \<in> set as" for q by (auto dest: set_takeWhileD set_dropWhileD)
  note split = before_split [OF D(8) D(7) n disj]
  have "mid_rep F1 ?xs ?x ?ys ss"
    unfolding mid_rep_def f
  proof (intro conjI)
    show "ring nx p ?h (?xs @ ?x # ?ys)" by (rule ins(2))
    show "ring ((nd_larger F)(?x := NULL)) ((nd_smaller F)(?x := NULL)) ?h ss"
      using D(2) x(2,3) by (simp add: ring_def)
    have al: "set (?xs @ ?x # ?ys) = insert ?x (set as)" unfolding set_insert_mid takeWhile_dropWhile_id ..
    have "insert ?x (fl_alloc F) = insert ?h (insert ?x (set as))" using D(3) by (auto simp: fl_heap_def)
    moreover have "\<forall>q \<in> insert ?x (fl_alloc F). NULL < q \<and> q < Suc ?x"
      using D(3) by (fastforce simp: fl_heap_def)
    ultimately show "fl_heap F1 (set (?xs @ ?x # ?ys))"
      unfolding fl_heap_def f al by blast
    show "set ss - {?x} = set (?xs @ ?ys)" using D(4) x(3) by simp
    have "filter (\<lambda>q. q \<noteq> ?x) ss = ss" "map ((nd_size F)(?x := n)) ss = map (nd_size F) ss" using x(3) by auto
    then show "sorted (map ((nd_size F)(?x := n)) (filter (\<lambda>q. q \<noteq> ?x) ss))" using D(5) by (simp only:)
    have "in_range F1 q" if "q \<in> set as" for q
      using D(7) [OF that] that x(1) ends(2) [of q] by (auto simp: in_range_def f)
    moreover have "in_range F1 ?x" using n range ends(1) by (simp add: in_range_def f)
    ultimately show "\<forall>q \<in> set (?xs @ ?x # ?ys). in_range F1 q" unfolding al by blast
    show "sorted_wrt (sep F1) (?xs @ ?ys)"
    proof (rule sorted_wrt_mono_rel [of _ "sep F"])
      fix q r assume "q \<in> set (?xs @ ?ys)" "r \<in> set (?xs @ ?ys)" "sep F q r"
      moreover from this have "q \<noteq> ?x" "r \<noteq> ?x" using x(1) by auto
      ultimately show "sep F1 q r" using ends(2) [of q] by (simp add: sep_def f)
    qed (use D(8) in simp)
    show "\<forall>q \<in> set ?xs. blk_end F1 q \<le> ((nd_address F)(?x := a)) ?x"
      using split(1) ends(2) xy(1) by (metis fun_upd_same)
    show "\<forall>q \<in> set ?ys. blk_end F1 ?x \<le> ((nd_address F)(?x := a)) q"
      using split(2) ends(1) xy(2) by (metis fun_upd_other)
  qed (use D(6) x in simp_all)
  moreover have "free_set F1 (?xs @ ?x # ?ys) = free_set F as \<union> {a ..< a + int n}"
  proof -
    have "free_set F1 as = free_set F as"
      unfolding free_set_def using x(1) ends(2) by (intro SUP_cong) (auto simp: f)
    moreover have "free_set F1 as = free_set F1 ?xs \<union> free_set F1 ?ys"
      by (metis free_set_simps(3) takeWhile_dropWhile_id)
    ultimately show ?thesis using ends(1) by (auto simp: f)
  qed
  moreover have "fl_same F F1" using x(2) by (simp add: fl_same_def f)
  moreover have "\<forall>q \<in> set as. nd_address F1 q = nd_address F q" using x(1) by (auto simp: f)
  moreover have "as = ?xs @ ?ys" by simp
  ultimately show ?thesis using run ends(1) by blast
qed

lemma freelist_free_step:
  assumes rep: "free_rep F as ss" and n: "0 < n" and range: "fl_address F \<le> a" "a + int n \<le> fl_address F + int (fl_size F)"
    and disj: "{a ..< a + int n} \<inter> free_set F as = {}"
  shows "\<exists>F' as' ss'. freelist_free True F a n = Some F' \<and> free_rep F' as' ss' \<and> fl_same F F' \<and>
    free_set F' as' = free_set F as \<union> {a ..< a + int n}"
proof -
  obtain F1 xs ys where F1: "freelist_free True F a n = freelist_internal_merge True F1 (fl_brk F)"
      "mid_rep F1 xs (fl_brk F) ys ss" "fl_same F F1"
      "free_set F1 (xs @ fl_brk F # ys) = free_set F as \<union> {a ..< a + int n}"
    using freelist_free_prepare [OF rep n range disj, of True] by blast
  obtain F' as' ss' where F': "freelist_internal_merge True F1 (fl_brk F) = Some F'" "free_rep F' as' ss'"
      "free_set F' as' = free_set F1 (xs @ fl_brk F # ys)" "fl_same F1 F'"
    using freelist_internal_merge_step [OF F1(2)] by blast
  have "fl_same F F'" using F1(3) F'(4) by (simp add: fl_same_def)
  then show ?thesis using F1(1,4) F'(1-3) by auto
qed

text \<open>
  With the C semantics, a free that has to merge with the following block is undefined: the merged node
  is freed and then read.
\<close>

lemma merge_next_strict:
  assumes mid: "mid_rep F xs m (b # zs) ss" and touch: "blk_end F m = nd_address F b"
  shows "merge_next False F m b = None"
proof -
  note D = mid_repD [OF mid]
  have b: "b \<noteq> fl_node F" "b \<in> fl_alloc F" "m \<in> fl_alloc F" "b \<noteq> m" using D(12,14) by auto
  obtain F' ss' where F': "fl_grow F m b \<bind> (\<lambda>F1. freelist_internal_remove F1 b) = Some F'"
      "mid_rep F' xs m zs ss'" "fl_same F F'"
    using mid_next_step [OF mid touch] by blast
  have "fl_alloc F' = insert (fl_node F') (set (xs @ m # zs))" using mid_repD(3) [OF F'(2)] by (simp add: fl_heap_def)
  then have "b \<notin> fl_alloc F'" using D(12) F'(3) by (auto simp: fl_same_def)
  then show ?thesis
    using b touch fl_touch_eq [OF b(3,2)] F'(1)
    by (auto simp: merge_next.simps [of False F m b] fl_rd_freed_def fl_rd_def split: bind_splits)
qed

lemma freelist_free_strict:
  assumes rep: "free_rep F as ss" and n: "0 < n" and range: "fl_address F \<le> a" "a + int n \<le> fl_address F + int (fl_size F)"
    and disj: "{a ..< a + int n} \<inter> free_set F as = {}" and b: "b \<in> set as" "nd_address F b = a + int n"
  shows "freelist_free False F a n = None"
proof -
  let ?x = "fl_brk F"
  obtain F1 xs ys where F1: "freelist_free False F a n = freelist_internal_merge False F1 ?x" "as = xs @ ys"
      "mid_rep F1 xs ?x ys ss" "fl_same F F1" "blk_end F1 ?x = a + int n" "\<forall>q \<in> set as. nd_address F1 q = nd_address F q"
    using freelist_free_prepare [OF rep n range disj, of False] by blast
  obtain F2 m xs2 ss2 where F2: "merge_prev F1 ?x (last (fl_node F1 # xs)) = Some (F2, m)" "mid_rep F2 xs2 m ys ss2"
      "nd_address F2 = nd_address F1" "blk_end F2 m = blk_end F1 ?x"
    using merge_prev_step [OF F1(3)] by blast
  have b2: "nd_address F2 b = a + int n" using F1(6) F2(3) b by simp
  have fin: "blk_end F2 m = a + int n" using F1(5) F2(4) by simp
  note D = mid_repD [OF F2(2)] and D1 = mid_repD [OF F1(3)]
  have "\<exists>c zs. ys = c # zs \<and> blk_end F2 m = nd_address F2 c"
  proof (rule ccontr)
    assume "\<not> ?thesis"
    note stop = merge_next_stop(2) [OF F2(2) this]
    show False
    proof (cases "b \<in> set ys")
      case True
      then show False using stop fin b2 by (auto simp: sep_def)
    next
      case False
      then have "b \<in> set xs" using b(1) F1(2) by simp
      then have "blk_end F1 b \<le> nd_address F1 ?x" using D1(10) by simp
      moreover have "0 < nd_size F1 b" "0 < nd_size F1 ?x" using D1(8) \<open>b \<in> set xs\<close> by (auto simp: in_range_def)
      moreover have "nd_address F1 b = a + int n" using F1(6) b by simp
      ultimately show False using F1(5) by (auto simp: blk_end_def)
    qed
  qed
  then obtain c zs where c: "ys = c # zs" "blk_end F2 m = nd_address F2 c" by blast
  have "merge_next False F2 m c = None" using merge_next_strict [OF F2(2) [unfolded c(1)] c(2)] .
  then show ?thesis
    using F1(1) F2(1) ring_node_prev [OF D1(1)] D1(14) ring_node_next [OF D(1)] D(14) c(1)
    by (simp add: freelist_internal_merge_def fl_rd_def)
qed

lemma freelist_create_rep:
  "0 < n \<Longrightarrow> free_rep (freelist_create a n) [2] [2] \<and> free_set (freelist_create a n) [2] = {a ..< a + int n}"
  by (auto simp: free_rep_def freelist_create_def ring_def fl_heap_def in_range_def blk_end_def)

lemma freelist_destroy_loop_ring:
  assumes "seg (nd_next F) p a xs (fl_node F)" "distinct xs" "fl_node F \<notin> set xs" "set xs \<subseteq> fl_alloc F"
  shows "freelist_destroy_loop F (hd (xs @ [fl_node F])) = Some (F\<lparr>fl_alloc := fl_alloc F - set xs\<rparr>)"
  using assms
proof (induction xs arbitrary: a F)
  case (Cons x xs)
  let ?F = "F\<lparr>fl_alloc := fl_alloc F - {x}\<rparr>"
  have "freelist_destroy_loop ?F (hd (xs @ [fl_node ?F])) = Some (?F\<lparr>fl_alloc := fl_alloc ?F - set xs\<rparr>)"
    using Cons.prems by (intro Cons.IH [of _ x]) auto
  moreover have "nd_next F x = hd (xs @ [fl_node F])" using Cons.prems by (auto dest: seg_next)
  ultimately show ?case
    using Cons.prems
    by (simp add: freelist_destroy_loop.simps [of F x] fl_rd_def fl_dispose_def) (simp add: Diff_insert2 [symmetric])
qed (simp add: freelist_destroy_loop.simps)

lemma freelist_destroy_no_leak:
  assumes "free_rep F as ss"
  shows "\<exists>F'. freelist_destroy F = Some F' \<and> fl_alloc F' = {}"
proof -
  note D = free_repD [OF assms]
  have "freelist_destroy_loop F (hd (as @ [fl_node F])) = Some (F\<lparr>fl_alloc := fl_alloc F - set as\<rparr>)"
    using freelist_destroy_loop_ring [of F "nd_prev F" "fl_node F" as] D(1,9,10) by (auto simp: ring_def)
  moreover have "fl_alloc F - set as = {fl_node F}" using D(3,9) by (auto simp: fl_heap_def)
  ultimately show ?thesis
    using ring_head_next [OF D(1)] D(11) by (auto simp: freelist_destroy_def fl_rd_def fl_dispose_def)
qed

end
