(* ===== verification/Policy.thy ===== *)
theory Policy
  imports Freelist
begin

text \<open>
  The three allocation policies of \<open>CS2303 Operating System/Project 7/policy.c\<close>, and the contract the
  allocator relies on as a locale that each of them interprets.  A result of \<open>-1\<close> is a failed search.
\<close>

section \<open>The policies\<close>

text \<open>The search loop of \<open>first_fit\<close> and \<open>best_fit\<close>, along the field \<open>fld\<close>.\<close>

partial_function (option) fit_loop ::
  "(freelist \<Rightarrow> ptr \<Rightarrow> ptr) \<Rightarrow> freelist \<Rightarrow> nat \<Rightarrow> ptr \<Rightarrow> (freelist \<times> int) option" where
  "fit_loop fld F n node =
     (if node \<noteq> fl_node F then do {
        s \<leftarrow> fl_rd nd_size F node;
        (if s \<ge> n then do {
           address \<leftarrow> fl_rd nd_address F node;
           F' \<leftarrow> freelist_alloc F node n;
           Some (F', address)
         }
         else do { nxt \<leftarrow> fl_rd fld F node; fit_loop fld F n nxt })
      }
      else Some (F, -1))"

declare fit_loop.simps [code]

definition first_fit :: "freelist \<Rightarrow> nat \<Rightarrow> (freelist \<times> int) option" where
  "first_fit F n = do { node \<leftarrow> fl_rd nd_next F (fl_node F); fit_loop nd_next F n node }"

definition best_fit :: "freelist \<Rightarrow> nat \<Rightarrow> (freelist \<times> int) option" where
  "best_fit F n = do { node \<leftarrow> fl_rd nd_larger F (fl_node F); fit_loop nd_larger F n node }"

definition worst_fit :: "freelist \<Rightarrow> nat \<Rightarrow> (freelist \<times> int) option" where
  "worst_fit F n = do {
     node \<leftarrow> fl_rd nd_smaller F (fl_node F);
     s \<leftarrow> fl_rd nd_size F node;
     (if s \<ge> n then do {
        address \<leftarrow> fl_rd nd_address F node;
        F' \<leftarrow> freelist_alloc F node n;
        Some (F', address)
      }
      else Some (F, -1))
   }"

section \<open>What each policy chooses\<close>

definition alloc_from :: "freelist \<Rightarrow> nat \<Rightarrow> ptr option \<Rightarrow> (freelist \<times> int) option" where
  "alloc_from F n r = (case r of
       None \<Rightarrow> Some (F, -1)
     | Some q \<Rightarrow> map_option (\<lambda>F'. (F', nd_address F q)) (freelist_alloc F q n))"

lemma fit_loop_find:
  assumes "seg (fld F) p a qs (fl_node F)" "fl_node F \<notin> set qs" "set qs \<subseteq> fl_alloc F"
  shows "fit_loop fld F n (hd (qs @ [fl_node F])) = alloc_from F n (List.find (\<lambda>q. n \<le> nd_size F q) qs)"
  using assms
proof (induction qs arbitrary: a)
  case (Cons q qs)
  have q: "q \<noteq> fl_node F" "q \<in> fl_alloc F" using Cons.prems by auto
  have "fld F q = hd (qs @ [fl_node F])" using Cons.prems by (auto dest: seg_next)
  moreover have "fit_loop fld F n (hd (qs @ [fl_node F])) = alloc_from F n (List.find (\<lambda>q. n \<le> nd_size F q) qs)"
    using Cons.prems by (intro Cons.IH [of q]) auto
  ultimately show ?case
    using q by (cases "freelist_alloc F q n") (auto simp: fit_loop.simps [of fld F n q] fl_rd_def alloc_from_def)
qed (simp add: fit_loop.simps alloc_from_def)

lemma first_fit_choice:
  assumes "free_rep F as ss"
  shows "first_fit F n = alloc_from F n (List.find (\<lambda>q. n \<le> nd_size F q) as)"
  using fit_loop_find [of nd_next F "nd_prev F" "fl_node F" as] free_repD(1,10,11) [OF assms]
    ring_head_next [OF free_repD(1) [OF assms]]
  by (simp add: first_fit_def ring_def fl_rd_def)

lemma best_fit_choice:
  assumes "free_rep F as ss"
  shows "best_fit F n = alloc_from F n (List.find (\<lambda>q. n \<le> nd_size F q) ss)"
  using fit_loop_find [of nd_larger F "nd_smaller F" "fl_node F" ss] free_repD(2,4,10,11) [OF assms]
    ring_head_next [OF free_repD(2) [OF assms]]
  by (simp add: best_fit_def ring_def fl_rd_def)

lemma worst_fit_choice:
  assumes "free_rep F as ss" and "0 < n"
  shows "worst_fit F n = alloc_from F n (if ss \<noteq> [] \<and> n \<le> nd_size F (last ss) then Some (last ss) else None)"
proof -
  note D = free_repD [OF assms(1)]
  have head: "nd_smaller F (fl_node F) = last (fl_node F # ss)" using ring_head_prev [OF D(2)] .
  show ?thesis
  proof (cases "ss = []")
    case True
    then show ?thesis using head D(6,11) assms(2) by (simp add: worst_fit_def fl_rd_def alloc_from_def)
  next
    case False
    then have "last ss \<in> fl_alloc F" using D(4,10) last_in_set [of ss] by auto
    then show ?thesis
      using head D(11) False
      by (cases "freelist_alloc F (last ss) n") (auto simp: worst_fit_def fl_rd_def alloc_from_def)
  qed
qed

section \<open>The contract of a policy\<close>

locale fit_policy =
  fixes policy :: "freelist \<Rightarrow> nat \<Rightarrow> (freelist \<times> int) option"
  assumes fits: "free_rep F as ss \<Longrightarrow> 0 < n \<Longrightarrow> q \<in> set as \<Longrightarrow> n \<le> nd_size F q \<Longrightarrow>
      \<exists>r \<in> set as. n \<le> nd_size F r \<and> policy F n = alloc_from F n (Some r)"
    and no_fit: "free_rep F as ss \<Longrightarrow> 0 < n \<Longrightarrow> \<forall>q \<in> set as. nd_size F q < n \<Longrightarrow> policy F n = Some (F, -1)"
begin

text \<open>
  What the allocator needs: the search fails exactly when no block is large enough, and leaves the
  list alone then; otherwise the returned interval was free and is the only thing taken.
\<close>

lemma policy_contract:
  assumes rep: "free_rep F as ss" and n: "0 < n"
  shows "\<exists>F' a as' ss'. policy F n = Some (F', a) \<and> free_rep F' as' ss' \<and> fl_same F F' \<and>
    (if \<exists>q \<in> set as. n \<le> nd_size F q
     then a \<in> nd_address F ` set as \<and> fl_address F \<le> a \<and> {a ..< a + int n} \<subseteq> free_set F as \<and> free_set F' as' = free_set F as - {a ..< a + int n}
     else F' = F \<and> a = -1 \<and> as' = as)"
proof (cases "\<exists>q \<in> set as. n \<le> nd_size F q")
  case True
  then obtain r where r: "r \<in> set as" "n \<le> nd_size F r" "policy F n = alloc_from F n (Some r)"
    using fits [OF rep n] by blast
  obtain xs ys where as: "as = xs @ r # ys" using r(1) by (auto simp: in_set_conv_decomp)
  obtain F' as' ss' where F': "freelist_alloc F r n = Some F'" "free_rep F' as' ss'" "fl_same F F'"
      "free_set F' as' = free_set F as - {nd_address F r ..< nd_address F r + int n}"
    using freelist_alloc_step [OF rep [unfolded as] n r(2)] as by auto
  have "{nd_address F r ..< nd_address F r + int n} \<subseteq> free_set F as"
    using r(2) unfolding as by (auto simp: blk_end_def)
  moreover have "fl_address F \<le> nd_address F r" using free_repD(7) [OF rep r(1)] by (simp add: in_range_def)
  ultimately show ?thesis using True r(1,3) F' by (auto simp: alloc_from_def)
next
  case False
  then have "policy F n = Some (F, -1)" using no_fit [OF rep n] by (simp add: not_le)
  then show ?thesis using False rep by (auto simp: fl_same_def)
qed

end

lemma find_fits:
  assumes "q \<in> set qs" "P q"
  shows "\<exists>r \<in> set qs. P r \<and> List.find P qs = Some r"
proof (cases "List.find P qs")
  case None
  then show ?thesis using assms by (auto simp: find_None_iff)
next
  case (Some r)
  then have "P r" "r \<in> set qs" by (auto simp: find_Some_iff)
  then show ?thesis using Some by blast
qed

lemma find_no_fit: "\<forall>q \<in> set qs. \<not> P q \<Longrightarrow> List.find P qs = None"
  by (auto simp: find_None_iff)

lemma sorted_last_max: "sorted (map f xs) \<Longrightarrow> q \<in> set xs \<Longrightarrow> f q \<le> f (last xs)"
  by (cases xs rule: rev_cases) (auto simp: sorted_append)

interpretation first: fit_policy first_fit
proof
  fix F as ss n q
  assume rep: "free_rep F as ss" and q: "q \<in> set as" "n \<le> nd_size F q"
  then show "\<exists>r \<in> set as. n \<le> nd_size F r \<and> first_fit F n = alloc_from F n (Some r)"
    using find_fits [of q as "\<lambda>q. n \<le> nd_size F q"] first_fit_choice [OF rep, of n] by auto
next
  fix F as ss n
  assume "free_rep F as ss" "\<forall>q \<in> set as. nd_size F q < n"
  then show "first_fit F n = Some (F, -1)"
    using find_no_fit [of as "\<lambda>q. n \<le> nd_size F q"] by (simp add: first_fit_choice alloc_from_def not_le)
qed

interpretation best: fit_policy best_fit
proof
  fix F as ss n q
  assume rep: "free_rep F as ss" and q: "q \<in> set as" "n \<le> nd_size F q"
  have "set ss = set as" using free_repD(4) [OF rep] .
  then show "\<exists>r \<in> set as. n \<le> nd_size F r \<and> best_fit F n = alloc_from F n (Some r)"
    using find_fits [of q ss "\<lambda>q. n \<le> nd_size F q"] best_fit_choice [OF rep, of n] q by auto
next
  fix F as ss n
  assume rep: "free_rep F as ss" "\<forall>q \<in> set as. nd_size F q < n"
  then show "best_fit F n = Some (F, -1)"
    using find_no_fit [of ss "\<lambda>q. n \<le> nd_size F q"] free_repD(4) [OF rep(1)]
    by (simp add: best_fit_choice alloc_from_def not_le)
qed

interpretation worst: fit_policy worst_fit
proof
  fix F as ss n q
  assume rep: "free_rep F as ss" and n: "0 < n" and q: "q \<in> set as" "n \<le> nd_size F q"
  have ss: "set ss = set as" "sorted (map (nd_size F) ss)" using free_repD(4,5) [OF rep] by auto
  then have "n \<le> nd_size F (last ss)" "ss \<noteq> []" using sorted_last_max [of "nd_size F" ss q] q by auto
  then show "\<exists>r \<in> set as. n \<le> nd_size F r \<and> worst_fit F n = alloc_from F n (Some r)"
    using worst_fit_choice [OF rep n] ss(1) last_in_set [of ss] by auto
next
  fix F as ss n
  assume rep: "free_rep F as ss" and n: "0 < n" and q: "\<forall>q \<in> set as. nd_size F q < n"
  then show "worst_fit F n = Some (F, -1)"
    using worst_fit_choice [OF rep n] free_repD(4) [OF rep] last_in_set [of ss] by (fastforce simp: alloc_from_def)
qed

section \<open>Which block each policy takes\<close>

text \<open>\<open>policy_choice F n q a\<close>: the address \<open>a\<close> returned is that of a fitting block \<open>q\<close> of the list.\<close>

lemma alloc_from_address:
  "free_rep F as ss \<Longrightarrow> q \<in> set as \<Longrightarrow> 0 < n \<Longrightarrow> n \<le> nd_size F q \<Longrightarrow>
   \<exists>F'. alloc_from F n (Some q) = Some (F', nd_address F q)"
proof -
  assume rep: "free_rep F as ss" and q: "q \<in> set as" and n: "0 < n" "n \<le> nd_size F q"
  obtain xs ys where as: "as = xs @ q # ys" using q by (auto simp: in_set_conv_decomp)
  obtain F' where "freelist_alloc F q n = Some F'" using freelist_alloc_step [OF rep [unfolded as] n] by blast
  then show ?thesis by (simp add: alloc_from_def)
qed

lemma first_fit_lowest:
  assumes rep: "free_rep F as ss" and n: "0 < n" and q: "q \<in> set as" "n \<le> nd_size F q"
  shows "\<exists>F' r. first_fit F n = Some (F', nd_address F r) \<and> r \<in> set as \<and> n \<le> nd_size F r \<and>
    (\<forall>t \<in> set as. n \<le> nd_size F t \<longrightarrow> nd_address F r \<le> nd_address F t)"
proof -
  obtain r where r: "r \<in> set as" "n \<le> nd_size F r" "List.find (\<lambda>q. n \<le> nd_size F q) as = Some r"
    using find_fits [of q as "\<lambda>q. n \<le> nd_size F q"] q by blast
  then obtain i where i: "i < length as" "r = as ! i" "\<forall>j < i. \<not> n \<le> nd_size F (as ! j)"
    by (auto simp: find_Some_iff)
  have "nd_address F r \<le> nd_address F t" if t: "t \<in> set as" "n \<le> nd_size F t" for t
  proof -
    obtain j where j: "j < length as" "t = as ! j" using t(1) by (auto simp: in_set_conv_nth)
    then have "i \<le> j" using i(3) t(2) by (meson not_le)
    then show ?thesis
    proof (cases "i = j")
      case False
      then have "sep F r t"
        using \<open>i \<le> j\<close> sorted_wrt_nth_less [OF free_repD(8) [OF rep], of i j] i j by simp
      then show ?thesis by (simp add: sep_def blk_end_def)
    qed (use i j in simp)
  qed
  then show ?thesis
    using first_fit_choice [OF rep, of n] r alloc_from_address [OF rep r(1) n r(2)] by auto
qed

lemma best_fit_smallest:
  assumes rep: "free_rep F as ss" and n: "0 < n" and q: "q \<in> set as" "n \<le> nd_size F q"
  shows "\<exists>F' r. best_fit F n = Some (F', nd_address F r) \<and> r \<in> set as \<and> n \<le> nd_size F r \<and>
    (\<forall>t \<in> set as. n \<le> nd_size F t \<longrightarrow> nd_size F r \<le> nd_size F t)"
proof -
  have ss: "set ss = set as" "sorted (map (nd_size F) ss)" using free_repD(4,5) [OF rep] by auto
  obtain r where r: "r \<in> set ss" "n \<le> nd_size F r" "List.find (\<lambda>q. n \<le> nd_size F q) ss = Some r"
    using find_fits [of q ss "\<lambda>q. n \<le> nd_size F q"] q ss(1) by auto
  then obtain i where i: "i < length ss" "r = ss ! i" "\<forall>j < i. \<not> n \<le> nd_size F (ss ! j)"
    by (auto simp: find_Some_iff)
  have "nd_size F r \<le> nd_size F t" if t: "t \<in> set as" "n \<le> nd_size F t" for t
  proof -
    obtain j where j: "j < length ss" "t = ss ! j" using t(1) ss(1) by (metis in_set_conv_nth)
    then have "i \<le> j" using i(3) t(2) by (meson not_le)
    then show ?thesis using sorted_nth_mono [OF ss(2), of i j] i j by simp
  qed
  then show ?thesis
    using best_fit_choice [OF rep, of n] r ss(1) alloc_from_address [OF rep _ n r(2)] by auto
qed

lemma worst_fit_largest:
  assumes rep: "free_rep F as ss" and n: "0 < n" and q: "q \<in> set as" "n \<le> nd_size F q"
  shows "\<exists>F' r. worst_fit F n = Some (F', nd_address F r) \<and> r \<in> set as \<and> n \<le> nd_size F r \<and>
    (\<forall>t \<in> set as. nd_size F t \<le> nd_size F r)"
proof -
  have ss: "set ss = set as" "sorted (map (nd_size F) ss)" using free_repD(4,5) [OF rep] by auto
  have last: "n \<le> nd_size F (last ss)" "ss \<noteq> []" "last ss \<in> set as"
    using sorted_last_max [of "nd_size F" ss q] q ss last_in_set [of ss] by (auto, fastforce)
  then show ?thesis
    using worst_fit_choice [OF rep n] alloc_from_address [OF rep last(3) n last(1)] sorted_last_max [OF ss(2)] ss(1)
    by auto
qed

end
