(* ===== verification/Alloclist.thy ===== *)
theory Alloclist
  imports Prelude
begin

text \<open>
  The list of allocated blocks of \<open>CS2303 Operating System/Project 7/alloclist.c\<close>.  The nodes of this
  singly linked list are only reachable through the list and each has one predecessor, so the list is
  modelled by the list of their contents; \<open>Prelude\<close>'s truncated integers are not needed, addresses are
  integers and sizes naturals.  A name of \<open>None\<close> is the NULL of a failed free.
\<close>

record alloc_info =
  ai_name :: "string option"
  ai_address :: int
  ai_size :: nat

type_synonym alloclist = "alloc_info list"

definition alloclist_create :: alloclist where
  "alloclist_create = []"

text \<open>All nodes and names are freed; the head is left as it is by the code, the list is not used again.\<close>

fun alloclist_destroy :: "alloclist \<Rightarrow> alloclist" where
  "alloclist_destroy [] = []"
| "alloclist_destroy (node # next) = alloclist_destroy next"

text \<open>The walk of \<open>alloclist_alloc\<close> behind the head.\<close>

fun link_after :: "alloc_info \<Rightarrow> alloclist \<Rightarrow> alloclist" where
  "link_after node [] = [node]"
| "link_after node (c # cs) =
     (if ai_address c < ai_address node then c # link_after node cs else node # c # cs)"

definition alloclist_alloc :: "alloclist \<Rightarrow> string \<Rightarrow> int \<Rightarrow> nat \<Rightarrow> alloclist" where
  "alloclist_alloc list name address sz =
     (let node = \<lparr>ai_name = Some name, ai_address = address, ai_size = sz\<rparr> in
      case list of
        [] \<Rightarrow> [node]
      | head # rest \<Rightarrow> (if ai_address head > address then node # list else head # link_after node rest))"

fun alloclist_free :: "alloclist \<Rightarrow> string \<Rightarrow> alloclist \<times> alloc_info" where
  "alloclist_free [] name = ([], \<lparr>ai_name = None, ai_address = -1, ai_size = 0\<rparr>)"
| "alloclist_free (node # next) name =
     (if ai_name node = Some name then (next, node)
      else (let (next', info) = alloclist_free next name in (node # next', info)))"

fun alloclist_address :: "alloclist \<Rightarrow> string \<Rightarrow> int" where
  "alloclist_address [] name = -1"
| "alloclist_address (node # next) name =
     (if ai_name node = Some name then ai_address node else alloclist_address next name)"

fun alloclist_size :: "alloclist \<Rightarrow> string \<Rightarrow> nat" where
  "alloclist_size [] name = 0"
| "alloclist_size (node # next) name =
     (if ai_name node = Some name then ai_size node else alloclist_size next name)"

section \<open>Blocks in address order\<close>

definition ai_end :: "alloc_info \<Rightarrow> int" where
  "ai_end i = ai_address i + int (ai_size i)"

definition used_set :: "alloclist \<Rightarrow> int set" where
  "used_set al = (\<Union>i \<in> set al. {ai_address i ..< ai_end i})"

text \<open>Named, non-empty, disjoint blocks at non-negative addresses, in address order.\<close>

definition al_ok :: "alloclist \<Rightarrow> bool" where
  "al_ok al \<longleftrightarrow> sorted_wrt (\<lambda>i j. ai_end i \<le> ai_address j) al \<and>
     (\<forall>i \<in> set al. 0 < ai_size i \<and> 0 \<le> ai_address i \<and> ai_name i \<noteq> None)"

lemma used_set_simps [simp]:
  "used_set [] = {}" "used_set (i # al) = {ai_address i ..< ai_end i} \<union> used_set al"
  by (auto simp: used_set_def)

lemma al_ok_Nil [simp]: "al_ok []"
  by (simp add: al_ok_def)

lemma al_ok_Cons:
  "al_ok (i # al) \<longleftrightarrow> (\<forall>j \<in> set al. ai_end i \<le> ai_address j) \<and> 0 < ai_size i \<and> 0 \<le> ai_address i \<and>
     ai_name i \<noteq> None \<and> al_ok al"
  by (auto simp: al_ok_def)

lemma set_link_after [simp]: "set (link_after node al) = insert node (set al)"
  by (induction al) auto

lemma interval_apart:
  fixes a b c d :: int
  assumes "{a ..< b} \<inter> {c ..< d} = {}" "a < b" "c < d"
  shows "b \<le> c \<or> d \<le> a"
proof (rule ccontr)
  assume "\<not> ?thesis"
  then have "max a c \<in> {a ..< b} \<inter> {c ..< d}" using assms(2,3) by auto
  then show False using assms(1) by simp
qed

lemma link_after_ok:
  assumes "al_ok al" "0 < ai_size node" "0 \<le> ai_address node" "ai_name node \<noteq> None"
    and "{ai_address node ..< ai_end node} \<inter> used_set al = {}"
  shows "al_ok (link_after node al)"
  using assms
proof (induction al)
  case (Cons c cs)
  have c: "0 < ai_size c" "\<forall>j \<in> set cs. ai_end c \<le> ai_address j" using Cons.prems(1) by (auto simp: al_ok_Cons)
  have disj: "{ai_address node ..< ai_end node} \<inter> {ai_address c ..< ai_end c} = {}"
      "{ai_address node ..< ai_end node} \<inter> used_set cs = {}"
    using Cons.prems(5) unfolding used_set_simps by blast+
  have ne: "ai_address node < ai_end node" "ai_address c < ai_end c" using Cons.prems(2) c(1) by (auto simp: ai_end_def)
  show ?case
  proof (cases "ai_address c < ai_address node")
    case True
    then have "ai_end c \<le> ai_address node" using ne interval_apart [OF disj(1) ne] by linarith
    then show ?thesis using True Cons c disj(2) by (auto simp: al_ok_Cons)
  next
    case False
    then have "ai_end node \<le> ai_address c" using ne interval_apart [OF disj(1) ne] by linarith
    moreover have "ai_end node \<le> ai_address j" if "j \<in> set cs" for j
      using calculation c ne that by fastforce
    ultimately show ?thesis using False Cons.prems by (auto simp: al_ok_Cons)
  qed
qed (simp add: al_ok_Cons)

lemma alloclist_alloc_ok:
  assumes "al_ok al" "0 < n" "0 \<le> a" "{a ..< a + int n} \<inter> used_set al = {}"
  shows "al_ok (alloclist_alloc al name a n)" "used_set (alloclist_alloc al name a n) = used_set al \<union> {a ..< a + int n}"
    "set (alloclist_alloc al name a n) = insert \<lparr>ai_name = Some name, ai_address = a, ai_size = n\<rparr> (set al)"
proof -
  let ?n = "\<lparr>ai_name = Some name, ai_address = a, ai_size = n\<rparr>"
  have e: "ai_end ?n = a + int n" by (simp add: ai_end_def)
  have same: "alloclist_alloc al name a n = link_after ?n al"
  proof (cases al)
    case (Cons h rest)
    have "ai_address h \<noteq> a"
    proof
      assume "ai_address h = a"
      then have "a \<in> {a ..< a + int n} \<inter> used_set al"
        using assms(1,2) Cons by (auto simp: al_ok_Cons ai_end_def)
      then show False using assms(4) by simp
    qed
    then show ?thesis using Cons by (auto simp: alloclist_alloc_def)
  qed (simp add: alloclist_alloc_def)
  show "al_ok (alloclist_alloc al name a n)" unfolding same using link_after_ok [of al ?n] assms e by simp
  show "set (alloclist_alloc al name a n) = insert ?n (set al)" unfolding same by simp
  then show "used_set (alloclist_alloc al name a n) = used_set al \<union> {a ..< a + int n}"
    by (auto simp: used_set_def e)
qed

text \<open>Freeing removes the first block of that name, or reports the address \<open>-1\<close>.\<close>

lemma alloclist_free_cases:
  "al_ok al \<Longrightarrow> (case alloclist_free al name of (al', info) \<Rightarrow>
     if ai_address info = -1 then al' = al \<and> (\<forall>i \<in> set al. ai_name i \<noteq> Some name)
     else info \<in> set al \<and> ai_name info = Some name \<and> al_ok al' \<and> set al' \<subseteq> set al \<and>
       used_set al' = used_set al - {ai_address info ..< ai_end info} \<and>
       {ai_address info ..< ai_end info} \<subseteq> used_set al)"
proof (induction al)
  case (Cons i al)
  have ok: "al_ok al" "0 \<le> ai_address i" "\<forall>j \<in> set al. ai_end i \<le> ai_address j" using Cons.prems by (auto simp: al_ok_Cons)
  have disj: "{ai_address i ..< ai_end i} \<inter> used_set al = {}" using ok(3) by (auto simp: used_set_def)
  show ?case
  proof (cases "ai_name i = Some name")
    case True
    then show ?thesis using ok disj by auto
  next
    case False
    obtain al' info where f: "alloclist_free al name = (al', info)" by (cases "alloclist_free al name")
    show ?thesis
    proof (cases "ai_address info = -1")
      case True
      then show ?thesis using Cons.IH [OF ok(1)] f False by auto
    next
      case found: False
      then have IH: "info \<in> set al" "ai_name info = Some name" "al_ok al'" "set al' \<subseteq> set al"
          "used_set al' = used_set al - {ai_address info ..< ai_end info}" "{ai_address info ..< ai_end info} \<subseteq> used_set al"
        using Cons.IH [OF ok(1)] f by auto
      have "al_ok (i # al')" using Cons.prems IH(3,4) by (auto simp: al_ok_Cons)
      moreover have "used_set (i # al') = used_set (i # al) - {ai_address info ..< ai_end info}"
        using IH(5,6) disj by auto
      ultimately show ?thesis using IH f False found by auto
    qed
  qed
qed simp

lemma alloclist_address_cases:
  "al_ok al \<Longrightarrow> (alloclist_address al name = -1 \<longleftrightarrow> (\<forall>i \<in> set al. ai_name i \<noteq> Some name)) \<and>
     alloclist_address al name = ai_address (snd (alloclist_free al name)) \<and>
     alloclist_size al name = ai_size (snd (alloclist_free al name))"
  by (induction al) (auto simp: al_ok_Cons split: prod.splits)

end
