(* ===== verification/Freelist_Check.thy ===== *)
theory Freelist_Check
  imports Freelist
begin

text \<open>
  The debug build of \<open>CS2303 Operating System/Project 7/freelist.c\<close>: the validity check that walks both
  orders of the list, the listing, and the guards of alloc and free.  The check is a run-time
  counterpart of \<open>free_rep\<close>; it accepts every list the operations produce.
\<close>

section \<open>The loops of the check\<close>

text \<open>A result of \<open>Some e\<close> is the error message printed before returning 1, \<open>None\<close> is success.\<close>

definition then_check :: "string option option \<Rightarrow> string option option \<Rightarrow> string option option" where
  "then_check A B = do { r \<leftarrow> A; (case r of Some e \<Rightarrow> Some (Some e) | None \<Rightarrow> B) }"

partial_function (option) check_nodes ::
  "(freelist \<Rightarrow> ptr \<Rightarrow> string option option) \<Rightarrow> freelist \<Rightarrow> ptr \<Rightarrow> string option option" where
  "check_nodes chk F node =
     (if node = fl_node F then Some None
      else do {
        r \<leftarrow> chk F node;
        (case r of
           Some e \<Rightarrow> Some (Some e)
         | None \<Rightarrow> do { nxt \<leftarrow> fl_rd nd_next F node; check_nodes chk F nxt })
      })"

text \<open>The loops that compare a node with its successor stop one node earlier.\<close>

partial_function (option) check_pairs ::
  "(freelist \<Rightarrow> ptr \<Rightarrow> ptr) \<Rightarrow> (freelist \<Rightarrow> ptr \<Rightarrow> ptr \<Rightarrow> string option option) \<Rightarrow> freelist \<Rightarrow> ptr \<Rightarrow>
     string option option" where
  "check_pairs fld chk F node = do {
     nxt \<leftarrow> fl_rd fld F node;
     (if nxt = fl_node F then Some None
      else do {
        r \<leftarrow> chk F node nxt;
        (case r of Some e \<Rightarrow> Some (Some e) | None \<Rightarrow> check_pairs fld chk F nxt)
      })
   }"

declare check_nodes.simps [code] check_pairs.simps [code]

definition report :: "bool \<Rightarrow> string \<Rightarrow> string option option" where
  "report bad message = Some (if bad then Some message else None)"

section \<open>The check\<close>

definition check_null :: "string \<Rightarrow> freelist \<Rightarrow> ptr \<Rightarrow> string option option" where
  "check_null message F node = do {
     n \<leftarrow> fl_rd nd_next F node; p \<leftarrow> fl_rd nd_prev F node;
     s \<leftarrow> fl_rd nd_smaller F node; l \<leftarrow> fl_rd nd_larger F node;
     report (n = NULL \<or> p = NULL \<or> s = NULL \<or> l = NULL) message
   }"

definition check_links :: "string \<Rightarrow> freelist \<Rightarrow> ptr \<Rightarrow> string option option" where
  "check_links message F node = do {
     n \<leftarrow> fl_rd nd_next F node; np \<leftarrow> fl_rd nd_prev F n;
     p \<leftarrow> fl_rd nd_prev F node; pn \<leftarrow> fl_rd nd_next F p;
     s \<leftarrow> fl_rd nd_smaller F node; sl \<leftarrow> fl_rd nd_larger F s;
     l \<leftarrow> fl_rd nd_larger F node; ls \<leftarrow> fl_rd nd_smaller F l;
     report (np \<noteq> node \<or> pn \<noteq> node \<or> sl \<noteq> node \<or> ls \<noteq> node) message
   }"

definition check_pointers :: "freelist \<Rightarrow> ptr \<Rightarrow> string option option" where
  "check_pointers F node =
     then_check (check_null ''Error: NULL pointers in a data node'' F node)
       (check_links ''Error: wrong pointers in a data node'' F node)"

definition check_range :: "freelist \<Rightarrow> ptr \<Rightarrow> string option option" where
  "check_range F node = do {
     a \<leftarrow> fl_rd nd_address F node; s \<leftarrow> fl_rd nd_size F node;
     report (a < fl_address F \<or> a + int s > fl_address F + int (fl_size F))
       ''Error: invalid address range in a data node''
   }"

definition check_size :: "freelist \<Rightarrow> ptr \<Rightarrow> string option option" where
  "check_size F node = do {
     s \<leftarrow> fl_rd nd_size F node;
     (if s = 0 then report True ''Error: zero size in a data node''
      else report (s > fl_size F) ''Error: size too large in a data node'')
   }"

definition check_address_order :: "freelist \<Rightarrow> ptr \<Rightarrow> ptr \<Rightarrow> string option option" where
  "check_address_order F node nxt = do {
     a \<leftarrow> fl_rd nd_address F node; b \<leftarrow> fl_rd nd_address F nxt; s \<leftarrow> fl_rd nd_size F node;
     (if a \<ge> b then report True ''Error: wrong address order in the list''
      else report (a + int s > b) ''Error: overlapping address in the list'')
   }"

definition check_size_order :: "freelist \<Rightarrow> ptr \<Rightarrow> ptr \<Rightarrow> string option option" where
  "check_size_order F node nxt = do {
     s \<leftarrow> fl_rd nd_size F node; t \<leftarrow> fl_rd nd_size F nxt;
     report (s < t) ''Error: wrong size order in the list''
   }"

definition check_merge :: "freelist \<Rightarrow> ptr \<Rightarrow> string option option" where
  "check_merge F node = do {
     a \<leftarrow> fl_rd nd_address F node; s \<leftarrow> fl_rd nd_size F node;
     n \<leftarrow> fl_rd nd_next F node; b \<leftarrow> fl_rd nd_address F n;
     report (a + int s = b) ''Error: possible merge not done in the list''
   }"

definition from_first :: "(freelist \<Rightarrow> ptr \<Rightarrow> string option option) \<Rightarrow> freelist \<Rightarrow> string option option" where
  "from_first chk F = do { node \<leftarrow> fl_rd nd_next F (fl_node F); check_nodes chk F node }"

definition freelist_internal_check :: "freelist \<Rightarrow> string option option" where
  "freelist_internal_check F =
     then_check (check_null ''Error: NULL pointers in the base node'' F (fl_node F))
    (then_check (check_links ''Error: wrong pointers in the base node'' F (fl_node F))
    (then_check (from_first check_pointers F)
    (then_check (from_first check_range F)
    (then_check (from_first check_size F)
    (then_check (do { node \<leftarrow> fl_rd nd_next F (fl_node F); check_pairs nd_next check_address_order F node })
    (then_check (do { node \<leftarrow> fl_rd nd_smaller F (fl_node F); check_pairs nd_smaller check_size_order F node })
      (from_first check_merge F)))))))"

text \<open>The guards that the debug build puts in front of alloc and free.\<close>

definition freelist_alloc_debug :: "freelist \<Rightarrow> ptr \<Rightarrow> nat \<Rightarrow> (freelist \<times> string) option" where
  "freelist_alloc_debug F node sz =
     (if sz = 0 then Some (F, ''Error: size is zero in freelist_alloc'')
      else do {
        s \<leftarrow> fl_rd nd_size F node;
        (if s < sz then Some (F, ''Error: size of allocation too large in freelist_alloc'')
         else do { F' \<leftarrow> freelist_alloc F node sz; Some (F', []) })
      })"

definition freelist_free_debug :: "bool \<Rightarrow> freelist \<Rightarrow> int \<Rightarrow> nat \<Rightarrow> (freelist \<times> string) option" where
  "freelist_free_debug stale F address sz =
     (if address < fl_address F \<or> address + int sz > fl_address F + int (fl_size F)
      then Some (F, ''Error: address out of range in freelist_free'')
      else if sz = 0 then Some (F, ''Error: size is zero in freelist_free'')
      else do { F' \<leftarrow> freelist_free stale F address sz; Some (F', []) })"

text \<open>The two listings of \<open>freelist_print\<close>: address and size of each node along one field.\<close>

partial_function (option) list_nodes ::
  "(freelist \<Rightarrow> ptr \<Rightarrow> ptr) \<Rightarrow> freelist \<Rightarrow> ptr \<Rightarrow> (int \<times> nat) list \<Rightarrow> (int \<times> nat) list option" where
  "list_nodes fld F node acc =
     (if node = fl_node F then Some acc
      else do {
        a \<leftarrow> fl_rd nd_address F node; s \<leftarrow> fl_rd nd_size F node; nxt \<leftarrow> fl_rd fld F node;
        list_nodes fld F nxt (acc @ [(a, s)])
      })"

declare list_nodes.simps [code]

definition freelist_print :: "freelist \<Rightarrow> (bool \<times> (int \<times> nat) list \<times> (int \<times> nat) list) option" where
  "freelist_print F = do {
     c \<leftarrow> freelist_internal_check F;
     first \<leftarrow> fl_rd nd_next F (fl_node F);
     by_address \<leftarrow> list_nodes nd_next F first [];
     largest \<leftarrow> fl_rd nd_smaller F (fl_node F);
     by_size \<leftarrow> list_nodes nd_smaller F largest [];
     Some (c = None, by_address, by_size)
   }"

section \<open>The check accepts every well-formed list\<close>

lemma then_check_ok [simp]: "then_check (Some None) B = B"
  by (simp add: then_check_def)

lemma check_nodes_ok:
  assumes "seg (nd_next F) p a xs (fl_node F)" "fl_node F \<notin> set xs" "set xs \<subseteq> fl_alloc F"
    and "\<And>q. q \<in> set xs \<Longrightarrow> chk F q = Some None"
  shows "check_nodes chk F (hd (xs @ [fl_node F])) = Some None"
  using assms
proof (induction xs arbitrary: a)
  case (Cons x xs)
  have "nd_next F x = hd (xs @ [fl_node F])" using Cons.prems by (auto dest: seg_next)
  moreover have "check_nodes chk F (hd (xs @ [fl_node F])) = Some None"
    using Cons.prems by (intro Cons.IH [of x]) auto
  ultimately show ?case using Cons.prems by (simp add: check_nodes.simps [of chk F x] fl_rd_def)
qed (simp add: check_nodes.simps)

lemma check_pairs_ok:
  assumes "seg (fld F) p a xs (fl_node F)" "fl_node F \<notin> set xs" "set (a # xs) \<subseteq> fl_alloc F"
    and "sorted_wrt (\<lambda>x y. chk F x y = Some None) (a # xs)"
  shows "check_pairs fld chk F a = Some None"
  using assms
proof (induction xs arbitrary: a)
  case (Cons x xs)
  then have "check_pairs fld chk F x = Some None" by auto
  then show ?case using Cons.prems by (simp add: check_pairs.simps [of fld chk F a] fl_rd_def)
qed (simp add: check_pairs.simps fl_rd_def)

lemma fl_rd_in [simp]: "q \<in> fl_alloc F \<Longrightarrow> fl_rd fld F q = Some (fld F q)"
  by (simp add: fl_rd_def)

lemma freelist_internal_check_ok:
  assumes rep: "free_rep F as ss" and pos: "0 \<le> fl_address F" "nd_address F (fl_node F) = 0"
  shows "freelist_internal_check F = Some None"
proof -
  note D = free_repD [OF rep]
  let ?h = "fl_node F"
  note na = ring_inverse [OF D(1)] and sl = ring_inverse [OF D(2), unfolded D(4)]
  have al: "fl_alloc F = insert ?h (set as)" and nz: "\<And>q. q \<in> fl_alloc F \<Longrightarrow> q \<noteq> NULL"
    using D(3) by (auto simp: fl_heap_def)
  have closed: "nd_next F q \<in> fl_alloc F" "nd_prev F q \<in> fl_alloc F" "nd_smaller F q \<in> fl_alloc F"
      "nd_larger F q \<in> fl_alloc F" if "q \<in> fl_alloc F" for q
    using that na(3,4) sl(3,4) unfolding al by auto
  have null: "check_null e F q = Some None" and links: "check_links e F q = Some None" if "q \<in> fl_alloc F" for e q
    using that closed [OF that] closed nz na(1,2) [of q] sl(1,2) [of q]
    by (auto simp: check_null_def check_links_def fl_rd_def report_def al)
  have first: "fl_rd nd_next F ?h = Some (hd (as @ [?h]))" using D(11) ring_head_next [OF D(1)] by simp
  have seg: "seg (nd_next F) (nd_prev F) ?h as ?h" "?h \<notin> set as" using D(1) by (auto simp: ring_def)
  have walk: "from_first chk F = Some None" if "\<And>q. q \<in> set as \<Longrightarrow> chk F q = Some None" for chk
    using check_nodes_ok [OF seg D(10)] that first by (simp add: from_first_def)
  have "from_first check_pointers F = Some None"
    using null links D(10) by (intro walk) (auto simp: check_pointers_def)
  moreover have "from_first check_range F = Some None"
    using D(7,10) by (intro walk) (force simp: check_range_def report_def fl_rd_def in_range_def blk_end_def)
  moreover have "from_first check_size F = Some None"
    using D(7,10) by (intro walk) (force simp: check_size_def report_def fl_rd_def in_range_def blk_end_def)
  moreover have "from_first check_merge F = Some None"
  proof (rule walk)
    fix q assume q: "q \<in> set as"
    then obtain us vs where us: "as = us @ q # vs" by (auto simp: in_set_conv_decomp)
    have n: "nd_next F q = hd (vs @ [?h])" using ring_node_next [of "nd_next F" "nd_prev F" ?h us q vs] D(1) us by simp
    have "blk_end F q \<noteq> nd_address F (hd (vs @ [?h]))"
    proof (cases vs)
      case Nil
      then show ?thesis using D(7) [OF q] pos by (auto simp: in_range_def blk_end_def)
    next
      case (Cons v vs')
      then show ?thesis using D(8) us by (auto simp: sorted_wrt_append sep_def)
    qed
    then show "check_merge F q = Some None"
      using q D(10) closed(1) [of q] n by (auto simp: check_merge_def report_def fl_rd_def blk_end_def)
  qed
  moreover have "check_pairs nd_next check_address_order F (hd (as @ [?h])) = Some None"
  proof (cases as)
    case Nil
    then show ?thesis using D(11) ring_head_next [OF D(1)] by (simp add: check_pairs.simps)
  next
    case (Cons a bs)
    have "sorted_wrt (\<lambda>x y. check_address_order F x y = Some None) as"
    proof (rule sorted_wrt_mono_rel [OF _ D(8)])
      fix x y assume "x \<in> set as" "y \<in> set as" "sep F x y"
      then show "check_address_order F x y = Some None"
        using D(10) D(7) [of x] by (auto simp: check_address_order_def report_def fl_rd_def sep_def in_range_def blk_end_def)
    qed
    then show ?thesis
      using check_pairs_ok [of nd_next F "nd_prev F" a bs check_address_order] seg D(10) Cons by simp
  qed
  moreover have "check_pairs nd_smaller check_size_order F (nd_smaller F ?h) = Some None"
  proof (cases "rev ss")
    case Nil
    then show ?thesis using D(11) ring_head_prev [OF D(2)] by (simp add: check_pairs.simps)
  next
    case (Cons a bs)
    have "sorted_wrt (\<lambda>x y. nd_size F y \<le> nd_size F x) (rev ss)"
      using D(5) by (simp add: sorted_wrt_rev sorted_wrt_map)
    then have "sorted_wrt (\<lambda>x y. check_size_order F x y = Some None) (rev ss)"
    proof (rule sorted_wrt_mono_rel [rotated])
      fix x y assume "x \<in> set (rev ss)" "y \<in> set (rev ss)" "nd_size F y \<le> nd_size F x"
      then show "check_size_order F x y = Some None"
        using D(4,10) by (auto simp: check_size_order_def report_def fl_rd_def)
    qed
    moreover have "seg (nd_smaller F) (nd_larger F) ?h (rev ss) ?h" "?h \<notin> set (rev ss)"
      using ring_rev [OF D(2)] by (auto simp: ring_def)
    moreover have "set (rev ss) \<subseteq> fl_alloc F" using D(4,10) by simp
    ultimately show ?thesis
      using check_pairs_ok [of nd_smaller F "nd_larger F" a bs check_size_order] Cons by simp
  qed
  ultimately show ?thesis
    using null [OF D(11)] links [OF D(11)] first D(11) by (simp add: freelist_internal_check_def)
qed

end
