(* ===== verification/Allocator.thy ===== *)
theory Allocator
  imports Policy Alloclist Freelist_Check "HOL-Library.Word"
begin

unbundle bit_operations_syntax

text \<open>
  The page allocator of \<open>CS2303 Operating System/Project 7/allocator.c\<close>: a free list and a list of
  allocated blocks over one memory area.  Pointers handed out are the base address plus the block
  address; NULL is 0.
\<close>

section \<open>State and operations\<close>

record allocator =
  al_memory :: int
  al_size :: nat
  al_page_size :: nat
  al_alloclist :: alloclist
  al_freelist :: freelist

text \<open>Round up in \<open>size_t\<close> arithmetic; it means a multiple of the page size for powers of 2 only.\<close>

definition allocator_internal_roundup :: "nat \<Rightarrow> nat \<Rightarrow> nat" where
  "allocator_internal_roundup page_size sz =
     unat ((word_of_nat sz + word_of_nat page_size - 1) AND NOT (word_of_nat page_size - 1) :: 64 word)"

definition allocator_create :: "int \<Rightarrow> nat \<Rightarrow> nat \<Rightarrow> allocator" where
  "allocator_create memory sz page_size =
     \<lparr>al_memory = memory, al_size = sz, al_page_size = page_size,
      al_alloclist = alloclist_create, al_freelist = freelist_create 0 sz\<rparr>"

definition allocator_destroy :: "allocator \<Rightarrow> allocator option" where
  "allocator_destroy A = do {
     F \<leftarrow> freelist_destroy (al_freelist A);
     Some (A\<lparr>al_memory := 0, al_size := 0, al_alloclist := alloclist_destroy (al_alloclist A), al_freelist := F\<rparr>)
   }"

definition allocator_alloc ::
  "allocator \<Rightarrow> string \<Rightarrow> nat \<Rightarrow> (freelist \<Rightarrow> nat \<Rightarrow> (freelist \<times> int) option) \<Rightarrow> (allocator \<times> int) option" where
  "allocator_alloc A name sz alloc_policy =
     (let rounded_size = allocator_internal_roundup (al_page_size A) sz in do {
        (F, address) \<leftarrow> alloc_policy (al_freelist A) rounded_size;
        (if address = -1 then Some (A\<lparr>al_freelist := F\<rparr>, 0)
         else Some (A\<lparr>al_freelist := F, al_alloclist := alloclist_alloc (al_alloclist A) name address rounded_size\<rparr>,
                    al_memory A + address))
      })"

definition allocator_free :: "bool \<Rightarrow> allocator \<Rightarrow> string \<Rightarrow> allocator option" where
  "allocator_free stale A name =
     (let (al, info) = alloclist_free (al_alloclist A) name; A1 = A\<lparr>al_alloclist := al\<rparr> in
      if ai_address info \<noteq> -1 then do {
        F \<leftarrow> freelist_free stale (al_freelist A1) (ai_address info) (ai_size info);
        Some (A1\<lparr>al_freelist := F\<rparr>)
      }
      else Some A1)"

definition allocator_address :: "allocator \<Rightarrow> string \<Rightarrow> int" where
  "allocator_address A name =
     (let address = alloclist_address (al_alloclist A) name in
      if address = -1 then 0 else al_memory A + address)"

definition allocator_size :: "allocator \<Rightarrow> string \<Rightarrow> nat" where
  "allocator_size A name = alloclist_size (al_alloclist A) name"

text \<open>With DEBUG, page sizes that are no power of two are refused.\<close>

definition allocator_create_debug :: "int \<Rightarrow> nat \<Rightarrow> nat \<Rightarrow> string + allocator" where
  "allocator_create_debug memory sz page_size =
     (if (word_of_nat page_size AND (word_of_nat page_size - 1) :: 64 word) \<noteq> 0
      then Inl (''allocator_create: page_size is not a power of 2'' @ [newline])
      else Inr (allocator_create memory sz page_size))"

text \<open>\<open>%p\<close>, as glibc prints it.\<close>

fun hex_digits :: "nat \<Rightarrow> string" where
  "hex_digits n = (if n < 16 then [''0123456789abcdef'' ! n] else hex_digits (n div 16) @ [''0123456789abcdef'' ! (n mod 16)])"

declare hex_digits.simps [simp del]

definition fmt_p :: "int \<Rightarrow> string" where
  "fmt_p p = (if p = 0 then ''(nil)'' else ''0x'' @ hex_digits (nat p))"

text \<open>\<open>printf\<close> pads to the width on the left.\<close>

definition pad_left :: "nat \<Rightarrow> string \<Rightarrow> string" where
  "pad_left w s = replicate (w - length s) CHR '' '' @ s"

definition print_block :: "int \<Rightarrow> nat \<Rightarrow> string \<Rightarrow> string" where
  "print_block address sz name =
     ''  Address ['' @ pad_left 7 (fmt_d address) @ '':'' @ pad_left 7 (fmt_d (address + int sz - 1)) @ '']   '' @
     pad_left 8 name @ ''     Size = '' @ nat_digits sz @ [newline]"

definition print_alloc_block :: "alloc_info \<Rightarrow> string" where
  "print_alloc_block i =
     print_block (ai_address i) (ai_size i) (case ai_name i of Some n \<Rightarrow> n | None \<Rightarrow> ''(null)'')"

text \<open>The merge of the two lists by address; its three loops are the three cases.\<close>

partial_function (option) allocator_print_loop :: "freelist \<Rightarrow> alloclist \<Rightarrow> ptr \<Rightarrow> string \<Rightarrow> string option" where
  "allocator_print_loop F al free_node acc =
     (if al \<noteq> [] \<and> free_node \<noteq> fl_node F then do {
        a \<leftarrow> fl_rd nd_address F free_node;
        (if ai_address (hd al) < a
         then allocator_print_loop F (tl al) free_node (acc @ print_alloc_block (hd al))
         else do {
           s \<leftarrow> fl_rd nd_size F free_node;
           nxt \<leftarrow> fl_rd nd_next F free_node;
           allocator_print_loop F al nxt (acc @ print_block a s ''Unused'')
         })
      }
      else if al \<noteq> [] then allocator_print_loop F (tl al) free_node (acc @ print_alloc_block (hd al))
      else if free_node \<noteq> fl_node F then do {
        a \<leftarrow> fl_rd nd_address F free_node;
        s \<leftarrow> fl_rd nd_size F free_node;
        nxt \<leftarrow> fl_rd nd_next F free_node;
        allocator_print_loop F al nxt (acc @ print_block a s ''Unused'')
      }
      else Some acc)"

declare allocator_print_loop.simps [code]

definition allocator_print :: "allocator \<Rightarrow> string option" where
  "allocator_print A = do {
     free_node \<leftarrow> fl_rd nd_next (al_freelist A) (fl_node (al_freelist A));
     blocks \<leftarrow> allocator_print_loop (al_freelist A) (al_alloclist A) free_node [];
     Some (''allocator memory pointer: '' @ fmt_p (al_memory A) @ [newline] @
       ''allocator size: '' @ nat_digits (al_size A) @ '' bytes'' @ [newline] @
       ''allocator page size: '' @ nat_digits (al_page_size A) @ '' bytes'' @ [newline] @
       ''allocator allocation list:'' @ [newline] @ blocks)
   }"

text \<open>For evaluating first-fit allocations by \<open>simp\<close>.\<close>

lemmas allocator_eval = allocator_alloc_def allocator_create_def alloclist_create_def alloclist_alloc_def first_fit_def
  fit_loop.simps freelist_create_def freelist_alloc_def freelist_internal_sort_def fl_seek.simps smaller_than_def
  fl_detach_def fl_rd_def fl_wr_def

section \<open>Rounding\<close>

lemma roundup_pow2:
  assumes "k < 64" "sz + 2 ^ k \<le> 2 ^ 64"
  shows "allocator_internal_roundup (2 ^ k) sz = (sz + 2 ^ k - 1) div 2 ^ k * 2 ^ k"
proof -
  let ?w = "word_of_nat sz + word_of_nat (2 ^ k) - 1 :: 64 word"
  have w: "?w = word_of_nat (sz + 2 ^ k - 1)"
  proof -
    have "1 \<le> sz + 2 ^ k" by (simp add: Suc_le_eq)
    then have "word_of_nat (sz + 2 ^ k - 1) = (word_of_nat (sz + 2 ^ k) - word_of_nat 1 :: 64 word)"
      by (rule of_nat_diff)
    then show ?thesis by simp
  qed
  have mask: "word_of_nat (2 ^ k) - 1 = (mask k :: 64 word)"
    by (simp add: mask_eq_decr_exp)
  have "?w AND NOT (mask k) = push_bit k (drop_bit k ?w)"
    by (simp add: bit_eq_iff bit_simps) auto
  moreover have "unat (push_bit k (drop_bit k ?w)) = (sz + 2 ^ k - 1) div 2 ^ k * 2 ^ k"
  proof -
    have small: "sz + 2 ^ k - 1 < 2 ^ 64" 
    proof -
      have "0 < sz + 2 ^ k" by simp
      then show ?thesis using assms(2) by linarith
    qed
    then have u: "unat ?w = sz + 2 ^ k - 1" unfolding w by (simp add: unat_of_nat take_bit_nat_eq_self)
    have "(sz + 2 ^ k - 1) div 2 ^ k * 2 ^ k < 2 ^ 64" using small by (meson div_times_less_eq_dividend le_less_trans)
    moreover have "unat (push_bit k (drop_bit k v)) = take_bit 64 (unat v div 2 ^ k * 2 ^ k)" for v :: "64 word"
    proof -
      have "take_bit 64 (unat v) = unat v" using unsigned_less [of v] by (intro take_bit_nat_eq_self) simp
      then have "unat (push_bit k (drop_bit k v)) = take_bit 64 (push_bit k (drop_bit k (unat v)))"
        by (simp add: unsigned_push_bit_eq unsigned_drop_bit_eq)
      then show ?thesis by (simp only: push_bit_eq_mult [where ?'a = nat] drop_bit_eq_div [where ?'a = nat])
    qed
    ultimately show ?thesis by (simp only: u take_bit_nat_eq_self)
  qed
  ultimately show ?thesis unfolding allocator_internal_roundup_def mask by simp
qed

lemma roundup_bounds:
  assumes "k < 64" "0 < sz" "sz + 2 ^ k \<le> 2 ^ 64"
  shows "0 < allocator_internal_roundup (2 ^ k) sz" "sz \<le> allocator_internal_roundup (2 ^ k) sz"
    "allocator_internal_roundup (2 ^ k) sz < sz + 2 ^ k" "2 ^ k dvd allocator_internal_roundup (2 ^ k) sz"
proof -
  let ?p = "2 ^ k :: nat" and ?x = "sz + 2 ^ k - 1"
  have r: "allocator_internal_roundup (2 ^ k) sz = ?x div ?p * ?p" using roundup_pow2 [OF assms(1,3)] .
  have "?x div ?p * ?p + ?x mod ?p = ?x" by (rule div_mult_mod_eq)
  moreover have "?x mod ?p < ?p" by simp
  moreover have "0 < ?p" by simp
  ultimately show "0 < allocator_internal_roundup (2 ^ k) sz" "sz \<le> allocator_internal_roundup (2 ^ k) sz"
    "allocator_internal_roundup (2 ^ k) sz < sz + 2 ^ k" "2 ^ k dvd allocator_internal_roundup (2 ^ k) sz"
    unfolding r using assms(2) by (linarith+, simp)
qed

section \<open>The invariant\<close>

text \<open>Sets of addresses that consist of whole pages.\<close>

definition page_closed :: "nat \<Rightarrow> int set \<Rightarrow> bool" where
  "page_closed p S \<longleftrightarrow> (\<forall>x y. x div int p = y div int p \<longrightarrow> (x \<in> S \<longleftrightarrow> y \<in> S))"

lemma mult_le_iff_le_div: "0 < p \<Longrightarrow> p * u \<le> x \<longleftrightarrow> u \<le> x div (p :: int)"
proof
  assume p: "0 < p" and "p * u \<le> x"
  then have "(p * u) div p \<le> x div p" by (intro zdiv_mono1)
  then show "u \<le> x div p" using p by simp
next
  assume p: "0 < p" and "u \<le> x div p"
  then have "p * u \<le> p * (x div p)" by simp
  also have "\<dots> = x - x mod p" by (simp add: minus_mod_eq_mult_div)
  also have "\<dots> \<le> x" using p by simp
  finally show "p * u \<le> x" .
qed

lemma page_closed_interval:
  assumes p: "0 < p" and "int p dvd a" "p dvd n"
  shows "page_closed p {a ..< a + int n}"
proof -
  obtain u v where a: "a = int p * u" and n: "n = p * v" using assms(2,3) by (auto elim!: dvdE)
  have "a + int n = int p * (u + int v)" by (simp add: a n distrib_left)
  then have mem: "x \<in> {a ..< a + int n} \<longleftrightarrow> u \<le> x div int p \<and> \<not> u + int v \<le> x div int p" for x
    using mult_le_iff_le_div [of "int p" u x] mult_le_iff_le_div [of "int p" "u + int v" x] p a by auto
  show ?thesis unfolding page_closed_def mem by simp
qed

lemma page_closed_diff: "page_closed p S \<Longrightarrow> page_closed p T \<Longrightarrow> page_closed p (S - T)"
  unfolding page_closed_def by blast

lemma page_closed_union: "page_closed p S \<Longrightarrow> page_closed p T \<Longrightarrow> page_closed p (S \<union> T)"
  unfolding page_closed_def by blast

text \<open>The free blocks begin at page boundaries, because they are the maximal intervals of a page-closed set.\<close>

lemma free_block_aligned:
  assumes rep: "free_rep F as ss" and closed: "page_closed p (free_set F as)" and p: "0 < p" and q: "q \<in> set as"
  shows "int p dvd nd_address F q"
proof (rule ccontr)
  assume nd: "\<not> int p dvd nd_address F q"
  note D = free_repD [OF rep]
  let ?a = "nd_address F q"
  have "(?a - 1) div int p = ?a div int p"
  proof -
    have "?a mod int p \<noteq> 0" "0 \<le> ?a mod int p" using nd p by (simp_all add: dvd_eq_mod_eq_0)
    then have "0 < ?a mod int p" by linarith
    have "?a mod int p < int p" using p by (intro pos_mod_bound) simp
    then have small: "(?a mod int p - 1) div int p = 0" using \<open>0 < ?a mod int p\<close> by (intro div_pos_pos_trivial) linarith+
    have "?a - 1 = (?a mod int p - 1) + ?a div int p * int p" by simp
    then have "(?a - 1) div int p = ((?a mod int p - 1) + ?a div int p * int p) div int p" by (rule arg_cong)
    also have "\<dots> = ?a div int p" using p small by (simp add: div_mult_self3)
    finally show ?thesis .
  qed
  moreover have "?a \<in> free_set F as" using q D(7) [OF q] by (auto simp: free_set_def in_range_def blk_end_def)
  ultimately have "?a - 1 \<in> free_set F as" using closed unfolding page_closed_def by blast
  then obtain t where t: "t \<in> set as" "nd_address F t \<le> ?a - 1" "?a - 1 < blk_end F t" by (auto simp: free_set_def)
  then have "t \<noteq> q" by auto
  obtain xs ys where as: "as = xs @ q # ys" using q by (auto simp: in_set_conv_decomp)
  have "t \<in> set xs \<or> t \<in> set ys" using t(1) as \<open>t \<noteq> q\<close> by auto
  then show False
  proof
    assume "t \<in> set xs"
    then have "sep F t q" using D(8) as by (auto simp: sorted_wrt_append)
    then show False using t(3) by (simp add: sep_def)
  next
    assume "t \<in> set ys"
    then have "sep F q t" using D(8) as by (auto simp: sorted_wrt_append)
    then show False using t(2) D(7) [OF q] by (simp add: sep_def blk_end_def)
  qed
qed


text \<open>
  The allocator's invariant: the free list is well formed and covers the whole area together with the
  allocated blocks, which are disjoint from it and from each other; everything is page aligned.
\<close>

definition alloc_inv :: "allocator \<Rightarrow> ptr list \<Rightarrow> ptr list \<Rightarrow> bool" where
  "alloc_inv A as ss \<longleftrightarrow>
     free_rep (al_freelist A) as ss \<and> fl_address (al_freelist A) = 0 \<and> fl_size (al_freelist A) = al_size A \<and>
     nd_address (al_freelist A) (fl_node (al_freelist A)) = 0 \<and> al_ok (al_alloclist A) \<and>
     used_set (al_alloclist A) \<inter> free_set (al_freelist A) as = {} \<and>
     used_set (al_alloclist A) \<union> free_set (al_freelist A) as = {0 ..< int (al_size A)} \<and>
     page_closed (al_page_size A) (free_set (al_freelist A) as) \<and>
     (\<forall>i \<in> set (al_alloclist A). int (al_page_size A) dvd ai_address i \<and> al_page_size A dvd ai_size i)"

definition page_bits :: "allocator \<Rightarrow> nat \<Rightarrow> bool" where
  "page_bits A k \<longleftrightarrow> k < 64 \<and> al_page_size A = 2 ^ k"

lemma alloc_invD:
  assumes "alloc_inv A as ss"
  shows "free_rep (al_freelist A) as ss" "fl_address (al_freelist A) = 0" "fl_size (al_freelist A) = al_size A"
    "nd_address (al_freelist A) (fl_node (al_freelist A)) = 0" "al_ok (al_alloclist A)"
    "used_set (al_alloclist A) \<inter> free_set (al_freelist A) as = {}"
    "used_set (al_alloclist A) \<union> free_set (al_freelist A) as = {0 ..< int (al_size A)}"
    "page_closed (al_page_size A) (free_set (al_freelist A) as)"
    "\<And>i. i \<in> set (al_alloclist A) \<Longrightarrow> int (al_page_size A) dvd ai_address i"
    "\<And>i. i \<in> set (al_alloclist A) \<Longrightarrow> al_page_size A dvd ai_size i"
  using assms by (auto simp: alloc_inv_def)

lemma allocator_create_inv:
  assumes n: "0 < n" and p: "0 < p" "p dvd n"
  shows "alloc_inv (allocator_create mem n p) [2] [2]"
proof -
  have "page_closed p {0 ..< 0 + int n}" using p by (intro page_closed_interval) auto
  moreover have "nd_address (freelist_create 0 n) (fl_node (freelist_create 0 n)) = 0" "fl_address (freelist_create 0 n) = 0"
    "fl_size (freelist_create 0 n) = n" by (simp_all add: freelist_create_def)
  ultimately show ?thesis
    using freelist_create_rep [OF n, of 0] by (simp add: alloc_inv_def allocator_create_def alloclist_create_def)
qed

section \<open>Allocation and release\<close>

context fit_policy begin

text \<open>
  An allocation fails, without any effect, exactly when no free block has the rounded size; otherwise
  the block was free, starts at the address of a free block and becomes used.
\<close>

lemma allocator_alloc_step:
  assumes inv: "alloc_inv A as ss" and k: "page_bits A k" and n: "0 < n" "n + 2 ^ k \<le> 2 ^ 64"
    and r: "r = allocator_internal_roundup (al_page_size A) n"
  shows "\<exists>A' v as' ss'. allocator_alloc A name n policy = Some (A', v) \<and> alloc_inv A' as' ss' \<and>
    al_memory A' = al_memory A \<and> al_size A' = al_size A \<and> al_page_size A' = al_page_size A \<and>
    (if \<exists>q \<in> set as. r \<le> nd_size (al_freelist A) q
     then \<exists>a. v = al_memory A + a \<and> 0 \<le> a \<and> int (al_page_size A) dvd a \<and> {a ..< a + int r} \<subseteq> free_set (al_freelist A) as \<and>
       al_alloclist A' = alloclist_alloc (al_alloclist A) name a r \<and>
       free_set (al_freelist A') as' = free_set (al_freelist A) as - {a ..< a + int r}
     else A' = A \<and> v = 0 \<and> as' = as \<and> ss' = ss)"
proof -
  note D = alloc_invD [OF inv]
  let ?F = "al_freelist A" and ?p = "al_page_size A"
  have r0: "0 < r" "?p dvd r" using roundup_bounds [OF _ n] k r by (auto simp: page_bits_def)
  have p0: "0 < ?p" using k by (simp add: page_bits_def)
  show ?thesis
  proof (cases "\<exists>q \<in> set as. r \<le> nd_size ?F q")
    case False
    then have "\<forall>q \<in> set as. nd_size ?F q < r" by (simp add: not_le)
    then have "policy ?F r = Some (?F, -1)" using no_fit [OF D(1) r0(1)] by blast
    then have "allocator_alloc A name n policy = Some (A, 0)" by (simp add: allocator_alloc_def r [symmetric])
    then show ?thesis using False inv by auto
  next
    case True
    obtain F' a as' ss' where F': "policy ?F r = Some (F', a)" "free_rep F' as' ss'" "fl_same ?F F'"
        "a \<in> nd_address ?F ` set as" "0 \<le> a" "{a ..< a + int r} \<subseteq> free_set ?F as"
        "free_set F' as' = free_set ?F as - {a ..< a + int r}"
      using policy_contract [OF D(1) r0(1)] True D(2) by auto
    have da: "int ?p dvd a" using F'(4) free_block_aligned [OF D(1,8) p0] by auto
    define A' where "A' = A\<lparr>al_freelist := F', al_alloclist := alloclist_alloc (al_alloclist A) name a r\<rparr>"
    have fields: "al_freelist A' = F'" "al_alloclist A' = alloclist_alloc (al_alloclist A) name a r"
      "al_page_size A' = ?p" "al_size A' = al_size A" "al_memory A' = al_memory A" by (simp_all add: A'_def)
    have run: "allocator_alloc A name n policy = Some (A', al_memory A + a)"
      using F'(1,5) by (auto simp: allocator_alloc_def r [symmetric] A'_def)
    have "{a ..< a + int r} \<inter> used_set (al_alloclist A) = {}" using F'(6) D(6) by blast
    note L = alloclist_alloc_ok [OF D(5) r0(1) F'(5) this, of name]
    have "alloc_inv A' as' ss'"
      unfolding alloc_inv_def fields L(2) F'(7)
    proof (intro conjI)
      show "page_closed ?p (free_set ?F as - {a ..< a + int r})"
        using page_closed_diff [OF D(8) page_closed_interval [OF p0 da r0(2)]] .
      show "\<forall>i \<in> set (alloclist_alloc (al_alloclist A) name a r). int ?p dvd ai_address i \<and> ?p dvd ai_size i"
        using D(9,10) da r0(2) L(3) by auto
    qed (use F' D L in \<open>auto simp: fl_same_def\<close>)
    then show ?thesis using True run fields F' da by auto
  qed
qed

end

text \<open>Releasing a name frees exactly the block recorded under it.\<close>

lemma allocator_free_step:
  assumes inv: "alloc_inv A as ss" and k: "page_bits A k"
  shows "\<exists>A' as' ss'. allocator_free True A name = Some A' \<and> alloc_inv A' as' ss' \<and>
    al_memory A' = al_memory A \<and> al_size A' = al_size A \<and> al_page_size A' = al_page_size A \<and>
    al_alloclist A' = fst (alloclist_free (al_alloclist A) name) \<and>
    (if \<forall>i \<in> set (al_alloclist A). ai_name i \<noteq> Some name then A' = A
     else free_set (al_freelist A') as' = free_set (al_freelist A) as \<union>
       {alloclist_address (al_alloclist A) name ..<
        alloclist_address (al_alloclist A) name + int (alloclist_size (al_alloclist A) name)})"
proof -
  note D = alloc_invD [OF inv]
  let ?F = "al_freelist A" and ?p = "al_page_size A"
  obtain al' info where f: "alloclist_free (al_alloclist A) name = (al', info)"
    by (cases "alloclist_free (al_alloclist A) name")
  note ad = alloclist_address_cases [OF D(5), of name]
  show ?thesis
  proof (cases "ai_address info = -1")
    case True
    then have "al' = al_alloclist A" using alloclist_free_cases [OF D(5), of name] f by simp
    then have "allocator_free True A name = Some A" using True f by (simp add: allocator_free_def)
    then show ?thesis using True inv f \<open>al' = _\<close> ad by auto
  next
    case False
    let ?I = "{ai_address info ..< ai_end info}"
    have al': "info \<in> set (al_alloclist A)" "ai_name info = Some name" "al_ok al'" "set al' \<subseteq> set (al_alloclist A)"
        "used_set al' = used_set (al_alloclist A) - ?I" "?I \<subseteq> used_set (al_alloclist A)"
      using alloclist_free_cases [OF D(5), of name] f False by auto
    have info: "0 < ai_size info" "0 \<le> ai_address info" using D(5) al'(1) by (auto simp: al_ok_def)
    have "ai_end info - 1 \<in> ?I" using info(1) by (simp add: ai_end_def)
    then have "ai_end info - 1 \<in> {0 ..< int (al_size A)}" using al'(6) D(7) by blast
    then have range: "ai_end info \<le> int (al_size A)" by simp
    have "?I \<inter> free_set ?F as = {}" using al'(6) D(6) by blast
    then obtain F' as' ss' where F': "freelist_free True ?F (ai_address info) (ai_size info) = Some F'"
        "free_rep F' as' ss'" "fl_same ?F F'" "free_set F' as' = free_set ?F as \<union> ?I"
      using freelist_free_step [OF D(1) info(1), of "ai_address info"] info range D(2,3) by (auto simp: ai_end_def)
    define A' where "A' = A\<lparr>al_alloclist := al', al_freelist := F'\<rparr>"
    have fields: "al_freelist A' = F'" "al_alloclist A' = al'"
      "al_page_size A' = ?p" "al_size A' = al_size A" "al_memory A' = al_memory A" by (simp_all add: A'_def)
    have run: "allocator_free True A name = Some A'" using F'(1) f False by (simp add: allocator_free_def A'_def)
    have p0: "0 < ?p" using k by (simp add: page_bits_def)
    have pc: "page_closed ?p ?I"
      unfolding ai_end_def using page_closed_interval [OF p0 D(9) [OF al'(1)] D(10) [OF al'(1)]] .
    have "alloc_inv A' as' ss'"
      unfolding alloc_inv_def fields al'(5) F'(4)
    proof (intro conjI)
      show "page_closed ?p (free_set ?F as \<union> ?I)" using page_closed_union [OF D(8) pc] .
      show "\<forall>i \<in> set al'. int ?p dvd ai_address i \<and> ?p dvd ai_size i" using D(9,10) al'(4) by blast
      show "(used_set (al_alloclist A) - ?I) \<inter> (free_set ?F as \<union> ?I) = {}" using D(6) by blast
      show "(used_set (al_alloclist A) - ?I) \<union> (free_set ?F as \<union> ?I) = {0 ..< int (al_size A)}" using D(7) al'(6) by blast
    qed (use F' D al' in \<open>auto simp: fl_same_def\<close>)
    then show ?thesis using run fields f F'(4) al'(1,2) ad by (auto simp: ai_end_def)
  qed
qed

section \<open>Printing\<close>

text \<open>What STAT shows for a block: address, size, name.\<close>

definition used_row :: "alloc_info \<Rightarrow> int \<times> nat \<times> string" where
  "used_row i = (ai_address i, ai_size i, case ai_name i of Some n \<Rightarrow> n | None \<Rightarrow> ''(null)'')"

definition free_row :: "freelist \<Rightarrow> ptr \<Rightarrow> int \<times> nat \<times> string" where
  "free_row F q = (nd_address F q, nd_size F q, ''Unused'')"

definition print_row :: "int \<times> nat \<times> string \<Rightarrow> string" where
  "print_row = (\<lambda>(a, s, n). print_block a s n)"

lemma print_loop_used:
  assumes "al \<noteq> []" "p = fl_node F \<or> (p \<in> fl_alloc F \<and> ai_address (hd al) < nd_address F p)"
  shows "allocator_print_loop F al p acc = allocator_print_loop F (tl al) p (acc @ print_row (used_row (hd al)))"
  using assms
  by (subst allocator_print_loop.simps) (auto simp: print_row_def used_row_def print_alloc_block_def)

lemma print_loop_free:
  assumes "p \<in> fl_alloc F" "p \<noteq> fl_node F" "al = [] \<or> \<not> ai_address (hd al) < nd_address F p"
  shows "allocator_print_loop F al p acc = allocator_print_loop F al (nd_next F p) (acc @ print_row (free_row F p))"
  using assms
  by (subst allocator_print_loop.simps) (auto simp: print_row_def free_row_def)

lemma print_loop_merges:
  assumes "seg (nd_next F) prv a qs (fl_node F)" "fl_node F \<notin> set qs" "set qs \<subseteq> fl_alloc F"
    and "sorted (map ai_address al)" "sorted (map (nd_address F) qs)"
  shows "\<exists>ys. allocator_print_loop F al (hd (qs @ [fl_node F])) acc = Some (acc @ concat (map print_row ys)) \<and>
    mset ys = mset (map used_row al @ map (free_row F) qs) \<and> sorted (map fst ys)"
  using assms
proof (induction "length al + length qs" arbitrary: al qs a acc rule: less_induct)
  case less
  let ?p = "hd (qs @ [fl_node F])"
  have lower: "\<forall>y \<in> set ys. b \<le> fst y" if "mset ys = mset (map used_row al' @ map (free_row F) qs')"
      "\<forall>i \<in> set al'. b \<le> ai_address i" "\<forall>q \<in> set qs'. b \<le> nd_address F q" for ys al' qs' b
  proof -
    have "set ys = set (map used_row al' @ map (free_row F) qs')" using that(1) by (metis set_mset_mset)
    then show ?thesis using that(2,3) by (auto simp: used_row_def free_row_def)
  qed
  show ?case
  proof (cases "al \<noteq> [] \<and> (qs = [] \<or> ai_address (hd al) < nd_address F ?p)")
    case True
    then obtain i al' where al: "al = i # al'" by (cases al) auto
    obtain ys where ys: "allocator_print_loop F al' ?p (acc @ print_row (used_row i)) =
          Some ((acc @ print_row (used_row i)) @ concat (map print_row ys))"
        "mset ys = mset (map used_row al' @ map (free_row F) qs)" "sorted (map fst ys)"
      using less.hyps [of al' qs a "acc @ print_row (used_row i)"] less.prems al by auto
    have "allocator_print_loop F al ?p acc = allocator_print_loop F al' ?p (acc @ print_row (used_row i))"
      using print_loop_used [of al ?p F acc] True al less.prems(3) by (cases qs) auto
    moreover have "\<forall>y \<in> set ys. ai_address i \<le> fst y"
    proof (rule lower [OF ys(2)])
      show "\<forall>q \<in> set qs. ai_address i \<le> nd_address F q" using True al less.prems(5) by (cases qs) force+
    qed (use less.prems(4) al in auto)
    ultimately show ?thesis using ys al by (intro exI [of _ "used_row i # ys"]) (auto simp: used_row_def)
  next
    case stop: False
    show ?thesis
    proof (cases qs)
      case Nil
      then have "al = []" using stop by auto
      then show ?thesis using Nil by (intro exI [of _ "[]"]) (simp add: allocator_print_loop.simps)
    next
      case (Cons q qs')
      have q: "q \<in> fl_alloc F" "q \<noteq> fl_node F" "seg (nd_next F) prv q qs' (fl_node F)" "nd_next F q = hd (qs' @ [fl_node F])"
        using less.prems(1-3) Cons by (auto dest: seg_next)
      obtain ys where ys: "allocator_print_loop F al (hd (qs' @ [fl_node F])) (acc @ print_row (free_row F q)) =
            Some ((acc @ print_row (free_row F q)) @ concat (map print_row ys))"
          "mset ys = mset (map used_row al @ map (free_row F) qs')" "sorted (map fst ys)"
        using less.hyps [of al qs' q "acc @ print_row (free_row F q)"] less.prems q(3) Cons by auto
      have "allocator_print_loop F al ?p acc = allocator_print_loop F al (hd (qs' @ [fl_node F])) (acc @ print_row (free_row F q))"
        using print_loop_free [OF q(1,2), of al acc] stop Cons q(4) by auto
      moreover have "\<forall>y \<in> set ys. nd_address F q \<le> fst y"
      proof (rule lower [OF ys(2)])
        show "\<forall>i \<in> set al. nd_address F q \<le> ai_address i" using stop Cons less.prems(4) by (cases al) force+
      qed (use less.prems(5) Cons in auto)
      ultimately show ?thesis using ys Cons by (intro exI [of _ "free_row F q # ys"]) (auto simp: free_row_def)
    qed
  qed
qed

text \<open>\<open>STAT\<close> lists every block, used and unused, in address order.\<close>

definition all_rows :: "allocator \<Rightarrow> ptr list \<Rightarrow> (int \<times> nat \<times> string) list" where
  "all_rows A as = sort_key fst (map used_row (al_alloclist A) @ map (free_row (al_freelist A)) as)"

definition print_header :: "allocator \<Rightarrow> string" where
  "print_header A = ''allocator memory pointer: '' @ fmt_p (al_memory A) @ [newline] @
     ''allocator size: '' @ nat_digits (al_size A) @ '' bytes'' @ [newline] @
     ''allocator page size: '' @ nat_digits (al_page_size A) @ '' bytes'' @ [newline] @
     ''allocator allocation list:'' @ [newline]"

lemma al_ok_sorted: "al_ok al \<Longrightarrow> sorted (map ai_address al) \<and> distinct (map ai_address al)"
proof (induction al)
  case (Cons i al)
  then have "\<forall>j \<in> set al. ai_address i < ai_address j" by (fastforce simp: al_ok_Cons ai_end_def)
  then show ?case using Cons by (force simp: al_ok_Cons)
qed simp

lemma sep_sorted:
  "(\<forall>q \<in> set qs. 0 < nd_size F q) \<Longrightarrow> sorted_wrt (sep F) qs \<Longrightarrow>
   sorted (map (nd_address F) qs) \<and> distinct (map (nd_address F) qs)"
proof (induction qs)
  case (Cons q qs)
  then have "\<forall>r \<in> set qs. nd_address F q < nd_address F r" by (fastforce simp: sep_def blk_end_def)
  then show ?case using Cons by force
qed simp

lemma allocator_print_rows:
  assumes inv: "alloc_inv A as ss"
  shows "allocator_print A = Some (print_header A @ concat (map print_row (all_rows A as)))"
proof -
  note D = alloc_invD [OF inv] and R = free_repD [OF alloc_invD(1) [OF inv]]
  let ?F = "al_freelist A" and ?L = "map used_row (al_alloclist A) @ map (free_row (al_freelist A)) as"
  have pos: "\<forall>q \<in> set as. 0 < nd_size ?F q" using R(7) by (auto simp: in_range_def)
  note so = al_ok_sorted [OF D(5)] and sq = sep_sorted [OF pos R(8)]
  have sg: "seg (nd_next ?F) (nd_prev ?F) (fl_node ?F) as (fl_node ?F)" "fl_node ?F \<notin> set as"
    using R(1) by (auto simp: ring_def)
  obtain ys where ys: "allocator_print_loop ?F (al_alloclist A) (hd (as @ [fl_node ?F])) [] = Some ([] @ concat (map print_row ys))"
      "mset ys = mset ?L" "sorted (map fst ys)"
    using print_loop_merges [OF sg R(10), of "al_alloclist A" "[]"] so sq by auto
  have "inj_on fst (set ?L)"
  proof -
    have "distinct (map fst ?L)"
    proof -
      have "ai_address i \<noteq> nd_address ?F q" if "i \<in> set (al_alloclist A)" "q \<in> set as" for i q
      proof
        assume eq: "ai_address i = nd_address ?F q"
        have "ai_address i \<in> used_set (al_alloclist A)"
          using that(1) D(5) by (force simp: used_set_def al_ok_def ai_end_def)
        moreover have "nd_address ?F q \<in> free_set ?F as"
          using that(2) pos by (force simp: free_set_def blk_end_def)
        ultimately show False using eq D(6) by auto
      qed
      then show ?thesis using so sq by (auto simp: comp_def used_row_def free_row_def)
    qed
    then show ?thesis by (simp only: distinct_map)
  qed
  then have "inj_on fst (set ys)" using ys(2) by (metis set_mset_mset)
  then have "all_rows A as = ys"
    unfolding all_rows_def using sort_key_inj_key_eq [OF ys(2) [symmetric] _ ys(3)] \<open>inj_on fst (set ?L)\<close> by blast
  then show ?thesis
    using ys(1) R(11) ring_head_next [OF R(1)] by (simp add: allocator_print_def print_header_def)
qed

section \<open>Release undoes allocation\<close>

text \<open>A set of addresses determines its maximal intervals, so the blocks follow from the free set.\<close>

definition maximal_blocks :: "(int \<times> nat) list \<Rightarrow> bool" where
  "maximal_blocks bs \<longleftrightarrow> (\<forall>(a, n) \<in> set bs. 0 < n) \<and> sorted_wrt (\<lambda>(a, n) (b, m). a + int n < b) bs"

definition block_set :: "(int \<times> nat) list \<Rightarrow> int set" where
  "block_set bs = (\<Union>(a, n) \<in> set bs. {a ..< a + int n})"

lemma block_set_simps [simp]:
  "block_set [] = {}" "block_set ((a, n) # bs) = {a ..< a + int n} \<union> block_set bs"
  by (auto simp: block_set_def)

lemma maximal_blocks_Cons:
  "maximal_blocks ((a, n) # bs) \<longleftrightarrow> 0 < n \<and> (\<forall>x \<in> block_set bs. a + int n < x) \<and> maximal_blocks bs"
proof -
  have "(\<forall>(b, m) \<in> set bs. a + int n < b) \<longleftrightarrow> (\<forall>x \<in> block_set bs. a + int n < x)" if "\<forall>(a, n) \<in> set bs. 0 < n"
  proof
    assume r: "\<forall>x \<in> block_set bs. a + int n < x"
    show "\<forall>(b, m) \<in> set bs. a + int n < b"
    proof (clarify)
      fix b m assume "(b, m) \<in> set bs"
      then have "b \<in> block_set bs" using that by (force simp: block_set_def)
      then show "a + int n < b" using r by simp
    qed
  qed (fastforce simp: block_set_def)
  then show ?thesis by (auto simp: maximal_blocks_def)
qed

lemma maximal_blocks_head:
  assumes "maximal_blocks ((a, n) # bs)" "maximal_blocks ((b, m) # cs)"
    and "block_set ((a, n) # bs) \<subseteq> block_set ((b, m) # cs)"
  shows "b \<le> a" and "a = b \<Longrightarrow> n \<le> m"
proof -
  have n: "0 < n" "\<forall>x \<in> block_set cs. b + int m < x" using assms(1,2) by (auto simp: maximal_blocks_Cons)
  have "a \<in> block_set ((a, n) # bs)" using n(1) by simp
  then have "a \<in> block_set ((b, m) # cs)" using assms(3) by blast
  then have "(b \<le> a \<and> a < b + int m) \<or> a \<in> block_set cs" by simp
  then show "b \<le> a" using n(2) by fastforce
  show "n \<le> m" if eq: "a = b"
  proof (rule ccontr)
    assume "\<not> n \<le> m"
    then have "b + int m \<in> block_set ((a, n) # bs)" using eq by simp
    then have "b + int m \<in> block_set ((b, m) # cs)" using assms(3) by blast
    then show False using n(2) by auto
  qed
qed

lemma maximal_blocks_unique:
  "maximal_blocks bs \<Longrightarrow> maximal_blocks cs \<Longrightarrow> block_set bs = block_set cs \<Longrightarrow> bs = cs"
proof (induction bs arbitrary: cs)
  case Nil
  then show ?case by (cases cs) (auto simp: maximal_blocks_Cons)
next
  case (Cons p bs)
  obtain a n where p: "p = (a, n)" by (cases p)
  have "cs \<noteq> []"
  proof
    assume "cs = []"
    then have "block_set ((a, n) # bs) = {}" using Cons.prems(3) p by simp
    moreover have "a \<in> block_set ((a, n) # bs)" using Cons.prems(1) p by (auto simp: maximal_blocks_Cons)
    ultimately show False by blast
  qed
  then obtain b m cs' where cs: "cs = (b, m) # cs'" by (cases cs) auto
  note h1 = maximal_blocks_head [OF Cons.prems(1,2) [unfolded p cs] equalityD1 [OF Cons.prems(3) [unfolded p cs]]]
  note h2 = maximal_blocks_head [OF Cons.prems(2,1) [unfolded p cs] equalityD2 [OF Cons.prems(3) [unfolded p cs]]]
  have ab: "a = b" "n = m" using h1 h2 by force+
  have "block_set bs = block_set ((a, n) # bs) - {a ..< a + int n}" "block_set cs' = block_set ((b, m) # cs') - {b ..< b + int m}"
    using Cons.prems(1,2) p cs by (fastforce simp: maximal_blocks_Cons)+
  then have "block_set bs = block_set cs'" using Cons.prems(3) p cs ab by simp
  then have "bs = cs'" using Cons.IH Cons.prems(1,2) p cs by (simp add: maximal_blocks_Cons)
  then show ?case using p cs ab by simp
qed

lemma free_rep_blocks:
  assumes "free_rep F as ss"
  shows "maximal_blocks (map (\<lambda>q. (nd_address F q, nd_size F q)) as)"
    "block_set (map (\<lambda>q. (nd_address F q, nd_size F q)) as) = free_set F as"
proof -
  have "sep F = (\<lambda>x y. nd_address F x + int (nd_size F x) < nd_address F y)"
    by (auto simp: sep_def blk_end_def fun_eq_iff)
  then show "maximal_blocks (map (\<lambda>q. (nd_address F q, nd_size F q)) as)"
    using free_repD(7,8) [OF assms] by (auto simp: maximal_blocks_def sorted_wrt_map in_range_def)
qed (auto simp: block_set_def free_set_def blk_end_def)

lemma alloclist_free_link_after:
  assumes "\<forall>i \<in> set al. ai_name i \<noteq> Some name" "ai_name node = Some name"
  shows "alloclist_free (link_after node al) name = (al, node)"
  using assms by (induction al) auto

lemma alloclist_free_alloc:
  assumes "\<forall>i \<in> set al. ai_name i \<noteq> Some name"
  shows "alloclist_free (alloclist_alloc al name a n) name = (al, \<lparr>ai_name = Some name, ai_address = a, ai_size = n\<rparr>)"
  using assms alloclist_free_link_after [of "tl al" name "\<lparr>ai_name = Some name, ai_address = a, ai_size = n\<rparr>"]
  by (cases al) (auto simp: alloclist_alloc_def Let_def)

lemma alloclist_link_other:
  assumes "ai_name node \<noteq> Some other"
  shows "alloclist_address (link_after node al) other = alloclist_address al other \<and>
    alloclist_size (link_after node al) other = alloclist_size al other"
  using assms by (induction al) auto

lemma alloclist_alloc_other:
  assumes "other \<noteq> name"
  shows "alloclist_address (alloclist_alloc al name a n) other = alloclist_address al other"
    "alloclist_size (alloclist_alloc al name a n) other = alloclist_size al other"
  using assms alloclist_link_other [of "\<lparr>ai_name = Some name, ai_address = a, ai_size = n\<rparr>" other]
  by (cases al; simp add: alloclist_alloc_def Let_def)+

lemma alloclist_address_range: "al_ok al \<Longrightarrow> alloclist_address al name = -1 \<or> 0 \<le> alloclist_address al name"
  by (induction al) (auto simp: al_ok_Cons)

lemma allocator_address_null:
  assumes "al_ok (al_alloclist A)" "0 < al_memory A"
  shows "allocator_address A name = 0 \<longleftrightarrow> alloclist_address (al_alloclist A) name = -1"
  using alloclist_address_range [OF assms(1), of name] assms(2) by (auto simp: allocator_address_def Let_def)

section \<open>The properties\<close>

text \<open>
  C11 (functional). Under each of the three policies, an allocation on a well-formed allocator fails, with no
  effect, exactly when no free block has the size rounded up to pages; otherwise the address returned
  is page aligned, the interval was free, is used afterwards under the name, and nothing else changes hands.
\<close>

theorem allocator_alloc_spec:
  assumes "alloc_inv A as ss" "page_bits A k" "0 < n" "n + 2 ^ k \<le> 2 ^ 64"
    and "policy = first_fit \<or> policy = best_fit \<or> policy = worst_fit"
    and "r = allocator_internal_roundup (al_page_size A) n"
  shows "\<exists>A' v as' ss'. allocator_alloc A name n policy = Some (A', v) \<and> alloc_inv A' as' ss' \<and>
    al_memory A' = al_memory A \<and> al_size A' = al_size A \<and> al_page_size A' = al_page_size A \<and>
    (if \<exists>q \<in> set as. r \<le> nd_size (al_freelist A) q
     then \<exists>a. v = al_memory A + a \<and> 0 \<le> a \<and> int (al_page_size A) dvd a \<and> {a ..< a + int r} \<subseteq> free_set (al_freelist A) as \<and>
       al_alloclist A' = alloclist_alloc (al_alloclist A) name a r \<and>
       free_set (al_freelist A') as' = free_set (al_freelist A) as - {a ..< a + int r}
     else A' = A \<and> v = 0 \<and> as' = as \<and> ss' = ss)"
  using assms(5) first.allocator_alloc_step [OF assms(1-4,6), of name]
    best.allocator_alloc_step [OF assms(1-4,6), of name] worst.allocator_alloc_step [OF assms(1-4,6), of name]
  by blast

theorem allocator_alloc_spec_witness:
  "\<exists>A' v as' ss'. allocator_alloc (allocator_create 1000 16384 4096) ''x'' 5000 best_fit = Some (A', v) \<and> alloc_inv A' as' ss' \<and>
     (\<exists>a. v = 1000 + a \<and> 4096 dvd a \<and> {a ..< a + 8192} \<subseteq> free_set (freelist_create 0 16384) [2])"
proof -
  let ?A = "allocator_create 1000 16384 4096"
  have inv: "alloc_inv ?A [2] [2]" using allocator_create_inv [of 16384 4096 1000] by simp
  have k: "page_bits ?A 12" by (simp add: page_bits_def allocator_create_def)
  have r: "8192 = allocator_internal_roundup (al_page_size ?A) 5000"
    using roundup_pow2 [of 12 5000] by (simp add: allocator_create_def)
  have fits: "\<exists>q \<in> set [2]. 8192 \<le> nd_size (al_freelist ?A) q"
    by (simp add: allocator_create_def freelist_create_def)
  have fields: "al_memory ?A = 1000" "al_page_size ?A = 4096" "al_freelist ?A = freelist_create 0 16384"
    by (simp_all add: allocator_create_def)
  show ?thesis
    using allocator_alloc_spec [OF inv k _ _ _ r, of best_fit "''x''"] fits unfolding fields by fastforce
qed

text \<open>The policies choose as their names say: first fit the fitting block of lowest
  address, best fit one of smallest size, worst fit one of the largest size of the whole list.\<close>

lemma fit_policies_choose:
  assumes "free_rep F as ss" "0 < n" "q \<in> set as" "n \<le> nd_size F q"
  shows "(\<exists>F' r. first_fit F n = Some (F', nd_address F r) \<and> r \<in> set as \<and> n \<le> nd_size F r \<and>
      (\<forall>t \<in> set as. n \<le> nd_size F t \<longrightarrow> nd_address F r \<le> nd_address F t)) \<and>
    (\<exists>F' r. best_fit F n = Some (F', nd_address F r) \<and> r \<in> set as \<and> n \<le> nd_size F r \<and>
      (\<forall>t \<in> set as. n \<le> nd_size F t \<longrightarrow> nd_size F r \<le> nd_size F t)) \<and>
    (\<exists>F' r. worst_fit F n = Some (F', nd_address F r) \<and> r \<in> set as \<and> n \<le> nd_size F r \<and>
      (\<forall>t \<in> set as. nd_size F t \<le> nd_size F r))"
  using first_fit_lowest [OF assms] best_fit_smallest [OF assms] worst_fit_largest [OF assms] by blast

lemma fit_policies_choose_witness:
  "\<exists>F' r. worst_fit (freelist_create 0 64) 16 = Some (F', nd_address (freelist_create 0 64) r) \<and> r \<in> set [2]"
proof -
  have rep: "free_rep (freelist_create 0 64) [2] [2]" using freelist_create_rep [of 64 0] by simp
  show ?thesis using fit_policies_choose [OF rep, of 16 2] by (fastforce simp: freelist_create_def)
qed




text \<open>
  With a power of two as page size and no overflow, the rounded size is the least multiple of
  the page size that holds the request.
\<close>

lemma allocator_roundup_least:
  assumes "k < 64" "sz + 2 ^ k \<le> 2 ^ 64"
  shows "sz \<le> allocator_internal_roundup (2 ^ k) sz \<and> 2 ^ k dvd allocator_internal_roundup (2 ^ k) sz \<and>
    (\<forall>m. 2 ^ k dvd m \<longrightarrow> sz \<le> m \<longrightarrow> allocator_internal_roundup (2 ^ k) sz \<le> m)"
proof -
  let ?p = "2 ^ k :: nat"
  have r: "allocator_internal_roundup ?p sz = (sz + ?p - 1) div ?p * ?p" using roundup_pow2 [OF assms] .
  have p: "0 < ?p" by simp
  have "sz \<le> (sz + ?p - 1) div ?p * ?p"
  proof -
    have "(sz + ?p - 1) div ?p * ?p + (sz + ?p - 1) mod ?p = sz + ?p - 1" by (rule div_mult_mod_eq)
    moreover have "(sz + ?p - 1) mod ?p < ?p" using p by (rule mod_less_divisor)
    ultimately show ?thesis using p by linarith
  qed
  moreover have "(sz + ?p - 1) div ?p * ?p \<le> m" if m: "?p dvd m" "sz \<le> m" for m
  proof -
    obtain c where c: "m = ?p * c" using m(1) by (rule dvdE)
    have "sz + ?p - 1 < ?p * c + ?p" using m(2) p unfolding c by linarith
    then have "sz + ?p - 1 < (c + 1) * ?p" by (simp add: algebra_simps)
    then have "(sz + ?p - 1) div ?p < c + 1" by (rule less_mult_imp_div_less)
    then have "(sz + ?p - 1) div ?p * ?p \<le> c * ?p" by (intro mult_le_mono1) simp
    then show ?thesis by (simp add: c mult.commute)
  qed
  ultimately show ?thesis unfolding r by simp
qed

lemma allocator_roundup_least_witness:
  "(5000::nat) \<le> allocator_internal_roundup (2 ^ 12) 5000 \<and> 2 ^ 12 dvd allocator_internal_roundup (2 ^ 12) 5000"
  using allocator_roundup_least [of 12 5000] by simp

text \<open>
  Near the top of \<open>size_t\<close> the rounded size wraps around to 0: such a request succeeds on any
  list that has a block, takes no memory, and a second one is given the same address.
\<close>

lemma allocator_roundup_wraps:
  "allocator_internal_roundup 4096 (2 ^ 64 - 1) = 0 \<and>
   map_option snd (allocator_alloc (allocator_create 1000 16384 4096) ''x'' (2 ^ 64 - 1) first_fit) = Some 1000 \<and>
   map_option snd (do {
     (A1, v) \<leftarrow> allocator_alloc (allocator_create 1000 16384 4096) ''x'' (2 ^ 64 - 1) first_fit;
     allocator_alloc A1 ''y'' (2 ^ 64 - 1) first_fit
   }) = Some 1000"
proof -
  have "map_option snd (allocator_alloc (allocator_create 1000 16384 4096) ''x'' n first_fit) = Some 1000"
    "map_option snd (do {
      (A1, v) \<leftarrow> allocator_alloc (allocator_create 1000 16384 4096) ''x'' n first_fit;
      allocator_alloc A1 ''y'' n first_fit
    }) = Some 1000" if r: "allocator_internal_roundup 4096 n = 0" for n
    by (simp_all add: r allocator_eval cong: eval_congs)
  moreover have "allocator_internal_roundup 4096 (2 ^ 64 - 1) = 0" by (simp add: allocator_internal_roundup_def)
  ultimately show ?thesis by blast
qed

text \<open>
  C14 (error). \<open>freelist_internal_merge\<close> reads a node after freeing it: under the C standard, releasing a block
  whose right neighbour is free is undefined behaviour.
\<close>

theorem allocator_free_use_after_free:
  assumes "alloc_inv A as ss" "i \<in> set (al_alloclist A)" "ai_name i = Some name"
    and "\<forall>j \<in> set (al_alloclist A). ai_name j = Some name \<longrightarrow> j = i"
    and "b \<in> set as" "nd_address (al_freelist A) b = ai_end i"
  shows "allocator_free False A name = None"
proof -
  note D = alloc_invD [OF assms(1)]
  obtain al' info where f: "alloclist_free (al_alloclist A) name = (al', info)"
    by (cases "alloclist_free (al_alloclist A) name")
  have "ai_address info \<noteq> -1" "info \<in> set (al_alloclist A)" "ai_name info = Some name"
      "{ai_address info ..< ai_end info} \<subseteq> used_set (al_alloclist A)"
    using alloclist_free_cases [OF D(5), of name] f assms(2,3) by (auto split: if_splits)
  then have info: "ai_address i \<noteq> -1" "info = i" "{ai_address i ..< ai_end i} \<subseteq> used_set (al_alloclist A)"
    using assms(4) by auto
  have i: "0 < ai_size i" "0 \<le> ai_address i" using D(5) assms(2) by (auto simp: al_ok_def)
  have "{ai_address i ..< ai_address i + int (ai_size i)} \<inter> free_set (al_freelist A) as = {}"
    using info(3) D(6) unfolding ai_end_def by blast
  moreover have "ai_end i \<le> int (al_size A)"
  proof -
    have "ai_end i - 1 \<in> {ai_address i ..< ai_end i}" using i by (simp add: ai_end_def)
    then have "ai_end i - 1 \<in> {0 ..< int (al_size A)}" using info(3) D(7) by blast
    then show ?thesis by simp
  qed
  ultimately have "freelist_free False (al_freelist A) (ai_address i) (ai_size i) = None"
    using freelist_free_strict [OF D(1) i(1) _ _ _ assms(5)] i(2) assms(6) D(2,3) by (simp add: ai_end_def)
  then show ?thesis using f info(1,2) by (simp add: allocator_free_def)
qed

theorem allocator_free_use_after_free_witness:
  "\<exists>A v. allocator_alloc (allocator_create 1000 16384 4096) ''x'' 5000 first_fit = Some (A, v) \<and>
     allocator_free False A ''x'' = None"
proof -
  let ?A = "allocator_create 1000 16384 4096"
  have inv: "alloc_inv ?A [2] [2]" using allocator_create_inv [of 16384 4096 1000] by simp
  have k: "page_bits ?A 12" by (simp add: page_bits_def allocator_create_def)
  have r: "allocator_internal_roundup 4096 5000 = 8192" using roundup_pow2 [of 12 5000] by simp
  obtain A where A: "allocator_alloc ?A ''x'' 5000 first_fit = Some (A, 1000)"
      "al_alloclist A = [\<lparr>ai_name = Some ''x'', ai_address = 0, ai_size = 8192\<rparr>]"
    by (simp add: r allocator_eval cong: eval_congs)
  obtain as ss where as: "alloc_inv A as ss" "al_size A = 16384"
    using first.allocator_alloc_step [OF inv k, of 5000 _ "''x''"] A(1) by (auto simp: allocator_create_def)
  note D = alloc_invD [OF as(1)]
  have free: "{0 ..< 8192} \<inter> free_set (al_freelist A) as = {}" "{0 ..< 8192} \<union> free_set (al_freelist A) as = {0 ..< 16384}"
    using D(6,7) as(2) A(2) by (auto simp: ai_end_def)
  have "8192 \<in> {0 ..< 16384 :: int}" "8192 \<notin> {0 ..< 8192 :: int}" by simp_all
  then have "8192 \<in> free_set (al_freelist A) as" using free(2) by blast
  then obtain b where b: "b \<in> set as" "nd_address (al_freelist A) b \<le> 8192" "8192 < blk_end (al_freelist A) b"
    by (auto simp: free_set_def)
  have "nd_address (al_freelist A) b \<in> free_set (al_freelist A) as" using b by (force simp: free_set_def)
  moreover have "0 \<le> nd_address (al_freelist A) b"
    using free_repD(7) [OF D(1) b(1)] D(2) by (simp add: in_range_def)
  ultimately have "nd_address (al_freelist A) b = 8192"
    using free(1) b(2) by (metis IntI atLeastLessThan_iff empty_iff order_le_less)
  moreover have "allocator_free False A ''x'' = None"
    using b(1) \<open>nd_address (al_freelist A) b = 8192\<close>
    by (intro allocator_free_use_after_free [OF as(1), of "\<lparr>ai_name = Some ''x'', ai_address = 0, ai_size = 8192\<rparr>" "''x''" b])
      (simp_all add: A(2) ai_end_def)
  ultimately show ?thesis using A(1) by blast
qed

end
