(* ===== verification/C_Int.thy ===== *)
theory C_Int
  imports Prelude "HOL-Library.Word"
begin

text \<open>
  C's \<open>int\<close>: 32 bits.  \<open>atoi\<close> with its cut to \<open>int\<close>, and reading back what \<open>%d\<close> prints.
\<close>

definition as_int :: "int \<Rightarrow> int" where
  "as_int n = sint (word_of_int n :: 32 word)"

text \<open>\<open>atoi\<close> as \<open>(int) strtol(s, NULL, 10)\<close>: clamped to 64 bits, then cut to 32.\<close>

definition atoi_int :: "string \<Rightarrow> int" where
  "atoi_int s = as_int (max (- (2 ^ 63)) (min (2 ^ 63 - 1) (atoi s)))"

lemma as_int_id: "- (2 ^ 31) \<le> n \<Longrightarrow> n < 2 ^ 31 \<Longrightarrow> as_int n = n"
  by (simp add: as_int_def signed_of_int signed_take_bit_int_eq_self)

lemma atoi_int_upper: "atoi_int s < 2 ^ 31"
  using sint_lt [of "word_of_int (max (- (2 ^ 63)) (min (2 ^ 63 - 1) (atoi s))) :: 32 word"]
  by (simp add: atoi_int_def as_int_def)

lemma atoi_int_id:
  assumes "- (2 ^ 31) \<le> atoi s" "atoi s < 2 ^ 31"
  shows "atoi_int s = atoi s"
proof -
  have "max (- (2 ^ 63)) (min (2 ^ 63 - 1) (atoi s)) = atoi s" using assms by simp
  then show ?thesis unfolding atoi_int_def using as_int_id [OF assms] by simp
qed

section \<open>Reading back printed numbers\<close>

lemma of_char_digit: "n < 10 \<Longrightarrow> of_char (char_of (48 + n) :: char) = (48 + n :: nat)"
  by simp

lemma is_digit_digit: "n < 10 \<Longrightarrow> is_digit (char_of (48 + n :: nat))"
  by (simp add: is_digit_def)

lemma nat_digits_digits: "\<forall>c \<in> set (nat_digits n). is_digit c"
  by (induction n rule: nat_digits.induct) (subst nat_digits.simps, auto simp: is_digit_digit)

lemma nat_digits_ne [simp]: "nat_digits n \<noteq> []"
  by (subst nat_digits.simps) simp

lemma digits_value_append:
  "\<forall>c \<in> set xs. is_digit c \<Longrightarrow> digits_value a (xs @ ys) = digits_value (digits_value a xs) ys"
  by (induction xs arbitrary: a) auto

lemma digits_value_nat_digits:
  "digits_value a (nat_digits n) = a * 10 ^ length (nat_digits n) + n"
proof (induction n arbitrary: a rule: nat_digits.induct)
  case (1 n)
  show ?case
  proof (cases "n < 10")
    case True
    then show ?thesis by (subst (1 2) nat_digits.simps) (simp add: is_digit_digit)
  next
    case False
    let ?m = "n div 10"
    have split: "nat_digits n = nat_digits ?m @ [char_of (48 + n mod 10)]" using False by (subst nat_digits.simps) simp
    have "digits_value a (nat_digits n) = digits_value (a * 10 ^ length (nat_digits ?m) + ?m) [char_of (48 + n mod 10)]"
      unfolding split digits_value_append [OF nat_digits_digits] "1.IH" [OF False] ..
    also have "\<dots> = 10 * (a * 10 ^ length (nat_digits ?m) + ?m) + n mod 10" by (simp add: is_digit_digit)
    also have "\<dots> = a * 10 ^ length (nat_digits n) + n"
      unfolding split by (simp add: algebra_simps)
    finally show ?thesis .
  qed
qed

lemma digits_value_stop: "rest = [] \<or> \<not> is_digit (hd rest) \<Longrightarrow> digits_value a (nat_digits n @ rest) = digits_value a (nat_digits n)"
  by (cases rest) (auto simp: digits_value_append nat_digits_digits)

lemma digit_not_space: "is_digit c \<Longrightarrow> \<not> is_space c \<and> c \<noteq> CHR ''-'' \<and> c \<noteq> CHR ''+'' \<and> c \<noteq> newline \<and> c \<noteq> CHR 0x00 \<and> c \<noteq> CHR '',''"
  by (auto simp: is_digit_def is_space_def)

lemma atoi_fmt_d:
  assumes "\<forall>c \<in> set sp. is_space c" "rest = [] \<or> \<not> is_digit (hd rest)"
  shows "atoi (sp @ fmt_d n @ rest) = n"
proof -
  have dig: "\<forall>c \<in> set (nat_digits m). is_digit c" for m by (rule nat_digits_digits)
  have skip: "dropWhile is_space (sp @ ys) = dropWhile is_space ys" for ys using assms(1) by (induction sp) auto
  show ?thesis
  proof (cases "n < 0")
    case True
    then show ?thesis
      using digits_value_stop [OF assms(2), of 0 "nat (- n)"]
      by (simp add: atoi_def skip fmt_d_def digits_value_nat_digits is_space_def)
  next
    case False
    obtain c cs where d: "nat_digits (nat n) = c # cs" by (cases "nat_digits (nat n)") auto
    then have c: "is_digit c" using dig [of "nat n"] by auto
    have "dropWhile is_space (nat_digits (nat n) @ rest) = c # cs @ rest" using digit_not_space [OF c] by (simp add: d)
    then show ?thesis
      using False digits_value_stop [OF assms(2), of 0 "nat n"] digits_value_nat_digits [of 0 "nat n"] digit_not_space [OF c]
      by (simp add: atoi_def skip fmt_d_def d)
  qed
qed

end
