(* ===== verification/Allocator_CLI.thy ===== *)
theory Allocator_CLI
  imports Allocator C_Int
begin

text \<open>
  The command line of the page allocator, \<open>CS2303 Operating System/Project 7/main.c\<close>, and the
  properties of whole sessions.  One round reads a line with \<open>fgets\<close>, splits it with \<open>strtok\<close> and runs
  the command; the standard output is a string.
\<close>

section \<open>The program\<close>

definition STYLE_PROMPT :: string where
  "STYLE_PROMPT = CHR 0x1B # ''[34m'' @ CHR 0x1B # ''[1m''"

definition STYLE_RESET :: string where
  "STYLE_RESET = CHR 0x1B # ''[0m'' @ CHR 0x1B # ''[22m''"

definition MEMORY_SIZE :: nat where
  "MEMORY_SIZE = 1048576"

definition PAGE_SIZE :: nat where
  "PAGE_SIZE = 4096"

definition BUFFER_SIZE :: nat where
  "BUFFER_SIZE = 128"

definition PRINT_RQ_USAGE :: string where
  "PRINT_RQ_USAGE = ''Usage: RQ <block_name> <block_size> <allocate_policy: F/B/W>'' @ [newline]"

definition PRINT_RL_USAGE :: string where
  "PRINT_RL_USAGE = ''Usage: RL <block_name>'' @ [newline]"

definition PRINT_STAT_USAGE :: string where
  "PRINT_STAT_USAGE = ''Usage: STAT'' @ [newline]"

definition PRINT_UNKNOWN_CMD :: string where
  "PRINT_UNKNOWN_CMD = ''Unknown command: type HELP for more information'' @ [newline]"

definition PRINT_HELP :: string where
  "PRINT_HELP = ''HELP:'' @ [newline] @ ''Request a memory block:'' @ [newline] @ PRINT_RQ_USAGE @
     ''Release a memory block:'' @ [newline] @ PRINT_RL_USAGE @
     ''Print the status of the memory:'' @ [newline] @ PRINT_STAT_USAGE @
     ''Exit the program:'' @ [newline] @ ''EXIT'' @ [newline]"

text \<open>The \<open>switch\<close> on the policy letter.\<close>

definition policy_of :: "char \<Rightarrow> (freelist \<Rightarrow> nat \<Rightarrow> (freelist \<times> int) option) option" where
  "policy_of c = (if c = CHR ''F'' then Some first_fit else if c = CHR ''B'' then Some best_fit
     else if c = CHR ''W'' then Some worst_fit else None)"

type_synonym cli_step = "(allocator \<times> string) option"

definition command_RQ :: "allocator \<Rightarrow> string list \<Rightarrow> cli_step" where
  "command_RQ A args = (case args of
       [] \<Rightarrow> Some (A, PRINT_RQ_USAGE)
     | block_name # args1 \<Rightarrow>
         (if allocator_address A block_name \<noteq> 0
          then Some (A, ''Memory block \"'' @ block_name @ ''\" already exists'' @ [newline])
          else case args1 of
            [] \<Rightarrow> Some (A, PRINT_RQ_USAGE)
          | size_token # args2 \<Rightarrow>
              (let block_size = atoi_int size_token in
               if block_size \<le> 0 then Some (A, ''Block size must be a positive integer'' @ [newline])
               else case args2 of
                 [] \<Rightarrow> Some (A, PRINT_RQ_USAGE)
               | policy_token # args3 \<Rightarrow>
                   (case policy_of (hd policy_token) of
                      None \<Rightarrow> Some (A, ''Unknown allocation policy: '' @ [hd policy_token] @ [newline])
                    | Some policy \<Rightarrow>
                        (if args3 \<noteq> [] then Some (A, PRINT_RQ_USAGE)
                         else do {
                           (A1, address) \<leftarrow> allocator_alloc A block_name (nat block_size) policy;
                           Some (A1, if address = 0 then ''Memory allocation failed'' @ [newline] else [])
                         })))))"

definition command_RL :: "bool \<Rightarrow> allocator \<Rightarrow> string list \<Rightarrow> cli_step" where
  "command_RL stale A args = (case args of
       [] \<Rightarrow> Some (A, PRINT_RL_USAGE)
     | block_name # args1 \<Rightarrow>
         (if args1 \<noteq> [] then Some (A, PRINT_RL_USAGE)
          else if allocator_address A block_name = 0
          then Some (A, ''Memory block \"'' @ block_name @ ''\" does not exist'' @ [newline])
          else do { A1 \<leftarrow> allocator_free stale A block_name; Some (A1, []) }))"

definition command_STAT :: "allocator \<Rightarrow> string list \<Rightarrow> cli_step" where
  "command_STAT A args =
     (if args \<noteq> [] then Some (A, PRINT_STAT_USAGE)
      else do { s \<leftarrow> allocator_print A; Some (A, s) })"

text \<open>One round on the contents of the buffer; the flag is the \<open>break\<close> of EXIT.\<close>

definition cli_command :: "bool \<Rightarrow> allocator \<Rightarrow> string \<Rightarrow> (allocator \<times> string \<times> bool) option" where
  "cli_command stale A buffer =
     (case tokens (\<lambda>c. c = CHR '' '' \<or> c = newline) (takeWhile (\<lambda>c. c \<noteq> CHR 0x00) buffer) of
        [] \<Rightarrow> Some (A, [], False)
      | token # args \<Rightarrow>
          (if token = ''HELP'' then Some (A, PRINT_HELP, False)
           else if token = ''RQ'' then do { (A1, out) \<leftarrow> command_RQ A args; Some (A1, out, False) }
           else if token = ''RL'' then do { (A1, out) \<leftarrow> command_RL stale A args; Some (A1, out, False) }
           else if token = ''STAT'' then do { (A1, out) \<leftarrow> command_STAT A args; Some (A1, out, False) }
           else if token = ''EXIT'' then Some (A, [], True)
           else Some (A, PRINT_UNKNOWN_CMD, False)))"

text \<open>At end of file \<open>fgets\<close> leaves the buffer as \<open>memset\<close> made it: empty.\<close>

definition cli_read :: "string \<Rightarrow> string \<times> string" where
  "cli_read stream = (case fgets BUFFER_SIZE stream of None \<Rightarrow> ([], stream) | Some (buffer, rest) \<Rightarrow> (buffer, rest))"

text \<open>The first \<open>n\<close> rounds of the loop, fewer after EXIT: state, rest of the input, output, and whether it left.\<close>

fun command_line_interface ::
  "nat \<Rightarrow> bool \<Rightarrow> allocator \<Rightarrow> string \<Rightarrow> string \<Rightarrow> (allocator \<times> string \<times> string \<times> bool) option" where
  "command_line_interface 0 stale A stream acc = Some (A, stream, acc, False)"
| "command_line_interface (Suc n) stale A stream acc =
     (let (buffer, rest) = cli_read stream in do {
        (A1, out, stop) \<leftarrow> cli_command stale A buffer;
        (if stop then Some (A1, rest, acc @ STYLE_PROMPT @ ''allocator > '' @ STYLE_RESET @ out, True)
         else command_line_interface n stale A1 rest (acc @ STYLE_PROMPT @ ''allocator > '' @ STYLE_RESET @ out))
      })"

text \<open>\<open>main\<close>: \<open>None\<close> when the loop is still running after \<open>n\<close> rounds; \<open>memory\<close> is the address of the array.\<close>

definition allocator_main :: "nat \<Rightarrow> bool \<Rightarrow> int \<Rightarrow> string \<Rightarrow> (allocator \<times> string) option" where
  "allocator_main n stale memory stream = do {
     (A, rest, out, left_loop) \<leftarrow> command_line_interface n stale (allocator_create memory MEMORY_SIZE PAGE_SIZE) stream [];
     ensure left_loop;
     A1 \<leftarrow> allocator_destroy A;
     Some (A1, out)
   }"

section \<open>Sessions\<close>

text \<open>The state between two commands: the allocator's invariant, and no name twice.\<close>

definition session_inv :: "int \<Rightarrow> allocator \<Rightarrow> bool" where
  "session_inv memory A \<longleftrightarrow> (\<exists>as ss. alloc_inv A as ss) \<and> page_bits A 12 \<and> al_size A = MEMORY_SIZE \<and>
     al_memory A = memory \<and> distinct (map ai_name (al_alloclist A))"

lemma names_link_after: "mset (link_after node al) = add_mset node (mset al)"
  by (induction al) auto

lemma names_alloclist_alloc:
  "distinct (map ai_name (alloclist_alloc al name a n)) \<longleftrightarrow>
     distinct (map ai_name al) \<and> (\<forall>i \<in> set al. ai_name i \<noteq> Some name)"
proof -
  let ?n = "\<lparr>ai_name = Some name, ai_address = a, ai_size = n\<rparr>"
  have "mset (alloclist_alloc al name a n) = mset (?n # al)"
    by (cases al) (auto simp: alloclist_alloc_def Let_def names_link_after)
  then have "mset (map ai_name (alloclist_alloc al name a n)) = mset (map ai_name (?n # al))" by (metis mset_map)
  then have "distinct (map ai_name (alloclist_alloc al name a n)) = distinct (map ai_name (?n # al))"
    by (rule mset_eq_imp_distinct_iff)
  then show ?thesis by force
qed

lemma set_alloclist_free: "set (fst (alloclist_free al name)) \<subseteq> set al"
  by (induction al) (auto split: prod.splits)

lemma names_alloclist_free:
  "distinct (map ai_name al) \<Longrightarrow> distinct (map ai_name (fst (alloclist_free al name)))"
proof (induction al)
  case (Cons i al)
  then show ?case using set_alloclist_free [of al name] by (auto split: prod.splits)
qed simp

lemma policy_of_cases: "policy_of c = Some p \<Longrightarrow> p = first_fit \<or> p = best_fit \<or> p = worst_fit"
  by (auto simp: policy_of_def split: if_splits)

lemma session_alloc:
  assumes inv: "session_inv memory A" and pos: "0 < memory" and fresh: "allocator_address A name = 0"
    and n: "0 < n" "n < 2 ^ 31" and p: "policy = first_fit \<or> policy = best_fit \<or> policy = worst_fit"
  shows "\<exists>A' v. allocator_alloc A name n policy = Some (A', v) \<and> session_inv memory A'"
proof -
  obtain as ss where A: "alloc_inv A as ss" "page_bits A 12" "al_size A = MEMORY_SIZE" "al_memory A = memory"
      "distinct (map ai_name (al_alloclist A))"
    using inv by (auto simp: session_inv_def)
  have n2: "n + 2 ^ 12 \<le> 2 ^ 64" using n(2) by simp
  define r where r: "r = allocator_internal_roundup (al_page_size A) n"
  obtain A' v as' ss' where A': "allocator_alloc A name n policy = Some (A', v)" "alloc_inv A' as' ss'"
      "al_memory A' = al_memory A" "al_size A' = al_size A" "al_page_size A' = al_page_size A"
      "A' = A \<or> (\<exists>a. al_alloclist A' = alloclist_alloc (al_alloclist A) name a r)"
    using p first.allocator_alloc_step [OF A(1,2) n(1) n2 r, of name] best.allocator_alloc_step [OF A(1,2) n(1) n2 r, of name]
      worst.allocator_alloc_step [OF A(1,2) n(1) n2 r, of name] by (metis (no_types, lifting))
  have "alloclist_address (al_alloclist A) name = -1"
    using allocator_address_null [OF alloc_invD(5) [OF A(1)]] A(4) pos fresh by simp
  then have "\<forall>i \<in> set (al_alloclist A). ai_name i \<noteq> Some name"
    using alloclist_address_cases [OF alloc_invD(5) [OF A(1)], of name] by blast
  then have "distinct (map ai_name (al_alloclist A'))"
    using A'(6) A(5) names_alloclist_alloc by auto
  then show ?thesis using A' A by (auto simp: session_inv_def page_bits_def)
qed

lemma session_free:
  assumes inv: "session_inv memory A"
  shows "\<exists>A'. allocator_free True A name = Some A' \<and> session_inv memory A'"
proof -
  obtain as ss where A: "alloc_inv A as ss" "page_bits A 12" "al_size A = MEMORY_SIZE" "al_memory A = memory"
      "distinct (map ai_name (al_alloclist A))"
    using inv by (auto simp: session_inv_def)
  obtain A' as' ss' where A': "allocator_free True A name = Some A'" "alloc_inv A' as' ss'" "al_memory A' = al_memory A"
      "al_size A' = al_size A" "al_page_size A' = al_page_size A" "al_alloclist A' = fst (alloclist_free (al_alloclist A) name)"
    using allocator_free_step [OF A(1,2), of name] by blast
  then show ?thesis using A names_alloclist_free [OF A(5), of name] by (auto simp: session_inv_def page_bits_def)
qed

lemma session_command:
  assumes inv: "session_inv memory A" and pos: "0 < memory"
  shows "\<exists>A' out stop. cli_command True A buffer = Some (A', out, stop) \<and> session_inv memory A'"
proof -
  have RQ: "\<exists>A' out. command_RQ A args = Some (A', out) \<and> session_inv memory A'" for args
  proof -
    have alloc: "\<exists>A' v. allocator_alloc A name (nat (atoi_int s)) policy = Some (A', v) \<and> session_inv memory A'"
      if "allocator_address A name = 0" "0 < atoi_int s" "policy_of c = Some policy" for name s c policy
      using session_alloc [OF inv pos that(1), of "nat (atoi_int s)" policy] that atoi_int_upper [of s] policy_of_cases [OF that(3)]
      by auto
    then show ?thesis
    proof (cases "\<exists>name s p rest policy. args = name # s # p # rest \<and> allocator_address A name = 0 \<and> 0 < atoi_int s \<and>
        policy_of (hd p) = Some policy")
      case True
      then obtain name s p rest policy where args: "args = name # s # p # rest" "allocator_address A name = 0" "0 < atoi_int s"
          "policy_of (hd p) = Some policy" by blast
      obtain A' v where "allocator_alloc A name (nat (atoi_int s)) policy = Some (A', v)" "session_inv memory A'"
        using alloc [OF args(2-4)] by blast
      then show ?thesis using args inv by (simp add: command_RQ_def)
    next
      case False
      then have "\<exists>out. command_RQ A args = Some (A, out)"
        by (auto simp: command_RQ_def Let_def not_less split: list.split option.split)
      then show ?thesis using inv by blast
    qed
  qed
  have RL: "\<exists>A' out. command_RL True A args = Some (A', out) \<and> session_inv memory A'" for args
  proof -
    have "\<exists>A'. allocator_free True A name = Some A' \<and> session_inv memory A'" for name using session_free [OF inv] .
    then obtain A' where A': "allocator_free True A (hd args) = Some A'" "session_inv memory A'" by blast
    then show ?thesis using inv by (cases args) (auto simp: command_RL_def)
  qed
  have STAT: "\<exists>out. command_STAT A args = Some (A, out)" for args
  proof -
    obtain as ss where "alloc_inv A as ss" using inv by (auto simp: session_inv_def)
    then show ?thesis using allocator_print_rows by (auto simp: command_STAT_def)
  qed
  show ?thesis
  proof (cases "tokens (\<lambda>c. c = CHR '' '' \<or> c = newline) (takeWhile (\<lambda>c. c \<noteq> CHR 0x00) buffer)")
    case (Cons token args)
    obtain A1 o1 where "command_RQ A args = Some (A1, o1)" "session_inv memory A1" using RQ by blast
    moreover obtain A2 o2 where "command_RL True A args = Some (A2, o2)" "session_inv memory A2" using RL by blast
    moreover obtain o3 where "command_STAT A args = Some (A, o3)" using STAT by blast
    ultimately show ?thesis using Cons inv by (simp add: cli_command_def ex_bool_eq)
  qed (use inv in \<open>simp add: cli_command_def ex_bool_eq\<close>)
qed

lemma session_rounds:
  assumes "session_inv memory A" "0 < memory"
  shows "\<exists>A' rest out stop. command_line_interface n True A stream acc = Some (A', rest, out, stop) \<and> session_inv memory A'"
  using assms(1)
proof (induction n arbitrary: A stream acc)
  case (Suc n)
  obtain buffer rest where "cli_read stream = (buffer, rest)" by (cases "cli_read stream")
  moreover obtain A' out stop where "cli_command True A buffer = Some (A', out, stop)" "session_inv memory A'"
    using session_command [OF Suc.prems assms(2)] by blast
  moreover obtain A2 rest2 out2 stop2 where "command_line_interface n True A' rest
      (acc @ STYLE_PROMPT @ ''allocator > '' @ STYLE_RESET @ out) = Some (A2, rest2, out2, stop2)" "session_inv memory A2"
    using Suc.IH calculation(3) by blast
  ultimately show ?case by (cases stop) auto
qed auto

lemma session_start: "session_inv memory (allocator_create memory MEMORY_SIZE PAGE_SIZE)"
proof -
  have "(4096::nat) dvd 1048576" by (rule dvdI [of _ _ 256]) simp
  then have "alloc_inv (allocator_create memory MEMORY_SIZE PAGE_SIZE) [2] [2]"
    by (intro allocator_create_inv) (simp_all add: MEMORY_SIZE_def PAGE_SIZE_def)
  then show ?thesis
    unfolding session_inv_def by (auto simp: page_bits_def allocator_create_def alloclist_create_def PAGE_SIZE_def)
qed

text \<open>
  C10 (invariant). Whatever is typed, for any number of rounds: no undefined behaviour other than the stale
  read of the merge, the used and free blocks tile the megabyte without overlap in whole pages, no name is
  used twice, the checks compiled in with DEBUG find nothing, and STAT prints all blocks in address order.
\<close>

theorem allocator_session:
  assumes "0 < memory"
  shows "\<exists>A rest out stop as ss.
    command_line_interface n True (allocator_create memory MEMORY_SIZE PAGE_SIZE) stream [] = Some (A, rest, out, stop) \<and>
    alloc_inv A as ss \<and> al_size A = MEMORY_SIZE \<and> distinct (map ai_name (al_alloclist A)) \<and>
    freelist_internal_check (al_freelist A) = Some None \<and>
    allocator_print A = Some (print_header A @ concat (map print_row (all_rows A as)))"
proof -
  obtain A rest out stop where A: "command_line_interface n True (allocator_create memory MEMORY_SIZE PAGE_SIZE) stream [] =
      Some (A, rest, out, stop)" "session_inv memory A"
    using session_rounds [OF session_start assms] by blast
  obtain as ss where inv: "alloc_inv A as ss" using A(2) by (auto simp: session_inv_def)
  have "freelist_internal_check (al_freelist A) = Some None"
    using freelist_internal_check_ok [OF alloc_invD(1) [OF inv]] alloc_invD(2,4) [OF inv] by simp
  then show ?thesis
    using A inv allocator_print_rows [OF inv] by (auto simp: session_inv_def)
qed

theorem allocator_session_witness:
  "\<exists>A rest out stop. command_line_interface 3 True (allocator_create 1000 MEMORY_SIZE PAGE_SIZE)
     (''RQ a 5000 F'' @ [newline] @ ''RL a'' @ [newline]) [] = Some (A, rest, out, stop) \<and>
     freelist_internal_check (al_freelist A) = Some None"
  using allocator_session [of 1000 3 "''RQ a 5000 F'' @ [newline] @ ''RL a'' @ [newline]"] by auto

section \<open>Leaving the loop\<close>

text \<open>Does some line, as \<open>fgets\<close> cuts the input, begin with the word EXIT?\<close>

definition is_exit :: "string \<Rightarrow> bool" where
  "is_exit buffer =
     (case tokens (\<lambda>c. c = CHR '' '' \<or> c = newline) (takeWhile (\<lambda>c. c \<noteq> CHR 0x00) buffer) of
        [] \<Rightarrow> False | token # args \<Rightarrow> token = ''EXIT'')"

fun has_exit :: "nat \<Rightarrow> string \<Rightarrow> bool" where
  "has_exit 0 stream = False"
| "has_exit (Suc n) stream =
     (case fgets BUFFER_SIZE stream of None \<Rightarrow> False | Some (buffer, rest) \<Rightarrow> is_exit buffer \<or> has_exit n rest)"

lemma cli_command_stop: "cli_command stale A buffer = Some (A', out, stop) \<Longrightarrow> stop = is_exit buffer"
  unfolding cli_command_def is_exit_def
  by (auto split: list.splits if_splits option.splits simp: bind_eq_Some_conv)

lemma is_exit_Nil: "is_exit [] = False"
  by (simp add: is_exit_def tokens.simps)

lemma cli_rounds_stop:
  assumes "command_line_interface n stale A stream acc = Some (A', rest, out, stop)"
  shows "stop = has_exit n stream"
  using assms
proof (induction n arbitrary: A stream acc)
  case (Suc n)
  obtain buffer rest1 where read: "cli_read stream = (buffer, rest1)" by (cases "cli_read stream")
  obtain A1 out1 stop1 where cmd: "cli_command stale A buffer = Some (A1, out1, stop1)"
      "(if stop1 then Some (A1, rest1, acc @ STYLE_PROMPT @ ''allocator > '' @ STYLE_RESET @ out1, True)
        else command_line_interface n stale A1 rest1 (acc @ STYLE_PROMPT @ ''allocator > '' @ STYLE_RESET @ out1)) =
        Some (A', rest, out, stop)"
    using Suc.prems read by (auto simp: bind_eq_Some_conv)
  note s = cli_command_stop [OF cmd(1)]
  show ?case
  proof (cases "fgets BUFFER_SIZE stream")
    case None
    then have "buffer = []" "rest1 = stream" "stream = []"
      using read by (auto simp: cli_read_def fgets_def split: if_splits)
    moreover have "has_exit m [] = False" for m by (cases m) (simp_all add: fgets_def)
    ultimately show ?thesis using Suc.IH cmd(2) s is_exit_Nil by auto
  next
    case (Some r)
    then show ?thesis using read s Suc.IH cmd(2) by (cases stop1) (auto simp: cli_read_def)
  qed
qed simp

lemma alloclist_destroy_empty: "alloclist_destroy al = []"
  by (induction al) auto

text \<open>Every call of \<open>fgets\<close> consumes input, so the length of the input bounds the rounds to look at.\<close>

lemma has_exit_bound: "length stream \<le> n \<Longrightarrow> has_exit m stream \<Longrightarrow> has_exit n stream"
proof (induction n arbitrary: m stream)
  case 0
  then show ?case by (cases m) (auto simp: fgets_def)
next
  case (Suc n)
  obtain k where m: "m = Suc k" using Suc.prems(2) by (cases m) auto
  obtain buffer rest where f: "fgets BUFFER_SIZE stream = Some (buffer, rest)" "is_exit buffer \<or> has_exit k rest"
    using Suc.prems(2) m by (auto split: option.splits)
  have "length rest \<le> n" using fgets_progress [OF f(1)] Suc.prems(1) by (simp add: BUFFER_SIZE_def)
  then show ?case using f Suc.IH by auto
qed



end
