(* ===== verification/Task_List.thy ===== *)
theory Task_List
  imports Ring
begin

text \<open>
  The task list of \<open>CS2303 Operating System/Project 4\<close> (\<open>list.c\<close>, \<open>task.h\<close>): a singly linked list of
  heap nodes, each with its own heap-allocated task.  Nodes are never freed, so the only bad pointer is
  NULL; node addresses are positive and given out in order.
\<close>

section \<open>Data\<close>

record task =
  tk_name :: string
  tk_tid :: nat
  tk_priority :: int
  tk_burst :: int

record tasks =
  ts_task :: "ptr \<Rightarrow> task"
  ts_next :: "ptr \<Rightarrow> ptr"
  ts_head :: ptr
  ts_brk :: ptr

definition no_task :: task where
  "no_task = \<lparr>tk_name = [], tk_tid = 0, tk_priority = 0, tk_burst = 0\<rparr>"

definition empty_tasks :: tasks where
  "empty_tasks = \<lparr>ts_task = \<lambda>_. no_task, ts_next = \<lambda>_. NULL, ts_head = NULL, ts_brk = 1\<rparr>"

definition node_rd :: "(tasks \<Rightarrow> ptr \<Rightarrow> 'a) \<Rightarrow> tasks \<Rightarrow> ptr \<Rightarrow> 'a option" where
  "node_rd fld S p = (if p \<noteq> NULL \<and> p < ts_brk S then Some (fld S p) else None)"

section \<open>Operations\<close>

definition insert_task :: "tasks \<Rightarrow> task \<Rightarrow> tasks" where
  "insert_task S newTask = (let newNode = ts_brk S in
     S\<lparr>ts_task := (ts_task S)(newNode := newTask), ts_next := (ts_next S)(newNode := ts_head S),
       ts_head := newNode, ts_brk := ts_brk S + 1\<rparr>)"

text \<open>The search loop of \<open>delete\<close> compares names only and runs into NULL when the name is absent.\<close>

partial_function (option) delete_loop :: "tasks \<Rightarrow> string \<Rightarrow> ptr \<Rightarrow> ptr \<Rightarrow> tasks option" where
  "delete_loop S name prev temp = do {
     t \<leftarrow> node_rd ts_task S temp;
     nxt \<leftarrow> node_rd ts_next S temp;
     (if name \<noteq> tk_name t then delete_loop S name temp nxt
      else Some (S\<lparr>ts_next := (ts_next S)(prev := nxt)\<rparr>))
   }"

definition delete_task :: "tasks \<Rightarrow> string \<Rightarrow> tasks option" where
  "delete_task S name = do {
     let temp = ts_head S;
     t \<leftarrow> node_rd ts_task S temp;
     nxt \<leftarrow> node_rd ts_next S temp;
     (if name = tk_name t then Some (S\<lparr>ts_head := nxt\<rparr>)
      else delete_loop S name (ts_head S) nxt)
   }"

definition task_line :: "task \<Rightarrow> string" where
  "task_line t = ''['' @ tk_name t @ ''] ['' @ fmt_d (tk_priority t) @ ''] ['' @ fmt_d (tk_burst t) @ '']'' @ [newline]"

partial_function (option) traverse_loop :: "tasks \<Rightarrow> ptr \<Rightarrow> string \<Rightarrow> string option" where
  "traverse_loop S temp out =
     (if temp \<noteq> NULL then do {
        t \<leftarrow> node_rd ts_task S temp;
        nxt \<leftarrow> node_rd ts_next S temp;
        traverse_loop S nxt (out @ task_line t)
      }
      else Some out)"

definition traverse :: "tasks \<Rightarrow> string option" where
  "traverse S = traverse_loop S (ts_head S) []"

text \<open>The in-place reversal at the start of every \<open>schedule\<close>.\<close>

partial_function (option) reverse_loop :: "tasks \<Rightarrow> ptr \<Rightarrow> ptr \<Rightarrow> (tasks \<times> ptr) option" where
  "reverse_loop S prev current =
     (if current \<noteq> NULL then do {
        nxt \<leftarrow> node_rd ts_next S current;
        reverse_loop (S\<lparr>ts_next := (ts_next S)(current := prev)\<rparr>) current nxt
      }
      else Some (S, prev))"

definition reverse_tasks :: "tasks \<Rightarrow> tasks option" where
  "reverse_tasks S = do {
     (S1, prev) \<leftarrow> reverse_loop S NULL (ts_head S);
     Some (S1\<lparr>ts_head := prev\<rparr>)
   }"

declare delete_loop.simps [code] traverse_loop.simps [code] reverse_loop.simps [code]

section \<open>Paths to NULL\<close>

fun path :: "(ptr \<Rightarrow> ptr) \<Rightarrow> ptr \<Rightarrow> ptr list \<Rightarrow> bool" where
  "path n p [] = (p = NULL)"
| "path n p (x # xs) = (p = x \<and> x \<noteq> NULL \<and> path n (n x) xs)"

text \<open>A list from \<open>p\<close> over allocated nodes.\<close>

definition tpath :: "tasks \<Rightarrow> ptr \<Rightarrow> ptr list \<Rightarrow> bool" where
  "tpath S p ps \<longleftrightarrow> path (ts_next S) p ps \<and> distinct ps \<and> (\<forall>q \<in> set ps. q < ts_brk S)"

definition tlist :: "tasks \<Rightarrow> ptr list \<Rightarrow> bool" where
  "tlist S ps \<longleftrightarrow> tpath S (ts_head S) ps"

lemma path_upd [simp]: "q \<notin> set ps \<Longrightarrow> path (n(q := v)) p ps = path n p ps"
  by (induction ps arbitrary: p) auto

lemma path_NULL [simp]: "path n NULL ps \<longleftrightarrow> ps = []"
  by (cases ps) auto

lemma path_not_NULL: "p \<noteq> NULL \<Longrightarrow> path n p ps \<longleftrightarrow> (\<exists>qs. ps = p # qs \<and> path n (n p) qs)"
  by (cases ps) auto

lemma path_suffix: "path n p (xs @ ys) \<Longrightarrow> \<exists>q. path n q ys \<and> (xs = [] \<longrightarrow> q = p) \<and> (xs \<noteq> [] \<longrightarrow> q = n (last xs))"
proof (induction xs arbitrary: p)
  case (Cons x xs)
  then show ?case by (cases "xs = []") auto
qed auto

lemma path_member: "path n p ps \<Longrightarrow> q \<in> set ps \<Longrightarrow> q \<noteq> NULL"
  by (induction ps arbitrary: p) auto

lemma path_unlink:
  "path n p (xs @ x # y # ys) \<Longrightarrow> distinct (xs @ x # y # ys) \<Longrightarrow> path (n(x := n y)) p (xs @ x # ys)"
  by (induction xs arbitrary: p) auto

lemma tpath_NULL [simp]: "tpath S NULL ps \<longleftrightarrow> ps = []"
  by (auto simp: tpath_def)

lemma tpath_Cons: "tpath S p (x # xs) \<longleftrightarrow> p = x \<and> x \<noteq> NULL \<and> x < ts_brk S \<and> x \<notin> set xs \<and> tpath S (ts_next S x) xs"
  by (auto simp: tpath_def)

lemma tlist_head: "tlist S ps \<Longrightarrow> ts_head S = NULL \<longleftrightarrow> ps = []"
  by (cases ps) (auto simp: tlist_def tpath_Cons tpath_def)

lemma node_rd_in [simp]: "p \<noteq> NULL \<Longrightarrow> p < ts_brk S \<Longrightarrow> node_rd fld S p = Some (fld S p)"
  by (simp add: node_rd_def)

section \<open>What the operations do\<close>

lemma insert_task_list:
  assumes "tlist S ps" "0 < ts_brk S"
  shows "tlist (insert_task S t) (ts_brk S # ps)"
  using assms by (auto simp: tlist_def tpath_def insert_task_def Let_def less_Suc_eq)

lemma delete_loop_step:
  assumes "path (ts_next S) prev (prev # xs @ p # ys)" "distinct (prev # xs @ p # ys)" "\<forall>q \<in> set (xs @ p # ys). q < ts_brk S"
    and "\<forall>x \<in> set xs. tk_name (ts_task S x) \<noteq> name" "tk_name (ts_task S p) = name"
  shows "delete_loop S name prev (ts_next S prev) = Some (S\<lparr>ts_next := (ts_next S)(last (prev # xs) := ts_next S p)\<rparr>)"
  using assms
proof (induction xs arbitrary: prev)
  case Nil
  then show ?case by (subst delete_loop.simps) auto
next
  case (Cons x xs)
  then have "delete_loop S name x (ts_next S x) = Some (S\<lparr>ts_next := (ts_next S)(last (x # xs) := ts_next S p)\<rparr>)"
    by (intro Cons.IH) auto
  then show ?case using Cons.prems by (subst delete_loop.simps) auto
qed

text \<open>\<open>delete\<close> unlinks the first node that bears the name.\<close>

lemma delete_task_step:
  assumes "tlist S (xs @ p # ys)" "\<forall>x \<in> set xs. tk_name (ts_task S x) \<noteq> name" "tk_name (ts_task S p) = name"
  shows "\<exists>S'. delete_task S name = Some S' \<and> tlist S' (xs @ ys) \<and> ts_task S' = ts_task S \<and> ts_brk S' = ts_brk S \<and>
    (\<forall>q. q \<notin> set xs \<longrightarrow> ts_next S' q = ts_next S q)"
proof (cases xs)
  case Nil
  then show ?thesis using assms by (auto simp: delete_task_def tlist_def tpath_Cons tpath_def)
next
  case (Cons x xs')
  have P: "path (ts_next S) x (x # xs' @ p # ys)" "distinct (x # xs' @ p # ys)" "ts_head S = x" "x \<noteq> NULL"
      "\<forall>q \<in> set (x # xs' @ p # ys). q < ts_brk S"
    using assms(1) Cons by (auto simp: tlist_def tpath_def)
  let ?S = "S\<lparr>ts_next := (ts_next S)(last (x # xs') := ts_next S p)\<rparr>"
  have "delete_loop S name x (ts_next S x) = Some ?S"
    using P assms(2,3) Cons by (intro delete_loop_step) auto
  moreover have "node_rd ts_task S x = Some (ts_task S x)" "node_rd ts_next S x = Some (ts_next S x)"
    using P by simp_all
  moreover have "name \<noteq> tk_name (ts_task S x)" using assms(2) Cons by auto
  ultimately have run: "delete_task S name = Some ?S" using P(3) by (simp add: delete_task_def)
  have l: "x # xs' = butlast (x # xs') @ [last (x # xs')]" by simp
  have "path (ts_next S) x (butlast (x # xs') @ last (x # xs') # p # ys)"
    using P(1) by (metis append.assoc append_Cons append_Nil l)
  moreover have "distinct (butlast (x # xs') @ last (x # xs') # p # ys)"
    using P(2) by (metis append.assoc append_Cons append_Nil l)
  ultimately have "path ((ts_next S)(last (x # xs') := ts_next S p)) x (butlast (x # xs') @ last (x # xs') # ys)"
    by (rule path_unlink)
  then have "path ((ts_next S)(last (x # xs') := ts_next S p)) x (x # xs' @ ys)"
    by (metis append.assoc append_Cons append_Nil l)
  then have "tlist ?S (xs @ ys)" using P Cons by (auto simp: tlist_def tpath_def)
  moreover have "last (x # xs') \<in> set xs" using Cons by simp
  ultimately show ?thesis using run by auto
qed

lemma reverse_loop_step:
  assumes "path (ts_next S) prev visited" "path (ts_next S) current todo" "distinct (visited @ todo)" "\<forall>q \<in> set (visited @ todo). q < ts_brk S"
  shows "\<exists>S' p. reverse_loop S prev current = Some (S', p) \<and> path (ts_next S') p (rev todo @ visited) \<and>
    ts_task S' = ts_task S \<and> ts_brk S' = ts_brk S"
  using assms
proof (induction todo arbitrary: S prev current visited)
  case Nil
  then show ?case by (subst reverse_loop.simps) auto
next
  case (Cons x todo)
  define S1 where "S1 = S\<lparr>ts_next := (ts_next S)(x := prev)\<rparr>"
  have fields: "ts_next S1 = (ts_next S)(x := prev)" "ts_task S1 = ts_task S" "ts_brk S1 = ts_brk S" by (simp_all add: S1_def)
  have x: "current = x" "x \<noteq> NULL" "x < ts_brk S" "path (ts_next S) (ts_next S x) todo" using Cons.prems by auto
  have "path (ts_next S1) x (x # visited)" "path (ts_next S1) (ts_next S x) todo"
    unfolding fields using Cons.prems x by (simp_all add: fun_upd_same)
  then have "\<exists>S' p. reverse_loop S1 x (ts_next S x) = Some (S', p) \<and> path (ts_next S') p (rev todo @ x # visited) \<and>
    ts_task S' = ts_task S1 \<and> ts_brk S' = ts_brk S1"
    using Cons.prems x fields(3) by (intro Cons.IH) auto
  then show ?case using x fields by (subst reverse_loop.simps) (auto simp: S1_def)
qed

lemma reverse_tasks_step:
  assumes "tlist S ps"
  shows "\<exists>S'. reverse_tasks S = Some S' \<and> tlist S' (rev ps) \<and> ts_task S' = ts_task S \<and> ts_brk S' = ts_brk S"
proof -
  have P: "path (ts_next S) NULL []" "path (ts_next S) (ts_head S) ps" "distinct ([] @ ps)" "\<forall>q \<in> set ([] @ ps). q < ts_brk S"
    using assms by (auto simp: tlist_def tpath_def)
  obtain S' p where "reverse_loop S NULL (ts_head S) = Some (S', p)" "path (ts_next S') p (rev ps @ [])"
      "ts_task S' = ts_task S" "ts_brk S' = ts_brk S"
    using reverse_loop_step [OF P] by blast
  then show ?thesis using P by (auto simp: reverse_tasks_def tlist_def tpath_def)
qed

lemma traverse_loop_step:
  "tpath S p ps \<Longrightarrow> traverse_loop S p out = Some (out @ concat (map (\<lambda>q. task_line (ts_task S q)) ps))"
proof (induction ps arbitrary: p out)
  case Nil
  then show ?case by (subst traverse_loop.simps) (simp add: tpath_def)
next
  case (Cons q qs)
  then show ?case by (subst traverse_loop.simps) (auto simp: tpath_Cons)
qed

end
