(* ===== verification/CPU.thy ===== *)
theory CPU
  imports Task_List Complex_Main
begin

text \<open>
  The virtual processor of \<open>CS2303 Operating System/Project 4/CPU.c\<close>: its clock, the statistics arrays,
  indexed by task number, and the lines it prints.  Times are integers; the sums of the statistics are
  exact in a double as long as they stay below 2^53.
\<close>

record cpu =
  cp_burst_time :: "int list"
  cp_turnaround_time :: "int list"
  cp_waiting_time :: "int list"
  cp_response_time :: "int list"
  cp_response_flag :: "int list"
  cp_time :: int
  cp_task_count :: nat
  cp_out :: string

definition run_line :: "task \<Rightarrow> int \<Rightarrow> string" where
  "run_line t slice = ''Running task = ['' @ tk_name t @ ''] ['' @ fmt_d (tk_priority t) @ ''] ['' @
     fmt_d (tk_burst t) @ ''] for '' @ fmt_d slice @ '' units.'' @ [newline]"

definition run :: "cpu \<Rightarrow> task \<Rightarrow> int \<Rightarrow> cpu option" where
  "run C task slice = do {
     let C0 = C\<lparr>cp_out := cp_out C @ run_line task slice\<rparr>;
     flag \<leftarrow> arr_get (cp_response_flag C0) (tk_tid task);
     C1 \<leftarrow> (if flag = 0 then do {
         bt \<leftarrow> arr_set (cp_burst_time C0) (tk_tid task) (tk_burst task);
         rt \<leftarrow> arr_set (cp_response_time C0) (tk_tid task) (cp_time C0);
         rf \<leftarrow> arr_set (cp_response_flag C0) (tk_tid task) 1;
         Some (C0\<lparr>cp_burst_time := bt, cp_response_time := rt, cp_response_flag := rf\<rparr>)
       }
       else Some C0);
     let C2 = C1\<lparr>cp_time := cp_time C1 + slice\<rparr>;
     (if tk_burst task - slice = 0 then do {
        tt \<leftarrow> arr_set (cp_turnaround_time C2) (tk_tid task) (cp_time C2);
        wt \<leftarrow> arr_set (cp_waiting_time C2) (tk_tid task) (cp_time C2 - tk_burst task);
        Some (C2\<lparr>cp_turnaround_time := tt, cp_waiting_time := wt\<rparr>)
      }
      else Some C2)
   }"

text \<open>The task numbers: the counter's value and its successor.\<close>

definition get_tid :: "nat \<Rightarrow> nat \<times> nat" where
  "get_tid tid = (tid, tid + 1)"

definition init_stats :: "nat \<Rightarrow> cpu" where
  "init_stats tsk =
     \<lparr>cp_burst_time = replicate tsk 0, cp_turnaround_time = replicate tsk 0, cp_waiting_time = replicate tsk 0,
      cp_response_time = replicate tsk 0, cp_response_flag = replicate tsk 0, cp_time = 0, cp_task_count = tsk, cp_out = []\<rparr>"

text \<open>
  The three averages, before \<open>%.3f\<close> rounds them: turnaround, waiting, response.  With no tasks they
  are not numbers (0/0): \<open>None\<close> inside.
\<close>

definition average :: "cpu \<Rightarrow> int list \<Rightarrow> rat option option" where
  "average C xs = (if cp_task_count C \<le> length xs
     then Some (if cp_task_count C = 0 then None
       else Some (of_int (sum_list (take (cp_task_count C) xs)) / of_nat (cp_task_count C)))
     else None)"

definition print_stats :: "cpu \<Rightarrow> (rat option \<times> rat option \<times> rat option) option" where
  "print_stats C = do {
     t \<leftarrow> average C (cp_turnaround_time C);
     w \<leftarrow> average C (cp_waiting_time C);
     r \<leftarrow> average C (cp_response_time C);
     Some (t, w, r)
   }"

section \<open>Sequences of runs\<close>

text \<open>What the processor does for a list of (task, slice) pairs.\<close>

fun run_seq :: "cpu \<Rightarrow> (task \<times> int) list \<Rightarrow> cpu option" where
  "run_seq C [] = Some C"
| "run_seq C ((t, s) # rs) = do { C1 \<leftarrow> run C t s; run_seq C1 rs }"

lemma run_seq_append: "run_seq C (rs @ rs') = run_seq C rs \<bind> (\<lambda>C1. run_seq C1 rs')"
proof (induction C rs rule: run_seq.induct)
  case (2 C t s rs)
  then show ?case by (cases "run C t s") auto
qed simp

definition cpu_wf :: "nat \<Rightarrow> cpu \<Rightarrow> bool" where
  "cpu_wf n C \<longleftrightarrow> cp_task_count C = n \<and> length (cp_burst_time C) = n \<and> length (cp_turnaround_time C) = n \<and>
     length (cp_waiting_time C) = n \<and> length (cp_response_time C) = n \<and> length (cp_response_flag C) = n"

lemma cpu_wf_init: "cpu_wf n (init_stats n)"
  by (simp add: cpu_wf_def init_stats_def)

lemma run_total:
  assumes "cpu_wf n C" "tk_tid t < n"
  shows "\<exists>C'. run C t s = Some C' \<and> cpu_wf n C' \<and> cp_out C' = cp_out C @ run_line t s \<and> cp_time C' = cp_time C + s"
  using assms by (auto simp: run_def cpu_wf_def Let_def)

lemma run_seq_total:
  assumes "cpu_wf n C" "\<forall>(t, s) \<in> set rs. tk_tid t < n"
  shows "\<exists>C'. run_seq C rs = Some C' \<and> cpu_wf n C' \<and> cp_out C' = cp_out C @ concat (map (\<lambda>(t, s). run_line t s) rs) \<and>
    cp_time C' = cp_time C + (\<Sum>(t, s) \<leftarrow> rs. s)"
  using assms
proof (induction rs arbitrary: C)
  case (Cons r rs)
  obtain t s where r: "r = (t, s)" by (cases r)
  obtain C1 where C1: "run C t s = Some C1" "cpu_wf n C1" "cp_out C1 = cp_out C @ run_line t s" "cp_time C1 = cp_time C + s"
    using run_total [OF Cons.prems(1)] Cons.prems(2) r by fastforce
  obtain C' where "run_seq C1 rs = Some C'" "cpu_wf n C'" "cp_out C' = cp_out C1 @ concat (map (\<lambda>(t, s). run_line t s) rs)"
      "cp_time C' = cp_time C1 + (\<Sum>(t, s) \<leftarrow> rs. s)"
    using Cons.IH [OF C1(2)] Cons.prems(2) by auto
  then show ?case using C1 r by simp
qed simp

text \<open>A task that runs once and in full: it responds and waits as long as the clock says, and is done a burst later.\<close>

lemma run_full:
  assumes "cpu_wf n C" "tk_tid t < n" "cp_response_flag C ! tk_tid t = 0"
  shows "\<exists>C'. run C t (tk_burst t) = Some C' \<and> cpu_wf n C' \<and> cp_time C' = cp_time C + tk_burst t \<and>
    cp_response_flag C' = (cp_response_flag C)[tk_tid t := 1] \<and>
    cp_response_time C' = (cp_response_time C)[tk_tid t := cp_time C] \<and>
    cp_waiting_time C' = (cp_waiting_time C)[tk_tid t := cp_time C] \<and>
    cp_turnaround_time C' = (cp_turnaround_time C)[tk_tid t := cp_time C + tk_burst t] \<and>
    cp_out C' = cp_out C @ run_line t (tk_burst t)"
  using assms by (auto simp: run_def cpu_wf_def Let_def)

text \<open>Non-preemptive runs: the statistics of the whole order.\<close>

definition in_full :: "task list \<Rightarrow> (task \<times> int) list" where
  "in_full ts = map (\<lambda>t. (t, tk_burst t)) ts"

definition burst_sum :: "task list \<Rightarrow> int" where
  "burst_sum ts = sum_list (map tk_burst ts)"

lemma run_in_full:
  assumes "cpu_wf n C" "distinct (map tk_tid ts)" "\<forall>t \<in> set ts. tk_tid t < n \<and> cp_response_flag C ! tk_tid t = 0"
  shows "\<exists>C'. run_seq C (in_full ts) = Some C' \<and> cpu_wf n C' \<and> cp_time C' = cp_time C + burst_sum ts \<and>
    cp_out C' = cp_out C @ concat (map (\<lambda>t. run_line t (tk_burst t)) ts) \<and>
    (\<forall>k < length ts. cp_response_time C' ! tk_tid (ts ! k) = cp_time C + burst_sum (take k ts) \<and>
       cp_waiting_time C' ! tk_tid (ts ! k) = cp_time C + burst_sum (take k ts) \<and>
       cp_turnaround_time C' ! tk_tid (ts ! k) = cp_time C + burst_sum (take (Suc k) ts)) \<and>
    (\<forall>i. i \<notin> tk_tid ` set ts \<longrightarrow> cp_response_time C' ! i = cp_response_time C ! i \<and>
       cp_waiting_time C' ! i = cp_waiting_time C ! i \<and> cp_turnaround_time C' ! i = cp_turnaround_time C ! i)"
  using assms
proof (induction ts arbitrary: C)
  case Nil
  then show ?case by (simp add: in_full_def burst_sum_def)
next
  case (Cons t ts)
  have t: "tk_tid t < n" "cp_response_flag C ! tk_tid t = 0" "tk_tid t \<notin> tk_tid ` set ts" using Cons.prems by auto
  obtain C1 where C1: "run C t (tk_burst t) = Some C1" "cpu_wf n C1" "cp_time C1 = cp_time C + tk_burst t"
      "cp_response_flag C1 = (cp_response_flag C)[tk_tid t := 1]"
      "cp_response_time C1 = (cp_response_time C)[tk_tid t := cp_time C]"
      "cp_waiting_time C1 = (cp_waiting_time C)[tk_tid t := cp_time C]"
      "cp_turnaround_time C1 = (cp_turnaround_time C)[tk_tid t := cp_time C + tk_burst t]"
      "cp_out C1 = cp_out C @ run_line t (tk_burst t)"
    using run_full [OF Cons.prems(1) t(1,2)] by blast
  have flags: "\<forall>u \<in> set ts. tk_tid u < n \<and> cp_response_flag C1 ! tk_tid u = 0"
  proof
    fix u assume u: "u \<in> set ts"
    then have "tk_tid u \<noteq> tk_tid t" using t(3) by (metis imageI)
    then show "tk_tid u < n \<and> cp_response_flag C1 ! tk_tid u = 0" using Cons.prems(3) u by (simp add: C1(4))
  qed
  obtain C' where C': "run_seq C1 (in_full ts) = Some C'" "cpu_wf n C'" "cp_time C' = cp_time C1 + burst_sum ts"
      "cp_out C' = cp_out C1 @ concat (map (\<lambda>t. run_line t (tk_burst t)) ts)"
      "\<forall>k < length ts. cp_response_time C' ! tk_tid (ts ! k) = cp_time C1 + burst_sum (take k ts) \<and>
         cp_waiting_time C' ! tk_tid (ts ! k) = cp_time C1 + burst_sum (take k ts) \<and>
         cp_turnaround_time C' ! tk_tid (ts ! k) = cp_time C1 + burst_sum (take (Suc k) ts)"
      "\<forall>i. i \<notin> tk_tid ` set ts \<longrightarrow> cp_response_time C' ! i = cp_response_time C1 ! i \<and>
         cp_waiting_time C' ! i = cp_waiting_time C1 ! i \<and> cp_turnaround_time C' ! i = cp_turnaround_time C1 ! i"
    using Cons.IH [OF C1(2) _ flags] Cons.prems(2) by auto
  have len: "tk_tid t < length (cp_response_time C)" "tk_tid t < length (cp_waiting_time C)"
      "tk_tid t < length (cp_turnaround_time C)" using Cons.prems(1) t(1) by (simp_all add: cpu_wf_def)
  have own: "cp_response_time C' ! tk_tid t = cp_time C" "cp_waiting_time C' ! tk_tid t = cp_time C"
      "cp_turnaround_time C' ! tk_tid t = cp_time C + tk_burst t"
    using C'(6) t(3) len by (auto simp: C1(5-7))
  have "cp_response_time C' ! tk_tid ((t # ts) ! k) = cp_time C + burst_sum (take k (t # ts)) \<and>
      cp_waiting_time C' ! tk_tid ((t # ts) ! k) = cp_time C + burst_sum (take k (t # ts)) \<and>
      cp_turnaround_time C' ! tk_tid ((t # ts) ! k) = cp_time C + burst_sum (take (Suc k) (t # ts))"
    if "k < length (t # ts)" for k
    using that C'(5) own C1(3) by (cases k) (auto simp: burst_sum_def)
  moreover have "cp_response_time C' ! i = cp_response_time C ! i \<and>
      cp_waiting_time C' ! i = cp_waiting_time C ! i \<and> cp_turnaround_time C' ! i = cp_turnaround_time C ! i"
    if "i \<notin> tk_tid ` set (t # ts)" for i
    using C'(6) that by (auto simp: C1(5-7))
  moreover have "run_seq C (in_full (t # ts)) = Some C'" using C1(1) C'(1) by (simp add: in_full_def)
  ultimately show ?case using C'(2,3,4) C1(3,8) by (auto simp: burst_sum_def)
qed

end
