(* ===== verification/Schedulers.thy ===== *)
theory Schedulers
  imports CPU C_Int
begin

text \<open>
  The five scheduling policies of \<open>CS2303 Operating System/Project 4\<close> (\<open>schedule_fcfs.c\<close>,
  \<open>schedule_sjf.c\<close>, \<open>schedule_priority.c\<close>, \<open>schedule_rr.c\<close>, \<open>schedule_priority_rr.c\<close>) and the driver
  that reads the schedule file.  Each program links one of the policies with the same list and processor.
\<close>

section \<open>The programs\<close>

record system =
  sy_tasks :: tasks
  sy_tid :: nat
  sy_count :: nat

definition empty_system :: system where
  "empty_system = \<lparr>sy_tasks = empty_tasks, sy_tid = 0, sy_count = 0\<rparr>"

definition add :: "system \<Rightarrow> string \<Rightarrow> int \<Rightarrow> int \<Rightarrow> system" where
  "add Y name priority burst = (let (tid, tid') = get_tid (sy_tid Y) in
     Y\<lparr>sy_tasks := insert_task (sy_tasks Y) \<lparr>tk_name = name, tk_tid = tid, tk_priority = priority, tk_burst = burst\<rparr>,
       sy_tid := tid', sy_count := sy_count Y + 1\<rparr>)"

text \<open>First come, first served.\<close>

partial_function (option) fcfs_loop :: "tasks \<Rightarrow> cpu \<Rightarrow> (tasks \<times> cpu) option" where
  "fcfs_loop S C =
     (if ts_head S \<noteq> NULL then do {
        t \<leftarrow> node_rd ts_task S (ts_head S);
        C1 \<leftarrow> run C t (tk_burst t);
        S1 \<leftarrow> delete_task S (tk_name t);
        fcfs_loop S1 C1
      }
      else Some (S, C))"

text \<open>The search for the first node with the least value of a field.\<close>

partial_function (option) search_min :: "(task \<Rightarrow> int) \<Rightarrow> tasks \<Rightarrow> ptr \<Rightarrow> ptr \<Rightarrow> ptr option" where
  "search_min key S task best =
     (if task \<noteq> NULL then do {
        t \<leftarrow> node_rd ts_task S task;
        b \<leftarrow> node_rd ts_task S best;
        nxt \<leftarrow> node_rd ts_next S task;
        search_min key S nxt (if key t < key b then task else best)
      }
      else Some best)"

definition shortest :: "tasks \<Rightarrow> ptr option" where
  "shortest S = search_min tk_burst S (ts_head S) (ts_head S)"

definition prior :: "tasks \<Rightarrow> ptr option" where
  "prior S = search_min tk_priority S (ts_head S) (ts_head S)"

partial_function (option) sjf_loop :: "tasks \<Rightarrow> cpu \<Rightarrow> (tasks \<times> cpu) option" where
  "sjf_loop S C =
     (if ts_head S \<noteq> NULL then do {
        p \<leftarrow> shortest S;
        t \<leftarrow> node_rd ts_task S p;
        C1 \<leftarrow> run C t (tk_burst t);
        S1 \<leftarrow> delete_task S (tk_name t);
        sjf_loop S1 C1
      }
      else Some (S, C))"

partial_function (option) priority_loop :: "tasks \<Rightarrow> cpu \<Rightarrow> (tasks \<times> cpu) option" where
  "priority_loop S C =
     (if ts_head S \<noteq> NULL then do {
        p \<leftarrow> prior S;
        t \<leftarrow> node_rd ts_task S p;
        C1 \<leftarrow> run C t (tk_burst t);
        S1 \<leftarrow> delete_task S (tk_name t);
        priority_loop S1 C1
      }
      else Some (S, C))"

definition TIME_QUANTUM :: int where
  "TIME_QUANTUM = 5"

text \<open>One turn of the task under the cursor, and the cursor's next position.\<close>

definition quantum_step :: "tasks \<Rightarrow> cpu \<Rightarrow> ptr \<Rightarrow> (tasks \<times> cpu \<times> ptr) option" where
  "quantum_step S C task = do {
     t \<leftarrow> node_rd ts_task S task;
     (if tk_burst t \<le> TIME_QUANTUM then do {
        C1 \<leftarrow> run C t (tk_burst t);
        nxt \<leftarrow> node_rd ts_next S task;
        S1 \<leftarrow> delete_task S (tk_name t);
        Some (S1, C1, nxt)
      }
      else do {
        C1 \<leftarrow> run C t TIME_QUANTUM;
        let S1 = S\<lparr>ts_task := (ts_task S)(task := t\<lparr>tk_burst := tk_burst t - TIME_QUANTUM\<rparr>)\<rparr>;
        nxt \<leftarrow> node_rd ts_next S1 task;
        Some (S1, C1, nxt)
      })
   }"

partial_function (option) rr_loop :: "tasks \<Rightarrow> cpu \<Rightarrow> ptr \<Rightarrow> (tasks \<times> cpu) option" where
  "rr_loop S C task =
     (if ts_head S \<noteq> NULL then do {
        (S1, C1, nxt) \<leftarrow> quantum_step S C task;
        rr_loop S1 C1 (if nxt = NULL then ts_head S1 else nxt)
      }
      else Some (S, C))"

definition MIN_PRIORITY :: int where
  "MIN_PRIORITY = 1"

definition MAX_PRIORITY :: int where
  "MAX_PRIORITY = 10"

text \<open>The inner loop for one priority; the flag tells whether this pass met a task of that priority.\<close>

partial_function (option) prr_loop :: "int \<Rightarrow> tasks \<Rightarrow> cpu \<Rightarrow> ptr \<Rightarrow> bool \<Rightarrow> (tasks \<times> cpu \<times> ptr) option" where
  "prr_loop priority S C task exist =
     (if ts_head S \<noteq> NULL then do {
        t \<leftarrow> node_rd ts_task S task;
        (S1, C1, nxt, exist1) \<leftarrow>
          (if tk_priority t = priority then do { (S1, C1, nxt) \<leftarrow> quantum_step S C task; Some (S1, C1, nxt, True) }
           else do { nxt \<leftarrow> node_rd ts_next S task; Some (S, C, nxt, exist) });
        (if nxt = NULL
         then (if \<not> exist1 then Some (S1, C1, ts_head S1) else prr_loop priority S1 C1 (ts_head S1) False)
         else prr_loop priority S1 C1 nxt exist1)
      }
      else Some (S, C, task))"

fun prr_levels :: "int list \<Rightarrow> tasks \<Rightarrow> cpu \<Rightarrow> ptr \<Rightarrow> (tasks \<times> cpu) option" where
  "prr_levels [] S C task = Some (S, C)"
| "prr_levels (p # ps) S C task = do {
     (S1, C1, task1) \<leftarrow> prr_loop p S C task False;
     prr_levels ps S1 C1 task1
   }"

declare fcfs_loop.simps [code] search_min.simps [code] sjf_loop.simps [code] priority_loop.simps [code]
  rr_loop.simps [code] prr_loop.simps [code]

type_synonym stats = "rat option \<times> rat option \<times> rat option"

definition schedule_fcfs :: "system \<Rightarrow> (tasks \<times> cpu \<times> stats) option" where
  "schedule_fcfs Y = do {
     let C = init_stats (sy_count Y);
     S \<leftarrow> reverse_tasks (sy_tasks Y);
     (S1, C1) \<leftarrow> fcfs_loop S C;
     st \<leftarrow> print_stats C1;
     Some (S1, C1, st)
   }"

definition schedule_sjf :: "system \<Rightarrow> (tasks \<times> cpu \<times> stats) option" where
  "schedule_sjf Y = do {
     let C = init_stats (sy_count Y);
     S \<leftarrow> reverse_tasks (sy_tasks Y);
     (S1, C1) \<leftarrow> sjf_loop S C;
     st \<leftarrow> print_stats C1;
     Some (S1, C1, st)
   }"

definition schedule_priority :: "system \<Rightarrow> (tasks \<times> cpu \<times> stats) option" where
  "schedule_priority Y = do {
     let C = init_stats (sy_count Y);
     S \<leftarrow> reverse_tasks (sy_tasks Y);
     (S1, C1) \<leftarrow> priority_loop S C;
     st \<leftarrow> print_stats C1;
     Some (S1, C1, st)
   }"

definition schedule_rr :: "system \<Rightarrow> (tasks \<times> cpu \<times> stats) option" where
  "schedule_rr Y = do {
     let C = init_stats (sy_count Y);
     S \<leftarrow> reverse_tasks (sy_tasks Y);
     (S1, C1) \<leftarrow> rr_loop S C (ts_head S);
     st \<leftarrow> print_stats C1;
     Some (S1, C1, st)
   }"

definition schedule_priority_rr :: "system \<Rightarrow> (tasks \<times> cpu \<times> stats) option" where
  "schedule_priority_rr Y = do {
     let C = init_stats (sy_count Y);
     S \<leftarrow> reverse_tasks (sy_tasks Y);
     (S1, C1) \<leftarrow> prr_levels [MIN_PRIORITY..MAX_PRIORITY] S C (ts_head S);
     st \<leftarrow> print_stats C1;
     Some (S1, C1, st)
   }"

section \<open>The driver\<close>

definition SIZE :: nat where
  "SIZE = 100"

text \<open>\<open>strsep\<close> with the delimiter comma: the token, and the string that is left (\<open>None\<close> for NULL).\<close>

definition strsep :: "string option \<Rightarrow> string option \<times> string option" where
  "strsep stringp = (case stringp of
       None \<Rightarrow> (None, None)
     | Some s \<Rightarrow> (Some (takeWhile (\<lambda>c. c \<noteq> CHR '','') s),
         (if CHR '','' \<in> set s then Some (tl (dropWhile (\<lambda>c. c \<noteq> CHR '','') s)) else None)))"

text \<open>
  One line: a missing field makes \<open>atoi\<close> read NULL, and a field too many makes \<open>free\<close> take a pointer
  into the middle of the copy; both are undefined.
\<close>

definition driver_line :: "system \<Rightarrow> string \<Rightarrow> system option" where
  "driver_line Y task = (let temp = Some (takeWhile (\<lambda>c. c \<noteq> CHR 0x00) task);
      (name, temp1) = strsep temp; (ps, temp2) = strsep temp1; (bs, temp3) = strsep temp2 in do {
        n \<leftarrow> name;
        p \<leftarrow> ps;
        b \<leftarrow> bs;
        ensure (temp3 = None);
        Some (add Y n (atoi_int p) (atoi_int b))
      })"

function driver_loop :: "system \<Rightarrow> string \<Rightarrow> system option" where
  "driver_loop Y stream = (case fgets SIZE stream of
       None \<Rightarrow> Some Y
     | Some (task, rest) \<Rightarrow> do { Y1 \<leftarrow> driver_line Y task; driver_loop Y1 rest })"
  by pat_completeness auto
termination
  by (relation "measure (\<lambda>(Y, stream). length stream)") (auto dest: fgets_progress simp: SIZE_def)

declare driver_loop.simps [simp del]

definition driver_main :: "string \<Rightarrow> (system \<Rightarrow> 'a option) \<Rightarrow> 'a option" where
  "driver_main stream schedule = do { Y \<leftarrow> driver_loop empty_system stream; schedule Y }"

end
