(* ===== verification/Scheduling.thy ===== *)
theory Scheduling
  imports Schedulers "HOL-Library.Multiset"
begin

text \<open>
  What the schedulers do: each pointer program is refined to a function of the list of tasks in file
  order that gives the sequence of runs; the statistics and the optimality of shortest job first
  follow from that.
\<close>

section \<open>Non-preemptive policies\<close>

lemma sort_key_first_min:
  assumes "\<forall>x \<in> set xs. f p < f x" "\<forall>y \<in> set ys. f p \<le> f y"
  shows "sort_key f (xs @ p # ys) = p # sort_key f (xs @ ys)"
  using assms
proof (induction xs)
  case Nil
  then show ?case by (simp add: insort_is_Cons)
next
  case (Cons x xs)
  then have "\<not> f x \<le> f p" by auto
  then show ?case using Cons by simp
qed

text \<open>
  The contract of a selection loop: it returns the first node with the least key; the scheduler runs
  that task in full and deletes it.
\<close>

locale nonpreemptive =
  fixes loop :: "tasks \<Rightarrow> cpu \<Rightarrow> (tasks \<times> cpu) option"
    and select :: "tasks \<Rightarrow> ptr option"
    and key :: "task \<Rightarrow> int"
  assumes loop_unfold: "loop S C =
     (if ts_head S \<noteq> NULL then do {
        p \<leftarrow> select S;
        t \<leftarrow> node_rd ts_task S p;
        C1 \<leftarrow> run C t (tk_burst t);
        S1 \<leftarrow> delete_task S (tk_name t);
        loop S1 C1
      }
      else Some (S, C))"
    and select_first: "tlist S ps \<Longrightarrow> ps \<noteq> [] \<Longrightarrow>
      \<exists>xs p ys. ps = xs @ p # ys \<and> select S = Some p \<and>
        (\<forall>x \<in> set xs. key (ts_task S p) < key (ts_task S x)) \<and> (\<forall>y \<in> set ys. key (ts_task S p) \<le> key (ts_task S y))"
begin

lemma loop_sorts:
  assumes "tlist S ps" "distinct (map (\<lambda>q. tk_name (ts_task S q)) ps)"
  shows "\<exists>S'. \<forall>C. loop S C = map_option (Pair S') (run_seq C (in_full (sort_key key (map (ts_task S) ps))))"
  using assms
proof (induction "length ps" arbitrary: ps S)
  case 0
  then show ?case by (intro exI [of _ S]) (simp add: loop_unfold [of S] tlist_head in_full_def)
next
  case (Suc n)
  then have "ps \<noteq> []" by auto
  then obtain xs p ys where p: "ps = xs @ p # ys" "select S = Some p"
      "\<forall>x \<in> set xs. key (ts_task S p) < key (ts_task S x)" "\<forall>y \<in> set ys. key (ts_task S p) \<le> key (ts_task S y)"
    using select_first [OF Suc.prems(1)] by blast
  let ?t = "ts_task S p"
  have names: "\<forall>x \<in> set xs. tk_name (ts_task S x) \<noteq> tk_name ?t" using Suc.prems(2) p(1) by (auto simp: image_iff)
  obtain S1 where S1: "delete_task S (tk_name ?t) = Some S1" "tlist S1 (xs @ ys)" "ts_task S1 = ts_task S"
    using delete_task_step [OF Suc.prems(1) [unfolded p(1)] names refl] by blast
  have "distinct (map (\<lambda>q. tk_name (ts_task S1 q)) (xs @ ys))" using Suc.prems(2) p(1) S1(3) by auto
  then obtain S' where S': "\<forall>C. loop S1 C = map_option (Pair S') (run_seq C (in_full (sort_key key (map (ts_task S) (xs @ ys)))))"
    using Suc.hyps(1) [of "xs @ ys" S1] S1(2,3) Suc.hyps(2) p(1) by auto
  have sorted: "sort_key key (map (ts_task S) ps) = ?t # sort_key key (map (ts_task S) (xs @ ys))"
    using sort_key_first_min [of "map (ts_task S) xs" key ?t "map (ts_task S) ys"] p by simp
  have rd: "node_rd ts_task S p = Some ?t" using Suc.prems(1) p(1) unfolding tlist_def tpath_def
    by (metis in_set_conv_decomp node_rd_in path_member)
  have "loop S C = map_option (Pair S') (run_seq C (in_full (sort_key key (map (ts_task S) ps))))" for C
    unfolding loop_unfold [of S C] sorted
    using p(2) rd S1(1) S' tlist_head [OF Suc.prems(1)] \<open>ps \<noteq> []\<close> by (cases "run C ?t (tk_burst ?t)") (simp_all add: in_full_def)
  then show ?case by blast
qed

end

lemma search_min_first:
  assumes "tpath S p zs" "best \<noteq> NULL" "best < ts_brk S" "ps = us @ best # vs @ zs"
    and "\<forall>x \<in> set us. key (ts_task S best) < key (ts_task S x)" "\<forall>y \<in> set vs. key (ts_task S best) \<le> key (ts_task S y)"
  shows "\<exists>xs m ys. ps = xs @ m # ys \<and> search_min key S p best = Some m \<and>
     (\<forall>x \<in> set xs. key (ts_task S m) < key (ts_task S x)) \<and> (\<forall>y \<in> set ys. key (ts_task S m) \<le> key (ts_task S y))"
  using assms
proof (induction zs arbitrary: p best us vs)
  case Nil
  then show ?case by (intro exI [of _ us] exI [of _ best] exI [of _ vs]) (auto simp: search_min.simps tpath_def)
next
  case (Cons z zs)
  have z: "p = z" "z \<noteq> NULL" "z < ts_brk S" "tpath S (ts_next S z) zs" using Cons.prems(1) by (auto simp: tpath_Cons)
  have step: "search_min key S p best =
      search_min key S (ts_next S z) (if key (ts_task S z) < key (ts_task S best) then z else best)"
    using z Cons.prems(2,3) by (subst search_min.simps) simp
  show ?case
  proof (cases "key (ts_task S z) < key (ts_task S best)")
    case True
    have "\<forall>x \<in> set (us @ best # vs). key (ts_task S z) < key (ts_task S x)"
      using True Cons.prems(5,6) by fastforce
    then show ?thesis
      using Cons.IH [OF z(4) z(2,3), of "us @ best # vs" "[]"] Cons.prems(4) step True by simp
  next
    case False
    then show ?thesis
      using Cons.IH [OF z(4) Cons.prems(2,3), of us "vs @ [z]"] Cons.prems(4-6) step by auto
  qed
qed

lemma search_min_select:
  assumes "tlist S ps" "ps \<noteq> []"
  shows "\<exists>xs p ys. ps = xs @ p # ys \<and> search_min key S (ts_head S) (ts_head S) = Some p \<and>
        (\<forall>x \<in> set xs. key (ts_task S p) < key (ts_task S x)) \<and> (\<forall>y \<in> set ys. key (ts_task S p) \<le> key (ts_task S y))"
proof -
  obtain q qs where ps: "ps = q # qs" using assms(2) by (cases ps) auto
  have q: "ts_head S = q" "q \<noteq> NULL" "q < ts_brk S" "tpath S (ts_next S q) qs"
    using assms(1) ps by (auto simp: tlist_def tpath_Cons)
  have "search_min key S q q = search_min key S (ts_next S q) q" using q by (subst search_min.simps) simp
  then show ?thesis using search_min_first [OF q(4,2,3), of ps "[]" "[]"] ps q(1) by simp
qed

interpretation sjf: nonpreemptive sjf_loop shortest tk_burst
  using search_min_select [of _ _ tk_burst] by unfold_locales (subst sjf_loop.simps, simp_all add: shortest_def)

interpretation prio: nonpreemptive priority_loop prior tk_priority
  using search_min_select [of _ _ tk_priority] by unfold_locales (subst priority_loop.simps, simp_all add: prior_def)

text \<open>First come, first served needs no condition on the names: the first node bears its own name.\<close>

lemma fcfs_loop_order:
  assumes "tlist S ps"
  shows "\<exists>S'. \<forall>C. fcfs_loop S C = map_option (Pair S') (run_seq C (in_full (map (ts_task S) ps)))"
  using assms
proof (induction ps arbitrary: S)
  case Nil
  then show ?case by (intro exI [of _ S]) (subst fcfs_loop.simps, simp add: tlist_head in_full_def)
next
  case (Cons p ps)
  let ?t = "ts_task S p"
  obtain S1 where S1: "delete_task S (tk_name ?t) = Some S1" "tlist S1 ps" "ts_task S1 = ts_task S"
    using delete_task_step [of S "[]" p ps] Cons.prems by auto
  obtain S' where S': "\<forall>C. fcfs_loop S1 C = map_option (Pair S') (run_seq C (in_full (map (ts_task S) ps)))"
    using Cons.IH [OF S1(2)] S1(3) by auto
  have p: "ts_head S = p" "p \<noteq> NULL" "p < ts_brk S" using Cons.prems by (auto simp: tlist_def tpath_Cons)
  have "fcfs_loop S C = map_option (Pair S') (run_seq C (in_full (map (ts_task S) (p # ps))))" for C
    using p S1(1) S' by (subst fcfs_loop.simps, cases "run C ?t (tk_burst ?t)") (simp_all add: in_full_def)
  then show ?case by blast
qed

section \<open>The tasks of the file\<close>

text \<open>Adding the entries of a file, in order, then reversing the list, gives them in file order.\<close>

definition entries_tasks :: "(string \<times> int \<times> int) list \<Rightarrow> task list" where
  "entries_tasks es = map (\<lambda>(i, n, p, b). \<lparr>tk_name = n, tk_tid = i, tk_priority = p, tk_burst = b\<rparr>) (enumerate 0 es)"

definition adds :: "system \<Rightarrow> (string \<times> int \<times> int) list \<Rightarrow> system" where
  "adds Y es = foldl (\<lambda>Y (n, p, b). add Y n p b) Y es"

lemma adds_snoc: "adds Y (es @ [(n, p, b)]) = add (adds Y es) n p b"
  by (simp add: adds_def)

lemma entries_tasks_snoc:
  "entries_tasks (es @ [(n, p, b)]) =
   entries_tasks es @ [\<lparr>tk_name = n, tk_tid = length es, tk_priority = p, tk_burst = b\<rparr>]"
  by (simp add: entries_tasks_def enumerate_append_eq)

lemma adds_list:
  "\<exists>ps. tlist (sy_tasks (adds empty_system es)) ps \<and> 0 < ts_brk (sy_tasks (adds empty_system es)) \<and>
    map (ts_task (sy_tasks (adds empty_system es))) ps = rev (entries_tasks es) \<and>
    sy_tid (adds empty_system es) = length es \<and> sy_count (adds empty_system es) = length es"
proof (induction es rule: rev_induct)
  case Nil
  then show ?case
    by (intro exI [of _ "[]"]) (simp add: adds_def empty_system_def empty_tasks_def tlist_def entries_tasks_def)
next
  case (snoc e es)
  obtain n p b where e: "e = (n, p, b)" by (cases e)
  let ?Y = "adds empty_system es"
  let ?t = "\<lparr>tk_name = n, tk_tid = length es, tk_priority = p, tk_burst = b\<rparr>"
  obtain ps where ps: "tlist (sy_tasks ?Y) ps" "0 < ts_brk (sy_tasks ?Y)"
      "map (ts_task (sy_tasks ?Y)) ps = rev (entries_tasks es)" "sy_tid ?Y = length es" "sy_count ?Y = length es"
    using snoc.IH by blast
  have Y: "sy_tasks (add ?Y n p b) = insert_task (sy_tasks ?Y) ?t" "sy_tid (add ?Y n p b) = Suc (length es)"
      "sy_count (add ?Y n p b) = Suc (length es)"
    using ps(4,5) by (simp_all add: add_def get_tid_def)
  have fresh: "ts_brk (sy_tasks ?Y) \<notin> set ps" using ps(1) by (auto simp: tlist_def tpath_def)
  have "tlist (insert_task (sy_tasks ?Y) ?t) (ts_brk (sy_tasks ?Y) # ps)" using insert_task_list [OF ps(1,2)] .
  moreover have "map (ts_task (insert_task (sy_tasks ?Y) ?t)) (ts_brk (sy_tasks ?Y) # ps) = ?t # map (ts_task (sy_tasks ?Y)) ps"
    using fresh by (auto simp: insert_task_def Let_def)
  moreover have "0 < ts_brk (insert_task (sy_tasks ?Y) ?t)" by (simp add: insert_task_def Let_def)
  ultimately show ?case
    unfolding e adds_snoc Y entries_tasks_snoc using ps(3) by (intro exI [of _ "ts_brk (sy_tasks ?Y) # ps"]) simp
qed

lemma entries_tids: "map tk_tid (entries_tasks es) = [0..<length es]"
  by (simp add: entries_tasks_def comp_def case_prod_unfold enumerate_eq_zip)

lemma entries_names: "map tk_name (entries_tasks es) = map fst es"
proof (induction es rule: rev_induct)
  case (snoc e es)
  then show ?case by (cases e) (simp add: entries_tasks_snoc)
qed (simp add: entries_tasks_def)

text \<open>The list with which every policy starts.\<close>

lemma reversed_tasks:
  "\<exists>S ps. reverse_tasks (sy_tasks (adds empty_system es)) = Some S \<and> tlist S ps \<and>
     map (ts_task S) ps = entries_tasks es \<and> sy_count (adds empty_system es) = length es"
proof -
  obtain ps where ps: "tlist (sy_tasks (adds empty_system es)) ps"
      "map (ts_task (sy_tasks (adds empty_system es))) ps = rev (entries_tasks es)"
      "sy_count (adds empty_system es) = length es"
    using adds_list by blast
  obtain S where S: "reverse_tasks (sy_tasks (adds empty_system es)) = Some S" "tlist S (rev ps)"
      "ts_task S = ts_task (sy_tasks (adds empty_system es))"
    using reverse_tasks_step [OF ps(1)] by blast
  have "map (ts_task S) (rev ps) = entries_tasks es" using ps(2) by (simp add: S(3) rev_map [symmetric])
  then show ?thesis using S ps(3) by blast
qed

section \<open>Statistics of a non-preemptive order\<close>

text \<open>The sum of the waiting times when the tasks run in full, one after the other, from time 0.\<close>

definition total_wait :: "task list \<Rightarrow> int" where
  "total_wait ts = (\<Sum>k \<leftarrow> [0..<length ts]. burst_sum (take k ts))"

definition total_turnaround :: "task list \<Rightarrow> int" where
  "total_turnaround ts = (\<Sum>k \<leftarrow> [0..<length ts]. burst_sum (take (Suc k) ts))"

definition mean :: "int \<Rightarrow> nat \<Rightarrow> rat option" where
  "mean s n = (if n = 0 then None else Some (of_int s / of_nat n))"

text \<open>A scheduler's result in which the tasks of the list ran in full, in that order, with the right statistics.\<close>

definition ran_in_full :: "task list \<Rightarrow> (tasks \<times> cpu \<times> stats) option \<Rightarrow> bool" where
  "ran_in_full ts result \<longleftrightarrow> (\<exists>S C st. result = Some (S, C, st) \<and>
     cp_out C = concat (map (\<lambda>t. run_line t (tk_burst t)) ts) \<and> cp_time C = burst_sum ts \<and>
     (\<forall>k < length ts. cp_response_time C ! tk_tid (ts ! k) = burst_sum (take k ts) \<and>
        cp_waiting_time C ! tk_tid (ts ! k) = burst_sum (take k ts) \<and>
        cp_turnaround_time C ! tk_tid (ts ! k) = burst_sum (take (Suc k) ts)) \<and>
     st = (mean (total_turnaround ts) (length ts), mean (total_wait ts) (length ts), mean (total_wait ts) (length ts)))"

lemma sum_by_tid:
  fixes xs :: "int list"
  assumes "mset (map tk_tid ts) = mset [0..<length xs]" "\<forall>k < length ts. xs ! tk_tid (ts ! k) = f k"
  shows "sum_list xs = (\<Sum>k \<leftarrow> [0..<length ts]. f k)"
proof -
  have "sum_list xs = sum_list (map (\<lambda>i. xs ! i) [0..<length xs])" by (simp add: map_nth)
  also have "\<dots> = sum_mset (mset (map (\<lambda>i. xs ! i) [0..<length xs]))" by (simp only: sum_mset_sum_list)
  also have "mset (map (\<lambda>i. xs ! i) [0..<length xs]) = mset (map (\<lambda>i. xs ! i) (map tk_tid ts))"
    by (simp only: mset_map [of _ "[0..<length xs]"] mset_map [of _ "map tk_tid ts"] assms(1))
  also have "sum_mset (mset (map (\<lambda>i. xs ! i) (map tk_tid ts))) = sum_list (map (\<lambda>t. xs ! tk_tid t) ts)"
    by (simp only: sum_mset_sum_list map_map comp_def)
  also have "map (\<lambda>t. xs ! tk_tid t) ts = map f [0..<length ts]"
    using assms(2) by (intro nth_equalityI) auto
  finally show ?thesis .
qed

lemma print_stats_order:
  assumes "cpu_wf n C" "mset (map tk_tid ts) = mset [0..<n]"
    and "\<forall>k < length ts. cp_response_time C ! tk_tid (ts ! k) = burst_sum (take k ts) \<and>
        cp_waiting_time C ! tk_tid (ts ! k) = burst_sum (take k ts) \<and>
        cp_turnaround_time C ! tk_tid (ts ! k) = burst_sum (take (Suc k) ts)"
  shows "print_stats C = Some (mean (total_turnaround ts) n, mean (total_wait ts) n, mean (total_wait ts) n)"
proof -
  have len: "length (cp_response_time C) = n" "length (cp_waiting_time C) = n" "length (cp_turnaround_time C) = n"
      "cp_task_count C = n" using assms(1) by (simp_all add: cpu_wf_def)
  have "sum_list (cp_response_time C) = total_wait ts" "sum_list (cp_waiting_time C) = total_wait ts"
      "sum_list (cp_turnaround_time C) = total_turnaround ts"
    using sum_by_tid [of ts "cp_response_time C"] sum_by_tid [of ts "cp_waiting_time C"]
      sum_by_tid [of ts "cp_turnaround_time C"] assms(2,3) len
    by (simp_all add: total_wait_def total_turnaround_def)
  then show ?thesis using len by (simp add: print_stats_def average_def mean_def)
qed

lemma in_full_result:
  assumes "mset ts = mset (entries_tasks es)"
    and "\<forall>C. loop C = map_option (Pair S') (run_seq C (in_full ts))"
  shows "ran_in_full ts (do { (S1, C1) \<leftarrow> loop (init_stats (length es)); st \<leftarrow> print_stats C1; Some (S1, C1, st) })"
proof -
  let ?n = "length es"
  have tids: "mset (map tk_tid ts) = mset [0..<?n]" using assms(1) entries_tids [of es] by (metis mset_map)
  then have set: "set (map tk_tid ts) = set [0..<?n]" "distinct (map tk_tid ts)"
    using mset_eq_setD [OF tids] mset_eq_imp_distinct_iff [OF tids] by auto
  have len: "length ts = ?n" using mset_eq_length [OF tids] by simp
  have flags: "\<forall>t \<in> set ts. tk_tid t < ?n \<and> cp_response_flag (init_stats ?n) ! tk_tid t = 0"
  proof
    fix t assume "t \<in> set ts"
    then have "tk_tid t \<in> set (map tk_tid ts)" by simp
    then have "tk_tid t < ?n" unfolding set(1) by simp
    then show "tk_tid t < ?n \<and> cp_response_flag (init_stats ?n) ! tk_tid t = 0" by (simp add: init_stats_def)
  qed
  have zero: "cp_time (init_stats ?n) = 0" "cp_out (init_stats ?n) = []" by (simp_all add: init_stats_def)
  obtain C' where C': "run_seq (init_stats ?n) (in_full ts) = Some C'" "cpu_wf ?n C'" "cp_time C' = burst_sum ts"
      "cp_out C' = concat (map (\<lambda>t. run_line t (tk_burst t)) ts)"
      "\<forall>k < length ts. cp_response_time C' ! tk_tid (ts ! k) = burst_sum (take k ts) \<and>
         cp_waiting_time C' ! tk_tid (ts ! k) = burst_sum (take k ts) \<and>
         cp_turnaround_time C' ! tk_tid (ts ! k) = burst_sum (take (Suc k) ts)"
    using run_in_full [OF cpu_wf_init set(2) flags] unfolding zero by auto
  have "loop (init_stats ?n) = Some (S', C')" using assms(2) C'(1) by simp
  then show ?thesis using print_stats_order [OF C'(2) tids C'(5)] C' len by (simp add: ran_in_full_def)
qed

section \<open>Shortest job first is optimal\<close>

lemma total_wait_simps [simp]:
  "total_wait [] = 0" "total_wait (t # ts) = int (length ts) * tk_burst t + total_wait ts"
proof -
  show "total_wait [] = 0" by (simp add: total_wait_def)
  have "total_wait (t # ts) = (\<Sum>k \<leftarrow> [0..<length ts]. tk_burst t + burst_sum (take k ts))"
    unfolding total_wait_def length_Cons upt_conv_Cons [OF zero_less_Suc] map_Suc_upt [symmetric]
    by (simp add: burst_sum_def comp_def)
  also have "\<dots> = int (length ts) * tk_burst t + total_wait ts"
    by (simp add: sum_list_addf sum_list_triv total_wait_def)
  finally show "total_wait (t # ts) = int (length ts) * tk_burst t + total_wait ts" .
qed

lemma total_wait_move_front:
  "\<forall>u \<in> set us. tk_burst b \<le> tk_burst u \<Longrightarrow> total_wait (b # us @ vs) \<le> total_wait (us @ b # vs)"
proof (induction us)
  case (Cons u us)
  then have "total_wait (b # us @ vs) \<le> total_wait (us @ b # vs)" "tk_burst b \<le> tk_burst u" by auto
  then show ?case by (simp add: algebra_simps)
qed simp

lemma total_wait_sorted_least:
  assumes "sorted (map tk_burst ts)" "mset us = mset ts"
  shows "total_wait ts \<le> total_wait us"
  using assms
proof (induction ts arbitrary: us)
  case (Cons t ts)
  then have "t \<in> set us" by (metis list.set_intros(1) mset_eq_setD)
  then obtain xs ys where us: "us = xs @ t # ys" by (auto simp: in_set_conv_decomp)
  have rest: "mset (xs @ ys) = mset ts" using Cons.prems(2) us by simp
  then have "\<forall>u \<in> set xs. tk_burst t \<le> tk_burst u"
    using Cons.prems(1) by (metis UnI1 image_eqI list.set_map mset_eq_setD set_append sorted_simps(2) list.simps(9))
  then have "total_wait (t # xs @ ys) \<le> total_wait us" unfolding us by (rule total_wait_move_front)
  moreover have "total_wait ts \<le> total_wait (xs @ ys)" using Cons.IH [OF _ rest] Cons.prems(1) by simp
  moreover have "length ts = length (xs @ ys)" using mset_eq_length [OF rest] by simp
  ultimately show ?case by simp
qed simp

lemma nonpreemptive_runs:
  assumes "distinct (map fst es)"
  shows "ran_in_full (entries_tasks es) (schedule_fcfs (adds empty_system es)) \<and>
    ran_in_full (sort_key tk_burst (entries_tasks es)) (schedule_sjf (adds empty_system es)) \<and>
    ran_in_full (sort_key tk_priority (entries_tasks es)) (schedule_priority (adds empty_system es))"
proof -
  obtain S ps where S: "reverse_tasks (sy_tasks (adds empty_system es)) = Some S" "tlist S ps"
      "map (ts_task S) ps = entries_tasks es" "sy_count (adds empty_system es) = length es"
    using reversed_tasks by blast
  have "map tk_name (map (ts_task S) ps) = map fst es" using S(3) entries_names by simp
  then have d: "distinct (map (\<lambda>q. tk_name (ts_task S q)) ps)" using assms by (simp add: comp_def)
  obtain S1 S2 S3 where
      loops: "\<forall>C. fcfs_loop S C = map_option (Pair S1) (run_seq C (in_full (entries_tasks es)))"
      "\<forall>C. sjf_loop S C = map_option (Pair S2) (run_seq C (in_full (sort_key tk_burst (entries_tasks es))))"
      "\<forall>C. priority_loop S C = map_option (Pair S3) (run_seq C (in_full (sort_key tk_priority (entries_tasks es))))"
    using fcfs_loop_order [OF S(2)] sjf.loop_sorts [OF S(2) d] prio.loop_sorts [OF S(2) d] S(3) by metis
  show ?thesis
    using in_full_result [OF _ loops(1)] in_full_result [OF _ loops(2)] in_full_result [OF _ loops(3)] S(1,4)
    by (simp add: schedule_fcfs_def schedule_sjf_def schedule_priority_def Let_def)
qed





end
