(* ===== verification/Round_Robin.thy ===== *)
theory Round_Robin
  imports Scheduling
begin

text \<open>
  The two round-robin schedulers: the pointer programs are refined to passes over the list of tasks,
  and every task gets exactly its burst.
\<close>

section \<open>Passes over the list\<close>

text \<open>A pass gives one turn to each selected task; those that need no more than a quantum leave the list.\<close>

definition turn :: "task \<Rightarrow> task \<times> int" where
  "turn t = (t, if tk_burst t \<le> TIME_QUANTUM then tk_burst t else TIME_QUANTUM)"

definition after_turn :: "task \<Rightarrow> task list" where
  "after_turn t = (if tk_burst t \<le> TIME_QUANTUM then [] else [t\<lparr>tk_burst := tk_burst t - TIME_QUANTUM\<rparr>])"

definition pass_runs :: "(task \<Rightarrow> bool) \<Rightarrow> task list \<Rightarrow> (task \<times> int) list" where
  "pass_runs sel ts = map turn (filter sel ts)"

definition pass_rest :: "(task \<Rightarrow> bool) \<Rightarrow> task list \<Rightarrow> task list" where
  "pass_rest sel ts = concat (map (\<lambda>t. if sel t then after_turn t else [t]) ts)"

lemma pass_simps [simp]:
  "pass_runs sel [] = []" "pass_runs sel (t # ts) = (if sel t then turn t # pass_runs sel ts else pass_runs sel ts)"
  "pass_rest sel [] = []" "pass_rest sel (t # ts) = (if sel t then after_turn t else [t]) @ pass_rest sel ts"
  by (simp_all add: pass_runs_def pass_rest_def)

lemma pass_rest_append [simp]: "pass_rest sel (ts @ us) = pass_rest sel ts @ pass_rest sel us"
  by (simp add: pass_rest_def)

text \<open>All turns of a set of tasks: passes until none is left.\<close>

definition work :: "task list \<Rightarrow> nat" where
  "work ts = (\<Sum>t \<leftarrow> ts. Suc (nat (tk_burst t)))"

lemma work_after_turn: "work (after_turn t) < Suc (nat (tk_burst t))"
  by (auto simp: work_def after_turn_def TIME_QUANTUM_def)

lemma work_pass: "work (pass_rest (\<lambda>_. True) ts) + length ts \<le> work ts"
proof (induction ts)
  case (Cons t ts)
  then show ?case using work_after_turn [of t] by (simp add: work_def)
qed (simp add: work_def)

function turns :: "task list \<Rightarrow> (task \<times> int) list" where
  "turns ts = (if ts = [] then [] else pass_runs (\<lambda>_. True) ts @ turns (pass_rest (\<lambda>_. True) ts))"
  by pat_completeness auto
termination
proof (relation "measure work")
  fix ts :: "task list" assume "ts \<noteq> []"
  then show "(pass_rest (\<lambda>_. True) ts, ts) \<in> measure work" using work_pass [of ts] by (cases ts) auto
qed simp

declare turns.simps [simp del]

section \<open>One turn in the heap\<close>

definition next_of :: "ptr list \<Rightarrow> ptr" where
  "next_of ys = (case ys of [] \<Rightarrow> NULL | y # _ \<Rightarrow> y)"

lemma tlist_node:
  assumes "tlist S (xs @ p # ys)"
  shows "p \<noteq> NULL" "p < ts_brk S" "ts_next S p = next_of ys"
proof -
  have P: "path (ts_next S) (ts_head S) (xs @ p # ys)" "\<forall>q \<in> set (xs @ p # ys). q < ts_brk S"
    using assms by (auto simp: tlist_def tpath_def)
  show "p \<noteq> NULL" "p < ts_brk S" using path_member [OF P(1)] P(2) by auto
  obtain q where "path (ts_next S) q (p # ys)" using path_suffix [OF P(1)] by blast
  then show "ts_next S p = next_of ys" by (cases ys) (auto simp: next_of_def)
qed

definition node_names :: "tasks \<Rightarrow> ptr list \<Rightarrow> string list" where
  "node_names S ps = map (\<lambda>q. tk_name (ts_task S q)) ps"

lemma quantum_step_turn:
  assumes "tlist S (xs @ p # ys)" "distinct (node_names S (xs @ p # ys))"
  shows "\<exists>S1 zs. tlist S1 (xs @ zs @ ys) \<and> map (ts_task S1) (xs @ zs @ ys) =
      map (ts_task S) xs @ after_turn (ts_task S p) @ map (ts_task S) ys \<and> distinct (node_names S1 (xs @ zs @ ys)) \<and>
    (\<forall>C. quantum_step S C p =
      map_option (\<lambda>C1. (S1, C1, next_of ys)) (run C (ts_task S p) (snd (turn (ts_task S p)))))"
proof -
  let ?t = "ts_task S p"
  note p = tlist_node [OF assms(1)]
  show ?thesis
  proof (cases "tk_burst ?t \<le> TIME_QUANTUM")
    case True
    have "\<forall>x \<in> set xs. tk_name (ts_task S x) \<noteq> tk_name ?t"
      using assms(2) by (auto simp: node_names_def image_iff)
    then obtain S1 where S1: "delete_task S (tk_name ?t) = Some S1" "tlist S1 (xs @ ys)" "ts_task S1 = ts_task S"
      using delete_task_step [OF assms(1)] by blast
    have "quantum_step S C p = map_option (\<lambda>C1. (S1, C1, next_of ys)) (run C ?t (snd (turn ?t)))" for C
      using p S1(1) True by (cases "run C ?t (tk_burst ?t)") (simp_all add: quantum_step_def turn_def)
    moreover have "distinct (node_names S1 (xs @ ys))" using assms(2) S1(3) by (auto simp: node_names_def)
    ultimately show ?thesis
      using S1(2,3) True by (intro exI [of _ S1] exI [of _ "[]"]) (simp add: after_turn_def)
  next
    case False
    let ?u = "?t\<lparr>tk_burst := tk_burst ?t - TIME_QUANTUM\<rparr>"
    define S1 where "S1 = S\<lparr>ts_task := (ts_task S)(p := ?u)\<rparr>"
    have fields: "ts_next S1 = ts_next S" "ts_head S1 = ts_head S" "ts_brk S1 = ts_brk S"
        "ts_task S1 = (ts_task S)(p := ?u)" by (simp_all add: S1_def)
    have "p \<notin> set xs" "p \<notin> set ys" using assms(1) by (auto simp: tlist_def tpath_def)
    then have tasks: "map (ts_task S1) xs = map (ts_task S) xs" "map (ts_task S1) ys = map (ts_task S) ys"
      by (simp_all add: fields)
    have "tlist S1 (xs @ [p] @ ys)" using assms(1) by (simp add: tlist_def tpath_def fields)
    moreover have "node_names S1 (xs @ [p] @ ys) = node_names S (xs @ p # ys)"
      by (simp add: node_names_def fields)
    moreover have "quantum_step S C p = map_option (\<lambda>C1. (S1, C1, next_of ys)) (run C ?t (snd (turn ?t)))" for C
      using p False by (cases "run C ?t TIME_QUANTUM") (simp_all add: quantum_step_def turn_def S1_def Let_def)
    ultimately show ?thesis
      using assms(2) tasks False
      by (intro exI [of _ S1] exI [of _ "[p]"]) (simp add: after_turn_def fields del: map_map)
  qed
qed

section \<open>Round robin\<close>

lemma rr_pass:
  assumes "tlist S (xs @ ys)" "distinct (node_names S (xs @ ys))" "ys \<noteq> []"
  shows "\<exists>S1 zs. tlist S1 zs \<and> distinct (node_names S1 zs) \<and>
    map (ts_task S1) zs = map (ts_task S) xs @ pass_rest (\<lambda>_. True) (map (ts_task S) ys) \<and>
    (\<forall>C. rr_loop S C (hd ys) = run_seq C (pass_runs (\<lambda>_. True) (map (ts_task S) ys)) \<bind> (\<lambda>C1. rr_loop S1 C1 (ts_head S1)))"
  using assms
proof (induction ys arbitrary: S xs)
  case (Cons p ys)
  let ?t = "ts_task S p"
  obtain S1 zs where S1: "tlist S1 (xs @ zs @ ys)" "map (ts_task S1) (xs @ zs @ ys) =
      map (ts_task S) xs @ after_turn ?t @ map (ts_task S) ys" "distinct (node_names S1 (xs @ zs @ ys))"
      "\<forall>C. quantum_step S C p = map_option (\<lambda>C1. (S1, C1, next_of ys)) (run C ?t (snd (turn ?t)))"
    using quantum_step_turn [OF Cons.prems(1,2)] by blast
  have step: "rr_loop S C p = run C ?t (snd (turn ?t)) \<bind>
      (\<lambda>C1. rr_loop S1 C1 (if next_of ys = NULL then ts_head S1 else next_of ys))" for C
    using S1(4) tlist_head [OF Cons.prems(1)]
    by (subst rr_loop.simps) (cases "run C ?t (snd (turn ?t))"; simp)
  have same: "map (ts_task S1) (xs @ zs) = map (ts_task S) xs @ after_turn ?t" "map (ts_task S1) ys = map (ts_task S) ys"
    using S1(2) by (simp_all add: append_eq_append_conv [of _ _ "map (ts_task S1) ys" "map (ts_task S) ys", symmetric])
  have turn: "turn ?t = (?t, snd (turn ?t))" by (simp add: turn_def)
  show ?case
  proof (cases ys)
    case Nil
    then have "rr_loop S C p = run_seq C [turn ?t] \<bind> (\<lambda>C1. rr_loop S1 C1 (ts_head S1))" for C
      unfolding step by (subst turn, cases "run C ?t (snd (turn ?t))") (simp_all add: next_of_def)
    then show ?thesis using S1(1-3) Nil by (intro exI [of _ S1] exI [of _ "xs @ zs"]) simp
  next
    case (Cons y ys')
    then have n: "next_of ys = hd ys" "hd ys \<noteq> NULL"
      using tlist_node(1) [of S1 "xs @ zs" y ys'] S1(1) by (simp_all add: next_of_def)
    obtain S2 us where S2: "tlist S2 us" "distinct (node_names S2 us)"
        "map (ts_task S2) us = map (ts_task S1) (xs @ zs) @ pass_rest (\<lambda>_. True) (map (ts_task S1) ys)"
        "\<forall>C. rr_loop S1 C (hd ys) = run_seq C (pass_runs (\<lambda>_. True) (map (ts_task S1) ys)) \<bind> (\<lambda>C1. rr_loop S2 C1 (ts_head S2))"
      using Cons.IH [of S1 "xs @ zs"] S1(1,3) Cons by auto
    have "rr_loop S C p = run_seq C (turn ?t # pass_runs (\<lambda>_. True) (map (ts_task S) ys)) \<bind> (\<lambda>C1. rr_loop S2 C1 (ts_head S2))" for C
      unfolding step using S2(4) n same(2) by (subst turn, cases "run C ?t (snd (turn ?t))") simp_all
    then show ?thesis using S2(1-3) same by (intro exI [of _ S2] exI [of _ us]) simp
  qed
qed simp

lemma rr_loop_turns:
  assumes "tlist S ps" "distinct (node_names S ps)" "ts = map (ts_task S) ps"
  shows "\<exists>S'. \<forall>C. rr_loop S C (ts_head S) = map_option (Pair S') (run_seq C (turns ts))"
  using assms
proof (induction ts arbitrary: S ps rule: turns.induct)
  case (1 ts)
  show ?case
  proof (cases "ps = []")
    case True
    then show ?thesis using 1(2,4) tlist_head [OF 1(2)]
      by (intro exI [of _ S]) (subst rr_loop.simps, simp add: turns.simps)
  next
    case False
    then have hd: "ts_head S = hd ps" using 1(2) by (cases ps) (auto simp: tlist_def tpath_Cons)
    obtain S1 zs where S1: "tlist S1 zs" "distinct (node_names S1 zs)" "map (ts_task S1) zs = pass_rest (\<lambda>_. True) ts"
        "\<forall>C. rr_loop S C (hd ps) = run_seq C (pass_runs (\<lambda>_. True) ts) \<bind> (\<lambda>C1. rr_loop S1 C1 (ts_head S1))"
      using rr_pass [of S "[]" ps] 1(2-4) False by auto
    obtain S' where "\<forall>C. rr_loop S1 C (ts_head S1) = map_option (Pair S') (run_seq C (turns (pass_rest (\<lambda>_. True) ts)))"
      using "1.IH" [OF _ S1(1,2)] S1(3) False 1(4) by auto
    moreover have "turns ts = pass_runs (\<lambda>_. True) ts @ turns (pass_rest (\<lambda>_. True) ts)"
      using False 1(4) by (subst turns.simps) simp
    ultimately have "rr_loop S C (ts_head S) = map_option (Pair S') (run_seq C (turns ts))" for C
      using S1(4) hd by (cases "run_seq C (pass_runs (\<lambda>_. True) ts)") (simp_all add: run_seq_append)
    then show ?thesis by blast
  qed
qed

section \<open>Priority round robin\<close>

abbreviation level :: "int \<Rightarrow> task \<Rightarrow> bool" where
  "level p \<equiv> (\<lambda>t. tk_priority t = p)"

lemma after_turn_fields: "u \<in> set (after_turn t) \<Longrightarrow> tk_priority u = tk_priority t \<and> tk_name u = tk_name t \<and> tk_tid u = tk_tid t"
  by (auto simp: after_turn_def split: if_splits)

lemma filter_after_turn:
  "filter (level p) (after_turn t) = (if level p t then after_turn t else [])"
  by (simp add: after_turn_def)

lemma pass_level:
  "pass_runs (level p) ts = pass_runs (\<lambda>_. True) (filter (level p) ts)"
  "filter (level p) (pass_rest (level p) ts) = pass_rest (\<lambda>_. True) (filter (level p) ts)"
  "q \<noteq> p \<Longrightarrow> filter (level q) (pass_rest (level p) ts) = filter (level q) ts"
  by (induction ts) (auto simp: after_turn_def)

lemma prr_pass:
  assumes "tlist S (xs @ ys)" "distinct (node_names S (xs @ ys))" "ys \<noteq> []"
  shows "\<exists>S1 zs. tlist S1 zs \<and> distinct (node_names S1 zs) \<and>
    map (ts_task S1) zs = map (ts_task S) xs @ pass_rest (level p) (map (ts_task S) ys) \<and>
    (\<forall>C e. prr_loop p S C (hd ys) e = run_seq C (pass_runs (level p) (map (ts_task S) ys)) \<bind>
       (\<lambda>C1. if e \<or> (\<exists>t \<in> set (map (ts_task S) ys). level p t) then prr_loop p S1 C1 (ts_head S1) False
         else Some (S1, C1, ts_head S1)))"
  using assms
proof (induction ys arbitrary: S xs)
  case (Cons q ys)
  let ?t = "ts_task S q"
  note q = tlist_node [OF Cons.prems(1)]
  have head: "ts_head S \<noteq> NULL" using tlist_head [OF Cons.prems(1)] by simp
  have "\<exists>S1 zs. tlist S1 (xs @ zs @ ys) \<and> distinct (node_names S1 (xs @ zs @ ys)) \<and>
      map (ts_task S1) (xs @ zs @ ys) = map (ts_task S) xs @ pass_rest (level p) [?t] @ map (ts_task S) ys \<and>
      (\<forall>C e. prr_loop p S C q e = run_seq C (pass_runs (level p) [?t]) \<bind> (\<lambda>C1.
         if next_of ys = NULL
         then (if \<not> (e \<or> level p ?t) then Some (S1, C1, ts_head S1) else prr_loop p S1 C1 (ts_head S1) False)
         else prr_loop p S1 C1 (next_of ys) (e \<or> level p ?t)))"
  proof (cases "level p ?t")
    case True
    obtain S1 zs where S1: "tlist S1 (xs @ zs @ ys)" "map (ts_task S1) (xs @ zs @ ys) =
        map (ts_task S) xs @ after_turn ?t @ map (ts_task S) ys" "distinct (node_names S1 (xs @ zs @ ys))"
        "\<forall>C. quantum_step S C q = map_option (\<lambda>C1. (S1, C1, next_of ys)) (run C ?t (snd (turn ?t)))"
      using quantum_step_turn [OF Cons.prems(1,2)] by blast
    show ?thesis
    proof (intro exI conjI allI)
      fix C e
      show "prr_loop p S C q e = run_seq C (pass_runs (level p) [?t]) \<bind> (\<lambda>C1.
         if next_of ys = NULL
         then (if \<not> (e \<or> level p ?t) then Some (S1, C1, ts_head S1) else prr_loop p S1 C1 (ts_head S1) False)
         else prr_loop p S1 C1 (next_of ys) (e \<or> level p ?t))"
      proof -
        have "prr_loop p S C q e = quantum_step S C q \<bind> (\<lambda>(S1, C1, nxt).
            if nxt = NULL then prr_loop p S1 C1 (ts_head S1) False else prr_loop p S1 C1 nxt True)"
          using True head q by (subst prr_loop.simps) (cases "quantum_step S C q"; simp split: prod.splits)
        also have "\<dots> = run C ?t (snd (turn ?t)) \<bind> (\<lambda>C1.
            if next_of ys = NULL then prr_loop p S1 C1 (ts_head S1) False else prr_loop p S1 C1 (next_of ys) True)"
          using S1(4) by (cases "run C ?t (snd (turn ?t))") simp_all
        also have "run C ?t (snd (turn ?t)) = run_seq C (pass_runs (level p) [?t])"
          using True by (simp add: turn_def)
        finally show ?thesis using True by (simp cong: if_cong)
      qed
    qed (use S1 True in auto)
  next
    case False
    then have "prr_loop p S C q e = (if next_of ys = NULL then (if \<not> e then Some (S, C, ts_head S) else prr_loop p S C (ts_head S) False)
        else prr_loop p S C (next_of ys) e)" for C e
      using head q by (subst prr_loop.simps) simp
    then show ?thesis using Cons.prems False by (intro exI [of _ S] exI [of _ "[q]"]) simp
  qed
  then obtain S1 zs where S1: "tlist S1 (xs @ zs @ ys)" "distinct (node_names S1 (xs @ zs @ ys))"
      "map (ts_task S1) (xs @ zs @ ys) = map (ts_task S) xs @ pass_rest (level p) [?t] @ map (ts_task S) ys"
      "\<And>C e. prr_loop p S C q e = run_seq C (pass_runs (level p) [?t]) \<bind> (\<lambda>C1.
         if next_of ys = NULL
         then (if \<not> (e \<or> level p ?t) then Some (S1, C1, ts_head S1) else prr_loop p S1 C1 (ts_head S1) False)
         else prr_loop p S1 C1 (next_of ys) (e \<or> level p ?t))"
    by blast
  have same: "map (ts_task S1) (xs @ zs) = map (ts_task S) xs @ pass_rest (level p) [?t]" "map (ts_task S1) ys = map (ts_task S) ys"
    using S1(3) by (simp_all add: append_eq_append_conv [of _ _ "map (ts_task S1) ys" "map (ts_task S) ys", symmetric])
  have runs: "pass_runs (level p) (map (ts_task S) (q # ys)) = pass_runs (level p) [?t] @ pass_runs (level p) (map (ts_task S) ys)"
    by simp
  show ?case
  proof (cases ys)
    case Nil
    then show ?thesis using S1(1-3) by (intro exI [of _ S1] exI [of _ "xs @ zs"]) (auto simp: S1(4) next_of_def cong: if_cong)
  next
    case (Cons y ys')
    then have n: "next_of ys = hd ys" "hd ys \<noteq> NULL"
      using tlist_node(1) [of S1 "xs @ zs" y ys'] S1(1) by (simp_all add: next_of_def)
    obtain S2 us where S2: "tlist S2 us" "distinct (node_names S2 us)"
        "map (ts_task S2) us = map (ts_task S1) (xs @ zs) @ pass_rest (level p) (map (ts_task S1) ys)"
        "\<And>C e. prr_loop p S1 C (hd ys) e = run_seq C (pass_runs (level p) (map (ts_task S1) ys)) \<bind>
       (\<lambda>C1. if e \<or> (\<exists>t \<in> set (map (ts_task S1) ys). level p t) then prr_loop p S2 C1 (ts_head S2) False
         else Some (S2, C1, ts_head S2))"
      using Cons.IH [of S1 "xs @ zs"] S1(1,2) Cons by auto
    have "prr_loop p S C q e = run_seq C (pass_runs (level p) (map (ts_task S) (q # ys))) \<bind>
       (\<lambda>C1. if e \<or> (\<exists>t \<in> set (map (ts_task S) (q # ys)). level p t) then prr_loop p S2 C1 (ts_head S2) False
         else Some (S2, C1, ts_head S2))" for C e
      unfolding S1(4) runs run_seq_append using n S2(4) same(2)
      by (cases "run_seq C (pass_runs (level p) [?t])") (simp_all del: pass_simps)
    then show ?thesis using S2(1-3) same by (intro exI [of _ S2] exI [of _ us]) (simp del: map_append)
  qed
qed simp


lemma prr_level:
  assumes "tlist S ps" "distinct (node_names S ps)" "fs = filter (level p) (map (ts_task S) ps)"
  shows "\<exists>S1 zs. tlist S1 zs \<and> distinct (node_names S1 zs) \<and>
    (\<forall>q. q \<noteq> p \<longrightarrow> filter (level q) (map (ts_task S1) zs) = filter (level q) (map (ts_task S) ps)) \<and>
    (\<forall>C. prr_loop p S C (ts_head S) False = map_option (\<lambda>C1. (S1, C1, ts_head S1)) (run_seq C (turns fs)))"
  using assms
proof (induction fs arbitrary: S ps rule: turns.induct)
  case (1 fs)
  show ?case
  proof (cases "ps = []")
    case True
    then show ?thesis using 1(2-4) tlist_head [OF 1(2)]
      by (intro exI [of _ S] exI [of _ "[]"]) (subst prr_loop.simps, simp add: turns.simps)
  next
    case False
    then have hd: "ts_head S = hd ps" using 1(2) by (cases ps) (auto simp: tlist_def tpath_Cons)
    obtain S1 zs where S1: "tlist S1 zs" "distinct (node_names S1 zs)"
        "map (ts_task S1) zs = pass_rest (level p) (map (ts_task S) ps)"
        "\<And>C e. prr_loop p S C (hd ps) e = run_seq C (pass_runs (level p) (map (ts_task S) ps)) \<bind>
       (\<lambda>C1. if e \<or> (\<exists>t \<in> set (map (ts_task S) ps). level p t) then prr_loop p S1 C1 (ts_head S1) False
         else Some (S1, C1, ts_head S1))"
      using prr_pass [of S "[]" ps p] 1(2,3) False by auto
    have others: "\<forall>q. q \<noteq> p \<longrightarrow> filter (level q) (map (ts_task S1) zs) = filter (level q) (map (ts_task S) ps)"
      unfolding S1(3) by (intro allI impI pass_level(3))
    show ?thesis
    proof (cases "fs = []")
      case True
      then have none: "\<not> (\<exists>t \<in> set (map (ts_task S) ps). level p t)"
        unfolding 1(4) filter_empty_conv by blast
      have "pass_runs (level p) (map (ts_task S) ps) = []" using True 1(4) by (simp only: pass_level(1) pass_simps(1))
      then have "prr_loop p S C (ts_head S) False = map_option (\<lambda>C1. (S1, C1, ts_head S1)) (run_seq C (turns fs))" for C
        unfolding hd S1(4) using none True by (simp add: turns.simps)
      then show ?thesis using S1(1,2) others by blast
    next
      case some: False
      then have ex: "\<exists>t \<in> set (map (ts_task S) ps). level p t" unfolding 1(4) filter_empty_conv by blast
      have rest: "pass_rest (\<lambda>_. True) fs = filter (level p) (map (ts_task S1) zs)"
        unfolding S1(3) pass_level(2) 1(4) ..
      obtain S2 us where S2: "tlist S2 us" "distinct (node_names S2 us)"
          "\<forall>q. q \<noteq> p \<longrightarrow> filter (level q) (map (ts_task S2) us) = filter (level q) (map (ts_task S1) zs)"
          "\<forall>C. prr_loop p S1 C (ts_head S1) False =
             map_option (\<lambda>C1. (S2, C1, ts_head S2)) (run_seq C (turns (pass_rest (\<lambda>_. True) fs)))"
        using "1.IH" [OF some S1(1,2) rest] by blast
      have turns: "turns fs = pass_runs (level p) (map (ts_task S) ps) @ turns (pass_rest (\<lambda>_. True) fs)"
        using some 1(4) by (subst turns.simps) (simp only: if_False pass_level(1))
      have "prr_loop p S C (ts_head S) False = map_option (\<lambda>C1. (S2, C1, ts_head S2)) (run_seq C (turns fs))" for C
        unfolding hd S1(4) turns run_seq_append using ex S2(4)
        by (cases "run_seq C (pass_runs (level p) (map (ts_task S) ps))") simp_all
      then show ?thesis using S2(1-3) others by (intro exI [of _ S2] exI [of _ us]) simp
    qed
  qed
qed

lemma prr_levels_turns:
  assumes "tlist S ps" "distinct (node_names S ps)" "distinct L"
  shows "\<exists>S'. \<forall>C. prr_levels L S C (ts_head S) =
    map_option (Pair S') (run_seq C (concat (map (\<lambda>p. turns (filter (level p) (map (ts_task S) ps))) L)))"
  using assms
proof (induction L arbitrary: S ps)
  case (Cons p L)
  obtain S1 zs where S1: "tlist S1 zs" "distinct (node_names S1 zs)"
      "\<forall>q. q \<noteq> p \<longrightarrow> filter (level q) (map (ts_task S1) zs) = filter (level q) (map (ts_task S) ps)"
      "\<forall>C. prr_loop p S C (ts_head S) False =
         map_option (\<lambda>C1. (S1, C1, ts_head S1)) (run_seq C (turns (filter (level p) (map (ts_task S) ps))))"
    using prr_level [OF Cons.prems(1,2) refl, of p] by blast
  obtain S' where S': "\<forall>C. prr_levels L S1 C (ts_head S1) =
      map_option (Pair S') (run_seq C (concat (map (\<lambda>q. turns (filter (level q) (map (ts_task S1) zs))) L)))"
    using Cons.IH [OF S1(1,2)] Cons.prems(3) by auto
  have same: "map (\<lambda>q. turns (filter (level q) (map (ts_task S1) zs))) L = map (\<lambda>q. turns (filter (level q) (map (ts_task S) ps))) L"
  proof (rule map_cong [OF refl])
    fix q assume "q \<in> set L"
    then have "q \<noteq> p" using Cons.prems(3) by auto
    then show "turns (filter (level q) (map (ts_task S1) zs)) = turns (filter (level q) (map (ts_task S) ps))" using S1(3) by simp
  qed
  have "prr_levels (p # L) S C (ts_head S) = map_option (Pair S')
      (run_seq C (concat (map (\<lambda>q. turns (filter (level q) (map (ts_task S) ps))) (p # L))))" for C
    unfolding list.map(2) concat.simps(2) run_seq_append same [symmetric] prr_levels.simps(2)
    using S1(4) S' by (cases "run_seq C (turns (filter (level p) (map (ts_task S) ps)))") simp_all
  then show ?case by blast
qed simp

section \<open>Service\<close>

text \<open>The processor time given to a task number.\<close>

definition service :: "nat \<Rightarrow> (task \<times> int) list \<Rightarrow> int" where
  "service i rs = (\<Sum>(t, s) \<leftarrow> filter (\<lambda>(t, s). tk_tid t = i) rs. s)"

lemma service_simps [simp]:
  "service i [] = 0" "service i (rs @ rs') = service i rs + service i rs'"
  "service i ((t, s) # rs) = (if tk_tid t = i then s else 0) + service i rs"
  by (simp_all add: service_def)

definition demand :: "nat \<Rightarrow> task list \<Rightarrow> int" where
  "demand i ts = (\<Sum>t \<leftarrow> filter (\<lambda>t. tk_tid t = i) ts. tk_burst t)"

lemma demand_simps [simp]:
  "demand i [] = 0" "demand i (ts @ us) = demand i ts + demand i us"
  "demand i (t # ts) = (if tk_tid t = i then tk_burst t else 0) + demand i ts"
  by (simp_all add: demand_def)

lemma service_pass: "service i (pass_runs (\<lambda>_. True) ts) + demand i (pass_rest (\<lambda>_. True) ts) = demand i ts"
  by (induction ts) (auto simp: turn_def after_turn_def)

lemma service_turns: "service i (turns ts) = demand i ts"
proof (induction ts rule: turns.induct)
  case (1 ts)
  show ?case
  proof (cases "ts = []")
    case False
    then have "service i (turns ts) = service i (pass_runs (\<lambda>_. True) ts) + service i (turns (pass_rest (\<lambda>_. True) ts))"
      by (subst turns.simps) simp
    then show ?thesis using 1 [OF False] service_pass [of i ts] by simp
  qed (simp add: turns.simps)
qed

lemma turns_bounded: "(t, s) \<in> set (turns ts) \<Longrightarrow> s \<le> TIME_QUANTUM \<and> tk_tid t \<in> tk_tid ` set ts"
proof (induction ts rule: turns.induct)
  case (1 ts)
  have ne: "ts \<noteq> []" using 1(2) by (auto simp: turns.simps)
  have tids: "tk_tid ` set (pass_rest (\<lambda>_. True) ts) \<subseteq> tk_tid ` set ts"
    using after_turn_fields by (fastforce simp: pass_rest_def)
  have "(t, s) \<in> set (pass_runs (\<lambda>_. True) ts) \<or> (t, s) \<in> set (turns (pass_rest (\<lambda>_. True) ts))"
    using 1(2) ne by (subst (asm) turns.simps) simp
  then show ?case
  proof
    assume "(t, s) \<in> set (pass_runs (\<lambda>_. True) ts)"
    then show ?thesis by (auto simp: pass_runs_def turn_def split: if_splits)
  next
    assume "(t, s) \<in> set (turns (pass_rest (\<lambda>_. True) ts))"
    then show ?thesis using 1(1) [OF ne] tids by blast
  qed
qed

lemma turns_first: "ts \<noteq> [] \<Longrightarrow> turns ts = map turn ts @ turns (concat (map after_turn ts))"
  by (subst turns.simps) (simp add: pass_runs_def pass_rest_def)

section \<open>The properties\<close>

text \<open>For evaluating the schedulers by \<open>simp\<close>.\<close>

lemmas scheduler_eval = adds_def add_def get_tid_def empty_system_def empty_tasks_def insert_task_def no_task_def init_stats_def
  reverse_tasks_def reverse_loop.simps node_rd_def sjf_loop.simps shortest_def search_min.simps delete_task_def delete_loop.simps
  run_def arr_get_def arr_set_def rr_loop.simps quantum_step_def TIME_QUANTUM_def print_stats_def average_def Let_def

definition quantum_order :: "task list \<Rightarrow> (task \<times> int) list" where
  "quantum_order ts = concat (map (\<lambda>p. turns (filter (level p) ts)) [MIN_PRIORITY..MAX_PRIORITY])"

lemma quantum_result:
  assumes "\<forall>(t, s) \<in> set rs. tk_tid t < n" "\<forall>C. loop C = map_option (Pair S') (run_seq C rs)"
  shows "\<exists>S C st. (do { (S1, C1) \<leftarrow> loop (init_stats n); st \<leftarrow> print_stats C1; Some (S1, C1, st) }) = Some (S, C, st) \<and>
    run_seq (init_stats n) rs = Some C \<and> print_stats C = Some st \<and> cp_out C = concat (map (\<lambda>(t, s). run_line t s) rs)"
proof -
  obtain C' where C': "run_seq (init_stats n) rs = Some C'" "cpu_wf n C'"
      "cp_out C' = cp_out (init_stats n) @ concat (map (\<lambda>(t, s). run_line t s) rs)"
    using run_seq_total [OF cpu_wf_init assms(1)] by blast
  obtain st where "print_stats C' = Some st"
    using C'(2) by (simp add: print_stats_def average_def cpu_wf_def)
  then show ?thesis using assms(2) C' by (simp add: init_stats_def)
qed

lemma service_levels:
  "service i (concat (map (\<lambda>p. turns (filter (level p) ts)) L)) = (\<Sum>p \<leftarrow> L. demand i (filter (level p) ts))"
  by (induction L) (simp_all add: service_turns)

lemma demand_levels:
  "distinct L \<Longrightarrow> (\<Sum>p \<leftarrow> L. demand i (filter (level p) ts)) = demand i (filter (\<lambda>t. tk_priority t \<in> set L) ts)"
proof (induction ts)
  case (Cons t ts)
  let ?c = "if tk_tid t = i then tk_burst t else 0"
  have "(\<Sum>p \<leftarrow> L. demand i (filter (level p) (t # ts))) =
      (\<Sum>p \<leftarrow> L. (if tk_priority t = p then ?c else 0) + demand i (filter (level p) ts))"
    by (rule arg_cong [where f = sum_list], rule map_cong [OF refl]) simp
  also have "\<dots> = (\<Sum>p \<leftarrow> L. if tk_priority t = p then ?c else 0) + (\<Sum>p \<leftarrow> L. demand i (filter (level p) ts))"
    by (rule sum_list_addf)
  also have "(\<Sum>p \<leftarrow> L. if tk_priority t = p then ?c else 0) = (if tk_priority t \<in> set L then ?c else 0)"
    using Cons.prems by (simp add: sum_list_distinct_conv_sum_set)
  finally show ?case using Cons by simp
qed (simp add: sum_list_0 comp_def)



text \<open>
  \<open>delete\<close> goes by name: with two tasks of one name shortest job first runs the shorter one twice
  and never the other.  And the waiting time \<open>run\<close> records subtracts only the last slice: a task of
  burst 10 alone in the round-robin system is said to have waited 5.
\<close>

lemma scheduler_flaws:
  "map_option (\<lambda>(S, C, st). cp_out C) (schedule_sjf (adds empty_system [(''A'', 1, 9), (''A'', 1, 2)])) =
     Some (run_line \<lparr>tk_name = ''A'', tk_tid = 1, tk_priority = 1, tk_burst = 2\<rparr> 2 @
       run_line \<lparr>tk_name = ''A'', tk_tid = 1, tk_priority = 1, tk_burst = 2\<rparr> 2) \<and>
   map_option (\<lambda>(S, C, t, w, r). w) (schedule_rr (adds empty_system [(''A'', 1, 10)])) = Some (Some 5)"
proof
  show "map_option (\<lambda>(S, C, st). cp_out C) (schedule_sjf (adds empty_system [(''A'', 1, 9), (''A'', 1, 2)])) =
     Some (run_line \<lparr>tk_name = ''A'', tk_tid = 1, tk_priority = 1, tk_burst = 2\<rparr> 2 @
       run_line \<lparr>tk_name = ''A'', tk_tid = 1, tk_priority = 1, tk_burst = 2\<rparr> 2)"
    by (simp add: schedule_sjf_def scheduler_eval cong: eval_congs)
  show "map_option (\<lambda>(S, C, t, w, r). w) (schedule_rr (adds empty_system [(''A'', 1, 10)])) = Some (Some 5)"
    by (simp add: schedule_rr_def scheduler_eval cong: eval_congs)
qed

end
