(* ===== verification/Scheduler_Driver.thy ===== *)
theory Scheduler_Driver
  imports Round_Robin
begin

text \<open>
  The driver of \<open>CS2303 Operating System/Project 4/driver.c\<close> reads back schedule files: lines
  \<open>name, priority, burst\<close> become the tasks, in order.
\<close>

definition schedule_line :: "string \<times> int \<times> int \<Rightarrow> string" where
  "schedule_line = (\<lambda>(n, p, b). n @ '', '' @ fmt_d p @ '', '' @ fmt_d b @ [newline])"

text \<open>Entries that fit a line of the buffer, with names free of commas, and C integers.\<close>

definition good_entry :: "string \<times> int \<times> int \<Rightarrow> bool" where
  "good_entry = (\<lambda>(n, p, b). CHR '','' \<notin> set n \<and> newline \<notin> set n \<and> CHR 0x00 \<notin> set n \<and>
     - (2 ^ 31) \<le> p \<and> p < 2 ^ 31 \<and> - (2 ^ 31) \<le> b \<and> b < 2 ^ 31 \<and> length (schedule_line (n, p, b)) < SIZE)"

lemma read_line_body:
  "newline \<notin> set body \<Longrightarrow> length body < n \<Longrightarrow> read_line n (body @ newline # rest) = (body @ [newline], rest)"
proof (induction body arbitrary: n)
  case Nil
  then show ?case by (cases n) auto
next
  case (Cons c body)
  then obtain m where "n = Suc m" "length body < m" by (cases n) auto
  then show ?case using Cons by auto
qed

lemma fmt_d_chars: "c \<in> set (fmt_d n) \<Longrightarrow> c \<noteq> newline \<and> c \<noteq> CHR '','' \<and> c \<noteq> CHR 0x00"
proof -
  assume "c \<in> set (fmt_d n)"
  then have "c = CHR ''-'' \<or> is_digit c" using nat_digits_digits by (auto simp: fmt_d_def split: if_splits)
  then show ?thesis using digit_not_space by auto
qed

lemma atoi_field:
  assumes "- (2 ^ 31) \<le> n" "n < 2 ^ 31" "rest = [] \<or> \<not> is_digit (hd rest)"
  shows "atoi_int (CHR '' '' # fmt_d n @ rest) = n"
proof -
  have "atoi ([CHR '' ''] @ fmt_d n @ rest) = n" using assms(3) by (intro atoi_fmt_d) (auto simp: is_space_def)
  then show ?thesis using atoi_int_id [of "CHR '' '' # fmt_d n @ rest"] assms(1,2) by simp
qed

lemma strsep_comma:
  assumes "CHR '','' \<notin> set f"
  shows "strsep (Some (f @ CHR '','' # rest)) = (Some f, Some rest)"
proof -
  have "takeWhile (\<lambda>c. c \<noteq> CHR '','') (f @ CHR '','' # rest) = f \<and>
      dropWhile (\<lambda>c. c \<noteq> CHR '','') (f @ CHR '','' # rest) = CHR '','' # rest"
    using assms by (induction f) auto
  then show ?thesis by (simp add: strsep_def)
qed

lemma strsep_last:
  assumes "CHR '','' \<notin> set f"
  shows "strsep (Some f) = (Some f, None)"
proof -
  have "takeWhile (\<lambda>c. c \<noteq> CHR '','') f = f" using assms by (induction f) auto
  then show ?thesis using assms by (simp add: strsep_def)
qed

lemma driver_line_entry:
  assumes "good_entry (n, p, b)"
  shows "driver_line Y (schedule_line (n, p, b)) = Some (add Y n p b)"
proof -
  have g: "CHR '','' \<notin> set n" "newline \<notin> set n" "CHR 0x00 \<notin> set n" "- (2 ^ 31) \<le> p" "p < 2 ^ 31"
      "- (2 ^ 31) \<le> b" "b < 2 ^ 31" using assms by (simp_all add: good_entry_def)
  let ?pf = "CHR '' '' # fmt_d p" and ?bf = "CHR '' '' # fmt_d b @ [newline]"
  have line: "schedule_line (n, p, b) = n @ CHR '','' # ?pf @ CHR '','' # ?bf" by (simp add: schedule_line_def)
  have nul: "takeWhile (\<lambda>c. c \<noteq> CHR 0x00) (schedule_line (n, p, b)) = schedule_line (n, p, b)"
    using g(3) fmt_d_chars by (fastforce simp: line takeWhile_eq_all_conv)
  have "CHR '','' \<notin> set ?pf" "CHR '','' \<notin> set ?bf" using fmt_d_chars by auto
  then have seps: "strsep (Some (schedule_line (n, p, b))) = (Some n, Some (?pf @ CHR '','' # ?bf))"
      "strsep (Some (?pf @ CHR '','' # ?bf)) = (Some ?pf, Some ?bf)" "strsep (Some ?bf) = (Some ?bf, None)"
    unfolding line using strsep_comma [OF g(1)] strsep_comma [of ?pf] strsep_last [of ?bf] by simp_all
  have "atoi_int ?pf = p" using atoi_field [OF g(4,5), of "[]"] by simp
  moreover have "atoi_int ?bf = b" using atoi_field [OF g(6,7), of "[newline]"] by (simp add: is_digit_def)
  ultimately show ?thesis unfolding driver_line_def nul Let_def seps prod.case by simp
qed

lemma driver_loop_entries:
  assumes "\<forall>e \<in> set es. good_entry e"
  shows "driver_loop Y (concat (map schedule_line es)) = Some (adds Y es)"
  using assms
proof (induction es arbitrary: Y)
  case Nil
  then show ?case by (subst driver_loop.simps) (simp add: fgets_def adds_def)
next
  case (Cons e es)
  obtain n p b where e: "e = (n, p, b)" by (cases e)
  let ?body = "n @ '', '' @ fmt_d p @ '', '' @ fmt_d b"
  have line: "schedule_line e = ?body @ [newline]" by (simp add: schedule_line_def e)
  have "newline \<notin> set ?body" "length ?body < SIZE - 1"
    using Cons.prems fmt_d_chars line by (auto simp: good_entry_def e SIZE_def)
  then have "read_line (SIZE - 1) (schedule_line e @ concat (map schedule_line es)) = (schedule_line e, concat (map schedule_line es))"
    unfolding line using read_line_body [of ?body "SIZE - 1"] by simp
  then have "fgets SIZE (concat (map schedule_line (e # es))) = Some (schedule_line e, concat (map schedule_line es))"
    by (simp add: fgets_def line)
  moreover have "driver_line Y (schedule_line e) = Some (add Y n p b)" using driver_line_entry Cons.prems e by simp
  ultimately show ?case using Cons by (subst driver_loop.simps) (simp add: adds_def e)
qed

text \<open>
  C18 (roundtrip). On a file of well-formed lines the driver hands its scheduler exactly the entries of the file,
  in order, with the numbers that were written.
\<close>

theorem driver_reads_schedule:
  assumes "\<forall>e \<in> set es. good_entry e"
  shows "driver_main (concat (map schedule_line es)) schedule = schedule (adds empty_system es)"
  using driver_loop_entries [OF assms] by (simp add: driver_main_def)

theorem driver_reads_schedule_witness:
  "driver_main (schedule_line (''T1'', 4, 20) @ schedule_line (''T2'', 3, - 25)) schedule_fcfs =
     schedule_fcfs (adds empty_system [(''T1'', 4, 20), (''T2'', 3, - 25)])"
  using driver_reads_schedule [of "[(''T1'', 4, 20), (''T2'', 3, - 25)]" schedule_fcfs]
  by (simp add: good_entry_def schedule_line_def fmt_d_def nat_digits.simps SIZE_def)

end
