(* ===== verification/Bounded_Buffer.thy ===== *)
theory Bounded_Buffer
  imports Prelude
begin

text \<open>
  The protocol of the two programs of \<open>CS2303 Operating System/Project 5\<close>: an array used as a ring,
  two counting semaphores and a mutex.  The abstract machine here has one phase per thread; the
  programs are shown to follow it (\<open>Producer_Consumer\<close>, \<open>Thread_Pool\<close>).
\<close>

section \<open>Counting threads\<close>

definition num :: "('a \<Rightarrow> bool) \<Rightarrow> 'a list \<Rightarrow> nat" where
  "num P xs = length (filter P xs)"

lemma num_update:
  "i < length xs \<Longrightarrow> num P (xs[i := x]) + (if P (xs ! i) then 1 else 0) = num P xs + (if P x then 1 else 0)"
proof (induction xs arbitrary: i)
  case (Cons y ys)
  then show ?case by (cases i) (auto simp: num_def)
qed simp

lemma num_le: "num P xs \<le> length xs"
  by (simp add: num_def)

lemma num_pos: "i < length xs \<Longrightarrow> P (xs ! i) \<Longrightarrow> 0 < num P xs"
  by (auto simp: num_def filter_empty_conv intro: nth_mem)

lemma num_zero: "num P xs = 0 \<longleftrightarrow> (\<forall>x \<in> set xs. \<not> P x)"
  by (simp add: num_def filter_empty_conv)

section \<open>The machine\<close>

datatype 'a phase =
    Idle | Peek
  | PutTicket 'a | PutHold 'a | PutStored 'a | PutAdvanced | PutUnlocked
  | GetTicket | GetHold | GetFetched 'a | GetAdvanced 'a | GetUnlocked 'a

record 'a bb =
  bb_data :: "'a list"
  bb_front :: nat
  bb_rear :: nat
  bb_vacancy :: nat
  bb_occupied :: nat
  bb_owner :: "nat option"
  bb_phase :: "'a phase list"
  bb_put :: "'a list" \<comment> \<open>everything stored so far, in order\<close>
  bb_got :: "'a list" \<comment> \<open>everything fetched so far, in order\<close>

definition next_index :: "'a bb \<Rightarrow> nat \<Rightarrow> nat" where
  "next_index b i = (i + 1) mod length (bb_data b)"

definition at :: "'a bb \<Rightarrow> nat \<Rightarrow> 'a phase \<Rightarrow> bool" where
  "at b i p \<longleftrightarrow> i < length (bb_phase b) \<and> bb_phase b ! i = p"

definition goto :: "'a bb \<Rightarrow> nat \<Rightarrow> 'a phase \<Rightarrow> 'a bb" where
  "goto b i p = b\<lparr>bb_phase := (bb_phase b)[i := p]\<rparr>"

inductive bb_step :: "'a bb \<Rightarrow> 'a bb \<Rightarrow> bool" where
  put_wait: "at b i Idle \<Longrightarrow> 0 < bb_vacancy b \<Longrightarrow> bb_step b (goto (b\<lparr>bb_vacancy := bb_vacancy b - 1\<rparr>) i (PutTicket v))"
| put_lock: "at b i (PutTicket v) \<Longrightarrow> bb_owner b = None \<Longrightarrow> bb_step b (goto (b\<lparr>bb_owner := Some i\<rparr>) i (PutHold v))"
| put_store: "at b i (PutHold v) \<Longrightarrow> bb_step b (goto (b\<lparr>bb_data := (bb_data b)[bb_rear b := v]\<rparr>) i (PutStored v))"
| put_advance: "at b i (PutStored v) \<Longrightarrow>
    bb_step b (goto (b\<lparr>bb_rear := next_index b (bb_rear b), bb_put := bb_put b @ [v]\<rparr>) i PutAdvanced)"
| put_unlock: "at b i PutAdvanced \<Longrightarrow> bb_step b (goto (b\<lparr>bb_owner := None\<rparr>) i PutUnlocked)"
| put_post: "at b i PutUnlocked \<Longrightarrow> bb_step b (goto (b\<lparr>bb_occupied := bb_occupied b + 1\<rparr>) i Idle)"
| get_wait: "at b i Idle \<Longrightarrow> 0 < bb_occupied b \<Longrightarrow> bb_step b (goto (b\<lparr>bb_occupied := bb_occupied b - 1\<rparr>) i GetTicket)"
| get_lock: "at b i GetTicket \<Longrightarrow> bb_owner b = None \<Longrightarrow> bb_step b (goto (b\<lparr>bb_owner := Some i\<rparr>) i GetHold)"
| get_fetch: "at b i GetHold \<Longrightarrow> bb_step b (goto b i (GetFetched (bb_data b ! bb_front b)))"
| get_advance: "at b i (GetFetched v) \<Longrightarrow>
    bb_step b (goto (b\<lparr>bb_front := next_index b (bb_front b), bb_got := bb_got b @ [v]\<rparr>) i (GetAdvanced v))"
| get_unlock: "at b i (GetAdvanced v) \<Longrightarrow> bb_step b (goto (b\<lparr>bb_owner := None\<rparr>) i (GetUnlocked v))"
| get_post: "at b i (GetUnlocked v) \<Longrightarrow> bb_step b (goto (b\<lparr>bb_vacancy := bb_vacancy b + 1\<rparr>) i Idle)"
| peek_lock: "at b i Idle \<Longrightarrow> bb_owner b = None \<Longrightarrow> bb_step b (goto (b\<lparr>bb_owner := Some i\<rparr>) i Peek)"
| peek_unlock: "at b i Peek \<Longrightarrow> bb_step b (goto (b\<lparr>bb_owner := None\<rparr>) i Idle)"

definition bb_start :: "'a list \<Rightarrow> nat \<Rightarrow> nat \<Rightarrow> 'a bb" where
  "bb_start slots capacity threads =
     \<lparr>bb_data = slots, bb_front = 0, bb_rear = 0, bb_vacancy = capacity, bb_occupied = 0, bb_owner = None,
      bb_phase = replicate threads Idle, bb_put = [], bb_got = []\<rparr>"

section \<open>The invariant\<close>

fun critical :: "'a phase \<Rightarrow> bool" where
  "critical (PutHold v) = True" | "critical (PutStored v) = True" | "critical PutAdvanced = True"
| "critical GetHold = True" | "critical (GetFetched v) = True" | "critical (GetAdvanced v) = True"
| "critical Peek = True" | "critical p = False"

text \<open>Threads that hold a vacant slot, that owe a vacancy, that hold an item, and that owe an item.\<close>

fun holds_slot :: "'a phase \<Rightarrow> bool" where
  "holds_slot (PutTicket v) = True" | "holds_slot (PutHold v) = True" | "holds_slot (PutStored v) = True"
| "holds_slot (GetAdvanced v) = True" | "holds_slot (GetUnlocked v) = True" | "holds_slot p = False"

fun holds_item :: "'a phase \<Rightarrow> bool" where
  "holds_item GetTicket = True" | "holds_item GetHold = True" | "holds_item (GetFetched v) = True"
| "holds_item PutAdvanced = True" | "holds_item PutUnlocked = True" | "holds_item p = False"

definition stored :: "'a bb \<Rightarrow> nat" where
  "stored b = length (bb_put b) - length (bb_got b)"

definition ring_item :: "'a bb \<Rightarrow> nat \<Rightarrow> 'a" where
  "ring_item b k = bb_data b ! ((bb_front b + k) mod length (bb_data b))"

definition bb_inv :: "nat \<Rightarrow> 'a bb \<Rightarrow> bool" where
  "bb_inv capacity b \<longleftrightarrow>
     0 < length (bb_data b) \<and> capacity \<le> length (bb_data b) \<and> bb_front b < length (bb_data b) \<and>
     bb_rear b = (bb_front b + stored b) mod length (bb_data b) \<and>
     bb_put b = bb_got b @ map (ring_item b) [0..<stored b] \<and>
     bb_vacancy b + num holds_slot (bb_phase b) + stored b = capacity \<and>
     bb_occupied b + num holds_item (bb_phase b) = stored b \<and>
     (\<forall>i < length (bb_phase b). critical (bb_phase b ! i) \<longleftrightarrow> bb_owner b = Some i) \<and>
     (\<forall>i < length (bb_phase b). \<forall>v. bb_phase b ! i = PutStored v \<longrightarrow> bb_data b ! bb_rear b = v) \<and>
     (\<forall>i < length (bb_phase b). \<forall>v. bb_phase b ! i = GetFetched v \<longrightarrow> bb_data b ! bb_front b = v)"

lemma bb_start_inv:
  assumes "0 < length slots" "capacity \<le> length slots"
  shows "bb_inv capacity (bb_start slots capacity threads)"
  using assms by (simp add: bb_inv_def bb_start_def stored_def num_def)

lemma bb_invD:
  assumes "bb_inv capacity b"
  shows "0 < length (bb_data b)" "capacity \<le> length (bb_data b)" "bb_front b < length (bb_data b)"
    "bb_rear b = (bb_front b + stored b) mod length (bb_data b)"
    "bb_put b = bb_got b @ map (ring_item b) [0..<stored b]"
    "bb_vacancy b + num holds_slot (bb_phase b) + stored b = capacity"
    "bb_occupied b + num holds_item (bb_phase b) = stored b"
    "\<And>i. i < length (bb_phase b) \<Longrightarrow> critical (bb_phase b ! i) \<longleftrightarrow> bb_owner b = Some i"
    "\<And>i v. i < length (bb_phase b) \<Longrightarrow> bb_phase b ! i = PutStored v \<Longrightarrow> bb_data b ! bb_rear b = v"
    "\<And>i v. i < length (bb_phase b) \<Longrightarrow> bb_phase b ! i = GetFetched v \<Longrightarrow> bb_data b ! bb_front b = v"
  using assms by (auto simp: bb_inv_def)

text \<open>Steps that leave the ring alone: the counters and the owner have to fit the new phase.\<close>

lemma bb_inv_bookkeeping:
  assumes inv: "bb_inv capacity b" and p: "at b i p"
    and ring: "bb_data c = bb_data b" "bb_front c = bb_front b" "bb_rear c = bb_rear b" "bb_put c = bb_put b" "bb_got c = bb_got b"
    and phase: "bb_phase c = (bb_phase b)[i := q]"
    and vac: "bb_vacancy c + (if holds_slot q then 1 else 0) = bb_vacancy b + (if holds_slot p then 1 else 0)"
    and occ: "bb_occupied c + (if holds_item q then 1 else 0) = bb_occupied b + (if holds_item p then 1 else 0)"
    and owner: "critical q \<longleftrightarrow> bb_owner c = Some i" "\<And>j. j \<noteq> i \<Longrightarrow> bb_owner c = Some j \<longleftrightarrow> bb_owner b = Some j"
    and new: "\<And>v. q = PutStored v \<Longrightarrow> bb_data b ! bb_rear b = v" "\<And>v. q = GetFetched v \<Longrightarrow> bb_data b ! bb_front b = v"
  shows "bb_inv capacity c"
proof -
  note D = bb_invD [OF inv]
  have i: "i < length (bb_phase b)" "bb_phase b ! i = p" using p by (auto simp: at_def)
  have s: "stored c = stored b" "ring_item c = ring_item b" by (simp_all add: stored_def ring_item_def ring fun_eq_iff)
  have n: "num holds_slot (bb_phase c) + (if holds_slot p then 1 else 0) = num holds_slot (bb_phase b) + (if holds_slot q then 1 else 0)"
      "num holds_item (bb_phase c) + (if holds_item p then 1 else 0) = num holds_item (bb_phase b) + (if holds_item q then 1 else 0)"
    using num_update [OF i(1), of holds_slot q] num_update [OF i(1), of holds_item q] by (simp_all add: phase i(2))
  have "bb_vacancy c + num holds_slot (bb_phase c) + stored c = capacity" using D(6) n(1) vac s(1) by (auto split: if_splits)
  moreover have "bb_occupied c + num holds_item (bb_phase c) = stored c" using D(7) n(2) occ s(1) by (auto split: if_splits)
  moreover have "critical (bb_phase c ! j) \<longleftrightarrow> bb_owner c = Some j" if "j < length (bb_phase c)" for j
    using that D(8) [of j] owner by (cases "j = i") (auto simp: phase)
  moreover have "bb_data c ! bb_rear c = v" if "j < length (bb_phase c)" "bb_phase c ! j = PutStored v" for j v
    using that D(9) [of j v] new(1) by (cases "j = i") (auto simp: phase ring)
  moreover have "bb_data c ! bb_front c = v" if "j < length (bb_phase c)" "bb_phase c ! j = GetFetched v" for j v
    using that D(10) [of j v] new(2) by (cases "j = i") (auto simp: phase ring)
  ultimately show ?thesis using D(1-5) by (simp add: bb_inv_def s ring)
qed

lemma bb_only_owner:
  assumes "bb_inv capacity b" "at b i p" "critical p" "j < length (bb_phase b)" "j \<noteq> i"
  shows "\<not> critical (bb_phase b ! j)"
  using assms bb_invD(8) [OF assms(1)] by (auto simp: at_def)

lemma add_mod_inj:
  fixes f :: nat
  assumes "k < s" "s < n"
  shows "(f + k) mod n \<noteq> (f + s) mod n"
proof
  assume "(f + k) mod n = (f + s) mod n"
  then have "n dvd (f + s) - (f + k)" using assms(1) by (metis add_le_cancel_left less_imp_le mod_eq_dvd_iff_nat)
  then have "n dvd s - k" by simp
  then show False using assms by (metis dvd_imp_le less_imp_diff_less not_less zero_less_diff)
qed

lemma bb_store_inv:
  assumes inv: "bb_inv capacity b" and p: "at b i (PutHold v)"
  shows "bb_inv capacity (goto (b\<lparr>bb_data := (bb_data b)[bb_rear b := v]\<rparr>) i (PutStored v))"
proof -
  note D = bb_invD [OF inv]
  let ?c = "b\<lparr>bb_data := (bb_data b)[bb_rear b := v]\<rparr>"
  have i: "i < length (bb_phase b)" "bb_phase b ! i = PutHold v" using p by (auto simp: at_def)
  have "0 < num holds_slot (bb_phase b)" using num_pos [OF i(1), of holds_slot] i(2) by simp
  then have lt: "stored b < length (bb_data b)" using D(2,6) by linarith
  have items: "map (ring_item ?c) [0..<stored b] = map (ring_item b) [0..<stored b]"
  proof (rule map_cong [OF refl])
    fix k assume "k \<in> set [0..<stored b]"
    then have "(bb_front b + k) mod length (bb_data b) \<noteq> bb_rear b" unfolding D(4) using add_mod_inj [OF _ lt] by simp
    then show "ring_item ?c k = ring_item b k" by (simp add: ring_item_def)
  qed
  have other: "\<not> critical (bb_phase b ! j)" if "j < length (bb_phase b)" "j \<noteq> i" for j
    using bb_only_owner [OF inv p _ that] by simp
  have "bb_inv capacity ?c"
  proof -
    have nf: "bb_phase b ! j \<noteq> GetFetched w" "bb_phase b ! j \<noteq> PutStored w" if "j < length (bb_phase b)" for j w
      using other [OF that] i(2) by (cases "j = i"; auto)+
    have s: "stored ?c = stored b" by (simp add: stored_def)
    show ?thesis unfolding bb_inv_def s using D(1-8) items nf by simp
  qed
  moreover have "bb_rear b < length (bb_data b)" using D(1,4) by simp
  moreover have "at ?c i (PutHold v)" "bb_owner b = Some i" using p D(8) [OF i(1)] i(2) by (simp_all add: at_def)
  ultimately show ?thesis
    using bb_inv_bookkeeping [of capacity ?c i "PutHold v" "goto ?c i (PutStored v)" "PutStored v"] by (simp add: goto_def)
qed

lemma bb_put_inv:
  assumes inv: "bb_inv capacity b" and p: "at b i (PutStored v)"
  shows "bb_inv capacity (goto (b\<lparr>bb_rear := next_index b (bb_rear b), bb_put := bb_put b @ [v]\<rparr>) i PutAdvanced)"
proof -
  note D = bb_invD [OF inv]
  define c where "c = goto (b\<lparr>bb_rear := next_index b (bb_rear b), bb_put := bb_put b @ [v]\<rparr>) i PutAdvanced"
  have i: "i < length (bb_phase b)" "bb_phase b ! i = PutStored v" using p by (auto simp: at_def)
  have f: "bb_data c = bb_data b" "bb_front c = bb_front b" "bb_rear c = next_index b (bb_rear b)"
      "bb_put c = bb_put b @ [v]" "bb_got c = bb_got b" "bb_vacancy c = bb_vacancy b" "bb_occupied c = bb_occupied b"
      "bb_owner c = bb_owner b" "bb_phase c = (bb_phase b)[i := PutAdvanced]" by (simp_all add: c_def goto_def)
  have len: "length (bb_got b) + stored b = length (bb_put b)" using arg_cong [OF D(5), of length] by simp
  then have s: "stored c = Suc (stored b)" unfolding stored_def f by simp
  have items: "ring_item c = ring_item b" by (simp add: ring_item_def fun_eq_iff f)
  have last: "ring_item b (stored b) = v" using D(9) [OF i] by (simp add: ring_item_def D(4) [symmetric])
  have n: "num holds_slot (bb_phase c) + 1 = num holds_slot (bb_phase b)" "num holds_item (bb_phase c) = num holds_item (bb_phase b) + 1"
    using num_update [OF i(1), of holds_slot PutAdvanced] num_update [OF i(1), of holds_item PutAdvanced] i(2) by (simp_all add: f)
  have own: "bb_owner b = Some i" using D(8) [OF i(1)] i(2) by simp
  have other: "\<not> critical (bb_phase b ! j)" if "j < length (bb_phase b)" "j \<noteq> i" for j
    using bb_only_owner [OF inv p _ that] by simp
  have crit: "critical (bb_phase c ! j) \<longleftrightarrow> bb_owner c = Some j" "bb_phase c ! j \<noteq> PutStored w" "bb_phase c ! j \<noteq> GetFetched w"
    if "j < length (bb_phase c)" for j w
    using other [of j] own that by (cases "j = i"; force simp: f)+
  have "next_index b (bb_rear b) = (bb_front b + Suc (stored b)) mod length (bb_data b)"
    unfolding next_index_def D(4) by (simp add: mod_Suc_eq)
  then have "bb_inv capacity c"
    unfolding bb_inv_def s items using D(1-7) n last crit by (simp add: f)
  then show ?thesis by (simp only: c_def)
qed

lemma bb_get_inv:
  assumes inv: "bb_inv capacity b" and p: "at b i (GetFetched v)"
  shows "bb_inv capacity (goto (b\<lparr>bb_front := next_index b (bb_front b), bb_got := bb_got b @ [v]\<rparr>) i (GetAdvanced v))"
proof -
  note D = bb_invD [OF inv]
  define c where "c = goto (b\<lparr>bb_front := next_index b (bb_front b), bb_got := bb_got b @ [v]\<rparr>) i (GetAdvanced v)"
  have i: "i < length (bb_phase b)" "bb_phase b ! i = GetFetched v" using p by (auto simp: at_def)
  have f: "bb_data c = bb_data b" "bb_rear c = bb_rear b" "bb_front c = next_index b (bb_front b)"
      "bb_got c = bb_got b @ [v]" "bb_put c = bb_put b" "bb_vacancy c = bb_vacancy b" "bb_occupied c = bb_occupied b"
      "bb_owner c = bb_owner b" "bb_phase c = (bb_phase b)[i := GetAdvanced v]" by (simp_all add: c_def goto_def)
  have "0 < num holds_item (bb_phase b)" using num_pos [OF i(1), of holds_item] i(2) by simp
  then have pos: "0 < stored b" using D(7) by linarith
  have len: "length (bb_got b) + stored b = length (bb_put b)" using arg_cong [OF D(5), of length] by simp
  have s: "stored b = Suc (stored c)" unfolding stored_def f using len pos by (simp add: stored_def)
  have n: "num holds_slot (bb_phase c) = num holds_slot (bb_phase b) + 1" "num holds_item (bb_phase c) + 1 = num holds_item (bb_phase b)"
    using num_update [OF i(1), of holds_slot "GetAdvanced v"] num_update [OF i(1), of holds_item "GetAdvanced v"] i(2)
    by (simp_all add: f)
  have first: "ring_item b 0 = v" using D(3) D(10) [OF i] by (simp add: ring_item_def)
  have shift: "ring_item c k = ring_item b (Suc k)" for k
    by (simp add: ring_item_def f next_index_def mod_add_left_eq)
  have own: "bb_owner b = Some i" using D(8) [OF i(1)] i(2) by simp
  have other: "\<not> critical (bb_phase b ! j)" if "j < length (bb_phase b)" "j \<noteq> i" for j
    using bb_only_owner [OF inv p _ that] by simp
  have crit: "critical (bb_phase c ! j) \<longleftrightarrow> bb_owner c = Some j" "bb_phase c ! j \<noteq> PutStored w" "bb_phase c ! j \<noteq> GetFetched w"
    if "j < length (bb_phase c)" for j w
    using other [of j] own that by (cases "j = i"; force simp: f)+
  have "[0..<stored b] = 0 # map Suc [0..<stored c]" unfolding s by (simp only: map_Suc_upt upt_conv_Cons [OF zero_less_Suc])
  moreover have "map (ring_item c) [0..<stored c] = map (\<lambda>k. ring_item b (Suc k)) [0..<stored c]" by (simp add: shift)
  ultimately have "map (ring_item b) [0..<stored b] = v # map (ring_item c) [0..<stored c]"
    by (simp only: list.map first map_map comp_def)
  then have put: "bb_put b = (bb_got b @ [v]) @ map (ring_item c) [0..<stored c]" using D(5) by simp
  have "bb_rear b = (next_index b (bb_front b) + stored c) mod length (bb_data b)"
    unfolding D(4) next_index_def s by (simp add: mod_add_left_eq)
  then have "bb_inv capacity c"
    unfolding bb_inv_def using D(1,2,6,7) n crit put s by (simp add: f next_index_def)
  then show ?thesis by (simp only: c_def)
qed

text \<open>Every step of the machine keeps the invariant.\<close>

lemma bb_step_inv: "bb_step b c \<Longrightarrow> bb_inv capacity b \<Longrightarrow> bb_inv capacity c"
proof (induction rule: bb_step.induct)
  case (put_wait b i v)
  have i: "i < length (bb_phase b)" using put_wait(1) by (simp add: at_def)
  then show ?case
    using put_wait bb_invD(8) [OF put_wait(3) i] by (intro bb_inv_bookkeeping [OF put_wait(3) put_wait(1), where q = "PutTicket v"]) (simp_all add: goto_def at_def)
next
  case (put_lock b i v)
  have i: "i < length (bb_phase b)" using put_lock(1) by (simp add: at_def)
  then show ?case
    using put_lock bb_invD(8) [OF put_lock(3) i] by (intro bb_inv_bookkeeping [OF put_lock(3) put_lock(1), where q = "PutHold v"]) (simp_all add: goto_def at_def)
next
  case (put_unlock b i)
  have i: "i < length (bb_phase b)" using put_unlock(1) by (simp add: at_def)
  then show ?case
    using put_unlock bb_invD(8) [OF put_unlock(2) i] by (intro bb_inv_bookkeeping [OF put_unlock(2) put_unlock(1), where q = "PutUnlocked"]) (simp_all add: goto_def at_def)
next
  case (put_post b i)
  have i: "i < length (bb_phase b)" using put_post(1) by (simp add: at_def)
  then show ?case
    using put_post bb_invD(8) [OF put_post(2) i] by (intro bb_inv_bookkeeping [OF put_post(2) put_post(1), where q = "Idle"]) (simp_all add: goto_def at_def)
next
  case (get_wait b i)
  have i: "i < length (bb_phase b)" using get_wait(1) by (simp add: at_def)
  then show ?case
    using get_wait bb_invD(8) [OF get_wait(3) i] by (intro bb_inv_bookkeeping [OF get_wait(3) get_wait(1), where q = "GetTicket"]) (simp_all add: goto_def at_def)
next
  case (get_lock b i)
  have i: "i < length (bb_phase b)" using get_lock(1) by (simp add: at_def)
  then show ?case
    using get_lock bb_invD(8) [OF get_lock(3) i] by (intro bb_inv_bookkeeping [OF get_lock(3) get_lock(1), where q = "GetHold"]) (simp_all add: goto_def at_def)
next
  case (get_fetch b i)
  have i: "i < length (bb_phase b)" using get_fetch(1) by (simp add: at_def)
  then show ?case
    using get_fetch bb_invD(8) [OF get_fetch(2) i] by (intro bb_inv_bookkeeping [OF get_fetch(2) get_fetch(1), where q = "GetFetched (bb_data b ! bb_front b)"]) (simp_all add: goto_def at_def)
next
  case (get_unlock b i v)
  have i: "i < length (bb_phase b)" using get_unlock(1) by (simp add: at_def)
  then show ?case
    using get_unlock bb_invD(8) [OF get_unlock(2) i] by (intro bb_inv_bookkeeping [OF get_unlock(2) get_unlock(1), where q = "GetUnlocked v"]) (simp_all add: goto_def at_def)
next
  case (get_post b i v)
  have i: "i < length (bb_phase b)" using get_post(1) by (simp add: at_def)
  then show ?case
    using get_post bb_invD(8) [OF get_post(2) i] by (intro bb_inv_bookkeeping [OF get_post(2) get_post(1), where q = "Idle"]) (simp_all add: goto_def at_def)
next
  case (peek_lock b i)
  have i: "i < length (bb_phase b)" using peek_lock(1) by (simp add: at_def)
  then show ?case
    using peek_lock bb_invD(8) [OF peek_lock(3) i] by (intro bb_inv_bookkeeping [OF peek_lock(3) peek_lock(1), where q = "Peek"]) (simp_all add: goto_def at_def)
next
  case (peek_unlock b i)
  have i: "i < length (bb_phase b)" using peek_unlock(1) by (simp add: at_def)
  then show ?case
    using peek_unlock bb_invD(8) [OF peek_unlock(2) i] by (intro bb_inv_bookkeeping [OF peek_unlock(2) peek_unlock(1), where q = "Idle"]) (simp_all add: goto_def at_def)
next
  case (put_store b i v)
  show ?case by (rule bb_store_inv [OF put_store(2) put_store(1)])
next
  case (put_advance b i v)
  show ?case by (rule bb_put_inv [OF put_advance(2) put_advance(1)])
next
  case (get_advance b i v)
  show ?case by (rule bb_get_inv [OF get_advance(2) get_advance(1)])
qed

section \<open>What the invariant gives\<close>

lemma bb_exclusion:
  assumes "bb_inv capacity b" "i < length (bb_phase b)" "j < length (bb_phase b)"
    and "critical (bb_phase b ! i)" "critical (bb_phase b ! j)"
  shows "i = j"
  using bb_invD(8) [OF assms(1,2)] bb_invD(8) [OF assms(1,3)] assms(4,5) by simp

lemma bb_fifo:
  assumes "bb_inv capacity b"
  shows "bb_put b = bb_got b @ map (ring_item b) [0..<stored b]" "stored b \<le> capacity"
  using bb_invD(5,6) [OF assms] by auto

text \<open>A thread about to store finds a free slot, a thread about to fetch finds the oldest item.\<close>

lemma bb_no_overrun:
  assumes "bb_inv capacity b" "at b i (PutHold v)"
  shows "stored b < capacity"
  using num_pos [of i "bb_phase b" holds_slot] assms(2) bb_invD(6) [OF assms(1)] by (simp add: at_def)

lemma bb_oldest:
  assumes "bb_inv capacity b" "at b i GetHold"
  shows "stored b > 0" "bb_data b ! bb_front b = bb_put b ! length (bb_got b)"
proof -
  note D = bb_invD [OF assms(1)]
  show pos: "stored b > 0"
    using num_pos [of i "bb_phase b" holds_item] assms(2) D(7) by (simp add: at_def)
  have "bb_put b ! length (bb_got b) = map (ring_item b) [0..<stored b] ! 0" unfolding D(5) by (simp add: nth_append)
  also have "\<dots> = ring_item b 0" using pos by simp
  finally show "bb_data b ! bb_front b = bb_put b ! length (bb_got b)" using D(3) by (simp add: ring_item_def)
qed

text \<open>When every thread is idle, a put or a get is possible.\<close>

lemma bb_idle_ready:
  assumes "bb_inv capacity b" "0 < capacity" "\<forall>p \<in> set (bb_phase b). p = Idle"
  shows "0 < bb_vacancy b \<or> 0 < bb_occupied b"
proof -
  have "num holds_slot (bb_phase b) = 0" "num holds_item (bb_phase b) = 0"
    using assms(3) by (auto simp: num_zero)
  then show ?thesis using bb_invD(6,7) [OF assms(1)] assms(2) by auto
qed

text \<open>And when all is idle and no item is announced, everything put has been got.\<close>

lemma bb_idle_empty:
  assumes "bb_inv capacity b" "\<forall>p \<in> set (bb_phase b). p = Idle" "bb_occupied b = 0"
  shows "bb_got b = bb_put b"
proof -
  have "num holds_item (bb_phase b) = 0" using assms(2) by (auto simp: num_zero)
  then have "stored b = 0" using bb_invD(7) [OF assms(1)] assms(3) by simp
  then show ?thesis using bb_fifo(1) [OF assms(1)] by simp
qed

section \<open>Programs that follow the protocol\<close>

text \<open>
  A program whose steps, seen through \<open>view\<close>, are steps of the machine or do not touch the buffer.
\<close>

locale follows_buffer =
  fixes step :: "'s \<Rightarrow> 's \<Rightarrow> bool" and start :: "'s \<Rightarrow> bool" and ok :: "'s \<Rightarrow> bool"
    and view :: "'s \<Rightarrow> 'a bb" and capacity :: nat
  assumes start_view: "start s \<Longrightarrow> bb_inv capacity (view s)"
    and start_ok: "start s \<Longrightarrow> ok s"
    and step_ok: "ok s \<Longrightarrow> step s t \<Longrightarrow> ok t"
    and step_view: "ok s \<Longrightarrow> step s t \<Longrightarrow> bb_step (view s) (view t) \<or> view t = view s"
begin

lemma reach_inv:
  assumes "start s" "step\<^sup>*\<^sup>* s t"
  shows "bb_inv capacity (view t) \<and> ok t"
  using assms(2)
proof (induction rule: rtranclp_induct)
  case base
  then show ?case using start_view start_ok assms(1) by blast
next
  case (step t u)
  then have "bb_step (view t) (view u) \<or> view u = view t" "ok u" using step_view step_ok by blast+
  then show ?case using step.IH bb_step_inv by metis
qed

lemma reach_exclusion:
  assumes "start s" "step\<^sup>*\<^sup>* s t" "i < length (bb_phase (view t))" "j < length (bb_phase (view t))"
    and "critical (bb_phase (view t) ! i)" "critical (bb_phase (view t) ! j)"
  shows "i = j"
  using bb_exclusion reach_inv [OF assms(1,2)] assms(3-6) by blast

lemma reach_fifo:
  assumes "start s" "step\<^sup>*\<^sup>* s t"
  shows "\<exists>rest. bb_put (view t) = bb_got (view t) @ rest \<and> length rest \<le> capacity"
  using bb_fifo [of capacity "view t"] reach_inv [OF assms] by auto

end

end
