(* ===== verification/Producer_Consumer.thy ===== *)
theory Producer_Consumer
  imports Bounded_Buffer C_Int
begin

text \<open>
  \<open>CS2303 Operating System/Project 5/producer-comsumer.c\<close> as a system of threads: every statement that
  touches shared state is one step, and any thread that is not blocked may take the next one.  Values
  of \<open>rand\<close> are arbitrary.  The cancellation of the threads by \<open>main\<close> after its sleep is not a step: the
  program ends there.
\<close>

section \<open>State and steps\<close>

definition BUFFER_SLOTS :: nat where
  "BUFFER_SLOTS = 5"

datatype producer =
    PSleep | PWait int | PLock int | PStore int | PAdvance int | PCount int | PPrint int nat | PUnlock | PPost

datatype consumer =
    CSleep | CWait | CLock | CFetch | CAdvance int | CCount int | CPrint int nat | CUnlock int | CPost int

datatype thread = Producer nat | Consumer nat

record shared =
  sh_data :: "int list"
  sh_front :: nat
  sh_rear :: nat
  sh_mutex :: "thread option"
  sh_empty :: nat
  sh_full :: nat
  sh_out :: string
  sh_produced :: "int list" \<comment> \<open>history\<close>
  sh_consumed :: "int list" \<comment> \<open>history\<close>

record pc_state =
  pc_shared :: shared
  pc_producers :: "producer list"
  pc_consumers :: "consumer list"

text \<open>\<open>None\<close>: the thread is blocked.\<close>

definition sem_wait :: "nat \<Rightarrow> nat option" where
  "sem_wait s = (if 0 < s then Some (s - 1) else None)"

definition mutex_lock :: "thread option \<Rightarrow> thread \<Rightarrow> thread option option" where
  "mutex_lock m t = (if m = None then Some (Some t) else None)"

definition produced_line :: "nat \<Rightarrow> int \<Rightarrow> nat \<Rightarrow> string" where
  "produced_line i v n = ''Producer '' @ nat_digits i @ '': produced '' @ fmt_d v @ ''. Item: '' @ nat_digits (n + 1) @ [newline]"

definition consumed_line :: "nat \<Rightarrow> int \<Rightarrow> nat \<Rightarrow> string" where
  "consumed_line i v n = ''Consumer '' @ nat_digits i @ '': consumed '' @ fmt_d v @ ''. Item: '' @ nat_digits n @ [newline]"

fun producer_step :: "nat \<Rightarrow> int \<Rightarrow> shared \<Rightarrow> producer \<Rightarrow> (shared \<times> producer) option" where
  "producer_step i r S PSleep = Some (S, PWait (r mod 100))"
| "producer_step i r S (PWait v) = do { e \<leftarrow> sem_wait (sh_empty S); Some (S\<lparr>sh_empty := e\<rparr>, PLock v) }"
| "producer_step i r S (PLock v) = do { m \<leftarrow> mutex_lock (sh_mutex S) (Producer i); Some (S\<lparr>sh_mutex := m\<rparr>, PStore v) }"
| "producer_step i r S (PStore v) = Some (S\<lparr>sh_data := (sh_data S)[sh_rear S := v]\<rparr>, PAdvance v)"
| "producer_step i r S (PAdvance v) =
     Some (S\<lparr>sh_rear := (sh_rear S + 1) mod BUFFER_SLOTS, sh_produced := sh_produced S @ [v]\<rparr>, PCount v)"
| "producer_step i r S (PCount v) = Some (S, PPrint v (sh_full S))"
| "producer_step i r S (PPrint v item_count) = Some (S\<lparr>sh_out := sh_out S @ produced_line i v item_count\<rparr>, PUnlock)"
| "producer_step i r S PUnlock = Some (S\<lparr>sh_mutex := None\<rparr>, PPost)"
| "producer_step i r S PPost = Some (S\<lparr>sh_full := sh_full S + 1\<rparr>, PSleep)"

fun consumer_step :: "nat \<Rightarrow> shared \<Rightarrow> consumer \<Rightarrow> (shared \<times> consumer) option" where
  "consumer_step i S CSleep = Some (S, CWait)"
| "consumer_step i S CWait = do { f \<leftarrow> sem_wait (sh_full S); Some (S\<lparr>sh_full := f\<rparr>, CLock) }"
| "consumer_step i S CLock = do { m \<leftarrow> mutex_lock (sh_mutex S) (Consumer i); Some (S\<lparr>sh_mutex := m\<rparr>, CFetch) }"
| "consumer_step i S CFetch = Some (S, CAdvance (sh_data S ! sh_front S))"
| "consumer_step i S (CAdvance v) =
     Some (S\<lparr>sh_front := (sh_front S + 1) mod BUFFER_SLOTS, sh_consumed := sh_consumed S @ [v]\<rparr>, CCount v)"
| "consumer_step i S (CCount v) = Some (S, CPrint v (sh_full S))"
| "consumer_step i S (CPrint v item_count) = Some (S\<lparr>sh_out := sh_out S @ consumed_line i v item_count\<rparr>, CUnlock v)"
| "consumer_step i S (CUnlock v) = Some (S\<lparr>sh_mutex := None\<rparr>, CPost v)"
| "consumer_step i S (CPost v) = Some (S\<lparr>sh_empty := sh_empty S + 1\<rparr>, CSleep)"

inductive pc_step :: "pc_state \<Rightarrow> pc_state \<Rightarrow> bool" where
  produce: "i < length (pc_producers X) \<Longrightarrow> 0 \<le> r \<Longrightarrow>
    producer_step i r (pc_shared X) (pc_producers X ! i) = Some (S, p) \<Longrightarrow>
    pc_step X (X\<lparr>pc_shared := S, pc_producers := (pc_producers X)[i := p]\<rparr>)"
| consume: "i < length (pc_consumers X) \<Longrightarrow>
    consumer_step i (pc_shared X) (pc_consumers X ! i) = Some (S, c) \<Longrightarrow>
    pc_step X (X\<lparr>pc_shared := S, pc_consumers := (pc_consumers X)[i := c]\<rparr>)"

text \<open>\<open>main\<close>: the usage message, or the state after all threads are created.\<close>

definition pc_start :: "string \<Rightarrow> nat \<Rightarrow> nat \<Rightarrow> pc_state" where
  "pc_start out numProducers numConsumers =
     \<lparr>pc_shared = \<lparr>sh_data = replicate BUFFER_SLOTS 0, sh_front = 0, sh_rear = 0, sh_mutex = None, sh_empty = BUFFER_SLOTS,
        sh_full = 0, sh_out = out, sh_produced = [], sh_consumed = []\<rparr>,
      pc_producers = replicate numProducers PSleep, pc_consumers = replicate numConsumers CSleep\<rparr>"

definition pc_main :: "string list \<Rightarrow> string + pc_state" where
  "pc_main argv =
     (if length argv \<noteq> 4
      then Inl (''Invalid number of arguments'' @ [newline] @ ''Usage: '' @ hd argv @ '' sleepTime numProducers numConsumers'' @ [newline])
      else let sleepTime = atoi_int (argv ! 1); numProducers = atoi_int (argv ! 2); numConsumers = atoi_int (argv ! 3) in
        Inr (pc_start (''sleepTime = '' @ fmt_d sleepTime @ '', numProducers = '' @ fmt_d numProducers @
            '', numConsumers = '' @ fmt_d numConsumers @ [newline]) (nat numProducers) (nat numConsumers)))"

section \<open>The protocol\<close>

fun producer_phase :: "producer \<Rightarrow> int phase" where
  "producer_phase PSleep = Idle" | "producer_phase (PWait v) = Idle" | "producer_phase (PLock v) = PutTicket v"
| "producer_phase (PStore v) = PutHold v" | "producer_phase (PAdvance v) = PutStored v"
| "producer_phase (PCount v) = PutAdvanced" | "producer_phase (PPrint v n) = PutAdvanced"
| "producer_phase PUnlock = PutAdvanced" | "producer_phase PPost = PutUnlocked"

fun consumer_phase :: "consumer \<Rightarrow> int phase" where
  "consumer_phase CSleep = Idle" | "consumer_phase CWait = Idle" | "consumer_phase CLock = GetTicket"
| "consumer_phase CFetch = GetHold" | "consumer_phase (CAdvance v) = GetFetched v"
| "consumer_phase (CCount v) = GetAdvanced v" | "consumer_phase (CPrint v n) = GetAdvanced v"
| "consumer_phase (CUnlock v) = GetAdvanced v" | "consumer_phase (CPost v) = GetUnlocked v"

fun thread_index :: "nat \<Rightarrow> thread \<Rightarrow> nat" where
  "thread_index n (Producer i) = i"
| "thread_index n (Consumer i) = n + i"

definition pc_view :: "pc_state \<Rightarrow> int bb" where
  "pc_view X = (let S = pc_shared X in
     \<lparr>bb_data = sh_data S, bb_front = sh_front S, bb_rear = sh_rear S, bb_vacancy = sh_empty S, bb_occupied = sh_full S,
      bb_owner = map_option (thread_index (length (pc_producers X))) (sh_mutex S),
      bb_phase = map producer_phase (pc_producers X) @ map consumer_phase (pc_consumers X),
      bb_put = sh_produced S, bb_got = sh_consumed S\<rparr>)"

definition pc_ok :: "pc_state \<Rightarrow> bool" where
  "pc_ok X \<longleftrightarrow> length (sh_data (pc_shared X)) = BUFFER_SLOTS \<and>
     (\<forall>i. sh_mutex (pc_shared X) = Some (Producer i) \<longrightarrow> i < length (pc_producers X)) \<and>
     (\<forall>i. sh_mutex (pc_shared X) = Some (Consumer i) \<longrightarrow> i < length (pc_consumers X))"

definition is_start :: "pc_state \<Rightarrow> bool" where
  "is_start X \<longleftrightarrow> (\<exists>out m n. X = pc_start out m n)"

lemmas view_defs = pc_view_def pc_ok_def goto_def next_index_def Let_def map_update list_update_append

lemma pc_step_view:
  assumes ok: "pc_ok X" and step: "pc_step X Y"
  shows "(bb_step (pc_view X) (pc_view Y) \<or> pc_view Y = pc_view X) \<and> pc_ok Y"
  using step
proof cases
  case (produce i r S p)
  have b: "i < length (pc_producers X)" using produce by simp
  have at: "at (pc_view X) i (producer_phase (pc_producers X ! i))"
    using b by (simp add: at_def pc_view_def Let_def nth_append)
  have st: "producer_step i r (pc_shared X) (pc_producers X ! i) = Some (S, p)"
    "Y = X\<lparr>pc_shared := S, pc_producers := (pc_producers X)[i := p]\<rparr>" using produce by simp_all
  have idle: "(map producer_phase (pc_producers X))[i := producer_phase (pc_producers X ! i)] = map producer_phase (pc_producers X)"
    using b by (simp add: list_update_same_conv)
  show ?thesis
  proof (cases "pc_producers X ! i")
    case PSleep
    then show ?thesis using st ok idle by (auto simp: view_defs)
  next
    case (PWait v)
    have "at (pc_view X) i (producer_phase (PWait v))" using at PWait by simp
    then show ?thesis
      using bb_step.put_wait [of "pc_view X" i v] st ok b PWait
      by (auto simp: view_defs bind_eq_Some_conv sem_wait_def mutex_lock_def split: if_splits)
  next
    case (PLock v)
    have "at (pc_view X) i (producer_phase (PLock v))" using at PLock by simp
    then show ?thesis
      using bb_step.put_lock [of "pc_view X" i v] st ok b PLock
      by (auto simp: view_defs bind_eq_Some_conv sem_wait_def mutex_lock_def split: if_splits)
  next
    case (PStore v)
    have "at (pc_view X) i (producer_phase (PStore v))" using at PStore by simp
    then show ?thesis
      using bb_step.put_store [of "pc_view X" i v] st ok b PStore
      by (auto simp: view_defs bind_eq_Some_conv sem_wait_def mutex_lock_def split: if_splits)
  next
    case (PAdvance v)
    have "at (pc_view X) i (producer_phase (PAdvance v))" using at PAdvance by simp
    then show ?thesis
      using bb_step.put_advance [of "pc_view X" i v] st ok b PAdvance
      by (auto simp: view_defs bind_eq_Some_conv sem_wait_def mutex_lock_def split: if_splits)
  next
    case (PCount v)
    then show ?thesis using st ok idle by (auto simp: view_defs)
  next
    case (PPrint v n)
    then show ?thesis using st ok idle by (auto simp: view_defs)
  next
    case PUnlock
    have "at (pc_view X) i (producer_phase PUnlock)" using at PUnlock by simp
    then show ?thesis
      using bb_step.put_unlock [of "pc_view X" i] st ok b PUnlock
      by (auto simp: view_defs bind_eq_Some_conv sem_wait_def mutex_lock_def split: if_splits)
  next
    case PPost
    have "at (pc_view X) i (producer_phase PPost)" using at PPost by simp
    then show ?thesis
      using bb_step.put_post [of "pc_view X" i] st ok b PPost
      by (auto simp: view_defs bind_eq_Some_conv sem_wait_def mutex_lock_def split: if_splits)
  qed
next
  case (consume i S c)
  have b: "i < length (pc_consumers X)" using consume by simp
  have at: "at (pc_view X) (length (pc_producers X) + i) (consumer_phase (pc_consumers X ! i))"
    using b by (simp add: at_def pc_view_def Let_def nth_append)
  have st: "consumer_step i (pc_shared X) (pc_consumers X ! i) = Some (S, c)"
    "Y = X\<lparr>pc_shared := S, pc_consumers := (pc_consumers X)[i := c]\<rparr>" using consume by simp_all
  have idle: "(map consumer_phase (pc_consumers X))[i := consumer_phase (pc_consumers X ! i)] = map consumer_phase (pc_consumers X)"
    using b by (simp add: list_update_same_conv)
  show ?thesis
  proof (cases "pc_consumers X ! i")
    case CSleep
    then show ?thesis using st ok idle by (auto simp: view_defs)
  next
    case CWait
    have "at (pc_view X) (length (pc_producers X) + i) (consumer_phase CWait)" using at CWait by simp
    then show ?thesis
      using bb_step.get_wait [of "pc_view X" "length (pc_producers X) + i"] st ok b CWait
      by (auto simp: view_defs bind_eq_Some_conv sem_wait_def mutex_lock_def split: if_splits)
  next
    case CLock
    have "at (pc_view X) (length (pc_producers X) + i) (consumer_phase CLock)" using at CLock by simp
    then show ?thesis
      using bb_step.get_lock [of "pc_view X" "length (pc_producers X) + i"] st ok b CLock
      by (auto simp: view_defs bind_eq_Some_conv sem_wait_def mutex_lock_def split: if_splits)
  next
    case CFetch
    have "at (pc_view X) (length (pc_producers X) + i) (consumer_phase CFetch)" using at CFetch by simp
    then show ?thesis
      using bb_step.get_fetch [of "pc_view X" "length (pc_producers X) + i"] st ok b CFetch
      by (auto simp: view_defs bind_eq_Some_conv sem_wait_def mutex_lock_def split: if_splits)
  next
    case (CAdvance v)
    have "at (pc_view X) (length (pc_producers X) + i) (consumer_phase (CAdvance v))" using at CAdvance by simp
    then show ?thesis
      using bb_step.get_advance [of "pc_view X" "length (pc_producers X) + i" v] st ok b CAdvance
      by (auto simp: view_defs bind_eq_Some_conv sem_wait_def mutex_lock_def split: if_splits)
  next
    case (CCount v)
    then show ?thesis using st ok idle by (auto simp: view_defs)
  next
    case (CPrint v n)
    then show ?thesis using st ok idle by (auto simp: view_defs)
  next
    case (CUnlock v)
    have "at (pc_view X) (length (pc_producers X) + i) (consumer_phase (CUnlock v))" using at CUnlock by simp
    then show ?thesis
      using bb_step.get_unlock [of "pc_view X" "length (pc_producers X) + i" v] st ok b CUnlock
      by (auto simp: view_defs bind_eq_Some_conv sem_wait_def mutex_lock_def split: if_splits)
  next
    case (CPost v)
    have "at (pc_view X) (length (pc_producers X) + i) (consumer_phase (CPost v))" using at CPost by simp
    then show ?thesis
      using bb_step.get_post [of "pc_view X" "length (pc_producers X) + i" v] st ok b CPost
      by (auto simp: view_defs bind_eq_Some_conv sem_wait_def mutex_lock_def split: if_splits)
  qed
qed

interpretation pc: follows_buffer pc_step is_start pc_ok pc_view BUFFER_SLOTS
proof
  fix s assume "is_start s"
  then obtain out m n where s: "s = pc_start out m n" by (auto simp: is_start_def)
  have "pc_view s = bb_start (replicate BUFFER_SLOTS 0) BUFFER_SLOTS (m + n)"
    by (simp add: s pc_view_def pc_start_def bb_start_def replicate_add)
  then show "bb_inv BUFFER_SLOTS (pc_view s)" by (simp add: bb_start_inv BUFFER_SLOTS_def)
  show "pc_ok s" by (simp add: s pc_ok_def pc_start_def)
qed (use pc_step_view in blast)+

section \<open>The properties\<close>

fun in_critical :: "pc_state \<Rightarrow> thread \<Rightarrow> bool" where
  "in_critical X (Producer i) \<longleftrightarrow> i < length (pc_producers X) \<and> critical (producer_phase (pc_producers X ! i))"
| "in_critical X (Consumer i) \<longleftrightarrow> i < length (pc_consumers X) \<and> critical (consumer_phase (pc_consumers X ! i))"

fun thread_ok :: "pc_state \<Rightarrow> thread \<Rightarrow> bool" where
  "thread_ok X (Producer i) \<longleftrightarrow> i < length (pc_producers X)"
| "thread_ok X (Consumer i) \<longleftrightarrow> i < length (pc_consumers X)"

fun thread_phase :: "pc_state \<Rightarrow> thread \<Rightarrow> int phase" where
  "thread_phase X (Producer i) = producer_phase (pc_producers X ! i)"
| "thread_phase X (Consumer i) = consumer_phase (pc_consumers X ! i)"

lemma view_at: "thread_ok X t \<Longrightarrow> at (pc_view X) (thread_index (length (pc_producers X)) t) (thread_phase X t)"
  by (cases t) (auto simp: at_def pc_view_def Let_def nth_append)

lemma thread_index_inj:
  "thread_ok X s \<Longrightarrow> thread_ok X t \<Longrightarrow>
   thread_index (length (pc_producers X)) s = thread_index (length (pc_producers X)) t \<Longrightarrow> s = t"
  by (cases s; cases t) auto

lemma pc_main_start: "pc_main argv = Inr X \<Longrightarrow> is_start X"
  by (auto simp: pc_main_def is_start_def Let_def split: if_splits)

text \<open>
  C19 (safety). In every reachable state at most one thread is between lock and unlock; what the consumers took is,
  in order, a prefix of what the producers stored, at most five items behind; a consumer about to read
  finds the oldest item not yet taken, and a producer about to write finds a free slot.
\<close>

theorem producer_consumer_safe:
  assumes "pc_main argv = Inr X" "pc_step\<^sup>*\<^sup>* X Y"
  shows "(\<forall>s t. in_critical Y s \<and> in_critical Y t \<longrightarrow> s = t) \<and>
    (\<exists>rest. sh_produced (pc_shared Y) = sh_consumed (pc_shared Y) @ rest \<and> length rest \<le> BUFFER_SLOTS) \<and>
    (\<forall>i < length (pc_consumers Y). pc_consumers Y ! i = CFetch \<longrightarrow>
       length (sh_consumed (pc_shared Y)) < length (sh_produced (pc_shared Y)) \<and>
       sh_data (pc_shared Y) ! sh_front (pc_shared Y) = sh_produced (pc_shared Y) ! length (sh_consumed (pc_shared Y))) \<and>
    (\<forall>i < length (pc_producers Y). \<forall>v. pc_producers Y ! i = PStore v \<longrightarrow>
       length (sh_produced (pc_shared Y)) < length (sh_consumed (pc_shared Y)) + BUFFER_SLOTS)"
proof (intro conjI allI impI)
  note start = pc_main_start [OF assms(1)]
  have inv: "bb_inv BUFFER_SLOTS (pc_view Y)" using pc.reach_inv [OF start assms(2)] by blast
  have hist: "bb_put (pc_view Y) = sh_produced (pc_shared Y)" "bb_got (pc_view Y) = sh_consumed (pc_shared Y)"
    "bb_data (pc_view Y) = sh_data (pc_shared Y)" "bb_front (pc_view Y) = sh_front (pc_shared Y)"
    by (simp_all add: pc_view_def Let_def)
  show "\<exists>rest. sh_produced (pc_shared Y) = sh_consumed (pc_shared Y) @ rest \<and> length rest \<le> BUFFER_SLOTS"
    using pc.reach_fifo [OF start assms(2)] unfolding hist .
  fix s t assume c: "in_critical Y s \<and> in_critical Y t"
  then have ok: "thread_ok Y s" "thread_ok Y t" "critical (thread_phase Y s)" "critical (thread_phase Y t)"
    by (cases s; cases t; simp)+
  have "thread_index (length (pc_producers Y)) s = thread_index (length (pc_producers Y)) t"
    using pc.reach_exclusion [OF start assms(2)] view_at [OF ok(1)] view_at [OF ok(2)] ok(3,4) by (auto simp: at_def)
  then show "s = t" using thread_index_inj ok(1,2) by blast
next
  fix i assume i: "i < length (pc_consumers Y)" "pc_consumers Y ! i = CFetch"
  have inv: "bb_inv BUFFER_SLOTS (pc_view Y)" using pc.reach_inv [OF pc_main_start [OF assms(1)] assms(2)] by blast
  have hist: "bb_put (pc_view Y) = sh_produced (pc_shared Y)" "bb_got (pc_view Y) = sh_consumed (pc_shared Y)"
    "bb_data (pc_view Y) = sh_data (pc_shared Y)" "bb_front (pc_view Y) = sh_front (pc_shared Y)"
    by (simp_all add: pc_view_def Let_def)
  have at: "at (pc_view Y) (length (pc_producers Y) + i) GetHold" using view_at [of Y "Consumer i"] i by simp
  show "length (sh_consumed (pc_shared Y)) < length (sh_produced (pc_shared Y))"
    using bb_oldest(1) [OF inv at] by (simp add: stored_def hist)
  show "sh_data (pc_shared Y) ! sh_front (pc_shared Y) = sh_produced (pc_shared Y) ! length (sh_consumed (pc_shared Y))"
    using bb_oldest(2) [OF inv at] by (simp add: hist)
next
  fix i v assume i: "i < length (pc_producers Y)" "pc_producers Y ! i = PStore v"
  have inv: "bb_inv BUFFER_SLOTS (pc_view Y)" using pc.reach_inv [OF pc_main_start [OF assms(1)] assms(2)] by blast
  have hist: "bb_put (pc_view Y) = sh_produced (pc_shared Y)" "bb_got (pc_view Y) = sh_consumed (pc_shared Y)"
    by (simp_all add: pc_view_def Let_def)
  have at: "at (pc_view Y) i (PutHold v)" using view_at [of Y "Producer i"] i by simp
  show "length (sh_produced (pc_shared Y)) < length (sh_consumed (pc_shared Y)) + BUFFER_SLOTS"
    using bb_no_overrun [OF inv at] by (simp add: stored_def hist)
qed

text \<open>A run in which the only producer announces a value and passes the semaphore.\<close>

definition sample_argv :: "string list" where
  "sample_argv = [''pc'', ''1'', ''1'', ''1'']"

definition sample_header :: string where
  "sample_header = ''sleepTime = 1, numProducers = 1, numConsumers = 1'' @ [newline]"

lemma sample_main: "pc_main sample_argv = Inr (pc_start sample_header 1 1)"
proof -
  have "atoi_int ''1'' = 1"
    using atoi_int_id [of "''1''"] by (simp add: atoi_def is_space_def is_digit_def)
  moreover have "char_of (49 :: nat) = CHR ''1''" by code_simp
  ultimately show ?thesis by (simp add: pc_main_def sample_argv_def sample_header_def fmt_d_def nat_digits.simps)
qed

lemma sample_steps:
  "pc_step\<^sup>*\<^sup>* (pc_start sample_header 1 1) (pc_start sample_header 1 1\<lparr>pc_producers := [PWait 42]\<rparr>)"
proof -
  have "producer_step 0 42 (pc_shared (pc_start sample_header 1 1)) (pc_producers (pc_start sample_header 1 1) ! 0) =
      Some (pc_shared (pc_start sample_header 1 1), PWait 42)" by (simp add: pc_start_def)
  then have "pc_step (pc_start sample_header 1 1) (pc_start sample_header 1 1\<lparr>pc_shared := pc_shared (pc_start sample_header 1 1),
      pc_producers := (pc_producers (pc_start sample_header 1 1))[0 := PWait 42]\<rparr>)"
    by (intro pc_step.produce [where r = 42]) (simp_all add: pc_start_def)
  then show ?thesis by (simp add: pc_start_def)
qed

theorem producer_consumer_safe_witness:
  "\<exists>Y. pc_step\<^sup>*\<^sup>* (pc_start sample_header 1 1) Y \<and> pc_producers Y = [PWait 42] \<and>
     (\<exists>rest. sh_produced (pc_shared Y) = sh_consumed (pc_shared Y) @ rest \<and> length rest \<le> BUFFER_SLOTS)"
proof -
  let ?Y = "pc_start sample_header 1 1\<lparr>pc_producers := [PWait 42]\<rparr>"
  have "\<exists>rest. sh_produced (pc_shared ?Y) = sh_consumed (pc_shared ?Y) @ rest \<and> length rest \<le> BUFFER_SLOTS"
    using producer_consumer_safe [OF sample_main sample_steps] by blast
  then show ?thesis using sample_steps by (intro exI [of _ ?Y]) simp
qed

text \<open>A thread that is not waiting for a semaphore or for the mutex can take its step.\<close>

fun producer_waits :: "producer \<Rightarrow> bool" where
  "producer_waits (PWait v) = True" | "producer_waits (PLock v) = True" | "producer_waits p = False"

fun consumer_waits :: "consumer \<Rightarrow> bool" where
  "consumer_waits CWait = True" | "consumer_waits CLock = True" | "consumer_waits p = False"

lemma producer_runs: "\<not> producer_waits p \<Longrightarrow> \<exists>S' p'. producer_step i r S p = Some (S', p')"
  by (cases p) auto

lemma consumer_runs: "\<not> consumer_waits c \<Longrightarrow> \<exists>S' c'. consumer_step i S c = Some (S', c')"
  by (cases c) auto

lemma critical_runs:
  "critical (producer_phase p) \<Longrightarrow> \<not> producer_waits p" "critical (consumer_phase c) \<Longrightarrow> \<not> consumer_waits c"
  by (cases p; simp) (cases c; simp)

lemma producer_enabled:
  assumes "i < length (pc_producers Y)" "producer_step i 0 (pc_shared Y) (pc_producers Y ! i) = Some (S', p')"
  shows "\<exists>Z. pc_step Y Z"
  using pc_step.produce [OF assms(1) order_refl assms(2)] by blast

lemma consumer_enabled:
  assumes "i < length (pc_consumers Y)" "consumer_step i (pc_shared Y) (pc_consumers Y ! i) = Some (S', c')"
  shows "\<exists>Z. pc_step Y Z"
  using pc_step.consume [OF assms] by blast

lemma pc_step_threads:
  "pc_step X Y \<Longrightarrow> length (pc_producers Y) = length (pc_producers X) \<and> length (pc_consumers Y) = length (pc_consumers X)"
  by (induction rule: pc_step.induct) auto

text \<open>
  C21 (liveness). With at least one producer and one consumer the program never deadlocks: in every reachable state
  some thread can take a step.
\<close>

theorem producer_consumer_no_deadlock:
  assumes "pc_main argv = Inr X" "pc_step\<^sup>*\<^sup>* X Y" "pc_producers X \<noteq> []" "pc_consumers X \<noteq> []"
  shows "\<exists>Z. pc_step Y Z"
proof (rule ccontr)
  assume stuck: "\<nexists>Z. pc_step Y Z"
  have inv: "bb_inv BUFFER_SLOTS (pc_view Y)" using pc.reach_inv [OF pc_main_start [OF assms(1)] assms(2)] by blast
  have "length (pc_producers Y) = length (pc_producers X) \<and> length (pc_consumers Y) = length (pc_consumers X)"
    using assms(2) by (induction rule: rtranclp_induct) (auto dest: pc_step_threads)
  then have ne: "0 < length (pc_producers Y)" "0 < length (pc_consumers Y)" using assms(3,4) by auto
  have P: "producer_waits (pc_producers Y ! i)" if "i < length (pc_producers Y)" for i
    using producer_runs [of "pc_producers Y ! i" i 0] producer_enabled [OF that] stuck by blast
  have C: "consumer_waits (pc_consumers Y ! i)" if "i < length (pc_consumers Y)" for i
    using consumer_runs [of "pc_consumers Y ! i" i] consumer_enabled [OF that] stuck by blast
  have free: "sh_mutex (pc_shared Y) = None"
  proof (rule ccontr)
    assume "sh_mutex (pc_shared Y) \<noteq> None"
    then obtain t where "sh_mutex (pc_shared Y) = Some t" by auto
    moreover have "thread_ok Y t"
      using pc.reach_inv [OF pc_main_start [OF assms(1)] assms(2)] calculation by (cases t) (auto simp: pc_ok_def)
    moreover have "bb_owner (pc_view Y) = Some (thread_index (length (pc_producers Y)) t)"
      using calculation(1) by (simp add: pc_view_def Let_def)
    ultimately have "critical (thread_phase Y t)"
      using bb_invD(8) [OF inv, of "thread_index (length (pc_producers Y)) t"] view_at [of Y t] by (simp add: at_def)
    then show False using \<open>thread_ok Y t\<close> P C critical_runs by (cases t) auto
  qed
  have PW: "\<exists>v. pc_producers Y ! i = PWait v" if "i < length (pc_producers Y)" for i
    using P [OF that] producer_enabled [OF that] stuck free
    by (cases "pc_producers Y ! i") (auto simp: mutex_lock_def)
  have CW: "pc_consumers Y ! i = CWait" if "i < length (pc_consumers Y)" for i
    using C [OF that] consumer_enabled [OF that] stuck free
    by (cases "pc_consumers Y ! i") (auto simp: mutex_lock_def)
  have "\<forall>p \<in> set (bb_phase (pc_view Y)). p = Idle"
    using PW CW by (fastforce simp: pc_view_def Let_def in_set_conv_nth)
  then have "0 < sh_empty (pc_shared Y) \<or> 0 < sh_full (pc_shared Y)"
    using bb_idle_ready [OF inv] by (simp add: pc_view_def Let_def BUFFER_SLOTS_def)
  then show False
  proof
    assume "0 < sh_empty (pc_shared Y)"
    then show False using PW [OF ne(1)] producer_enabled [OF ne(1)] stuck by (fastforce simp: sem_wait_def)
  next
    assume "0 < sh_full (pc_shared Y)"
    then show False using CW [OF ne(2)] consumer_enabled [OF ne(2)] stuck by (fastforce simp: sem_wait_def)
  qed
qed

theorem producer_consumer_no_deadlock_witness:
  "\<exists>Z. pc_step (pc_start sample_header 1 1\<lparr>pc_producers := [PWait 42]\<rparr>) Z"
  using producer_consumer_no_deadlock [OF sample_main sample_steps] by (simp add: pc_start_def)

end
