(* ===== verification/Thread_Pool.thy ===== *)
theory Thread_Pool
  imports Bounded_Buffer
begin

text \<open>
  \<open>CS2303 Operating System/Project 5/threadpool.c\<close> and \<open>client.c\<close>: three workers, a bounded queue, and a client
  that submits its tasks, as a system of threads whose steps are the statements that touch shared state.
  A task is a function and its argument; executing it produces output.  \<open>pool_shutdown\<close> is the end of the
  program and not a step.
\<close>

section \<open>State\<close>

definition QUEUE_SIZE :: nat where
  "QUEUE_SIZE = 10"

definition NUMBER_OF_THREADS :: nat where
  "NUMBER_OF_THREADS = 3"

record 'd pool_task =
  pt_function :: "'d \<Rightarrow> string"
  pt_data :: 'd

text \<open>Where a worker is: in \<open>dequeue\<close>, or about to execute.\<close>

datatype 'd worker =
    WWait | WLock | WFetch | WAdvance "'d pool_task" | WUnlock "'d pool_task" | WPost "'d pool_task" | WExecute "'d pool_task"

text \<open>Where the client is: between submissions, in \<open>pool_submit\<close>, or in \<open>enqueue\<close>.\<close>

datatype 'd client =
    SNext | SLock "'d pool_task" | STest "'d pool_task" | SRefuse "'d pool_task" | SAccept "'d pool_task"
  | EWait "'d pool_task" | ELock "'d pool_task" | EStore "'d pool_task" | EAdvance "'d pool_task" | EUnlock | EPost | SDone

record 'd pool =
  tq_tasks :: "'d pool_task list"
  tq_front :: nat
  tq_rear :: nat
  tq_lock :: "nat option" \<comment> \<open>the holder: 0 is the client, \<open>i + 1\<close> worker \<open>i\<close>\<close>
  tq_occupied :: nat
  tq_vacancy :: nat
  tq_out :: string
  tq_submitted :: "'d pool_task list" \<comment> \<open>history\<close>
  tq_dequeued :: "'d pool_task list" \<comment> \<open>history\<close>
  tq_executed :: "'d pool_task list" \<comment> \<open>history\<close>

record 'd pool_system =
  ps_pool :: "'d pool"
  ps_client :: "'d client"
  ps_works :: "'d pool_task list"
  ps_workers :: "'d worker list"

section \<open>Steps\<close>

definition pool_sem_wait :: "nat \<Rightarrow> nat option" where
  "pool_sem_wait s = (if 0 < s then Some (s - 1) else None)"

definition pool_lock :: "nat option \<Rightarrow> nat \<Rightarrow> nat option option" where
  "pool_lock m i = (if m = None then Some (Some i) else None)"

definition execute :: "('d \<Rightarrow> string) \<Rightarrow> 'd \<Rightarrow> string" where
  "execute f p = f p"

fun worker_step :: "nat \<Rightarrow> 'd pool \<Rightarrow> 'd worker \<Rightarrow> ('d pool \<times> 'd worker) option" where
  "worker_step i Q WWait = do { s \<leftarrow> pool_sem_wait (tq_occupied Q); Some (Q\<lparr>tq_occupied := s\<rparr>, WLock) }"
| "worker_step i Q WLock = do { m \<leftarrow> pool_lock (tq_lock Q) (i + 1); Some (Q\<lparr>tq_lock := m\<rparr>, WFetch) }"
| "worker_step i Q WFetch = Some (Q, WAdvance (tq_tasks Q ! tq_front Q))"
| "worker_step i Q (WAdvance t) =
     Some (Q\<lparr>tq_front := (tq_front Q + 1) mod (QUEUE_SIZE + 1), tq_dequeued := tq_dequeued Q @ [t]\<rparr>, WUnlock t)"
| "worker_step i Q (WUnlock t) = Some (Q\<lparr>tq_lock := None\<rparr>, WPost t)"
| "worker_step i Q (WPost t) = Some (Q\<lparr>tq_vacancy := tq_vacancy Q + 1\<rparr>, WExecute t)"
| "worker_step i Q (WExecute t) =
     Some (Q\<lparr>tq_out := tq_out Q @ execute (pt_function t) (pt_data t), tq_executed := tq_executed Q @ [t]\<rparr>, WWait)"

text \<open>The steps of \<open>enqueue\<close>.\<close>

fun enqueue_step :: "'d pool \<Rightarrow> 'd client \<Rightarrow> ('d pool \<times> 'd client) option" where
  "enqueue_step Q (EWait t) = do { s \<leftarrow> pool_sem_wait (tq_vacancy Q); Some (Q\<lparr>tq_vacancy := s\<rparr>, ELock t) }"
| "enqueue_step Q (ELock t) = do { m \<leftarrow> pool_lock (tq_lock Q) 0; Some (Q\<lparr>tq_lock := m\<rparr>, EStore t) }"
| "enqueue_step Q (EStore t) = Some (Q\<lparr>tq_tasks := (tq_tasks Q)[tq_rear Q := t]\<rparr>, EAdvance t)"
| "enqueue_step Q (EAdvance t) =
     Some (Q\<lparr>tq_rear := (tq_rear Q + 1) mod (QUEUE_SIZE + 1), tq_submitted := tq_submitted Q @ [t]\<rparr>, EUnlock)"
| "enqueue_step Q EUnlock = Some (Q\<lparr>tq_lock := None\<rparr>, EPost)"
| "enqueue_step Q EPost = Some (Q\<lparr>tq_occupied := tq_occupied Q + 1\<rparr>, SNext)"
| "enqueue_step Q c = None"

text \<open>The client takes the next work, and calls \<open>pool_submit\<close> until it is accepted.\<close>

fun client_step :: "'d pool \<Rightarrow> 'd client \<Rightarrow> 'd pool_task list \<Rightarrow> ('d pool \<times> 'd client \<times> 'd pool_task list) option" where
  "client_step Q SNext [] = Some (Q, SDone, [])"
| "client_step Q SNext (t # ts) = Some (Q, SLock t, ts)"
| "client_step Q (SLock t) ts = do { m \<leftarrow> pool_lock (tq_lock Q) 0; Some (Q\<lparr>tq_lock := m\<rparr>, STest t, ts) }"
| "client_step Q (STest t) ts =
     Some (Q, if (tq_rear Q + 1) mod (QUEUE_SIZE + 1) = tq_front Q then SRefuse t else SAccept t, ts)"
| "client_step Q (SRefuse t) ts = Some (Q\<lparr>tq_lock := None\<rparr>, SLock t, ts)"
| "client_step Q (SAccept t) ts = Some (Q\<lparr>tq_lock := None\<rparr>, EWait t, ts)"
| "client_step Q c ts = do { (Q', c') \<leftarrow> enqueue_step Q c; Some (Q', c', ts) }"

inductive pool_step :: "'d pool_system \<Rightarrow> 'd pool_system \<Rightarrow> bool" where
  worker: "i < length (ps_workers X) \<Longrightarrow> worker_step i (ps_pool X) (ps_workers X ! i) = Some (Q, w) \<Longrightarrow>
    pool_step X (X\<lparr>ps_pool := Q, ps_workers := (ps_workers X)[i := w]\<rparr>)"
| client: "client_step (ps_pool X) (ps_client X) (ps_works X) = Some (Q, c, ts) \<Longrightarrow>
    pool_step X (X\<lparr>ps_pool := Q, ps_client := c, ps_works := ts\<rparr>)"

text \<open>\<open>pool_init\<close>; the array is zero-initialised (\<open>nil\<close>).\<close>

definition pool_init :: "'d pool_task \<Rightarrow> 'd pool" where
  "pool_init nil = \<lparr>tq_tasks = replicate (QUEUE_SIZE + 1) nil, tq_front = 0, tq_rear = 0, tq_lock = None,
     tq_occupied = 0, tq_vacancy = QUEUE_SIZE, tq_out = [], tq_submitted = [], tq_dequeued = [], tq_executed = []\<rparr>"

definition pool_start :: "'d pool_task \<Rightarrow> 'd pool_task list \<Rightarrow> 'd pool_system" where
  "pool_start nil works = \<lparr>ps_pool = pool_init nil, ps_client = SNext, ps_works = works,
     ps_workers = replicate NUMBER_OF_THREADS WWait\<rparr>"

text \<open>The function of \<open>client.c\<close>, and its 30 works, on the values \<open>rand\<close> gave.\<close>

definition add_work :: "int \<times> int \<Rightarrow> string" where
  "add_work = (\<lambda>(a, b). ''I add two values '' @ fmt_d a @ '' and '' @ fmt_d b @ '' result = '' @ fmt_d (a + b) @ [newline])"

definition client_works :: "(nat \<Rightarrow> int) \<Rightarrow> (int \<times> int) pool_task list" where
  "client_works rand = map (\<lambda>i. \<lparr>pt_function = add_work, pt_data = (rand (2 * i) mod 20, rand (2 * i + 1) mod 20)\<rparr>) [0..<30]"

section \<open>The protocol\<close>

fun worker_phase :: "'d worker \<Rightarrow> 'd pool_task phase" where
  "worker_phase WWait = Idle" | "worker_phase WLock = GetTicket" | "worker_phase WFetch = GetHold"
| "worker_phase (WAdvance t) = GetFetched t" | "worker_phase (WUnlock t) = GetAdvanced t"
| "worker_phase (WPost t) = GetUnlocked t" | "worker_phase (WExecute t) = Idle"

fun client_phase :: "'d client \<Rightarrow> 'd pool_task phase" where
  "client_phase SNext = Idle" | "client_phase (SLock t) = Idle" | "client_phase (STest t) = Peek"
| "client_phase (SRefuse t) = Peek" | "client_phase (SAccept t) = Peek" | "client_phase (EWait t) = Idle"
| "client_phase (ELock t) = PutTicket t" | "client_phase (EStore t) = PutHold t" | "client_phase (EAdvance t) = PutStored t"
| "client_phase EUnlock = PutAdvanced" | "client_phase EPost = PutUnlocked" | "client_phase SDone = Idle"

definition pool_view :: "'d pool_system \<Rightarrow> 'd pool_task bb" where
  "pool_view X = (let Q = ps_pool X in
     \<lparr>bb_data = tq_tasks Q, bb_front = tq_front Q, bb_rear = tq_rear Q, bb_vacancy = tq_vacancy Q, bb_occupied = tq_occupied Q,
      bb_owner = tq_lock Q, bb_phase = client_phase (ps_client X) # map worker_phase (ps_workers X),
      bb_put = tq_submitted Q, bb_got = tq_dequeued Q\<rparr>)"

text \<open>Tasks taken from the queue and not executed yet, and the task the client is about to store.\<close>

fun in_flight :: "'d worker \<Rightarrow> 'd pool_task list" where
  "in_flight (WUnlock t) = [t]" | "in_flight (WPost t) = [t]" | "in_flight (WExecute t) = [t]" | "in_flight w = []"

fun to_store :: "'d client \<Rightarrow> 'd pool_task list" where
  "to_store (SLock t) = [t]" | "to_store (STest t) = [t]" | "to_store (SRefuse t) = [t]" | "to_store (SAccept t) = [t]"
| "to_store (EWait t) = [t]" | "to_store (ELock t) = [t]" | "to_store (EStore t) = [t]" | "to_store (EAdvance t) = [t]"
| "to_store c = []"

definition flight :: "'d worker list \<Rightarrow> 'd pool_task multiset" where
  "flight ws = mset (concat (map in_flight ws))"

lemma flight_update:
  "i < length ws \<Longrightarrow> flight (ws[i := w]) + mset (in_flight (ws ! i)) = flight ws + mset (in_flight w)"
proof (induction ws arbitrary: i)
  case (Cons x ws)
  then show ?case by (cases i) (auto simp: flight_def ac_simps)
qed simp

text \<open>Nothing is lost or done twice: the invariant on the histories, for the works \<open>all\<close> of the client.\<close>

definition pool_ok :: "'d pool_task list \<Rightarrow> 'd pool_system \<Rightarrow> bool" where
  "pool_ok all X \<longleftrightarrow> length (tq_tasks (ps_pool X)) = QUEUE_SIZE + 1 \<and>
     tq_submitted (ps_pool X) @ to_store (ps_client X) @ ps_works X = all \<and>
     (ps_client X = SDone \<longrightarrow> ps_works X = []) \<and>
     mset (tq_executed (ps_pool X)) + flight (ps_workers X) = mset (tq_dequeued (ps_pool X))"

lemmas pool_view_defs = pool_view_def goto_def next_index_def Let_def map_update

lemma worker_step_view:
  assumes ok: "pool_ok all X" and i: "i < length (ps_workers X)" and st: "worker_step i (ps_pool X) (ps_workers X ! i) = Some (Q, w)"
    and Y: "Y = X\<lparr>ps_pool := Q, ps_workers := (ps_workers X)[i := w]\<rparr>"
  shows "bb_step (pool_view X) (pool_view Y) \<or> pool_view Y = pool_view X"
proof -
  have len: "length (tq_tasks (ps_pool X)) = QUEUE_SIZE + 1" using ok by (simp add: pool_ok_def)
  have at: "at (pool_view X) (Suc i) (worker_phase (ps_workers X ! i))" using i by (simp add: at_def pool_view_def Let_def)
  have idle: "(map worker_phase (ps_workers X))[i := worker_phase (ps_workers X ! i)] = map worker_phase (ps_workers X)"
    using i by (simp add: list_update_same_conv)
  show ?thesis
  proof (cases "ps_workers X ! i")
    case WWait
    then show ?thesis using bb_step.get_wait [of "pool_view X" "Suc i"] at st Y
      by (auto simp: pool_view_defs pool_sem_wait_def bind_eq_Some_conv split: if_splits)
  next
    case WLock
    then show ?thesis using bb_step.get_lock [of "pool_view X" "Suc i"] at st Y
      by (auto simp: pool_view_defs pool_lock_def bind_eq_Some_conv split: if_splits)
  next
    case WFetch
    then show ?thesis using bb_step.get_fetch [of "pool_view X" "Suc i"] at st Y by (auto simp: pool_view_defs)
  next
    case (WAdvance t)
    then show ?thesis using bb_step.get_advance [of "pool_view X" "Suc i" t] at st Y len by (auto simp: pool_view_defs)
  next
    case (WUnlock t)
    then show ?thesis using bb_step.get_unlock [of "pool_view X" "Suc i" t] at st Y by (auto simp: pool_view_defs)
  next
    case (WPost t)
    then show ?thesis using bb_step.get_post [of "pool_view X" "Suc i" t] at st Y by (auto simp: pool_view_defs)
  next
    case (WExecute t)
    then show ?thesis using idle st Y by (auto simp: pool_view_defs)
  qed
qed

lemma client_step_view:
  assumes ok: "pool_ok all X" and st: "client_step (ps_pool X) (ps_client X) (ps_works X) = Some (Q, c, ts)"
    and Y: "Y = X\<lparr>ps_pool := Q, ps_client := c, ps_works := ts\<rparr>"
  shows "bb_step (pool_view X) (pool_view Y) \<or> pool_view Y = pool_view X"
proof -
  have len: "length (tq_tasks (ps_pool X)) = QUEUE_SIZE + 1" using ok by (simp add: pool_ok_def)
  have at: "at (pool_view X) 0 (client_phase (ps_client X))" by (simp add: at_def pool_view_def Let_def)
  show ?thesis
  proof (cases "ps_client X")
    case SNext
    then show ?thesis using st Y by (cases "ps_works X") (auto simp: pool_view_defs)
  next
    case (SLock t)
    then show ?thesis using bb_step.peek_lock [of "pool_view X" 0] at st Y
      by (auto simp: pool_view_defs pool_lock_def bind_eq_Some_conv split: if_splits)
  next
    case (STest t)
    then show ?thesis using st Y by (auto simp: pool_view_defs split: if_splits)
  next
    case (SRefuse t)
    then show ?thesis using bb_step.peek_unlock [of "pool_view X" 0] at st Y by (auto simp: pool_view_defs)
  next
    case (SAccept t)
    then show ?thesis using bb_step.peek_unlock [of "pool_view X" 0] at st Y by (auto simp: pool_view_defs)
  next
    case (EWait t)
    then show ?thesis using bb_step.put_wait [of "pool_view X" 0 t] at st Y
      by (auto simp: pool_view_defs pool_sem_wait_def bind_eq_Some_conv split: if_splits)
  next
    case (ELock t)
    then show ?thesis using bb_step.put_lock [of "pool_view X" 0 t] at st Y
      by (auto simp: pool_view_defs pool_lock_def bind_eq_Some_conv split: if_splits)
  next
    case (EStore t)
    then show ?thesis using bb_step.put_store [of "pool_view X" 0 t] at st Y by (auto simp: pool_view_defs)
  next
    case (EAdvance t)
    then show ?thesis using bb_step.put_advance [of "pool_view X" 0 t] at st Y len by (auto simp: pool_view_defs)
  next
    case EUnlock
    then show ?thesis using bb_step.put_unlock [of "pool_view X" 0] at st Y by (auto simp: pool_view_defs)
  next
    case EPost
    then show ?thesis using bb_step.put_post [of "pool_view X" 0] at st Y by (auto simp: pool_view_defs)
  next
    case SDone
    then show ?thesis using st by simp
  qed
qed

lemma worker_step_ok:
  assumes ok: "pool_ok all X" and i: "i < length (ps_workers X)" and st: "worker_step i (ps_pool X) (ps_workers X ! i) = Some (Q, w)"
  shows "pool_ok all (X\<lparr>ps_pool := Q, ps_workers := (ps_workers X)[i := w]\<rparr>)"
proof -
  let ?E = "mset (tq_executed (ps_pool X))" and ?D = "mset (tq_dequeued (ps_pool X))"
  let ?E' = "mset (tq_executed Q)" and ?D' = "mset (tq_dequeued Q)"
  let ?p = "mset (in_flight (ps_workers X ! i))" and ?w = "mset (in_flight w)" and ?F = "flight (ps_workers X)"
  let ?F' = "flight ((ps_workers X)[i := w])"
  have one: "?E' + ?D + ?w = ?E + ?D' + ?p" and rest: "length (tq_tasks Q) = length (tq_tasks (ps_pool X))"
      "tq_submitted Q = tq_submitted (ps_pool X)"
    using st by (cases "ps_workers X ! i"; auto simp: bind_eq_Some_conv ac_simps)+
  have two: "?F' + ?p = ?F + ?w" by (rule flight_update [OF i])
  have three: "?E + ?F = ?D" using ok by (simp add: pool_ok_def)
  have "(?E' + ?F') + (?D + ?w + ?p) = (?E' + ?D + ?w) + (?F' + ?p)" by (simp add: ac_simps)
  also have "\<dots> = (?E + ?D' + ?p) + (?F + ?w)" unfolding one two ..
  also have "\<dots> = ?D' + ((?E + ?F) + ?w + ?p)" by (simp add: ac_simps)
  finally have "?E' + ?F' = ?D'" unfolding three by simp
  then show ?thesis using ok rest by (simp add: pool_ok_def)
qed

lemma client_step_ok:
  assumes "pool_ok all X" "client_step (ps_pool X) (ps_client X) (ps_works X) = Some (Q, c, ts)"
  shows "pool_ok all (X\<lparr>ps_pool := Q, ps_client := c, ps_works := ts\<rparr>)"
  using assms by (cases "ps_client X"; cases "ps_works X") (auto simp: pool_ok_def bind_eq_Some_conv split: if_splits)

definition pool_starts :: "'d pool_task list \<Rightarrow> 'd pool_system \<Rightarrow> bool" where
  "pool_starts works X \<longleftrightarrow> (\<exists>nil. X = pool_start nil works)"

interpretation pool: follows_buffer pool_step "pool_starts works" "pool_ok works" pool_view QUEUE_SIZE for works
proof
  fix s assume "pool_starts works s"
  then obtain nil where s: "s = pool_start nil works" by (auto simp: pool_starts_def)
  have "pool_view s = bb_start (replicate (QUEUE_SIZE + 1) nil) QUEUE_SIZE (Suc NUMBER_OF_THREADS)"
    by (simp add: s pool_view_def pool_start_def pool_init_def bb_start_def)
  then show "bb_inv QUEUE_SIZE (pool_view s)" by (simp add: bb_start_inv)
  show "pool_ok works s" by (simp add: s pool_ok_def pool_start_def pool_init_def flight_def NUMBER_OF_THREADS_def)
next
  fix s t assume "pool_ok works s" "pool_step s t"
  then show "pool_ok works t" by (auto elim!: pool_step.cases dest: worker_step_ok client_step_ok)
next
  fix s t :: "'a pool_system" assume ok: "pool_ok works s" and "pool_step s t"
  from this(2) show "bb_step (pool_view s) (pool_view t) \<or> pool_view t = pool_view s"
  proof cases
    case (worker i Q w)
    then show ?thesis using worker_step_view [OF ok] by blast
  next
    case (client Q c ts)
    then show ?thesis using client_step_view [OF ok] by blast
  qed
qed

section \<open>The property\<close>

text \<open>
  C20 (safety). For every interleaving: the workers execute each submitted task at most once, the tasks leave the
  queue in the order in which they were submitted, and submitted are the client's works, in order.  When
  the client is done, all workers wait and no task is announced, every work has been executed exactly once.
\<close>

theorem thread_pool_exactly_once:
  assumes "pool_step\<^sup>*\<^sup>* (pool_start nil works) Y"
  shows "mset (tq_executed (ps_pool Y)) \<subseteq># mset works \<and>
    (\<exists>queued. tq_submitted (ps_pool Y) = tq_dequeued (ps_pool Y) @ queued \<and> length queued \<le> QUEUE_SIZE) \<and>
    (\<exists>later. works = tq_submitted (ps_pool Y) @ later) \<and>
    (ps_client Y = SDone \<and> (\<forall>w \<in> set (ps_workers Y). w = WWait) \<and> tq_occupied (ps_pool Y) = 0 \<longrightarrow>
       mset (tq_executed (ps_pool Y)) = mset works)"
proof (intro conjI impI)
  have start: "pool_starts works (pool_start nil works)" by (auto simp: pool_starts_def)
  have inv: "bb_inv QUEUE_SIZE (pool_view Y)" and ok: "pool_ok works Y" using pool.reach_inv [OF start assms] by blast+
  have hist: "bb_put (pool_view Y) = tq_submitted (ps_pool Y)" "bb_got (pool_view Y) = tq_dequeued (ps_pool Y)"
    by (simp_all add: pool_view_def Let_def)
  show fifo: "\<exists>queued. tq_submitted (ps_pool Y) = tq_dequeued (ps_pool Y) @ queued \<and> length queued \<le> QUEUE_SIZE"
    using pool.reach_fifo [OF start assms] unfolding hist .
  show later: "\<exists>later. works = tq_submitted (ps_pool Y) @ later" using ok by (auto simp: pool_ok_def)
  have "mset (tq_executed (ps_pool Y)) \<subseteq># mset (tq_dequeued (ps_pool Y))"
    using ok unfolding pool_ok_def by (metis mset_subset_eq_add_left)
  also have "\<dots> \<subseteq># mset (tq_submitted (ps_pool Y))" using fifo by auto
  also have "\<dots> \<subseteq># mset works" using later by auto
  finally show "mset (tq_executed (ps_pool Y)) \<subseteq># mset works" .
  assume quiet: "ps_client Y = SDone \<and> (\<forall>w \<in> set (ps_workers Y). w = WWait) \<and> tq_occupied (ps_pool Y) = 0"
  have "\<forall>p \<in> set (bb_phase (pool_view Y)). p = Idle" using quiet by (auto simp: pool_view_def Let_def)
  then have "tq_dequeued (ps_pool Y) = tq_submitted (ps_pool Y)"
    using bb_idle_empty [OF inv] quiet unfolding hist by (simp add: pool_view_def Let_def)
  moreover have "flight (ps_workers Y) = {#}"
  proof -
    have "concat (map in_flight (ps_workers Y)) = []" using quiet by auto
    then show ?thesis by (simp only: flight_def mset.simps)
  qed
  ultimately show "mset (tq_executed (ps_pool Y)) = mset works" using ok quiet by (auto simp: pool_ok_def)
qed

text \<open>The client of \<open>client.c\<close> takes its first work.\<close>

theorem thread_pool_exactly_once_witness:
  "\<exists>Y. pool_step\<^sup>*\<^sup>* (pool_start \<lparr>pt_function = add_work, pt_data = (0, 0)\<rparr> (client_works int)) Y \<and>
     length (ps_works Y) = 29 \<and> mset (tq_executed (ps_pool Y)) \<subseteq># mset (client_works int)"
proof -
  let ?X = "pool_start \<lparr>pt_function = add_work, pt_data = (0, 0)\<rparr> (client_works int)"
  obtain t ts where works: "client_works int = t # ts" "length ts = 29"
    by (cases "client_works int") (auto simp: client_works_def dest: arg_cong [where f = length])
  let ?Y = "?X\<lparr>ps_pool := ps_pool ?X, ps_client := SLock t, ps_works := ts\<rparr>"
  have "client_step (ps_pool ?X) (ps_client ?X) (ps_works ?X) = Some (ps_pool ?X, SLock t, ts)"
    by (simp add: pool_start_def works)
  then have run: "pool_step\<^sup>*\<^sup>* ?X ?Y" using pool_step.client by blast
  have "mset (tq_executed (ps_pool ?Y)) \<subseteq># mset (client_works int)" using thread_pool_exactly_once [OF run] by blast
  then show ?thesis using run works(2) by (intro exI [of _ ?Y]) simp
qed

end
