(* ===== verification/Parallel_Sort.thy ===== *)
theory Parallel_Sort
  imports C_Int
begin

text \<open>
  \<open>CS2303 Operating System/Project 3/ParallelSort.c\<close>: merge sort with a thread for each half and one for each
  merge.  All threads share the array.  A step of a thread is one access to it: one element copied by \<open>memcpy\<close>,
  or one round of a loop of \<open>merge\<close>; threads created at the same level interleave freely.
  Every interleaving ends, without a deadlock, with the array sorted.
\<close>

section \<open>Threads\<close>

text \<open>
  A thread with the threads it waits for: about to run \<open>merge_sort\<close>, joining its two halves, in \<open>merge\<close> (copying to
  \<open>L\<close>, copying to \<open>R\<close>, merging with the indices \<open>i\<close>, \<open>j\<close>, \<open>k\<close>), or exited.
\<close>

datatype sort_thread =
    Merge_Sort int int
  | Joining sort_thread sort_thread int int int
  | Copy_L int int int "int list"
  | Copy_R int int int "int list" "int list"
  | Merging int int int "int list" "int list" nat nat int
  | Exited

definition sort_middle :: "int \<Rightarrow> int \<Rightarrow> int" where
  "sort_middle b e = cdiv (as_int (b + e)) 2"

text \<open>
  The loops of \<open>merge\<close>, one round at a time: while both parts have elements, then the rest of \<open>L\<close>, then that of \<open>R\<close>.
\<close>

definition merge_round ::
  "int list \<Rightarrow> int \<Rightarrow> int \<Rightarrow> int \<Rightarrow> int list \<Rightarrow> int list \<Rightarrow> nat \<Rightarrow> nat \<Rightarrow> int \<Rightarrow> int list \<times> sort_thread" where
  "merge_round a b m e L R i j k = (let n1 = m - b + 1; n2 = e - m in
     if int i < n1 \<and> int j < n2 then
       if L ! i \<le> R ! j then (a[nat k := L ! i], Merging b m e L R (i + 1) j (k + 1))
       else (a[nat k := R ! j], Merging b m e L R i (j + 1) (k + 1))
     else if int i < n1 then (a[nat k := L ! i], Merging b m e L R (i + 1) j (k + 1))
     else if int j < n2 then (a[nat k := R ! j], Merging b m e L R i (j + 1) (k + 1))
     else (a, Exited))"

inductive sort_step :: "int list \<times> sort_thread \<Rightarrow> int list \<times> sort_thread \<Rightarrow> bool" where
  split: "b < e \<Longrightarrow> m = sort_middle b e \<Longrightarrow>
    sort_step (a, Merge_Sort b e) (a, Joining (Merge_Sort b m) (Merge_Sort (m + 1) e) b m e)"
| single: "\<not> b < e \<Longrightarrow> sort_step (a, Merge_Sort b e) (a, Exited)"
| left: "sort_step (a, p) (a', p') \<Longrightarrow> sort_step (a, Joining p q b m e) (a', Joining p' q b m e)"
| right: "sort_step (a, q) (a', q') \<Longrightarrow> sort_step (a, Joining p q b m e) (a', Joining p q' b m e)"
| joined: "sort_step (a, Joining Exited Exited b m e) (a, Copy_L b m e [])"
| copy_L: "int (length L) < m - b + 1 \<Longrightarrow>
    sort_step (a, Copy_L b m e L) (a, Copy_L b m e (L @ [a ! nat (b + int (length L))]))"
| copied_L: "\<not> int (length L) < m - b + 1 \<Longrightarrow> sort_step (a, Copy_L b m e L) (a, Copy_R b m e L [])"
| copy_R: "int (length R) < e - m \<Longrightarrow>
    sort_step (a, Copy_R b m e L R) (a, Copy_R b m e L (R @ [a ! nat (m + 1 + int (length R))]))"
| copied_R: "\<not> int (length R) < e - m \<Longrightarrow> sort_step (a, Copy_R b m e L R) (a, Merging b m e L R 0 0 b)"
| merge: "merge_round a b m e L R i j k = s \<Longrightarrow> sort_step (a, Merging b m e L R i j k) s"

lemmas sort_step_induct = sort_step.induct [split_format (complete)]

inductive_cases Merge_SortE: "sort_step (a, Merge_Sort b e) s"
inductive_cases ExitedE: "sort_step (a, Exited) s"

text \<open>The program: the numbers read after \<open>n\<close>, and what it prints when the sorting thread has exited.\<close>

definition sort_start :: "int list \<Rightarrow> int list \<times> sort_thread" where
  "sort_start xs = (xs, Merge_Sort 0 (int (length xs) - 1))"

definition sort_prompts :: string where
  "sort_prompts = ''Enter the number of elements: '' @ ''Enter the elements: ''"

definition sort_report :: "int list \<Rightarrow> string" where
  "sort_report a = ''Sorted array: '' @ concat (map (\<lambda>x. fmt_d x @ '' '') a) @ [newline]"

inductive parallel_sort_main :: "int list \<Rightarrow> string \<Rightarrow> bool" where
  "sort_step\<^sup>*\<^sup>* (sort_start xs) (a, Exited) \<Longrightarrow> parallel_sort_main xs (sort_prompts @ sort_report a)"

section \<open>Parts of the array\<close>

definition part :: "'a list \<Rightarrow> int \<Rightarrow> int \<Rightarrow> 'a list" where
  "part a b e = map (\<lambda>k. a ! nat k) [b..e]"

lemma part_empty [simp]: "e < b \<Longrightarrow> part a b e = []"
  by (simp add: part_def)

lemma part_one [simp]: "part a b b = [a ! nat b]"
  by (simp add: part_def)

lemma length_part [simp]: "length (part a b e) = nat (e - b + 1)"
  by (simp add: part_def)

lemma part_split: "b \<le> m + 1 \<Longrightarrow> m \<le> e \<Longrightarrow> part a b e = part a b m @ part a (m + 1) e"
  using upto_split1 [of b "m + 1" e] by (cases "m = e") (auto simp: part_def simp flip: map_append)

lemma part_snoc: "b \<le> k \<Longrightarrow> part a b k = part a b (k - 1) @ [a ! nat k]"
  by (simp add: part_def upto_rec2)

lemma part_cong: "(\<And>k. b \<le> k \<Longrightarrow> k \<le> e \<Longrightarrow> a ! nat k = a' ! nat k) \<Longrightarrow> part a b e = part a' b e"
  by (simp add: part_def)

lemma part_update [simp]: "0 \<le> b \<Longrightarrow> 0 \<le> k \<Longrightarrow> k < b \<or> e < k \<Longrightarrow> part (a[nat k := v]) b e = part a b e"
  by (rule part_cong) auto

lemma part_all: "part a 0 (int (length a) - 1) = a"
proof (rule nth_equalityI)
  fix i assume "i < length (part a 0 (int (length a) - 1))"
  then show "part a 0 (int (length a) - 1) ! i = a ! i" by (simp add: part_def nth_upto)
qed simp

section \<open>Invariant\<close>

text \<open>
  What a thread sorting the part \<open>b..e\<close> has done so far, when the part held what it holds in \<open>a0\<close>.  It depends on
  that part of the array only.
\<close>

definition merged :: "int list \<Rightarrow> int list \<Rightarrow> int list \<Rightarrow> int multiset \<Rightarrow> bool" where
  "merged P xs ys M \<longleftrightarrow> sorted P \<and> sorted xs \<and> sorted ys \<and> mset P + mset xs + mset ys = M \<and>
     (\<forall>x \<in> set P. \<forall>y \<in> set xs \<union> set ys. x \<le> y)"

definition merging_ok :: "int list \<Rightarrow> int \<Rightarrow> int \<Rightarrow> int \<Rightarrow> int list \<Rightarrow> int list \<Rightarrow> int list \<Rightarrow> nat \<Rightarrow> nat \<Rightarrow> int \<Rightarrow> bool" where
  "merging_ok a0 b m e a L R i j k \<longleftrightarrow>
     length L = nat (m - b + 1) \<and> length R = nat (e - m) \<and> i \<le> length L \<and> j \<le> length R \<and> k = b + int i + int j \<and>
     merged (part a b (k - 1)) (drop i L) (drop j R) (mset (part a0 b e))"

definition halves_sorted :: "int list \<Rightarrow> int \<Rightarrow> int \<Rightarrow> int \<Rightarrow> int list \<Rightarrow> bool" where
  "halves_sorted a0 b m e a \<longleftrightarrow> sorted (part a b m) \<and> sorted (part a (m + 1) e) \<and> mset (part a b e) = mset (part a0 b e)"

fun sort_ok :: "int list \<Rightarrow> int \<Rightarrow> int \<Rightarrow> sort_thread \<Rightarrow> int list \<Rightarrow> bool" where
  "sort_ok a0 b e (Merge_Sort b' e') a \<longleftrightarrow> b' = b \<and> e' = e \<and> (\<forall>k. b \<le> k \<and> k \<le> e \<longrightarrow> a ! nat k = a0 ! nat k)"
| "sort_ok a0 b e (Joining p q b' m e') a \<longleftrightarrow> b' = b \<and> e' = e \<and> b \<le> m \<and> m < e \<and>
     sort_ok a0 b m p a \<and> sort_ok a0 (m + 1) e q a"
| "sort_ok a0 b e (Copy_L b' m e' L) a \<longleftrightarrow> b' = b \<and> e' = e \<and> b \<le> m \<and> m < e \<and> halves_sorted a0 b m e a \<and>
     int (length L) \<le> m - b + 1 \<and> L = part a b (b + int (length L) - 1)"
| "sort_ok a0 b e (Copy_R b' m e' L R) a \<longleftrightarrow> b' = b \<and> e' = e \<and> b \<le> m \<and> m < e \<and> halves_sorted a0 b m e a \<and>
     L = part a b m \<and> int (length R) \<le> e - m \<and> R = part a (m + 1) (m + int (length R))"
| "sort_ok a0 b e (Merging b' m e' L R i j k) a \<longleftrightarrow> b' = b \<and> e' = e \<and> b \<le> m \<and> m < e \<and> merging_ok a0 b m e a L R i j k"
| "sort_ok a0 b e Exited a \<longleftrightarrow> sorted (part a b e) \<and> mset (part a b e) = mset (part a0 b e)"

lemma sort_ok_cong:
  assumes "\<And>k. b \<le> k \<Longrightarrow> k \<le> e \<Longrightarrow> a ! nat k = a' ! nat k" "sort_ok a0 b e p a"
  shows "sort_ok a0 b e p a'"
  using assms
proof (induction p arbitrary: b e)
  case (Joining p q b' m e')
  then show ?case by auto
next
  case (Merging b' m e' L R i j k)
  have "part a' b (k - 1) = part a b (k - 1)"
    using Merging by (intro part_cong) (auto simp: merging_ok_def)
  then show ?case using Merging.prems(2) unfolding sort_ok.simps merging_ok_def by metis
next
  case (Copy_L b' m e' L)
  have bounds: "b \<le> m" "m < e" "int (length L) \<le> m - b + 1" using Copy_L.prems(2) by simp_all
  have cong: "part a' l h = part a l h" if "b \<le> l" "h \<le> e" for l h
    by (rule part_cong) (use Copy_L.prems(1) that in auto)
  have "part a' b e = part a b e" "part a' b m = part a b m" "part a' (m + 1) e = part a (m + 1) e"
    "part a' b (b + int (length L) - 1) = part a b (b + int (length L) - 1)"
    by (rule cong; use bounds in linarith)+
  then show ?case using Copy_L.prems(2) unfolding sort_ok.simps halves_sorted_def by metis
next
  case (Copy_R b' m e' L R)
  have bounds: "b \<le> m" "m < e" "int (length R) \<le> e - m" using Copy_R.prems(2) by simp_all
  have cong: "part a' l h = part a l h" if "b \<le> l" "h \<le> e" for l h
    by (rule part_cong) (use Copy_R.prems(1) that in auto)
  have "part a' b e = part a b e" "part a' b m = part a b m" "part a' (m + 1) e = part a (m + 1) e"
    "part a' (m + 1) (m + int (length R)) = part a (m + 1) (m + int (length R))"
    by (rule cong; use bounds in linarith)+
  then show ?case using Copy_R.prems(2) unfolding sort_ok.simps halves_sorted_def by metis
next
  case (Merge_Sort b' e')
  then show ?case by simp
next
  case Exited
  then show ?case using part_cong [of b e a a'] by simp
qed

lemma merged_swap: "merged P xs ys M = merged P ys xs M"
  by (auto simp: merged_def ac_simps)

lemma merged_take:
  assumes "merged P (x # xs) ys M" "ys \<noteq> [] \<Longrightarrow> x \<le> hd ys"
  shows "merged (P @ [x]) xs ys M"
proof -
  have "\<forall>y \<in> set ys. x \<le> y" using assms by (cases ys) (auto simp: merged_def)
  then show ?thesis using assms(1) by (auto simp: merged_def sorted_append ac_simps)
qed

lemma part_write:
  assumes "0 \<le> b" "b \<le> k" "nat k < length a"
  shows "part (a[nat k := v]) b (k + 1 - 1) = part a b (k - 1) @ [v]"
  using assms by (subst part_snoc) auto

text \<open>A round of the loops of \<open>merge\<close> writes inside the part, keeps the invariant, and ends with the part sorted.\<close>

lemma merge_round_ok:
  assumes ok: "merging_ok a0 b m e a L R i j k" and b: "0 \<le> b" "e < int (length a)" "b \<le> m" "m < e"
    and s: "merge_round a b m e L R i j k = (a', p')"
  shows "sort_ok a0 b e p' a' \<and> length a' = length a \<and> (\<forall>n. \<not> (b \<le> int n \<and> int n \<le> e) \<longrightarrow> a' ! n = a ! n)"
proof -
  have k: "k = b + int i + int j" "i \<le> length L" "j \<le> length R" "length L = nat (m - b + 1)" "length R = nat (e - m)"
    and mg: "merged (part a b (k - 1)) (drop i L) (drop j R) (mset (part a0 b e))"
    using ok by (auto simp: merging_ok_def)
  have last: "int i \<le> m - b \<longleftrightarrow> i < length L" "int j < e - m \<longleftrightarrow> j < length R" using k b by linarith+
  consider (L) "i < length L" "j < length R \<longrightarrow> L ! i \<le> R ! j" "a' = a[nat k := L ! i]" "p' = Merging b m e L R (i + 1) j (k + 1)"
    | (R) "j < length R" "i < length L \<longrightarrow> R ! j \<le> L ! i" "a' = a[nat k := R ! j]" "p' = Merging b m e L R i (j + 1) (k + 1)"
    | (ends) "i = length L" "j = length R" "a' = a" "p' = Exited"
    using s k(2,3) by (auto simp: merge_round_def Let_def last split: if_splits)
  then show ?thesis
  proof cases
    case L
    have in_part: "b \<le> k" "k \<le> e" using L k b by linarith+
    have "drop i L = L ! i # drop (i + 1) L" using L by (simp add: Cons_nth_drop_Suc)
    then have "merged (part a b (k - 1) @ [L ! i]) (drop (i + 1) L) (drop j R) (mset (part a0 b e))"
      using mg L by (intro merged_take) (auto simp: hd_drop_conv_nth)
    then have "merging_ok a0 b m e a' L R (i + 1) j (k + 1)"
      using k L in_part b by (simp only: merging_ok_def L part_write) auto
    then show ?thesis using L b in_part by auto
  next
    case R
    have in_part: "b \<le> k" "k \<le> e" using R k b by linarith+
    have "drop j R = R ! j # drop (j + 1) R" using R by (simp add: Cons_nth_drop_Suc)
    then have "merged (part a b (k - 1) @ [R ! j]) (drop (j + 1) R) (drop i L) (mset (part a0 b e))"
      using mg R by (intro merged_take) (auto simp: hd_drop_conv_nth merged_swap)
    then have "merging_ok a0 b m e a' L R i (j + 1) (k + 1)"
      using k R in_part b by (simp only: merging_ok_def R part_write merged_swap) auto
    then show ?thesis using R b in_part by auto
  next
    case ends
    have "k - 1 = e" using k ends b by linarith
    then show ?thesis using mg ends by (simp add: merged_def)
  qed
qed

lemma sort_middle_bounds: "0 \<le> b \<Longrightarrow> b < e \<Longrightarrow> e < 2 ^ 30 \<Longrightarrow> b \<le> sort_middle b e \<and> sort_middle b e < e"
  by (simp add: sort_middle_def as_int_id) linarith

lemma sort_step_ok:
  assumes "sort_step (a, p) (a', p')" "sort_ok a0 b e p a" "0 \<le> b" "e < int (length a)" "e < 2 ^ 30"
  shows "sort_ok a0 b e p' a' \<and> length a' = length a \<and> (\<forall>n. \<not> (b \<le> int n \<and> int n \<le> e) \<longrightarrow> a' ! n = a ! n)"
  using assms
proof (induction a p a' p' arbitrary: b e rule: sort_step_induct)
  case (split b' e' m a)
  then have "b \<le> m" "m < e" using sort_middle_bounds by auto
  then show ?case using split by auto
next
  case (single b' e' a)
  then have "sorted (part a b e)" "part a b e = part a0 b e" by (cases "e = b"; auto intro: part_cong)+
  then show ?case by simp
next
  case (left a p a' p' q b' m e')
  then have ih: "sort_ok a0 b m p' a'" "length a' = length a" "\<forall>n. \<not> (b \<le> int n \<and> int n \<le> m) \<longrightarrow> a' ! n = a ! n"
    by auto
  have "sort_ok a0 (m + 1) e q a'"
    by (rule sort_ok_cong [where a = a]) (use left.prems ih in auto)
  then show ?case using left.prems ih by auto
next
  case (right a q a' q' p b' m e')
  then have ih: "sort_ok a0 (m + 1) e q' a'" "length a' = length a" "\<forall>n. \<not> (m + 1 \<le> int n \<and> int n \<le> e) \<longrightarrow> a' ! n = a ! n"
    by auto
  have "sort_ok a0 b m p a'"
    by (rule sort_ok_cong [where a = a]) (use right.prems ih in auto)
  then show ?case using right.prems ih by auto
next
  case (joined a b' m e')
  then have "part a b e = part a b m @ part a (m + 1) e" "part a0 b e = part a0 b m @ part a0 (m + 1) e"
    by (auto intro: part_split)
  then show ?case using joined by (simp add: halves_sorted_def)
next
  case (copy_L L m b' a e')
  then show ?case using part_snoc [of b "b + int (length L)" a] by simp
next
  case (copy_R R e' m a b' L)
  then show ?case using part_snoc [of "m + 1" "m + 1 + int (length R)" a] by (simp add: add.assoc)
next
  case (copied_L L m b' a e')
  then have "b + int (length L) - 1 = m" by auto
  then show ?case using copied_L by auto
next
  case (copied_R R e' m a b' L)
  have "part a b e = part a b m @ part a (m + 1) e" using copied_R by (intro part_split) auto
  moreover have "length R = nat (e - m)" "m + int (length R) = e" using copied_R by auto
  ultimately show ?case using copied_R by (simp add: merging_ok_def merged_def halves_sorted_def)
next
  case (merge a b' m e' L R i j k a' p')
  then show ?case using merge_round_ok [of a0 b m e a L R i j k a' p'] by simp
qed

section \<open>No deadlock, and termination\<close>

lemma sort_thread_moves: "p = Exited \<or> (\<exists>s. sort_step (a, p) s)"
proof (induction p)
  case (Merge_Sort b e)
  then show ?case using sort_step.split [of b e] sort_step.single [of b e] by blast
next
  case (Joining p q b m e)
  then show ?case using sort_step.joined sort_step.left sort_step.right by (metis surj_pair)
next
  case (Copy_L b m e L)
  then show ?case using sort_step.copy_L sort_step.copied_L by blast
next
  case (Copy_R b m e L R)
  then show ?case using sort_step.copy_R sort_step.copied_R by blast
next
  case (Merging b m e L R i j k)
  then show ?case using sort_step.merge by blast
qed simp

text \<open>How many steps are left, at most.\<close>

fun steps_left :: "sort_thread \<Rightarrow> nat" where
  "steps_left (Merge_Sort b e) = 5 * (nat (e - b + 1) * nat (e - b + 1)) + 1"
| "steps_left (Joining p q b m e) = steps_left p + steps_left q + 2 * nat (e - b + 1) + 4"
| "steps_left (Copy_L b m e L) = nat (m - b + 1) - length L + nat (e - m) + nat (e - b + 1) + 3"
| "steps_left (Copy_R b m e L R) = nat (e - m) - length R + nat (e - b + 1) + 2"
| "steps_left (Merging b m e L R i j k) = nat (m - b + 1) - i + (nat (e - m) - j) + 1"
| "steps_left Exited = 0"

lemma split_cost:
  assumes "0 < x" "0 < (y::nat)"
  shows "5 * (x * x) + 1 + (5 * (y * y) + 1) + 2 * (x + y) + 4 < 5 * ((x + y) * (x + y)) + 1"
proof -
  obtain u v where uv: "x = Suc u" "y = Suc v" using assms by (metis gr0_conv_Suc)
  show ?thesis by (simp add: uv algebra_simps)
qed

lemma steps_left_less:
  assumes "sort_step (a, p) (a', p')" "sort_ok a0 b e p a" "0 \<le> b" "e < 2 ^ 30"
  shows "steps_left p' < steps_left p"
  using assms
proof (induction a p a' p' arbitrary: b e rule: sort_step_induct)
  case (split b' e' m a)
  then have "b \<le> m" "m < e" using sort_middle_bounds by auto
  moreover from this have "nat (e - b + 1) = nat (m - b + 1) + nat (e - (m + 1) + 1)" by linarith
  ultimately show ?case using split split_cost [of "nat (m - b + 1)" "nat (e - (m + 1) + 1)"] by simp
next
  case (merge a b' m e' L R i j k a' p')
  then show ?case by (auto simp: merge_round_def Let_def merging_ok_def split: if_splits) linarith+
qed auto

lemma sort_steps_ok:
  assumes "(sort_step ^^ n) s t" "sort_ok a0 b e (snd s) (fst s)" "0 \<le> b" "e < int (length (fst s))" "e < 2 ^ 30"
  shows "sort_ok a0 b e (snd t) (fst t) \<and> length (fst t) = length (fst s) \<and> n + steps_left (snd t) \<le> steps_left (snd s)"
  using assms(1)
proof (induction n arbitrary: t)
  case (Suc n)
  then obtain u where u: "(sort_step ^^ n) s u" "sort_step u t" by auto
  from Suc.IH [OF u(1)] have ih: "sort_ok a0 b e (snd u) (fst u)" "length (fst u) = length (fst s)"
    "n + steps_left (snd u) \<le> steps_left (snd s)" by auto
  have "sort_step (fst u, snd u) (fst t, snd t)" using u by simp
  from sort_step_ok [OF this ih(1) assms(3)] steps_left_less [OF this ih(1) assms(3)]
  show ?case using ih assms(4,5) by auto
qed (use assms in simp)

lemma sort_start_runs:
  assumes "length xs \<le> 2 ^ 30" "(sort_step ^^ n) (sort_start xs) s"
  shows "n + steps_left (snd s) \<le> 5 * length xs ^ 2 + 1 \<and> (snd s = Exited \<longrightarrow> fst s = sort xs)"
proof -
  let ?e = "int (length xs) - 1"
  have "length xs \<le> 1073741824" using assms(1) by simp
  then have ok: "sort_ok xs 0 ?e (snd s) (fst s)" "length (fst s) = length xs"
    and n: "n + steps_left (snd s) \<le> steps_left (snd (sort_start xs))"
    using sort_steps_ok [OF assms(2), of xs 0 ?e] by (simp_all add: sort_start_def)
  have "part (fst s) 0 ?e = fst s" "part xs 0 ?e = xs" using part_all [of "fst s"] part_all [of xs] ok by simp_all
  then have "snd s = Exited \<longrightarrow> fst s = sort xs" using ok by (auto intro: properties_for_sort [symmetric])
  then show ?thesis using n by (simp add: sort_start_def power2_eq_square)
qed

lemma sort_run_ends:
  assumes "length xs \<le> 2 ^ 30"
  shows "\<exists>a. sort_step\<^sup>*\<^sup>* (sort_start xs) (a, Exited)"
proof -
  let ?N = "5 * length xs ^ 2 + 1"
  have "(\<exists>a. sort_step\<^sup>*\<^sup>* (sort_start xs) (a, Exited)) \<or> (\<exists>s. (sort_step ^^ n) (sort_start xs) s)" for n
  proof (induction n)
    case (Suc n)
    show ?case
    proof (rule disjE [OF Suc.IH])
      assume "\<exists>s. (sort_step ^^ n) (sort_start xs) s"
      then obtain a p where s: "(sort_step ^^ n) (sort_start xs) (a, p)" by auto
      then have r: "sort_step\<^sup>*\<^sup>* (sort_start xs) (a, p)" by (rule relpowp_imp_rtranclp)
      show ?thesis using sort_thread_moves [of p a] s r by (auto intro: relpowp_Suc_I)
    qed simp
  qed (auto intro: relpowp_0_I)
  from this [of "Suc ?N"] sort_start_runs [OF assms, of "Suc ?N"] show ?thesis by fastforce
qed

section \<open>Properties\<close>

text \<open>
  C22 (termination). For at most \<open>2 ^ 30\<close> numbers: every execution, however the threads interleave, has at most
  \<open>5 n\<^sup>2 + 1\<close> steps; it can only stop when the sorting thread has exited, and then the array is the sorted input; so
  the program prints the sorted numbers and nothing else.
\<close>

theorem parallel_sort_sorts:
  assumes "length xs \<le> 2 ^ 30"
  shows "(\<forall>n s. (sort_step ^^ n) (sort_start xs) s \<longrightarrow> n \<le> 5 * length xs ^ 2 + 1 \<and>
      ((\<nexists>t. sort_step s t) \<longleftrightarrow> snd s = Exited) \<and> (snd s = Exited \<longrightarrow> fst s = sort xs)) \<and>
    (\<forall>out. parallel_sort_main xs out \<longleftrightarrow> out = sort_prompts @ sort_report (sort xs))"
proof -
  have stop: "(\<nexists>t. sort_step s t) \<longleftrightarrow> snd s = Exited" for s
  proof (cases s)
    case (Pair a p)
    then show ?thesis using sort_thread_moves [of p a] by (auto elim: ExitedE)
  qed
  have result: "a = sort xs" if "sort_step\<^sup>*\<^sup>* (sort_start xs) (a, Exited)" for a
    using sort_start_runs [OF assms] rtranclp_imp_relpowp [OF that] by fastforce
  have main: "parallel_sort_main xs out \<longleftrightarrow> out = sort_prompts @ sort_report (sort xs)" for out
    using sort_run_ends [OF assms] result by (auto simp: parallel_sort_main.simps)
  have steps: "n \<le> 5 * length xs ^ 2 + 1" if "(sort_step ^^ n) (sort_start xs) s" for n s
    using sort_start_runs [OF assms that] by linarith
  show ?thesis using stop steps main sort_start_runs [OF assms] by blast
qed

theorem parallel_sort_sorts_witness:
  "parallel_sort_main [2, 1] (''Enter the number of elements: Enter the elements: Sorted array: 1 2 '' @ [newline])"
proof -
  have "sort_prompts @ sort_report (sort [2, 1]) = ''Enter the number of elements: Enter the elements: Sorted array: 1 2 '' @ [newline]"
    by code_simp
  then show ?thesis using parallel_sort_sorts [of "[2, 1]"] by simp
qed

end
