(* ===== verification/Sudoku_Check.thy ===== *)
theory Sudoku_Check
  imports Prelude
begin

text \<open>
  \<open>CS2303 Operating System/Project 3/SudokuCheck.c\<close>: one thread checks the rows, one the columns, nine check a
  subgrid each.  The threads read the grid, which nobody writes, and each writes one global of its own at its
  end: an interleaving is the order of these writes.  The verdict is right for every order.
\<close>

section \<open>The checks\<close>

type_synonym grid = "int list list"

text \<open>\<open>check[v - 1]\<close> tells whether \<open>v\<close> has been seen; \<open>None\<close> is the early \<open>pthread_exit\<close> with result 0.\<close>

definition check_cell :: "int \<Rightarrow> nat list \<Rightarrow> nat list option" where
  "check_cell v check =
     (if v < 1 \<or> v > 9 \<or> check ! nat (v - 1) = 1 then None else Some (check[nat (v - 1) := 1]))"

text \<open>A loop \<open>for (j = from; j < to; ++j)\<close> around \<open>check_cell\<close>.\<close>

fun check_cells :: "(nat \<Rightarrow> int) \<Rightarrow> nat list \<Rightarrow> nat list \<Rightarrow> nat list option" where
  "check_cells cell [] check = Some check"
| "check_cells cell (j # js) check = do { check \<leftarrow> check_cell (cell j) check; check_cells cell js check }"

fun check_lines :: "(nat \<Rightarrow> nat \<Rightarrow> int) \<Rightarrow> nat list \<Rightarrow> nat" where
  "check_lines cell [] = 1"
| "check_lines cell (i # is) =
     (case check_cells (cell i) [0..<9] (replicate 9 0) of None \<Rightarrow> 0 | Some check \<Rightarrow> check_lines cell is)"

definition checkRows :: "grid \<Rightarrow> nat" where
  "checkRows sudoku = check_lines (\<lambda>i j. sudoku ! i ! j) [0..<9]"

definition checkColumns :: "grid \<Rightarrow> nat" where
  "checkColumns sudoku = check_lines (\<lambda>i j. sudoku ! j ! i) [0..<9]"

fun check_block :: "grid \<Rightarrow> nat \<Rightarrow> nat list \<Rightarrow> nat list \<Rightarrow> nat list option" where
  "check_block sudoku column [] check = Some check"
| "check_block sudoku column (i # is) check =
     do { check \<leftarrow> check_cells (\<lambda>j. sudoku ! i ! j) [column..<column + 3] check; check_block sudoku column is check }"

definition checkSubgrids :: "grid \<Rightarrow> nat \<Rightarrow> nat \<Rightarrow> nat" where
  "checkSubgrids sudoku subgrid_row subgrid_column = (let row = subgrid_row * 3; column = subgrid_column * 3 in
     case check_block sudoku column [row..<row + 3] (replicate 9 0) of None \<Rightarrow> 0 | Some check \<Rightarrow> 1)"

section \<open>The threads and the verdict\<close>

record results =
  rowResult :: nat
  columnResult :: nat
  subgridResult :: "nat list"

datatype check_thread = Rows | Columns | Subgrid nat nat

fun run_thread :: "grid \<Rightarrow> check_thread \<Rightarrow> results \<Rightarrow> results" where
  "run_thread sudoku Rows r = r\<lparr>rowResult := checkRows sudoku\<rparr>"
| "run_thread sudoku Columns r = r\<lparr>columnResult := checkColumns sudoku\<rparr>"
| "run_thread sudoku (Subgrid i j) r =
     r\<lparr>subgridResult := (subgridResult r)[i * 3 + j * 3 div 3 := checkSubgrids sudoku i j]\<rparr>"

definition check_threads :: "check_thread list" where
  "check_threads = Rows # Columns # concat (map (\<lambda>i. map (Subgrid i) [0..<3]) [0..<3])"

definition sudoku_verdict :: "results \<Rightarrow> string" where
  "sudoku_verdict r =
     (if rowResult r = 0 \<or> columnResult r = 0 then ''The sudoku is invalid.'' @ [newline]
      else if \<exists>i \<in> set [0..<9]. subgridResult r ! i = 0 then ''The sudoku is invalid.'' @ [newline]
      else ''The sudoku is valid.'' @ [newline])"

text \<open>\<open>main\<close>, when the threads write their results in the order \<open>ts\<close>; globals start as zero.\<close>

definition sudoku_main :: "grid \<Rightarrow> check_thread list \<Rightarrow> string" where
  "sudoku_main sudoku ts = ''Enter the sudoku:'' @ [newline] @
     sudoku_verdict (fold (run_thread sudoku) ts \<lparr>rowResult = 0, columnResult = 0, subgridResult = replicate 9 0\<rparr>)"

section \<open>Specification\<close>

definition digits9 :: "int list \<Rightarrow> bool" where
  "digits9 xs \<longleftrightarrow> mset xs = mset [1, 2, 3, 4, 5, 6, 7, 8, 9]"

definition valid_sudoku :: "grid \<Rightarrow> bool" where
  "valid_sudoku sudoku \<longleftrightarrow>
     (\<forall>i < 9. digits9 (sudoku ! i)) \<and>
     (\<forall>j < 9. digits9 (map (\<lambda>i. sudoku ! i ! j) [0..<9])) \<and>
     (\<forall>i < 3. \<forall>j < 3. digits9 (concat (map (\<lambda>r. map (\<lambda>c. sudoku ! (3 * i + r) ! (3 * j + c)) [0..<3]) [0..<3])))"

definition is_grid :: "grid \<Rightarrow> bool" where
  "is_grid sudoku \<longleftrightarrow> length sudoku = 9 \<and> (\<forall>row \<in> set sudoku. length row = 9)"

section \<open>Correctness of the checks\<close>

definition seen :: "int set \<Rightarrow> nat list" where
  "seen S = map (\<lambda>k. if int k + 1 \<in> S then 1 else 0) [0..<9]"

lemma check_cell_seen:
  assumes "S \<subseteq> {1..9}"
  shows "check_cell v (seen S) = (if v \<in> {1..9} - S then Some (seen (insert v S)) else None)"
proof (cases "v \<in> {1..9}")
  case True
  define k where "k = nat (v - 1)"
  have v: "v = int k + 1" "k < 9" using True by (auto simp: k_def)
  have "seen S ! k = (if v \<in> S then 1 else 0)" using v by (simp add: seen_def add.commute)
  moreover have "(seen S)[k := 1] = seen (insert v S)"
    using v by (auto simp: seen_def list_eq_iff_nth_eq nth_list_update simp del: upt_Suc)
  ultimately show ?thesis using True by (auto simp: check_cell_def simp flip: k_def)
qed (auto simp: check_cell_def)

lemma check_cells_seen:
  assumes "S \<subseteq> {1..9}"
  shows "check_cells cell js (seen S) = (if distinct (map cell js) \<and> set (map cell js) \<subseteq> {1..9} - S
     then Some (seen (S \<union> set (map cell js))) else None)"
  using assms
proof (induction js arbitrary: S)
  case (Cons j js)
  show ?case
  proof (cases "cell j \<in> {1..9} - S")
    case True
    then have "insert (cell j) S \<subseteq> {1..9}" using Cons.prems by auto
    from Cons.IH [OF this] True Cons.prems show ?thesis by (auto simp: check_cell_seen) (metis imageI)
  next
    case False
    then show ?thesis using Cons.prems by (auto simp: check_cell_seen)
  qed
qed simp

definition block_cells :: "grid \<Rightarrow> nat \<Rightarrow> nat list \<Rightarrow> int list" where
  "block_cells sudoku column rows = concat (map (\<lambda>i. map (\<lambda>j. sudoku ! i ! j) [column..<column + 3]) rows)"

lemma check_block_seen:
  assumes "S \<subseteq> {1..9}"
  shows "check_block sudoku column rows (seen S) =
    (if distinct (block_cells sudoku column rows) \<and> set (block_cells sudoku column rows) \<subseteq> {1..9} - S
     then Some (seen (S \<union> set (block_cells sudoku column rows))) else None)"
  using assms
proof (induction rows arbitrary: S)
  case Nil
  then show ?case by (simp add: block_cells_def)
next
  case (Cons i rows)
  define row where "row = map (\<lambda>j. sudoku ! i ! j) [column..<column + 3]"
  have cells: "block_cells sudoku column (i # rows) = row @ block_cells sudoku column rows"
    by (simp add: block_cells_def row_def)
  have step: "check_block sudoku column (i # rows) (seen S) = (if distinct row \<and> set row \<subseteq> {1..9} - S
     then check_block sudoku column rows (seen (S \<union> set row)) else None)"
    using Cons.prems by (simp add: check_cells_seen row_def del: upt_Suc)
  show ?case
  proof (cases "distinct row \<and> set row \<subseteq> {1..9} - S")
    case True
    then have "S \<union> set row \<subseteq> {1..9}" using Cons.prems by auto
    from Cons.IH [OF this] True show ?thesis unfolding step cells by (auto simp: Un_assoc)
  next
    case False
    then show ?thesis unfolding step cells by auto
  qed
qed

lemma digits9_iff: "length xs = 9 \<Longrightarrow> digits9 xs \<longleftrightarrow> distinct xs \<and> set xs \<subseteq> {1..9}"
proof -
  assume len: "length xs = 9"
  have nine: "set [1, 2, 3, 4, 5, 6, 7, 8, 9] = {1..9::int}" "distinct [1, 2, 3, 4, 5, 6, 7, 8, 9::int]" by auto
  have "set xs = {1..9}" if "distinct xs" "set xs \<subseteq> {1..9}"
    using that len by (intro card_subset_eq) (auto simp: distinct_card)
  then show ?thesis unfolding digits9_def using nine by (metis mset_eq_setD order_refl set_eq_iff_mset_eq_distinct mset_eq_imp_distinct_iff)
qed

lemma seen_empty: "replicate 9 0 = seen {}"
  by (simp add: seen_def eval_nat_numeral)

lemma check_lines_digits: "check_lines cell is = (if \<forall>i \<in> set is. digits9 (map (cell i) [0..<9]) then 1 else 0)"
  by (induction "is") (auto simp: seen_empty check_cells_seen digits9_iff simp del: upt_Suc)

lemma checkSubgrids_digits:
  "checkSubgrids sudoku i j = (if digits9 (concat (map (\<lambda>r. map (\<lambda>c. sudoku ! (3 * i + r) ! (3 * j + c)) [0..<3]) [0..<3])) then 1 else 0)"
proof -
  have cells: "block_cells sudoku (j * 3) [i * 3..<i * 3 + 3] = concat (map (\<lambda>r. map (\<lambda>c. sudoku ! (3 * i + r) ! (3 * j + c)) [0..<3]) [0..<3])"
    by (simp add: block_cells_def eval_nat_numeral upt_rec ac_simps)
  then have "length (block_cells sudoku (j * 3) [i * 3..<i * 3 + 3]) = 9" by (simp add: eval_nat_numeral)
  from digits9_iff [OF this] show ?thesis
    by (simp add: checkSubgrids_def Let_def seen_empty check_block_seen flip: cells)
qed

section \<open>The interleavings\<close>

definition settled :: "grid \<Rightarrow> check_thread set \<Rightarrow> results \<Rightarrow> bool" where
  "settled sudoku T r \<longleftrightarrow> length (subgridResult r) = 9 \<and>
     (Rows \<in> T \<longrightarrow> rowResult r = checkRows sudoku) \<and> (Columns \<in> T \<longrightarrow> columnResult r = checkColumns sudoku) \<and>
     (\<forall>i < 3. \<forall>j < 3. Subgrid i j \<in> T \<longrightarrow> subgridResult r ! (i * 3 + j) = checkSubgrids sudoku i j)"

lemma run_thread_settled:
  assumes "settled sudoku T r" "t \<in> set check_threads"
  shows "settled sudoku (insert t T) (run_thread sudoku t r)"
proof -
  have index: "i * 3 + j = i' * 3 + j' \<longleftrightarrow> i = i' \<and> j = j'" if "j < 3" "j' < 3" for i j i' j' :: nat
    using that by presburger
  have range: "i * 3 + j < 9" if "i < 3" "j < 3" for i j :: nat using that by simp
  show ?thesis using assms
    by (cases t) (auto simp: settled_def check_threads_def nth_list_update index range simp del: upt_Suc upt_conv_Cons)
qed

lemma fold_settled:
  "settled sudoku T r \<Longrightarrow> set ts \<subseteq> set check_threads \<Longrightarrow> settled sudoku (set ts \<union> T) (fold (run_thread sudoku) ts r)"
proof (induction ts arbitrary: r T)
  case (Cons t ts)
  then show ?case using Cons.IH [OF run_thread_settled] by fastforce
qed simp

lemma all_subgrids: "(\<exists>i \<in> set [0..<9]. P i) \<longleftrightarrow> (\<exists>i < 3. \<exists>j < 3. P (i * 3 + j :: nat))"
proof
  assume "\<exists>k \<in> set [0..<9]. P k"
  then obtain k where k: "k < 9" "P k" by auto
  then have "k div 3 < 3" "k mod 3 < 3" "k div 3 * 3 + k mod 3 = k" by auto
  then show "\<exists>i < 3. \<exists>j < 3. P (i * 3 + j)" using k by metis
next
  assume "\<exists>i < 3. \<exists>j < 3. P (i * 3 + j)"
  then obtain i j where ij: "i < 3" "j < 3" "P (i * 3 + j)" by auto
  then show "\<exists>k \<in> set [0..<9]. P k" by (intro bexI [where x = "i * 3 + j"]) auto
qed

section \<open>Property\<close>

text \<open>
  C23 (equivalence). In whatever order the eleven threads finish, the program says that a 9 by 9 grid is valid exactly if every
  row, every column and every subgrid is a permutation of the digits 1 to 9.
\<close>

theorem sudoku_main_correct:
  assumes "is_grid sudoku" "mset ts = mset check_threads"
  shows "sudoku_main sudoku ts = ''Enter the sudoku:'' @ [newline] @
    (if valid_sudoku sudoku then ''The sudoku is valid.'' else ''The sudoku is invalid.'') @ [newline]"
proof -
  let ?r0 = "\<lparr>rowResult = 0, columnResult = 0, subgridResult = replicate 9 0\<rparr>"
  define r where "r = fold (run_thread sudoku) ts ?r0"
  have ts: "set ts = set check_threads" using assms(2) by (rule mset_eq_setD)
  have "settled sudoku {} ?r0" by (simp add: settled_def)
  then have r: "settled sudoku (set check_threads) r" using fold_settled [of sudoku "{}" ?r0 ts] ts by (simp add: r_def)
  have in_threads: "Rows \<in> set check_threads" "Columns \<in> set check_threads"
    "\<And>i j. i < 3 \<Longrightarrow> j < 3 \<Longrightarrow> Subgrid i j \<in> set check_threads" by (auto simp: check_threads_def image_iff)
  have row: "map (\<lambda>j. sudoku ! i ! j) [0..<9] = sudoku ! i" if "i < 9" for i
    using assms(1) that map_nth [of "sudoku ! i"] by (simp add: is_grid_def)
  have rows: "rowResult r = 0 \<longleftrightarrow> \<not> (\<forall>i < 9. digits9 (sudoku ! i))"
    using r in_threads row by (auto simp: settled_def checkRows_def check_lines_digits simp del: upt_Suc)
  have columns: "columnResult r = 0 \<longleftrightarrow> \<not> (\<forall>j < 9. digits9 (map (\<lambda>i. sudoku ! i ! j) [0..<9]))"
    using r in_threads by (auto simp: settled_def checkColumns_def check_lines_digits simp del: upt_Suc)
  have subgrids: "(\<exists>k \<in> set [0..<9]. subgridResult r ! k = 0) \<longleftrightarrow> (\<exists>i < 3. \<exists>j < 3. checkSubgrids sudoku i j = 0)"
    using r in_threads unfolding all_subgrids settled_def by metis
  show ?thesis unfolding sudoku_main_def r_def [symmetric] sudoku_verdict_def rows columns subgrids valid_sudoku_def checkSubgrids_digits
    by (auto simp del: upt_Suc)
qed

definition sample_sudoku :: grid where
  "sample_sudoku =
    [[5, 3, 4, 6, 7, 8, 9, 1, 2], [6, 7, 2, 1, 9, 5, 3, 4, 8], [1, 9, 8, 3, 4, 2, 5, 6, 7],
     [8, 5, 9, 7, 6, 1, 4, 2, 3], [4, 2, 6, 8, 5, 3, 7, 9, 1], [7, 1, 3, 9, 2, 4, 8, 5, 6],
     [9, 6, 1, 5, 3, 7, 2, 8, 4], [2, 8, 7, 4, 1, 9, 6, 3, 5], [3, 4, 5, 2, 8, 6, 1, 7, 9]]"

theorem sudoku_main_correct_witness:
  "valid_sudoku sample_sudoku \<and>
   sudoku_main sample_sudoku (rev check_threads) = ''Enter the sudoku:'' @ [newline] @ ''The sudoku is valid.'' @ [newline]"
proof -
  have grid: "is_grid sample_sudoku" by (simp add: is_grid_def sample_sudoku_def)
  have "sudoku_main sample_sudoku check_threads = ''Enter the sudoku:'' @ [newline] @ ''The sudoku is valid.'' @ [newline]"
    by code_simp
  then have "valid_sudoku sample_sudoku" using sudoku_main_correct [OF grid, of check_threads] by (auto split: if_splits)
  then show ?thesis using sudoku_main_correct [OF grid, of "rev check_threads"] by simp
qed

end
