(* ===== verification/Shell.thy ===== *)
theory Shell
  imports C_Int
begin

text \<open>
  \<open>CS2303 Operating System/Project 2/osh.c\<close>: a shell with pipes, redirections, background jobs, \<open>cd\<close>, \<open>history\<close>,
  \<open>exit\<close> and \<open>!!\<close>.  The operating system is a parameter: what a call returns may depend on all calls before.
  The calls of the shell are recorded in the order it makes them, those of a child process as one entry, made
  at its fork.  \<open>None\<close> is undefined behaviour: an array overrun, or \<open>strcmp\<close> on NULL.

  The history file is its contents: the copies of a buffered line that an exiting child process may write again
  are not modelled.
\<close>

section \<open>State\<close>

definition BUFFER_SIZE :: nat where
  "BUFFER_SIZE = 2048"

definition MAX_ARGS :: nat where
  "MAX_ARGS = 64"

definition MAX_COMMANDS :: nat where
  "MAX_COMMANDS = 16"

abbreviation escape :: char where
  "escape \<equiv> CHR 0x1B"

text \<open>The calls with their results: file descriptors, \<open>pid\<close>s, success.\<close>

datatype sys_call =
    Print string
  | Open string bool int
  | Pipe "(int \<times> int) option"
  | Fork int
  | Child "sys_call list"
  | Dup2 int int
  | Execvp "string list" bool
  | Waitpid int
  | Close int
  | Chdir string bool
  | Exit int

record os =
  os_user :: string
  os_home :: string
  os_getcwd :: "sys_call list \<Rightarrow> string"
  os_chdir :: "sys_call list \<Rightarrow> string \<Rightarrow> bool"
  os_open :: "sys_call list \<Rightarrow> string \<Rightarrow> bool \<Rightarrow> int"
  os_pipe :: "sys_call list \<Rightarrow> (int \<times> int) option"
  os_fork :: "sys_call list \<Rightarrow> int"
  os_execvp :: "sys_call list \<Rightarrow> string list \<Rightarrow> bool"

record shell_command =
  argc :: nat
  argv :: "string option list"
  in_fd :: int
  out_fd :: int

text \<open>\<open>shell_info\<close> and \<open>commands\<close>, the rest of the standard input, and the calls made.\<close>

record shell =
  sh_username :: string
  sh_cwd :: string
  sh_history :: string
  sh_last :: string
  sh_run :: bool
  sh_buffer :: string
  sh_cmds :: "shell_command list"
  sh_cnt :: nat
  sh_redirect_in :: "string option"
  sh_redirect_out :: "string option"
  sh_background :: bool
  sh_stdin :: string
  sh_calls :: "sys_call list"

definition call :: "sys_call \<Rightarrow> shell \<Rightarrow> shell" where
  "call c st = st\<lparr>sh_calls := sh_calls st @ [c]\<rparr>"

definition init_shell :: "os \<Rightarrow> string \<Rightarrow> string \<Rightarrow> shell" where
  "init_shell os hist inp = \<lparr>sh_username = os_user os, sh_cwd = os_getcwd os [], sh_history = hist, sh_last = [], sh_run = True,
     sh_buffer = [newline], sh_cmds = replicate MAX_COMMANDS \<lparr>argc = 0, argv = replicate MAX_ARGS None, in_fd = 0, out_fd = 0\<rparr>,
     sh_cnt = 0, sh_redirect_in = None, sh_redirect_out = None, sh_background = False, sh_stdin = inp, sh_calls = []\<rparr>"

section \<open>Input\<close>

text \<open>A C string ends at its first NUL.\<close>

definition c_string :: "string \<Rightarrow> string" where
  "c_string s = takeWhile (\<lambda>c. c \<noteq> CHR 0x00) s"

definition prompt :: "shell \<Rightarrow> string" where
  "prompt st = [escape] @ ''[1m'' @ [escape] @ ''[32m'' @ sh_username st @ ''@osh> '' @ [escape] @ ''[34m'' @ sh_cwd st @
     [escape] @ ''[0m'' @ ''$ '' @ [escape] @ ''[0m''"

definition starts_newline :: "string \<Rightarrow> bool" where
  "starts_newline s \<longleftrightarrow> s \<noteq> [] \<and> hd s = newline"

text \<open>At end of file \<open>fgets\<close> leaves the buffer as it is.  \<open>strtok\<close> returns NULL when nothing but newlines is left.\<close>

definition prompt_and_input :: "shell \<Rightarrow> shell option" where
  "prompt_and_input st = (
     let st = call (Print (prompt st)) st;
         st = st\<lparr>sh_last := sh_buffer st\<rparr>;
         st = (case fgets BUFFER_SIZE (sh_stdin st) of None \<Rightarrow> st
               | Some (line, rest) \<Rightarrow> st\<lparr>sh_buffer := c_string line, sh_stdin := rest\<rparr>)
     in if starts_newline (sh_buffer st) then Some st
        else case tokens (\<lambda>c. c = newline) (sh_buffer st) of
          [] \<Rightarrow> None
        | t # _ \<Rightarrow>
          let st = st\<lparr>sh_buffer := t\<rparr> in
          if t = ''!!'' then
            if sh_last st = [newline] then Some (call (Print (''osh: No commands in history'' @ [newline])) (st\<lparr>sh_buffer := [newline]\<rparr>))
            else let st = st\<lparr>sh_buffer := sh_last st\<rparr>; st = call (Print (sh_buffer st @ [newline])) st in
              Some (st\<lparr>sh_history := sh_history st @ sh_buffer st @ [newline]\<rparr>)
          else Some (st\<lparr>sh_history := sh_history st @ sh_buffer st @ [newline]\<rparr>))"

section \<open>Parsing\<close>

text \<open>\<open>cmd->argv[cmd->argc] = v\<close> for the command at index \<open>i\<close>, inside both arrays.\<close>

definition store_arg :: "shell_command list \<Rightarrow> nat \<Rightarrow> string option \<Rightarrow> shell_command list option" where
  "store_arg cs i v = do {
     c \<leftarrow> arr_get cs i;
     vs \<leftarrow> arr_set (argv c) (argc c) v;
     arr_set cs i (c\<lparr>argv := vs\<rparr>)
   }"

definition reset_argc :: "shell_command list \<Rightarrow> nat \<Rightarrow> shell_command list option" where
  "reset_argc cs i = do { c \<leftarrow> arr_get cs i; arr_set cs i (c\<lparr>argc := 0\<rparr>) }"

definition inc_argc :: "shell_command list \<Rightarrow> nat \<Rightarrow> shell_command list option" where
  "inc_argc cs i = do { c \<leftarrow> arr_get cs i; arr_set cs i (c\<lparr>argc := argc c + 1\<rparr>) }"

definition first_token :: "string list \<Rightarrow> string option" where
  "first_token ts = (case ts of [] \<Rightarrow> None | t # _ \<Rightarrow> Some t)"

function parse_loop :: "string list \<Rightarrow> nat \<Rightarrow> shell \<Rightarrow> shell option" where
  "parse_loop [] i st = do { cs \<leftarrow> store_arg (sh_cmds st) i None; Some (st\<lparr>sh_cmds := cs, sh_cnt := i + 1\<rparr>) }"
| "parse_loop (t # ts) i st =
     (if t = ''<'' then parse_loop (tl ts) i (st\<lparr>sh_redirect_in := first_token ts\<rparr>)
      else if t = ''>'' then parse_loop (tl ts) i (st\<lparr>sh_redirect_out := first_token ts\<rparr>)
      else if t = ''|'' then do {
        cs \<leftarrow> store_arg (sh_cmds st) i None;
        cs \<leftarrow> reset_argc cs (i + 1);
        parse_loop ts (i + 1) (st\<lparr>sh_cmds := cs\<rparr>) }
      else if t = ''&'' then parse_loop ts i (st\<lparr>sh_background := True\<rparr>)
      else do {
        cs \<leftarrow> store_arg (sh_cmds st) i (Some t);
        cs \<leftarrow> inc_argc cs i;
        parse_loop ts i (st\<lparr>sh_cmds := cs\<rparr>) })"
  by pat_completeness auto
termination
  by (relation "measure (\<lambda>(ts, i, st). length ts)") auto

definition parse_input :: "shell \<Rightarrow> shell option" where
  "parse_input st =
     (if starts_newline (sh_buffer st) then Some st
      else do {
        cs \<leftarrow> reset_argc (sh_cmds st) 0;
        parse_loop (tokens (\<lambda>c. c = CHR '' '' \<or> c = newline) (sh_buffer st)) 0
          (st\<lparr>sh_cnt := 1, sh_redirect_in := None, sh_redirect_out := None, sh_background := False, sh_cmds := cs\<rparr>) })"

section \<open>Builtin commands\<close>

definition shell_cd :: "os \<Rightarrow> shell_command \<Rightarrow> shell \<Rightarrow> shell option" where
  "shell_cd os cmd st =
     (if argc cmd = 1 \<or> argc cmd = 2 then do {
        path \<leftarrow> (if argc cmd = 1 then Some (os_home os) else argv cmd ! 1);
        let ok = os_chdir os (sh_calls st) path;
        let st = call (Chdir path ok) st;
        Some (if ok then st\<lparr>sh_cwd := os_getcwd os (sh_calls st)\<rparr>
              else call (Print (''cd: '' @ path @ '': No such file or directory'' @ [newline])) st) }
      else Some (call (Print (''cd: too many arguments'' @ [newline])) st))"

text \<open>The three loops of \<open>history\<close> over the lines of the file.\<close>

function print_history :: "int \<Rightarrow> string \<Rightarrow> shell \<Rightarrow> shell" where
  "print_history n file st = (case fgets BUFFER_SIZE file of None \<Rightarrow> st
     | Some (line, rest) \<Rightarrow> print_history (n + 1) rest (call (Print (''    '' @ fmt_d n @ ''  '' @ c_string line)) st))"
  by pat_completeness auto
termination
  by (relation "measure (\<lambda>(n, file, st). length file)") (auto simp: BUFFER_SIZE_def dest: fgets_progress)

function count_lines :: "int \<Rightarrow> string \<Rightarrow> int" where
  "count_lines n file = (case fgets BUFFER_SIZE file of None \<Rightarrow> n | Some (line, rest) \<Rightarrow> count_lines (n + 1) rest)"
  by pat_completeness auto
termination
  by (relation "measure (\<lambda>(n, file). length file)") (auto simp: BUFFER_SIZE_def dest: fgets_progress)

function skip_lines :: "int \<Rightarrow> int \<Rightarrow> string \<Rightarrow> int \<times> string" where
  "skip_lines i bound file = (if i \<le> bound
     then skip_lines (i + 1) bound (case fgets BUFFER_SIZE file of None \<Rightarrow> file | Some (line, rest) \<Rightarrow> rest)
     else (i, file))"
  by pat_completeness auto
termination
  by (relation "measure (\<lambda>(i, bound, file). nat (bound + 1 - i))") auto

declare print_history.simps [simp del] count_lines.simps [simp del] skip_lines.simps [simp del]

definition shell_history :: "shell_command \<Rightarrow> shell \<Rightarrow> shell option" where
  "shell_history cmd st =
     (if argc cmd = 1 then Some (print_history 1 (sh_history st) st)
      else if argc cmd = 2 then do {
        arg \<leftarrow> argv cmd ! 1;
        if arg = ''-c'' then Some (st\<lparr>sh_history := []\<rparr>)
        else
          let n = count_lines 0 (sh_history st);
              (i, file) = skip_lines 1 (as_int (n - atoi_int arg)) (sh_history st)
          in Some (print_history (i - 1) file st) }
      else Some (call (Print (''history: too many arguments'' @ [newline])) st))"

text \<open>\<open>Some (st, True)\<close> is the return value 1: the command was a builtin, and has run.\<close>

definition check_builtin_commands :: "os \<Rightarrow> shell_command \<Rightarrow> shell \<Rightarrow> (shell \<times> bool) option" where
  "check_builtin_commands os cmd st = do {
     name \<leftarrow> argv cmd ! 0;
     if name = ''cd'' then do { st \<leftarrow> shell_cd os cmd st; Some (st, True) }
     else if name = ''history'' then do { st \<leftarrow> shell_history cmd st; Some (st, True) }
     else if name = ''exit'' then Some (st\<lparr>sh_run := False\<rparr>, True)
     else Some (st, False)
   }"

section \<open>Executing a pipeline\<close>

text \<open>The arguments \<open>execvp\<close> sees: up to the first NULL.\<close>

definition exec_args :: "shell_command \<Rightarrow> string list" where
  "exec_args cmd = map the (takeWhile (\<lambda>a. a \<noteq> None) (argv cmd))"

definition child_calls :: "os \<Rightarrow> shell_command \<Rightarrow> sys_call list \<Rightarrow> sys_call list" where
  "child_calls os cmd before = (let args = exec_args cmd; redirect = [Dup2 (in_fd cmd) 0, Dup2 (out_fd cmd) 1];
     found = os_execvp os (before @ redirect) args in
     redirect @ [Execvp args found] @
     (if found then [] else [Print (''osh: '' @ hd args @ '': command not found'' @ [newline]), Exit 1]))"

text \<open>The body of the loop after the pipe is made; the result \<open>False\<close> is the early return.\<close>

definition run_command :: "os \<Rightarrow> nat \<Rightarrow> shell \<Rightarrow> shell \<times> bool" where
  "run_command os i st = (let cmd = sh_cmds st ! i; pid = os_fork os (sh_calls st); st = call (Fork pid) st in
     if pid < 0 then (call (Print (''osh: fork failed'' @ [newline])) st, False)
     else
       let st = call (Child (child_calls os cmd (sh_calls st))) st;
           st = call (Waitpid pid) st;
           st = (if in_fd cmd \<noteq> 0 then call (Close (in_fd cmd)) st else st);
           st = (if out_fd cmd \<noteq> 1 then call (Close (out_fd cmd)) st else st)
       in (st, True))"

definition set_in_fd :: "nat \<Rightarrow> int \<Rightarrow> shell \<Rightarrow> shell" where
  "set_in_fd i fd st = st\<lparr>sh_cmds := (sh_cmds st)[i := (sh_cmds st ! i)\<lparr>in_fd := fd\<rparr>]\<rparr>"

definition set_out_fd :: "nat \<Rightarrow> int \<Rightarrow> shell \<Rightarrow> shell" where
  "set_out_fd i fd st = st\<lparr>sh_cmds := (sh_cmds st)[i := (sh_cmds st ! i)\<lparr>out_fd := fd\<rparr>]\<rparr>"

fun run_commands :: "os \<Rightarrow> nat list \<Rightarrow> shell \<Rightarrow> (shell \<times> bool) option" where
  "run_commands os [] st = Some (st, True)"
| "run_commands os (i # is) st = do {
     (st, builtin) \<leftarrow> check_builtin_commands os (sh_cmds st ! i) st;
     if builtin then run_commands os is st
     else
       let (st, piped) =
         (if i \<noteq> sh_cnt st - 1 then
            (case os_pipe os (sh_calls st) of
               None \<Rightarrow> (call (Print (''osh: pipe failed'' @ [newline])) (call (Pipe None) st), False)
             | Some (r, w) \<Rightarrow> (set_in_fd (i + 1) r (set_out_fd i w (call (Pipe (Some (r, w))) st)), True))
          else (st, True));
         (st, ok) = (if piped then run_command os i st else (st, False))
       in if ok then run_commands os is st else Some (st, False)
   }"

definition open_redirect :: "os \<Rightarrow> string option \<Rightarrow> bool \<Rightarrow> int \<Rightarrow> shell \<Rightarrow> int \<times> shell" where
  "open_redirect os path write std st = (case path of None \<Rightarrow> (std, st)
     | Some p \<Rightarrow> (let fd = os_open os (sh_calls st) p write in (fd, call (Open p write fd) st)))"

definition run_pipeline :: "os \<Rightarrow> shell \<Rightarrow> (shell \<times> bool) option" where
  "run_pipeline os st = (
     let (fd, st) = open_redirect os (sh_redirect_in st) False 0 st; st = set_in_fd 0 fd st;
         (fd, st) = open_redirect os (sh_redirect_out st) True 1 st; st = set_out_fd (sh_cnt st - 1) fd st
     in run_commands os [0..<sh_cnt st] st)"

text \<open>A background pipeline runs in a child process, which exits unless it returned early.\<close>

definition exec_commands :: "os \<Rightarrow> shell \<Rightarrow> shell option" where
  "exec_commands os st =
     (if starts_newline (sh_buffer st) then Some st
      else if sh_background st then
        let pid = os_fork os (sh_calls st); st = call (Fork pid) st in
        if pid < 0 then Some (call (Print (''osh: fork failed'' @ [newline])) st)
        else do {
          (child, ok) \<leftarrow> run_pipeline os st;
          Some (call (Child (drop (length (sh_calls st)) (sh_calls child) @ (if ok then [Exit 0] else []))) st) }
      else do { (st, ok) \<leftarrow> run_pipeline os st; Some st })"

definition shell_round :: "os \<Rightarrow> shell \<Rightarrow> shell option" where
  "shell_round os st = do { st \<leftarrow> prompt_and_input st; st \<leftarrow> parse_input st; exec_commands os st }"

partial_function (option) shell_loop :: "os \<Rightarrow> shell \<Rightarrow> shell option" where
  "shell_loop os st = (if sh_run st then do { st \<leftarrow> shell_round os st; shell_loop os st } else Some st)"

definition shell_main :: "os \<Rightarrow> string \<Rightarrow> string \<Rightarrow> shell option" where
  "shell_main os hist inp = shell_loop os (init_shell os hist inp)"

end
