(* ===== verification/Shell_Parse.thy ===== *)
theory Shell_Parse
  imports Shell
begin

text \<open>
  The lines \<open>parse_input\<close> of \<open>osh.c\<close> understands: a pipeline of commands with its redirections, printed as a line,
  parses back to itself; a command with too many words overruns \<open>argv\<close>.
\<close>

section \<open>Pipelines as lines\<close>

record pipeline =
  pl_stages :: "string list list"
  pl_in :: "string option"
  pl_out :: "string option"
  pl_background :: bool

fun stage_tokens :: "string list list \<Rightarrow> string list" where
  "stage_tokens [] = []"
| "stage_tokens [ws] = ws"
| "stage_tokens (ws # wss) = ws @ ''|'' # stage_tokens wss"

definition pipeline_tokens :: "pipeline \<Rightarrow> string list" where
  "pipeline_tokens p = stage_tokens (pl_stages p) @
     (case pl_in p of None \<Rightarrow> [] | Some f \<Rightarrow> [''<'', f]) @ (case pl_out p of None \<Rightarrow> [] | Some f \<Rightarrow> [''>'', f]) @
     (if pl_background p then [''&''] else [])"

definition show_line :: "string list \<Rightarrow> string" where
  "show_line ts = concat (map (\<lambda>t. t @ '' '') ts)"

definition separator :: "char \<Rightarrow> bool" where
  "separator c \<longleftrightarrow> c = CHR '' '' \<or> c = newline"

definition plain_token :: "string \<Rightarrow> bool" where
  "plain_token t \<longleftrightarrow> t \<noteq> [] \<and> (\<forall>c \<in> set t. \<not> separator c)"

definition plain_word :: "string \<Rightarrow> bool" where
  "plain_word w \<longleftrightarrow> plain_token w \<and> w \<notin> {''<'', ''>'', ''|'', ''&''}"

definition fits :: "pipeline \<Rightarrow> bool" where
  "fits p \<longleftrightarrow> pl_stages p \<noteq> [] \<and> length (pl_stages p) \<le> MAX_COMMANDS \<and>
     (\<forall>ws \<in> set (pl_stages p). ws \<noteq> [] \<and> length ws < MAX_ARGS \<and> (\<forall>w \<in> set ws. plain_word w)) \<and>
     (\<forall>f. pl_in p = Some f \<or> pl_out p = Some f \<longrightarrow> plain_token f)"

text \<open>What the parser has stored for a command: its words so far, and the NULL after them.\<close>

definition open_cmd :: "shell_command \<Rightarrow> string list \<Rightarrow> bool" where
  "open_cmd c ws \<longleftrightarrow> argc c = length ws \<and> length (argv c) = MAX_ARGS \<and> take (length ws) (argv c) = map Some ws"

definition holds_words :: "shell_command \<Rightarrow> string list \<Rightarrow> bool" where
  "holds_words c ws \<longleftrightarrow> argc c = length ws \<and> argv c ! length ws = None \<and> exec_args c = ws"

definition shell_wf :: "shell \<Rightarrow> bool" where
  "shell_wf st \<longleftrightarrow> length (sh_cmds st) = MAX_COMMANDS \<and> (\<forall>c \<in> set (sh_cmds st). length (argv c) = MAX_ARGS)"

definition parsed :: "pipeline \<Rightarrow> shell \<Rightarrow> bool" where
  "parsed p st \<longleftrightarrow> shell_wf st \<and> sh_cnt st = length (pl_stages p) \<and>
     (\<forall>k < length (pl_stages p). holds_words (sh_cmds st ! k) (pl_stages p ! k)) \<and>
     sh_redirect_in st = pl_in p \<and> sh_redirect_out st = pl_out p \<and> sh_background st = pl_background p"

section \<open>Tokens\<close>

lemma tokens_show_line: "\<forall>t \<in> set ts. plain_token t \<Longrightarrow> tokens separator (show_line ts) = ts"
proof (induction ts)
  case Nil
  then show ?case by (simp add: show_line_def tokens.simps)
next
  case (Cons t ts)
  then obtain c cs where t: "t = c # cs" "\<not> separator c" "\<forall>c \<in> set cs. \<not> separator c"
    by (cases t) (auto simp: plain_token_def)
  have blank: "separator CHR '' ''" by (simp add: separator_def)
  have "tokens separator (show_line (t # ts)) = t # tokens separator (CHR '' '' # show_line ts)"
    using t blank by (subst tokens.simps) (simp add: show_line_def takeWhile_append dropWhile_append)
  also have "tokens separator (CHR '' '' # show_line ts) = tokens separator (show_line ts)"
    using blank by (subst (1 2) tokens.simps) simp
  finally show ?case using Cons by simp
qed

section \<open>Storing words\<close>

definition add_word :: "string \<Rightarrow> shell_command \<Rightarrow> shell_command" where
  "add_word w c = c\<lparr>argv := (argv c)[argc c := Some w], argc := argc c + 1\<rparr>"

lemma open_add_word: "open_cmd c ws \<Longrightarrow> length ws < MAX_ARGS \<Longrightarrow> open_cmd (add_word w c) (ws @ [w])"
  by (simp add: open_cmd_def add_word_def take_Suc_conv_app_nth)

lemma open_add_words:
  "open_cmd c ws \<Longrightarrow> length (ws @ vs) \<le> MAX_ARGS \<Longrightarrow> open_cmd (fold add_word vs c) (ws @ vs)"
proof (induction vs arbitrary: c ws)
  case (Cons v vs)
  then show ?case using Cons.IH [OF open_add_word, of c ws v] by simp
qed simp

lemma open_close:
  assumes "open_cmd c ws" "length ws < MAX_ARGS"
  shows "holds_words (c\<lparr>argv := (argv c)[argc c := None]\<rparr>) ws"
proof -
  have "argv c = map Some ws @ drop (length ws) (argv c)" using assms by (metis append_take_drop_id open_cmd_def)
  then obtain v vs where "argv c = map Some ws @ v # vs" using assms by (cases "drop (length ws) (argv c)") (auto simp: open_cmd_def)
  then have "(argv c)[length ws := None] = map Some ws @ None # vs" by (simp add: list_update_append)
  then show ?thesis using assms by (auto simp: holds_words_def exec_args_def open_cmd_def takeWhile_append comp_def nth_append)
qed

lemma parse_words:
  assumes "\<forall>w \<in> set ws. plain_word w" "shell_wf st" "i < MAX_COMMANDS" "argc (sh_cmds st ! i) + length ws \<le> MAX_ARGS"
  shows "parse_loop (ws @ ts) i st = parse_loop ts i (st\<lparr>sh_cmds := (sh_cmds st)[i := fold add_word ws (sh_cmds st ! i)]\<rparr>)"
  using assms
proof (induction ws arbitrary: st)
  case (Cons w ws)
  define st' where "st' = st\<lparr>sh_cmds := (sh_cmds st)[i := add_word w (sh_cmds st ! i)]\<rparr>"
  have i: "i < length (sh_cmds st)" and len: "length (argv (sh_cmds st ! i)) = MAX_ARGS"
    using Cons.prems by (auto simp: shell_wf_def)
  have "parse_loop ((w # ws) @ ts) i st = parse_loop (ws @ ts) i st'"
    using Cons.prems i len
    by (simp add: plain_word_def store_arg_def inc_argc_def st'_def add_word_def arr_get_def arr_set_def)
  also have "\<dots> = parse_loop ts i (st'\<lparr>sh_cmds := (sh_cmds st')[i := fold add_word ws (sh_cmds st' ! i)]\<rparr>)"
    using Cons.prems i by (intro Cons.IH) (auto simp: st'_def shell_wf_def add_word_def set_update_subset_insert [THEN subsetD] dest!: set_update_subset_insert [THEN subsetD])
  finally show ?case using i by (simp add: st'_def)
qed simp

lemma shell_wf_upd: "shell_wf st \<Longrightarrow> length (argv c) = MAX_ARGS \<Longrightarrow> shell_wf (st\<lparr>sh_cmds := (sh_cmds st)[i := c]\<rparr>)"
  by (auto simp: shell_wf_def dest!: set_update_subset_insert [THEN subsetD])

lemma open_empty: "shell_wf st \<Longrightarrow> i < MAX_COMMANDS \<Longrightarrow> argc (sh_cmds st ! i) = 0 \<Longrightarrow> open_cmd (sh_cmds st ! i) []"
  by (simp add: open_cmd_def shell_wf_def)

text \<open>A command from its first word to the last, and over the bar to the next.\<close>

lemma parse_stage:
  assumes "shell_wf st" "i < MAX_COMMANDS" "argc (sh_cmds st ! i) = 0" "\<forall>w \<in> set ws. plain_word w" "length ws < MAX_ARGS"
    and c: "c = fold add_word ws (sh_cmds st ! i)"
  shows "parse_loop (ws @ ts) i st = parse_loop ts i (st\<lparr>sh_cmds := (sh_cmds st)[i := c]\<rparr>) \<and> open_cmd c ws \<and>
    shell_wf (st\<lparr>sh_cmds := (sh_cmds st)[i := c]\<rparr>)"
proof -
  have open_c: "open_cmd c ws" unfolding c using open_add_words [OF open_empty, of st i ws] assms by simp
  then have "shell_wf (st\<lparr>sh_cmds := (sh_cmds st)[i := c]\<rparr>)" using assms by (intro shell_wf_upd) (auto simp: open_cmd_def)
  moreover have "parse_loop (ws @ ts) i st = parse_loop ts i (st\<lparr>sh_cmds := (sh_cmds st)[i := c]\<rparr>)"
    unfolding c using assms by (intro parse_words) auto
  ultimately show ?thesis using open_c by simp
qed

lemma parse_bar:
  assumes "shell_wf st" "i + 1 < MAX_COMMANDS" "open_cmd (sh_cmds st ! i) ws" "length ws < MAX_ARGS"
  obtains cs where "parse_loop (''|'' # ts) i st = parse_loop ts (i + 1) (st\<lparr>sh_cmds := cs\<rparr>)"
    "shell_wf (st\<lparr>sh_cmds := cs\<rparr>)" "\<forall>k < i. cs ! k = sh_cmds st ! k" "holds_words (cs ! i) ws" "argc (cs ! (i + 1)) = 0"
proof
  define c where "c = (sh_cmds st ! i)\<lparr>argv := (argv (sh_cmds st ! i))[argc (sh_cmds st ! i) := None]\<rparr>"
  define cs where "cs = (sh_cmds st)[i := c, i + 1 := (sh_cmds st ! (i + 1))\<lparr>argc := 0\<rparr>]"
  have len: "length (sh_cmds st) = MAX_COMMANDS" "length (argv (sh_cmds st ! i)) = MAX_ARGS"
    "length (argv (sh_cmds st ! (i + 1))) = MAX_ARGS" "argc (sh_cmds st ! i) < MAX_ARGS"
    using assms by (auto simp: shell_wf_def open_cmd_def)
  have words: "holds_words c ws" unfolding c_def by (rule open_close) fact+
  show "parse_loop (''|'' # ts) i st = parse_loop ts (i + 1) (st\<lparr>sh_cmds := cs\<rparr>)"
    using len assms by (simp add: store_arg_def reset_argc_def arr_get_def arr_set_def cs_def c_def)
  have "shell_wf (st\<lparr>sh_cmds := (sh_cmds st)[i := c]\<rparr>)" using assms len by (intro shell_wf_upd) (auto simp: c_def)
  from shell_wf_upd [OF this, of "(sh_cmds st ! (i + 1))\<lparr>argc := 0\<rparr>" "i + 1"]
  show "shell_wf (st\<lparr>sh_cmds := cs\<rparr>)" using len by (simp add: cs_def)
  show "\<forall>k < i. cs ! k = sh_cmds st ! k" "holds_words (cs ! i) ws" "argc (cs ! (i + 1)) = 0"
    using words len assms by (simp_all add: cs_def)
qed

lemma parse_stages:
  assumes "wss \<noteq> []" "shell_wf st" "i + length wss \<le> MAX_COMMANDS" "argc (sh_cmds st ! i) = 0"
    "\<forall>ws \<in> set wss. length ws < MAX_ARGS \<and> (\<forall>w \<in> set ws. plain_word w)"
  shows "\<exists>cs. parse_loop (stage_tokens wss @ ts) i st = parse_loop ts (i + length wss - 1) (st\<lparr>sh_cmds := cs\<rparr>) \<and>
    shell_wf (st\<lparr>sh_cmds := cs\<rparr>) \<and> (\<forall>k < i. cs ! k = sh_cmds st ! k) \<and>
    (\<forall>k < length wss - 1. holds_words (cs ! (i + k)) (wss ! k)) \<and> open_cmd (cs ! (i + length wss - 1)) (last wss)"
  using assms
proof (induction wss arbitrary: i st rule: stage_tokens.induct)
  case (2 ws)
  have len: "i < length (sh_cmds st)" using 2 by (simp add: shell_wf_def)
  show ?case using parse_stage [of st i ws _ ts] 2 len by (intro exI [of _ "(sh_cmds st)[i := fold add_word ws (sh_cmds st ! i)]"]) auto
next
  case (3 ws ws' wss)
  define st1 where "st1 = st\<lparr>sh_cmds := (sh_cmds st)[i := fold add_word ws (sh_cmds st ! i)]\<rparr>"
  have len: "i < length (sh_cmds st)" using 3 by (simp add: shell_wf_def)
  have stage: "parse_loop (ws @ us) i st = parse_loop us i st1" "open_cmd (sh_cmds st1 ! i) ws" "shell_wf st1"
    "\<forall>k < i. sh_cmds st1 ! k = sh_cmds st ! k" for us
    using parse_stage [of st i ws _ us] "3.prems" len by (auto simp: st1_def)
  have bounds: "i + 1 < MAX_COMMANDS" "length ws < MAX_ARGS" using "3.prems" by auto
  obtain cs where bar: "parse_loop (''|'' # stage_tokens (ws' # wss) @ ts) i st1 =
      parse_loop (stage_tokens (ws' # wss) @ ts) (i + 1) (st1\<lparr>sh_cmds := cs\<rparr>)"
    "shell_wf (st1\<lparr>sh_cmds := cs\<rparr>)" "\<forall>k < i. cs ! k = sh_cmds st1 ! k" "holds_words (cs ! i) ws" "argc (cs ! (i + 1)) = 0"
    using parse_bar [OF stage(3) bounds(1) stage(2) bounds(2)] .
  obtain ds where rest: "parse_loop (stage_tokens (ws' # wss) @ ts) (i + 1) (st1\<lparr>sh_cmds := cs\<rparr>) =
      parse_loop ts (i + 1 + length (ws' # wss) - 1) (st1\<lparr>sh_cmds := ds\<rparr>)"
    "shell_wf (st1\<lparr>sh_cmds := ds\<rparr>)" "\<forall>k < i + 1. ds ! k = cs ! k"
    "\<forall>k < length wss. holds_words (ds ! (i + 1 + k)) ((ws' # wss) ! k)" "open_cmd (ds ! (i + 1 + length (ws' # wss) - 1)) (last (ws' # wss))"
    using "3.IH" [of "st1\<lparr>sh_cmds := cs\<rparr>" "i + 1"] "3.prems" bar by auto
  have words: "holds_words (ds ! (i + k)) ((ws # ws' # wss) ! k)" if "k < length (ws' # wss)" for k
    using that rest(3,4) bar(4) by (cases k) auto
  have "parse_loop (stage_tokens (ws # ws' # wss) @ ts) i st = parse_loop ts (i + length (ws # ws' # wss) - 1) (st\<lparr>sh_cmds := ds\<rparr>)"
    using stage(1) [of "''|'' # stage_tokens (ws' # wss) @ ts"] bar(1) rest(1) by (simp add: st1_def)
  moreover have "shell_wf (st\<lparr>sh_cmds := ds\<rparr>)" using rest(2) by (simp add: st1_def)
  moreover have "\<forall>k < i. ds ! k = sh_cmds st ! k" using rest(3) bar(3) stage(4) by simp
  ultimately show ?case using words rest(5) by (intro exI [of _ ds]) simp
qed simp

lemma parse_end:
  assumes "shell_wf st" "i < MAX_COMMANDS" "open_cmd (sh_cmds st ! i) ws" "length ws < MAX_ARGS"
  shows "\<exists>cs. parse_loop ((case fi of None \<Rightarrow> [] | Some f \<Rightarrow> [''<'', f]) @ (case fo of None \<Rightarrow> [] | Some f \<Rightarrow> [''>'', f]) @
      (if bg then [''&''] else [])) i st =
    Some (st\<lparr>sh_cmds := cs, sh_cnt := i + 1, sh_redirect_in := (if fi = None then sh_redirect_in st else fi),
      sh_redirect_out := (if fo = None then sh_redirect_out st else fo), sh_background := (bg \<or> sh_background st)\<rparr>) \<and>
    shell_wf (st\<lparr>sh_cmds := cs\<rparr>) \<and> (\<forall>k < i. cs ! k = sh_cmds st ! k) \<and> holds_words (cs ! i) ws"
proof -
  define c where "c = (sh_cmds st ! i)\<lparr>argv := (argv (sh_cmds st ! i))[argc (sh_cmds st ! i) := None]\<rparr>"
  have len: "i < length (sh_cmds st)" "argc (sh_cmds st ! i) < length (argv (sh_cmds st ! i))" "length (argv c) = MAX_ARGS"
    using assms by (auto simp: shell_wf_def open_cmd_def c_def)
  have "holds_words c ws" unfolding c_def by (rule open_close) fact+
  moreover have "shell_wf (st\<lparr>sh_cmds := (sh_cmds st)[i := c]\<rparr>)" using assms(1) len(3) by (rule shell_wf_upd)
  moreover have "store_arg (sh_cmds st) i None = Some ((sh_cmds st)[i := c])" using len by (simp add: store_arg_def c_def)
  ultimately show ?thesis using len(1)
    by (intro exI [of _ "(sh_cmds st)[i := c]"]) (auto simp: first_token_def split: option.splits)
qed

lemma set_stage_tokens: "set (stage_tokens wss) \<subseteq> insert ''|'' (\<Union> (set ` set wss))"
  by (induction wss rule: stage_tokens.induct) auto

lemma plain_stage_tokens:
  assumes "\<forall>ws \<in> set wss. \<forall>w \<in> set ws. plain_word w" "t \<in> set (stage_tokens wss)"
  shows "plain_token t"
proof -
  have "t = ''|'' \<or> plain_word t" using assms set_stage_tokens [of wss] by blast
  then show ?thesis by (auto simp: plain_word_def plain_token_def separator_def)
qed

lemma plain_pipeline_tokens:
  assumes "fits p" shows "\<forall>t \<in> set (pipeline_tokens p). plain_token t"
proof -
  have bars: "plain_token ''<''" "plain_token ''>''" "plain_token ''&''" by (simp_all add: plain_token_def separator_def)
  show ?thesis using assms plain_stage_tokens [of "pl_stages p"]
    by (auto simp: pipeline_tokens_def fits_def bars split: option.splits)
qed

lemma starts_newline_line: "ts \<noteq> [] \<Longrightarrow> \<forall>t \<in> set ts. plain_token t \<Longrightarrow> \<not> starts_newline (show_line ts)"
proof (cases ts)
  case (Cons t ts')
  moreover assume "\<forall>t \<in> set ts. plain_token t"
  ultimately show ?thesis by (cases t) (auto simp: starts_newline_def show_line_def plain_token_def separator_def)
qed simp

lemma stage_tokens_Nil: "wss \<noteq> [] \<Longrightarrow> \<forall>ws \<in> set wss. ws \<noteq> [] \<Longrightarrow> stage_tokens wss \<noteq> []"
  by (induction wss rule: stage_tokens.induct) auto

lemma reset_first:
  assumes "shell_wf st"
  obtains cs where "reset_argc (sh_cmds st) 0 = Some cs" "shell_wf (st\<lparr>sh_cmds := cs\<rparr>)" "argc (cs ! 0) = 0"
proof
  have len: "0 < length (sh_cmds st)" "length (argv (sh_cmds st ! 0)) = MAX_ARGS"
    using assms by (auto simp: shell_wf_def MAX_COMMANDS_def)
  then show "reset_argc (sh_cmds st) 0 = Some ((sh_cmds st)[0 := (sh_cmds st ! 0)\<lparr>argc := 0\<rparr>])" by (simp add: reset_argc_def)
  show "shell_wf (st\<lparr>sh_cmds := (sh_cmds st)[0 := (sh_cmds st ! 0)\<lparr>argc := 0\<rparr>]\<rparr>)" using assms len by (intro shell_wf_upd) auto
  show "argc ((sh_cmds st)[0 := (sh_cmds st ! 0)\<lparr>argc := 0\<rparr>] ! 0) = 0" using len by simp
qed

section \<open>Property\<close>


definition sample_pipeline :: pipeline where
  "sample_pipeline = \<lparr>pl_stages = [[''sort'', ''-r''], [''uniq'']], pl_in = Some ''in.txt'', pl_out = None, pl_background = True\<rparr>"

definition sample_os :: os where
  "sample_os = \<lparr>os_user = ''user'', os_home = ''/home'', os_getcwd = (\<lambda>_. ''/''), os_chdir = (\<lambda>_ _. True), os_open = (\<lambda>_ _ _. 3),
     os_pipe = (\<lambda>_. Some (4, 5)), os_fork = (\<lambda>_. 100), os_execvp = (\<lambda>_ _. True)\<rparr>"

definition sample_shell :: shell where
  "sample_shell = (init_shell sample_os [] [])\<lparr>sh_buffer := ''sort -r | uniq < in.txt & ''\<rparr>"


text \<open>A command of 64 words: the NULL after them is stored past the end of \<open>argv\<close>.\<close>

lemma shell_parse_overrun:
  assumes "shell_wf st" "\<forall>w \<in> set ws. plain_word w" "length ws = MAX_ARGS" "sh_buffer st = show_line ws"
  shows "parse_input st = None"
proof -
  have plain: "\<forall>w \<in> set ws. plain_token w" and "0 < length ws" using assms(2) unfolding assms(3) by (auto simp: plain_word_def MAX_ARGS_def)
  then have ne: "ws \<noteq> []" by simp
  obtain cs where cs: "reset_argc (sh_cmds st) 0 = Some cs" "shell_wf (st\<lparr>sh_cmds := cs\<rparr>)" "argc (cs ! 0) = 0"
    using reset_first [OF assms(1)] .
  define st1 where "st1 = st\<lparr>sh_cnt := 1, sh_redirect_in := None, sh_redirect_out := None, sh_background := False, sh_cmds := cs\<rparr>"
  have st1: "shell_wf st1" "argc (sh_cmds st1 ! 0) = 0" "0 < MAX_COMMANDS" using cs by (simp_all add: st1_def shell_wf_def MAX_COMMANDS_def)
  have "tokens (\<lambda>c. c = CHR '' '' \<or> c = newline) (sh_buffer st) = ws"
    using tokens_show_line [OF plain] assms(4) by (simp add: separator_def [abs_def])
  then have "parse_input st = parse_loop (ws @ []) 0 st1"
    using starts_newline_line [OF ne plain] assms(4) by (simp add: parse_input_def cs st1_def)
  also have "\<dots> = parse_loop [] 0 (st1\<lparr>sh_cmds := (sh_cmds st1)[0 := fold add_word ws (sh_cmds st1 ! 0)]\<rparr>)"
    using st1 assms by (intro parse_words) auto
  also have "\<dots> = None"
    using open_add_words [OF open_empty [OF st1(1) st1(3) st1(2)], of ws] assms(3) st1
    by (simp add: store_arg_def open_cmd_def arr_get_def arr_set_def shell_wf_def)
  finally show ?thesis .
qed

end
