(* ===== verification/Shell_Exec.thy ===== *)
theory Shell_Exec
  imports Shell_Parse
begin

text \<open>
  What \<open>exec_commands\<close> of \<open>osh.c\<close> does for a pipeline of programs, and what \<open>history\<close> prints.
\<close>

section \<open>Reading a sequence of calls\<close>

text \<open>The programs started with their standard input, standard output and arguments; pipes; descriptors opened and closed.\<close>

fun launched :: "sys_call list \<Rightarrow> (int \<times> int \<times> string list) list" where
  "launched [] = []"
| "launched (Child (Dup2 i _ # Dup2 j _ # Execvp args _ # _) # es) = (i, j, args) # launched es"
| "launched (_ # es) = launched es"

fun pipes :: "sys_call list \<Rightarrow> (int \<times> int) list" where
  "pipes [] = []"
| "pipes (Pipe (Some p) # es) = p # pipes es"
| "pipes (_ # es) = pipes es"

fun opened :: "sys_call list \<Rightarrow> int list" where
  "opened [] = []"
| "opened (Pipe (Some (r, w)) # es) = r # w # opened es"
| "opened (Open f b fd # es) = fd # opened es"
| "opened (_ # es) = opened es"

fun closed :: "sys_call list \<Rightarrow> int list" where
  "closed [] = []"
| "closed (Close fd # es) = fd # closed es"
| "closed (_ # es) = closed es"

text \<open>Every child is waited for before anything else happens.\<close>

fun waits :: "int option \<Rightarrow> sys_call list \<Rightarrow> bool" where
  "waits running [] \<longleftrightarrow> running = None"
| "waits running (e # es) \<longleftrightarrow> (case e of
       Fork p \<Rightarrow> running = None \<and> waits (Some p) es
     | Child _ \<Rightarrow> waits running es
     | Waitpid p \<Rightarrow> running = Some p \<and> waits None es
     | _ \<Rightarrow> running = None \<and> waits None es)"

definition one_at_a_time :: "sys_call list \<Rightarrow> bool" where
  "one_at_a_time es \<longleftrightarrow> waits None es"

lemma one_at_a_time_simps [simp]:
  "one_at_a_time []"
  "one_at_a_time (Pipe p # es) = one_at_a_time es"
  "one_at_a_time (Open f b fd # es) = one_at_a_time es"
  by (simp_all add: one_at_a_time_def)

section \<open>The loop over the commands\<close>

definition program :: "shell_command \<Rightarrow> bool" where
  "program c \<longleftrightarrow> (\<exists>name. argv c ! 0 = Some name \<and> name \<notin> {''cd'', ''history'', ''exit''})"

definition keeps_running :: "os \<Rightarrow> bool" where
  "keeps_running os \<longleftrightarrow> (\<forall>es. 0 < os_fork os es \<and> os_pipe os es \<noteq> None)"

definition fresh_descriptors :: "os \<Rightarrow> bool" where
  "fresh_descriptors os \<longleftrightarrow> (\<forall>es f b r w. 2 < os_open os es f b \<and> (os_pipe os es = Some (r, w) \<longrightarrow> 2 < r \<and> 2 < w))"

lemma program_not_builtin: "program c \<Longrightarrow> check_builtin_commands os c st = Some (st, False)"
  by (auto simp: program_def check_builtin_commands_def)

definition command_calls :: "os \<Rightarrow> shell_command \<Rightarrow> sys_call list \<Rightarrow> sys_call list" where
  "command_calls os c before = (let pid = os_fork os before in
     [Fork pid, Child (child_calls os c (before @ [Fork pid])), Waitpid pid] @
     (if in_fd c \<noteq> 0 then [Close (in_fd c)] else []) @ (if out_fd c \<noteq> 1 then [Close (out_fd c)] else []))"

lemma exec_args_upd [simp]: "exec_args (c\<lparr>in_fd := a\<rparr>) = exec_args c" "exec_args (c\<lparr>out_fd := a\<rparr>) = exec_args c"
  by (simp_all add: exec_args_def)

lemma program_upd [simp]: "program (c\<lparr>in_fd := a\<rparr>) = program c" "program (c\<lparr>out_fd := a\<rparr>) = program c"
  by (simp_all add: program_def)

lemma run_command_calls:
  "keeps_running os \<Longrightarrow> run_command os i st =
    (st\<lparr>sh_calls := sh_calls st @ command_calls os (sh_cmds st ! i) (sh_calls st)\<rparr>, True)"
  unfolding keeps_running_def by (drule spec [of _ "sh_calls st"]) (simp add: run_command_def command_calls_def call_def Let_def)

lemma command_calls_read:
  "launched (command_calls os c before @ es) = (in_fd c, out_fd c, exec_args c) # launched es"
  "pipes (command_calls os c before @ es) = pipes es"
  "opened (command_calls os c before @ es) = opened es"
  "closed (command_calls os c before @ es) = filter (\<lambda>fd. fd \<noteq> 0) [in_fd c] @ filter (\<lambda>fd. fd \<noteq> 1) [out_fd c] @ closed es"
  "one_at_a_time (command_calls os c before @ es) = one_at_a_time es"
  by (simp_all add: command_calls_def child_calls_def one_at_a_time_def Let_def)

definition connected :: "int \<Rightarrow> int \<Rightarrow> string list list \<Rightarrow> sys_call list \<Rightarrow> bool" where
  "connected source sink stages es \<longleftrightarrow> Suc (length (pipes es)) = length stages \<and>
     launched es = zip (source # map fst (pipes es)) (zip (map snd (pipes es) @ [sink]) stages) \<and>
     mset (closed es) = mset (filter (\<lambda>fd. fd \<noteq> 0) (source # map fst (pipes es))) + mset (filter (\<lambda>fd. fd \<noteq> 1) (map snd (pipes es) @ [sink])) \<and>
     opened es = concat (map (\<lambda>(r, w). [r, w]) (pipes es)) \<and> one_at_a_time es"

lemma run_commands_connected:
  assumes os: "keeps_running os"
    and "i < sh_cnt st" "sh_cnt st \<le> length (sh_cmds st)" "\<forall>k. i \<le> k \<and> k < sh_cnt st \<longrightarrow> program (sh_cmds st ! k)"
  shows "\<exists>cs es. run_commands os [i..<sh_cnt st] st = Some (st\<lparr>sh_cmds := cs, sh_calls := sh_calls st @ es\<rparr>, True) \<and>
    connected (in_fd (sh_cmds st ! i)) (out_fd (sh_cmds st ! (sh_cnt st - 1))) (map (\<lambda>k. exec_args (sh_cmds st ! k)) [i..<sh_cnt st]) es \<and>
    (fresh_descriptors os \<longrightarrow> (\<forall>(r, w) \<in> set (pipes es). 2 < r \<and> 2 < w))"
  using assms(2-)
proof (induction "sh_cnt st - i" arbitrary: i st)
  case (Suc d)
  have builtin: "check_builtin_commands os (sh_cmds st ! i) st = Some (st, False)"
    using Suc.prems by (intro program_not_builtin) auto
  have upt: "[i..<sh_cnt st] = i # [i + 1..<sh_cnt st]" using Suc.prems by (simp add: upt_conv_Cons)
  show ?case
  proof (cases "i = sh_cnt st - 1")
    case True
    define es where "es = command_calls os (sh_cmds st ! i) (sh_calls st)"
    have last_one: "(i \<noteq> sh_cnt st - Suc 0) = False" and rest: "[i + 1..<sh_cnt st] = []" using True by auto
    have "run_commands os [i..<sh_cnt st] st = Some (st\<lparr>sh_calls := sh_calls st @ es\<rparr>, True)"
      unfolding upt rest run_commands.simps builtin by (simp add: last_one run_command_calls [OF os] es_def)
    moreover have "connected (in_fd (sh_cmds st ! i)) (out_fd (sh_cmds st ! i)) [exec_args (sh_cmds st ! i)] es" "pipes es = []"
      using command_calls_read [of os "sh_cmds st ! i" "sh_calls st" "[]"] by (simp_all add: connected_def es_def)
    ultimately show ?thesis using True Suc.prems upt by (intro exI [of _ "sh_cmds st"] exI [of _ es]) (simp split: if_splits)
  next
    case False
    obtain r w where rw: "os_pipe os (sh_calls st) = Some (r, w)" using os by (fastforce simp: keeps_running_def)
    define cs where "cs = (sh_cmds st)[i := (sh_cmds st ! i)\<lparr>out_fd := w\<rparr>, i + 1 := (sh_cmds st ! (i + 1))\<lparr>in_fd := r\<rparr>]"
    define es where "es = Pipe (Some (r, w)) # command_calls os (cs ! i) (sh_calls st @ [Pipe (Some (r, w))])"
    define st1 where "st1 = st\<lparr>sh_cmds := cs, sh_calls := sh_calls st @ es\<rparr>"
    have i: "i + 1 < length (sh_cmds st)" "i + 1 < sh_cnt st" "Suc i < sh_cnt st" using False Suc.prems by auto
    have cmds: "cs ! i = (sh_cmds st ! i)\<lparr>out_fd := w\<rparr>" "cs ! (i + 1) = (sh_cmds st ! (i + 1))\<lparr>in_fd := r\<rparr>"
      "exec_args (cs ! k) = exec_args (sh_cmds st ! k)" "program (cs ! k) = program (sh_cmds st ! k)"
      "out_fd (cs ! (sh_cnt st - 1)) = out_fd (sh_cmds st ! (sh_cnt st - 1))" for k
      using i by (auto simp: cs_def nth_list_update exec_args_def program_def)
    have len_cs: "length cs = length (sh_cmds st)" by (simp add: cs_def)
    have step: "run_commands os [i..<sh_cnt st] st = run_commands os [i + 1..<sh_cnt st] st1"
      using False i unfolding upt
      by (simp add: builtin rw call_def set_in_fd_def set_out_fd_def run_command_calls [OF os] st1_def es_def cs_def)
    have "\<exists>ds fs. run_commands os [i + 1..<sh_cnt st1] st1 = Some (st1\<lparr>sh_cmds := ds, sh_calls := sh_calls st1 @ fs\<rparr>, True) \<and>
      connected (in_fd (sh_cmds st1 ! (i + 1))) (out_fd (sh_cmds st1 ! (sh_cnt st1 - 1))) (map (\<lambda>k. exec_args (sh_cmds st1 ! k)) [i + 1..<sh_cnt st1]) fs \<and>
      (fresh_descriptors os \<longrightarrow> (\<forall>(r, w) \<in> set (pipes fs). 2 < r \<and> 2 < w))"
      using Suc.hyps(2) Suc.prems i by (intro Suc.hyps(1)) (auto simp: st1_def len_cs cmds(4))
    then obtain ds fs where fs: "run_commands os [i + 1..<sh_cnt st] st1 = Some (st\<lparr>sh_cmds := ds, sh_calls := sh_calls st @ es @ fs\<rparr>, True)"
      "connected r (out_fd (sh_cmds st ! (sh_cnt st - 1))) (map (\<lambda>k. exec_args (sh_cmds st ! k)) [i + 1..<sh_cnt st]) fs"
      "fresh_descriptors os \<longrightarrow> (\<forall>(r, w) \<in> set (pipes fs). 2 < r \<and> 2 < w)"
      using cmds by (auto simp: st1_def)
    have "connected (in_fd (sh_cmds st ! i)) (out_fd (sh_cmds st ! (sh_cnt st - 1)))
        (exec_args (sh_cmds st ! i) # map (\<lambda>k. exec_args (sh_cmds st ! k)) [i + 1..<sh_cnt st]) (es @ fs)"
      using fs(2) by (simp add: connected_def es_def command_calls_read cmds(1))
    moreover have "run_commands os [i..<sh_cnt st] st = Some (st\<lparr>sh_cmds := ds, sh_calls := sh_calls st @ es @ fs\<rparr>, True)"
      unfolding step by (rule fs(1))
    moreover have "fresh_descriptors os \<longrightarrow> (\<forall>(r, w) \<in> set (pipes (es @ fs)). 2 < r \<and> 2 < w)"
      using fs(3) rw by (auto simp: es_def command_calls_read fresh_descriptors_def)
    ultimately show ?thesis unfolding upt list.map by blast
  qed
qed simp

section \<open>Properties\<close>

text \<open>The program a stage of a pipeline runs is not one of the builtin commands.\<close>

definition runs_programs :: "pipeline \<Rightarrow> bool" where
  "runs_programs p \<longleftrightarrow> fits p \<and> (\<forall>ws \<in> set (pl_stages p). hd ws \<notin> {''cd'', ''history'', ''exit''})"

text \<open>
  The calls \<open>es\<close> run the pipeline: each stage once, in order, connected by pipes, the ends redirected, one at a time, and
  every descriptor that was opened is closed, once.
\<close>

definition pipeline_calls :: "pipeline \<Rightarrow> sys_call list \<Rightarrow> bool" where
  "pipeline_calls p es \<longleftrightarrow> (\<exists>source sink. Suc (length (pipes es)) = length (pl_stages p) \<and>
     launched es = zip (source # map fst (pipes es)) (zip (map snd (pipes es) @ [sink]) (pl_stages p)) \<and>
     (case pl_in p of None \<Rightarrow> source = 0 | Some f \<Rightarrow> Open f False source \<in> set es) \<and>
     (case pl_out p of None \<Rightarrow> sink = 1 | Some f \<Rightarrow> Open f True sink \<in> set es) \<and>
     mset (closed es) = mset (opened es) \<and> one_at_a_time es)"

lemma pipes_opened: "fd \<in> fst ` set (pipes es) \<union> snd ` set (pipes es) \<Longrightarrow> fd \<in> set (opened es)"
  by (induction es rule: opened.induct) auto

lemma holds_program:
  assumes "holds_words c ws" "ws \<noteq> []" "hd ws \<notin> {''cd'', ''history'', ''exit''}"
  shows "program c"
proof -
  have ws: "map the (takeWhile (\<lambda>a. a \<noteq> None) (argv c)) = ws" using assms(1) by (simp add: holds_words_def exec_args_def)
  then obtain v vs where "argv c = v # vs" "v \<noteq> None" using assms(2) by (cases "argv c") (auto split: if_splits)
  then show ?thesis using ws assms(3) by (auto simp: program_def)
qed

definition redirect_calls :: "pipeline \<Rightarrow> int \<Rightarrow> int \<Rightarrow> sys_call list" where
  "redirect_calls p source sink =
     (case pl_in p of None \<Rightarrow> [] | Some f \<Rightarrow> [Open f False source]) @ (case pl_out p of None \<Rightarrow> [] | Some f \<Rightarrow> [Open f True sink])"

lemma open_redirect_keeps [simp]:
  "sh_cnt (snd (open_redirect os f b std st)) = sh_cnt st"
  "sh_redirect_out (snd (open_redirect os f b std st)) = sh_redirect_out st"
  by (simp_all add: open_redirect_def call_def Let_def split: option.split)

lemma run_pipeline_start:
  assumes "parsed p st" "fits p"
  obtains source sink cs where
    "run_pipeline os st = run_commands os [0..<sh_cnt st] (st\<lparr>sh_cmds := cs, sh_calls := sh_calls st @ redirect_calls p source sink\<rparr>)"
    "length cs = MAX_COMMANDS" "in_fd (cs ! 0) = source" "out_fd (cs ! (sh_cnt st - 1)) = sink"
    "\<forall>k < sh_cnt st. exec_args (cs ! k) = exec_args (sh_cmds st ! k) \<and> program (cs ! k) = program (sh_cmds st ! k)"
    "pl_in p = None \<longrightarrow> source = 0" "pl_out p = None \<longrightarrow> sink = 1"
    "fresh_descriptors os \<longrightarrow> (pl_in p \<noteq> None \<longrightarrow> 2 < source) \<and> (pl_out p \<noteq> None \<longrightarrow> 2 < sink)"
proof -
  define n where "n = sh_cnt st - 1"
  define source where "source = fst (open_redirect os (pl_in p) False 0 st)"
  define st1 where "st1 = set_in_fd 0 source (snd (open_redirect os (pl_in p) False 0 st))"
  define sink where "sink = fst (open_redirect os (pl_out p) True 1 st1)"
  define cs where "cs = (sh_cmds st)[0 := (sh_cmds st ! 0)\<lparr>in_fd := source\<rparr>, n := ((sh_cmds st)[0 := (sh_cmds st ! 0)\<lparr>in_fd := source\<rparr>] ! n)\<lparr>out_fd := sink\<rparr>]"
  have st: "length (sh_cmds st) = MAX_COMMANDS" "0 < MAX_COMMANDS" "n < MAX_COMMANDS" "sh_cnt st \<le> MAX_COMMANDS"
    "sh_redirect_in st = pl_in p" "sh_redirect_out st = pl_out p"
    using assms by (auto simp: parsed_def shell_wf_def MAX_COMMANDS_def fits_def n_def)
  have st1: "st1 = st\<lparr>sh_cmds := (sh_cmds st)[0 := (sh_cmds st ! 0)\<lparr>in_fd := source\<rparr>], sh_calls := sh_calls st @
      (case pl_in p of None \<Rightarrow> [] | Some f \<Rightarrow> [Open f False source])\<rparr>"
    by (simp add: st1_def source_def open_redirect_def set_in_fd_def call_def Let_def split: option.split)
  have "set_out_fd n sink (snd (open_redirect os (pl_out p) True 1 st1)) =
      st\<lparr>sh_cmds := cs, sh_calls := sh_calls st @ redirect_calls p source sink\<rparr>"
    by (simp add: sink_def open_redirect_def set_out_fd_def call_def Let_def st1 cs_def redirect_calls_def split: option.split)
  moreover have "sh_redirect_out st1 = pl_out p" "sh_cnt st1 - 1 = n" using st by (simp_all add: st1 n_def)
  moreover have "run_pipeline os st = run_commands os [0..<sh_cnt st] (set_out_fd n sink (snd (open_redirect os (pl_out p) True 1 st1)))"
    unfolding run_pipeline_def st(5) case_prod_unfold Let_def
    by (simp add: set_in_fd_def set_out_fd_def st sink_def st1_def source_def n_def)
  ultimately have run: "run_pipeline os st = run_commands os [0..<sh_cnt st] (st\<lparr>sh_cmds := cs, sh_calls := sh_calls st @ redirect_calls p source sink\<rparr>)"
    by simp
  have same: "\<forall>k < sh_cnt st. exec_args (cs ! k) = exec_args (sh_cmds st ! k) \<and> program (cs ! k) = program (sh_cmds st ! k)"
  proof (intro allI impI)
    fix k assume "k < sh_cnt st"
    then show "exec_args (cs ! k) = exec_args (sh_cmds st ! k) \<and> program (cs ! k) = program (sh_cmds st ! k)"
      using st by (cases k) (auto simp: cs_def n_def nth_list_update)
  qed
  have ends: "length cs = MAX_COMMANDS" "in_fd (cs ! 0) = source" "out_fd (cs ! (sh_cnt st - 1)) = sink"
    using st by (simp_all add: cs_def n_def nth_list_update)
  show ?thesis
    by (rule that [OF run ends same])
      (auto simp: source_def sink_def open_redirect_def fresh_descriptors_def Let_def split: option.splits)
qed

lemma redirect_calls_read:
  "launched (redirect_calls p source sink @ es) = launched es"
  "pipes (redirect_calls p source sink @ es) = pipes es"
  "opened (redirect_calls p source sink @ es) =
     (if pl_in p = None then [] else [source]) @ (if pl_out p = None then [] else [sink]) @ opened es"
  "closed (redirect_calls p source sink @ es) = closed es"
  "one_at_a_time (redirect_calls p source sink @ es) = one_at_a_time es"
  by (auto simp: redirect_calls_def split: option.split)

lemma mset_pipe_ends: "mset (concat (map (\<lambda>(r, w). [r, w]) ps)) = mset (map fst ps) + mset (map snd ps)"
  by (induction ps) auto

lemma run_pipeline_calls:
  assumes "runs_programs p" "parsed p st" "keeps_running os" "fresh_descriptors os"
  shows "\<exists>cs es. run_pipeline os st = Some (st\<lparr>sh_cmds := cs, sh_calls := sh_calls st @ es\<rparr>, True) \<and> pipeline_calls p es"
proof -
  have p: "fits p" "\<forall>ws \<in> set (pl_stages p). ws \<noteq> [] \<and> hd ws \<notin> {''cd'', ''history'', ''exit''}"
    using assms(1) by (auto simp: runs_programs_def fits_def)
  obtain source sink cs where start:
    "run_pipeline os st = run_commands os [0..<sh_cnt st] (st\<lparr>sh_cmds := cs, sh_calls := sh_calls st @ redirect_calls p source sink\<rparr>)"
    "length cs = MAX_COMMANDS" "in_fd (cs ! 0) = source" "out_fd (cs ! (sh_cnt st - 1)) = sink"
    "\<forall>k < sh_cnt st. exec_args (cs ! k) = exec_args (sh_cmds st ! k) \<and> program (cs ! k) = program (sh_cmds st ! k)"
    "pl_in p = None \<longrightarrow> source = 0" "pl_out p = None \<longrightarrow> sink = 1"
    "fresh_descriptors os \<longrightarrow> (pl_in p \<noteq> None \<longrightarrow> 2 < source) \<and> (pl_out p \<noteq> None \<longrightarrow> 2 < sink)"
    using run_pipeline_start [OF assms(2) p(1)] by blast
  define st1 where "st1 = st\<lparr>sh_cmds := cs, sh_calls := sh_calls st @ redirect_calls p source sink\<rparr>"
  have st: "0 < sh_cnt st" "sh_cnt st \<le> MAX_COMMANDS" "sh_cnt st = length (pl_stages p)"
    "\<forall>k < sh_cnt st. holds_words (sh_cmds st ! k) (pl_stages p ! k)"
    using assms(2) p(1) by (auto simp: parsed_def fits_def)
  have programs: "\<forall>k. 0 \<le> k \<and> k < sh_cnt st \<longrightarrow> program (cs ! k)"
    using start(5) st p(2) holds_program by (metis nth_mem)
  have "map (\<lambda>k. exec_args (cs ! k)) [0..<sh_cnt st] = map (\<lambda>k. pl_stages p ! k) [0..<sh_cnt st]"
    using start(5) st(4) by (simp add: holds_words_def)
  then have stages: "map (\<lambda>k. exec_args (cs ! k)) [0..<sh_cnt st] = pl_stages p" using st(3) map_nth by metis
  obtain ds es where es: "run_commands os [0..<sh_cnt st] st1 = Some (st\<lparr>sh_cmds := ds, sh_calls := sh_calls st @ redirect_calls p source sink @ es\<rparr>, True)"
    "connected source sink (pl_stages p) es" "\<forall>(r, w) \<in> set (pipes es). 2 < r \<and> 2 < w"
    using run_commands_connected [OF assms(3), of 0 st1] st start programs stages assms(4) by (auto simp: st1_def)
  have kept: "filter (\<lambda>fd. fd \<noteq> 0) (map fst (pipes es)) = map fst (pipes es)" "filter (\<lambda>fd. fd \<noteq> 1) (map snd (pipes es)) = map snd (pipes es)"
    using es(3) by (auto simp: filter_id_conv)
  have es_facts: "Suc (length (pipes es)) = length (pl_stages p)" "one_at_a_time es"
    "launched es = zip (source # map fst (pipes es)) (zip (map snd (pipes es) @ [sink]) (pl_stages p))"
    "mset (opened es) = mset (map fst (pipes es)) + mset (map snd (pipes es))"
    "mset (closed es) = mset (filter (\<lambda>fd. fd \<noteq> 0) [source]) + mset (map fst (pipes es)) + (mset (map snd (pipes es)) + mset (filter (\<lambda>fd. fd \<noteq> 1) [sink]))"
    using es(2) kept unfolding connected_def by (simp_all add: mset_pipe_ends)
  have ends: "filter (\<lambda>fd. fd \<noteq> 0) [source] = (if pl_in p = None then [] else [source])" "filter (\<lambda>fd. fd \<noteq> 1) [sink] = (if pl_out p = None then [] else [sink])"
    using start(6-8) assms(4) by auto
  have "mset (closed es) = mset ((if pl_in p = None then [] else [source]) @ (if pl_out p = None then [] else [sink]) @ opened es)"
    unfolding es_facts(5) ends mset_append es_facts(4) by (simp only: ac_simps)
  moreover have "case pl_in p of None \<Rightarrow> source = 0 | Some f \<Rightarrow> Open f False source \<in> set (redirect_calls p source sink @ es)"
    "case pl_out p of None \<Rightarrow> sink = 1 | Some f \<Rightarrow> Open f True sink \<in> set (redirect_calls p source sink @ es)"
    using start(6,7) by (auto simp: redirect_calls_def split: option.splits)
  ultimately have "pipeline_calls p (redirect_calls p source sink @ es)"
    unfolding pipeline_calls_def redirect_calls_read using es_facts(1-3) by blast
  then show ?thesis using start(1) es(1) unfolding st1_def
    by (intro exI [of _ ds] exI [of _ "redirect_calls p source sink @ es"]) simp
qed


text \<open>At the end of its input the shell reads its last command again, and again.\<close>

lemma shell_eof_repeats:
  assumes "sh_stdin st = []" "sh_buffer st \<noteq> []" "newline \<notin> set (sh_buffer st)" "sh_buffer st \<noteq> ''!!''"
  shows "\<exists>st'. prompt_and_input st = Some st' \<and> sh_buffer st' = sh_buffer st \<and> sh_history st' = sh_history st @ sh_buffer st @ [newline]"
proof -
  obtain c cs where buffer: "sh_buffer st = c # cs" using assms(2) by (cases "sh_buffer st") auto
  have "c \<noteq> newline" "\<forall>d \<in> set cs. d \<noteq> newline" using assms(3) by (auto simp: buffer)
  then have "tokens (\<lambda>c. c = newline) (sh_buffer st) = [sh_buffer st]"
    unfolding buffer by (subst tokens.simps) (auto simp: tokens.simps [of _ "[]"] takeWhile_eq_all_conv [THEN iffD2] dropWhile_eq_Nil_conv [THEN iffD2])
  then show ?thesis using assms \<open>c \<noteq> newline\<close> buffer
    by (simp add: prompt_and_input_def Let_def call_def fgets_def starts_newline_def)
qed

text \<open>\<open>history\<close> numbers the lines from 1, \<open>history k\<close> the last \<open>k\<close> of them one less.\<close>

fun numbered :: "int \<Rightarrow> string list \<Rightarrow> sys_call list" where
  "numbered n [] = []"
| "numbered n (l # ls) = Print (''    '' @ fmt_d n @ ''  '' @ l) # numbered (n + 1) ls"

definition history_line :: "string \<Rightarrow> bool" where
  "history_line l \<longleftrightarrow> l \<noteq> [] \<and> length l < BUFFER_SIZE \<and> last l = newline \<and> newline \<notin> set (butlast l) \<and> CHR 0x00 \<notin> set l"

lemma read_line_whole: "newline \<notin> set w \<Longrightarrow> length w < n \<Longrightarrow> read_line n (w @ newline # rest) = (w @ [newline], rest)"
proof (induction w arbitrary: n)
  case Nil
  then show ?case by (cases n) auto
next
  case (Cons c w)
  then show ?case by (cases n) auto
qed

lemma fgets_history_line:
  assumes "history_line l"
  shows "fgets BUFFER_SIZE (l @ rest) = Some (l, rest) \<and> c_string l = l"
proof -
  obtain w where w: "l = w @ [newline]" using assms by (metis append_butlast_last_id history_line_def)
  have "newline \<notin> set w" "length w < BUFFER_SIZE - 1" using assms unfolding history_line_def w by auto
  from read_line_whole [OF this, of rest] have "fgets BUFFER_SIZE (l @ rest) = Some (l, rest)" unfolding w fgets_def by (simp del: read_line.simps)
  moreover have "c_string l = l" using assms unfolding c_string_def takeWhile_eq_all_conv by (auto simp: history_line_def)
  ultimately show ?thesis ..
qed

lemma print_history_lines:
  "\<forall>l \<in> set ls. history_line l \<Longrightarrow> print_history n (concat ls) st = st\<lparr>sh_calls := sh_calls st @ numbered n ls\<rparr>"
proof (induction ls arbitrary: n st)
  case Nil
  then show ?case by (subst print_history.simps) (simp add: fgets_def)
next
  case (Cons l ls)
  have "fgets BUFFER_SIZE (concat (l # ls)) = Some (l, concat ls)" "c_string l = l" using fgets_history_line [of l "concat ls"] Cons.prems by auto
  then show ?case using Cons by (subst print_history.simps) (simp add: call_def)
qed

lemma count_lines_lines: "\<forall>l \<in> set ls. history_line l \<Longrightarrow> count_lines n (concat ls) = n + int (length ls)"
proof (induction ls arbitrary: n)
  case Nil
  then show ?case by (subst count_lines.simps) (simp add: fgets_def)
next
  case (Cons l ls)
  have "fgets BUFFER_SIZE (concat (l # ls)) = Some (l, concat ls)" using fgets_history_line [of l "concat ls"] Cons.prems by auto
  then show ?case using Cons by (subst count_lines.simps) simp
qed

lemma skip_lines_lines:
  "\<forall>l \<in> set ls. history_line l \<Longrightarrow> k \<le> length ls \<Longrightarrow> skip_lines i (i + int k - 1) (concat ls) = (i + int k, concat (drop k ls))"
proof (induction k arbitrary: i ls)
  case 0
  then show ?case by (subst skip_lines.simps) simp
next
  case (Suc k)
  then obtain l ls' where ls: "ls = l # ls'" by (cases ls) auto
  have "fgets BUFFER_SIZE (concat ls) = Some (l, concat ls')" using fgets_history_line [of l "concat ls'"] Suc.prems ls by auto
  then show ?case using Suc.IH [of ls' "i + 1"] Suc.prems by (subst skip_lines.simps) (simp add: ls ac_simps)
qed

text \<open>\<open>history\<close> prints the lines of the history file, numbered from 1; \<open>history k\<close> prints the last \<open>k\<close> of them, in order, each
  with a number one less than \<open>history\<close> gives it.\<close>

lemma shell_history_prints:
  assumes "sh_history st = concat ls" "\<forall>l \<in> set ls. history_line l" "length ls < 2 ^ 31"
  shows "(argc cmd = 1 \<longrightarrow> shell_history cmd st = Some (st\<lparr>sh_calls := sh_calls st @ numbered 1 ls\<rparr>)) \<and>
    (argc cmd = 2 \<and> argv cmd ! 1 = Some a \<and> a \<noteq> ''-c'' \<and> atoi_int a = int k \<and> k \<le> length ls \<longrightarrow>
      shell_history cmd st = Some (st\<lparr>sh_calls := sh_calls st @ numbered (int (length ls - k)) (drop (length ls - k) ls)\<rparr>))"
proof -
  have "as_int (int (length ls) - int k) = 1 + int (length ls - k) - 1" if "k \<le> length ls"
    using that assms(3) by (subst as_int_id) auto
  moreover have "\<forall>l \<in> set (drop (length ls - k) ls). history_line l" using assms(2) by (meson in_set_dropD)
  ultimately show ?thesis
    using print_history_lines [OF assms(2)] count_lines_lines [OF assms(2), of 0] skip_lines_lines [OF assms(2), of "length ls - k" 1]
      print_history_lines [of "drop (length ls - k) ls" "int (length ls - k)" st]
    by (auto simp: shell_history_def assms(1))
qed

text \<open>Two commands, \<open>ls | wc\<close>; and a history of two lines.\<close>

definition word_command :: "string \<Rightarrow> shell_command" where
  "word_command w = \<lparr>argc = 1, argv = Some w # replicate 63 None, in_fd = 0, out_fd = 0\<rparr>"

definition ls_wc :: pipeline where
  "ls_wc = \<lparr>pl_stages = [[''ls''], [''wc'']], pl_in = None, pl_out = Some ''f'', pl_background = False\<rparr>"

definition ls_wc_shell :: shell where
  "ls_wc_shell = (init_shell sample_os [] [])\<lparr>sh_buffer := ''ls | wc > f'', sh_cnt := 2, sh_redirect_out := Some ''f'',
     sh_cmds := word_command ''ls'' # word_command ''wc'' # replicate 14 (word_command [])\<rparr>"


lemma shell_history_prints_witness:
  "shell_history (word_command ''history'') (ls_wc_shell\<lparr>sh_history := ''ls'' @ [newline] @ ''cd'' @ [newline]\<rparr>) =
     Some (ls_wc_shell\<lparr>sh_history := ''ls'' @ [newline] @ ''cd'' @ [newline],
       sh_calls := [Print (''    1  ls'' @ [newline]), Print (''    2  cd'' @ [newline])]\<rparr>)"
proof -
  have "\<forall>l \<in> set [''ls'' @ [newline], ''cd'' @ [newline]]. history_line l" by (simp add: history_line_def BUFFER_SIZE_def)
  moreover have "fmt_d 1 = ''1''" "fmt_d 2 = ''2''" by code_simp+
  ultimately show ?thesis
    using shell_history_prints [of "ls_wc_shell\<lparr>sh_history := ''ls'' @ [newline] @ ''cd'' @ [newline]\<rparr>" "[''ls'' @ [newline], ''cd'' @ [newline]]" "word_command ''history''" "[]" 0]
    by (simp add: word_command_def ls_wc_shell_def init_shell_def)
qed

end
