(* ===== verification/Proc_Modules.thy ===== *)
theory Proc_Modules
  imports C_Int
begin

text \<open>
  The kernel modules of \<open>CS2303 Operating System\<close>: \<open>Project 1/jiffies.c\<close>, \<open>Project 1/seconds.c\<close> and \<open>Project 2/pid.c\<close>, each a file
  under \<open>/proc\<close>.  A read returns the whole text, the next one end of file: the flag \<open>complete\<close> is static, shared by all
  readers.  The kernel (its clock, its tasks, \<open>kstrtoint\<close>, whether \<open>copy_to_user\<close> fails) is a parameter.  \<open>None\<close> is a
  write past the end of \<open>buffer\<close>.
\<close>

section \<open>Reading a file\<close>

text \<open>What a \<open>read\<close> returns, what it copied to the user, and the state of the module after it.\<close>

type_synonym 's proc_result = "(int \<times> string \<times> 's) option"

definition sprintf :: "nat \<Rightarrow> string \<Rightarrow> string option" where
  "sprintf n s = (if length s < n then Some s else None)"

text \<open>A program such as \<open>cat\<close>: it reads until a read returns no data, finding the kernel in the states \<open>es\<close>.\<close>

fun cat_file :: "('e \<Rightarrow> 's \<Rightarrow> 's proc_result) \<Rightarrow> 'e list \<Rightarrow> 's \<Rightarrow> (string \<times> 's) option" where
  "cat_file read [] s = Some ([], s)"
| "cat_file read (e # es) s = do {
     (n, d, s) \<leftarrow> read e s;
     if n \<le> 0 then Some ([], s)
     else do { (ds, s) \<leftarrow> cat_file read es s; Some (d @ ds, s) }
   }"

text \<open>What the three modules have in common: one read gives the text, the next one nothing.\<close>

locale proc_file =
  fixes read :: "'e \<Rightarrow> 's \<Rightarrow> 's proc_result"
    and rest :: "'s \<Rightarrow> bool" and shown :: "'e \<Rightarrow> 's \<Rightarrow> string" and read_once :: "'s \<Rightarrow> 's" and ready :: "'e \<Rightarrow> 's \<Rightarrow> bool"
  assumes first: "\<not> rest s \<Longrightarrow> ready e s \<Longrightarrow> read e s = Some (int (length (shown e s)), shown e s, read_once s)"
    and shown_something: "shown e s \<noteq> []"
    and rests: "rest (read_once s)"
    and second: "\<not> rest s \<Longrightarrow> read e (read_once s) = Some (0, [], s)"
begin

lemma cat: "\<not> rest s \<Longrightarrow> ready e s \<Longrightarrow> cat_file read (e # e' # es) s = Some (shown e s, s)"
  using shown_something [of e s] by (simp add: first second)

text \<open>A second reader between the two reads of the first gets nothing, and the first reads on as if it had just begun.\<close>

lemma two_readers: "\<not> rest s \<Longrightarrow> ready e s \<Longrightarrow> read e s = Some (int (length (shown e s)), shown e s, read_once s) \<and> read e' (read_once s) = Some (0, [], s)"
  by (simp add: first second)

end

section \<open>\<open>jiffies.c\<close>\<close>

record jiffies_module =
  jm_complete :: bool
  jm_log :: "string list"

record jiffies_kernel =
  jk_jiffies :: "64 word"
  jk_copy_ok :: bool

definition PROC_BUFFER_SIZE :: nat where
  "PROC_BUFFER_SIZE = 32"

definition jiffies_init :: "jiffies_module \<Rightarrow> jiffies_module" where
  "jiffies_init s = s\<lparr>jm_log := jm_log s @ [''/proc/jiffies created'' @ [newline]]\<rparr>"

definition jiffies_exit :: "jiffies_module \<Rightarrow> jiffies_module" where
  "jiffies_exit s = s\<lparr>jm_log := jm_log s @ [''/proc/jiffies removed'' @ [newline]]\<rparr>"

definition fmt_llu :: "64 word \<Rightarrow> string" where
  "fmt_llu w = nat_digits (unat w)"

definition jiffies_read :: "jiffies_kernel \<Rightarrow> jiffies_module \<Rightarrow> jiffies_module proc_result" where
  "jiffies_read k s =
     (if jm_complete s then Some (0, [], s\<lparr>jm_complete := False\<rparr>)
      else do {
        buffer \<leftarrow> sprintf PROC_BUFFER_SIZE (fmt_llu (jk_jiffies k) @ [newline]);
        if \<not> jk_copy_ok k then Some (0, [], s\<lparr>jm_log := jm_log s @ [''/proc/jiffies copy_to_user failed'' @ [newline]]\<rparr>)
        else Some (int (length buffer), buffer, s\<lparr>jm_complete := True\<rparr>)
      })"

section \<open>\<open>seconds.c\<close>\<close>

record seconds_module =
  sm_init_time :: "64 word"
  sm_complete :: bool
  sm_log :: "string list"

record seconds_kernel =
  sk_jiffies :: "64 word"
  sk_msecs :: "64 word \<Rightarrow> 64 word" \<comment> \<open>\<open>jiffies64_to_msecs\<close>\<close>
  sk_copy_ok :: bool

definition seconds_init :: "64 word \<Rightarrow> seconds_module \<Rightarrow> seconds_module" where
  "seconds_init now s = s\<lparr>sm_log := sm_log s @ [''/proc/seconds created'' @ [newline]], sm_init_time := now\<rparr>"

definition seconds_exit :: "seconds_module \<Rightarrow> seconds_module" where
  "seconds_exit s = s\<lparr>sm_log := sm_log s @ [''/proc/seconds removed'' @ [newline]]\<rparr>"

definition seconds_read :: "seconds_kernel \<Rightarrow> seconds_module \<Rightarrow> seconds_module proc_result" where
  "seconds_read k s =
     (if sm_complete s then Some (0, [], s\<lparr>sm_complete := False\<rparr>)
      else do {
        buffer \<leftarrow> sprintf PROC_BUFFER_SIZE (fmt_llu (sk_msecs k (sk_jiffies k - sm_init_time s) div 1000) @ [newline]);
        if \<not> sk_copy_ok k then Some (0, [], s\<lparr>sm_log := sm_log s @ [''/proc/seconds copy_to_user failed'' @ [newline]]\<rparr>)
        else Some (int (length buffer), buffer, s\<lparr>sm_complete := True\<rparr>)
      })"

section \<open>\<open>pid.c\<close>\<close>

definition PID_BUFFER_SIZE :: nat where
  "PID_BUFFER_SIZE = 128"

record pid_module =
  pd_pid :: int
  pd_complete :: bool
  pd_log :: "string list"

record task =
  tk_comm :: string
  tk_pid :: int
  tk_state :: int

record pid_kernel =
  pk_known :: "int \<Rightarrow> bool" \<comment> \<open>\<open>find_get_pid\<close> does not return NULL\<close>
  pk_task :: "int \<Rightarrow> task option" \<comment> \<open>\<open>pid_task(find_vpid(pid), PIDTYPE_PID)\<close>\<close>
  pk_copy_ok :: bool
  pk_kstrtoint :: "string \<Rightarrow> int option"

definition pid_init :: "pid_module \<Rightarrow> pid_module" where
  "pid_init s = s\<lparr>pd_log := pd_log s @ [''/proc/pid created'' @ [newline]]\<rparr>"

definition pid_exit :: "pid_module \<Rightarrow> pid_module" where
  "pid_exit s = s\<lparr>pd_log := pd_log s @ [''/proc/pid removed'' @ [newline]]\<rparr>"

definition no_process :: "int \<Rightarrow> string" where
  "no_process pid = ''No process with pid = ['' @ fmt_d pid @ '']'' @ [newline]"

definition pid_text :: "pid_kernel \<Rightarrow> pid_module \<Rightarrow> string" where
  "pid_text k s =
     (if \<not> pk_known k (pd_pid s) then no_process (pd_pid s)
      else case pk_task k (pd_pid s) of
        None \<Rightarrow> no_process (pd_pid s)
      | Some t \<Rightarrow> ''command = ['' @ tk_comm t @ ''] pid = ['' @ fmt_d (tk_pid t) @ ''] state = ['' @ fmt_d (tk_state t) @ '']'' @ [newline])"

definition pid_read :: "pid_kernel \<Rightarrow> pid_module \<Rightarrow> pid_module proc_result" where
  "pid_read k s =
     (if pd_complete s then Some (0, [], s\<lparr>pd_complete := False\<rparr>)
      else do {
        buffer \<leftarrow> sprintf PID_BUFFER_SIZE (pid_text k s);
        if \<not> pk_copy_ok k then Some (- 1, [], s\<lparr>pd_log := pd_log s @ [''/proc/pid copy_to_user failed'' @ [newline]]\<rparr>)
        else Some (int (length buffer), buffer, s\<lparr>pd_complete := True\<rparr>)
      })"

text \<open>\<open>proc_write\<close> of \<open>count\<close> bytes \<open>text\<close>: they are copied to \<open>buffer\<close> whatever their number, and a NUL is stored behind them.\<close>

definition pid_write :: "pid_kernel \<Rightarrow> string \<Rightarrow> pid_module \<Rightarrow> (int \<times> pid_module) option" where
  "pid_write k text s = do {
     ensure (length text \<le> PID_BUFFER_SIZE);
     if \<not> pk_copy_ok k then Some (- 1, s\<lparr>pd_log := pd_log s @ [''/proc/pid copy_from_user failed'' @ [newline]]\<rparr>)
     else do {
       ensure (length text < PID_BUFFER_SIZE);
       case pk_kstrtoint k text of
         None \<Rightarrow> Some (- 1, s\<lparr>pd_log := pd_log s @ [''/proc/pid kstrtoint failed'' @ [newline]]\<rparr>)
       | Some n \<Rightarrow> Some (int (length text), s\<lparr>pd_pid := n\<rparr>)
     }
   }"

section \<open>The texts fit the buffers\<close>

lemma length_nat_digits: "n < 10 ^ Suc k \<Longrightarrow> length (nat_digits n) \<le> Suc k"
proof (induction k arbitrary: n)
  case 0
  then show ?case by (subst nat_digits.simps) simp
next
  case (Suc k)
  then have "n div 10 < 10 ^ Suc k" by (simp add: less_mult_imp_div_less)
  with Suc.IH [OF this] show ?case by (subst nat_digits.simps) simp
qed

lemma length_fmt_llu: "length (fmt_llu w) \<le> 20"
proof -
  have "unat w < 2 ^ 64" using unsigned_less [of w] by simp
  also have "(2::nat) ^ 64 < 10 ^ Suc 19" by simp
  finally show ?thesis unfolding fmt_llu_def using length_nat_digits [of "unat w" 19] by simp
qed

lemma length_fmt_d:
  assumes "- (2 ^ 31) \<le> n" "n < 2 ^ 31"
  shows "length (fmt_d n) \<le> 11"
proof -
  have "nat (- n) < 10 ^ Suc 9" "nat n < 10 ^ Suc 9" using assms by auto
  then show ?thesis using length_nat_digits [of "nat (- n)" 9] length_nat_digits [of "nat n" 9] by (auto simp: fmt_d_def)
qed

lemma fmt_llu_fits: "sprintf PROC_BUFFER_SIZE (fmt_llu w @ [newline]) = Some (fmt_llu w @ [newline])"
  using length_fmt_llu [of w] by (simp add: sprintf_def PROC_BUFFER_SIZE_def)

text \<open>The names of tasks have at most 15 characters, and \<open>pid\<close>s and states are C integers.\<close>

definition int32 :: "int \<Rightarrow> bool" where
  "int32 n \<longleftrightarrow> - (2 ^ 31) \<le> n \<and> n < 2 ^ 31"

definition tasks_ok :: "pid_kernel \<Rightarrow> bool" where
  "tasks_ok k \<longleftrightarrow> (\<forall>p t. pk_task k p = Some t \<longrightarrow> length (tk_comm t) \<le> 15 \<and> int32 (tk_pid t) \<and> int32 (tk_state t))"

lemma length_no_process: "int32 p \<Longrightarrow> length (no_process p) < PID_BUFFER_SIZE"
  using length_fmt_d [of p] by (simp add: no_process_def PID_BUFFER_SIZE_def int32_def)

lemma pid_text_fits:
  assumes "tasks_ok k" "int32 (pd_pid s)"
  shows "sprintf PID_BUFFER_SIZE (pid_text k s) = Some (pid_text k s)"
proof -
  have "length (pid_text k s) < PID_BUFFER_SIZE"
  proof (cases "pk_known k (pd_pid s)")
    case True
    show ?thesis
    proof (cases "pk_task k (pd_pid s)")
      case (Some t)
      then have "length (tk_comm t) \<le> 15" "length (fmt_d (tk_pid t)) \<le> 11" "length (fmt_d (tk_state t)) \<le> 11"
        using assms(1) length_fmt_d by (auto simp: tasks_ok_def int32_def)
      then show ?thesis using True Some by (simp add: pid_text_def PID_BUFFER_SIZE_def)
    qed (use True assms length_no_process in \<open>simp add: pid_text_def\<close>)
  qed (use assms length_no_process in \<open>simp add: pid_text_def\<close>)
  then show ?thesis by (simp add: sprintf_def)
qed

section \<open>The three files\<close>

interpretation jiffies: proc_file jiffies_read jm_complete "\<lambda>k s. fmt_llu (jk_jiffies k) @ [newline]" "\<lambda>s. s\<lparr>jm_complete := True\<rparr>" "\<lambda>k s. jk_copy_ok k"
  by unfold_locales (simp_all add: jiffies_read_def fmt_llu_fits)

interpretation seconds: proc_file seconds_read sm_complete
  "\<lambda>k s. fmt_llu (sk_msecs k (sk_jiffies k - sm_init_time s) div 1000) @ [newline]" "\<lambda>s. s\<lparr>sm_complete := True\<rparr>" "\<lambda>k s. sk_copy_ok k"
  by unfold_locales (simp_all add: seconds_read_def fmt_llu_fits)

interpretation pid: proc_file pid_read pd_complete pid_text "\<lambda>s. s\<lparr>pd_complete := True\<rparr>" "\<lambda>k s. pk_copy_ok k \<and> tasks_ok k \<and> int32 (pd_pid s)"
proof unfold_locales
  show "pid_text k s \<noteq> []" for k s by (simp add: pid_text_def no_process_def split: option.split)
qed (simp_all add: pid_read_def pid_text_fits)

section \<open>Property\<close>


definition sample_kernel :: pid_kernel where
  "sample_kernel = \<lparr>pk_known = (\<lambda>p. p = 1), pk_task = (\<lambda>p. if p = 1 then Some \<lparr>tk_comm = ''init'', tk_pid = 1, tk_state = 1\<rparr> else None),
     pk_copy_ok = True, pk_kstrtoint = (\<lambda>t. if t = ''1'' then Some 1 else None)\<rparr>"


text \<open>128 bytes or more written to \<open>/proc/pid\<close> overrun the buffer.\<close>

lemma pid_write_overrun: "PID_BUFFER_SIZE \<le> length text \<Longrightarrow> pk_copy_ok k \<Longrightarrow> pid_write k text s = None"
  by (simp add: pid_write_def)

text \<open>A reader that opens the file while another one reads gets nothing.\<close>

lemma pid_second_reader:
  "\<not> pd_complete s \<Longrightarrow> pk_copy_ok k \<and> tasks_ok k \<and> int32 (pd_pid s) \<Longrightarrow>
    pid_read k s = Some (int (length (pid_text k s)), pid_text k s, s\<lparr>pd_complete := True\<rparr>) \<and> pid_read k' (s\<lparr>pd_complete := True\<rparr>) = Some (0, [], s)"
  by (rule pid.two_readers)

end
