(* ===== verification/Array_Loops.thy ===== *)
theory Array_Loops
  imports Prelude
begin

text \<open>Counting loops that update an array in place, one element per round.\<close>

text \<open>A loop over \<open>is\<close> that assigns \<open>f i (a[i])\<close> to \<open>a[i]\<close>: every element it visits once gets its value.\<close>

lemma fold_update_nth:
  assumes "distinct is" "\<forall>i \<in> set is. i < length a"
  shows "length (fold (\<lambda>i a. a[i := f i (a ! i)]) is a) = length a"
    and "j < length a \<Longrightarrow> fold (\<lambda>i a. a[i := f i (a ! i)]) is a ! j = (if j \<in> set is then f j (a ! j) else a ! j)"
  using assms by (induction "is" arbitrary: a) (auto simp: nth_list_update)

lemma fold_update_all: "fold (\<lambda>i a. a[i := f i (a ! i)]) [0..<length a] a = map (\<lambda>i. f i (a ! i)) [0..<length a]"
  by (rule nth_equalityI) (auto simp: fold_update_nth simp del: upt_Suc)

text \<open>Writing \<open>f i\<close>, whatever the element was.\<close>

lemma fold_write_all: "length a = n \<Longrightarrow> fold (\<lambda>i a. a[i := f i]) [0..<n] a = map f [0..<n]"
  using fold_update_all [of "\<lambda>i _. f i" a] by simp

lemma fold_write_map:
  assumes "length a = n" "length xs = n"
  shows "fold (\<lambda>i a. a[i := g (xs ! i)]) [0..<n] a = map g xs"
  unfolding fold_write_all [OF assms(1)] using assms(2) by (simp add: list_eq_iff_nth_eq)

text \<open>Two nested loops with the index \<open>n * M + k\<close> are one loop.\<close>

lemma upt_product: "concat (map (\<lambda>n. map (\<lambda>k. n * M + k) [0..<M]) [0..<N]) = [0..<N * M]"
proof (induction N)
  case (Suc N)
  have "map (\<lambda>k. N * M + k) [0..<M] = [N * M..<N * M + M]" using map_add_upt [of "N * M" M] by (simp add: add.commute)
  then show ?case using Suc upt_add_eq_append [of 0 "N * M" M] by (simp add: add.commute)
qed simp

lemma fold_nested: "fold (\<lambda>n a. fold (\<lambda>k a. g (n * M + k) a) [0..<M] a) [0..<N] a = fold g [0..<N * M] a"
proof -
  have "fold (\<lambda>n a. fold (\<lambda>k a. g (n * M + k) a) [0..<M] a) [0..<N] a = fold g (concat (map (\<lambda>n. map (\<lambda>k. n * M + k) [0..<M]) [0..<N])) a"
    by (induction N) (auto simp: fold_map comp_def)
  then show ?thesis by (simp only: upt_product)
qed

lemma div_mod_index: "k < (M::nat) \<Longrightarrow> (n * M + k) div M = n \<and> (n * M + k) mod M = k"
  by simp

lemma fold_nested_update:
  assumes "length a = N * M"
  shows "fold (\<lambda>n a. fold (\<lambda>k a. a[n * M + k := f n k (a ! (n * M + k))]) [0..<M] a) [0..<N] a =
    map (\<lambda>i. f (i div M) (i mod M) (a ! i)) [0..<N * M]"
proof -
  have "fold (\<lambda>k a. a[n * M + k := f n k (a ! (n * M + k))]) [0..<M] a =
      fold (\<lambda>k a. a[n * M + k := f ((n * M + k) div M) ((n * M + k) mod M) (a ! (n * M + k))]) [0..<M] a" for n a
    by (rule fold_cong) (auto simp del: upt_Suc)
  then show ?thesis using fold_nested [where M = M and N = N and a = a and g = "\<lambda>i a. a[i := f (i div M) (i mod M) (a ! i)]"]
      fold_update_all [where f = "\<lambda>i. f (i div M) (i mod M)" and a = a] assms by simp
qed

end
