(* ===== verification/Kprintf.thy ===== *)
theory Kprintf
  imports C_Int
begin

text \<open>
  \<open>EE0503 Design of Domain-Specific Accelerators/Final Project/code/release/baremetal/kprintf.c\<close>: \<open>printf\<close> on a UART.
  The status register is a parameter, the value of its \<open>t\<close>-th read; the characters sent are the state.  Arguments
  are 64-bit registers or strings.  \<open>None\<close> is an argument that is missing or of the wrong kind, or a wait that does not end.
\<close>

unbundle bit_operations_syntax

section \<open>The UART\<close>

definition SR_TX_FIFO_FULL :: "32 word" where
  "SR_TX_FIFO_FULL = push_bit 3 1"

record uart =
  ut_reads :: nat
  ut_sent :: string

partial_function (option) wait_tx :: "(nat \<Rightarrow> 32 word) \<Rightarrow> nat \<Rightarrow> nat option" where
  "wait_tx status t = (if status t AND SR_TX_FIFO_FULL \<noteq> 0 then wait_tx status (t + 1) else Some (t + 1))"

definition kputc :: "(nat \<Rightarrow> 32 word) \<Rightarrow> char \<Rightarrow> uart \<Rightarrow> uart option" where
  "kputc status ch u = do { t \<leftarrow> wait_tx status (ut_reads u); Some (u\<lparr>ut_reads := t, ut_sent := ut_sent u @ [ch]\<rparr>) }"

text \<open>A loop \<open>while (*s) kputc(*s++)\<close>.\<close>

fun kput_chars :: "(nat \<Rightarrow> 32 word) \<Rightarrow> string \<Rightarrow> uart \<Rightarrow> uart option" where
  "kput_chars status [] u = Some u"
| "kput_chars status (c # cs) u = (if c = CHR 0x00 then Some u else do { u \<leftarrow> kputc status c u; kput_chars status cs u })"

definition kputs :: "(nat \<Rightarrow> 32 word) \<Rightarrow> string \<Rightarrow> uart \<Rightarrow> uart option" where
  "kputs status s u = do { u \<leftarrow> kput_chars status s u; u \<leftarrow> kputc status carriage_return u; kputc status newline u }"

section \<open>Conversions\<close>

datatype karg = Reg "64 word" | Str string

text \<open>\<open>va_arg\<close> of the four integer types: an \<open>int\<close> is the low half of its register.\<close>

definition arg_unsigned :: "bool \<Rightarrow> 64 word \<Rightarrow> 64 word" where
  "arg_unsigned long w = (if long then w else ucast (ucast w :: 32 word))"

definition arg_signed :: "bool \<Rightarrow> 64 word \<Rightarrow> 64 word" where
  "arg_signed long w = (if long then w else scast (ucast w :: 32 word))"

definition hex_char :: "64 word \<Rightarrow> char" where
  "hex_char d = (if d < 10 then char_of (48 + unat d) else char_of (97 + unat d - 10))"

text \<open>The loop of \<open>%x\<close> over the \<open>k\<close> low digits, the highest first.\<close>

fun print_hex :: "(nat \<Rightarrow> 32 word) \<Rightarrow> 64 word \<Rightarrow> nat \<Rightarrow> uart \<Rightarrow> uart option" where
  "print_hex status n 0 u = Some u"
| "print_hex status n (Suc k) u = do { u \<leftarrow> kputc status (hex_char (drop_bit (4 * k) n AND 15)) u; print_hex status n k u }"

text \<open>The loops that fill \<open>buf\<close> from its end: \<open>i\<close> is the first used index, \<open>buf\<close> what is stored from there on.\<close>

function fill_d :: "int \<Rightarrow> nat \<Rightarrow> string \<Rightarrow> nat \<times> string" where
  "fill_d n i buf = (let buf = char_of (nat (cmod n 10 + 48)) # buf; i = i - 1; n = cdiv n 10 in
     if 0 < n \<and> 0 < i then fill_d n i buf else (i, buf))"
  by pat_completeness auto
termination
  by (relation "measure (\<lambda>(n, i, buf). i)") auto

function fill_u :: "nat \<Rightarrow> nat \<Rightarrow> string \<Rightarrow> nat \<times> string" where
  "fill_u n i buf = (if 0 < n then fill_u (n div 10) (i - 1) (char_of (48 + n mod 10) # buf) else (i, buf))"
  by pat_completeness auto
termination
  by (relation "measure (\<lambda>(n, i, buf). n)") auto

declare fill_d.simps [simp del] fill_u.simps [simp del]

definition print_d :: "(nat \<Rightarrow> 32 word) \<Rightarrow> 64 word \<Rightarrow> uart \<Rightarrow> uart option" where
  "print_d status w u = (let negative = w <s 0; n = (if negative then - w else w);
     (i, buf) = fill_d (sint n) 31 [] in
     kput_chars status (if negative then CHR ''-'' # buf else buf) u)"

definition print_u :: "(nat \<Rightarrow> 32 word) \<Rightarrow> 64 word \<Rightarrow> uart \<Rightarrow> uart option" where
  "print_u status w u = (let (i, buf) = (if w = 0 then (30, ''0'') else fill_u (unat w) 31 []) in kput_chars status buf u)"

section \<open>\<open>printf\<close>\<close>

record flags =
  is_format :: bool
  is_long :: bool
  is_long_long :: bool
  is_char :: bool

definition no_flags :: flags where
  "no_flags = \<lparr>is_format = False, is_long = False, is_long_long = False, is_char = False\<rparr>"

fun next_reg :: "karg list \<Rightarrow> (64 word \<times> karg list) option" where
  "next_reg (Reg w # args) = Some (w, args)"
| "next_reg args = None"

fun next_str :: "karg list \<Rightarrow> (string \<times> karg list) option" where
  "next_str (Str s # args) = Some (s, args)"
| "next_str args = None"

text \<open>The \<open>switch\<close> on a conversion character other than \<open>l\<close> and \<open>h\<close>; an unknown one prints nothing.\<close>

definition convert :: "(nat \<Rightarrow> 32 word) \<Rightarrow> flags \<Rightarrow> char \<Rightarrow> karg list \<Rightarrow> uart \<Rightarrow> (karg list \<times> uart) option" where
  "convert status f c args u = (let long = is_long_long f \<or> is_long f in
     if c = CHR ''x'' then do {
       (w, args) \<leftarrow> next_reg args;
       u \<leftarrow> print_hex status (arg_unsigned long w) (if long then 16 else if is_char f then 2 else 8) u;
       Some (args, u) }
     else if c = CHR ''d'' then do { (w, args) \<leftarrow> next_reg args; u \<leftarrow> print_d status (arg_signed long w) u; Some (args, u) }
     else if c = CHR ''u'' then do { (w, args) \<leftarrow> next_reg args; u \<leftarrow> print_u status (arg_unsigned long w) u; Some (args, u) }
     else if c = CHR ''s'' then do { (s, args) \<leftarrow> next_str args; u \<leftarrow> kput_chars status s u; Some (args, u) }
     else if c = CHR ''c'' then do { (w, args) \<leftarrow> next_reg args; u \<leftarrow> kputc status (char_of (unat w mod 256)) u; Some (args, u) }
     else Some (args, u))"

fun printf_loop :: "(nat \<Rightarrow> 32 word) \<Rightarrow> flags \<Rightarrow> string \<Rightarrow> karg list \<Rightarrow> uart \<Rightarrow> uart option" where
  "printf_loop status f [] args u = Some u"
| "printf_loop status f (c # fmt) args u =
     (if c = CHR 0x00 then Some u
      else if is_format f then
        if c = CHR ''l'' then printf_loop status (f\<lparr>is_long_long := is_long f \<or> is_long_long f, is_long := True\<rparr>) fmt args u
        else if c = CHR ''h'' then printf_loop status (f\<lparr>is_char := True\<rparr>) fmt args u
        else do { (args, u) \<leftarrow> convert status f c args u; printf_loop status no_flags fmt args u }
      else if c = CHR ''%'' then printf_loop status (f\<lparr>is_format := True\<rparr>) fmt args u
      else if c = newline then do { u \<leftarrow> kputc status carriage_return u; u \<leftarrow> kputc status newline u; printf_loop status f fmt args u }
      else do { u \<leftarrow> kputc status c u; printf_loop status f fmt args u })"

definition printf :: "(nat \<Rightarrow> 32 word) \<Rightarrow> string \<Rightarrow> karg list \<Rightarrow> uart \<Rightarrow> uart option" where
  "printf status fmt args u = printf_loop status no_flags fmt args u"

section \<open>Sending\<close>

text \<open>The transmitter does not stay full for ever.\<close>

definition drains :: "(nat \<Rightarrow> 32 word) \<Rightarrow> bool" where
  "drains status \<longleftrightarrow> (\<forall>t. \<exists>t' \<ge> t. status t' AND SR_TX_FIFO_FULL = 0)"

lemma wait_tx_ends:
  assumes "drains status"
  shows "\<exists>t'. wait_tx status t = Some t'"
proof -
  obtain d where "status (t + d) AND SR_TX_FIFO_FULL = 0" using assms by (metis drains_def le_Suc_ex)
  then show ?thesis
  proof (induction d arbitrary: t)
    case 0
    then show ?case by (subst wait_tx.simps) simp
  next
    case (Suc d)
    then show ?case by (cases "status t AND SR_TX_FIFO_FULL = 0"; subst wait_tx.simps) auto
  qed
qed

text \<open>\<open>sends m s\<close>: the action \<open>m\<close> ends and sends the characters \<open>s\<close>.\<close>

definition sends :: "(uart \<Rightarrow> uart option) \<Rightarrow> string \<Rightarrow> bool" where
  "sends m s \<longleftrightarrow> (\<forall>u. \<exists>u'. m u = Some u' \<and> ut_sent u' = ut_sent u @ s)"

lemma sends_nothing [intro]: "sends Some []"
  by (simp add: sends_def)

lemma sends_bind [intro]: "sends m s \<Longrightarrow> sends m' t \<Longrightarrow> sends (\<lambda>u. m u \<bind> m') (s @ t)"
  unfolding sends_def by (metis append.assoc bind.bind_lunit)

lemma sends_kputc: "drains status \<Longrightarrow> sends (kputc status c) [c]"
  unfolding sends_def
proof
  fix u :: uart assume "drains status"
  then obtain t where "wait_tx status (ut_reads u) = Some t" using wait_tx_ends by blast
  then show "\<exists>u'. kputc status c u = Some u' \<and> ut_sent u' = ut_sent u @ [c]" by (simp add: kputc_def)
qed

lemma sends_kput_chars: "drains status \<Longrightarrow> CHR 0x00 \<notin> set s \<Longrightarrow> sends (kput_chars status s) s"
proof (induction s)
  case Nil
  then show ?case by (simp add: sends_def)
next
  case (Cons c s)
  have "sends (\<lambda>u. kputc status c u \<bind> kput_chars status s) ([c] @ s)" using Cons by (intro sends_bind sends_kputc) auto
  moreover have "c \<noteq> CHR 0x00" using Cons.prems by auto
  ultimately show ?case by (simp add: sends_def)
qed

section \<open>The conversions send decimal and hexadecimal numerals\<close>

lemma fill_d_digits: "n < 10 ^ i \<Longrightarrow> 0 < i \<Longrightarrow> snd (fill_d (int n) i buf) = nat_digits n @ buf"
proof (induction n arbitrary: i buf rule: nat_digits.induct)
  case (1 n)
  have digit: "nat (int n mod 10 + 48) = 48 + n mod 10" by (simp add: nat_add_distrib nat_mod_distrib)
  have tenth: "int n div 10 = int (n div 10)" by (simp add: zdiv_int)
  show ?case
  proof (cases "n < 10")
    case True
    then show ?thesis by (subst fill_d.simps, subst nat_digits.simps) (simp add: digit Let_def)
  next
    case False
    then have "1 < i" using "1.prems" by (cases i; cases "i - 1") auto
    moreover have "n div 10 < 10 ^ (i - 1)" using "1.prems" by (cases i) (auto simp: less_mult_imp_div_less mult.commute)
    ultimately have "snd (fill_d (int (n div 10)) (i - 1) (char_of (48 + n mod 10) # buf)) = nat_digits (n div 10) @ char_of (48 + n mod 10) # buf"
      using "1.IH" [OF False, of "i - 1" "char_of (48 + n mod 10) # buf"] by simp
    then show ?thesis using False \<open>1 < i\<close> by (subst fill_d.simps, subst nat_digits.simps) (simp add: digit tenth Let_def)
  qed
qed

lemma fill_u_digits: "0 < n \<Longrightarrow> snd (fill_u n i buf) = nat_digits n @ buf"
proof (induction n arbitrary: i buf rule: nat_digits.induct)
  case (1 n)
  show ?case
  proof (cases "n < 10")
    case True
    then show ?thesis using "1.prems" by (subst fill_u.simps, subst fill_u.simps, subst nat_digits.simps) simp
  next
    case False
    then show ?thesis using "1.IH" [of "i - 1" "char_of (48 + n mod 10) # buf"]
      by (subst fill_u.simps, subst nat_digits.simps) simp
  qed
qed

lemma nat_digits_0 [simp]: "nat_digits 0 = ''0''"
  by code_simp

lemma no_nul_digits: "CHR 0x00 \<notin> set (nat_digits n)"
  using nat_digits_digits [of n] by (auto simp: is_digit_def)

lemma sends_print_u: "drains status \<Longrightarrow> sends (print_u status w) (nat_digits (unat w))"
proof -
  assume "drains status"
  moreover have "snd (if w = 0 then (30, ''0'') else fill_u (unat w) 31 []) = nat_digits (unat w)"
    using fill_u_digits [of "unat w" 31 "[]"] by (auto simp: unat_gt_0)
  ultimately show ?thesis unfolding print_u_def case_prod_unfold Let_def using sends_kput_chars no_nul_digits by metis
qed

lemma sends_print_d:
  assumes "drains status" "sint w \<noteq> - (2 ^ 63)"
  shows "sends (print_d status w) (fmt_d (sint w))"
proof -
  have bounds: "- (2 ^ 63) \<le> sint w" "sint w < 2 ^ 63" using sint_ge [of w] sint_lt [of w] by auto
  have "sint (word_of_int (- sint w) :: 64 word) = - sint w"
    using bounds assms(2) by (subst signed_of_int, subst signed_take_bit_int_eq_self) auto
  then have neg: "sint (- w) = - sint w" by simp
  have sign: "w <s 0 \<longleftrightarrow> sint w < 0" by (simp add: word_sless_alt)
  have fill: "snd (fill_d m 31 []) = nat_digits (nat m)" if "0 \<le> m" "m < 2 ^ 63" for m
  proof -
    have "nat m < 10 ^ 31" using that by auto
    then show ?thesis using fill_d_digits [of "nat m" 31 "[]"] that by simp
  qed
  define buf where "buf = (if w <s 0 then CHR ''-'' # nat_digits (nat (- sint w)) else nat_digits (nat (sint w)))"
  have "print_d status w = kput_chars status buf"
    unfolding print_d_def case_prod_unfold Let_def buf_def using fill [of "- sint w"] fill [of "sint w"] bounds assms(2)
    by (auto simp: neg sign fun_eq_iff)
  moreover have "buf = fmt_d (sint w)" by (simp add: buf_def sign fmt_d_def)
  moreover have "CHR 0x00 \<notin> set (fmt_d (sint w))" by (auto simp: fmt_d_def no_nul_digits)
  ultimately show ?thesis using sends_kput_chars [OF assms(1)] by metis
qed

definition hex_string :: "nat \<Rightarrow> nat \<Rightarrow> string" where
  "hex_string k n = map (\<lambda>i. ''0123456789abcdef'' ! (n div 16 ^ i mod 16)) (rev [0..<k])"

lemma hex_char_digit: "unat d < 16 \<Longrightarrow> hex_char d = ''0123456789abcdef'' ! unat d"
proof -
  have "\<forall>i < 16. (if i < 10 then char_of (48 + i) else char_of (97 + i - 10)) = ''0123456789abcdef'' ! i" by code_simp
  moreover assume "unat d < 16"
  moreover have "d < 10 \<longleftrightarrow> unat d < 10" by (simp add: word_less_nat_alt)
  ultimately show ?thesis by (simp add: hex_char_def)
qed

lemma low_digit: "unat (drop_bit (4 * i) n AND 15) = unat n div 16 ^ i mod 16" for n :: "64 word"
proof -
  have "(15 :: 64 word) = mask 4" by (simp add: mask_eq_exp_minus_1)
  then have "drop_bit (4 * i) n AND 15 = take_bit 4 (drop_bit (4 * i) n)" by (simp add: take_bit_eq_mask)
  moreover have "unat (take_bit 4 (drop_bit (4 * i) n)) = take_bit 4 (drop_bit (4 * i) (unat n))"
    by (simp only: unsigned_take_bit_eq unat_drop_bit_eq)
  ultimately show ?thesis by (simp only: drop_bit_eq_div take_bit_eq_mod power_mult) simp
qed

lemma sends_print_hex: "drains status \<Longrightarrow> sends (print_hex status n k) (hex_string k (unat n))"
proof (induction k)
  case 0
  then show ?case by (simp add: sends_def hex_string_def)
next
  case (Suc k)
  have "sends (\<lambda>u. kputc status (hex_char (drop_bit (4 * k) n AND 15)) u \<bind> print_hex status n k)
      ([hex_char (drop_bit (4 * k) n AND 15)] @ hex_string k (unat n))"
    using Suc by (intro sends_bind sends_kputc)
  moreover have "hex_char (drop_bit (4 * k) n AND 15) = ''0123456789abcdef'' ! (unat n div 16 ^ k mod 16)"
    by (subst hex_char_digit) (simp_all add: low_digit)
  ultimately show ?case by (simp add: sends_def hex_string_def)
qed

section \<open>Format strings\<close>

text \<open>A format string as a list of pieces: plain text and conversions, \<open>long\<close> or not, with the register of the argument.\<close>

datatype piece = Plain string | Dec bool "64 word" | Uns bool "64 word" | Hex bool "64 word" | Byte "64 word" | Char "64 word" | Text string

fun piece_format :: "piece \<Rightarrow> string" where
  "piece_format (Plain s) = s"
| "piece_format (Dec l w) = (if l then ''%ld'' else ''%d'')"
| "piece_format (Uns l w) = (if l then ''%llu'' else ''%u'')"
| "piece_format (Hex l w) = (if l then ''%lx'' else ''%x'')"
| "piece_format (Byte w) = ''%hx''"
| "piece_format (Char w) = ''%c''"
| "piece_format (Text s) = ''%s''"

fun piece_args :: "piece \<Rightarrow> karg list" where
  "piece_args (Plain s) = []"
| "piece_args (Dec l w) = [Reg w]"
| "piece_args (Uns l w) = [Reg w]"
| "piece_args (Hex l w) = [Reg w]"
| "piece_args (Byte w) = [Reg w]"
| "piece_args (Char w) = [Reg w]"
| "piece_args (Text s) = [Str s]"

definition crlf :: "string \<Rightarrow> string" where
  "crlf s = concat (map (\<lambda>c. if c = newline then [carriage_return, newline] else [c]) s)"

text \<open>What a piece stands for, on the mathematical values of the arguments.\<close>

fun render :: "piece \<Rightarrow> string" where
  "render (Plain s) = crlf s"
| "render (Dec l w) = fmt_d (if l then sint w else sint (ucast w :: 32 word))"
| "render (Uns l w) = nat_digits (if l then unat w else unat w mod 2 ^ 32)"
| "render (Hex l w) = (if l then hex_string 16 (unat w) else hex_string 8 (unat w mod 2 ^ 32))"
| "render (Byte w) = hex_string 2 (unat w mod 2 ^ 32)"
| "render (Char w) = [char_of (unat w mod 256)]"
| "render (Text s) = s"

fun piece_ok :: "piece \<Rightarrow> bool" where
  "piece_ok (Plain s) \<longleftrightarrow> CHR ''%'' \<notin> set s \<and> CHR 0x00 \<notin> set s"
| "piece_ok (Dec l w) \<longleftrightarrow> \<not> l \<or> sint w \<noteq> - (2 ^ 63)"
| "piece_ok (Text s) \<longleftrightarrow> CHR 0x00 \<notin> set s"
| "piece_ok p \<longleftrightarrow> True"

lemma sends_cong: "(\<And>u. m u = m' u) \<Longrightarrow> sends m' s \<Longrightarrow> sends m s"
  by (simp add: sends_def)

lemma arg_unsigned_nat: "unat (arg_unsigned l w) = (if l then unat w else unat w mod 2 ^ 32)"
  by (simp add: arg_unsigned_def unsigned_ucast_eq take_bit_eq_mod unat_mod)

lemma arg_signed_int: "sint (arg_signed l w) = (if l then sint w else sint (ucast w :: 32 word))"
proof -
  have "sint (scast v :: 64 word) = sint v" for v :: "32 word"
    using sint_ge [of v] sint_lt [of v] by (simp add: signed_scast_eq signed_take_bit_int_eq_self)
  then show ?thesis by (simp add: arg_signed_def)
qed

lemma sends_plain:
  assumes "drains status" "sends (printf_loop status no_flags fmt args) t" "CHR ''%'' \<notin> set s" "CHR 0x00 \<notin> set s"
  shows "sends (printf_loop status no_flags (s @ fmt) args) (crlf s @ t)"
  using assms(3,4)
proof (induction s)
  case Nil
  then show ?case using assms(2) by (simp add: crlf_def)
next
  case (Cons c s)
  let ?rest = "printf_loop status no_flags (s @ fmt) args"
  have rest: "sends ?rest (crlf s @ t)" using Cons by simp
  show ?case
  proof (cases "c = newline")
    case True
    have "sends (\<lambda>u. kputc status carriage_return u \<bind> (\<lambda>u. kputc status newline u \<bind> ?rest)) ([carriage_return] @ [newline] @ crlf s @ t)"
      using rest assms(1) by (intro sends_bind sends_kputc)
    then show ?thesis using True Cons.prems by (simp add: sends_def no_flags_def crlf_def)
  next
    case False
    have "sends (\<lambda>u. kputc status c u \<bind> ?rest) ([c] @ crlf s @ t)"
      using rest assms(1) by (intro sends_bind sends_kputc)
    then show ?thesis using False Cons.prems by (auto simp add: sends_def no_flags_def crlf_def)
  qed
qed

text \<open>A conversion that consumes one argument sends its text, and the rest of the format its own.\<close>

lemma sends_conversion:
  assumes "sends m s" "sends (printf_loop status no_flags fmt args) t"
  shows "sends (\<lambda>u. m u \<bind> (\<lambda>u. printf_loop status no_flags fmt args u)) (s @ t)"
  using assms by (rule sends_bind)

lemma sends_piece:
  assumes d: "drains status" and rest: "sends (printf_loop status no_flags fmt args) t" and ok: "piece_ok p"
  shows "sends (printf_loop status no_flags (piece_format p @ fmt) (piece_args p @ args)) (render p @ t)"
proof (cases p)
  case (Plain s)
  then show ?thesis using sends_plain [OF d rest] ok by simp
next
  case (Dec l w)
  have "sint (arg_signed l w) \<noteq> - (2 ^ 63)"
    using ok Dec sint_ge [of "ucast w :: 32 word"] by (auto simp: arg_signed_int)
  from sends_print_d [OF d this] have "sends (print_d status (arg_signed l w)) (render p)" unfolding arg_signed_int using Dec by simp
  from sends_conversion [OF this rest] show ?thesis
    using Dec by (rule_tac sends_cong) (auto simp: no_flags_def convert_def Let_def)
next
  case (Uns l w)
  have "sends (print_u status (arg_unsigned l w)) (render p)" using sends_print_u [OF d, of "arg_unsigned l w"] Uns by (simp add: arg_unsigned_nat)
  from sends_conversion [OF this rest] show ?thesis
    using Uns by (rule_tac sends_cong) (auto simp: no_flags_def convert_def Let_def)
next
  case (Hex l w)
  have "sends (print_hex status (arg_unsigned l w) (if l then 16 else 8)) (render p)"
    using sends_print_hex [OF d, of "arg_unsigned l w" "if l then 16 else 8"] Hex unfolding arg_unsigned_nat by (cases l) simp_all
  from sends_conversion [OF this rest] show ?thesis
    using Hex by (rule_tac sends_cong) (auto simp: no_flags_def convert_def Let_def)
next
  case (Byte w)
  have "sends (print_hex status (arg_unsigned False w) 2) (render p)"
    using sends_print_hex [OF d, of "arg_unsigned False w" 2] Byte by (simp add: arg_unsigned_nat)
  from sends_conversion [OF this rest] show ?thesis
    using Byte by (rule_tac sends_cong) (auto simp: no_flags_def convert_def Let_def)
next
  case (Char w)
  then have "sends (kputc status (char_of (unat w mod 256))) (render p)" using sends_kputc [OF d] by simp
  from sends_conversion [OF this rest] show ?thesis
    using Char by (rule_tac sends_cong) (auto simp: no_flags_def convert_def Let_def)
next
  case (Text s)
  then have "sends (kput_chars status s) (render p)" using sends_kput_chars [OF d] ok by simp
  from sends_conversion [OF this rest] show ?thesis
    using Text by (rule_tac sends_cong) (auto simp: no_flags_def convert_def Let_def)
qed

lemma sends_pieces:
  assumes "drains status" "\<forall>p \<in> set ps. piece_ok p"
  shows "sends (printf status (concat (map piece_format ps)) (concat (map piece_args ps))) (concat (map render ps))"
  unfolding printf_def using assms(2)
proof (induction ps)
  case Nil
  then show ?case by (simp add: sends_def)
next
  case (Cons p ps)
  then show ?case using sends_piece [OF assms(1)] by simp
qed

section \<open>Property\<close>

text \<open>
  C29 (equivalence). When the transmitter does not stay full for ever, \<open>printf\<close> on a format of plain text and conversions \<open>%d %ld %u
  %llu %x %lx %hx %c %s\<close> returns and sends exactly the text they stand for, each newline as carriage return and newline.  The one
  exception is the least 64-bit number under \<open>%ld\<close>.
\<close>

theorem kprintf_sends:
  assumes "drains status" "\<forall>p \<in> set ps. piece_ok p"
  shows "\<exists>u'. printf status (concat (map piece_format ps)) (concat (map piece_args ps)) u = Some u' \<and>
    ut_sent u' = ut_sent u @ concat (map render ps)"
  using sends_pieces [OF assms] by (simp add: sends_def)

theorem kprintf_sends_witness:
  "\<exists>u'. printf (\<lambda>t. if even t then 8 else 0) (''x = %d (0x%x)'' @ [newline]) [Reg (- 7), Reg 255] \<lparr>ut_reads = 0, ut_sent = []\<rparr> = Some u' \<and>
    ut_sent u' = ''x = -7 (0x000000ff)'' @ [carriage_return, newline]"
proof -
  let ?ps = "[Plain ''x = '', Dec False (- 7), Plain '' (0x'', Hex False 255, Plain ('')'' @ [newline])]"
  have "drains (\<lambda>t. if even t then 8 else 0)"
    unfolding drains_def
  proof
    fix t :: nat
    show "\<exists>t' \<ge> t. (if even t' then 8 else 0 :: 32 word) AND SR_TX_FIFO_FULL = 0" by (rule exI [of _ "if even t then Suc t else t"]) simp
  qed
  moreover have "\<forall>p \<in> set ?ps. piece_ok p" by simp
  ultimately have "\<exists>u'. printf (\<lambda>t. if even t then 8 else 0) (concat (map piece_format ?ps)) (concat (map piece_args ?ps)) \<lparr>ut_reads = 0, ut_sent = []\<rparr> = Some u' \<and>
      ut_sent u' = ut_sent \<lparr>ut_reads = 0, ut_sent = []\<rparr> @ concat (map render ?ps)"
    by (rule kprintf_sends)
  moreover have minus_seven: "fmt_d (- 7) = ''-7''" by code_simp
  moreover have "concat (map render ?ps) = ''x = -7 (0x000000ff)'' @ [carriage_return, newline]" by (simp add: crlf_def minus_seven hex_string_def upt_rec)
  moreover have "concat (map piece_format ?ps) = ''x = %d (0x%x)'' @ [newline]" "concat (map piece_args ?ps) = [Reg (- 7), Reg 255]" by simp_all
  ultimately show ?thesis by (simp only: uart.select_convs append_Nil)
qed

text \<open>The least 64-bit number is printed as \<open>-(\<close>.\<close>

lemma print_d_least: "drains status \<Longrightarrow> sends (print_d status (push_bit 63 1)) ''-(''"
proof -
  assume "drains status"
  moreover have "snd (fill_d (sint (- push_bit 63 1 :: 64 word)) 31 []) = ''(''" by (subst fill_d.simps) (simp, code_simp)
  moreover have "(push_bit 63 1 :: 64 word) <s 0" by code_simp
  ultimately show ?thesis unfolding print_d_def case_prod_unfold Let_def using sends_kput_chars [of status "''-(''"] by simp
qed

end
