(* ===== verification/Neural_Net.thy ===== *)
theory Neural_Net
  imports Array_Loops Kprintf
begin

text \<open>
  The inference program of \<open>EE0503 Design of Domain-Specific Accelerators/Final Project/code/release/baremetal\<close>: \<open>nn_math.c\<close>, \<open>nn.c\<close>,
  \<open>mlp.c\<close>, \<open>main.c\<close>, \<open>mat_mult_acc.c\<close> and \<open>ISA.h\<close>, in 32-bit and 8-bit words.

  The accelerator is a parameter: from the instructions it is given and the arrays in memory, by their address, it
  gives what it stores.  The images, the labels and the weights of the first two layers are parameters too; they are generated
  tables.  An array a function declares starts as zeros; each element is written before it is read.
\<close>

type_synonym int8 = "8 word"
type_synonym int32 = "32 word"

section \<open>\<open>nn_math.c\<close>\<close>

definition ROUND_CONST :: int32 where
  "ROUND_CONST = push_bit 15 1"

abbreviation fxp_int :: "int32 \<Rightarrow> int32" where
  "fxp_int x \<equiv> signed_drop_bit 16 (x + ROUND_CONST)"

definition get_output_dim :: "int \<Rightarrow> int \<Rightarrow> int \<Rightarrow> int" where
  "get_output_dim input_dim kernel_size stride = cdiv (input_dim - (kernel_size - 1) - 1) stride + 1"

definition max0 :: "int32 \<Rightarrow> int32" where
  "max0 a = (if 0 <s a then a else 0)"

definition relu :: "int32 list \<Rightarrow> nat \<Rightarrow> int32 list" where
  "relu tensor n = fold (\<lambda>i t. t[i := max0 (t ! i)]) [0..<n] tensor"

definition quantize_value :: "int32 \<Rightarrow> int32 \<Rightarrow> int32 \<Rightarrow> int8" where
  "quantize_value s s_inv x = (
     let s_int = fxp_int s;
         s_frac = s - push_bit 16 s_int;
         t_int = fxp_int x
     in if 127 * s_inv <s t_int then 127
        else if t_int <s (- 127) * s_inv then - 127
        else
          let t_frac = x - push_bit 16 t_int;
              r = t_int * s_frac + s_int * t_frac;
              r = r + fxp_int (t_frac * s_frac);
              r = fxp_int r + t_int * s_int
          in ucast r)"

definition quantize :: "int32 list \<Rightarrow> int8 list \<Rightarrow> int32 \<Rightarrow> int32 \<Rightarrow> nat \<Rightarrow> int8 list" where
  "quantize tensor_in tensor_q s s_inv n = fold (\<lambda>i q. q[i := quantize_value s s_inv (tensor_in ! i)]) [0..<n] tensor_q"

definition dequantize_value :: "int32 \<Rightarrow> int32 \<Rightarrow> int32 \<Rightarrow> int32" where
  "dequantize_value w_inv x_inv v = (let out_value = w_inv * x_inv in
     if push_bit 16 1 <s out_value then v * fxp_int out_value else fxp_int (out_value * v))"

definition dequantize_per_row :: "int32 list \<Rightarrow> int32 list \<Rightarrow> int32 \<Rightarrow> nat \<Rightarrow> nat \<Rightarrow> int32 list" where
  "dequantize_per_row mat w_inv x_inv N M =
     fold (\<lambda>n mat. fold (\<lambda>k mat. mat[n * M + k := dequantize_value (w_inv ! k) x_inv (mat ! (n * M + k))]) [0..<M] mat) [0..<N] mat"

definition dequantize_per_channel :: "int32 list \<Rightarrow> int32 list \<Rightarrow> int32 \<Rightarrow> nat \<Rightarrow> nat \<Rightarrow> nat \<Rightarrow> int32 list" where
  "dequantize_per_channel tensor amax_w amax_x N C K =
     fold (\<lambda>n t. fold (\<lambda>c t. fold (\<lambda>k t. t[n * C + c * K + k := dequantize_value (amax_w ! c) amax_x (t ! (n * C + c * K + k))])
       [0..<K] t) [0..<C] t) [0..<N] tensor"

definition argmax_row :: "int32 list \<Rightarrow> nat \<Rightarrow> nat \<Rightarrow> nat" where
  "argmax_row mat n M = snd (fold (\<lambda>m (row_max, max_idx). let value = mat ! (n * M + m) in
     if row_max <s value then (value, m) else (row_max, max_idx)) [0..<M] (mat ! (n * M), 0))"

definition argmax_over_cols :: "int32 list \<Rightarrow> nat list \<Rightarrow> nat \<Rightarrow> nat \<Rightarrow> nat list" where
  "argmax_over_cols mat indices N M = fold (\<lambda>n ix. ix[n := argmax_row mat n M]) [0..<N] indices"

section \<open>\<open>ISA.h\<close> and \<open>mat_mult_acc.c\<close>\<close>

datatype rocc_op = OP_LOAD | OP_STORE | OP_INFO | OP_COMPUTE

record rocc =
  rc_op :: rocc_op
  rc_rs1 :: "64 word"
  rc_rs2 :: "32 word"

definition rs1_of :: "32 word \<Rightarrow> 32 word \<Rightarrow> 64 word" where
  "rs1_of high low = push_bit 32 (ucast high) + ucast low"

definition load_data :: "32 word \<Rightarrow> 32 word \<Rightarrow> 32 word \<Rightarrow> rocc" where
  "load_data dram chip len = \<lparr>rc_op = OP_LOAD, rc_rs1 = rs1_of len chip, rc_rs2 = dram\<rparr>"

definition store_data :: "32 word \<Rightarrow> 32 word \<Rightarrow> 32 word \<Rightarrow> rocc" where
  "store_data dram chip len = \<lparr>rc_op = OP_STORE, rc_rs1 = rs1_of len chip, rc_rs2 = dram\<rparr>"

definition mat_info :: "32 word \<Rightarrow> 32 word \<Rightarrow> 32 word \<Rightarrow> rocc" where
  "mat_info N K M = \<lparr>rc_op = OP_INFO, rc_rs1 = rs1_of N K, rc_rs2 = M\<rparr>"

definition compute :: rocc where
  "compute = \<lparr>rc_op = OP_COMPUTE, rc_rs1 = 0, rc_rs2 = 0\<rparr>"

definition pad :: "32 word \<Rightarrow> 32 word \<Rightarrow> 32 word" where
  "pad n core = (n + core - 1) AND NOT (core - 1)"

definition MAX_MATA_ROW :: "32 word" where "MAX_MATA_ROW = 1"
definition MAX_MATA_COL :: "32 word" where "MAX_MATA_COL = 64"
definition MAX_MATB_ROW :: "32 word" where "MAX_MATB_ROW = 64"
definition MAX_MATB_COL :: "32 word" where "MAX_MATB_COL = 10"
definition CORESIZE :: "32 word" where "CORESIZE = 4"

definition onChipRAddr :: "32 word" where
  "onChipRAddr = pad MAX_MATA_ROW CORESIZE * pad MAX_MATA_COL CORESIZE"

definition onChipResAddr :: "32 word" where
  "onChipResAddr = onChipRAddr + pad MAX_MATB_ROW CORESIZE * pad MAX_MATB_COL CORESIZE"

type_synonym memory = "32 word \<Rightarrow> 64 word list"
type_synonym accelerator = "rocc list \<Rightarrow> memory \<Rightarrow> 64 word list"

text \<open>The addresses of the three buffers.\<close>

record buffers =
  l_at :: "32 word"
  r_at :: "32 word"
  res_at :: "32 word"

definition gemm_program :: "buffers \<Rightarrow> nat \<Rightarrow> nat \<Rightarrow> nat \<Rightarrow> rocc list" where
  "gemm_program b N K M =
     [mat_info (of_nat N) (of_nat K) (of_nat M),
      load_data (l_at b) 0 (of_nat (N * K)),
      load_data (r_at b) onChipRAddr (of_nat (K * M)),
      compute,
      store_data (res_at b) onChipResAddr (of_nat (N * M))]"

definition mat_mult_acc :: "accelerator \<Rightarrow> buffers \<Rightarrow> int8 list \<Rightarrow> int8 list \<Rightarrow> int32 list \<Rightarrow> nat \<Rightarrow> nat \<Rightarrow> nat \<Rightarrow> int32 list" where
  "mat_mult_acc acc b mat_l mat_r result N K M = (
     let l_buffer = fold (\<lambda>i a. a[i := scast (mat_l ! i)]) [0..<N * K] (replicate (N * K) 0);
         r_buffer = fold (\<lambda>i a. a[i := scast (mat_r ! i)]) [0..<K * M] (replicate (K * M) 0);
         memory = (\<lambda>_. [])(r_at b := r_buffer, l_at b := l_buffer);
         res_buffer = acc (gemm_program b N K M) memory
     in fold (\<lambda>i a. a[i := ucast (res_buffer ! i)]) [0..<N * M] result)"

definition mat_mult :: "accelerator \<Rightarrow> buffers \<Rightarrow> int8 list \<Rightarrow> int8 list \<Rightarrow> int32 list \<Rightarrow> nat \<Rightarrow> nat \<Rightarrow> nat \<Rightarrow> int32 list" where
  "mat_mult acc b mat_l mat_r result N K M = mat_mult_acc acc b mat_l mat_r result N K M"

section \<open>\<open>nn.c\<close>\<close>

definition linear_layer ::
  "accelerator \<Rightarrow> buffers \<Rightarrow> int32 list \<Rightarrow> int8 list \<Rightarrow> int32 list \<Rightarrow> int32 \<Rightarrow> int32 list \<Rightarrow> int32 \<Rightarrow> nat \<Rightarrow> nat \<Rightarrow> nat \<Rightarrow> bool \<Rightarrow> int32 list" where
  "linear_layer acc b x w out s_x s_w_inv s_x_inv N K M hidden_layer = (
     let x_q = quantize x (replicate (N * K) 0) s_x s_x_inv (N * K);
         out = mat_mult acc b x_q w out N K M;
         out = dequantize_per_row out s_w_inv s_x_inv N M
     in if hidden_layer then relu out (N * M) else out)"

section \<open>\<open>mlp_params.c\<close> and \<open>mlp.c\<close>\<close>

definition INPUT_DIM :: nat where "INPUT_DIM = 784"
definition H1 :: nat where "H1 = 128"
definition H2 :: nat where "H2 = 64"
definition OUTPUT_DIM :: nat where "OUTPUT_DIM = 10"

definition layer_1_s_x :: int32 where "layer_1_s_x = 2949889"
definition layer_1_s_x_inv :: int32 where "layer_1_s_x_inv = 1456"

definition layer_1_s_w_inv :: "int32 list" where
  "layer_1_s_w_inv = [59, 53, 62, 63, 45, 59, 45, 50, 49, 60, 24, 50, 56, 63, 45, 61, 41, 45, 51, 71, 73, 44, 61, 34, 52, 50,
     50, 73, 75, 56, 58, 49, 56, 54, 49, 58, 27, 70, 60, 50, 52, 52, 62, 73, 59, 56, 52, 49, 53, 47, 63, 65,
     68, 52, 45, 41, 54, 57, 44, 59, 61, 47, 52, 60, 51, 53, 53, 51, 55, 57, 68, 60, 57, 78, 66, 48, 48, 61,
     52, 51, 50, 56, 52, 43, 42, 58, 50, 62, 90, 57, 47, 54, 47, 70, 62, 52, 50, 61, 51, 61, 43, 53, 43, 48,
     91, 48, 60, 66, 45, 46, 48, 73, 53, 56, 52, 53, 46, 65, 54, 57, 62, 62, 50, 59, 48, 45, 50, 60]"

definition layer_2_s_x :: int32 where "layer_2_s_x = 394014"
definition layer_2_s_x_inv :: int32 where "layer_2_s_x_inv = 10901"

definition layer_2_s_w_inv :: "int32 list" where
  "layer_2_s_w_inv = [67, 110, 70, 74, 76, 87, 74, 83, 73, 80, 68, 93, 70, 58, 52, 62, 87, 75, 105, 87, 68, 73,
     71, 66, 76, 87, 73, 74, 90, 81, 51, 70, 62, 92, 64, 91, 99, 63, 87, 76, 77, 71, 82, 73,
     79, 49, 80, 85, 79, 69, 72, 91, 89, 70, 75, 70, 54, 81, 84, 80, 86, 75, 77, 72]"

definition layer_3_s_x :: int32 where "layer_3_s_x = 386789"
definition layer_3_s_x_inv :: int32 where "layer_3_s_x_inv = 11104"

definition layer_3_s_w_inv :: "int32 list" where
  "layer_3_s_w_inv = [90, 118, 98, 86, 104, 106, 93, 94, 100, 91]"

record weights =
  layer_1_weight :: "int8 list"
  layer_2_weight :: "int8 list"
  layer_3_weight :: "int8 list"

definition run_mlp :: "accelerator \<Rightarrow> buffers \<Rightarrow> weights \<Rightarrow> int32 list \<Rightarrow> nat \<Rightarrow> nat list \<Rightarrow> nat list" where
  "run_mlp acc b W x N class_indices = (
     let out_input = linear_layer acc b x (layer_1_weight W) (replicate (N * H1) 0) layer_1_s_x layer_1_s_w_inv layer_1_s_x_inv N INPUT_DIM H1 True;
         out_h1 = linear_layer acc b out_input (layer_2_weight W) (replicate (N * H2) 0) layer_2_s_x layer_2_s_w_inv layer_2_s_x_inv N H1 H2 True;
         out = linear_layer acc b out_h1 (layer_3_weight W) (replicate (N * OUTPUT_DIM) 0) layer_3_s_x layer_3_s_w_inv layer_3_s_x_inv N H2 OUTPUT_DIM False
     in argmax_over_cols out class_indices N OUTPUT_DIM)"

section \<open>\<open>main.c\<close>\<close>

definition IMAGE_SIZE :: nat where "IMAGE_SIZE = 28 * 28"
definition RUN_IMAGE_START :: nat where "RUN_IMAGE_START = 0"
definition RUN_IMAGE_NUM :: nat where "RUN_IMAGE_NUM = 10"

definition sample_format :: string where
  "sample_format = ''Sample %u: Predicted class: %u, Actual class: %u'' @ [newline]"

fun mlp_main_loop ::
  "accelerator \<Rightarrow> buffers \<Rightarrow> weights \<Rightarrow> int32 list \<Rightarrow> int8 list \<Rightarrow> (nat \<Rightarrow> 32 word) \<Rightarrow> nat list \<Rightarrow> nat \<Rightarrow> uart \<Rightarrow> (nat \<times> uart) option" where
  "mlp_main_loop acc b W images labels status [] correct u = Some (correct, u)"
| "mlp_main_loop acc b W images labels status (i # is) correct u = (
     let sample = drop (i * IMAGE_SIZE) images;
         class_index = run_mlp acc b W sample 1 [0] ! 0;
         correct = (if class_index = unat (labels ! i) then correct + 1 else correct)
     in do {
       u \<leftarrow> printf status sample_format [Reg (of_nat i), Reg (of_nat class_index), Reg (ucast (labels ! i))] u;
       mlp_main_loop acc b W images labels status is correct u })"

definition mlp_main :: "accelerator \<Rightarrow> buffers \<Rightarrow> weights \<Rightarrow> int32 list \<Rightarrow> int8 list \<Rightarrow> (nat \<Rightarrow> 32 word) \<Rightarrow> uart \<Rightarrow> uart option" where
  "mlp_main acc b W images labels status u = do {
     (correct, u) \<leftarrow> mlp_main_loop acc b W images labels status [RUN_IMAGE_START..<RUN_IMAGE_START + RUN_IMAGE_NUM] 0 u;
     printf status (''Correct predictions: %u/%u'' @ [newline]) [Reg (of_nat correct), Reg (of_nat RUN_IMAGE_NUM)] u
   }"

end
