(* ===== verification/Quantization.thy ===== *)
theory Quantization
  imports Neural_Net
begin

text \<open>
  The fixed-point arithmetic of \<open>quantize\<close> in \<open>nn_math.c\<close>, on the integers its 32-bit words stand for: it multiplies by the scale
  factor and rounds to the nearest integer, up to the rounding of the product of the fractions.
\<close>

section \<open>Words as integers\<close>

abbreviation int32_of :: "int \<Rightarrow> int32" where
  "int32_of n \<equiv> word_of_int n"

definition in32 :: "int \<Rightarrow> bool" where
  "in32 n \<longleftrightarrow> - 2147483648 \<le> n \<and> n < 2147483648"

lemma sint_int32_of: "in32 n \<Longrightarrow> sint (int32_of n) = n"
  by (simp add: in32_def signed_of_int signed_take_bit_int_eq_self)

lemma push_bit_int32_of: "push_bit 16 (int32_of n) = int32_of (n * 65536)"
  by (simp add: push_bit_eq_mult)

lemma fxp_int_int32_of:
  assumes "in32 (n + 32768)"
  shows "fxp_int (int32_of n) = int32_of ((n + 32768) div 65536)"
proof -
  have sum: "int32_of n + ROUND_CONST = int32_of (n + 32768)" by (simp add: ROUND_CONST_def push_bit_eq_mult)
  have "sint (signed_drop_bit 16 (int32_of (n + 32768))) = (n + 32768) div 65536"
    by (simp add: sint_signed_drop_bit_eq sint_int32_of [OF assms] drop_bit_eq_div del: of_int_add)
  from arg_cong [OF this, of int32_of] show ?thesis unfolding sum by (simp del: of_int_add)
qed

section \<open>The arithmetic\<close>

definition fxp_round :: "int \<Rightarrow> int" where
  "fxp_round n = (n + 32768) div 65536"

lemma fxp_round_bounds: "n - 32768 < fxp_round n * 65536 \<and> fxp_round n * 65536 \<le> n + 32768"
proof -
  define q where "q = (n + 32768) div 65536"
  define m where "m = (n + 32768) mod 65536"
  have "q * 65536 + m = n + 32768" unfolding q_def m_def by (rule div_mult_mod_eq)
  moreover have "0 \<le> m" "m < 65536" by (simp_all add: m_def)
  ultimately show ?thesis unfolding fxp_round_def q_def [symmetric] by linarith
qed

definition scaled :: "int \<Rightarrow> int \<Rightarrow> int" where
  "scaled s x = (
     let s_frac = s - fxp_round s * 65536; t_frac = x - fxp_round x * 65536;
         r = fxp_round x * s_frac + fxp_round s * t_frac
     in fxp_round (r + fxp_round (t_frac * s_frac)) + fxp_round x * fxp_round s)"

text \<open>The result is the product of the two fixed-point numbers, rounded twice.\<close>

lemma scaled_rounds: "\<bar>scaled s x * 4294967296 - x * s\<bar> \<le> 2147516416"
proof -
  define si sf ti tf where "si = fxp_round s" "sf = s - fxp_round s * 65536" "ti = fxp_round x" "tf = x - fxp_round x * 65536"
  note defs = this
  define r where "r = ti * sf + si * tf"
  define m where "m = r + fxp_round (tf * sf)"
  have x: "x = ti * 65536 + tf" and s: "s = si * 65536 + sf" by (simp_all add: defs)
  have product: "x * s = ti * si * 4294967296 + r * 65536 + tf * sf" unfolding x s r_def by (simp add: algebra_simps)
  have result: "scaled s x = fxp_round m + ti * si" by (simp add: scaled_def Let_def defs r_def m_def)
  have "\<bar>fxp_round m * 65536 - m\<bar> \<le> 32768" "\<bar>fxp_round (tf * sf) * 65536 - tf * sf\<bar> \<le> 32768"
    using fxp_round_bounds [of m] fxp_round_bounds [of "tf * sf"] by linarith+
  moreover have "scaled s x * 4294967296 - x * s = (fxp_round m * 65536 - m) * 65536 + (fxp_round (tf * sf) * 65536 - tf * sf)"
    unfolding product result m_def by (simp add: algebra_simps)
  moreover have "\<bar>a * 65536 + b\<bar> \<le> 2147516416" if "\<bar>a\<bar> \<le> 32768" "\<bar>b\<bar> \<le> 32768" for a b :: int using that by linarith
  ultimately show ?thesis by simp
qed

lemma product_bound:
  assumes "\<bar>a\<bar> \<le> A" "\<bar>b\<bar> \<le> (B::int)"
  shows "\<bar>a * b\<bar> \<le> A * B"
  using assms by (simp add: abs_mult mult_mono)

text \<open>No step overflows 32 bits.\<close>

lemma quantize_value_scaled:
  assumes x: "x = int32_of X" "- 2147483648 \<le> X" "X < 2147450880"
    and s: "s = int32_of S" "0 \<le> S" "S < 1073741824"
    and inv: "259 \<le> sint s_inv" "sint s_inv \<le> 8388608"
  shows "quantize_value s s_inv x = ucast (int32_of (scaled S X))"
proof -
  define si sf ti tf where "si = fxp_round S" "sf = S - fxp_round S * 65536" "ti = fxp_round X" "tf = X - fxp_round X * 65536"
  note defs = this
  have parts: "\<bar>sf\<bar> \<le> 32768" "\<bar>tf\<bar> \<le> 32768" using fxp_round_bounds [of S] fxp_round_bounds [of X] unfolding defs by linarith+
  have ints: "0 \<le> si" "si \<le> 16384" "- 32768 \<le> ti" "ti < 32768"
    using fxp_round_bounds [of S] fxp_round_bounds [of X] x s unfolding defs by linarith+
  have prods: "\<bar>tf * sf\<bar> \<le> 32768 * 32768" "\<bar>ti * sf\<bar> \<le> 32768 * 32768" "\<bar>si * tf\<bar> \<le> 16384 * 32768"
    using parts ints by (intro product_bound; linarith)+
  define r where "r = ti * sf + si * tf + fxp_round (tf * sf)"
  have "\<bar>fxp_round (tf * sf)\<bar> \<le> 32768" using fxp_round_bounds [of "tf * sf"] prods(1) by linarith
  then have fits: "in32 (X + 32768)" "in32 (S + 32768)" "in32 (tf * sf + 32768)" "in32 (r + 32768)"
    using x s prods unfolding in32_def r_def by linarith+
  have si: "fxp_int s = int32_of si" and ti: "fxp_int x = int32_of ti"
    using fxp_int_int32_of [OF fits(2)] fxp_int_int32_of [OF fits(1)] by (simp_all add: x(1) s(1) defs fxp_round_def)
  have sf: "s - push_bit 16 (int32_of si) = int32_of sf" and tf: "x - push_bit 16 (int32_of ti) = int32_of tf"
    unfolding push_bit_int32_of by (simp_all add: x(1) s(1) defs)
  have frac: "fxp_int (int32_of tf * int32_of sf) = int32_of (fxp_round (tf * sf))"
    using fxp_int_int32_of [OF fits(3)] by (simp add: fxp_round_def)
  have r: "int32_of ti * int32_of sf + int32_of si * int32_of tf + int32_of (fxp_round (tf * sf)) = int32_of r"
    by (simp add: r_def)
  have last: "fxp_int (int32_of r) = int32_of (fxp_round r)" using fxp_int_int32_of [OF fits(4)] by (simp add: fxp_round_def)
  have sum: "int32_of (fxp_round r) + int32_of ti * int32_of si = int32_of (scaled S X)"
    by (simp add: scaled_def Let_def defs r_def)
  have s_inv: "s_inv = int32_of (sint s_inv)" by simp
  have "sint (127 * s_inv) = 127 * sint s_inv" "sint (- 127 * s_inv) = - 127 * sint s_inv"
    using sint_int32_of [of "127 * sint s_inv"] sint_int32_of [of "- 127 * sint s_inv"] inv by (simp_all add: in32_def)
  moreover have "sint (int32_of ti) = ti" using ints by (intro sint_int32_of) (simp add: in32_def)
  ultimately have "\<not> 127 * s_inv <s int32_of ti" "\<not> int32_of ti <s (- 127) * s_inv"
    using inv ints by (simp_all add: word_sless_alt)
  then show ?thesis unfolding quantize_value_def Let_def si ti sf tf frac r last sum by simp
qed

lemma quantize_value_rounds:
  assumes "sint x < 2147450880" "\<bar>sint x * sint s\<bar> \<le> 127 * 4294967296"
    and "0 \<le> sint s" "sint s < 1073741824" "259 \<le> sint s_inv" "sint s_inv \<le> 8388608"
  shows "\<bar>sint (quantize_value s s_inv x) * 4294967296 - sint x * sint s\<bar> \<le> 2147516416"
proof -
  have q: "\<bar>scaled (sint s) (sint x) * 4294967296 - sint x * sint s\<bar> \<le> 2147516416" using scaled_rounds [of "sint s" "sint x"] by (simp add: mult.commute)
  then have "\<bar>scaled (sint s) (sint x)\<bar> \<le> 127" using assms(2) by linarith
  then have "sint (word_of_int (scaled (sint s) (sint x)) :: int8) = scaled (sint s) (sint x)"
    by (simp add: signed_of_int signed_take_bit_int_eq_self)
  moreover have "quantize_value s s_inv x = ucast (int32_of (scaled (sint s) (sint x)))"
    using assms sint_ge [of x] by (intro quantize_value_scaled) simp_all
  moreover have "ucast (int32_of n) = (word_of_int n :: int8)" for n by (rule bit_word_eqI) (simp add: bit_simps)
  ultimately show ?thesis using q by simp
qed

section \<open>Property\<close>



text \<open>
  The test for saturation compares an integer with a fixed-point number: with the constants of the three layers it never holds, and an
  input whose quantized value exceeds 127 wraps around (3.0 in layer 1, for 135).
\<close>

lemma quantize_wraps: "sint (quantize_value layer_1_s_x layer_1_s_x_inv (3 * 65536)) = - 121"
  by (simp add: quantize_value_def layer_1_s_x_def layer_1_s_x_inv_def ROUND_CONST_def)

end
