(* ===== verification/Inference.thy ===== *)
theory Inference
  imports Neural_Net
begin

text \<open>
  The layers of \<open>nn.c\<close>, \<open>run_mlp\<close> and \<open>main\<close>: with an accelerator that multiplies matrices, each row of the input is classified on
  its own, by the first greatest output of the network, and \<open>main\<close> reports this for its ten images.
\<close>

section \<open>The network on one sample\<close>

definition product_entry :: "int8 list \<Rightarrow> int8 list \<Rightarrow> nat \<Rightarrow> nat \<Rightarrow> nat \<Rightarrow> nat \<Rightarrow> int32" where
  "product_entry l r K M n j = sum_list (map (\<lambda>k. scast (l ! (n * K + k)) * scast (r ! (k * M + j))) [0..<K])"

text \<open>The accelerator's part of the contract: what it stores for the program the driver gives it is the product, in 32 bits.\<close>

definition multiplies :: "accelerator \<Rightarrow> nat \<Rightarrow> nat \<Rightarrow> nat \<Rightarrow> bool" where
  "multiplies acc N K M \<longleftrightarrow> (\<forall>b memory l r. memory (l_at b) = map scast l \<longrightarrow> length l = N * K \<longrightarrow>
     memory (r_at b) = map scast r \<longrightarrow> length r = K * M \<longrightarrow>
     acc (gemm_program b N K M) memory = map (\<lambda>i. scast (product_entry l r K M (i div M) (i mod M))) [0..<N * M])"

definition layer_row :: "int8 list \<Rightarrow> int32 \<Rightarrow> int32 list \<Rightarrow> int32 \<Rightarrow> nat \<Rightarrow> nat \<Rightarrow> bool \<Rightarrow> int32 list \<Rightarrow> int32 list" where
  "layer_row w s w_inv s_inv K M hidden xs = map (\<lambda>j.
     let v = dequantize_value (w_inv ! j) s_inv (sum_list (map (\<lambda>k. scast (quantize_value s s_inv (xs ! k)) * scast (w ! (k * M + j))) [0..<K]))
     in if hidden then max0 v else v) [0..<M]"

definition network :: "weights \<Rightarrow> int32 list \<Rightarrow> int32 list" where
  "network W x = layer_row (layer_3_weight W) layer_3_s_x layer_3_s_w_inv layer_3_s_x_inv H2 OUTPUT_DIM False
     (layer_row (layer_2_weight W) layer_2_s_x layer_2_s_w_inv layer_2_s_x_inv H1 H2 True
     (layer_row (layer_1_weight W) layer_1_s_x layer_1_s_w_inv layer_1_s_x_inv INPUT_DIM H1 True x))"

text \<open>The first index of a greatest element.\<close>

definition first_max :: "int32 list \<Rightarrow> nat" where
  "first_max xs = hd (filter (\<lambda>i. \<forall>v \<in> set xs. v \<le>s xs ! i) [0..<length xs])"

definition row_of :: "nat \<Rightarrow> 'a list \<Rightarrow> nat \<Rightarrow> 'a list" where
  "row_of K xs n = map (\<lambda>k. xs ! (n * K + k)) [0..<K]"

lemma nth_row_of [simp]: "k < K \<Longrightarrow> row_of K xs n ! k = xs ! (n * K + k)"
  by (simp add: row_of_def)

lemma length_row_of [simp]: "length (row_of K xs n) = K"
  by (simp add: row_of_def)

lemma length_layer_row [simp]: "length (layer_row w s w_inv s_inv K M hidden xs) = M"
  by (simp add: layer_row_def)

section \<open>Multiplication\<close>

lemma mat_mult_product:
  assumes "multiplies acc N K M" "l_at b \<noteq> r_at b" "length l = N * K" "length r = K * M" "length out = N * M"
  shows "mat_mult acc b l r out N K M = map (\<lambda>i. product_entry l r K M (i div M) (i mod M)) [0..<N * M]"
proof -
  let ?mem = "(\<lambda>_. [])(r_at b := map scast r, l_at b := map scast l) :: memory"
  have l: "fold (\<lambda>i a. a[i := scast (l ! i)]) [0..<N * K] (replicate (N * K) 0) = map scast l"
    using assms(3) by (intro fold_write_map) simp_all
  have r: "fold (\<lambda>i a. a[i := scast (r ! i)]) [0..<K * M] (replicate (K * M) 0) = map scast r"
    using assms(4) by (intro fold_write_map) simp_all
  have "?mem (l_at b) = map scast l" "?mem (r_at b) = map scast r" using assms(2) by simp_all
  then have acc: "acc (gemm_program b N K M) ?mem = map (\<lambda>i. scast (product_entry l r K M (i div M) (i mod M))) [0..<N * M]"
    using assms(1,3,4) unfolding multiplies_def by blast
  have down: "ucast (scast v :: 64 word) = v" for v :: int32 by (rule bit_word_eqI) (auto simp: bit_simps)
  have "fold (\<lambda>i a. a[i := ucast (map (\<lambda>i. scast (product_entry l r K M (i div M) (i mod M)) :: 64 word) [0..<N * M] ! i)]) [0..<N * M] out =
      map (\<lambda>i. product_entry l r K M (i div M) (i mod M)) [0..<N * M]"
    using fold_write_all [OF assms(5), of "\<lambda>i. ucast (map (\<lambda>i. scast (product_entry l r K M (i div M) (i mod M)) :: 64 word) [0..<N * M] ! i)"]
    by (simp add: down)
  then show ?thesis unfolding mat_mult_def mat_mult_acc_def Let_def l r acc .
qed

section \<open>A layer\<close>

lemma relu_map: "length t = n \<Longrightarrow> relu t n = map max0 t"
  using fold_update_all [where f = "\<lambda>_. max0" and a = t] by (simp add: relu_def list_eq_iff_nth_eq)

lemma linear_layer_rows:
  assumes acc: "multiplies acc N K M" "l_at b \<noteq> r_at b" and len: "N * K \<le> length x" "length w = K * M" "length out = N * M"
  shows "linear_layer acc b x w out s w_inv s_inv N K M hidden =
    map (\<lambda>i. layer_row w s w_inv s_inv K M hidden (row_of K x (i div M)) ! (i mod M)) [0..<N * M]"
proof -
  define q where "q = quantize x (replicate (N * K) 0) s s_inv (N * K)"
  have q: "q = map (\<lambda>i. quantize_value s s_inv (x ! i)) [0..<N * K]"
    unfolding q_def quantize_def by (rule fold_write_all) simp
  define p where "p = mat_mult acc b q w out N K M"
  have p: "p = map (\<lambda>i. product_entry q w K M (i div M) (i mod M)) [0..<N * M]"
    unfolding p_def using acc len by (intro mat_mult_product) (simp_all add: q)
  have entry: "product_entry q w K M (i div M) (i mod M) =
      sum_list (map (\<lambda>k. scast (quantize_value s s_inv (row_of K x (i div M) ! k)) * scast (w ! (k * M + i mod M))) [0..<K])" if "i < N * M" for i
  proof -
    have "i div M < N" using that by (simp add: less_mult_imp_div_less)
    then have "i div M * K + k < N * K" if "k < K" for k
      using that by (metis add.commute add_less_mono1 less_le_trans mult_Suc mult_le_mono1 Suc_leI)
    then show ?thesis unfolding product_entry_def by (intro arg_cong [where f = sum_list] map_cong) (auto simp: q simp del: upt_Suc)
  qed
  define d where "d = dequantize_per_row p w_inv s_inv N M"
  have "length p = N * M" by (simp add: p)
  from fold_nested_update [OF this, of "\<lambda>n k v. dequantize_value (w_inv ! k) s_inv v"]
  have d: "d = map (\<lambda>i. dequantize_value (w_inv ! (i mod M)) s_inv (p ! i)) [0..<N * M]"
    unfolding d_def dequantize_per_row_def .
  have "linear_layer acc b x w out s w_inv s_inv N K M hidden = (if hidden then map max0 d else d)"
    unfolding linear_layer_def Let_def q_def [symmetric] p_def [symmetric] d_def [symmetric] using relu_map [of d "N * M"] by (simp add: d)
  also have "\<dots> = map (\<lambda>i. layer_row w s w_inv s_inv K M hidden (row_of K x (i div M)) ! (i mod M)) [0..<N * M]"
  proof (rule nth_equalityI)
    fix i assume "i < length (if hidden then map max0 d else d)"
    then have i: "i < N * M" "i mod M < M" by (auto simp: d split: if_splits) (metis mod_less_divisor mult_0_right not_less0 neq0_conv)+
    then show "(if hidden then map max0 d else d) ! i = map (\<lambda>i. layer_row w s w_inv s_inv K M hidden (row_of K x (i div M)) ! (i mod M)) [0..<N * M] ! i"
      by (simp add: d p entry layer_row_def Let_def)
  qed (simp add: d)
  finally show ?thesis .
qed

lemma row_of_rows:
  assumes "n < N" "\<And>n. length (f n) = M"
  shows "row_of M (map (\<lambda>i. f (i div M) ! (i mod M)) [0..<N * M]) n = f n"
proof (rule nth_equalityI)
  fix j assume "j < length (row_of M (map (\<lambda>i. f (i div M) ! (i mod M)) [0..<N * M]) n)"
  then have j: "j < M" by simp
  then have "n * M + j < N * M" using assms(1) by (metis add.commute add_less_mono1 less_le_trans mult_Suc mult_le_mono1 Suc_leI)
  then show "row_of M (map (\<lambda>i. f (i div M) ! (i mod M)) [0..<N * M]) n ! j = f n ! j" using j by simp
qed (simp add: assms)

section \<open>Choosing the class\<close>

definition max_so_far :: "int32 list \<Rightarrow> nat \<Rightarrow> int32 \<times> nat \<Rightarrow> bool" where
  "max_so_far xs k r \<longleftrightarrow> snd r < length xs \<and> fst r = xs ! snd r \<and>
     (\<forall>j < k. xs ! j \<le>s fst r) \<and> (\<forall>j < snd r. xs ! j <s fst r) \<and> snd r \<le> k"

lemma max_so_far_step:
  assumes "max_so_far xs k (r, i)" "k < length xs"
  shows "max_so_far xs (Suc k) (if r <s xs ! k then (xs ! k, k) else (r, i))"
  using assms by (auto simp: max_so_far_def word_sle_eq word_sless_alt less_Suc_eq)

lemma argmax_loop:
  assumes "0 < length xs" "k \<le> length xs"
  shows "max_so_far xs k (fold (\<lambda>m (row_max, max_idx). if row_max <s xs ! m then (xs ! m, m) else (row_max, max_idx)) [0..<k] (xs ! 0, 0))"
  using assms(2)
proof (induction k)
  case 0
  then show ?case using assms(1) by (simp add: max_so_far_def)
next
  case (Suc k)
  then show ?case using max_so_far_step [of xs k] by (cases "fold (\<lambda>m (row_max, max_idx). if row_max <s xs ! m then (xs ! m, m) else (row_max, max_idx)) [0..<k] (xs ! 0, 0)") auto
qed

lemma first_max_unique:
  assumes "i < length xs" "\<forall>v \<in> set xs. v \<le>s xs ! i" "\<forall>j < i. xs ! j <s xs ! i"
  shows "first_max xs = i"
proof -
  let ?P = "\<lambda>i. \<forall>v \<in> set xs. v \<le>s xs ! i"
  have "[0..<length xs] = [0..<i] @ i # [Suc i..<length xs]" using assms(1) upt_add_eq_append [of 0 i "length xs - i"] by (simp add: upt_conv_Cons)
  moreover have "filter ?P [0..<i] = []" using assms(1,3) by (auto simp: filter_empty_conv word_sless_alt word_sle_eq not_le intro!: bexI [of _ "xs ! i"])
  ultimately show ?thesis using assms(2) by (simp add: first_max_def)
qed

lemma argmax_row_first_max: "0 < M \<Longrightarrow> argmax_row mat n M = first_max (row_of M mat n)"
proof -
  assume M: "0 < M"
  let ?xs = "row_of M mat n"
  have eq: "fold (\<lambda>m (row_max, max_idx). let value = mat ! (n * M + m) in if row_max <s value then (value, m) else (row_max, max_idx)) [0..<M] (mat ! (n * M), 0) =
      fold (\<lambda>m (row_max, max_idx). if row_max <s ?xs ! m then (?xs ! m, m) else (row_max, max_idx)) [0..<M] (?xs ! 0, 0)"
    by (rule fold_cong) (use M in \<open>auto simp: Let_def\<close>)
  define r where "r = fold (\<lambda>m (row_max, max_idx). if row_max <s ?xs ! m then (?xs ! m, m) else (row_max, max_idx)) [0..<M] (?xs ! 0, 0)"
  have "max_so_far ?xs M r" unfolding r_def using M by (intro argmax_loop) simp_all
  then have "first_max ?xs = snd r" by (intro first_max_unique) (auto simp: max_so_far_def in_set_conv_nth)
  then show ?thesis unfolding argmax_row_def eq r_def by simp
qed

section \<open>\<open>run_mlp\<close>\<close>

definition network_ready :: "accelerator \<Rightarrow> buffers \<Rightarrow> weights \<Rightarrow> nat \<Rightarrow> bool" where
  "network_ready acc b W N \<longleftrightarrow> l_at b \<noteq> r_at b \<and>
     multiplies acc N INPUT_DIM H1 \<and> multiplies acc N H1 H2 \<and> multiplies acc N H2 OUTPUT_DIM \<and>
     length (layer_1_weight W) = INPUT_DIM * H1 \<and> length (layer_2_weight W) = H1 * H2 \<and> length (layer_3_weight W) = H2 * OUTPUT_DIM"

lemma run_mlp_rows:
  assumes "network_ready acc b W N" "N * INPUT_DIM \<le> length x" "length ix = N"
  shows "run_mlp acc b W x N ix = map (\<lambda>n. first_max (network W (row_of INPUT_DIM x n))) [0..<N]"
proof -
  define f1 where "f1 = (\<lambda>n. layer_row (layer_1_weight W) layer_1_s_x layer_1_s_w_inv layer_1_s_x_inv INPUT_DIM H1 True (row_of INPUT_DIM x n))"
  define x1 where "x1 = map (\<lambda>i. f1 (i div H1) ! (i mod H1)) [0..<N * H1]"
  define f2 where "f2 = (\<lambda>n. layer_row (layer_2_weight W) layer_2_s_x layer_2_s_w_inv layer_2_s_x_inv H1 H2 True (row_of H1 x1 n))"
  define x2 where "x2 = map (\<lambda>i. f2 (i div H2) ! (i mod H2)) [0..<N * H2]"
  define f3 where "f3 = (\<lambda>n. layer_row (layer_3_weight W) layer_3_s_x layer_3_s_w_inv layer_3_s_x_inv H2 OUTPUT_DIM False (row_of H2 x2 n))"
  define x3 where "x3 = map (\<lambda>i. f3 (i div OUTPUT_DIM) ! (i mod OUTPUT_DIM)) [0..<N * OUTPUT_DIM]"
  note ready = assms(1) [unfolded network_ready_def]
  have l1: "linear_layer acc b x (layer_1_weight W) (replicate (N * H1) 0) layer_1_s_x layer_1_s_w_inv layer_1_s_x_inv N INPUT_DIM H1 True = x1"
    unfolding x1_def f1_def using ready assms by (intro linear_layer_rows) simp_all
  have l2: "linear_layer acc b x1 (layer_2_weight W) (replicate (N * H2) 0) layer_2_s_x layer_2_s_w_inv layer_2_s_x_inv N H1 H2 True = x2"
    unfolding x2_def f2_def using ready by (intro linear_layer_rows) (simp_all add: x1_def)
  have l3: "linear_layer acc b x2 (layer_3_weight W) (replicate (N * OUTPUT_DIM) 0) layer_3_s_x layer_3_s_w_inv layer_3_s_x_inv N H2 OUTPUT_DIM False = x3"
    unfolding x3_def f3_def using ready by (intro linear_layer_rows) (simp_all add: x2_def)
  have rows: "row_of H1 x1 n = f1 n" "row_of H2 x2 n = f2 n" "row_of OUTPUT_DIM x3 n = f3 n" if "n < N" for n
    using that unfolding x1_def x2_def x3_def by (auto intro!: row_of_rows simp: f1_def f2_def f3_def)
  have "run_mlp acc b W x N ix = argmax_over_cols x3 ix N OUTPUT_DIM" unfolding run_mlp_def Let_def l1 l2 l3 ..
  also have "\<dots> = map (\<lambda>n. argmax_row x3 n OUTPUT_DIM) [0..<N]" unfolding argmax_over_cols_def using assms(3) by (rule fold_write_all)
  also have "\<dots> = map (\<lambda>n. first_max (network W (row_of INPUT_DIM x n))) [0..<N]"
  proof (rule map_cong)
    fix n assume "n \<in> set [0..<N]"
    then have "row_of OUTPUT_DIM x3 n = network W (row_of INPUT_DIM x n)" using rows by (simp add: network_def f1_def f2_def f3_def)
    moreover have "0 < OUTPUT_DIM" by (simp add: OUTPUT_DIM_def)
    ultimately show "argmax_row x3 n OUTPUT_DIM = first_max (network W (row_of INPUT_DIM x n))" by (simp add: argmax_row_first_max)
  qed simp
  finally show ?thesis .
qed

lemma first_max_network: "first_max (network W x) < 10"
proof -
  have len: "length (network W x) = 10" by (simp add: network_def OUTPUT_DIM_def)
  define r where "r = fold (\<lambda>m (row_max, max_idx). if row_max <s network W x ! m then (network W x ! m, m) else (row_max, max_idx)) [0..<10] (network W x ! 0, 0)"
  have r: "max_so_far (network W x) 10 r" unfolding r_def using len by (intro argmax_loop) simp_all
  then have "first_max (network W x) = snd r" using len by (intro first_max_unique) (auto simp: max_so_far_def in_set_conv_nth)
  then show ?thesis using r len by (simp add: max_so_far_def)
qed

section \<open>\<open>main\<close>\<close>

definition predicted :: "weights \<Rightarrow> int32 list \<Rightarrow> nat \<Rightarrow> nat" where
  "predicted W images i = first_max (network W (row_of INPUT_DIM images i))"

definition sample_report :: "weights \<Rightarrow> int32 list \<Rightarrow> int8 list \<Rightarrow> nat \<Rightarrow> string" where
  "sample_report W images labels i = ''Sample '' @ nat_digits i @ '': Predicted class: '' @ nat_digits (predicted W images i) @
     '', Actual class: '' @ nat_digits (unat (labels ! i)) @ [carriage_return, newline]"

lemma run_mlp_sample:
  assumes "network_ready acc b W 1" "(i + 1) * IMAGE_SIZE \<le> length images"
  shows "run_mlp acc b W (drop (i * IMAGE_SIZE) images) 1 [0] ! 0 = predicted W images i"
proof -
  have dim: "INPUT_DIM = IMAGE_SIZE" by (simp add: INPUT_DIM_def IMAGE_SIZE_def)
  have "row_of INPUT_DIM (drop (i * IMAGE_SIZE) images) 0 = row_of INPUT_DIM images i"
    using assms(2) by (simp add: row_of_def dim)
  moreover have "1 * INPUT_DIM \<le> length (drop (i * IMAGE_SIZE) images)" using assms(2) by (simp add: dim)
  ultimately show ?thesis using run_mlp_rows [OF assms(1), of "drop (i * IMAGE_SIZE) images" "[0]"] by (simp add: predicted_def)
qed

text \<open>The two formats of \<open>main\<close>, on numbers below \<open>2 ^ 32\<close>.\<close>

lemma unat_reg: "n < 2 ^ 32 \<Longrightarrow> unat (of_nat n :: 64 word) mod 2 ^ 32 = n"
  by (simp add: unat_of_nat take_bit_eq_mod)

lemma sends_sample:
  assumes "drains status" "i < 2 ^ 32" "c < 2 ^ 32"
  shows "sends (printf status sample_format [Reg (of_nat i), Reg (of_nat c), Reg (ucast (l :: int8))])
    (''Sample '' @ nat_digits i @ '': Predicted class: '' @ nat_digits c @ '', Actual class: '' @ nat_digits (unat l) @ [carriage_return, newline])"
proof -
  let ?ps = "[Plain ''Sample '', Uns False (of_nat i), Plain '': Predicted class: '', Uns False (of_nat c), Plain '', Actual class: '',
    Uns False (ucast l), Plain [newline]]"
  have "unat l < 256" using unsigned_less [of l] by simp
  then have "unat (ucast l :: 64 word) mod 2 ^ 32 = unat l" by (simp add: unsigned_ucast_eq take_bit_eq_mod)
  then have "concat (map render ?ps) = ''Sample '' @ nat_digits i @ '': Predicted class: '' @ nat_digits c @ '', Actual class: '' @
      nat_digits (unat l) @ [carriage_return, newline]"
    using unat_reg [OF assms(2)] unat_reg [OF assms(3)] by (simp add: crlf_def)
  moreover have "concat (map piece_format ?ps) = sample_format" by (simp add: sample_format_def)
  moreover have "concat (map piece_args ?ps) = [Reg (of_nat i), Reg (of_nat c), Reg (ucast l)]" by simp
  moreover have "\<forall>p \<in> set ?ps. piece_ok p" by simp
  ultimately show ?thesis using sends_pieces [OF assms(1), of ?ps] by metis
qed

lemma sends_total:
  assumes "drains status" "c < 2 ^ 32"
  shows "sends (printf status (''Correct predictions: %u/%u'' @ [newline]) [Reg (of_nat c), Reg (of_nat RUN_IMAGE_NUM)])
    (''Correct predictions: '' @ nat_digits c @ ''/10'' @ [carriage_return, newline])"
proof -
  let ?ps = "[Plain ''Correct predictions: '', Uns False (of_nat c), Plain ''/'', Uns False (of_nat RUN_IMAGE_NUM), Plain [newline]]"
  have "nat_digits 10 = ''10''" by code_simp
  then have "concat (map render ?ps) = ''Correct predictions: '' @ nat_digits c @ ''/10'' @ [carriage_return, newline]"
    using unat_reg [OF assms(2)] by (simp add: crlf_def RUN_IMAGE_NUM_def)
  moreover have "concat (map piece_format ?ps) = ''Correct predictions: %u/%u'' @ [newline]" by simp
  moreover have "concat (map piece_args ?ps) = [Reg (of_nat c), Reg (of_nat RUN_IMAGE_NUM)]" by simp
  moreover have "\<forall>p \<in> set ?ps. piece_ok p" by simp
  ultimately show ?thesis using sends_pieces [OF assms(1), of ?ps] by metis
qed

lemma mlp_main_loop_sends:
  assumes "drains status" "network_ready acc b W 1" "\<forall>i \<in> set is. i < 2 ^ 32 \<and> (i + 1) * IMAGE_SIZE \<le> length images"
  shows "\<exists>u'. mlp_main_loop acc b W images labels status is n u =
      Some (n + length (filter (\<lambda>i. predicted W images i = unat (labels ! i)) is), u') \<and>
    ut_sent u' = ut_sent u @ concat (map (sample_report W images labels) is)"
  using assms(3)
proof (induction "is" arbitrary: n u)
  case (Cons i "is")
  have small: "predicted W images i < 2 ^ 32" using first_max_network [of W "row_of INPUT_DIM images i"] by (simp add: predicted_def)
  have "sends (printf status sample_format [Reg (of_nat i), Reg (of_nat (predicted W images i)), Reg (ucast (labels ! i))]) (sample_report W images labels i)"
    unfolding sample_report_def using Cons.prems small by (intro sends_sample [OF assms(1)]) simp_all
  then obtain u1 where u1: "printf status sample_format [Reg (of_nat i), Reg (of_nat (predicted W images i)), Reg (ucast (labels ! i))] u = Some u1"
    "ut_sent u1 = ut_sent u @ sample_report W images labels i" by (auto simp: sends_def)
  define m where "m = (if predicted W images i = unat (labels ! i) then n + 1 else n)"
  have "\<forall>i \<in> set is. i < 2 ^ 32 \<and> (i + 1) * IMAGE_SIZE \<le> length images" using Cons.prems by simp
  from Cons.IH [OF this, of m u1] obtain u2 where u2: "mlp_main_loop acc b W images labels status is m u1 =
      Some (m + length (filter (\<lambda>i. predicted W images i = unat (labels ! i)) is), u2)"
    "ut_sent u2 = ut_sent u1 @ concat (map (sample_report W images labels) is)" by blast
  have run: "run_mlp acc b W (drop (i * IMAGE_SIZE) images) 1 [0] ! 0 = predicted W images i"
    using Cons.prems by (intro run_mlp_sample [OF assms(2)]) simp
  have "mlp_main_loop acc b W images labels status (i # is) n u = mlp_main_loop acc b W images labels status is m u1"
    unfolding mlp_main_loop.simps Let_def run m_def [symmetric] u1(1) by (rule bind.bind_lunit)
  then show ?case using u1(2) u2 by (simp add: m_def)
qed simp

section \<open>Property\<close>


text \<open>An accelerator that does what the driver asks for.\<close>

definition ideal_accelerator :: accelerator where
  "ideal_accelerator prog memory = (case prog of
     [mi, load_l, load_r, cmp, store] \<Rightarrow>
       let N = unat (drop_bit 32 (rc_rs1 mi)); K = unat (take_bit 32 (rc_rs1 mi)); M = unat (rc_rs2 mi);
           l = map ucast (memory (rc_rs2 load_l)); r = map ucast (memory (rc_rs2 load_r))
       in map (\<lambda>i. scast (product_entry l r K M (i div M) (i mod M))) [0..<N * M]
   | _ \<Rightarrow> [])"

lemma ideal_multiplies:
  assumes "unat (drop_bit 32 (rs1_of (of_nat N) (of_nat K))) = N" "unat (take_bit 32 (rs1_of (of_nat N) (of_nat K))) = K" "unat (of_nat M :: 32 word) = M"
  shows "multiplies ideal_accelerator N K M"
proof -
  have down: "map ucast (map scast l :: 64 word list) = l" for l :: "int8 list"
  proof -
    have "ucast (scast v :: 64 word) = v" for v :: int8 by (rule bit_word_eqI) (auto simp: bit_simps)
    then show ?thesis by (induction l) simp_all
  qed
  show ?thesis unfolding multiplies_def
    by (auto simp add: ideal_accelerator_def gemm_program_def mat_info_def load_data_def assms down simp del: map_map of_nat_mult)
qed

definition zero_weights :: weights where
  "zero_weights = \<lparr>layer_1_weight = replicate (784 * 128) 0, layer_2_weight = replicate (128 * 64) 0, layer_3_weight = replicate (64 * 10) 0\<rparr>"


text \<open>The left matrix of the first layer does not fit below the address of the right one: loading the right one overwrites it.\<close>

lemma first_layer_overlaps: "onChipRAddr = 256 \<and> 256 < 1 * INPUT_DIM"
  by (simp add: onChipRAddr_def pad_def MAX_MATA_ROW_def MAX_MATA_COL_def CORESIZE_def INPUT_DIM_def)

text \<open>With two samples of two channels of two, the last two elements are not dequantized: the index of a sample is a multiple of \<open>C\<close>, not of \<open>C * K\<close>.\<close>

lemma per_channel_skips:
  assumes "length t = 8" "6 \<le> i"
  shows "dequantize_per_channel t w x 2 2 2 ! i = t ! i"
  using assms by (simp add: dequantize_per_channel_def upt_rec Let_def)

end
