(* ===== verification/Loop_Variants.thy ===== *)
theory Loop_Variants
  imports C_Int
begin

text \<open>
  \<open>CS2305 Computer System Architecture/Lab 1/code\<close>: two ways to compute a Fibonacci number (\<open>fibonacci.c\<close>, \<open>fibonacci_loop_unroll.c\<close>) and
  two ways to sum squares and cubes (\<open>sum.c\<close>, and \<open>sum_parallel.c\<close> with four threads), modulo 10007.  The pairs agree, and both
  compute what they are named after.  The programs fix \<open>n\<close>; the definitions take it as an argument.  All numbers are non-negative
  and below \<open>2 ^ 31\<close>.  The clock is not modelled.
\<close>

definition modulus :: int where
  "modulus = 10007"

section \<open>Fibonacci\<close>

function fibonacci_loop :: "int \<Rightarrow> int \<Rightarrow> int \<times> int \<times> int \<Rightarrow> int \<times> int \<times> int" where
  "fibonacci_loop i n (first, second, result) = (if i \<le> n then
     let result = cmod (first + second) modulus; first = second; second = result in fibonacci_loop (i + 1) n (first, second, result)
   else (first, second, result))"
  by pat_completeness auto
termination
  by (relation "measure (\<lambda>(i, n, s). nat (n + 1 - i))") auto

definition fibonacci_result :: "int \<Rightarrow> int" where
  "fibonacci_result n = (case fibonacci_loop 2 n (0, 1, 0) of (first, second, result) \<Rightarrow> result)"

function unrolled_loop :: "int \<Rightarrow> int \<Rightarrow> int \<times> int \<Rightarrow> int \<times> int" where
  "unrolled_loop i n (first, second) = (if i \<le> n then
     let first = cmod (first + second) modulus; second = cmod (first + second) modulus in unrolled_loop (i + 2) n (first, second)
   else (first, second))"
  by pat_completeness auto
termination
  by (relation "measure (\<lambda>(i, n, s). nat (n + 1 - i))") auto

definition unrolled_result :: "int \<Rightarrow> int" where
  "unrolled_result n = (case unrolled_loop 2 n (0, 1) of (first, second) \<Rightarrow> if odd n then second else first)"

section \<open>Sums\<close>

text \<open>One round of the loops: \<open>square\<close>, \<open>cube\<close> and the new sum.\<close>

definition sum_round :: "int \<Rightarrow> int \<Rightarrow> int" where
  "sum_round i s = (
     let square = cmod (cmod i modulus * cmod i modulus) modulus;
         cube = cmod (cmod square modulus * cmod i modulus) modulus
     in cmod (s + square + cube) modulus)"

function sum_loop :: "int \<Rightarrow> int \<Rightarrow> int \<Rightarrow> int" where
  "sum_loop i end s = (if i \<le> end then sum_loop (i + 1) end (sum_round i s) else s)"
  by pat_completeness auto
termination
  by (relation "measure (\<lambda>(i, n, s). nat (n + 1 - i))") auto

declare fibonacci_loop.simps [simp del] unrolled_loop.simps [simp del] sum_loop.simps [simp del]

definition sum_result :: "int \<Rightarrow> int" where
  "sum_result n = sum_loop 1 n 0"

definition local_sum :: "int \<Rightarrow> int \<Rightarrow> int" where
  "local_sum n thread_id = (
     let start = cdiv n 4 * thread_id + 1; end = cdiv n 4 * (thread_id + 1); end = (if thread_id = 3 then n else end)
     in sum_loop start end 0)"

text \<open>The threads add their sums atomically, in the order \<open>ts\<close>.\<close>

definition sum_parallel_result :: "int \<Rightarrow> int list \<Rightarrow> int" where
  "sum_parallel_result n ts = cmod (fold (\<lambda>t s. s + local_sum n t) ts 0) modulus"

definition sum_main :: string where
  "sum_main = ''sum = '' @ fmt_d (sum_result 800000000) @ [newline]"

definition sum_parallel_main :: "int list \<Rightarrow> string" where
  "sum_parallel_main ts = ''sum = '' @ fmt_d (sum_parallel_result 800000000 ts) @ [newline]"

definition fibonacci_main :: string where
  "fibonacci_main = ''result = '' @ fmt_d (fibonacci_result 800000001) @ [newline]"

definition unrolled_main :: string where
  "unrolled_main = ''result = '' @ fmt_d (unrolled_result 800000001) @ [newline]"

section \<open>Fibonacci numbers\<close>

fun fib :: "nat \<Rightarrow> int" where
  "fib 0 = 0"
| "fib (Suc 0) = 1"
| "fib (Suc (Suc n)) = fib n + fib (Suc n)"

lemma fib_nonneg [simp]: "0 \<le> fib n"
  by (induction n rule: fib.induct) auto

lemma modulus_pos [simp]: "0 < modulus"
  by (simp add: modulus_def)

lemma cmod_add_mod [simp]: "cmod (fib a mod modulus + fib b mod modulus) modulus = (fib a + fib b) mod modulus"
  by (simp add: mod_add_eq)

lemma fibonacci_step:
  "fibonacci_loop (int k + 2) n (fib k mod modulus, fib (Suc k) mod modulus, r) = (if int k + 2 \<le> n then
     fibonacci_loop (int (Suc k) + 2) n (fib (Suc k) mod modulus, fib (Suc (Suc k)) mod modulus, fib (Suc (Suc k)) mod modulus)
   else (fib k mod modulus, fib (Suc k) mod modulus, r))"
  by (subst fibonacci_loop.simps) (simp add: Let_def add.commute)

lemma unrolled_step:
  "unrolled_loop (int k + 2) n (fib k mod modulus, fib (Suc k) mod modulus) = (if int k + 2 \<le> n then
     unrolled_loop (int (Suc (Suc k)) + 2) n (fib (Suc (Suc k)) mod modulus, fib (Suc (Suc (Suc k))) mod modulus)
   else (fib k mod modulus, fib (Suc k) mod modulus))"
proof -
  have "cmod (fib k mod modulus + fib (Suc k) mod modulus) modulus = fib (Suc (Suc k)) mod modulus"
    "cmod (fib (Suc (Suc k)) mod modulus + fib (Suc k) mod modulus) modulus = fib (Suc (Suc (Suc k))) mod modulus"
    using cmod_add_mod [of k "Suc k"] cmod_add_mod [of "Suc (Suc k)" "Suc k"] by (simp_all only: fib.simps(3) add.commute)
  then show ?thesis
    by (subst unrolled_loop.simps) (simp add: Let_def del: fib.simps cmod_add_mod cmod_nonneg)
qed

lemma fibonacci_loop_fib:
  "fibonacci_loop (int k + 2) (int k + 1 + int d) (fib k mod modulus, fib (Suc k) mod modulus, r) =
    (fib (k + d) mod modulus, fib (Suc (k + d)) mod modulus, if d = 0 then r else fib (Suc (k + d)) mod modulus)"
proof (induction d arbitrary: k r)
  case 0
  then show ?case by (simp add: fibonacci_step)
next
  case (Suc d)
  from Suc.IH [of "Suc k" "fib (Suc (Suc k)) mod modulus"] show ?case
    by (subst fibonacci_step) (simp add: add.commute add.left_commute del: fib.simps)
qed

lemma unrolled_loop_fib:
  "unrolled_loop (int k + 2) (int k + 1 + int d) (fib k mod modulus, fib (Suc k) mod modulus) =
    (fib (k + 2 * (Suc d div 2)) mod modulus, fib (Suc (k + 2 * (Suc d div 2))) mod modulus)"
proof (induction d arbitrary: k rule: fib.induct)
  case (3 d)
  from "3.IH"(1) [of "Suc (Suc k)"] show ?case
    by (subst unrolled_step) (simp add: add.commute add.left_commute del: fib.simps)
qed (subst unrolled_step, simp add: unrolled_loop.simps del: fib.simps)+

lemma fib_start [simp]: "fib 0 mod modulus = 0" "fib (Suc 0) mod modulus = 1"
  by (simp_all add: modulus_def)

lemma fibonacci_result_fib: "2 \<le> n \<Longrightarrow> fibonacci_result (int n) = fib n mod modulus"
  using fibonacci_loop_fib [of 0 "n - 1" 0] by (simp add: fibonacci_result_def of_nat_diff del: fib.simps)

lemma unrolled_result_fib: "unrolled_result (int n) = fib n mod modulus"
proof (cases n)
  case 0
  then show ?thesis by (simp add: unrolled_result_def unrolled_loop.simps modulus_def)
next
  case (Suc d)
  have "unrolled_loop 2 (int n) (0, 1) = (fib (2 * (n div 2)) mod modulus, fib (Suc (2 * (n div 2))) mod modulus)"
    using unrolled_loop_fib [of 0 d] Suc by (simp del: fib.simps)
  then show ?thesis
    by (cases "even n") (auto simp: unrolled_result_def simp del: fib.simps elim!: evenE oddE)
qed

section \<open>Sums of squares and cubes\<close>

definition term_sum :: "int \<Rightarrow> int \<Rightarrow> int" where
  "term_sum a b = (\<Sum>i = a..b. i\<^sup>2 + i ^ 3)"

lemma sum_round_term: "0 \<le> i \<Longrightarrow> 0 \<le> s \<Longrightarrow> sum_round i s = (s + (i\<^sup>2 + i ^ 3)) mod modulus"
proof -
  have "(s + (a mod m + b mod m)) mod m = (s + (a + b)) mod m" for a b m :: int
    by (metis mod_add_eq mod_add_right_eq)
  then show "0 \<le> i \<Longrightarrow> 0 \<le> s \<Longrightarrow> ?thesis"
    by (simp add: sum_round_def Let_def mod_simps power2_eq_square power3_eq_cube add.assoc)
qed

lemma term_sum_empty [simp]: "b < a \<Longrightarrow> term_sum a b = 0"
  by (simp add: term_sum_def)

lemma term_sum_split: "a \<le> b + 1 \<Longrightarrow> b \<le> c \<Longrightarrow> term_sum a b + term_sum (b + 1) c = term_sum a c"
  unfolding term_sum_def by (subst sum.union_disjoint [symmetric]) (auto intro!: arg_cong2 [where f = sum])

lemma term_sum_first: "i \<le> e \<Longrightarrow> term_sum i e = (i\<^sup>2 + i ^ 3) + term_sum (i + 1) e"
  using term_sum_split [of i i e] by (simp add: term_sum_def)

lemma sum_loop_term: "0 \<le> i \<Longrightarrow> 0 \<le> s \<Longrightarrow> s < modulus \<Longrightarrow> sum_loop i e s = (s + term_sum i e) mod modulus"
proof (induction i e s rule: sum_loop.induct)
  case (1 i e s)
  show ?case
  proof (cases "i \<le> e")
    case True
    have "0 \<le> sum_round i s" "sum_round i s < modulus"
      using 1 by (simp_all add: sum_round_term)
    then have "sum_loop (i + 1) e (sum_round i s) = (sum_round i s + term_sum (i + 1) e) mod modulus"
      using 1 True by simp
    then show ?thesis
      using 1 True by (subst sum_loop.simps) (simp add: sum_round_term mod_add_left_eq term_sum_first add.assoc)
  qed (use 1 in \<open>simp add: sum_loop.simps\<close>)
qed

lemma sum_result_term: "sum_result n = term_sum 1 n mod modulus"
  by (simp add: sum_result_def sum_loop_term)

lemma local_sum_term:
  assumes "0 \<le> n" "0 \<le> t"
  shows "local_sum n t = term_sum (n div 4 * t + 1) (if t = 3 then n else n div 4 * (t + 1)) mod modulus"
  using assms by (simp add: local_sum_def Let_def sum_loop_term)

lemma fold_sum: "fold (\<lambda>t s. s + f t) ts s = s + sum_list (map f ts)" for s :: int
  by (induction ts arbitrary: s) (simp_all add: add.assoc)

lemma sum_list_perm: "mset ts = mset us \<Longrightarrow> sum_list (map f ts) = sum_list (map f us)" for f :: "'a \<Rightarrow> int"
  by (metis mset_map sum_mset_sum_list)

lemma mod_four: "(a mod m + (b mod m + (c mod m + d mod m))) mod m = (a + (b + (c + d))) mod m" for a b c d m :: int
  by (intro mod_add_cong) simp_all

lemma four_parts:
  assumes "0 \<le> n"
  shows "(\<Sum>t\<leftarrow>[0, 1, 2, 3]. local_sum n t) mod modulus = term_sum 1 n mod modulus"
proof -
  define q where "q = n div 4"
  have q: "0 \<le> q" "q * 3 \<le> n"
    using assms unfolding q_def by presburger+
  have "term_sum 1 n = term_sum 1 q + term_sum (q + 1) (q * 2) + term_sum (q * 2 + 1) (q * 3) + term_sum (q * 3 + 1) n"
    using q by (simp add: term_sum_split)
  then show ?thesis
    using assms by (simp add: local_sum_term mod_four add.assoc flip: q_def)
qed

lemma sum_parallel_term:
  assumes "0 \<le> n" "mset ts = mset [0, 1, 2, 3]"
  shows "sum_parallel_result n ts = term_sum 1 n mod modulus"
proof -
  have "0 \<le> sum_list (map (local_sum n) [0, 1, 2, 3])"
    using assms(1) by (simp add: local_sum_term)
  then show ?thesis
    using sum_list_perm [OF assms(2), of "local_sum n"] four_parts [OF assms(1)]
    by (simp add: sum_parallel_result_def fold_sum)
qed

lemma term_sum_closed: "12 * term_sum 1 (int n) = int n * (int n + 1) * (2 * (2 * int n + 1) + 3 * int n * (int n + 1))"
proof (induction n)
  case (Suc n)
  have "term_sum 1 (int (Suc n)) = term_sum 1 (int n) + ((int n + 1)\<^sup>2 + (int n + 1) ^ 3)"
    using term_sum_split [of 1 "int n" "int (Suc n)"] by (simp add: term_sum_def add.commute)
  with Suc show ?case
    by (simp add: power2_eq_square power3_eq_cube algebra_simps)
qed simp

text \<open>
  C30 (equivalence).  Lab 1's rewritten programs compute what the originals compute.  The loop that does two Fibonacci steps a round
  ends with the same number as the loop that does one, which is the \<open>n\<close>-th Fibonacci number modulo 10007, for odd and even \<open>n\<close>.  The
  sum over four threads is the sum of the single loop, \<open>1\<^sup>2 + 1\<^sup>3 + \<dots> + n\<^sup>2 + n\<^sup>3\<close> modulo 10007, in whatever order the
  threads add their parts and whether or not 4 divides \<open>n\<close>.
\<close>

theorem loop_variants_agree:
  assumes "2 \<le> n" "n < 2147483646" "mset ts = mset [0, 1, 2, 3]"
  shows "fibonacci_result (int n) = fib n mod modulus \<and> unrolled_result (int n) = fibonacci_result (int n) \<and>
    sum_result (int n) = (\<Sum>i = 1..int n. i\<^sup>2 + i ^ 3) mod modulus \<and> sum_parallel_result (int n) ts = sum_result (int n)"
  using assms by (simp add: fibonacci_result_fib unrolled_result_fib sum_result_term sum_parallel_term flip: term_sum_def)

theorem loop_variants_agree_witness:
  "fibonacci_result 10 = 55 \<and> unrolled_result 10 = 55 \<and> sum_result 10 = 3410 \<and> sum_parallel_result 10 [2, 0, 3, 1] = 3410"
proof -
  have "fib 10 = 55" "(\<Sum>i = 1..int 10. i\<^sup>2 + i ^ 3) = 3410"
    by (simp_all add: eval_nat_numeral simp_from_to)
  with loop_variants_agree [of 10 "[2, 0, 3, 1]"] show ?thesis
    by (simp add: modulus_def)
qed

text \<open>What the programs print, \<open>sum.c\<close> by the closed form of the sum.\<close>

lemma show_3934: "fmt_d 3934 = ''3934''"
  by (simp add: fmt_d_def nat_digits.simps char_of_def bit_0)

lemma fibonacci_mains: "fibonacci_main = unrolled_main"
  using unrolled_result_fib [of 800000001] fibonacci_result_fib [of 800000001]
  by (simp add: fibonacci_main_def unrolled_main_def)

lemma sum_mains: "mset ts = mset [0, 1, 2, 3] \<Longrightarrow> sum_parallel_main ts = sum_main"
  by (simp add: sum_parallel_main_def sum_main_def sum_parallel_term sum_result_term)

lemma sum_main_prints: "sum_main = ''sum = 3934'' @ [newline]"
proof -
  have "term_sum 1 800000000 = 800000000 * 800000001 * (2 * (2 * 800000000 + 1) + 3 * 800000000 * 800000001) div 12"
    using term_sum_closed [of 800000000] by simp
  then show ?thesis
    by (simp add: sum_main_def sum_result_term modulus_def show_3934)
qed

end
