(* ===== verification/Array_Filling.thy ===== *)
theory Array_Filling
  imports Prelude
begin

text \<open>
  Loops over a list of indices in the option monad, and arrays that a nest of such loops fills element by element: what the
  writes store depends on the element only, so the order of the writes does not matter and some may be repeated.
\<close>

fun for_each :: "('a \<Rightarrow> 's \<Rightarrow> 's option) \<Rightarrow> 'a list \<Rightarrow> 's \<Rightarrow> 's option" where
  "for_each f [] s = Some s"
| "for_each f (x # xs) s = do { s \<leftarrow> f x s; for_each f xs s }"

lemma for_each_append: "for_each f (xs @ ys) s = do { s \<leftarrow> for_each f xs s; for_each f ys s }"
  by (induction xs arbitrary: s) (auto split: Option.bind_splits)

lemma for_each_one: "for_each f [x] = f x"
  by (rule ext) (simp split: Option.bind_split)

text \<open>The indices \<open>a, a + d, \<dots>\<close> below \<open>b\<close> of a loop \<open>for (i = a; i < b; i += d)\<close>.\<close>

definition steps :: "nat \<Rightarrow> nat \<Rightarrow> nat list" where
  "steps d b = map (\<lambda>t. t * d) [0..<(b + d - 1) div d]"

lemma upto_invariant:
  assumes "I (0::nat) s" "\<And>i s. i < n \<Longrightarrow> I i s \<Longrightarrow> \<exists>s'. f i s = Some s' \<and> I (Suc i) s'"
  shows "\<exists>s'. for_each f [0..<n] s = Some s' \<and> I n s'"
  using assms
proof (induction n)
  case (Suc n)
  then obtain s' where "for_each f [0..<n] s = Some s'" "I n s'" by (metis less_Suc_eq)
  with Suc.prems(2) [of n s'] show ?case by (auto simp: for_each_append)
qed simp

text \<open>
  An array with room for the elements of a table: the element \<open>x\<close> of \<open>dom\<close> is stored at \<open>pos x\<close> and its value is \<open>val x\<close>.
\<close>

locale filling =
  fixes elements :: "'x set" and pos :: "'x \<Rightarrow> nat" and val :: "'x \<Rightarrow> 'v" and room :: nat
  assumes pos_inj: "inj_on pos elements" and pos_room: "x \<in> elements \<Longrightarrow> pos x < room"
begin

text \<open>\<open>holds S a\<close>: the elements of \<open>S\<close> are in place.  \<open>fills f S\<close>: the loop \<open>f\<close> puts them there and keeps what is there.\<close>

definition holds :: "'x set \<Rightarrow> 'v list \<Rightarrow> bool" where
  "holds S a \<longleftrightarrow> length a = room \<and> (\<forall>x \<in> S. a ! pos x = val x)"

definition fills :: "('v list \<Rightarrow> 'v list option) \<Rightarrow> 'x set \<Rightarrow> bool" where
  "fills f S \<longleftrightarrow> S \<subseteq> elements \<and> (\<forall>T a. T \<subseteq> elements \<longrightarrow> holds T a \<longrightarrow> (\<exists>a'. f a = Some a' \<and> holds (T \<union> S) a'))"

lemma fills_write:
  assumes "x \<in> elements" "\<And>a. length a = room \<Longrightarrow> f a = Some (a[pos x := val x])"
  shows "fills f {x}"
  unfolding fills_def
proof (intro conjI allI impI)
  fix T a assume T: "T \<subseteq> elements" "holds T a"
  have "holds (T \<union> {x}) (a[pos x := val x])"
    using T assms(1) pos_room [OF assms(1)] by (auto simp: holds_def nth_list_update dest: inj_onD [OF pos_inj])
  then show "\<exists>a'. f a = Some a' \<and> holds (T \<union> {x}) a'"
    using assms(2) T(2) by (auto simp: holds_def)
qed (use assms(1) in simp)

lemma fills_Some: "fills Some {}"
  by (simp add: fills_def)

lemma fills_seq: "fills f S \<Longrightarrow> fills g S' \<Longrightarrow> fills (\<lambda>a. f a \<bind> g) (S \<union> S')"
  unfolding fills_def
proof (intro conjI allI impI; (elim conjE)?)
  fix T a
  assume fg: "\<forall>T a. T \<subseteq> elements \<longrightarrow> holds T a \<longrightarrow> (\<exists>a'. f a = Some a' \<and> holds (T \<union> S) a')"
    "\<forall>T a. T \<subseteq> elements \<longrightarrow> holds T a \<longrightarrow> (\<exists>a'. g a = Some a' \<and> holds (T \<union> S') a')"
    and S: "S \<subseteq> elements" and T: "T \<subseteq> elements" "holds T a"
  from fg(1) [rule_format, OF T] obtain a' where a': "f a = Some a'" "holds (T \<union> S) a'" by blast
  moreover have "T \<union> S \<subseteq> elements" using S T by simp
  ultimately obtain b where "g a' = Some b" "holds (T \<union> S \<union> S') b" using fg(2) [rule_format, of "T \<union> S" a'] by blast
  with a' show "\<exists>b. f a \<bind> g = Some b \<and> holds (T \<union> (S \<union> S')) b" by (simp add: Un_assoc)
qed blast

lemma fills_each: "(\<And>i. i \<in> set is \<Longrightarrow> fills (f i) (S i)) \<Longrightarrow> fills (for_each f is) (\<Union>i \<in> set is. S i)"
proof (induction "is")
  case (Cons i "is")
  then have "fills (f i) (S i)" "fills (for_each f is) (\<Union>i \<in> set is. S i)" by simp_all
  from fills_seq [OF this] show ?case by simp
qed (simp add: fills_def)

lemma holds_less: "holds S a \<Longrightarrow> S' \<subseteq> S \<Longrightarrow> holds S' a"
  by (auto simp: holds_def)

lemma fills_less: "fills f S \<Longrightarrow> S' \<subseteq> S \<Longrightarrow> fills f S'"
  unfolding fills_def using holds_less by (meson Un_mono order_refl order_trans)

lemma fills_all:
  assumes "fills f elements" "length a = room"
  shows "\<exists>a'. f a = Some a' \<and> length a' = room \<and> (\<forall>x \<in> elements. a' ! pos x = val x)"
  using assms(1) [unfolded fills_def, THEN conjunct2, rule_format, of "{}" a] assms(2) by (auto simp: holds_def)

end

text \<open>The matrix with \<open>R\<close> rows and \<open>C\<close> columns: its elements, row by row.\<close>

definition cells :: "nat \<Rightarrow> nat \<Rightarrow> (nat \<times> nat) set" where
  "cells R C = {0..<R} \<times> {0..<C}"

lemma cells_iff [simp]: "(r, c) \<in> cells R C \<longleftrightarrow> r < R \<and> c < C"
  by (auto simp: cells_def)

lemma cell_room: "r < R \<Longrightarrow> c < C \<Longrightarrow> r * C + c < R * (C::nat)"
proof -
  assume rc: "r < R" "c < C"
  then have "r * C + c < Suc r * C" by simp
  also have "\<dots> \<le> R * C" using rc by (intro mult_right_mono) auto
  finally show ?thesis .
qed

lemma cell_unique: "c < C \<Longrightarrow> c' < C \<Longrightarrow> r * C + c = r' * C + c' \<longleftrightarrow> r = r' \<and> c = (c'::nat)"
  by (metis div_mult_self3 add.commute div_less div_mult_self1 mod_less mod_mult_self1 mod_mult_self3 less_nat_zero_code add.right_neutral add_cancel_left_left)

lemma cell_exists: "i < R * C \<Longrightarrow> \<exists>r c. r < R \<and> c < C \<and> i = r * C + (c::nat)"
  by (metis div_mult_mod_eq less_mult_imp_div_less mod_less_divisor mult_is_0 not_gr_zero not_less_zero)

end
