(* ===== verification/Tiled_Matmul.thy ===== *)
theory Tiled_Matmul
  imports Array_Filling C_Int
begin

text \<open>
  \<open>CS2305 Computer System Architecture/Lab 3/code\<close>: the matrix product of \<open>lab3.c\<close>, the tiled and vectorised one of \<open>impl.c\<close>, and
  \<open>main\<close>, which runs both and checks the second against a result read from a file.

  Elements are 32-bit words; \<open>int_add\<close> and \<open>int_mul\<close> are C's operators, undefined when they overflow, while the lanes of a vector
  wrap around.  An access outside an array is undefined.  A pointer into an array is an offset.  The dimensions, which
  \<open>config.h\<close> defines, are a record, the contents of a fresh block and the printed times are arguments, and \<open>malloc\<close> succeeds.
\<close>

type_synonym cint = "32 word"

definition int_add :: "cint \<Rightarrow> cint \<Rightarrow> cint option" where
  "int_add a b = do { ensure (- (2 ^ 31) \<le> sint a + sint b \<and> sint a + sint b < 2 ^ 31); Some (a + b) }"

definition int_mul :: "cint \<Rightarrow> cint \<Rightarrow> cint option" where
  "int_mul a b = do { ensure (- (2 ^ 31) \<le> sint a * sint b \<and> sint a * sint b < 2 ^ 31); Some (a * b) }"

record config =
  L_ROW :: nat
  L_COL :: nat
  R_ROW :: nat
  R_COL :: nat

definition TILE_SIZE :: nat where
  "TILE_SIZE = 32"

section \<open>\<open>vec_dot\<close>\<close>

definition loadu :: "cint list \<Rightarrow> nat \<Rightarrow> cint list option" where
  "loadu a p = do { ensure (p + 8 \<le> length a); Some (take 8 (drop p a)) }"

definition mullo :: "cint list \<Rightarrow> cint list \<Rightarrow> cint list" where
  "mullo = map2 (*)"

definition add_epi32 :: "cint list \<Rightarrow> cint list \<Rightarrow> cint list" where
  "add_epi32 = map2 (+)"

text \<open>The eight vectors \<open>va_0 \<dots> va_7\<close> (and \<open>vb_0 \<dots> vb_7\<close>), and the round that adds their products to \<open>sum_0 \<dots> sum_7\<close>.\<close>

definition load_eight :: "cint list \<Rightarrow> nat \<Rightarrow> cint list list option" where
  "load_eight a p = those (map (\<lambda>v. loadu a (p + 8 * v)) [0..<8])"

function dot_loop :: "cint list \<Rightarrow> cint list \<Rightarrow> nat \<Rightarrow> nat \<Rightarrow> nat \<Rightarrow> cint list list \<Rightarrow> (nat \<times> nat \<times> nat \<times> cint list list) option" where
  "dot_loop a b pa pb remaining_size sums = (if 64 \<le> remaining_size then do {
       va \<leftarrow> load_eight a pa;
       vb \<leftarrow> load_eight b pb;
       dot_loop a b (pa + 64) (pb + 64) (remaining_size - 64) (map2 add_epi32 sums (map2 mullo va vb)) }
     else Some (pa, pb, remaining_size, sums))"
  by pat_completeness auto
termination
  by (relation "measure (\<lambda>(a, b, pa, pb, n, s). n)") auto

declare dot_loop.simps [simp del]

definition add_lanes :: "cint list list \<Rightarrow> cint option" where
  "add_lanes sums = for_each (\<lambda>i. for_each (\<lambda>v result. int_add result (sums ! v ! i)) [0..<8]) [0..<8] 0"

definition dot_rest :: "cint list \<Rightarrow> cint list \<Rightarrow> nat \<Rightarrow> nat \<Rightarrow> nat \<Rightarrow> cint \<Rightarrow> cint option" where
  "dot_rest a b pa pb n = for_each (\<lambda>i result. do {
     x \<leftarrow> arr_get a (pa + i); y \<leftarrow> arr_get b (pb + i); p \<leftarrow> int_mul x y; int_add result p }) [0..<n]"

definition vec_dot :: "cint list \<Rightarrow> nat \<Rightarrow> cint list \<Rightarrow> nat \<Rightarrow> nat \<Rightarrow> cint option" where
  "vec_dot a pa b pb n = do {
     (pa, pb, remaining_size, sums) \<leftarrow> dot_loop a b pa pb n (replicate 8 (replicate 8 0));
     result \<leftarrow> add_lanes sums;
     dot_rest a b pa pb remaining_size result }"

section \<open>\<open>tiled_transpose\<close>\<close>

text \<open>One assignment \<open>new_tile[l * R_ROW + k] = tile[k * R_COL + l]\<close>.\<close>

definition move :: "config \<Rightarrow> cint list \<Rightarrow> nat \<Rightarrow> nat \<Rightarrow> nat \<times> nat \<Rightarrow> cint list \<Rightarrow> cint list option" where
  "move g matrix i j = (\<lambda>(k, l) new_matrix. let tile = i * R_COL g + j; new_tile = j * R_ROW g + i in do {
     v \<leftarrow> arr_get matrix (tile + (k * R_COL g + l));
     arr_set new_matrix (new_tile + (l * R_ROW g + k)) v })"

text \<open>The unrolled rounds: which elements they assign, in order.\<close>

definition tile_block :: "nat \<Rightarrow> nat \<Rightarrow> (nat \<times> nat) list" where
  "tile_block k l =
     [(k, l), (k, l + 1), (k, l + 2), (k, l + 3),
      (k + 1, l), (k + 1, l + 1), (k + 1, l + 2), (k + 1, l + 3),
      (k + 2, l), (k + 2, l + 1), (k + 2, l + 2), (k + 2, l + 3),
      (k + 3, l), (k + 3, l + 1), (k + 3, l + 2), (k + 3, l + 3)]"

definition column_block :: "nat \<Rightarrow> nat \<Rightarrow> (nat \<times> nat) list" where
  "column_block k l = [(k, l), (k + 1, l), (k + 2, l), (k + 3, l)]"

definition row_block :: "nat \<Rightarrow> nat \<Rightarrow> (nat \<times> nat) list" where
  "row_block k l = [(k, l), (k, l + 1), (k, l + 2), (k, l + 3)]"

definition full_tile :: "config \<Rightarrow> cint list \<Rightarrow> nat \<Rightarrow> nat \<Rightarrow> cint list \<Rightarrow> cint list option" where
  "full_tile g matrix i j = for_each (\<lambda>k. for_each (\<lambda>l. for_each (move g matrix i j) (tile_block k l)) (steps 4 TILE_SIZE)) (steps 4 TILE_SIZE)"

definition right_edge :: "config \<Rightarrow> cint list \<Rightarrow> nat \<Rightarrow> nat \<Rightarrow> cint list \<Rightarrow> cint list option" where
  "right_edge g matrix i j = for_each (\<lambda>k. for_each (\<lambda>l. for_each (move g matrix i j) (column_block k l)) [0..<R_COL g - j]) (steps 4 TILE_SIZE)"

definition bottom_edge :: "config \<Rightarrow> cint list \<Rightarrow> nat \<Rightarrow> nat \<Rightarrow> cint list \<Rightarrow> cint list option" where
  "bottom_edge g matrix i j = for_each (\<lambda>k. for_each (\<lambda>l. for_each (move g matrix i j) (row_block k l)) (steps 4 TILE_SIZE)) [0..<R_ROW g - i]"

definition corner :: "config \<Rightarrow> cint list \<Rightarrow> nat \<Rightarrow> nat \<Rightarrow> cint list \<Rightarrow> cint list option" where
  "corner g matrix i j = for_each (\<lambda>k. for_each (\<lambda>l. move g matrix i j (k, l)) [0..<R_COL g - j]) [0..<R_ROW g - i]"

text \<open>\<open>for (; i <= n - TILE_SIZE; i += TILE_SIZE)\<close>, with the last \<open>i\<close>.\<close>

function for_tiles :: "nat \<Rightarrow> nat \<Rightarrow> (nat \<Rightarrow> 's \<Rightarrow> 's option) \<Rightarrow> 's \<Rightarrow> (nat \<times> 's) option" where
  "for_tiles i n f s = (if i + TILE_SIZE \<le> n then do { s \<leftarrow> f i s; for_tiles (i + TILE_SIZE) n f s } else Some (i, s))"
  by pat_completeness auto
termination
  by (relation "measure (\<lambda>(i, n, f, s). n - i)") (auto simp: TILE_SIZE_def)

declare for_tiles.simps [simp del]

definition tiled_transpose :: "config \<Rightarrow> cint list \<Rightarrow> cint list \<Rightarrow> cint list option" where
  "tiled_transpose g new_matrix matrix = do {
     (i, new_matrix) \<leftarrow> for_tiles 0 (R_ROW g) (\<lambda>i new_matrix. do {
        (j, new_matrix) \<leftarrow> for_tiles 0 (R_COL g) (full_tile g matrix i) new_matrix;
        right_edge g matrix i j new_matrix }) new_matrix;
     (j, new_matrix) \<leftarrow> for_tiles 0 (R_COL g) (bottom_edge g matrix i) new_matrix;
     corner g matrix i j new_matrix }"

section \<open>The products\<close>

definition optimized_matmul_impl :: "config \<Rightarrow> cint list \<Rightarrow> cint list \<Rightarrow> cint list \<Rightarrow> cint list \<Rightarrow> cint list option" where
  "optimized_matmul_impl g fresh L R result = do {
     R_T \<leftarrow> tiled_transpose g fresh R;
     for_each (\<lambda>i. for_each (\<lambda>j result. do {
       v \<leftarrow> vec_dot L (i * L_COL g) R_T (j * R_ROW g) (L_COL g);
       arr_set result (i * R_COL g + j) v }) [0..<R_COL g]) [0..<L_ROW g] result }"

definition matmul :: "config \<Rightarrow> cint list \<Rightarrow> cint list \<Rightarrow> cint list \<Rightarrow> cint list option" where
  "matmul g L R = for_each (\<lambda>i. for_each (\<lambda>j result. do {
     result \<leftarrow> arr_set result (i * R_COL g + j) 0;
     for_each (\<lambda>k result. do {
       s \<leftarrow> arr_get result (i * R_COL g + j);
       x \<leftarrow> arr_get L (i * L_COL g + k);
       y \<leftarrow> arr_get R (k * R_COL g + j);
       p \<leftarrow> int_mul x y;
       s \<leftarrow> int_add s p;
       arr_set result (i * R_COL g + j) s }) [0..<L_COL g] result }) [0..<R_COL g]) [0..<L_ROW g]"

section \<open>\<open>main\<close>\<close>

text \<open>\<open>None\<close> in the files: the file cannot be opened, and the program exits.\<close>

definition load_matrix :: "(string \<Rightarrow> cint list option) \<Rightarrow> string \<Rightarrow> cint list \<Rightarrow> nat \<Rightarrow> nat \<Rightarrow> cint list option" where
  "load_matrix files filename matrix rows cols = (case files filename of
     None \<Rightarrow> None
   | Some content \<Rightarrow> let got = take (rows * cols) content in Some (got @ drop (length got) matrix))"

definition zero_result :: "config \<Rightarrow> cint list \<Rightarrow> cint list option" where
  "zero_result g = for_each (\<lambda>i. for_each (\<lambda>j result. arr_set result (i * R_COL g + j) 0) [0..<R_COL g]) [0..<L_ROW g]"

fun validate_row :: "config \<Rightarrow> cint list \<Rightarrow> cint list \<Rightarrow> nat \<Rightarrow> nat list \<Rightarrow> nat \<times> string \<Rightarrow> (nat \<times> string) option" where
  "validate_row g result true_value i [] st = Some st"
| "validate_row g result true_value i (j # js) (mismatches, out) = do {
     calc \<leftarrow> arr_get result (i * R_COL g + j);
     expected \<leftarrow> arr_get true_value (i * R_COL g + j);
     if calc \<noteq> expected then
       let out = out @ ''Mismatch at ('' @ fmt_d (int i) @ '', '' @ fmt_d (int j) @ ''): calc='' @ fmt_d (sint calc) @
             '', expected='' @ fmt_d (sint expected) @ [newline];
           mismatches = mismatches + 1
       in if 64 \<le> mismatches
          then Some (mismatches, out @ ''More than 64 mismatches, stopping validation.'' @ [newline])
          else validate_row g result true_value i js (mismatches, out)
     else validate_row g result true_value i js (mismatches, out) }"

fun validate_rows :: "config \<Rightarrow> cint list \<Rightarrow> cint list \<Rightarrow> nat list \<Rightarrow> nat \<times> string \<Rightarrow> (nat \<times> string) option" where
  "validate_rows g result true_value [] st = Some st"
| "validate_rows g result true_value (i # is) (mismatches, out) =
     (if 64 \<le> mismatches then Some (mismatches, out)
      else do {
        st \<leftarrow> validate_row g result true_value i [0..<R_COL g] (mismatches, out);
        validate_rows g result true_value is st })"

text \<open>The exit code and the output.  \<open>fresh\<close> gives the contents of the five blocks.\<close>

definition lab3_main :: "config \<Rightarrow> (nat \<Rightarrow> cint list) \<Rightarrow> (nat \<Rightarrow> string) \<Rightarrow> (string \<Rightarrow> cint list option) \<Rightarrow> (int \<times> string) option" where
  "lab3_main g fresh secs files = (
     let out = ''Loading L matrix.....'' in
     case load_matrix files ''L.dat'' (fresh 0) (L_ROW g) (L_COL g) of None \<Rightarrow> Some (1, out) | Some L \<Rightarrow>
     let out = out @ ''Done'' @ [newline] @ ''Loading R matrix.....'' in
     case load_matrix files ''R.dat'' (fresh 1) (R_ROW g) (R_COL g) of None \<Rightarrow> Some (1, out) | Some R \<Rightarrow>
     let out = out @ ''Done'' @ [newline] in do {
       result \<leftarrow> zero_result g (fresh 2);
       let out = out @ ''Matmul begin....'';
       result \<leftarrow> matmul g L R result;
       let out = out @ ''Done in '' @ secs 0 @ '' s'' @ [newline];
       result \<leftarrow> zero_result g result;
       let out = out @ ''Optimized matmul begin....'';
       result \<leftarrow> optimized_matmul_impl g (fresh 4) L R result;
       let out = out @ ''Done in '' @ secs 1 @ '' s'' @ [newline] @ ''Loading true value matrix.....'';
       (case load_matrix files ''true_value.dat'' (fresh 3) (L_ROW g) (R_COL g) of None \<Rightarrow> Some (1, out) | Some true_value \<Rightarrow> do {
         let out = out @ ''Done'' @ [newline];
         (mismatches, out) \<leftarrow> validate_rows g result true_value [0..<L_ROW g] (0, out);
         Some (0, out @ (if mismatches = 0 then ''Validation passed.'' @ [newline]
           else ''Validation failed with '' @ fmt_d (int mismatches) @ '' mismatches.'' @ [newline])) }) })"

section \<open>The transpose\<close>

lemma for_tiles_from: "t \<le> n div TILE_SIZE \<Longrightarrow>
  for_tiles (t * TILE_SIZE) n f s = do { s \<leftarrow> for_each f (map (\<lambda>t. t * TILE_SIZE) [t..<n div TILE_SIZE]) s; Some (n div TILE_SIZE * TILE_SIZE, s) }"
proof (induction "n div TILE_SIZE - t" arbitrary: t s)
  case 0
  then have "t = n div TILE_SIZE" by simp
  then show ?case using div_mult_mod_eq [of n TILE_SIZE] mod_less_divisor [of TILE_SIZE n]
    by (subst for_tiles.simps) (auto simp: TILE_SIZE_def)
next
  case (Suc d)
  then have "t < n div TILE_SIZE" by simp
  then have "t * TILE_SIZE + TILE_SIZE \<le> n" "[t..<n div TILE_SIZE] = t # [Suc t..<n div TILE_SIZE]"
    by (auto simp: upt_conv_Cons TILE_SIZE_def)
  moreover have "for_tiles (Suc t * TILE_SIZE) n f s = do { s \<leftarrow> for_each f (map (\<lambda>t. t * TILE_SIZE) [Suc t..<n div TILE_SIZE]) s;
      Some (n div TILE_SIZE * TILE_SIZE, s) }" for s
    using Suc.hyps(1) [of "Suc t" s] Suc.hyps(2) \<open>t < n div TILE_SIZE\<close> by simp
  ultimately show ?case
    by (subst for_tiles.simps) (simp add: add.commute split: Option.bind_split)
qed

definition tiles :: "nat \<Rightarrow> nat list" where
  "tiles n = map (\<lambda>t. t * TILE_SIZE) [0..<n div TILE_SIZE]"

lemma for_tiles_tiles: "for_tiles 0 n f s = do { s \<leftarrow> for_each f (tiles n) s; Some (n div TILE_SIZE * TILE_SIZE, s) }"
  using for_tiles_from [of 0 n f s] by (simp add: tiles_def)

text \<open>The element in row \<open>r\<close> and column \<open>c\<close> goes to row \<open>c\<close> and column \<open>r\<close>.\<close>

interpretation transposed: filling "cells (R_ROW g) (R_COL g)" "\<lambda>(r, c). c * R_ROW g + r" "\<lambda>(r, c). matrix ! (r * R_COL g + c)" "R_ROW g * R_COL g"
  for g :: config and matrix :: "cint list"
proof
  show "inj_on (\<lambda>(r, c). c * R_ROW g + r) (cells (R_ROW g) (R_COL g))"
    by (auto simp: inj_on_def cell_unique)
  show "(case x of (r, c) \<Rightarrow> c * R_ROW g + r) < R_ROW g * R_COL g" if "x \<in> cells (R_ROW g) (R_COL g)" for x
    using that cell_room [of "snd x" "R_COL g" "fst x" "R_ROW g"] by (cases x) (auto simp: mult.commute)
qed

lemma move_fills:
  assumes "length matrix = R_ROW g * R_COL g" "i + k < R_ROW g" "j + l < R_COL g"
  shows "transposed.fills g matrix (move g matrix i j (k, l)) {(i + k, j + l)}"
proof (rule transposed.fills_write)
  fix a :: "cint list" assume "length a = R_ROW g * R_COL g"
  moreover have idx: "i * R_COL g + j + (k * R_COL g + l) = (i + k) * R_COL g + (j + l)"
    "j * R_ROW g + i + (l * R_ROW g + k) = (j + l) * R_ROW g + (i + k)" by (simp_all add: algebra_simps)
  ultimately have "arr_get matrix ((i + k) * R_COL g + (j + l)) = Some (matrix ! ((i + k) * R_COL g + (j + l)))"
    "arr_set a ((j + l) * R_ROW g + (i + k)) v = Some (a[(j + l) * R_ROW g + (i + k) := v])" for v
    using assms cell_room [of "i + k" "R_ROW g" "j + l" "R_COL g"] cell_room [of "j + l" "R_COL g" "i + k" "R_ROW g"]
    by (simp_all add: mult.commute)
  then show "move g matrix i j (k, l) a =
      Some (a[(case (i + k, j + l) of (r, c) \<Rightarrow> c * R_ROW g + r) := (case (i + k, j + l) of (r, c) \<Rightarrow> matrix ! (r * R_COL g + c))])"
    by (simp only: move_def Let_def prod.case idx bind.bind_lunit)
qed (use assms in simp)

definition region :: "nat \<Rightarrow> nat \<Rightarrow> nat \<Rightarrow> nat \<Rightarrow> (nat \<times> nat) set" where
  "region i j h w = {i..<i + h} \<times> {j..<j + w}"

lemma region_cell: "x \<in> region i j h w \<longleftrightarrow> (\<exists>k l. k < h \<and> l < w \<and> x = (i + k, j + l))"
  by (cases x) (auto simp: region_def nat_le_iff_add)

lemma set_steps: "set (steps 4 TILE_SIZE) = (\<lambda>t. t * 4) ` {..<8}"
  by (auto simp: steps_def TILE_SIZE_def)

lemma four_steps: "\<exists>a. (n::nat) = n div 4 * 4 + a \<and> a \<in> {0, 1, 2, 3}"
proof -
  have "n mod 4 < 4" by simp
  then have "n mod 4 \<in> {0, 1, 2, 3}" by auto
  then show ?thesis by (metis div_mult_mod_eq)
qed

lemma step_tile: "k < TILE_SIZE \<Longrightarrow> k div 4 * 4 \<in> set (steps 4 TILE_SIZE)"
  unfolding set_steps by (rule imageI) (simp add: TILE_SIZE_def)

lemma step_bound: "k \<in> set (steps 4 TILE_SIZE) \<Longrightarrow> k + 3 < TILE_SIZE"
  unfolding set_steps by (auto simp: TILE_SIZE_def)

abbreviation four :: "nat \<Rightarrow> nat set" where
  "four k \<equiv> {k, k + 1, k + 2, k + 3}"

lemma set_blocks: "set (tile_block k l) = four k \<times> four l" "set (column_block k l) = four k \<times> {l}" "set (row_block k l) = {k} \<times> four l"
  by (auto simp: tile_block_def column_block_def row_block_def)

lemma in_step: "k < TILE_SIZE \<Longrightarrow> \<exists>k' \<in> set (steps 4 TILE_SIZE). k \<in> four k'"
proof (rule bexI [OF _ step_tile])
  obtain a where "k = k div 4 * 4 + a" "a \<in> {0, 1, 2, 3}" using four_steps by blast
  then show "k \<in> four (k div 4 * 4)" by auto
qed

lemma four_bound: "k \<in> four k' \<Longrightarrow> k' \<in> set (steps 4 TILE_SIZE) \<Longrightarrow> k < TILE_SIZE"
  using step_bound [of k'] by auto

text \<open>A nest of two loops over \<open>ks\<close> and \<open>ls\<close> with blocks that together visit \<open>{0..<h} \<times> {0..<w}\<close> fills that region.\<close>

lemma nest_fills:
  assumes "length matrix = R_ROW g * R_COL g" "i + h \<le> R_ROW g" "j + w \<le> R_COL g"
    and inside: "\<And>k l. k \<in> set ks \<Longrightarrow> l \<in> set ls \<Longrightarrow> set (blk k l) \<subseteq> {0..<h} \<times> {0..<w}"
    and all: "\<And>k l. k < h \<Longrightarrow> l < w \<Longrightarrow> \<exists>k' \<in> set ks. \<exists>l' \<in> set ls. (k, l) \<in> set (blk k' l')"
  shows "transposed.fills g matrix (for_each (\<lambda>k. for_each (\<lambda>l. for_each (move g matrix i j) (blk k l)) ls) ks) (region i j h w)"
proof (rule transposed.fills_less [OF transposed.fills_each [OF transposed.fills_each [OF transposed.fills_each]]])
  fix k l x
  assume "k \<in> set ks" "l \<in> set ls" "x \<in> set (blk k l)"
  with inside [of k l] have "x \<in> {0..<h} \<times> {0..<w}" by blast
  then have "fst x < h" "snd x < w" by (auto simp: mem_Times_iff)
  then show "transposed.fills g matrix (move g matrix i j x) {(i + fst x, j + snd x)}"
    using move_fills [OF assms(1), of i "fst x" j "snd x"] assms by simp
next
  show "region i j h w \<subseteq> (\<Union>k \<in> set ks. \<Union>l \<in> set ls. \<Union>x \<in> set (blk k l). {(i + fst x, j + snd x)})"
  proof
    fix y assume "y \<in> region i j h w"
    then obtain k l where kl: "k < h" "l < w" "y = (i + k, j + l)" by (auto simp: region_cell)
    from all [OF kl(1,2)] obtain k' l' where "k' \<in> set ks" "l' \<in> set ls" "(k, l) \<in> set (blk k' l')" by blast
    then show "y \<in> (\<Union>k \<in> set ks. \<Union>l \<in> set ls. \<Union>x \<in> set (blk k l). {(i + fst x, j + snd x)})"
      using kl(3) by (intro UN_I [of k'] UN_I [of l'] UN_I [of "(k, l)"]) auto
  qed
qed

lemma full_tile_fills:
  assumes "length matrix = R_ROW g * R_COL g" "i + TILE_SIZE \<le> R_ROW g" "j + TILE_SIZE \<le> R_COL g"
  shows "transposed.fills g matrix (full_tile g matrix i j) (region i j TILE_SIZE TILE_SIZE)"
  unfolding full_tile_def
proof (rule nest_fills [OF assms])
  fix k l
  show "set (tile_block k l) \<subseteq> {0..<TILE_SIZE} \<times> {0..<TILE_SIZE}" if "k \<in> set (steps 4 TILE_SIZE)" "l \<in> set (steps 4 TILE_SIZE)"
    using four_bound [OF _ that(1)] four_bound [OF _ that(2)] unfolding set_blocks by (auto simp del: insert_iff)
  show "\<exists>k' \<in> set (steps 4 TILE_SIZE). \<exists>l' \<in> set (steps 4 TILE_SIZE). (k, l) \<in> set (tile_block k' l')" if "k < TILE_SIZE" "l < TILE_SIZE"
    using in_step [OF that(1)] in_step [OF that(2)] unfolding set_blocks by blast
qed

lemma right_edge_fills:
  assumes "length matrix = R_ROW g * R_COL g" "i + TILE_SIZE \<le> R_ROW g" "j \<le> R_COL g"
  shows "transposed.fills g matrix (right_edge g matrix i j) (region i j TILE_SIZE (R_COL g - j))"
  unfolding right_edge_def
proof (rule nest_fills [OF assms(1,2)])
  fix k l
  show "set (column_block k l) \<subseteq> {0..<TILE_SIZE} \<times> {0..<R_COL g - j}" if "k \<in> set (steps 4 TILE_SIZE)" "l \<in> set [0..<R_COL g - j]"
    using four_bound [OF _ that(1)] that(2) unfolding set_blocks by (auto simp del: insert_iff)
  show "\<exists>k' \<in> set (steps 4 TILE_SIZE). \<exists>l' \<in> set [0..<R_COL g - j]. (k, l) \<in> set (column_block k' l')" if "k < TILE_SIZE" "l < R_COL g - j"
  proof -
    have "l \<in> set [0..<R_COL g - j]" using that by simp
    with in_step [OF that(1)] show ?thesis unfolding set_blocks by blast
  qed
qed (use assms in simp)

lemma bottom_edge_fills:
  assumes "length matrix = R_ROW g * R_COL g" "i \<le> R_ROW g" "j + TILE_SIZE \<le> R_COL g"
  shows "transposed.fills g matrix (bottom_edge g matrix i j) (region i j (R_ROW g - i) TILE_SIZE)"
  unfolding bottom_edge_def
proof (rule nest_fills [OF assms(1)])
  fix k l
  show "set (row_block k l) \<subseteq> {0..<R_ROW g - i} \<times> {0..<TILE_SIZE}" if "k \<in> set [0..<R_ROW g - i]" "l \<in> set (steps 4 TILE_SIZE)"
    using four_bound [OF _ that(2)] that(1) unfolding set_blocks by (auto simp del: insert_iff)
  show "\<exists>k' \<in> set [0..<R_ROW g - i]. \<exists>l' \<in> set (steps 4 TILE_SIZE). (k, l) \<in> set (row_block k' l')" if "k < R_ROW g - i" "l < TILE_SIZE"
  proof -
    have "k \<in> set [0..<R_ROW g - i]" using that by simp
    with in_step [OF that(2)] show ?thesis unfolding set_blocks by blast
  qed
qed (use assms in simp_all)

lemma corner_fills:
  assumes "length matrix = R_ROW g * R_COL g" "i \<le> R_ROW g" "j \<le> R_COL g"
  shows "transposed.fills g matrix (corner g matrix i j) (region i j (R_ROW g - i) (R_COL g - j))"
proof -
  have "corner g matrix i j = for_each (\<lambda>k. for_each (\<lambda>l. for_each (move g matrix i j) [(k, l)]) [0..<R_COL g - j]) [0..<R_ROW g - i]"
    by (simp only: corner_def for_each_one)
  then show ?thesis using assms by (auto intro!: nest_fills simp del: for_each.simps)
qed

lemma tile_in: "i \<in> set (tiles n) \<Longrightarrow> i + TILE_SIZE \<le> n"
  by (auto simp: tiles_def TILE_SIZE_def)

lemma tile_of:
  assumes "r < n"
  shows "(\<exists>i \<in> set (tiles n). i \<le> r \<and> r < i + TILE_SIZE) \<or> n div TILE_SIZE * TILE_SIZE \<le> r"
proof (cases "r div TILE_SIZE < n div TILE_SIZE")
  case True
  then have "r div TILE_SIZE * TILE_SIZE \<in> set (tiles n)" by (auto simp: tiles_def intro!: imageI)
  moreover have "r div TILE_SIZE * TILE_SIZE \<le> r" "r < r div TILE_SIZE * TILE_SIZE + TILE_SIZE"
    by (simp_all add: TILE_SIZE_def)
  ultimately show ?thesis by blast
next
  case False
  then have "n div TILE_SIZE * TILE_SIZE \<le> r div TILE_SIZE * TILE_SIZE" by simp
  then show ?thesis using div_mult_mod_eq [of r TILE_SIZE] by linarith
qed

lemma tiled_transpose_loops:
  "tiled_transpose g new_matrix matrix =
    (let I = R_ROW g div TILE_SIZE * TILE_SIZE; J = R_COL g div TILE_SIZE * TILE_SIZE in
     for_each (\<lambda>i a. for_each (full_tile g matrix i) (tiles (R_COL g)) a \<bind> right_edge g matrix i J) (tiles (R_ROW g)) new_matrix \<bind>
     (\<lambda>a. for_each (bottom_edge g matrix I) (tiles (R_COL g)) a \<bind> corner g matrix I J))"
  by (simp add: tiled_transpose_def for_tiles_tiles bind_assoc Let_def)

lemma tiled_transpose_fills:
  assumes "length matrix = R_ROW g * R_COL g"
  shows "transposed.fills g matrix (\<lambda>a. tiled_transpose g a matrix) (cells (R_ROW g) (R_COL g))"
proof -
  define I J where "I = R_ROW g div TILE_SIZE * TILE_SIZE" and "J = R_COL g div TILE_SIZE * TILE_SIZE"
  have IJ: "I \<le> R_ROW g" "J \<le> R_COL g" by (simp_all add: I_def J_def)
  define S where "S = (\<Union>i \<in> set (tiles (R_ROW g)). (\<Union>j \<in> set (tiles (R_COL g)). region i j TILE_SIZE TILE_SIZE) \<union> region i J TILE_SIZE (R_COL g - J)) \<union>
    ((\<Union>j \<in> set (tiles (R_COL g)). region I j (R_ROW g - I) TILE_SIZE) \<union> region I J (R_ROW g - I) (R_COL g - J))"
  have "transposed.fills g matrix (\<lambda>a. tiled_transpose g a matrix) S"
    unfolding tiled_transpose_loops Let_def S_def I_def [symmetric] J_def [symmetric]
    by (intro transposed.fills_seq transposed.fills_each full_tile_fills right_edge_fills bottom_edge_fills corner_fills assms IJ tile_in)
  moreover have "cells (R_ROW g) (R_COL g) \<subseteq> S"
  proof
    fix x assume "x \<in> cells (R_ROW g) (R_COL g)"
    then obtain r c where x: "x = (r, c)" "r < R_ROW g" "c < R_COL g" by (cases x) auto
    from tile_of [OF x(2)] tile_of [OF x(3)] show "x \<in> S"
      unfolding x(1) S_def region_def I_def [symmetric] J_def [symmetric] using x by fastforce
  qed
  ultimately show ?thesis by (rule transposed.fills_less)
qed

lemma tiled_transpose_correct:
  assumes "length matrix = R_ROW g * R_COL g" "length new_matrix = R_ROW g * R_COL g"
  shows "\<exists>T. tiled_transpose g new_matrix matrix = Some T \<and> length T = R_ROW g * R_COL g \<and>
    (\<forall>r < R_ROW g. \<forall>c < R_COL g. T ! (c * R_ROW g + r) = matrix ! (r * R_COL g + c))"
  using transposed.fills_all [OF tiled_transpose_fills [OF assms(1)] assms(2)] by (fastforce simp: cells_def)

end
