(* ===== verification/Matrix_Product.thy ===== *)
theory Matrix_Product
  imports Tiled_Matmul
begin

text \<open>
  The products of \<open>Tiled_Matmul\<close> on matrices like those \<open>data_gen.py\<close> writes, with elements in \<open>[-256, 256)\<close>: no \<open>int\<close> overflows, and both compute
  the product over the integers.
\<close>

section \<open>The dot product\<close>

definition fits :: "int \<Rightarrow> bool" where
  "fits z \<longleftrightarrow> - (2 ^ 31) \<le> z \<and> z < 2 ^ 31"

lemma sint_of_int: "fits z \<Longrightarrow> sint (word_of_int z :: cint) = z"
  using as_int_id [of z] by (simp add: fits_def as_int_def)

lemma int_add_of_int: "fits x \<Longrightarrow> fits y \<Longrightarrow> fits (x + y) \<Longrightarrow> int_add (word_of_int x) (word_of_int y) = Some (word_of_int (x + y))"
  by (simp add: int_add_def sint_of_int) (simp add: fits_def)

lemma word_mult_sint: "a * b = word_of_int (sint a * sint b)" for a b :: cint
  by simp

lemma int_mul_sint: "fits (sint a * sint b) \<Longrightarrow> int_mul a b = Some (word_of_int (sint a * sint b))"
  unfolding word_mult_sint [symmetric] by (simp add: int_mul_def fits_def)

lemma sum_bound: "(\<And>k. k < m \<Longrightarrow> \<bar>P k\<bar> \<le> B) \<Longrightarrow> \<bar>\<Sum>k < m. P k\<bar> \<le> int m * B" for P :: "nat \<Rightarrow> int"
proof (induction m)
  case (Suc m)
  then have "\<bar>\<Sum>k < m. P k\<bar> \<le> int m * B" "\<bar>P m\<bar> \<le> B" by simp_all
  then show ?case by (simp add: distrib_right)
qed simp

lemma loadu_in: "p + 8 \<le> length a \<Longrightarrow> loadu a p = Some (map (\<lambda>i. a ! (p + i)) [0..<8])"
  by (auto simp: loadu_def intro!: nth_equalityI)

lemma those_Some: "those (map (\<lambda>x. Some (f x)) xs) = Some (map f xs)"
  by (induction xs) auto

lemma load_eight_in:
  assumes "p + 64 \<le> length a"
  shows "load_eight a p = Some (map (\<lambda>v. map (\<lambda>i. a ! (p + 8 * v + i)) [0..<8]) [0..<8])"
proof -
  have "map (\<lambda>v. loadu a (p + 8 * v)) [0..<8] = map (\<lambda>v. Some (map (\<lambda>i. a ! (p + 8 * v + i)) [0..<8])) [0..<8]"
    using assms by (intro map_cong refl loadu_in) auto
  then show ?thesis unfolding load_eight_def by (simp only: those_Some)
qed

definition lanes :: "(nat \<Rightarrow> nat \<Rightarrow> int) \<Rightarrow> cint list list" where
  "lanes f = map (\<lambda>v. map (\<lambda>i. word_of_int (f v i)) [0..<8]) [0..<8]"

lemma nth_lanes: "v < 8 \<Longrightarrow> i < 8 \<Longrightarrow> lanes f ! v ! i = word_of_int (f v i)"
  by (simp add: lanes_def)

lemma zip_map_same: "zip (map f xs) (map g xs) = map (\<lambda>x. (f x, g x)) xs"
  by (induction xs) auto

lemma add_products:
  "map2 add_epi32 (lanes f) (map2 mullo (map (\<lambda>v. map (\<lambda>i. x v i) [0..<8]) [0..<8]) (map (\<lambda>v. map (\<lambda>i. y v i) [0..<8]) [0..<8])) =
    lanes (\<lambda>v i. f v i + sint (x v i) * sint (y v i))"
  by (simp add: lanes_def zip_map_same add_epi32_def mullo_def del: upt_Suc)

lemma dot_loop_lanes:
  assumes "pa + n \<le> length a" "pb + n \<le> length b" "t \<le> n div 64"
  defines "P \<equiv> \<lambda>k. sint (a ! (pa + k)) * sint (b ! (pb + k))"
  shows "dot_loop a b (pa + 64 * t) (pb + 64 * t) (n - 64 * t) (lanes (\<lambda>v i. \<Sum>u < t. P (64 * u + 8 * v + i))) =
    Some (pa + 64 * (n div 64), pb + 64 * (n div 64), n - 64 * (n div 64), lanes (\<lambda>v i. \<Sum>u < n div 64. P (64 * u + 8 * v + i)))"
  using assms(3)
proof (induction "n div 64 - t" arbitrary: t)
  case 0
  then have t: "t = n div 64" by simp
  have "\<not> 64 \<le> n - 64 * (n div 64)" by presburger
  then show ?case unfolding t by (subst dot_loop.simps) (simp only: if_False)
next
  case (Suc d)
  then have t: "t < n div 64" by simp
  then have "64 * Suc t \<le> n" by (simp add: mult.commute less_eq_div_iff_mult_less_eq Suc_le_eq)
  with assms(1,2) have "load_eight a (pa + 64 * t) = Some (map (\<lambda>v. map (\<lambda>i. a ! (pa + 64 * t + 8 * v + i)) [0..<8]) [0..<8])"
    "load_eight b (pb + 64 * t) = Some (map (\<lambda>v. map (\<lambda>i. b ! (pb + 64 * t + 8 * v + i)) [0..<8]) [0..<8])"
    "64 \<le> n - 64 * t" by (auto intro!: load_eight_in)
  moreover have "sint (a ! (pa + 64 * t + 8 * v + i)) * sint (b ! (pb + 64 * t + 8 * v + i)) = P (64 * t + 8 * v + i)" for v i
    by (simp add: P_def add.assoc)
  ultimately have "dot_loop a b (pa + 64 * t) (pb + 64 * t) (n - 64 * t) (lanes (\<lambda>v i. \<Sum>u < t. P (64 * u + 8 * v + i))) =
      dot_loop a b (pa + 64 * Suc t) (pb + 64 * Suc t) (n - 64 * Suc t) (lanes (\<lambda>v i. \<Sum>u < Suc t. P (64 * u + 8 * v + i)))"
    by (subst dot_loop.simps) (simp add: add_products add.commute add.left_commute del: upt_Suc)
  then show ?case using Suc.hyps(1) [of "Suc t"] Suc.hyps(2) t by simp
qed

lemma fits_small: "\<bar>z\<bar> \<le> c \<Longrightarrow> c < 2 ^ 31 \<Longrightarrow> fits z"
  by (simp add: fits_def abs_le_iff)

text \<open>Adding \<open>m\<close> numbers of at most \<open>B\<close>, given as words, to one of at most \<open>n * B\<close>.\<close>

lemma add_up:
  assumes "\<And>k. k < m \<Longrightarrow> \<bar>P k\<bar> \<le> B" "\<bar>z\<bar> \<le> int n * B"
    and add: "\<And>k s. k < m \<Longrightarrow> \<bar>s\<bar> \<le> int (n + k) * B \<Longrightarrow> f k (word_of_int s) = Some (word_of_int (s + P k))"
  shows "for_each f [0..<m] (word_of_int z) = Some (word_of_int (z + (\<Sum>k < m. P k)) :: cint)"
proof -
  have "\<exists>s'. for_each f [0..<m] (word_of_int z) = Some s' \<and> s' = word_of_int (z + (\<Sum>k < m. P k))"
  proof (rule upto_invariant)
    fix k and s :: cint assume k: "k < m" and s: "s = word_of_int (z + (\<Sum>k < k. P k))"
    have "\<bar>\<Sum>k < k. P k\<bar> \<le> int k * B" using assms(1) k by (intro sum_bound) simp
    then have "\<bar>z + (\<Sum>k < k. P k)\<bar> \<le> int (n + k) * B" using assms(2) by (simp add: distrib_right)
    with add [OF k] show "\<exists>s'. f k s = Some s' \<and> s' = word_of_int (z + (\<Sum>k < Suc k. P k))"
      unfolding s by (simp add: add.assoc del: of_int_add of_int_sum)
  qed simp
  then show ?thesis by simp
qed

lemma int_add_step:
  assumes "\<bar>s\<bar> \<le> int c * B" "\<bar>x\<bar> \<le> B" "int (Suc c) * B < 2 ^ 31"
  shows "int_add (word_of_int s) (word_of_int x) = Some (word_of_int (s + x))"
proof (rule int_add_of_int)
  have "0 \<le> B" "0 \<le> int c * B" using assms(1,2) by linarith+
  then show "fits s" "fits x" "fits (s + x)" using assms by (auto intro!: fits_small [OF _ assms(3)] simp: distrib_right)
qed

lemma add_lanes_sum:
  assumes "\<And>v i. v < 8 \<Longrightarrow> i < 8 \<Longrightarrow> \<bar>f v i\<bar> \<le> B" "64 * B < 2 ^ 31"
  shows "add_lanes (lanes f) = Some (word_of_int (\<Sum>i < 8. \<Sum>v < 8. f v i))"
proof -
  have B: "0 \<le> B" using assms(1) [of 0 0] by simp
  have outer: "\<bar>\<Sum>v < 8. f v i\<bar> \<le> 8 * B" if "i < 8" for i
    using sum_bound [of 8 "\<lambda>v. f v i" B] assms(1) that by simp
  have "for_each (\<lambda>i. for_each (\<lambda>v result. int_add result (lanes f ! v ! i)) [0..<8]) [0..<8] (word_of_int 0) =
      Some (word_of_int (0 + (\<Sum>i < 8. \<Sum>v < 8. f v i)))"
  proof (rule add_up [where n = 0 and B = "8 * B"])
    fix i s assume i: "i < (8::nat)" "\<bar>s\<bar> \<le> int (0 + i) * (8 * B)"
    show "for_each (\<lambda>v result. int_add result (lanes f ! v ! i)) [0..<8] (word_of_int s) = Some (word_of_int (s + (\<Sum>v < 8. f v i)))"
    proof (rule add_up [where n = "8 * i" and B = B])
      fix v s assume v: "v < (8::nat)" "\<bar>s\<bar> \<le> int (8 * i + v) * B"
      have "int (Suc (8 * i + v)) * B \<le> 64 * B" using i v B by (intro mult_right_mono) auto
      then show "int_add (word_of_int s) (lanes f ! v ! i) = Some (word_of_int (s + f v i))"
        using assms i v by (simp add: nth_lanes int_add_step del: of_nat_add of_nat_mult of_nat_Suc)
    qed (use assms i in \<open>auto simp: algebra_simps\<close>)
  qed (use outer in auto)
  then show ?thesis by (simp add: add_lanes_def)
qed

text \<open>The lanes and the rest together are all products.\<close>

lemma sum_append: "(\<Sum>k < a + b. P k) = (\<Sum>k < a. P k) + (\<Sum>j < b. P (a + j))" for P :: "nat \<Rightarrow> int"
  by (induction b) simp_all

lemma sum_rows: "(\<Sum>k < m * n. P k) = (\<Sum>i < m. \<Sum>j < n. P (i * n + j))" for P :: "nat \<Rightarrow> int"
  by (induction m) (simp_all add: sum_append add.commute [of n])

lemma sum_lanes:
  "(\<Sum>i < 8. \<Sum>v < 8. \<Sum>u < n div 64. P (64 * u + 8 * v + i)) + (\<Sum>k < n - 64 * (n div 64). P (64 * (n div 64) + k)) = (\<Sum>k < n. P k)"
  for P :: "nat \<Rightarrow> int"
proof -
  define Q where "Q = n div 64"
  have "(\<Sum>j < 64. P (u * 64 + j)) = (\<Sum>v < 8. \<Sum>i < 8. P (64 * u + 8 * v + i))" for u
  proof -
    have "(8::nat) * 8 = 64" "64 * u + 8 * v + i = u * 64 + (v * 8 + i)" for v i :: nat by simp_all
    then show ?thesis using sum_rows [of "\<lambda>j. P (u * 64 + j)" 8 8] by (simp only:)
  qed
  then have "(\<Sum>k < Q * 64. P k) = (\<Sum>u < Q. \<Sum>v < 8. \<Sum>i < 8. P (64 * u + 8 * v + i))"
    unfolding sum_rows by (rule sum.cong [OF refl])
  also have "\<dots> = (\<Sum>v < 8. \<Sum>u < Q. \<Sum>i < 8. P (64 * u + 8 * v + i))" by (rule sum.swap)
  also have "\<dots> = (\<Sum>v < 8. \<Sum>i < 8. \<Sum>u < Q. P (64 * u + 8 * v + i))" by (intro sum.cong refl sum.swap)
  also have "\<dots> = (\<Sum>i < 8. \<Sum>v < 8. \<Sum>u < Q. P (64 * u + 8 * v + i))" by (rule sum.swap)
  finally have "(\<Sum>k < n. P k) = (\<Sum>i < 8. \<Sum>v < 8. \<Sum>u < Q. P (64 * u + 8 * v + i)) + (\<Sum>k < n - 64 * Q. P (64 * Q + k))"
    using sum_append [of P "64 * Q" "n - 64 * Q"] by (simp add: Q_def mult.commute)
  then show ?thesis by (simp add: Q_def)
qed

lemma dot_rest_sum:
  assumes "\<And>k. k < n \<Longrightarrow> pa + k < length a \<and> pb + k < length b"
    and P: "\<And>k. k < n \<Longrightarrow> P k = sint (a ! (pa + k)) * sint (b ! (pb + k)) \<and> \<bar>P k\<bar> \<le> B"
    and "\<bar>z\<bar> \<le> int c * B" "int (c + n) * B < 2 ^ 31" "0 \<le> B"
  shows "dot_rest a b pa pb n (word_of_int z) = Some (word_of_int (z + (\<Sum>k < n. P k)))"
  unfolding dot_rest_def
proof (rule add_up [where n = c and B = B])
  fix k s assume k: "k < n" "\<bar>s\<bar> \<le> int (c + k) * B"
  have "int (Suc (c + k)) * B \<le> int (c + n) * B" using k assms(5) by (intro mult_right_mono) auto
  then have c: "int (Suc (c + k)) * B < 2 ^ 31" using assms(4) by simp
  have "1 * B \<le> int (Suc (c + k)) * B" using assms(5) by (intro mult_right_mono) auto
  then have "\<bar>P k\<bar> \<le> int (Suc (c + k)) * B" using P [OF k(1)] by linarith
  then have "fits (P k)" using c by (rule fits_small)
  then have "int_mul (a ! (pa + k)) (b ! (pb + k)) = Some (word_of_int (P k))"
    using P [OF k(1)] int_mul_sint [of "a ! (pa + k)" "b ! (pb + k)"] by simp
  then show "do { x \<leftarrow> arr_get a (pa + k); y \<leftarrow> arr_get b (pb + k); p \<leftarrow> int_mul x y; int_add (word_of_int s) p } =
      Some (word_of_int (s + P k))"
    using assms(1) [OF k(1)] int_add_step [OF k(2) conjunct2 [OF P [OF k(1)]] c] P [OF k(1)] by simp
qed (use P assms(3) in blast)+

lemma vec_dot_sum:
  assumes "pa + n \<le> length a" "pb + n \<le> length b" "int n * B < 2 ^ 31"
    and P: "\<And>k. k < n \<Longrightarrow> \<bar>sint (a ! (pa + k)) * sint (b ! (pb + k))\<bar> \<le> B"
  shows "vec_dot a pa b pb n = Some (word_of_int (\<Sum>k < n. sint (a ! (pa + k)) * sint (b ! (pb + k))))"
proof -
  define P where "P k = sint (a ! (pa + k)) * sint (b ! (pb + k))" for k
  define Q where "Q = n div 64"
  define f where "f v i = (\<Sum>u < Q. P (64 * u + 8 * v + i))" for v i
  have Q: "64 * Q \<le> n" by (simp add: Q_def)
  have "0 \<le> B" if "0 < n" using P [OF that] by linarith
  show ?thesis
  proof (cases "n = 0")
    case True
    then show ?thesis
      using add_lanes_sum [of "\<lambda>v i. 0" 0]
      by (simp add: vec_dot_def dot_loop.simps dot_rest_def lanes_def map_replicate_const)
  next
    case False
    then have B: "0 \<le> B" using P [of 0] by linarith
    have bound: "\<bar>P k\<bar> \<le> B" if "k < n" for k using P [OF that] by (simp add: P_def)
    have lane: "\<bar>f v i\<bar> \<le> int Q * B" if "v < 8" "i < 8" for v i
      unfolding f_def
    proof (rule sum_bound)
      fix u assume "u < Q"
      then have "64 * Suc u \<le> 64 * Q" by simp
      then show "\<bar>P (64 * u + 8 * v + i)\<bar> \<le> B" using that Q by (intro bound) simp
    qed
    have "int (64 * Q) * B \<le> int n * B" using Q B by (intro mult_right_mono) auto
    moreover have "int (64 * Q) * B = 64 * (int Q * B)" by simp
    ultimately have small: "64 * (int Q * B) < 2 ^ 31" using assms(3) by linarith
    have "dot_loop a b pa pb n (replicate 8 (replicate 8 0)) = Some (pa + 64 * Q, pb + 64 * Q, n - 64 * Q, lanes f)"
      using dot_loop_lanes [OF assms(1,2), of 0] by (simp add: lanes_def f_def [abs_def] P_def [abs_def] Q_def map_replicate_const)
    moreover have "add_lanes (lanes f) = Some (word_of_int (\<Sum>i < 8. \<Sum>v < 8. f v i))"
      using lane small by (rule add_lanes_sum)
    moreover have "dot_rest a b (pa + 64 * Q) (pb + 64 * Q) (n - 64 * Q) (word_of_int (\<Sum>i < 8. \<Sum>v < 8. f v i)) =
        Some (word_of_int ((\<Sum>i < 8. \<Sum>v < 8. f v i) + (\<Sum>k < n - 64 * Q. P (64 * Q + k))))"
    proof (rule dot_rest_sum [where c = "64 * Q" and B = B])
      have inner: "\<bar>\<Sum>v < 8. f v i\<bar> \<le> int 8 * (int Q * B)" if "i < 8" for i using that by (intro sum_bound lane)
      then have "\<bar>\<Sum>i < 8. \<Sum>v < 8. f v i\<bar> \<le> int 8 * (int 8 * (int Q * B))" by (rule sum_bound)
      then show "\<bar>\<Sum>i < 8. \<Sum>v < 8. f v i\<bar> \<le> int (64 * Q) * B" by simp
      show "int (64 * Q + (n - 64 * Q)) * B < 2 ^ 31" using assms(3) Q by simp
    qed (use assms(1,2) B bound Q in \<open>auto simp: P_def add.assoc\<close>)
    ultimately show ?thesis
      using sum_lanes [of P n] by (simp add: vec_dot_def f_def Q_def P_def del: of_int_add of_int_mult of_int_sum)
  qed
qed

section \<open>Row by row\<close>

interpretation row_major: filling "cells R C" "\<lambda>(i, j). i * C + j" val "R * C" for R C :: nat and val :: "nat \<times> nat \<Rightarrow> 'a"
  by unfold_locales (auto simp: inj_on_def cell_unique cell_room)

lemma row_major_loop:
  assumes "length a = R * C"
    and f: "\<And>i j a. i < R \<Longrightarrow> j < C \<Longrightarrow> length a = R * C \<Longrightarrow> f i j a = Some (a[i * C + j := v i j])"
  shows "for_each (\<lambda>i. for_each (f i) [0..<C]) [0..<R] a = Some (map (\<lambda>x. v (x div C) (x mod C)) [0..<R * C])"
proof -
  have "row_major.fills R C (\<lambda>(i, j). v i j) (for_each (\<lambda>i. for_each (f i) [0..<C]) [0..<R]) (cells R C)"
  proof (rule row_major.fills_less [OF row_major.fills_each [OF row_major.fills_each]])
    show "row_major.fills R C (\<lambda>(i, j). v i j) (f i j) {(i, j)}" if "i \<in> set [0..<R]" "j \<in> set [0..<C]" for i j
      using that f by (intro row_major.fills_write) auto
  qed auto
  from row_major.fills_all [OF this assms(1)] obtain a' where a': "for_each (\<lambda>i. for_each (f i) [0..<C]) [0..<R] a = Some a'"
    "length a' = R * C" "\<forall>x \<in> cells R C. a' ! (case x of (i, j) \<Rightarrow> i * C + j) = (case x of (i, j) \<Rightarrow> v i j)" by blast
  have "a' = map (\<lambda>x. v (x div C) (x mod C)) [0..<R * C]"
  proof (rule nth_equalityI)
    fix x assume "x < length a'"
    then obtain i j where "i < R" "j < C" "x = i * C + j" using a'(2) cell_exists by metis
    then show "a' ! x = map (\<lambda>x. v (x div C) (x mod C)) [0..<R * C] ! x"
      using a' cell_room [of i R j C] by (auto dest!: bspec [of _ _ "(i, j)"])
  qed (use a' in simp)
  with a' show ?thesis by simp
qed

section \<open>The products\<close>

definition dot :: "config \<Rightarrow> cint list \<Rightarrow> cint list \<Rightarrow> nat \<Rightarrow> nat \<Rightarrow> int" where
  "dot g L R i j = (\<Sum>k < L_COL g. sint (L ! (i * L_COL g + k)) * sint (R ! (k * R_COL g + j)))"

text \<open>The product over the integers, as a matrix of \<open>int\<close>s.\<close>

definition product_matrix :: "config \<Rightarrow> cint list \<Rightarrow> cint list \<Rightarrow> cint list" where
  "product_matrix g L R = map (\<lambda>x. word_of_int (dot g L R (x div R_COL g) (x mod R_COL g))) [0..<L_ROW g * R_COL g]"

text \<open>Matrices that \<open>data_gen.py\<close> writes.\<close>

definition generated :: "config \<Rightarrow> cint list \<Rightarrow> cint list \<Rightarrow> bool" where
  "generated g L R \<longleftrightarrow> L_COL g = R_ROW g \<and> L_COL g < 32768 \<and> length L = L_ROW g * L_COL g \<and> length R = R_ROW g * R_COL g \<and>
     (\<forall>x \<in> set L \<union> set R. - 256 \<le> sint x \<and> sint x < 256)"

lemma generated_products:
  assumes "generated g L R" "i < L_ROW g" "j < R_COL g" "k < L_COL g"
  shows "i * L_COL g + k < length L \<and> k * R_COL g + j < length R \<and>
    \<bar>sint (L ! (i * L_COL g + k)) * sint (R ! (k * R_COL g + j))\<bar> \<le> 65536"
proof -
  have *: "i * L_COL g + k < length L" "k * R_COL g + j < length R"
    using assms cell_room [of i "L_ROW g" k "L_COL g"] cell_room [of k "R_ROW g" j "R_COL g"] by (auto simp: generated_def)
  have "\<bar>sint x\<bar> \<le> 256" if "x \<in> set L \<union> set R" for x
    using assms(1) that unfolding generated_def by force
  then have "\<bar>sint (L ! (i * L_COL g + k))\<bar> \<le> 256" "\<bar>sint (R ! (k * R_COL g + j))\<bar> \<le> 256"
    using * by simp_all
  then show ?thesis using * mult_mono [of "\<bar>sint (L ! (i * L_COL g + k))\<bar>" 256 "\<bar>sint (R ! (k * R_COL g + j))\<bar>" 256] by (simp add: abs_mult)
qed

lemma generated_size: "generated g L R \<Longrightarrow> int (L_COL g) * 65536 < 2 ^ 31"
  by (simp add: generated_def)

lemma matmul_product:
  assumes "generated g L R" "length result = L_ROW g * R_COL g"
  shows "matmul g L R result = Some (product_matrix g L R)"
  unfolding matmul_def product_matrix_def
proof (rule row_major_loop [OF assms(2)])
  fix i j and a :: "cint list" assume ij: "i < L_ROW g" "j < R_COL g" and a: "length a = L_ROW g * R_COL g"
  note at = cell_room [OF ij]
  have "\<exists>s. for_each (\<lambda>k result. do {
       s \<leftarrow> arr_get result (i * R_COL g + j);
       x \<leftarrow> arr_get L (i * L_COL g + k);
       y \<leftarrow> arr_get R (k * R_COL g + j);
       p \<leftarrow> int_mul x y;
       s \<leftarrow> int_add s p;
       arr_set result (i * R_COL g + j) s }) [0..<L_COL g] (a[i * R_COL g + j := 0]) = Some s \<and>
     s = a[i * R_COL g + j := word_of_int (\<Sum>k < L_COL g. sint (L ! (i * L_COL g + k)) * sint (R ! (k * R_COL g + j)))]"
  proof (rule upto_invariant [where I = "\<lambda>m s. s = a[i * R_COL g + j := word_of_int (\<Sum>k < m. sint (L ! (i * L_COL g + k)) * sint (R ! (k * R_COL g + j)))]"])
    fix k and s :: "cint list"
    define P where "P k = sint (L ! (i * L_COL g + k)) * sint (R ! (k * R_COL g + j))" for k
    assume k: "k < L_COL g"
    have P: "\<bar>P k\<bar> \<le> 65536" if "k < L_COL g" for k using generated_products [OF assms(1) ij that] by (simp add: P_def)
    have "int (Suc k) * 65536 \<le> int (L_COL g) * 65536" using k by simp
    with generated_size [OF assms(1)] have c: "int (Suc k) * 65536 < 2 ^ 31" by linarith
    have "int_mul (L ! (i * L_COL g + k)) (R ! (k * R_COL g + j)) = Some (word_of_int (P k))"
      using int_mul_sint [of "L ! (i * L_COL g + k)" "R ! (k * R_COL g + j)"] fits_small [of "P k" 65536] P [OF k] by (simp add: P_def)
    moreover have "int_add (word_of_int (\<Sum>k < k. P k)) (word_of_int (P k)) = Some (word_of_int ((\<Sum>k < k. P k) + P k))"
      using P k by (intro int_add_step [OF sum_bound _ c]) auto
    moreover assume "s = a[i * R_COL g + j := word_of_int (\<Sum>k < k. sint (L ! (i * L_COL g + k)) * sint (R ! (k * R_COL g + j)))]"
    ultimately show "\<exists>s'. do {
       v \<leftarrow> arr_get s (i * R_COL g + j);
       x \<leftarrow> arr_get L (i * L_COL g + k);
       y \<leftarrow> arr_get R (k * R_COL g + j);
       p \<leftarrow> int_mul x y;
       v \<leftarrow> int_add v p;
       arr_set s (i * R_COL g + j) v } = Some s' \<and>
      s' = a[i * R_COL g + j := word_of_int (\<Sum>k < Suc k. sint (L ! (i * L_COL g + k)) * sint (R ! (k * R_COL g + j)))]"
      using generated_products [OF assms(1) ij k] at a by (simp flip: P_def del: of_int_add of_int_mult of_int_sum)
  qed simp
  then show "do { result \<leftarrow> arr_set a (i * R_COL g + j) 0; for_each (\<lambda>k result. do {
       s \<leftarrow> arr_get result (i * R_COL g + j);
       x \<leftarrow> arr_get L (i * L_COL g + k);
       y \<leftarrow> arr_get R (k * R_COL g + j);
       p \<leftarrow> int_mul x y;
       s \<leftarrow> int_add s p;
       arr_set result (i * R_COL g + j) s }) [0..<L_COL g] result } = Some (a[i * R_COL g + j := word_of_int (dot g L R i j)])"
    using at a by (simp add: dot_def)
qed

lemma optimized_product:
  assumes "generated g L R" "length result = L_ROW g * R_COL g" "length fresh = R_ROW g * R_COL g"
  shows "optimized_matmul_impl g fresh L R result = Some (product_matrix g L R)"
proof -
  have dims: "L_COL g = R_ROW g" "length L = L_ROW g * L_COL g" "length R = R_ROW g * R_COL g"
    using assms(1) by (auto simp: generated_def)
  from tiled_transpose_correct [OF dims(3) assms(3)] obtain T where T: "tiled_transpose g fresh R = Some T" "length T = R_ROW g * R_COL g"
    "\<And>r c. r < R_ROW g \<Longrightarrow> c < R_COL g \<Longrightarrow> T ! (c * R_ROW g + r) = R ! (r * R_COL g + c)" by auto
  have "for_each (\<lambda>i. for_each (\<lambda>j result. do {
       v \<leftarrow> vec_dot L (i * L_COL g) T (j * R_ROW g) (L_COL g);
       arr_set result (i * R_COL g + j) v }) [0..<R_COL g]) [0..<L_ROW g] result = Some (product_matrix g L R)"
    unfolding product_matrix_def
  proof (rule row_major_loop [OF assms(2)])
    fix i j and a :: "cint list" assume ij: "i < L_ROW g" "j < R_COL g" and a: "length a = L_ROW g * R_COL g"
    have row: "i * L_COL g + L_COL g \<le> length L" "j * R_ROW g + L_COL g \<le> length T"
      using ij dims T(2) mult_le_mono1 [of "Suc i" "L_ROW g" "L_COL g"] mult_le_mono1 [of "Suc j" "R_COL g" "R_ROW g"]
      by (auto simp: mult.commute)
    have elements: "T ! (j * R_ROW g + k) = R ! (k * R_COL g + j)" if "k < L_COL g" for k
      using T(3) [of k j] that ij dims(1) by simp
    have "vec_dot L (i * L_COL g) T (j * R_ROW g) (L_COL g) =
        Some (word_of_int (\<Sum>k < L_COL g. sint (L ! (i * L_COL g + k)) * sint (T ! (j * R_ROW g + k))))"
      using row generated_size [OF assms(1)]
    proof (rule vec_dot_sum)
      show "\<bar>sint (L ! (i * L_COL g + k)) * sint (T ! (j * R_ROW g + k))\<bar> \<le> 65536" if "k < L_COL g" for k
        using generated_products [OF assms(1) ij that] elements [OF that] by simp
    qed
    also have "(\<Sum>k < L_COL g. sint (L ! (i * L_COL g + k)) * sint (T ! (j * R_ROW g + k))) = dot g L R i j"
      unfolding dot_def by (rule sum.cong) (simp_all add: elements)
    finally show "do { v \<leftarrow> vec_dot L (i * L_COL g) T (j * R_ROW g) (L_COL g); arr_set a (i * R_COL g + j) v } =
        Some (a[i * R_COL g + j := word_of_int (dot g L R i j)])"
      using cell_room [OF ij] a by simp
  qed
  with T(1) show ?thesis by (simp add: optimized_matmul_impl_def)
qed

section \<open>\<open>main\<close>\<close>

lemma zero_result_all: "length a = L_ROW g * R_COL g \<Longrightarrow> \<exists>z. zero_result g a = Some z \<and> length z = L_ROW g * R_COL g"
  unfolding zero_result_def by (subst row_major_loop [where v = "\<lambda>_ _. 0"]) (auto simp: cell_room)

lemma load_matrix_all:
  "files name = Some m \<Longrightarrow> length m = rows * cols \<Longrightarrow> length block = rows * cols \<Longrightarrow> load_matrix files name block rows cols = Some m"
  by (simp add: load_matrix_def)

lemma validate_row_same:
  "(\<forall>j \<in> set js. i * R_COL g + j < length m) \<Longrightarrow> validate_row g m m i js (n, out) = Some (n, out)"
  by (induction js) simp_all

lemma validate_rows_same:
  assumes "length m = L_ROW g * R_COL g" "\<forall>i \<in> set is. i < L_ROW g"
  shows "validate_rows g m m is (0, out) = Some (0, out)"
  using assms(2)
proof (induction "is")
  case (Cons i "is")
  then have "validate_row g m m i [0..<R_COL g] (0, out) = Some (0, out)"
    using assms(1) cell_room [of i "L_ROW g" _ "R_COL g"] by (intro validate_row_same) auto
  with Cons show ?case by simp
qed simp

definition block_sizes :: "config \<Rightarrow> nat list" where
  "block_sizes g = [L_ROW g * L_COL g, R_ROW g * R_COL g, L_ROW g * R_COL g, L_ROW g * R_COL g, R_ROW g * R_COL g]"


definition small_config :: config where
  "small_config = \<lparr>L_ROW = 2, L_COL = 2, R_ROW = 2, R_COL = 2\<rparr>"


end
