(* ===== verification/Bytes.thy ===== *)
theory Bytes
  imports C_Int
begin

text \<open>
  Byte sequences and the bytes of a machine word, least significant first, as the programs read and write them in memory.
\<close>

unbundle bit_operations_syntax

type_synonym byte = "8 word"
type_synonym bytes = "byte list"

definition to_le :: "nat \<Rightarrow> 'a::len word \<Rightarrow> bytes" where
  "to_le n w = map (\<lambda>i. ucast (drop_bit (8 * i) w)) [0..<n]"

definition from_le :: "bytes \<Rightarrow> 'a::len word" where
  "from_le bs = foldr (\<lambda>b w. push_bit 8 w OR ucast b) bs 0"

lemma length_to_le [simp]: "length (to_le n w) = n"
  by (simp add: to_le_def)

lemma from_le_simps: "from_le [] = 0" "from_le (b # bs) = push_bit 8 (from_le bs) OR ucast b"
  by (simp_all add: from_le_def)

lemma bit_from_le_range:
  "bit (from_le (map (\<lambda>i. ucast (drop_bit (8 * i) w)) [m..<m + n]) :: 'a::len word) k \<longleftrightarrow> k < 8 * n \<and> k < LENGTH('a) \<and> bit (w :: 'a word) (8 * m + k)"
proof (induction n arbitrary: m k)
  case (Suc n)
  have "[m..<m + Suc n] = m # [Suc m..<Suc m + n]" by (simp add: upt_conv_Cons del: upt_Suc)
  then have "bit (from_le (map (\<lambda>i. ucast (drop_bit (8 * i) w)) [m..<m + Suc n]) :: 'a word) k \<longleftrightarrow>
      k < LENGTH('a) \<and> (if k < 8 then bit w (8 * m + k)
        else bit (from_le (map (\<lambda>i. ucast (drop_bit (8 * i) w)) [Suc m..<Suc m + n]) :: 'a word) (k - 8))"
    by (auto simp: from_le_simps bit_simps simp del: upt_Suc)
  moreover have "8 * Suc m + (k - 8) = 8 * m + k" if "\<not> k < 8" using that by simp
  ultimately show ?case unfolding Suc.IH by (auto simp del: upt_Suc)
qed (simp add: from_le_simps)

lemma from_to_le: "LENGTH('a) \<le> 8 * n \<Longrightarrow> from_le (to_le n w) = (w :: 'a::len word)"
  using bit_from_le_range [where w = w and m = 0 and n = n] by (intro bit_word_eqI) (simp add: to_le_def)

lemma bit_from_le: "bit (from_le bs :: 'a::len word) k \<longleftrightarrow> k < LENGTH('a) \<and> k div 8 < length bs \<and> bit (bs ! (k div 8)) (k mod 8)"
proof (induction bs arbitrary: k)
  case (Cons b bs)
  show ?case
  proof (cases "k < 8")
    case True
    then show ?thesis by (auto simp: from_le_simps bit_simps)
  next
    case False
    then have "k div 8 = Suc ((k - 8) div 8)" "k mod 8 = (k - 8) mod 8" by (auto simp: le_div_geq le_mod_geq)
    with False show ?thesis using Cons.IH [of "k - 8"] by (auto simp: from_le_simps bit_simps dest: bit_imp_le_length)
  qed
qed (simp add: from_le_simps)

lemma to_from_le: "length bs = n \<Longrightarrow> 8 * n \<le> LENGTH('a) \<Longrightarrow> to_le n (from_le bs :: 'a::len word) = bs"
proof (rule nth_equalityI)
  assume bs: "length bs = n" "8 * n \<le> LENGTH('a)"
  fix i assume "i < length (to_le n (from_le bs :: 'a word))"
  then have i: "i < n" by simp
  have "bit (ucast (drop_bit (8 * i) (from_le bs :: 'a word)) :: byte) j = bit (bs ! i) j" if "j < 8" for j
  proof -
    have "8 * i + j < LENGTH('a)" "(8 * i + j) div 8 = i" "(8 * i + j) mod 8 = j" using i bs(2) that by auto
    then show ?thesis using that bs(1) i by (simp add: bit_simps bit_from_le)
  qed
  then show "to_le n (from_le bs :: 'a word) ! i = bs ! i"
    using i by (intro bit_word_eqI) (simp add: to_le_def)
qed simp

end
