(* ===== verification/Wire_Protocol.thy ===== *)
theory Wire_Protocol
  imports Bytes
begin

text \<open>
  \<open>CS3311 Computer Network/RDT Lab/core\<close>: the messages of \<open>Protocol.h\<close> and \<open>Protocol.cpp\<close>, and their bytes.

  An iterator into a message is the list of the bytes after it.  A result is undefined (\<open>None\<close>: the end is dereferenced, or a table is
  indexed out of range), an exception with its message (\<open>Inl\<close>), or a value.
\<close>

datatype ptype =
  Unknown | Query | Size | Get | Start | Data | Acknowledge | Checksum | Confirm | Finish | Error | Count

definition ptype_code :: "ptype \<Rightarrow> byte" where
  "ptype_code t = (case t of Unknown \<Rightarrow> 0 | Query \<Rightarrow> 1 | Size \<Rightarrow> 2 | Get \<Rightarrow> 3 | Start \<Rightarrow> 4 | Data \<Rightarrow> 5 | Acknowledge \<Rightarrow> 6 | Checksum \<Rightarrow> 7 |
     Confirm \<Rightarrow> 8 | Finish \<Rightarrow> 9 | Error \<Rightarrow> 10 | Count \<Rightarrow> 11)"

datatype protocol =
  QueryProtocol bytes
| SizeProtocol bytes "64 word"
| GetProtocol bytes
| StartProtocol bytes
| DataProtocol bytes "64 word" bytes
| AcknowledgeProtocol bytes "64 word"
| ChecksumProtocol bytes bytes
| ConfirmProtocol bytes
| ErrorProtocol bytes bytes

fun mType :: "protocol \<Rightarrow> ptype" where
  "mType (QueryProtocol p) = Query"
| "mType (SizeProtocol p n) = Size"
| "mType (GetProtocol p) = Get"
| "mType (StartProtocol p) = Start"
| "mType (DataProtocol p b d) = Data"
| "mType (AcknowledgeProtocol p b) = Acknowledge"
| "mType (ChecksumProtocol p c) = Checksum"
| "mType (ConfirmProtocol p) = Confirm"
| "mType (ErrorProtocol p m) = Error"

section \<open>Writing\<close>

definition write_type :: "bytes \<Rightarrow> ptype \<Rightarrow> bytes" where
  "write_type out t = out @ [ptype_code t]"

definition write_u64 :: "bytes \<Rightarrow> 64 word \<Rightarrow> bytes" where
  "write_u64 out w = out @ to_le 8 w"

definition write_string :: "bytes \<Rightarrow> bytes \<Rightarrow> bytes" where
  "write_string out s = out @ s @ [0]"

definition write_data :: "bytes \<Rightarrow> bytes \<Rightarrow> bytes" where
  "write_data out d = out @ d"

definition serialize_query :: "bytes \<Rightarrow> bytes" where
  "serialize_query mPath = (let out = []; out = write_type out Query in write_string out mPath)"

definition serialize_size :: "bytes \<Rightarrow> 64 word \<Rightarrow> bytes" where
  "serialize_size mPath mSize = (let out = []; out = write_type out Size; out = write_string out mPath in write_u64 out mSize)"

definition serialize_get :: "bytes \<Rightarrow> bytes" where
  "serialize_get mPath = (let out = []; out = write_type out Get in write_string out mPath)"

definition serialize_start :: "bytes \<Rightarrow> bytes" where
  "serialize_start mPath = (let out = []; out = write_type out Start in write_string out mPath)"

definition serialize_data :: "bytes \<Rightarrow> 64 word \<Rightarrow> bytes \<Rightarrow> bytes" where
  "serialize_data mPath mBlock mData =
     (let out = []; out = write_type out Data; out = write_string out mPath; out = write_u64 out mBlock in write_data out mData)"

definition serialize_acknowledge :: "bytes \<Rightarrow> 64 word \<Rightarrow> bytes" where
  "serialize_acknowledge mPath mBlock = (let out = []; out = write_type out Acknowledge; out = write_string out mPath in write_u64 out mBlock)"

definition serialize_checksum :: "bytes \<Rightarrow> bytes \<Rightarrow> bytes" where
  "serialize_checksum mPath mChecksum = (let out = []; out = write_type out Checksum; out = write_string out mPath in write_data out mChecksum)"

definition serialize_confirm :: "bytes \<Rightarrow> bytes" where
  "serialize_confirm mPath = (let out = []; out = write_type out Confirm in write_string out mPath)"

definition serialize_error :: "bytes \<Rightarrow> bytes \<Rightarrow> bytes" where
  "serialize_error mPath mMessage = (let out = []; out = write_type out Error; out = write_string out mPath in write_string out mMessage)"

text \<open>The virtual function.\<close>

fun serialize :: "protocol \<Rightarrow> bytes" where
  "serialize (QueryProtocol p) = serialize_query p"
| "serialize (SizeProtocol p n) = serialize_size p n"
| "serialize (GetProtocol p) = serialize_get p"
| "serialize (StartProtocol p) = serialize_start p"
| "serialize (DataProtocol p b d) = serialize_data p b d"
| "serialize (AcknowledgeProtocol p b) = serialize_acknowledge p b"
| "serialize (ChecksumProtocol p c) = serialize_checksum p c"
| "serialize (ConfirmProtocol p) = serialize_confirm p"
| "serialize (ErrorProtocol p m) = serialize_error p m"

section \<open>Reading\<close>

type_synonym 'a outcome = "(string + 'a) option"

definition throw :: "string \<Rightarrow> 'a outcome" where
  "throw m = Some (Inl m)"

definition give :: "'a \<Rightarrow> 'a outcome" where
  "give x = Some (Inr x)"

definition try_bind :: "'a outcome \<Rightarrow> ('a \<Rightarrow> 'b outcome) \<Rightarrow> 'b outcome" where
  "try_bind r f = (case r of None \<Rightarrow> None | Some (Inl m) \<Rightarrow> Some (Inl m) | Some (Inr x) \<Rightarrow> f x)"

lemma try_bind_simps [simp]:
  "try_bind None f = None" "try_bind (throw m) f = throw m" "try_bind (give x) f = f x"
  by (simp_all add: try_bind_def throw_def give_def)

lemma outcome_distinct [simp]: "throw m \<noteq> give x" "give x \<noteq> throw m" "throw m \<noteq> None" "give x \<noteq> None" "None \<noteq> throw m" "None \<noteq> give x"
  "give x = give y \<longleftrightarrow> x = y" "throw m = throw m' \<longleftrightarrow> m = m'"
  by (simp_all add: throw_def give_def)

definition read_type :: "bytes \<Rightarrow> (byte \<times> bytes) outcome" where
  "read_type it = (case it of [] \<Rightarrow> throw ''Invalid data size'' | t # it \<Rightarrow> give (t, it))"

definition read_u64 :: "bytes \<Rightarrow> (64 word \<times> bytes) outcome" where
  "read_u64 it = (if length it < 8 then throw ''Invalid data size'' else give (from_le (take 8 it), drop 8 it))"

text \<open>The loop compares \<open>*it\<close> before it compares \<open>it\<close> with the end.\<close>

fun read_string :: "bytes \<Rightarrow> (bytes \<times> bytes) outcome" where
  "read_string [] = None"
| "read_string (b # it) = (if b \<noteq> 0 then try_bind (read_string it) (\<lambda>(s, it). give (b # s, it)) else give ([], it))"

definition read_data :: "bytes \<Rightarrow> bytes outcome" where
  "read_data it = give it"

text \<open>The functions \<open>deserialize\<close> of the messages, after the type.\<close>

definition deserialize_query :: "bytes \<Rightarrow> protocol outcome" where
  "deserialize_query it = try_bind (read_string it) (\<lambda>(path, it). give (QueryProtocol path))"

definition deserialize_size :: "bytes \<Rightarrow> protocol outcome" where
  "deserialize_size it = try_bind (read_string it) (\<lambda>(path, it). try_bind (read_u64 it) (\<lambda>(n, it). give (SizeProtocol path n)))"

definition deserialize_get :: "bytes \<Rightarrow> protocol outcome" where
  "deserialize_get it = try_bind (read_string it) (\<lambda>(path, it). give (GetProtocol path))"

definition deserialize_start :: "bytes \<Rightarrow> protocol outcome" where
  "deserialize_start it = try_bind (read_string it) (\<lambda>(path, it). give (StartProtocol path))"

definition deserialize_data :: "bytes \<Rightarrow> protocol outcome" where
  "deserialize_data it = try_bind (read_string it) (\<lambda>(path, it). try_bind (read_u64 it) (\<lambda>(block, it).
     try_bind (read_data it) (\<lambda>d. give (DataProtocol path block d))))"

definition deserialize_acknowledge :: "bytes \<Rightarrow> protocol outcome" where
  "deserialize_acknowledge it =
     try_bind (read_string it) (\<lambda>(path, it). try_bind (read_u64 it) (\<lambda>(block, it). give (AcknowledgeProtocol path block)))"

definition deserialize_checksum :: "bytes \<Rightarrow> protocol outcome" where
  "deserialize_checksum it = try_bind (read_string it) (\<lambda>(path, it). try_bind (read_data it) (\<lambda>d. give (ChecksumProtocol path d)))"

definition deserialize_confirm :: "bytes \<Rightarrow> protocol outcome" where
  "deserialize_confirm it = try_bind (read_string it) (\<lambda>(path, it). give (ConfirmProtocol path))"

definition deserialize_error :: "bytes \<Rightarrow> protocol outcome" where
  "deserialize_error it = try_bind (read_string it) (\<lambda>(path, it). try_bind (read_string it) (\<lambda>(m, it). give (ErrorProtocol path m)))"

text \<open>The array of \<open>Count\<close> deserializers, with those the classes have registered.\<close>

definition mRegistry :: "(bytes \<Rightarrow> protocol outcome) option list" where
  "mRegistry =
     [None, Some deserialize_query, Some deserialize_size, Some deserialize_get, Some deserialize_start, Some deserialize_data,
      Some deserialize_acknowledge, Some deserialize_checksum, Some deserialize_confirm, None, Some deserialize_error]"

definition deserialize :: "bytes \<Rightarrow> protocol outcome" where
  "deserialize d = try_bind (read_type d) (\<lambda>(t, it). case arr_get mRegistry (unat t) of
       None \<Rightarrow> None
     | Some None \<Rightarrow> throw ''Unknown protocol type''
     | Some (Some f) \<Rightarrow> f it)"

section \<open>Round trip\<close>

fun strings :: "protocol \<Rightarrow> bytes list" where
  "strings (QueryProtocol p) = [p]"
| "strings (SizeProtocol p n) = [p]"
| "strings (GetProtocol p) = [p]"
| "strings (StartProtocol p) = [p]"
| "strings (DataProtocol p b d) = [p]"
| "strings (AcknowledgeProtocol p b) = [p]"
| "strings (ChecksumProtocol p c) = [p]"
| "strings (ConfirmProtocol p) = [p]"
| "strings (ErrorProtocol p m) = [p, m]"

definition proper :: "protocol \<Rightarrow> bool" where
  "proper m \<longleftrightarrow> (\<forall>s \<in> set (strings m). 0 \<notin> set s)"

lemma read_string_written: "0 \<notin> set s \<Longrightarrow> read_string (s @ 0 # it) = give (s, it)"
  by (induction s) auto

lemma read_string_complete: "read_string it = give (s, it') \<Longrightarrow> it = s @ 0 # it' \<and> 0 \<notin> set s"
proof (induction it arbitrary: s)
  case (Cons b it)
  show ?case
  proof (cases "b = 0")
    case False
    with Cons.prems obtain s' where "read_string it = give (s', it')" "s = b # s'"
      by (auto simp: try_bind_def give_def split: option.splits sum.splits prod.splits)
    with Cons.IH False show ?thesis by auto
  qed (use Cons.prems in auto)
qed simp

lemma read_string_unterminated: "0 \<notin> set it \<Longrightarrow> read_string it = None"
  by (induction it) auto

lemma read_u64_written: "read_u64 (to_le 8 w @ it) = give (w, it)"
  by (simp add: read_u64_def from_to_le)

lemmas serializers = serialize_query_def serialize_size_def serialize_get_def serialize_start_def serialize_data_def
  serialize_acknowledge_def serialize_checksum_def serialize_confirm_def serialize_error_def
  write_type_def write_u64_def write_string_def write_data_def ptype_code_def Let_def

lemmas deserializers = deserialize_query_def deserialize_size_def deserialize_get_def deserialize_start_def deserialize_data_def
  deserialize_acknowledge_def deserialize_checksum_def deserialize_confirm_def deserialize_error_def read_data_def

lemma deserialize_serialize: "proper m \<Longrightarrow> deserialize (serialize m) = give m"
  using read_u64_written [where it = "[]"]
  by (cases m) (simp_all add: proper_def deserialize_def read_type_def serializers mRegistry_def read_string_written read_u64_written deserializers)

lemma try_bind_give: "try_bind r f = give y \<longleftrightarrow> (\<exists>x. r = give x \<and> f x = give y)"
  by (auto simp: try_bind_def give_def split: option.splits sum.splits)

lemma read_u64_complete: "read_u64 it = give (w, it') \<Longrightarrow> it = to_le 8 w @ it'"
  by (auto simp: read_u64_def to_from_le split: if_splits)

lemma byte_cases: "t = 0 \<or> t = 1 \<or> t = 2 \<or> t = 3 \<or> t = 4 \<or> t = 5 \<or> t = 6 \<or> t = 7 \<or> t = 8 \<or> t = 9 \<or> t = 10 \<or> 11 \<le> t" for t :: nat
  by arith

lemma deserialize_complete:
  assumes "deserialize d = give m"
  shows "proper m \<and> (\<exists>rest. d = serialize m @ rest)"
proof -
  from assms obtain t it f where d: "d = t # it" and f: "arr_get mRegistry (unat t) = Some (Some f)" "f it = give m"
    by (auto simp: deserialize_def read_type_def try_bind_give split: list.splits option.splits)
  have t: "t = of_nat (unat t)" by simp
  have "unat t < 11" using f(1) by (auto simp: arr_get_def mRegistry_def split: if_splits)
  then consider "unat t = 0" | "unat t = 1" | "unat t = 2" | "unat t = 3" | "unat t = 4" | "unat t = 5" | "unat t = 6" | "unat t = 7" | "unat t = 8"
    | "unat t = 9" | "unat t = 10" using byte_cases [of "unat t"] by linarith
  then show ?thesis
    using f t by cases (auto simp: d mRegistry_def deserializers try_bind_give proper_def serializers
      dest!: read_string_complete read_u64_complete split: prod.splits)
qed

text \<open>A message whose text is not terminated is read past its end.\<close>

lemma deserialize_over_read: "1 \<le> unat t \<Longrightarrow> unat t \<le> 8 \<or> unat t = 10 \<Longrightarrow> 0 \<notin> set text \<Longrightarrow> deserialize (t # text) = None"
  using byte_cases [of "unat t"]
  by (auto simp: deserialize_def read_type_def mRegistry_def deserializers read_string_unterminated)

text \<open>
  C32 (roundtrip).  A message whose strings hold no NUL is read back from its bytes, for every class of messages and every path, block, data
  and digest; and bytes that are read as a message are that message's bytes, with nothing but ignored bytes after them.  So no two messages
  have the same bytes.  A path that is not terminated is the exception: the reader dereferences the end before it compares with it.
\<close>

theorem protocol_roundtrip:
  shows "(proper m \<longrightarrow> deserialize (serialize m) = give m) \<and>
    (deserialize d = give m \<longrightarrow> proper m \<and> (\<exists>rest. d = serialize m @ rest)) \<and>
    (1 \<le> unat t \<and> unat t \<le> 8 \<and> 0 \<notin> set text \<longrightarrow> deserialize (t # text) = None)"
  using deserialize_serialize deserialize_complete deserialize_over_read by blast

theorem protocol_roundtrip_witness:
  "deserialize (serialize (DataProtocol [97, 46, 98] 258 [1, 0, 2])) = give (DataProtocol [97, 46, 98] 258 [1, 0, 2]) \<and>
   (\<exists>rest. [6, 97, 0, 3, 0, 0, 0, 0, 0, 0, 0] = serialize (AcknowledgeProtocol [97] 3) @ rest) \<and>
   deserialize [1, 97, 98] = None"
proof -
  have ack: "serialize (AcknowledgeProtocol [97] 3) = [6, 97, 0, 3, 0, 0, 0, 0, 0, 0, 0]"
    by (simp add: serializers to_le_def upt_rec)
  then have read: "deserialize [6, 97, 0, 3, 0, 0, 0, 0, 0, 0, 0] = give (AcknowledgeProtocol [97] 3)"
    using deserialize_serialize [of "AcknowledgeProtocol [97] 3"] by (simp add: proper_def)
  show ?thesis
    using protocol_roundtrip [of "DataProtocol [97, 46, 98] 258 [1, 0, 2]" undefined 1 "[97, 98]"]
      protocol_roundtrip [of "AcknowledgeProtocol [97] 3" "[6, 97, 0, 3, 0, 0, 0, 0, 0, 0, 0]" 1 "[97, 98]"] read
    by (auto simp: proper_def)
qed

end
