(* ===== verification/CRC32.thy ===== *)
theory CRC32
  imports Bytes
begin

text \<open>
  \<open>CS3311 Computer Network/RDT Lab/core/source/Checksum.cpp\<close>: \<open>CRC32\<close> with its table.  An object is its \<open>mCRC\<close> once \<open>mValid\<close> is set, and
  \<open>None\<close> before.
\<close>

definition table :: "32 word list" where
  "table = [
   0x00000000, 0x04c11db7, 0x09823b6e, 0x0d4326d9, 0x130476dc, 0x17c56b6b, 0x1a864db2, 0x1e475005,
   0x2608edb8, 0x22c9f00f, 0x2f8ad6d6, 0x2b4bcb61, 0x350c9b64, 0x31cd86d3, 0x3c8ea00a, 0x384fbdbd,
   0x4c11db70, 0x48d0c6c7, 0x4593e01e, 0x4152fda9, 0x5f15adac, 0x5bd4b01b, 0x569796c2, 0x52568b75,
   0x6a1936c8, 0x6ed82b7f, 0x639b0da6, 0x675a1011, 0x791d4014, 0x7ddc5da3, 0x709f7b7a, 0x745e66cd,
   0x9823b6e0, 0x9ce2ab57, 0x91a18d8e, 0x95609039, 0x8b27c03c, 0x8fe6dd8b, 0x82a5fb52, 0x8664e6e5,
   0xbe2b5b58, 0xbaea46ef, 0xb7a96036, 0xb3687d81, 0xad2f2d84, 0xa9ee3033, 0xa4ad16ea, 0xa06c0b5d,
   0xd4326d90, 0xd0f37027, 0xddb056fe, 0xd9714b49, 0xc7361b4c, 0xc3f706fb, 0xceb42022, 0xca753d95,
   0xf23a8028, 0xf6fb9d9f, 0xfbb8bb46, 0xff79a6f1, 0xe13ef6f4, 0xe5ffeb43, 0xe8bccd9a, 0xec7dd02d,
   0x34867077, 0x30476dc0, 0x3d044b19, 0x39c556ae, 0x278206ab, 0x23431b1c, 0x2e003dc5, 0x2ac12072,
   0x128e9dcf, 0x164f8078, 0x1b0ca6a1, 0x1fcdbb16, 0x018aeb13, 0x054bf6a4, 0x0808d07d, 0x0cc9cdca,
   0x7897ab07, 0x7c56b6b0, 0x71159069, 0x75d48dde, 0x6b93dddb, 0x6f52c06c, 0x6211e6b5, 0x66d0fb02,
   0x5e9f46bf, 0x5a5e5b08, 0x571d7dd1, 0x53dc6066, 0x4d9b3063, 0x495a2dd4, 0x44190b0d, 0x40d816ba,
   0xaca5c697, 0xa864db20, 0xa527fdf9, 0xa1e6e04e, 0xbfa1b04b, 0xbb60adfc, 0xb6238b25, 0xb2e29692,
   0x8aad2b2f, 0x8e6c3698, 0x832f1041, 0x87ee0df6, 0x99a95df3, 0x9d684044, 0x902b669d, 0x94ea7b2a,
   0xe0b41de7, 0xe4750050, 0xe9362689, 0xedf73b3e, 0xf3b06b3b, 0xf771768c, 0xfa325055, 0xfef34de2,
   0xc6bcf05f, 0xc27dede8, 0xcf3ecb31, 0xcbffd686, 0xd5b88683, 0xd1799b34, 0xdc3abded, 0xd8fba05a,
   0x690ce0ee, 0x6dcdfd59, 0x608edb80, 0x644fc637, 0x7a089632, 0x7ec98b85, 0x738aad5c, 0x774bb0eb,
   0x4f040d56, 0x4bc510e1, 0x46863638, 0x42472b8f, 0x5c007b8a, 0x58c1663d, 0x558240e4, 0x51435d53,
   0x251d3b9e, 0x21dc2629, 0x2c9f00f0, 0x285e1d47, 0x36194d42, 0x32d850f5, 0x3f9b762c, 0x3b5a6b9b,
   0x0315d626, 0x07d4cb91, 0x0a97ed48, 0x0e56f0ff, 0x1011a0fa, 0x14d0bd4d, 0x19939b94, 0x1d528623,
   0xf12f560e, 0xf5ee4bb9, 0xf8ad6d60, 0xfc6c70d7, 0xe22b20d2, 0xe6ea3d65, 0xeba91bbc, 0xef68060b,
   0xd727bbb6, 0xd3e6a601, 0xdea580d8, 0xda649d6f, 0xc423cd6a, 0xc0e2d0dd, 0xcda1f604, 0xc960ebb3,
   0xbd3e8d7e, 0xb9ff90c9, 0xb4bcb610, 0xb07daba7, 0xae3afba2, 0xaafbe615, 0xa7b8c0cc, 0xa379dd7b,
   0x9b3660c6, 0x9ff77d71, 0x92b45ba8, 0x9675461f, 0x8832161a, 0x8cf30bad, 0x81b02d74, 0x857130c3,
   0x5d8a9099, 0x594b8d2e, 0x5408abf7, 0x50c9b640, 0x4e8ee645, 0x4a4ffbf2, 0x470cdd2b, 0x43cdc09c,
   0x7b827d21, 0x7f436096, 0x7200464f, 0x76c15bf8, 0x68860bfd, 0x6c47164a, 0x61043093, 0x65c52d24,
   0x119b4be9, 0x155a565e, 0x18197087, 0x1cd86d30, 0x029f3d35, 0x065e2082, 0x0b1d065b, 0x0fdc1bec,
   0x3793a651, 0x3352bbe6, 0x3e119d3f, 0x3ad08088, 0x2497d08d, 0x2056cd3a, 0x2d15ebe3, 0x29d4f654,
   0xc5a92679, 0xc1683bce, 0xcc2b1d17, 0xc8ea00a0, 0xd6ad50a5, 0xd26c4d12, 0xdf2f6bcb, 0xdbee767c,
   0xe3a1cbc1, 0xe760d676, 0xea23f0af, 0xeee2ed18, 0xf0a5bd1d, 0xf464a0aa, 0xf9278673, 0xfde69bc4,
   0x89b8fd09, 0x8d79e0be, 0x803ac667, 0x84fbdbd0, 0x9abc8bd5, 0x9e7d9662, 0x933eb0bb, 0x97ffad0c,
   0xafb010b1, 0xab710d06, 0xa6322bdf, 0xa2f33668, 0xbcb4666d, 0xb8757bda, 0xb5365d03, 0xb1f740b4]"

definition crc_step :: "32 word \<Rightarrow> byte \<Rightarrow> 32 word" where
  "crc_step mCRC b = push_bit 8 mCRC XOR table ! unat (drop_bit 24 mCRC XOR ucast b)"

definition crc_compute :: "bytes \<Rightarrow> 32 word" where
  "crc_compute d = foldl crc_step 0xffffffff d XOR 0xffffffff"

text \<open>The loop of \<open>digest\<close> stores byte \<open>i\<close> at \<open>3 - i\<close>.\<close>

definition crc_digest :: "32 word option \<Rightarrow> (string + bytes)" where
  "crc_digest obj = (case obj of
     None \<Rightarrow> Inl ''CRC32: cannot get digest of uninitialized checksum''
   | Some mCRC \<Rightarrow> Inr (foldl (\<lambda>result i. result[3 - i := ucast (drop_bit (i * 8) mCRC)]) (replicate 4 0) [0..<4]))"

section \<open>The polynomial\<close>

text \<open>One bit: multiplication by \<open>x\<close> modulo \<open>x\<^sup>3\<^sup>2 + x\<^sup>2\<^sup>6 + \<dots> + x + 1\<close>.\<close>

definition mult_x :: "32 word \<Rightarrow> 32 word" where
  "mult_x r = push_bit 1 r XOR (if bit r 31 then 0x04c11db7 else 0)"

lemma mult_x_xor: "mult_x (r XOR s) = mult_x r XOR mult_x s"
  by (rule bit_word_eqI) (auto simp: mult_x_def bit_simps)

lemma mult_x_0 [simp]: "mult_x 0 = 0"
  by (simp add: mult_x_def)

lemma mult_x_eq_0: "mult_x r = 0 \<Longrightarrow> r = 0"
proof -
  assume *: "mult_x r = 0"
  have "bit (mult_x r) 0 \<longleftrightarrow> bit r 31" by (simp add: mult_x_def bit_0 even_xor_iff)
  with * have "\<not> bit r 31" by simp
  with * have "push_bit 1 r = 0" by (simp only: mult_x_def if_False xor.right_neutral)
  have low: "\<not> bit r k" if "k < 31" for k
  proof -
    have "bit (push_bit 1 r) (Suc k) \<longleftrightarrow> bit r k" by (subst bit_push_bit_iff) (use that in simp)
    with \<open>push_bit 1 r = 0\<close> show ?thesis by simp
  qed
  with \<open>\<not> bit r 31\<close> have "\<not> bit r k" if "k < 32" for k using that low by (cases "k = 31") auto
  then show "r = 0" by (intro bit_word_eqI) auto
qed

abbreviation "mult_x_n n \<equiv> mult_x ^^ n"

lemma mult_x_n_xor: "mult_x_n n (r XOR s) = mult_x_n n r XOR mult_x_n n s"
  by (induction n arbitrary: r s) (simp_all add: mult_x_xor funpow_swap1)

lemma mult_x_n_0 [simp]: "mult_x_n n 0 = 0"
  by (induction n) simp_all

lemma mult_x_n_eq_0: "mult_x_n n r = 0 \<Longrightarrow> r = 0"
  by (induction n) (auto dest: mult_x_eq_0)

text \<open>The table holds the multiples of \<open>x\<^sup>8\<close>.\<close>

definition table_entry :: "nat \<Rightarrow> 32 word" where
  "table_entry k = mult_x_n 8 (push_bit 24 (of_nat k))"

lemma table_entry_xor:
  assumes "j < 2 ^ i" "i < 8"
  shows "table_entry (2 ^ i + j) = table_entry (2 ^ i) XOR table_entry j"
proof -
  have "\<not> bit (of_nat j :: 32 word) i"
    using assms(1) by (metis bit_of_nat_iff bit_take_bit_iff less_irrefl take_bit_nat_eq_self)
  then have "(2 ^ i :: 32 word) AND of_nat j = 0"
    by (intro bit_word_eqI) (auto simp: bit_simps)
  then have "(of_nat (2 ^ i + j) :: 32 word) = of_nat (2 ^ i) XOR of_nat j"
    by (simp add: disjunctive_add_eq_xor)
  then show ?thesis by (simp add: table_entry_def push_bit_xor mult_x_n_xor)
qed

lemma table_entries_double:
  assumes "i < 8"
  shows "map table_entry [0..<2 ^ Suc i] = (let t = map table_entry [0..<2 ^ i] in t @ map (\<lambda>e. table_entry (2 ^ i) XOR e) t)"
proof -
  have "map table_entry [0..<2 ^ Suc i] = map table_entry [0..<2 ^ i] @ map table_entry [2 ^ i..<2 ^ i + 2 ^ i]"
    using upt_add_eq_append [of 0 "2 ^ i" "2 ^ i"] by (simp add: mult_2)
  also have "map table_entry [2 ^ i..<2 ^ i + 2 ^ i] = map (\<lambda>j. table_entry (2 ^ i + j)) [0..<2 ^ i]"
    by (rule nth_equalityI) auto
  also have "\<dots> = map (\<lambda>j. table_entry (2 ^ i) XOR table_entry j) [0..<2 ^ i]"
    using assms by (intro map_cong refl table_entry_xor) auto
  finally show ?thesis by (simp add: comp_def Let_def)
qed

lemma mult_x_8: "mult_x_n 8 r = mult_x (mult_x (mult_x (mult_x (mult_x (mult_x (mult_x (mult_x r)))))))"
  by (simp add: numeral_eq_Suc)

lemma table_generators: "map (\<lambda>i. table_entry (2 ^ i)) [0..<8] = [0x04c11db7, 0x09823b6e, 0x130476dc, 0x2608edb8, 0x4c11db70, 0x9823b6e0, 0x34867077, 0x690ce0ee]"
  by (simp add: upt_rec table_entry_def mult_x_8 mult_x_def)

lemma table_entries: "i \<le> 8 \<Longrightarrow>
  map table_entry [0..<2 ^ i] = fold (\<lambda>g t. t @ map (\<lambda>e. g XOR e) t) (map (\<lambda>i. table_entry (2 ^ i)) [0..<i]) [0]"
proof (induction i)
  case (Suc i)
  then show ?case using table_entries_double [of i] by (simp add: Let_def del: power_Suc)
qed (simp add: table_entry_def)

lemma table_spec: "table = map table_entry [0..<256]"
proof -
  have "map table_entry [0..<256] = fold (\<lambda>g t. t @ map (\<lambda>e. g XOR e) t) (map (\<lambda>i. table_entry (2 ^ i)) [0..<8]) [0]"
    using table_entries [of 8] by simp
  also have "\<dots> = table" unfolding table_generators by (simp add: table_def)
  finally show ?thesis by simp
qed

lemma nth_table: "k < 256 \<Longrightarrow> table ! k = table_entry k"
  by (simp add: table_spec)

section \<open>Bits\<close>

lemma xor_cancel: "r XOR t = s XOR t \<Longrightarrow> r = s" for r s t :: "'a::len word"
  by (metis xor.assoc xor.right_neutral xor_self_eq)

lemma mult_x_inj: "mult_x r = mult_x s \<Longrightarrow> r = s"
proof -
  assume "mult_x r = mult_x s"
  then have "mult_x (r XOR s) = 0" by (simp add: mult_x_xor)
  then have "r XOR s = s XOR s" by (auto dest: mult_x_eq_0)
  then show ?thesis by (rule xor_cancel)
qed

lemma mult_x_n_inj: "mult_x_n n r = mult_x_n n s \<Longrightarrow> r = s"
  by (induction n) (auto dest: mult_x_inj)

definition high_bit :: "32 word" where
  "high_bit = push_bit 31 1"

lemma bit_high_bit [simp]: "bit high_bit k \<longleftrightarrow> k = 31"
  unfolding high_bit_def by (subst bit_push_bit_iff) (auto simp: bit_1_iff)

text \<open>Shifting a bit into the register, the most significant bit of each byte first.\<close>

definition bit_step :: "32 word \<Rightarrow> bool \<Rightarrow> 32 word" where
  "bit_step r b = mult_x (r XOR (if b then high_bit else 0))"

definition byte_bits :: "byte \<Rightarrow> bool list" where
  "byte_bits b = map (\<lambda>i. bit b (7 - i)) [0..<8]"

definition bits_of :: "bytes \<Rightarrow> bool list" where
  "bits_of d = concat (map byte_bits d)"

fun top_bits :: "bool list \<Rightarrow> 32 word" where
  "top_bits [] = 0"
| "top_bits (b # bs) = (if b then high_bit else 0) XOR drop_bit 1 (top_bits bs)"

lemma bit_top_bits: "bit (top_bits bs) k \<longleftrightarrow> k < 32 \<and> 31 - k < length bs \<and> bs ! (31 - k)"
proof (induction bs arbitrary: k)
  case (Cons b bs)
  show ?case
  proof (cases "k = 31")
    case True
    then show ?thesis by (auto simp: bit_simps dest: bit_imp_le_length)
  next
    case False
    then show ?thesis using Cons [of "Suc k"] by (auto simp: bit_simps nth_Cons' Suc_diff_Suc dest: bit_imp_le_length)
  qed
qed simp

lemma mult_x_drop: "\<not> bit t 0 \<Longrightarrow> mult_x (drop_bit 1 t) = t"
proof (rule bit_word_eqI)
  fix k assume "\<not> bit t 0" "k < LENGTH(32)"
  then show "bit (mult_x (drop_bit 1 t)) k \<longleftrightarrow> bit t k"
    by (cases k) (auto simp: mult_x_def bit_simps plus_1_eq_Suc dest: bit_imp_le_length simp del: push_bit_Suc One_nat_def)
qed

lemma foldl_bit_step: "length bs \<le> 32 \<Longrightarrow> foldl bit_step r bs = mult_x_n (length bs) (r XOR top_bits bs)"
proof (induction bs arbitrary: r)
  case (Cons b bs)
  have "top_bits bs = mult_x (drop_bit 1 (top_bits bs))"
    using Cons.prems by (intro mult_x_drop [symmetric]) (simp add: bit_top_bits)
  then have "bit_step r b XOR top_bits bs = mult_x (r XOR top_bits (b # bs))"
    by (simp add: bit_step_def mult_x_xor xor.assoc)
  with Cons show ?case by (simp add: funpow_swap1)
qed simp

lemma bit_step_inj: "foldl bit_step r bs = foldl bit_step s bs \<Longrightarrow> r = s"
proof (induction bs arbitrary: r s)
  case (Cons b bs)
  then have "bit_step r b = bit_step s b" by simp
  then have "r XOR (if b then high_bit else 0) = s XOR (if b then high_bit else 0)" unfolding bit_step_def by (rule mult_x_inj)
  then show ?case by (rule xor_cancel)
qed simp

lemma top_inj: "length u = length v \<Longrightarrow> length u \<le> 32 \<Longrightarrow> top_bits u = top_bits v \<Longrightarrow> u = v"
proof (rule nth_equalityI)
  fix i assume "length u = length v" "length u \<le> 32" "top_bits u = top_bits v" "i < length u"
  then show "u ! i = v ! i" using bit_top_bits [of u "31 - i"] bit_top_bits [of v "31 - i"] by auto
qed

lemma burst_changes: "length u = length v \<Longrightarrow> length u \<le> 32 \<Longrightarrow> u \<noteq> v \<Longrightarrow> foldl bit_step r (p @ u @ q) \<noteq> foldl bit_step r (p @ v @ q)"
proof
  assume uv: "length u = length v" "length u \<le> 32" "u \<noteq> v" and "foldl bit_step r (p @ u @ q) = foldl bit_step r (p @ v @ q)"
  then have "foldl bit_step (foldl bit_step r p) u = foldl bit_step (foldl bit_step r p) v"
    by (simp add: bit_step_inj)
  then have "foldl bit_step r p XOR top_bits u = foldl bit_step r p XOR top_bits v"
    using uv by (auto simp: foldl_bit_step dest: mult_x_n_inj)
  then have "top_bits u = top_bits v" using xor_cancel [of "top_bits u" "foldl bit_step r p"] by (simp add: xor.commute)
  with uv top_inj show False by blast
qed

section \<open>The loop over the bytes\<close>

lemma mult_x_n_push: "n + m \<le> 32 \<Longrightarrow> (\<And>k. m \<le> k \<Longrightarrow> \<not> bit t k) \<Longrightarrow> mult_x_n n t = push_bit n t"
proof (induction n)
  case (Suc n)
  then have "\<not> bit (push_bit n t) 31" by (auto simp: bit_push_bit_iff)
  then have "mult_x (push_bit n t) = push_bit 1 (push_bit n t)" by (simp only: mult_x_def if_False xor.right_neutral)
  also have "\<dots> = push_bit (Suc n) t" by (simp add: push_bit_push_bit)
  finally show ?case using Suc by simp
qed simp

lemma crc_step_mult: "crc_step r b = mult_x_n 8 (r XOR push_bit 24 (ucast b))"
proof -
  define hi :: "32 word" where "hi = drop_bit 24 r XOR ucast b"
  have hi: "\<not> bit hi k" if "8 \<le> k" for k
    using that by (auto simp: hi_def bit_simps dest: bit_imp_le_length)
  then have "take_bit 8 hi = hi" by (intro bit_word_eqI) (use not_le in \<open>auto simp: bit_simps\<close>)
  then have "unat hi < 2 ^ 8" by (metis unsigned_take_bit_eq take_bit_nat_less_exp)
  then have entry: "table ! unat hi = mult_x_n 8 (push_bit 24 hi)" by (simp add: nth_table table_entry_def)
  have "push_bit 8 r = push_bit 8 (take_bit 24 r)"
    by (intro bit_word_eqI) (auto simp: bit_simps)
  also have "\<dots> = mult_x_n 8 (take_bit 24 r)"
    by (rule mult_x_n_push [symmetric, where m = 24]) (auto simp: bit_simps)
  finally have "crc_step r b = mult_x_n 8 (take_bit 24 r XOR push_bit 24 hi)"
    using entry by (simp add: crc_step_def mult_x_n_xor flip: hi_def)
  also have "take_bit 24 r XOR push_bit 24 hi = r XOR push_bit 24 (ucast b)"
    by (intro bit_word_eqI) (auto simp: hi_def bit_simps)
  finally show ?thesis .
qed

lemma length_byte_bits [simp]: "length (byte_bits b) = 8"
  by (simp add: byte_bits_def)

lemma top_bits_byte: "top_bits (byte_bits b) = push_bit 24 (ucast b)"
  by (intro bit_word_eqI) (auto simp: bit_top_bits byte_bits_def bit_simps)

lemma crc_step_bits: "crc_step r b = foldl bit_step r (byte_bits b)"
  by (simp add: crc_step_mult foldl_bit_step top_bits_byte)

lemma foldl_crc_step: "foldl crc_step r d = foldl bit_step r (bits_of d)"
  by (induction d arbitrary: r) (simp_all add: bits_of_def crc_step_bits)

lemma nth_byte_bits: "j < 8 \<Longrightarrow> byte_bits b ! j \<longleftrightarrow> bit b (7 - j)"
  unfolding byte_bits_def by (subst nth_map) simp_all

lemma byte_bits_inj: "byte_bits b = byte_bits c \<Longrightarrow> b = c"
proof (rule bit_word_eqI)
  fix k assume "byte_bits b = byte_bits c" "k < LENGTH(8)"
  then show "bit b k \<longleftrightarrow> bit c k" using nth_byte_bits [of "7 - k" b] nth_byte_bits [of "7 - k" c] by simp
qed

lemma bits_of_inj: "length d = length d' \<Longrightarrow> bits_of d = bits_of d' \<Longrightarrow> d = d'"
  by (induction d d' rule: list_induct2) (auto simp: bits_of_def dest: byte_bits_inj)

lemma length_bits_of [simp]: "length (bits_of d) = 8 * length d"
  by (induction d) (simp_all add: bits_of_def)

text \<open>Two messages of the same length differ in a burst: all bits that differ are among 32 consecutive ones.\<close>

definition burst :: "bytes \<Rightarrow> bytes \<Rightarrow> bool" where
  "burst d d' \<longleftrightarrow> length d = length d' \<and> d \<noteq> d' \<and>
     (\<exists>i. \<forall>k < 8 * length d. bits_of d ! k \<noteq> bits_of d' ! k \<longrightarrow> i \<le> k \<and> k < i + 32)"

lemma crc_detects_burst:
  assumes "burst d d'"
  shows "crc_compute d \<noteq> crc_compute d'"
proof -
  from assms have d: "length d = length d'" "d \<noteq> d'" by (simp_all add: burst_def)
  from assms obtain i where i: "\<And>k. k < 8 * length d \<Longrightarrow> bits_of d ! k \<noteq> bits_of d' ! k \<Longrightarrow> i \<le> k \<and> k < i + 32"
    unfolding burst_def by blast
  define p u q v where "p = take i (bits_of d)" and "u = take 32 (drop i (bits_of d))" and "q = drop (i + 32) (bits_of d)"
    and "v = take 32 (drop i (bits_of d'))"
  have d1: "bits_of d = p @ u @ q"
    by (simp add: p_def u_def q_def) (metis append_take_drop_id drop_drop add.commute)
  have "take i (bits_of d') = p" unfolding p_def
  proof (rule nth_equalityI)
    fix k assume "k < length (take i (bits_of d'))"
    then show "take i (bits_of d') ! k = take i (bits_of d) ! k" using i [of k] d(1) by auto
  qed (use d in simp)
  moreover have "drop (i + 32) (bits_of d') = q" unfolding q_def
  proof (rule nth_equalityI)
    fix k assume "k < length (drop (i + 32) (bits_of d'))"
    then have k: "i + 32 + k < 8 * length d" using d(1) by simp
    from i [OF this] have "bits_of d ! (i + 32 + k) = bits_of d' ! (i + 32 + k)" by fastforce
    then show "drop (i + 32) (bits_of d') ! k = drop (i + 32) (bits_of d) ! k" using k d(1) by simp
  qed (use d in simp)
  ultimately have d2: "bits_of d' = p @ v @ q"
    by (metis v_def append_take_drop_id drop_drop add.commute)
  have "u \<noteq> v" using d bits_of_inj d1 d2 by metis
  moreover have "length u = length v" "length u \<le> 32" by (simp_all add: u_def v_def d(1))
  ultimately have "foldl crc_step r d \<noteq> foldl crc_step r d'" for r
    unfolding foldl_crc_step d1 d2 by (intro burst_changes) auto
  then show ?thesis unfolding crc_compute_def by (metis xor_cancel)
qed

end
