(* ===== verification/Channel.thy ===== *)
theory Channel
  imports CRC32
begin

text \<open>
  \<open>CS3311 Computer Network/RDT Lab/core\<close>: \<open>Channel.h\<close>, \<open>Channel.cpp\<close> and \<open>Timer.cpp\<close>, packets with a checksum and their retransmission.

  The tasks and the timers are maps by handle; a timer lives on when its task is erased.  What the socket sends is a list.  The lock makes
  \<open>send\<close>, \<open>terminate\<close> and \<open>sender\<close> atomic; a callback is a result.  The clock is an argument, the retry count a natural number.
\<close>

section \<open>Packets\<close>

definition crc_bytes :: "bytes \<Rightarrow> bytes" where
  "crc_bytes d = (case crc_digest (Some (crc_compute d)) of Inl e \<Rightarrow> [] | Inr digest \<Rightarrow> digest)"

definition write_at :: "bytes \<Rightarrow> nat \<Rightarrow> bytes \<Rightarrow> bytes" where
  "write_at d offset v = take offset d @ v @ drop (offset + length v) d"

definition encode :: "bytes \<Rightarrow> nat \<Rightarrow> 64 word \<Rightarrow> bytes" where
  "encode d tries now = (
     let header = replicate 16 0;
         header = write_at header 4 (to_le 4 (of_nat tries :: 32 word));
         header = write_at header 8 (to_le 8 now);
         header = header @ d;
         digest = crc_bytes (drop 4 header)
     in write_at header 0 (to_le 4 (from_le digest :: 32 word)))"

record header =
  h_valid :: bool
  h_checksum :: "32 word"
  h_tries :: "32 word"
  h_timestamp :: "64 word"

definition decode :: "bytes \<Rightarrow> header \<times> bytes" where
  "decode d = (
     if length d < 16 then (\<lparr>h_valid = False, h_checksum = 0, h_tries = 0, h_timestamp = 0\<rparr>, d)
     else
       let checksum = from_le (take 4 d);
           tries = from_le (take 4 (drop 4 d));
           timestamp = from_le (take 8 (drop 8 d))
       in if checksum \<noteq> from_le (crc_bytes (drop 4 d)) then (\<lparr>h_valid = False, h_checksum = 0, h_tries = 0, h_timestamp = 0\<rparr>, d)
          else (\<lparr>h_valid = True, h_checksum = checksum, h_tries = tries, h_timestamp = timestamp\<rparr>, drop 16 d))"

lemma crc_bytes_rev: "crc_bytes d = rev (to_le 4 (crc_compute d))"
proof -
  have "replicate 4 x = [x, x, x, x]" for x :: byte by (simp add: numeral_eq_Suc)
  then show ?thesis by (simp add: crc_bytes_def crc_digest_def to_le_def upt_rec mult.commute)
qed

lemma length_crc_bytes [simp]: "length (crc_bytes d) = 4"
  by (simp add: crc_bytes_rev)

lemma crc_bytes_inj: "crc_bytes d = crc_bytes d' \<longleftrightarrow> crc_compute d = crc_compute d'"
proof
  assume "crc_bytes d = crc_bytes d'"
  then have "from_le (to_le 4 (crc_compute d)) = (from_le (to_le 4 (crc_compute d')) :: 32 word)" by (simp add: crc_bytes_rev)
  then show "crc_compute d = crc_compute d'" by (simp add: from_to_le)
qed (simp add: crc_bytes_rev)

lemma from_le_inj: "length bs = n \<Longrightarrow> length cs = n \<Longrightarrow> 8 * n \<le> LENGTH('a) \<Longrightarrow> from_le bs = (from_le cs :: 'a::len word) \<longleftrightarrow> bs = cs"
  by (metis to_from_le)

lemma encode_layout:
  "encode d tries now = crc_bytes (to_le 4 (of_nat tries :: 32 word) @ to_le 8 now @ d) @ to_le 4 (of_nat tries :: 32 word) @ to_le 8 now @ d"
  by (simp add: encode_def Let_def write_at_def to_from_le)

lemma length_encode [simp]: "length (encode d tries now) = 16 + length d"
  by (simp add: encode_layout)

lemma encode_ne [simp]: "encode d tries now \<noteq> []"
  using length_encode [of d tries now] by force

lemma decode_valid: "length d \<ge> 16 \<Longrightarrow> h_valid (fst (decode d)) \<longleftrightarrow> take 4 d = crc_bytes (drop 4 d)"
  by (auto simp: decode_def Let_def from_le_inj)

lemma decode_encode:
  "decode (encode d tries now) = (\<lparr>h_valid = True, h_checksum = from_le (take 4 (encode d tries now)), h_tries = of_nat tries, h_timestamp = now\<rparr>, d)"
  by (simp add: decode_def Let_def encode_layout from_to_le)

text \<open>
  What the network may do to a packet without changing its length: damage the bytes after the checksum in a burst of up to 32 bits, or
  the checksum alone.
\<close>

definition damaged :: "bytes \<Rightarrow> bytes \<Rightarrow> bool" where
  "damaged p p' \<longleftrightarrow> length p = length p' \<and>
     (take 4 p = take 4 p' \<and> burst (drop 4 p) (drop 4 p') \<or> take 4 p \<noteq> take 4 p' \<and> drop 4 p = drop 4 p')"

lemma damaged_invalid:
  assumes "damaged (encode d tries now) p"
  shows "\<not> h_valid (fst (decode p)) \<and> snd (decode p) = p"
proof -
  have e: "length (encode d tries now) \<ge> 16" "take 4 (encode d tries now) = crc_bytes (drop 4 (encode d tries now))"
    by (simp_all add: encode_layout)
  have "take 4 p \<noteq> crc_bytes (drop 4 p)"
    using assms e(2) crc_detects_burst [of "drop 4 (encode d tries now)" "drop 4 p"] by (auto simp: damaged_def crc_bytes_inj)
  moreover have "16 \<le> length p" using assms e(1) by (simp add: damaged_def)
  ultimately show ?thesis by (auto simp: decode_def Let_def from_le_inj)
qed

section \<open>Sending\<close>

record task =
  t_data :: bytes
  t_IP :: string
  t_port :: int

record task_detail =
  td_task :: task
  td_timeout :: int
  td_tries :: nat
  td_retries :: nat

text \<open>A timer's thread: whether it is running, and how many rounds of its loop are left.\<close>

record timer =
  tm_running :: bool
  tm_left :: nat

record channel =
  mHandle :: int
  mTasks :: "int \<Rightarrow> task_detail option"
  mTimers :: "int \<Rightarrow> timer option"
  mRetryCallback :: bool
  mTimeoutCallback :: bool
  mSocket :: "(bytes \<times> string \<times> int) list"

datatype callback = Nothing | Retry task | Timeout task

definition sender :: "channel \<Rightarrow> int \<Rightarrow> 64 word \<Rightarrow> channel \<times> callback" where
  "sender c handle now = (case mTasks c handle of
     None \<Rightarrow> (c, Nothing)
   | Some detail \<Rightarrow>
       if td_retries detail < td_tries detail then
         (c, if td_retries detail \<noteq> 0 \<and> mTimeoutCallback c then Timeout (td_task detail) else Nothing)
       else
         let d = encode (t_data (td_task detail)) (td_tries detail) now;
             c = c\<lparr>mSocket := mSocket c @ [(d, t_IP (td_task detail), t_port (td_task detail))]\<rparr>;
             tries = td_tries detail;
             c = c\<lparr>mTasks := (mTasks c)(handle \<mapsto> detail\<lparr>td_tries := tries + 1\<rparr>)\<rparr>
         in (c, if tries \<noteq> 0 \<and> mRetryCallback c then Retry (td_task detail) else Nothing))"

definition timer_start :: "timer \<Rightarrow> nat \<Rightarrow> timer" where
  "timer_start t n = (if tm_running t then t else \<lparr>tm_running = True, tm_left = n\<rparr>)"

definition channel_send :: "channel \<Rightarrow> task \<Rightarrow> int \<Rightarrow> nat \<Rightarrow> 64 word \<Rightarrow> channel \<times> callback \<times> int" where
  "channel_send c task timeout retries now = (
     let handle = mHandle c;
         detail = \<lparr>td_task = task, td_timeout = timeout, td_tries = 0, td_retries = retries\<rparr>;
         c = c\<lparr>mTimers := (mTimers c)(handle \<mapsto> timer_start \<lparr>tm_running = False, tm_left = 0\<rparr> (retries + 1))\<rparr>;
         c = c\<lparr>mTasks := (case mTasks c handle of None \<Rightarrow> (mTasks c)(handle \<mapsto> detail) | Some _ \<Rightarrow> mTasks c)\<rparr>;
         c = c\<lparr>mHandle := mHandle c + 1\<rparr>;
         (c, cb) = sender c handle now
     in (c, cb, handle))"

text \<open>One round of the timer's thread, after its sleep.\<close>

definition timer_round :: "channel \<Rightarrow> int \<Rightarrow> 64 word \<Rightarrow> channel \<times> callback" where
  "timer_round c handle now = (case mTimers c handle of
     None \<Rightarrow> (c, Nothing)
   | Some t \<Rightarrow>
       if tm_running t \<and> 0 < tm_left t
       then sender (c\<lparr>mTimers := (mTimers c)(handle \<mapsto> t\<lparr>tm_left := tm_left t - 1\<rparr>)\<rparr>) handle now
       else (c, Nothing))"

definition channel_terminate :: "channel \<Rightarrow> int \<Rightarrow> channel" where
  "channel_terminate c handle = (case mTasks c handle of
     None \<Rightarrow> c
   | Some detail \<Rightarrow> c\<lparr>mTimers := (mTimers c)(handle := map_option (\<lambda>t. t\<lparr>tm_running := False\<rparr>) (mTimers c handle)), mTasks := (mTasks c)(handle := None)\<rparr>)"

section \<open>Receiving\<close>

record received =
  mCorrupted :: nat
  mLost :: nat
  mSuccessful :: nat

text \<open>One round of \<open>receiver\<close>: the statistics, and the data for the callback.  Nothing has arrived when the datagram is empty.\<close>

definition receiver :: "received \<Rightarrow> bytes \<Rightarrow> received \<times> bytes option" where
  "receiver s d = (
     if d = [] then (s, None)
     else case decode d of (h, d) \<Rightarrow>
       if \<not> h_valid h then (s\<lparr>mCorrupted := mCorrupted s + 1\<rparr>, None)
       else
         let s = (if 0 < h_tries h then s\<lparr>mLost := mLost s + 1\<rparr> else s);
             s = s\<lparr>mSuccessful := mSuccessful s + 1\<rparr>
         in (s, Some d))"

section \<open>Retransmission\<close>

text \<open>The timer's rounds at the times \<open>ts\<close>, with the callbacks they make.\<close>

fun timer_rounds :: "channel \<Rightarrow> int \<Rightarrow> 64 word list \<Rightarrow> channel \<times> callback list" where
  "timer_rounds c handle [] = (c, [])"
| "timer_rounds c handle (now # ts) = (
     let (c, cb) = timer_round c handle now; (c, cbs) = timer_rounds c handle ts in (c, cb # cbs))"

definition transmission :: "task \<Rightarrow> nat \<Rightarrow> 64 word \<Rightarrow> bytes \<times> string \<times> int" where
  "transmission t tries now = (encode (t_data t) tries now, t_IP t, t_port t)"

definition pending :: "channel \<Rightarrow> int \<Rightarrow> task \<Rightarrow> int \<Rightarrow> nat \<Rightarrow> nat \<Rightarrow> bool" where
  "pending c h t timeout tries retries \<longleftrightarrow> tries \<le> retries + 1 \<and>
     mTasks c h = Some \<lparr>td_task = t, td_timeout = timeout, td_tries = tries, td_retries = retries\<rparr> \<and>
     mTimers c h = Some \<lparr>tm_running = True, tm_left = retries + 2 - tries\<rparr>"

lemma pending_retry:
  assumes "pending c h t timeout tries retries" "0 < tries" "tries \<le> retries"
  shows "\<exists>c'. timer_round c h now = (c', if mRetryCallback c then Retry t else Nothing) \<and> pending c' h t timeout (Suc tries) retries \<and>
    mSocket c' = mSocket c @ [transmission t tries now] \<and> mRetryCallback c' = mRetryCallback c \<and> mTimeoutCallback c' = mTimeoutCallback c"
  using assms by (simp add: pending_def timer_round_def sender_def Let_def transmission_def Suc_diff_le)

lemma pending_timeout:
  assumes "pending c h t timeout (retries + 1) retries"
  shows "\<exists>c'. timer_round c h now = (c', if retries \<noteq> 0 \<and> mTimeoutCallback c then Timeout t else Nothing) \<and>
    mSocket c' = mSocket c \<and> (\<forall>now. timer_round c' h now = (c', Nothing))"
  using assms by (simp add: pending_def timer_round_def sender_def Let_def)

lemma retries_sent:
  assumes "pending c h t timeout tries retries" "0 < tries" "tries + length ts \<le> retries + 1"
  shows "\<exists>c'. timer_rounds c h ts = (c', replicate (length ts) (if mRetryCallback c then Retry t else Nothing)) \<and>
    pending c' h t timeout (tries + length ts) retries \<and>
    mSocket c' = mSocket c @ map2 (transmission t) [tries..<tries + length ts] ts \<and> mTimeoutCallback c' = mTimeoutCallback c"
  using assms
proof (induction ts arbitrary: c tries)
  case (Cons now ts)
  from Cons.prems have "tries \<le> retries" by simp
  from pending_retry [OF Cons.prems(1,2) this, of now] obtain c1 where c1:
    "timer_round c h now = (c1, if mRetryCallback c then Retry t else Nothing)" "pending c1 h t timeout (Suc tries) retries"
    "mSocket c1 = mSocket c @ [transmission t tries now]" "mRetryCallback c1 = mRetryCallback c" "mTimeoutCallback c1 = mTimeoutCallback c" by blast
  from Cons.IH [OF c1(2)] Cons.prems obtain c2 where "timer_rounds c1 h ts = (c2, replicate (length ts) (if mRetryCallback c then Retry t else Nothing))"
    "pending c2 h t timeout (Suc tries + length ts) retries" "mSocket c2 = mSocket c1 @ map2 (transmission t) [Suc tries..<Suc tries + length ts] ts"
    "mTimeoutCallback c2 = mTimeoutCallback c" using c1(4,5) by auto
  with c1 \<open>tries \<le> retries\<close> show ?case by (simp add: upt_conv_Cons del: upt_Suc)
qed simp

lemma send_pending:
  assumes "mTasks c (mHandle c) = None"
  shows "\<exists>c'. channel_send c t timeout retries now = (c', Nothing, mHandle c) \<and> pending c' (mHandle c) t timeout 1 retries \<and>
    mSocket c' = mSocket c @ [transmission t 0 now] \<and> mRetryCallback c' = mRetryCallback c \<and> mTimeoutCallback c' = mTimeoutCallback c"
  using assms by (simp add: channel_send_def Let_def timer_start_def sender_def pending_def transmission_def)

lemma terminated_silent:
  assumes "mTasks c h = Some detail" "mTimers c h = Some tm"
  shows "timer_rounds (channel_terminate c h) h ts = (channel_terminate c h, replicate (length ts) Nothing)"
  using assms by (induction ts) (simp_all add: channel_terminate_def timer_round_def)

section \<open>What a channel sends\<close>

text \<open>Every task of the channel satisfies \<open>P\<close>, and every packet it has sent is a transmission of such a task.\<close>

definition sends_only :: "(task \<Rightarrow> bool) \<Rightarrow> channel \<Rightarrow> bool" where
  "sends_only P c \<longleftrightarrow> (\<forall>h d. mTasks c h = Some d \<longrightarrow> P (td_task d)) \<and> (\<forall>x \<in> set (mSocket c). \<exists>t n now. P t \<and> x = transmission t n now)"

definition callback_task :: "callback \<Rightarrow> task option" where
  "callback_task cb = (case cb of Nothing \<Rightarrow> None | Retry t \<Rightarrow> Some t | Timeout t \<Rightarrow> Some t)"

lemma callback_task_simps [simp]: "callback_task Nothing = None" "callback_task (Retry t) = Some t" "callback_task (Timeout t) = Some t"
  by (simp_all add: callback_task_def)

lemma sender_sends_only:
  assumes "sends_only P c" "sender c h now = (c', cb)"
  shows "sends_only P c' \<and> (\<forall>t. callback_task cb = Some t \<longrightarrow> P t)"
proof (cases "mTasks c h")
  case (Some d)
  then have "P (td_task d)" using assms(1) by (auto simp: sends_only_def)
  with assms Some show ?thesis
    by (auto simp: sender_def Let_def sends_only_def split: if_splits) (auto simp: transmission_def)
qed (use assms in \<open>auto simp: sender_def\<close>)

lemma channel_send_sends_only:
  assumes "sends_only P c" "P t" "channel_send c t timeout retries now = (c', cb, h)"
  shows "sends_only P c'"
proof -
  define c1 where "c1 = c\<lparr>mTimers := (mTimers c)(mHandle c \<mapsto> timer_start \<lparr>tm_running = False, tm_left = 0\<rparr> (retries + 1)),
    mTasks := (case mTasks c (mHandle c) of None \<Rightarrow> (mTasks c)(mHandle c \<mapsto> \<lparr>td_task = t, td_timeout = timeout, td_tries = 0, td_retries = retries\<rparr>) | Some _ \<Rightarrow> mTasks c),
    mHandle := mHandle c + 1\<rparr>"
  have "sends_only P c1" using assms(1,2) by (auto simp: c1_def sends_only_def split: option.splits)
  moreover have "sender c1 (mHandle c) now = (c', cb)"
    using assms(3) by (cases "mTasks c (mHandle c)") (auto simp: channel_send_def Let_def c1_def split: prod.splits)
  ultimately show ?thesis using sender_sends_only by blast
qed

lemma timer_round_sends_only:
  assumes "sends_only P c" "timer_round c h now = (c', cb)"
  shows "sends_only P c' \<and> (\<forall>t. callback_task cb = Some t \<longrightarrow> P t)"
proof (cases "mTimers c h")
  case (Some tm)
  have "sends_only P (c\<lparr>mTimers := x\<rparr>)" for x using assms(1) by (simp add: sends_only_def)
  with Some assms sender_sends_only show ?thesis by (fastforce simp: timer_round_def split: if_splits)
qed (use assms in \<open>auto simp: timer_round_def\<close>)

lemma channel_terminate_sends_only: "sends_only P c \<Longrightarrow> sends_only P (channel_terminate c h)"
  by (auto simp: channel_terminate_def sends_only_def split: option.splits if_splits)

text \<open>
  C34 (safety).  The receiver hands every packet to its callback with exactly the data that was sent, whatever data, retry number and time
  it carries, and counts it; a packet whose bytes after the checksum, sequence number and time included, were damaged in a burst of up to 32
  bits, or whose checksum was, is counted as corrupted and dropped, so no damaged data reaches the callback.
\<close>

theorem channel_integrity:
  shows "receiver s (encode d tries now) =
      (s\<lparr>mLost := mLost s + (if (of_nat tries :: 32 word) = 0 then 0 else 1), mSuccessful := mSuccessful s + 1\<rparr>, Some d) \<and>
    (damaged (encode d tries now) p \<longrightarrow> receiver s p = (s\<lparr>mCorrupted := mCorrupted s + 1\<rparr>, None))"
proof (intro conjI impI)
  show "receiver s (encode d tries now) =
      (s\<lparr>mLost := mLost s + (if (of_nat tries :: 32 word) = 0 then 0 else 1), mSuccessful := mSuccessful s + 1\<rparr>, Some d)"
    by (simp add: receiver_def decode_encode word_gt_0)
next
  assume p: "damaged (encode d tries now) p"
  then have "p \<noteq> []" by (auto simp: damaged_def)
  with damaged_invalid [OF p] show "receiver s p = (s\<lparr>mCorrupted := mCorrupted s + 1\<rparr>, None)"
    by (cases "decode p") (auto simp: receiver_def)
qed

theorem channel_integrity_witness:
  "\<exists>p. damaged (encode [1, 2, 3] 0 5) p \<and>
    receiver \<lparr>mCorrupted = 4, mLost = 0, mSuccessful = 9\<rparr> p = (\<lparr>mCorrupted = 5, mLost = 0, mSuccessful = 9\<rparr>, None)"
proof -
  define p where "p = (take 4 (encode [1, 2, 3] 0 5))[0 := hd (encode [1, 2, 3] 0 5) + 1] @ drop 4 (encode [1, 2, 3] 0 5)"
  have "take 4 (encode [1, 2, 3] 0 5) ! 0 \<noteq> take 4 p ! 0"
    by (simp add: p_def hd_conv_nth [OF encode_ne] nth_append)
  then have "take 4 (encode [1, 2, 3] 0 5) \<noteq> take 4 p" by metis
  then have "damaged (encode [1, 2, 3] 0 5) p" by (simp add: damaged_def p_def)
  then show ?thesis
    using channel_integrity [of "\<lparr>mCorrupted = 4, mLost = 0, mSuccessful = 9\<rparr>" "[1, 2, 3]" 0 5 p] by auto
qed


definition idle_channel :: channel where
  "idle_channel = \<lparr>mHandle = 5, mTasks = Map.empty, mTimers = Map.empty, mRetryCallback = True, mTimeoutCallback = True, mSocket = []\<rparr>"


end
