(* ===== verification/MD5.thy ===== *)
theory MD5
  imports Bytes Array_Loops
begin

text \<open>
  \<open>CS3311 Computer Network/RDT Lab/core/source/Checksum.cpp\<close>: \<open>MD5\<close>, fed piece by piece, against the digest of the whole message as
  RFC 1321 has it.  \<open>mBlocks\<close> is never used.
\<close>

section \<open>\<open>transform\<close>\<close>

datatype mixer = mix_F | mix_G | mix_H | mix_I

fun mix :: "mixer \<Rightarrow> 32 word \<Rightarrow> 32 word \<Rightarrow> 32 word \<Rightarrow> 32 word" where
  "mix mix_F x y z = z XOR (x AND (y XOR z))"
| "mix mix_G x y z = y XOR (z AND (x XOR y))"
| "mix mix_H x y z = x XOR y XOR z"
| "mix mix_I x y z = y XOR (x OR NOT z)"

text \<open>The calls of \<open>step\<close> in order: function, word, constant, rotation.  Their first four arguments are \<open>a, b, c, d\<close>, then \<open>d, a, b, c\<close>, and so
  on: each call finds the four variables rotated by one place.\<close>

definition rounds :: "(mixer \<times> nat \<times> 32 word \<times> nat) list" where
  "rounds = [
   (mix_F, 0, 0xd76aa478, 7), (mix_F, 1, 0xe8c7b756, 12), (mix_F, 2, 0x242070db, 17), (mix_F, 3, 0xc1bdceee, 22),
   (mix_F, 4, 0xf57c0faf, 7), (mix_F, 5, 0x4787c62a, 12), (mix_F, 6, 0xa8304613, 17), (mix_F, 7, 0xfd469501, 22),
   (mix_F, 8, 0x698098d8, 7), (mix_F, 9, 0x8b44f7af, 12), (mix_F, 10, 0xffff5bb1, 17), (mix_F, 11, 0x895cd7be, 22),
   (mix_F, 12, 0x6b901122, 7), (mix_F, 13, 0xfd987193, 12), (mix_F, 14, 0xa679438e, 17), (mix_F, 15, 0x49b40821, 22),
   (mix_G, 1, 0xf61e2562, 5), (mix_G, 6, 0xc040b340, 9), (mix_G, 11, 0x265e5a51, 14), (mix_G, 0, 0xe9b6c7aa, 20),
   (mix_G, 5, 0xd62f105d, 5), (mix_G, 10, 0x02441453, 9), (mix_G, 15, 0xd8a1e681, 14), (mix_G, 4, 0xe7d3fbc8, 20),
   (mix_G, 9, 0x21e1cde6, 5), (mix_G, 14, 0xc33707d6, 9), (mix_G, 3, 0xf4d50d87, 14), (mix_G, 8, 0x455a14ed, 20),
   (mix_G, 13, 0xa9e3e905, 5), (mix_G, 2, 0xfcefa3f8, 9), (mix_G, 7, 0x676f02d9, 14), (mix_G, 12, 0x8d2a4c8a, 20),
   (mix_H, 5, 0xfffa3942, 4), (mix_H, 8, 0x8771f681, 11), (mix_H, 11, 0x6d9d6122, 16), (mix_H, 14, 0xfde5380c, 23),
   (mix_H, 1, 0xa4beea44, 4), (mix_H, 4, 0x4bdecfa9, 11), (mix_H, 7, 0xf6bb4b60, 16), (mix_H, 10, 0xbebfbc70, 23),
   (mix_H, 13, 0x289b7ec6, 4), (mix_H, 0, 0xeaa127fa, 11), (mix_H, 3, 0xd4ef3085, 16), (mix_H, 6, 0x04881d05, 23),
   (mix_H, 9, 0xd9d4d039, 4), (mix_H, 12, 0xe6db99e5, 11), (mix_H, 15, 0x1fa27cf8, 16), (mix_H, 2, 0xc4ac5665, 23),
   (mix_I, 0, 0xf4292244, 6), (mix_I, 7, 0x432aff97, 10), (mix_I, 14, 0xab9423a7, 15), (mix_I, 5, 0xfc93a039, 21),
   (mix_I, 12, 0x655b59c3, 6), (mix_I, 3, 0x8f0ccc92, 10), (mix_I, 10, 0xffeff47d, 15), (mix_I, 1, 0x85845dd1, 21),
   (mix_I, 8, 0x6fa87e4f, 6), (mix_I, 15, 0xfe2ce6e0, 10), (mix_I, 6, 0xa3014314, 15), (mix_I, 13, 0x4e0811a1, 21),
   (mix_I, 4, 0xf7537e82, 6), (mix_I, 11, 0xbd3af235, 10), (mix_I, 2, 0x2ad7d2bb, 15), (mix_I, 9, 0xeb86d391, 21)]"

type_synonym registers = "32 word \<times> 32 word \<times> 32 word \<times> 32 word"

definition step :: "mixer \<Rightarrow> 32 word \<Rightarrow> 32 word \<Rightarrow> 32 word \<Rightarrow> 32 word \<Rightarrow> 32 word \<Rightarrow> 32 word \<Rightarrow> nat \<Rightarrow> 32 word" where
  "step f a b c d x k s = (
     let a = a + (mix f b c d + x + k);
         a = push_bit s a OR drop_bit (32 - s) a
     in a + b)"

definition block_word :: "bytes \<Rightarrow> nat \<Rightarrow> 32 word" where
  "block_word d i = from_le (take 4 (drop (i * 4) d))"

definition md5_rounds :: "bytes \<Rightarrow> (mixer \<times> nat \<times> 32 word \<times> nat) list \<Rightarrow> registers \<Rightarrow> registers" where
  "md5_rounds d = fold (\<lambda>(f, i, k, s) (a, b, c, d'). (d', step f a b c d' (block_word d i) k s, b, c))"

definition transform :: "bytes \<Rightarrow> registers \<Rightarrow> registers" where
  "transform d = (\<lambda>(mA, mB, mC, mD). case md5_rounds d rounds (mA, mB, mC, mD) of (a, b, c, d) \<Rightarrow> (mA + a, mB + b, mC + c, mD + d))"

section \<open>The object\<close>

record md5 =
  mABCD :: registers
  mBuffer :: bytes
  mSize :: "64 word"
  mValid :: bool

definition md5_reset :: "md5 \<Rightarrow> md5" where
  "md5_reset m = m\<lparr>mABCD := (0x67452301, 0xefcdab89, 0x98badcfe, 0x10325476), mSize := 0, mValid := False\<rparr>"

definition overwrite :: "bytes \<Rightarrow> nat \<Rightarrow> bytes \<Rightarrow> bytes" where
  "overwrite buf off d = take off buf @ d @ drop (off + length d) buf"

text \<open>\<open>while (distance(iter, data.cend()) >= 64)\<close>\<close>

function transform_blocks :: "bytes \<Rightarrow> registers \<Rightarrow> registers" where
  "transform_blocks iter r = (if 64 \<le> length iter then transform_blocks (drop 64 iter) (transform (take 64 iter) r) else r)"
  by pat_completeness auto
termination
  by (relation "measure (\<lambda>(iter, r). length iter)") auto

declare transform_blocks.simps [simp del]

definition md5_update :: "md5 \<Rightarrow> bytes \<Rightarrow> (string + md5)" where
  "md5_update m d = (
     if mValid m then Inl ''MD5: cannot update finalized checksum''
     else let bufferSize = unat (mSize m mod 64) in
       if bufferSize + length d < 64
       then Inr (m\<lparr>mBuffer := overwrite (mBuffer m) bufferSize d, mSize := mSize m + of_nat (length d)\<rparr>)
       else
         let m' = (if bufferSize \<noteq> 0 then
               let buf = overwrite (mBuffer m) bufferSize (take (64 - bufferSize) d) in m\<lparr>mBuffer := buf, mABCD := transform buf (mABCD m)\<rparr>
             else m);
             iter = (if bufferSize \<noteq> 0 then drop (64 - bufferSize) d else d);
             m' = m'\<lparr>mABCD := transform_blocks iter (mABCD m')\<rparr>;
             m' = m'\<lparr>mBuffer := overwrite (mBuffer m') 0 (drop (length d - length d mod 64) d)\<rparr>
         in Inr (m'\<lparr>mSize := mSize m' + of_nat (length d)\<rparr>))"

definition md5_finalize :: "md5 \<Rightarrow> md5" where
  "md5_finalize m = (
     let bufferSize = unat (mSize m mod 64);
         m = m\<lparr>mBuffer := (mBuffer m)[bufferSize := 0x80]\<rparr>;
         bufferSize = bufferSize + 1;
         (m, bufferSize) = (if 56 < bufferSize then
             let buf = overwrite (mBuffer m) bufferSize (replicate (64 - bufferSize) 0) in (m\<lparr>mBuffer := buf, mABCD := transform buf (mABCD m)\<rparr>, 0)
           else (m, bufferSize));
         buf = overwrite (mBuffer m) bufferSize (replicate (56 - bufferSize) 0);
         buf = fold (\<lambda>i buf. buf[56 + i := ucast (drop_bit (i * 8) (push_bit 3 (mSize m)))]) [0..<8] buf
     in m\<lparr>mBuffer := buf, mABCD := transform buf (mABCD m), mValid := True\<rparr>)"

definition md5_digest :: "md5 \<Rightarrow> (string + bytes)" where
  "md5_digest m = (
     if \<not> mValid m then Inl ''MD5: cannot get digest of non-finalized checksum''
     else case mABCD m of (a, b, c, d) \<Rightarrow> Inr (concat (map (\<lambda>w. map (\<lambda>j. ucast (drop_bit (j * 8) w)) [0..<4]) [a, b, c, d])))"

definition md5_compute :: "md5 \<Rightarrow> bytes \<Rightarrow> (string + md5)" where
  "md5_compute m d = (case md5_update (md5_reset m) d of Inl e \<Rightarrow> Inl e | Inr m \<Rightarrow> Inr (md5_finalize m))"

text \<open>Reading a stream: \<open>read\<close> gives 64 bytes or, at the end, what is left, perhaps nothing.\<close>

function read_chunks :: "bytes \<Rightarrow> bytes list" where
  "read_chunks content = (if 64 \<le> length content then take 64 content # read_chunks (drop 64 content) else [content])"
  by pat_completeness auto
termination
  by (relation "measure length") auto

declare read_chunks.simps [simp del]

fun md5_feed :: "md5 \<Rightarrow> bytes list \<Rightarrow> (string + md5)" where
  "md5_feed m [] = Inr m"
| "md5_feed m (d # ds) = (case md5_update m d of Inl e \<Rightarrow> Inl e | Inr m \<Rightarrow> md5_feed m ds)"

definition md5_compute_stream :: "md5 \<Rightarrow> bytes \<Rightarrow> (string + md5)" where
  "md5_compute_stream m content = (case md5_feed (md5_reset m) (read_chunks content) of Inl e \<Rightarrow> Inl e | Inr m \<Rightarrow> Inr (md5_finalize m))"

section \<open>RFC 1321\<close>

definition padding :: "nat \<Rightarrow> bytes" where
  "padding n = [0x80] @ replicate ((if n mod 64 < 56 then 55 else 119) - n mod 64) 0 @ to_le 8 (of_nat (8 * n) :: 64 word)"

definition md5_spec :: "bytes \<Rightarrow> bytes" where
  "md5_spec msg = (case transform_blocks (msg @ padding (length msg)) (0x67452301, 0xefcdab89, 0x98badcfe, 0x10325476) of
     (a, b, c, d) \<Rightarrow> to_le 4 a @ to_le 4 b @ to_le 4 c @ to_le 4 d)"

section \<open>Feeding piece by piece\<close>

lemma transform_blocks_short: "length xs < 64 \<Longrightarrow> transform_blocks xs r = r"
  by (subst transform_blocks.simps) simp

lemma transform_blocks_block: "length b = 64 \<Longrightarrow> transform_blocks (b @ xs) r = transform_blocks xs (transform b r)"
  by (subst transform_blocks.simps) simp

lemma transform_blocks_append: "length xs mod 64 = 0 \<Longrightarrow> transform_blocks (xs @ ys) r = transform_blocks ys (transform_blocks xs r)"
proof (induction xs r rule: transform_blocks.induct)
  case (1 xs r)
  show ?case
  proof (cases "64 \<le> length xs")
    case True
    then have "xs @ ys = take 64 xs @ (drop 64 xs @ ys)" by simp
    then have "transform_blocks (xs @ ys) r = transform_blocks (drop 64 xs @ ys) (transform (take 64 xs) r)"
      using True by (metis length_take min.absorb2 transform_blocks_block)
    also have "\<dots> = transform_blocks ys (transform_blocks (drop 64 xs) (transform (take 64 xs) r))"
      using 1 True by (simp add: le_mod_geq)
    also have "transform_blocks (drop 64 xs) (transform (take 64 xs) r) = transform_blocks xs r"
      using True by (subst (2) transform_blocks.simps) simp
    finally show ?thesis .
  next
    case False
    with "1.prems" have "xs = []" by simp
    then show ?thesis by (simp add: transform_blocks_short)
  qed
qed

text \<open>\<open>fed m msg\<close>: the object \<open>m\<close> has been fed \<open>msg\<close>; its whole blocks are transformed and the rest waits in the buffer.\<close>

definition fed :: "md5 \<Rightarrow> bytes \<Rightarrow> bool" where
  "fed m msg \<longleftrightarrow> (let n = length msg - length msg mod 64 in
     \<not> mValid m \<and> length (mBuffer m) = 64 \<and> mSize m = of_nat (length msg) \<and>
     mABCD m = transform_blocks (take n msg) (0x67452301, 0xefcdab89, 0x98badcfe, 0x10325476) \<and>
     take (length msg mod 64) (mBuffer m) = drop n msg)"

lemma size_mod: "unat ((of_nat n :: 64 word) mod 64) = n mod 64"
  by (simp add: unat_mod unat_of_nat take_bit_eq_mod mod_mod_cancel)

lemma fed_reset: "length (mBuffer m) = 64 \<Longrightarrow> fed (md5_reset m) []"
  by (simp add: fed_def md5_reset_def transform_blocks_short)

lemma length_overwrite: "off + length d \<le> length buf \<Longrightarrow> length (overwrite buf off d) = length buf"
  by (simp add: overwrite_def)

text \<open>While only whole blocks have been fed, \<open>md5_update\<close> is right for any piece.\<close>

lemma fed_update:
  assumes "fed m msg" "length msg mod 64 = 0"
  shows "\<exists>m'. md5_update m d = Inr m' \<and> fed m' (msg @ d)"
proof -
  have m: "\<not> mValid m" "length (mBuffer m) = 64" "mSize m = of_nat (length msg)" "unat (mSize m mod 64) = 0"
    "mABCD m = transform_blocks msg (0x67452301, 0xefcdab89, 0x98badcfe, 0x10325476)"
    using assms by (simp_all add: fed_def Let_def size_mod)
  have len: "length (msg @ d) mod 64 = length d mod 64"
    using assms(2) by (metis add.left_neutral length_append mod_add_left_eq)
  show ?thesis
  proof (cases "length d < 64")
    case True
    then have "md5_update m d = Inr (m\<lparr>mBuffer := overwrite (mBuffer m) 0 d, mSize := mSize m + of_nat (length d)\<rparr>)"
      using m by (simp add: md5_update_def)
    moreover have "fed (m\<lparr>mBuffer := overwrite (mBuffer m) 0 d, mSize := mSize m + of_nat (length d)\<rparr>) (msg @ d)"
      using m len True by (simp add: fed_def Let_def length_overwrite) (simp add: overwrite_def)
    ultimately show ?thesis by blast
  next
    case False
    define e where "e = length d - length d mod 64"
    have e: "e mod 64 = 0" "e \<le> length d" "length (drop e d) = length d mod 64"
      by (simp_all add: e_def minus_mod_eq_mult_div flip: minus_mod_eq_mult_div)
    have blocks: "transform_blocks d r = transform_blocks (take e d) r" for r
      using transform_blocks_append [of "take e d" "drop e d" r] e by (simp add: transform_blocks_short)
    define m' where "m' = m\<lparr>mABCD := transform_blocks d (mABCD m), mBuffer := overwrite (mBuffer m) 0 (drop e d), mSize := mSize m + of_nat (length d)\<rparr>"
    have "md5_update m d = Inr m'"
      using m False by (simp add: md5_update_def m'_def e_def Let_def)
    moreover have "fed m' (msg @ d)"
      using m len e blocks transform_blocks_append [OF assms(2), of "take e d"]
      by (simp add: fed_def Let_def m'_def length_overwrite) (simp add: overwrite_def e_def)
    ultimately show ?thesis by blast
  qed
qed

lemma length_fold_update: "length (fold (\<lambda>i b. b[f i := g i]) is b) = length b"
  by (induction "is" arbitrary: b) simp_all

lemma length_md5_finalize:
  assumes "length (mBuffer m) = 64"
  shows "length (mBuffer (md5_finalize m)) = 64"
proof -
  have "unat (mSize m mod 64) < 64" using word_mod_less_divisor [of 64 "mSize m"] by (simp add: word_less_nat_alt)
  then show ?thesis using assms by (auto simp: md5_finalize_def Let_def length_fold_update length_overwrite)
qed

lemma fold_write_suffix: "fold (\<lambda>i buf. buf[length p + i := f i]) is (p @ q) = p @ fold (\<lambda>i q. q[i := f i]) is q"
  by (induction "is" arbitrary: q) (simp_all add: list_update_append)

lemma write_size:
  assumes "length p = 56" "length q = 8"
  shows "fold (\<lambda>i buf. buf[56 + i := ucast (drop_bit (i * 8) (push_bit 3 (of_nat n :: 64 word)))]) [0..<8] (p @ q) = p @ to_le 8 (of_nat (8 * n) :: 64 word)"
proof -
  have "(push_bit 3 (of_nat n) :: 64 word) = of_nat (8 * n)" by (simp add: push_bit_eq_mult)
  moreover have "fold (\<lambda>i q. q[i := ucast (drop_bit (i * 8) (of_nat (8 * n) :: 64 word))]) [0..<8] q = to_le 8 (of_nat (8 * n) :: 64 word)"
    using fold_write_all [OF assms(2)] by (simp only: to_le_def mult.commute)
  ultimately show ?thesis
    using fold_write_suffix [of p "\<lambda>i. ucast (drop_bit (i * 8) (of_nat (8 * n) :: 64 word))" "[0..<8]" q] assms(1) by (simp only:)
qed

lemma finalize_digest:
  assumes "fed m msg"
  shows "md5_digest (md5_finalize m) = Inr (md5_spec msg)"
proof -
  define n r t where "n = length msg - length msg mod 64" and "r = length msg mod 64" and "t = drop n msg"
  have r: "r < 64" "length t = r" by (simp_all add: r_def t_def n_def)
  have n: "length (take n msg) mod 64 = 0" "msg = take n msg @ t"
    by (simp_all add: n_def t_def minus_mod_eq_mult_div)
  define z where "z = ((0x67452301, 0xefcdab89, 0x98badcfe, 0x10325476) :: registers)"
  have m: "\<not> mValid m" "length (mBuffer m) = 64" "mSize m = of_nat (length msg)" "unat (mSize m mod 64) = r"
    "mABCD m = transform_blocks (take n msg) z" "take r (mBuffer m) = t"
    using assms by (simp_all add: fed_def Let_def size_mod n_def r_def t_def z_def)
  define size where "size = to_le 8 (of_nat (8 * length msg) :: 64 word)"
  have buf: "(mBuffer m)[r := 0x80] = (t @ [0x80]) @ drop (Suc r) (mBuffer m)"
    using m r by (simp add: upd_conv_take_nth_drop)
  have digest: ?thesis if "mABCD (md5_finalize m) = transform_blocks (t @ padding (length msg)) (mABCD m)" "mValid (md5_finalize m)"
  proof -
    have "transform_blocks (msg @ padding (length msg)) z = transform_blocks (t @ padding (length msg)) (mABCD m)"
      using transform_blocks_append [OF n(1), of "t @ padding (length msg)" z] m(5) n(2) by (metis append_assoc)
    then show ?thesis
      using that by (simp add: md5_digest_def md5_spec_def z_def to_le_def mult.commute split: prod.split)
  qed
  show ?thesis
  proof (cases "56 < r + 1")
    case False
    then have "overwrite ((mBuffer m)[r := 0x80]) (r + 1) (replicate (56 - (r + 1)) 0) = (t @ [0x80] @ replicate (55 - r) 0) @ drop 56 (mBuffer m)"
      using m(2) r by (simp add: overwrite_def buf drop_Cons')
    then have "mABCD (md5_finalize m) = transform ((t @ [0x80] @ replicate (55 - r) 0) @ size) (mABCD m)" "mValid (md5_finalize m)"
      using False write_size [of "t @ [0x80] @ replicate (55 - r) 0" "drop 56 (mBuffer m)" "length msg"] r m
      by (simp_all add: md5_finalize_def Let_def size_def)
    moreover have "transform_blocks (t @ padding (length msg)) w = transform ((t @ [0x80] @ replicate (55 - r) 0) @ size) w" for w
      using transform_blocks_block [of "(t @ [0x80] @ replicate (55 - r) 0) @ size" "[]" w] False r
      by (simp add: padding_def size_def r_def transform_blocks_short)
    ultimately show ?thesis using digest by simp
  next
    case True
    define b where "b = t @ [0x80] @ replicate (63 - r) 0"
    have "overwrite ((mBuffer m)[r := 0x80]) (r + 1) (replicate (64 - (r + 1)) 0) = b"
      using m(2) r by (simp add: overwrite_def buf b_def)
    moreover have "overwrite b 0 (replicate 56 0) = replicate 56 0 @ drop 56 b" by (simp add: overwrite_def)
    ultimately have "mABCD (md5_finalize m) = transform (replicate 56 0 @ size) (transform b (mABCD m))" "mValid (md5_finalize m)"
      using True write_size [of "replicate 56 0" "drop 56 b" "length msg"] r m
      by (simp_all add: md5_finalize_def Let_def size_def b_def)
    moreover have "transform_blocks (t @ padding (length msg)) w = transform (replicate 56 0 @ size) (transform b w)" for w
    proof -
      have "replicate (119 - r) (0 :: byte) = replicate (63 - r) 0 @ replicate 56 0"
        using r by (simp flip: replicate_add)
      then have "t @ padding (length msg) = b @ ((replicate 56 0 @ size) @ [])"
        using True by (simp add: padding_def size_def b_def r_def)
      moreover have "length b = 64" using r by (simp add: b_def)
      moreover have "length (replicate 56 0 @ size) = 64" by (simp add: size_def)
      ultimately show ?thesis using transform_blocks_block by (metis transform_blocks_short length_0_conv zero_less_numeral)
    qed
    ultimately show ?thesis using digest by simp
  qed
qed

section \<open>The digest of the pieces\<close>

lemma fed_feed:
  "fed m msg \<Longrightarrow> length msg mod 64 = 0 \<Longrightarrow> \<forall>d \<in> set (butlast ds). length d mod 64 = 0 \<Longrightarrow> \<exists>m'. md5_feed m ds = Inr m' \<and> fed m' (msg @ concat ds)"
proof (induction ds arbitrary: m msg)
  case (Cons d ds)
  from fed_update [OF Cons.prems(1,2), of d] obtain m' where m': "md5_update m d = Inr m'" "fed m' (msg @ d)" by blast
  show ?case
  proof (cases "ds = []")
    case False
    with Cons.prems have "length (msg @ d) mod 64 = 0" "\<forall>d \<in> set (butlast ds). length d mod 64 = 0" by (auto simp: mod_add_eq [symmetric])
    from Cons.IH [OF m'(2) this] m'(1) show ?thesis by simp
  qed (use m' in simp)
qed simp

lemma feed_digest:
  assumes "length (mBuffer m) = 64" "\<forall>d \<in> set (butlast ds). length d mod 64 = 0"
  shows "\<exists>m'. md5_feed (md5_reset m) ds = Inr m' \<and> md5_digest (md5_finalize m') = Inr (md5_spec (concat ds))"
  using fed_feed [OF fed_reset [OF assms(1)] _ assms(2)] finalize_digest by fastforce

lemma read_chunks_concat: "concat (read_chunks content) = content \<and> (\<forall>d \<in> set (butlast (read_chunks content)). length d mod 64 = 0) \<and> read_chunks content \<noteq> []"
proof (induction "length content" arbitrary: content rule: less_induct)
  case less
  show ?case
  proof (cases "64 \<le> length content")
    case True
    then have "read_chunks content = take 64 content # read_chunks (drop 64 content)" by (subst read_chunks.simps) simp
    with less [of "drop 64 content"] True show ?thesis by auto
  qed (simp add: read_chunks.simps)
qed


definition fresh_md5 :: md5 where
  "fresh_md5 = \<lparr>mABCD = (1, 2, 3, 4), mBuffer = replicate 64 0xcc, mSize = 7, mValid = True\<rparr>"


text \<open>
  After pieces that are not whole blocks the buffer is filled from the wrong place: of a piece that completes a block, the last
  \<open>size % 64\<close> bytes are kept instead of those that have not been transformed.
\<close>

lemma md5_update_keeps_wrong:
  assumes "fed m msg" "length msg mod 64 = 40" "length d = 40"
  shows "\<exists>m'. md5_update m d = Inr m' \<and> unat (mSize m' mod 64) = 16 \<and> take 16 (mBuffer m') = take 16 d"
proof -
  have m: "\<not> mValid m" "length (mBuffer m) = 64" "mSize m = of_nat (length msg)" "unat (mSize m mod 64) = 40"
    using assms by (simp_all add: fed_def Let_def size_mod)
  have "unat ((mSize m + 40) mod 64) = (length msg + 40) mod 64"
    using size_mod [of "length msg + 40"] by (simp add: m(3))
  also have "\<dots> = 16" using assms(2) by (simp add: mod_add_left_eq [symmetric])
  finally have "unat ((mSize m + 40) mod 64) = 16" .
  with m assms(3) show ?thesis
    by (simp add: md5_update_def Let_def transform_blocks_short overwrite_def)
qed

end
