(* ===== verification/RDT_Server.thy ===== *)
theory RDT_Server
  imports Wire_Protocol Channel MD5
begin

text \<open>
  \<open>CS3311 Computer Network/RDT Lab/core\<close>: \<open>Server.h\<close> and \<open>Server.cpp\<close>, the side that holds the files.

  The files are a map from paths; a file does not change while it is open, so a task's stream is its content and its position.  Times
  are milliseconds.  Callbacks are events.  \<open>clamp\<close> is undefined when its bounds are crossed.
\<close>

type_synonym address = "string \<times> int"

definition sBlockSize :: nat where "sBlockSize = 1024"
definition sMaxWindow :: nat where "sMaxWindow = 32"
definition sSlowStart :: nat where "sSlowStart = 16"

record packet =
  pk_handle :: int
  pk_departure :: int

record stask =
  sk_path :: bytes
  sk_size :: nat
  sk_file :: bytes
  sk_tellg :: nat
  sk_checksum :: md5
  sk_packets :: "nat \<Rightarrow> packet option"
  sk_window :: nat
  sk_average :: int
  sk_variance :: int
  sk_timeout :: int

datatype server_event = Task_Started address bytes | Task_Finished address bytes | Server_Error string

record server =
  sv_timeout :: int
  sv_retries :: nat
  sv_channel :: channel
  sv_received :: received
  sv_running :: bool
  sv_tasks :: "address \<Rightarrow> stask option"
  sv_MD5Cache :: "bytes \<Rightarrow> bytes option"
  sv_events :: "server_event list"

definition sv_event :: "server_event \<Rightarrow> server \<Rightarrow> server" where
  "sv_event e s = s\<lparr>sv_events := sv_events s @ [e]\<rparr>"

definition server_send :: "protocol \<Rightarrow> address \<Rightarrow> int \<Rightarrow> nat \<Rightarrow> 64 word \<Rightarrow> server \<Rightarrow> server \<times> int" where
  "server_send p client timeout retries now s = (
     case channel_send (sv_channel s) \<lparr>t_data = serialize p, t_IP = fst client, t_port = snd client\<rparr> timeout retries now of
       (ch, cb, handle) \<Rightarrow> (s\<lparr>sv_channel := ch\<rparr>, handle))"

text \<open>The default arguments of \<open>Channel::send\<close>: one millisecond, no retries.\<close>

definition server_send_once :: "protocol \<Rightarrow> address \<Rightarrow> 64 word \<Rightarrow> server \<Rightarrow> server" where
  "server_send_once p client now s = fst (server_send p client 1 0 now s)"

section \<open>The worker\<close>

definition sk_isEnd :: "stask \<Rightarrow> bool" where
  "sk_isEnd t \<longleftrightarrow> sk_tellg t = sk_size t"

text \<open>The number of packets on their way.\<close>

definition packets_size :: "stask \<Rightarrow> nat" where
  "packets_size t = card (dom (sk_packets t))"

definition send_block :: "address \<Rightarrow> 64 word \<Rightarrow> server \<Rightarrow> stask \<Rightarrow> string + server \<times> stask" where
  "send_block client now s t = (
     let begin = sk_tellg t; end = min (begin + sBlockSize) (sk_size t);
         d = take (end - begin) (drop begin (sk_file t))
     in case md5_update (sk_checksum t) d of
       Inl e \<Rightarrow> Inl e
     | Inr m \<Rightarrow>
         let t = t\<lparr>sk_tellg := end, sk_checksum := m\<rparr>;
             (s, handle) = server_send (DataProtocol (sk_path t) (of_nat (begin div sBlockSize)) d) client (sk_timeout t) (sv_retries s) now s;
             packet = \<lparr>pk_handle = handle, pk_departure = uint now\<rparr>
         in Inr (s, case sk_packets t (begin div sBlockSize) of
              None \<Rightarrow> t\<lparr>sk_packets := (sk_packets t)(begin div sBlockSize \<mapsto> packet)\<rparr> | Some _ \<Rightarrow> t))"

text \<open>The inner loop of \<open>work\<close>.  The rounds are counted: each moves \<open>tellg\<close> on, so there are at most \<open>size\<close> of them.\<close>

fun send_blocks :: "nat \<Rightarrow> address \<Rightarrow> 64 word \<Rightarrow> server \<Rightarrow> stask \<Rightarrow> (string + server \<times> stask) option" where
  "send_blocks 0 client now s t = (if packets_size t < sk_window t \<and> \<not> sk_isEnd t then None else Some (Inr (s, t)))"
| "send_blocks (Suc n) client now s t =
     (if packets_size t < sk_window t \<and> \<not> sk_isEnd t then
        (case send_block client now s t of Inl e \<Rightarrow> Some (Inl e) | Inr (s, t) \<Rightarrow> send_blocks n client now s t)
      else Some (Inr (s, t)))"

text \<open>\<open>work\<close>, with the new task and whether it is complete.\<close>

definition work :: "address \<Rightarrow> 64 word \<Rightarrow> server \<Rightarrow> stask \<Rightarrow> (string + server \<times> stask \<times> bool) option" where
  "work client now s t = (
     if sk_window t \<le> packets_size t then Some (Inr (s, t, False))
     else case send_blocks (sk_size t) client now s t of
       None \<Rightarrow> None
     | Some (Inl e) \<Rightarrow> Some (Inl e)
     | Some (Inr (s, t)) \<Rightarrow>
         if sk_isEnd t then
           let t = t\<lparr>sk_checksum := md5_finalize (sk_checksum t)\<rparr> in
           case md5_digest (sk_checksum t) of
             Inl e \<Rightarrow> Some (Inl e)
           | Inr checksum \<Rightarrow>
               let s = s\<lparr>sv_MD5Cache := (case sv_MD5Cache s (sk_path t) of None \<Rightarrow> (sv_MD5Cache s)(sk_path t \<mapsto> checksum) | Some _ \<Rightarrow> sv_MD5Cache s)\<rparr>
               in Some (Inr (s, t, packets_size t = 0))
         else Some (Inr (s, t, False)))"

text \<open>\<open>terminate\<close>: the packets of a task, in the order \<open>bs\<close> of the table.\<close>

definition server_terminate :: "nat list \<Rightarrow> address \<Rightarrow> server \<Rightarrow> server" where
  "server_terminate bs client s = (case sv_tasks s client of
     None \<Rightarrow> s
   | Some t \<Rightarrow>
       let s = s\<lparr>sv_channel := fold (\<lambda>b ch. case sk_packets t b of None \<Rightarrow> ch | Some p \<Rightarrow> channel_terminate ch (pk_handle p)) bs (sv_channel s)\<rparr>
       in s\<lparr>sv_tasks := (sv_tasks s)(client := None)\<rparr>)"

text \<open>What a round of \<open>worker\<close> does with one task: whether its client is complete.\<close>

definition worker_task :: "address \<Rightarrow> 64 word \<Rightarrow> server \<Rightarrow> (server \<times> bool) option" where
  "worker_task client now s = (case sv_tasks s client of
     None \<Rightarrow> Some (s, False)
   | Some t \<Rightarrow>
       (case work client now s t of
          None \<Rightarrow> None
        | Some (Inl e) \<Rightarrow> Some (sv_event (Server_Error (''Error when processing task for '' @ fst client @ '':'' @ fmt_d (snd client) @ '' - Checksum error: '' @ e)) s, True)
        | Some (Inr (s, t, complete)) \<Rightarrow>
            let s = s\<lparr>sv_tasks := (sv_tasks s)(client \<mapsto> t)\<rparr>
            in Some (if complete then sv_event (Task_Finished client (sk_path t)) s else s, complete)))"

text \<open>A round of \<open>worker\<close> over the tasks in the order \<open>order\<close> of the table; \<open>bs\<close> gives the order of the packets of a client.\<close>

fun worker_tasks :: "address list \<Rightarrow> 64 word \<Rightarrow> server \<Rightarrow> (server \<times> address list) option" where
  "worker_tasks [] now s = Some (s, [])"
| "worker_tasks (client # order) now s = do {
     (s, complete) \<leftarrow> worker_task client now s;
     (s, rest) \<leftarrow> worker_tasks order now s;
     Some (s, if complete then client # rest else rest) }"

definition worker_round :: "address list \<Rightarrow> (address \<Rightarrow> nat list) \<Rightarrow> 64 word \<Rightarrow> server \<Rightarrow> server option" where
  "worker_round order bs now s = (
     if \<not> sv_running s then Some s
     else do { (s, complete) \<leftarrow> worker_tasks order now s; Some (fold (\<lambda>client s. server_terminate (bs client) client s) complete s) })"

section \<open>The handlers\<close>

definition server_onRetry :: "task \<Rightarrow> server \<Rightarrow> server" where
  "server_onRetry tk s = (let client = (t_IP tk, t_port tk) in case sv_tasks s client of
     None \<Rightarrow> s
   | Some t \<Rightarrow> s\<lparr>sv_tasks := (sv_tasks s)(client \<mapsto> t\<lparr>sk_window := max (sk_window t div 2) 1\<rparr>)\<rparr>)"

definition server_onTimeout :: "nat list \<Rightarrow> task \<Rightarrow> server \<Rightarrow> server" where
  "server_onTimeout bs tk s = (
     if \<not> sv_running s then s
     else sv_event (Server_Error (''Timeout on '' @ t_IP tk @ '':'' @ fmt_d (t_port tk) @ '' with maximum retries, connection terminated''))
       (server_terminate bs (t_IP tk, t_port tk) s))"

text \<open>The literal strings as bytes.\<close>

definition str :: "string \<Rightarrow> bytes" where
  "str = map of_char"

definition server_onQuery :: "(bytes \<Rightarrow> bytes option) \<Rightarrow> address \<Rightarrow> bytes \<Rightarrow> 64 word \<Rightarrow> server \<Rightarrow> server" where
  "server_onQuery fs client path now s = (case fs path of
     None \<Rightarrow> fst (server_send (ErrorProtocol path (str ''File does not exist'')) client (sv_timeout s) (sv_retries s) now s)
   | Some content \<Rightarrow> server_send_once (SizeProtocol path (of_nat (length content))) client now s)"

definition server_onGet :: "(bytes \<Rightarrow> bytes option) \<Rightarrow> md5 \<Rightarrow> address \<Rightarrow> bytes \<Rightarrow> 64 word \<Rightarrow> server \<Rightarrow> server" where
  "server_onGet fs m client path now s = (case fs path of
     None \<Rightarrow> server_send_once (ErrorProtocol path (str ''File does not exist'')) client now s
   | Some content \<Rightarrow>
       let s = server_send_once (StartProtocol path) client now s in
       if sv_tasks s client \<noteq> None then s
       else
         let t = \<lparr>sk_path = path, sk_size = length content, sk_file = content, sk_tellg = 0, sk_checksum = md5_reset m, sk_packets = Map.empty,
                  sk_window = 1, sk_average = sv_timeout s, sk_variance = 0, sk_timeout = sv_timeout s\<rparr>
         in sv_event (Task_Started client path) (s\<lparr>sv_tasks := (sv_tasks s)(client \<mapsto> t)\<rparr>))"

definition clamp :: "int \<Rightarrow> int \<Rightarrow> int \<Rightarrow> int option" where
  "clamp v lo hi = (if hi < lo then None else Some (min (max v lo) hi))"

definition server_onAcknowledge :: "address \<Rightarrow> 64 word \<Rightarrow> 64 word \<Rightarrow> server \<Rightarrow> server option" where
  "server_onAcknowledge client block now s = (case sv_tasks s client of
     None \<Rightarrow> Some s
   | Some t \<Rightarrow>
       (case sk_packets t (unat block) of
          None \<Rightarrow> Some s
        | Some packet \<Rightarrow>
            let s = s\<lparr>sv_channel := channel_terminate (sv_channel s) (pk_handle packet)\<rparr>;
                t = t\<lparr>sk_packets := (sk_packets t)(unat block := None)\<rparr>;
                t = t\<lparr>sk_window := (if sk_window t < sSlowStart then min (sk_window t * 2) sSlowStart
                       else if sk_window t < sMaxWindow then sk_window t + 1 else sk_window t)\<rparr>;
                elapsed = uint now - pk_departure packet;
                t = t\<lparr>sk_average := cdiv (sk_average t * 7 + elapsed) 8\<rparr>;
                t = t\<lparr>sk_variance := cdiv (sk_variance t * 3 + \<bar>sk_average t - elapsed\<bar>) 4\<rparr>
            in do {
              timeout \<leftarrow> clamp (sk_average t + sk_variance t * 4) 100 (sv_timeout s);
              Some (s\<lparr>sv_tasks := (sv_tasks s)(client \<mapsto> t\<lparr>sk_timeout := timeout\<rparr>)\<rparr>) }))"

definition server_onChecksum :: "(bytes \<Rightarrow> bytes option) \<Rightarrow> md5 \<Rightarrow> nat list \<Rightarrow> address \<Rightarrow> bytes \<Rightarrow> bytes \<Rightarrow> 64 word \<Rightarrow> server \<Rightarrow> server outcome" where
  "server_onChecksum fs m bs client path checksum now s = (
     let s = server_terminate bs client s in
     let answer = (\<lambda>s. case sv_MD5Cache s path of
           None \<Rightarrow> None
         | Some digest \<Rightarrow> give (server_send_once (if digest = checksum then ConfirmProtocol path else ErrorProtocol path (str ''Checksum mismatch'')) client now s))
     in if sv_MD5Cache s path \<noteq> None then answer s
        else case fs path of
          None \<Rightarrow> give (server_send_once (ErrorProtocol path (str ''File does not exist'')) client now s)
        | Some content \<Rightarrow>
            (case md5_compute_stream m content of
               Inl e \<Rightarrow> throw e
             | Inr m \<Rightarrow>
                 (case md5_digest m of
                    Inl e \<Rightarrow> throw e
                  | Inr digest \<Rightarrow> answer (s\<lparr>sv_MD5Cache := (sv_MD5Cache s)(path \<mapsto> digest)\<rparr>))))"

definition server_onReceive :: "(bytes \<Rightarrow> bytes option) \<Rightarrow> md5 \<Rightarrow> nat list \<Rightarrow> address \<Rightarrow> bytes \<Rightarrow> 64 word \<Rightarrow> server \<Rightarrow> server option" where
  "server_onReceive fs m bs client d now s = (
     if \<not> sv_running s then Some s
     else
       let failed = sv_event (Server_Error (''Error when receiving message from '' @ fst client @ '':'' @ fmt_d (snd client))) s in
       case deserialize d of
         None \<Rightarrow> None
       | Some (Inl e) \<Rightarrow> Some failed
       | Some (Inr p) \<Rightarrow>
           (case p of
              QueryProtocol path \<Rightarrow> Some (server_onQuery fs client path now s)
            | GetProtocol path \<Rightarrow> Some (server_onGet fs m client path now s)
            | AcknowledgeProtocol path block \<Rightarrow> server_onAcknowledge client block now s
            | ChecksumProtocol path checksum \<Rightarrow>
                (case server_onChecksum fs m bs client path checksum now s of
                   None \<Rightarrow> None | Some (Inl e) \<Rightarrow> Some failed | Some (Inr s) \<Rightarrow> Some s)
            | _ \<Rightarrow> Some s))"

text \<open>\<open>start\<close> and \<open>stop\<close>, but for the thread.\<close>

definition server_start :: "server \<Rightarrow> server" where
  "server_start s = s\<lparr>sv_running := True\<rparr>"

definition server_stop :: "server \<Rightarrow> server" where
  "server_stop s = (let s = s\<lparr>sv_running := False\<rparr> in s\<lparr>sv_tasks := Map.empty\<rparr>)"

text \<open>The callbacks of the constructor: a round of the timer of a message, and a packet.\<close>

definition server_timer :: "nat list \<Rightarrow> int \<Rightarrow> 64 word \<Rightarrow> server \<Rightarrow> server" where
  "server_timer bs h now s = (case timer_round (sv_channel s) h now of (ch, cb) \<Rightarrow>
     let s = s\<lparr>sv_channel := ch\<rparr> in case cb of Nothing \<Rightarrow> s | Retry t \<Rightarrow> server_onRetry t s | Timeout t \<Rightarrow> server_onTimeout bs t s)"

definition server_packet :: "(bytes \<Rightarrow> bytes option) \<Rightarrow> md5 \<Rightarrow> nat list \<Rightarrow> address \<Rightarrow> bytes \<Rightarrow> 64 word \<Rightarrow> server \<Rightarrow> server option" where
  "server_packet fs m bs client p now s = (case receiver (sv_received s) p of (st, r) \<Rightarrow>
     let s = s\<lparr>sv_received := st\<rparr> in case r of None \<Rightarrow> Some s | Some d \<Rightarrow> server_onReceive fs m bs client d now s)"

end
