(* ===== verification/RDT_Client.thy ===== *)
theory RDT_Client
  imports Wire_Protocol Channel MD5
begin

text \<open>
  \<open>CS3311 Computer Network/RDT Lab/core\<close>: \<open>Client.h\<close> and \<open>Client.cpp\<close>, the downloading side.

  A function gives the new client, throws, or is undefined, as in \<open>Wire_Protocol\<close>.  What the callbacks are told is a list of events; all
  are set, as \<open>Interface.cpp\<close> sets them.  The output file is its content and whether it is open; \<open>opens\<close> says if it can be opened.
  \<open>std::map\<close> is a map; a message queue is a list.  A round of \<open>dispatch\<close> is one step: the receiving thread only appends to the queue
  while it runs.  A round that throws leaves the client as it was; no client of \<open>RDT_Download\<close> throws.
\<close>

datatype client_state =
  St_Idle | St_Query | St_Size | St_Get | St_Start | St_Data | St_Acknowledge | St_Checksum | St_Confirm | St_Error

datatype client_event = Progress nat nat | Finished bytes "64 word" | Failed string | Refused bytes

record client =
  cl_timeout :: int
  cl_retries :: nat
  cl_state :: client_state
  cl_channel :: channel
  cl_received :: received
  cl_handle :: int
  cl_protocols :: "protocol list"
  cl_IP :: string
  cl_port :: int
  cl_file :: bytes
  cl_destination :: string
  cl_size :: "64 word"
  cl_open :: bool
  cl_output :: bytes
  cl_block :: "64 word"
  cl_next :: "64 word"
  cl_cache :: "64 word \<Rightarrow> bytes option"
  cl_checksum :: md5
  cl_duplicate :: nat
  cl_events :: "client_event list"

definition cl_event :: "client_event \<Rightarrow> client \<Rightarrow> client" where
  "cl_event e c = c\<lparr>cl_events := cl_events c @ [e]\<rparr>"

definition client_download :: "string \<Rightarrow> int \<Rightarrow> bytes \<Rightarrow> string \<Rightarrow> client \<Rightarrow> client" where
  "client_download IP port path destination c =
     c\<lparr>cl_protocols := [], cl_open := False, cl_cache := Map.empty, cl_checksum := md5_reset (cl_checksum c),
       cl_IP := IP, cl_port := port, cl_file := path, cl_destination := destination, cl_state := St_Query\<rparr>"

text \<open>\<open>Stats\<close>: corrupted, duplicate, lost, successful; the difference is one of \<open>size_t\<close>s.\<close>

definition client_statistics :: "client \<Rightarrow> nat \<times> nat \<times> 64 word \<times> nat" where
  "client_statistics c = (mCorrupted (cl_received c), cl_duplicate c, of_nat (mLost (cl_received c)) - of_nat (cl_duplicate c), mSuccessful (cl_received c))"

text \<open>\<open>mChannel.send({protocol.serialize(), mIP, mPort}, \<dots>)\<close>.\<close>

definition client_send :: "protocol \<Rightarrow> int \<Rightarrow> nat \<Rightarrow> 64 word \<Rightarrow> client \<Rightarrow> client" where
  "client_send p timeout retries now c = (
     case channel_send (cl_channel c) \<lparr>t_data = serialize p, t_IP = cl_IP c, t_port = cl_port c\<rparr> timeout retries now of
       (ch, cb, handle) \<Rightarrow> c\<lparr>cl_channel := ch, cl_handle := handle\<rparr>)"

text \<open>
  \<open>wait\<close>: \<open>None\<close> when the thread goes on waiting; its condition has dropped the messages of other types all the same.
\<close>

definition client_wait :: "ptype \<Rightarrow> client \<Rightarrow> client \<times> bool option" where
  "client_wait type c = (
     if cl_state c = St_Idle then (c, Some False)
     else let c = c\<lparr>cl_protocols := dropWhile (\<lambda>p. \<not> (mType p = type \<or> mType p = Error)) (cl_protocols c)\<rparr> in
       case cl_protocols c of
         [] \<Rightarrow> (c, None)
       | p # ps \<Rightarrow>
           let c = c\<lparr>cl_channel := channel_terminate (cl_channel c) (cl_handle c)\<rparr> in
           if mType p = Error then (c\<lparr>cl_state := St_Error\<rparr>, Some False) else (c, Some True))"

definition client_onTimeout :: "task \<Rightarrow> client \<Rightarrow> client" where
  "client_onTimeout t c = (
     let c = cl_event (Failed (''Failed to send message to '' @ t_IP t @ '':'' @ fmt_d (t_port t) @ '' with maximum retries'')) c;
         c = c\<lparr>cl_channel := channel_terminate (cl_channel c) (cl_handle c)\<rparr>
     in c\<lparr>cl_state := St_Idle\<rparr>)"

definition client_onReceive :: "bytes \<Rightarrow> client \<Rightarrow> client outcome" where
  "client_onReceive d c = (case deserialize d of
     None \<Rightarrow> None
   | Some (Inr p) \<Rightarrow> give (c\<lparr>cl_protocols := cl_protocols c @ [p]\<rparr>)
   | Some (Inl e) \<Rightarrow> give ((cl_event (Failed (''Protocol error: '' @ e)) c)\<lparr>cl_state := St_Idle\<rparr>))"

section \<open>The states\<close>

definition client_query :: "64 word \<Rightarrow> client \<Rightarrow> client" where
  "client_query now c = (client_send (QueryProtocol (cl_file c)) (cl_timeout c) (cl_retries c) now c)\<lparr>cl_state := St_Size\<rparr>"

definition client_size :: "client \<Rightarrow> client outcome" where
  "client_size c = (case client_wait Size c of
     (c, Some True) \<Rightarrow>
       (case cl_protocols c of
          SizeProtocol path n # ps \<Rightarrow> give (c\<lparr>cl_protocols := ps, cl_size := n, cl_state := St_Get\<rparr>)
        | _ \<Rightarrow> None)
   | (c, _) \<Rightarrow> give c)"

definition client_get :: "64 word \<Rightarrow> client \<Rightarrow> client" where
  "client_get now c = (client_send (GetProtocol (cl_file c)) (cl_timeout c) (cl_retries c) now c)\<lparr>cl_state := St_Start\<rparr>"

definition client_start :: "bool \<Rightarrow> client \<Rightarrow> client outcome" where
  "client_start opens c = (case client_wait Start c of
     (c, Some True) \<Rightarrow>
       let c = c\<lparr>cl_protocols := tl (cl_protocols c), cl_open := opens, cl_output := (if opens then [] else cl_output c), cl_block := 0, cl_next := 0,
                 cl_checksum := md5_reset (cl_checksum c), cl_state := St_Data\<rparr>
       in give (if \<not> opens then (cl_event (Failed (''Failed to open file '' @ cl_destination c)) c)\<lparr>cl_state := St_Idle\<rparr> else c)
   | (c, _) \<Rightarrow> give c)"

text \<open>The loop of \<open>data\<close> over the blocks that can be written, with the blocks it has written.\<close>

partial_function (option) client_drain :: "64 word list \<Rightarrow> client \<Rightarrow> (string + 64 word list \<times> client) option" where
  "client_drain complete c = (case cl_cache c (cl_next c) of
     None \<Rightarrow> Some (Inr (complete, c))
   | Some d \<Rightarrow>
       (case md5_update (cl_checksum c) d of
          Inl e \<Rightarrow> Some (Inl e)
        | Inr m \<Rightarrow>
            let c' = c\<lparr>cl_output := cl_output c @ d, cl_checksum := m\<rparr>;
                c' = c'\<lparr>cl_next := cl_next c' + 1\<rparr>
            in client_drain (complete @ [cl_next c]) (cl_event (Progress (unat (cl_size c')) (length (cl_output c'))) c')))"

definition client_data :: "client \<Rightarrow> client outcome" where
  "client_data c = (case client_wait Data c of
     (c, Some True) \<Rightarrow>
       (case cl_protocols c of
          DataProtocol path block d # ps \<Rightarrow>
            let c = c\<lparr>cl_protocols := ps\<rparr> in
            if block < cl_next c \<or> cl_cache c block \<noteq> None
            then give (c\<lparr>cl_block := block, cl_state := St_Acknowledge, cl_duplicate := cl_duplicate c + 1\<rparr>)
            else
              let c = c\<lparr>cl_cache := (cl_cache c)(block \<mapsto> d), cl_block := block\<rparr> in
              try_bind (client_drain [] c) (\<lambda>(complete, c).
                give (c\<lparr>cl_cache := fold (\<lambda>block m. m(block := None)) complete (cl_cache c), cl_state := St_Acknowledge\<rparr>))
        | _ \<Rightarrow> None)
   | (c, _) \<Rightarrow> give c)"

definition client_acknowledge :: "64 word \<Rightarrow> client \<Rightarrow> client" where
  "client_acknowledge now c = (
     let c = client_send (AcknowledgeProtocol (cl_file c) (cl_block c)) 1 0 now c
     in c\<lparr>cl_state := (if of_nat (length (cl_output c)) = cl_size c then St_Checksum else St_Data)\<rparr>)"

definition client_checksum :: "64 word \<Rightarrow> client \<Rightarrow> client outcome" where
  "client_checksum now c = (
     let c = c\<lparr>cl_checksum := md5_finalize (cl_checksum c)\<rparr> in
     case md5_digest (cl_checksum c) of
       Inl e \<Rightarrow> throw (''Checksum error: '' @ e)
     | Inr digest \<Rightarrow> give ((client_send (ChecksumProtocol (cl_file c) digest) (cl_timeout c) (cl_retries c) now c)\<lparr>cl_state := St_Confirm\<rparr>))"

definition client_confirm :: "client \<Rightarrow> client outcome" where
  "client_confirm c = (case client_wait Confirm c of
     (c, Some True) \<Rightarrow> give ((cl_event (Finished (cl_file c) (cl_size c)) c)\<lparr>cl_open := False, cl_state := St_Idle\<rparr>)
   | (c, _) \<Rightarrow> give c)"

definition client_error :: "client \<Rightarrow> client outcome" where
  "client_error c = (case cl_protocols c of
     ErrorProtocol path message # ps \<Rightarrow> give ((cl_event (Refused message) (c\<lparr>cl_protocols := ps\<rparr>))\<lparr>cl_state := St_Idle\<rparr>)
   | _ \<Rightarrow> None)"

text \<open>One round of \<open>dispatch\<close>, with its handler of exceptions.\<close>

definition client_dispatch :: "bool \<Rightarrow> 64 word \<Rightarrow> client \<Rightarrow> client option" where
  "client_dispatch opens now c = (
     case (case cl_state c of
         St_Idle \<Rightarrow> give c
       | St_Query \<Rightarrow> give (client_query now c)
       | St_Size \<Rightarrow> client_size c
       | St_Get \<Rightarrow> give (client_get now c)
       | St_Start \<Rightarrow> client_start opens c
       | St_Data \<Rightarrow> client_data c
       | St_Acknowledge \<Rightarrow> give (client_acknowledge now c)
       | St_Checksum \<Rightarrow> client_checksum now c
       | St_Confirm \<Rightarrow> client_confirm c
       | St_Error \<Rightarrow> client_error c) of
       None \<Rightarrow> None
     | Some (Inl e) \<Rightarrow> Some ((cl_event (Failed e) c)\<lparr>cl_state := St_Idle\<rparr>)
     | Some (Inr c') \<Rightarrow> Some c')"

text \<open>The callbacks of the constructor: a round of the timer of a message, and a packet.\<close>

definition client_timer :: "int \<Rightarrow> 64 word \<Rightarrow> client \<Rightarrow> client" where
  "client_timer h now c = (case timer_round (cl_channel c) h now of (ch, cb) \<Rightarrow>
     let c = c\<lparr>cl_channel := ch\<rparr> in case cb of Timeout t \<Rightarrow> client_onTimeout t c | _ \<Rightarrow> c)"

definition client_packet :: "bytes \<Rightarrow> client \<Rightarrow> client option" where
  "client_packet p c = (case receiver (cl_received c) p of (st, r) \<Rightarrow>
     let c = c\<lparr>cl_received := st\<rparr> in
     case r of None \<Rightarrow> Some c | Some d \<Rightarrow> (case client_onReceive d c of Some (Inr c) \<Rightarrow> Some c | _ \<Rightarrow> None))"

end
