(* ===== verification/RDT_Download.thy ===== *)
theory RDT_Download
  imports RDT_Client
begin

text \<open>
  What the client makes of the messages of an honest server: an invariant of its states that each step keeps.
\<close>

definition blk :: "bytes \<Rightarrow> nat \<Rightarrow> bytes" where
  "blk F b = take 1024 (drop (b * 1024) F)"

text \<open>The messages that a server with the content \<open>F\<close> at \<open>path\<close> sends, and those of the client that downloads it.\<close>

definition from_server :: "bytes \<Rightarrow> bytes \<Rightarrow> protocol \<Rightarrow> bool" where
  "from_server path F m \<longleftrightarrow> m = SizeProtocol path (of_nat (length F)) \<or> m = StartProtocol path \<or> m = ConfirmProtocol path \<or>
     (\<exists>b. b * 1024 < length F \<and> m = DataProtocol path (of_nat b) (blk F b))"

definition from_client :: "bytes \<Rightarrow> bytes \<Rightarrow> protocol \<Rightarrow> bool" where
  "from_client path F m \<longleftrightarrow> m = QueryProtocol path \<or> m = GetProtocol path \<or> (\<exists>b. m = AcknowledgeProtocol path b) \<or> m = ChecksumProtocol path (md5_spec F)"

definition carries :: "(protocol \<Rightarrow> bool) \<Rightarrow> task \<Rightarrow> bool" where
  "carries Q t \<longleftrightarrow> (\<exists>m. Q m \<and> t_data t = serialize m)"

text \<open>The blocks before \<open>cl_next\<close> are in the file and in the checksum, the cache holds later ones.\<close>

definition collecting :: "bytes \<Rightarrow> client \<Rightarrow> bool" where
  "collecting F c \<longleftrightarrow> (\<exists>k. (k = 0 \<or> (k - 1) * 1024 < length F) \<and> cl_next c = of_nat k \<and> cl_output c = take (k * 1024) F \<and>
     fed (cl_checksum c) (cl_output c) \<and>
     (\<forall>b d. cl_cache c b = Some d \<longrightarrow> (\<exists>j \<ge> k. j * 1024 < length F \<and> b = of_nat j \<and> d = blk F j)))"

definition finished :: "client \<Rightarrow> bool" where
  "finished c \<longleftrightarrow> (\<exists>f n. Finished f n \<in> set (cl_events c))"

definition client_core :: "bytes \<Rightarrow> bytes \<Rightarrow> client \<Rightarrow> bool" where
  "client_core path F c \<longleftrightarrow> cl_file c = path \<and> length (mBuffer (cl_checksum c)) = 64 \<and> cl_state c \<noteq> St_Error \<and>
     (cl_state c \<in> {St_Query, St_Size, St_Get, St_Start} \<longrightarrow> cl_cache c = Map.empty) \<and>
     (cl_state c \<in> {St_Get, St_Start, St_Data, St_Acknowledge, St_Checksum, St_Confirm} \<longrightarrow> cl_size c = of_nat (length F)) \<and>
     (cl_state c \<in> {St_Data, St_Acknowledge} \<longrightarrow> collecting F c) \<and>
     (cl_state c = St_Checksum \<longrightarrow> cl_output c = F \<and> fed (cl_checksum c) F) \<and>
     (cl_state c = St_Confirm \<longrightarrow> cl_output c = F) \<and>
     (finished c \<longrightarrow> cl_state c = St_Idle \<and> cl_output c = F) \<and>
     (\<forall>e. Refused e \<notin> set (cl_events c))"

definition client_inv :: "bytes \<Rightarrow> bytes \<Rightarrow> client \<Rightarrow> bool" where
  "client_inv path F c \<longleftrightarrow> client_core path F c \<and> sends_only (carries (from_client path F)) (cl_channel c) \<and>
     (\<forall>m \<in> set (cl_protocols c). from_server path F m)"

lemma from_server_type: "from_server path F m \<Longrightarrow> mType m \<noteq> Error"
  by (auto simp: from_server_def)

lemma client_send_inv:
  assumes "sends_only (carries (from_client path F)) (cl_channel c)" "from_client path F m"
  shows "\<exists>ch h. client_send m timeout retries now c = c\<lparr>cl_channel := ch, cl_handle := h\<rparr> \<and> sends_only (carries (from_client path F)) ch"
proof -
  obtain ch cb h where send: "channel_send (cl_channel c) \<lparr>t_data = serialize m, t_IP = cl_IP c, t_port = cl_port c\<rparr> timeout retries now = (ch, cb, h)"
    by (metis prod_cases3)
  have "carries (from_client path F) \<lparr>t_data = serialize m, t_IP = cl_IP c, t_port = cl_port c\<rparr>" using assms(2) by (auto simp: carries_def)
  from channel_send_sends_only [OF assms(1) this send] send show ?thesis by (auto simp: client_send_def)
qed

text \<open>\<open>wait\<close> in a state other than idle gives the first message of its type, or waits.\<close>

lemma client_wait_cases:
  assumes inv: "client_inv path F c" and "cl_state c \<noteq> St_Idle"
  obtains "client_wait type c = (c\<lparr>cl_protocols := []\<rparr>, None)"
  | m ms where "client_wait type c = (c\<lparr>cl_protocols := m # ms, cl_channel := channel_terminate (cl_channel c) (cl_handle c)\<rparr>, Some True)"
      "mType m = type" "from_server path F m" "set ms \<subseteq> set (cl_protocols c)"
proof -
  define q where "q = dropWhile (\<lambda>m. mType m \<noteq> type \<and> mType m \<noteq> Error) (cl_protocols c)"
  have q: "set q \<subseteq> set (cl_protocols c)" unfolding q_def by (auto dest: set_dropWhileD)
  show thesis
  proof (cases q)
    case Nil
    then have "client_wait type c = (c\<lparr>cl_protocols := []\<rparr>, None)" using assms(2) by (simp add: client_wait_def Let_def flip: q_def)
    with that(1) show ?thesis .
  next
    case (Cons m ms)
    then have "from_server path F m" using q inv by (auto simp: client_inv_def client_core_def)
    moreover have "mType m = type \<or> mType m = Error" using Cons hd_dropWhile [of "\<lambda>m. mType m \<noteq> type \<and> mType m \<noteq> Error" "cl_protocols c"] by (auto simp: q_def)
    ultimately have "mType m = type" "mType m \<noteq> Error" "from_server path F m" using from_server_type by auto
    moreover have "client_wait type c = (c\<lparr>cl_protocols := m # ms, cl_channel := channel_terminate (cl_channel c) (cl_handle c)\<rparr>, Some True)"
      using assms(2) Cons \<open>mType m \<noteq> Error\<close> by (simp add: client_wait_def Let_def flip: q_def)
    ultimately show ?thesis using that(2) q Cons by auto
  qed
qed

section \<open>Writing the blocks\<close>

lemma take_blk: "take (k * 1024) F @ blk F k = take (Suc k * 1024) F"
  using take_add [of "k * 1024" 1024 F] by (simp add: blk_def add.commute)

lemma length_take_blocks: "k * 1024 < length F \<Longrightarrow> length (take (k * 1024) F) mod 64 = 0"
  by simp

text \<open>The invariant of the loop of \<open>data\<close>: entries of blocks it has written stay in the cache until it ends.\<close>

definition draining :: "bytes \<Rightarrow> nat \<Rightarrow> 64 word list \<Rightarrow> client \<Rightarrow> bool" where
  "draining F k complete c \<longleftrightarrow> (k = 0 \<or> (k - 1) * 1024 < length F) \<and> cl_next c = of_nat k \<and> cl_output c = take (k * 1024) F \<and>
     fed (cl_checksum c) (cl_output c) \<and>
     (\<forall>b d. cl_cache c b = Some d \<longrightarrow> b \<in> set complete \<or> (\<exists>j \<ge> k. j * 1024 < length F \<and> b = of_nat j \<and> d = blk F j)) \<and>
     (\<forall>b \<in> set complete. \<exists>j < k. b = of_nat j)"

definition same_but_output :: "client \<Rightarrow> client \<Rightarrow> bool" where
  "same_but_output c c' \<longleftrightarrow> (\<exists>out m n ps. c' = c\<lparr>cl_output := out, cl_checksum := m, cl_next := n, cl_events := cl_events c @ map (\<lambda>(a, b). Progress a b) ps\<rparr>)"

lemma same_but_output_refl: "same_but_output c c"
  unfolding same_but_output_def by (rule exI [of _ "cl_output c"], rule exI [of _ "cl_checksum c"], rule exI [of _ "cl_next c"], rule exI [of _ "[]"]) simp

lemma of_nat_block: "i * 1024 < n \<Longrightarrow> j * 1024 < n \<Longrightarrow> n < 2 ^ 64 \<Longrightarrow> (of_nat i :: 64 word) = of_nat j \<longleftrightarrow> i = j"
  by (simp add: word_of_nat_eq_iff take_bit_nat_eq_self)

lemma of_nat_small: "(i::nat) < 2 ^ 64 \<Longrightarrow> j < 2 ^ 64 \<Longrightarrow> (of_nat i :: 64 word) = of_nat j \<longleftrightarrow> i = j"
  by (simp add: word_of_nat_eq_iff take_bit_nat_eq_self)

lemma same_but_output_trans: "same_but_output a b \<Longrightarrow> same_but_output b c \<Longrightarrow> same_but_output a c"
  unfolding same_but_output_def
proof (elim exE)
  fix out m n ps out' m' n' ps'
  assume "b = a\<lparr>cl_output := out, cl_checksum := m, cl_next := n, cl_events := cl_events a @ map (\<lambda>(a, b). Progress a b) ps\<rparr>"
    "c = b\<lparr>cl_output := out', cl_checksum := m', cl_next := n', cl_events := cl_events b @ map (\<lambda>(a, b). Progress a b) ps'\<rparr>"
  then have "c = a\<lparr>cl_output := out', cl_checksum := m', cl_next := n', cl_events := cl_events a @ map (\<lambda>(a, b). Progress a b) (ps @ ps')\<rparr>" by simp
  then show "\<exists>out m n ps. c = a\<lparr>cl_output := out, cl_checksum := m, cl_next := n, cl_events := cl_events a @ map (\<lambda>(a, b). Progress a b) ps\<rparr>" by blast
qed

lemma draining_step:
  assumes "draining F k complete c" "length F < 2 ^ 64" "cl_cache c (cl_next c) = Some d"
  shows "\<exists>m. k * 1024 < length F \<and> md5_update (cl_checksum c) d = Inr m \<and>
    (\<forall>e. draining F (Suc k) (complete @ [cl_next c]) (cl_event e (c\<lparr>cl_output := cl_output c @ d, cl_checksum := m, cl_next := cl_next c + 1\<rparr>)))"
proof -
  have k: "cl_next c = of_nat k" "k = 0 \<or> (k - 1) * 1024 < length F" "cl_output c = take (k * 1024) F" "fed (cl_checksum c) (cl_output c)"
    using assms(1) unfolding draining_def by blast+
  have "k < 2 ^ 64" using k(2) assms(2) by auto
  then have "cl_next c \<notin> set complete"
    using assms(1) k(1) of_nat_small [of _ k] unfolding draining_def by fastforce
  with assms(1,3) obtain j where j: "k \<le> j" "j * 1024 < length F" "(of_nat k :: 64 word) = of_nat j" "d = blk F j"
    unfolding draining_def k(1) by blast
  have "j < 2 ^ 64" using j(2) assms(2) by auto
  with \<open>k < 2 ^ 64\<close> j(3) have "j = k" using of_nat_small by blast
  then have d: "k * 1024 < length F" "d = blk F k" using j by simp_all
  have "length (cl_output c) mod 64 = 0" using k(3) d(1) length_take_blocks by simp
  from fed_update [OF k(4) this, of d] obtain m where m: "md5_update (cl_checksum c) d = Inr m" "fed m (cl_output c @ d)" by blast
  have out: "cl_output c @ d = take (Suc k * 1024) F" unfolding k(3) d(2) by (rule take_blk)
  have "draining F (Suc k) (complete @ [cl_next c]) (cl_event e (c\<lparr>cl_output := cl_output c @ d, cl_checksum := m, cl_next := cl_next c + 1\<rparr>))" for e
    unfolding draining_def
  proof (intro conjI allI impI ballI)
    fix b x
    assume "cl_cache (cl_event e (c\<lparr>cl_output := cl_output c @ d, cl_checksum := m, cl_next := cl_next c + 1\<rparr>)) b = Some x"
    then have "cl_cache c b = Some x" by (simp add: cl_event_def)
    with assms(1) consider "b \<in> set complete" | j where "k \<le> j" "j * 1024 < length F" "b = of_nat j" "x = blk F j" unfolding draining_def by blast
    then show "b \<in> set (complete @ [cl_next c]) \<or> (\<exists>j \<ge> Suc k. j * 1024 < length F \<and> b = of_nat j \<and> x = blk F j)"
    proof cases
      case (2 j)
      show ?thesis
      proof (cases "j = k")
        case False
        with 2 have "Suc k \<le> j" by simp
        with 2 show ?thesis by blast
      qed (use 2 k(1) in simp)
    qed simp
  next
    fix b assume "b \<in> set (complete @ [cl_next c])"
    then consider "b = of_nat k" | "b \<in> set complete" using k(1) by auto
    then show "\<exists>j < Suc k. b = of_nat j"
    proof cases
      case 2
      with assms(1) obtain j where "j < k" "b = of_nat j" unfolding draining_def by blast
      then show ?thesis using less_SucI by blast
    qed blast
  qed (use d out m k(1) in \<open>simp_all add: cl_event_def add.commute\<close>)
  with m d show ?thesis by blast
qed

lemma drain_returns:
  assumes "draining F k complete c" "length F < 2 ^ 64"
  shows "\<exists>complete' c' k'. client_drain complete c = Some (Inr (complete', c')) \<and> draining F k' complete' c' \<and> same_but_output c c' \<and> cl_cache c' (cl_next c') = None"
  using assms
proof (induction "length F - k * 1024" arbitrary: k complete c rule: less_induct)
  case less
  show ?case
  proof (cases "cl_cache c (cl_next c)")
    case None
    then have "client_drain complete c = Some (Inr (complete, c))" by (subst client_drain.simps) simp
    with less.prems None same_but_output_refl show ?thesis by blast
  next
    case (Some d)
    from draining_step [OF less.prems this] obtain m where m: "k * 1024 < length F" "md5_update (cl_checksum c) d = Inr m"
      "\<And>e. draining F (Suc k) (complete @ [cl_next c]) (cl_event e (c\<lparr>cl_output := cl_output c @ d, cl_checksum := m, cl_next := cl_next c + 1\<rparr>))" by blast
    define c1 where "c1 = c\<lparr>cl_output := cl_output c @ d, cl_checksum := m, cl_next := cl_next c + 1\<rparr>"
    define e where "e = Progress (unat (cl_size c1)) (length (cl_output c1))"
    have step: "client_drain complete c = client_drain (complete @ [cl_next c]) (cl_event e c1)"
      using Some m(2) by (subst client_drain.simps) (simp add: Let_def c1_def e_def)
    have "same_but_output c (cl_event e c1)"
      unfolding same_but_output_def
      by (rule exI [of _ "cl_output c @ d"], rule exI [of _ m], rule exI [of _ "cl_next c + 1"],
          rule exI [of _ "[(unat (cl_size c1), length (cl_output c1))]"]) (simp add: cl_event_def c1_def e_def)
    moreover have "length F - Suc k * 1024 < length F - k * 1024" using m(1) by simp
    ultimately show ?thesis
      using less.hyps [OF _ m(3) less.prems(2), of e] same_but_output_trans unfolding step c1_def [symmetric] by blast
  qed
qed

lemma erase_blocks: "fold (\<lambda>b m. m(b := None)) bs m b = (if b \<in> set bs then None else m b)"
  by (induction bs arbitrary: m) auto

text \<open>After the loop: the invariant, with the blocks of the loop out of the cache.\<close>

lemma drained_collecting:
  assumes "draining F k complete c"
  shows "collecting F (c\<lparr>cl_cache := fold (\<lambda>b m. m(b := None)) complete (cl_cache c), cl_state := s\<rparr>)"
  using assms unfolding draining_def collecting_def by (intro exI [of _ k]) (auto simp: erase_blocks split: if_splits)

section \<open>Every step keeps the invariant\<close>

lemma finished_simps [simp]:
  "finished (cl_event e c) \<longleftrightarrow> finished c \<or> (\<exists>f n. e = Finished f n)"
  "finished (c\<lparr>cl_events := cl_events c @ map (\<lambda>(a, b). Progress a b) ps\<rparr>) \<longleftrightarrow> finished c"
  by (auto simp: finished_def cl_event_def)

lemma finished_updates [simp]:
  "finished (c\<lparr>cl_state := s\<rparr>) = finished c" "finished (c\<lparr>cl_channel := ch\<rparr>) = finished c" "finished (c\<lparr>cl_handle := h\<rparr>) = finished c"
  "finished (c\<lparr>cl_protocols := q\<rparr>) = finished c" "finished (c\<lparr>cl_size := z\<rparr>) = finished c" "finished (c\<lparr>cl_open := b\<rparr>) = finished c"
  "finished (c\<lparr>cl_output := out\<rparr>) = finished c" "finished (c\<lparr>cl_block := w\<rparr>) = finished c" "finished (c\<lparr>cl_next := w\<rparr>) = finished c"
  "finished (c\<lparr>cl_cache := m\<rparr>) = finished c" "finished (c\<lparr>cl_checksum := md\<rparr>) = finished c" "finished (c\<lparr>cl_duplicate := d\<rparr>) = finished c"
  "finished (c\<lparr>cl_received := st\<rparr>) = finished c"
  by (simp_all add: finished_def)

lemma collecting_updates [simp]:
  "collecting F (c\<lparr>cl_state := s\<rparr>) = collecting F c" "collecting F (c\<lparr>cl_channel := ch\<rparr>) = collecting F c"
  "collecting F (c\<lparr>cl_handle := h\<rparr>) = collecting F c" "collecting F (c\<lparr>cl_protocols := q\<rparr>) = collecting F c"
  "collecting F (c\<lparr>cl_block := w\<rparr>) = collecting F c" "collecting F (c\<lparr>cl_duplicate := d\<rparr>) = collecting F c"
  "collecting F (c\<lparr>cl_received := st\<rparr>) = collecting F c"
  by (simp_all add: collecting_def)

lemma client_query_inv: "client_inv path F c \<Longrightarrow> cl_state c = St_Query \<Longrightarrow> client_inv path F (client_query now c)"
  using client_send_inv [of path F c "QueryProtocol path" "cl_timeout c" "cl_retries c" now]
  by (auto simp: client_query_def client_inv_def client_core_def from_client_def)

lemma client_get_inv: "client_inv path F c \<Longrightarrow> cl_state c = St_Get \<Longrightarrow> client_inv path F (client_get now c)"
  using client_send_inv [of path F c "GetProtocol path" "cl_timeout c" "cl_retries c" now]
  by (auto simp: client_get_def client_inv_def client_core_def from_client_def)

lemma collecting_complete:
  assumes "collecting F c" "of_nat (length (cl_output c)) = (of_nat (length F) :: 64 word)" "length F < 2 ^ 64"
  shows "cl_output c = F \<and> fed (cl_checksum c) F"
proof -
  from assms(1) obtain k where k: "cl_output c = take (k * 1024) F" "fed (cl_checksum c) (cl_output c)" unfolding collecting_def by blast
  then have "length (cl_output c) < 2 ^ 64" using assms(3) by simp
  then have "length (cl_output c) = length F" using assms(2,3) of_nat_small by blast
  with k show ?thesis by simp
qed

lemma client_acknowledge_inv:
  assumes "client_inv path F c" "cl_state c = St_Acknowledge" "length F < 2 ^ 64"
  shows "client_inv path F (client_acknowledge now c)"
  using client_send_inv [of path F c "AcknowledgeProtocol path (cl_block c)" 1 0 now] collecting_complete [of F c] assms
  by (auto simp: client_acknowledge_def client_inv_def client_core_def from_client_def Let_def)

lemma client_checksum_inv:
  assumes "client_inv path F c" "cl_state c = St_Checksum"
  shows "\<exists>c'. client_checksum now c = give c' \<and> client_inv path F c'"
proof -
  define c1 where "c1 = c\<lparr>cl_checksum := md5_finalize (cl_checksum c)\<rparr>"
  have fed: "fed (cl_checksum c) F" "cl_output c = F" using assms by (simp_all add: client_inv_def client_core_def)
  then have digest: "md5_digest (md5_finalize (cl_checksum c)) = Inr (md5_spec F)" by (simp add: finalize_digest)
  have "length (mBuffer (md5_finalize (cl_checksum c))) = 64" using assms(1) by (simp add: length_md5_finalize client_inv_def client_core_def)
  then show ?thesis
    using client_send_inv [of path F c1 "ChecksumProtocol path (md5_spec F)" "cl_timeout c" "cl_retries c" now] digest assms fed(2)
    by (auto simp: client_checksum_def Let_def c1_def client_inv_def client_core_def from_client_def)
qed

lemma client_core_updates [simp]:
  "client_core path F (c\<lparr>cl_channel := ch\<rparr>) = client_core path F c" "client_core path F (c\<lparr>cl_handle := h\<rparr>) = client_core path F c"
  "client_core path F (c\<lparr>cl_protocols := q\<rparr>) = client_core path F c" "client_core path F (c\<lparr>cl_received := st\<rparr>) = client_core path F c"
  by (simp_all add: client_core_def)

lemma client_waiting_inv: "client_inv path F c \<Longrightarrow> client_inv path F (c\<lparr>cl_protocols := []\<rparr>)"
  by (simp add: client_inv_def)

lemma client_woken_inv:
  assumes "client_inv path F c" "set ms \<subseteq> set (cl_protocols c)"
  shows "client_inv path F (c\<lparr>cl_protocols := ms, cl_channel := channel_terminate (cl_channel c) (cl_handle c)\<rparr>)"
  using assms by (auto simp: client_inv_def channel_terminate_sends_only)

lemma client_size_inv:
  assumes "client_inv path F c" "cl_state c = St_Size"
  shows "\<exists>c'. client_size c = give c' \<and> client_inv path F c'"
proof -
  have "cl_state c \<noteq> St_Idle" using assms(2) by simp
  from client_wait_cases [OF assms(1) this, of Size] show ?thesis
  proof cases
    case 1
    then show ?thesis using client_waiting_inv [OF assms(1)] by (simp add: client_size_def)
  next
    case (2 m ms)
    then have "m = SizeProtocol path (of_nat (length F))" by (auto simp: from_server_def)
    with 2 assms show ?thesis by (auto simp: client_size_def client_inv_def client_core_def channel_terminate_sends_only)
  qed
qed

lemma client_start_inv:
  assumes "client_inv path F c" "cl_state c = St_Start"
  shows "\<exists>c'. client_start opens c = give c' \<and> client_inv path F c'"
proof -
  have "cl_state c \<noteq> St_Idle" using assms(2) by simp
  from client_wait_cases [OF assms(1) this, of Start] show ?thesis
  proof cases
    case 1
    then show ?thesis using client_waiting_inv [OF assms(1)] by (simp add: client_start_def)
  next
    case (2 m ms)
    have "fed (md5_reset (cl_checksum c)) []" using assms(1) by (simp add: client_inv_def client_core_def fed_reset)
    moreover have "length (mBuffer (md5_reset (cl_checksum c))) = 64" using assms(1) by (simp add: client_inv_def client_core_def md5_reset_def)
    ultimately show ?thesis using 2 assms
      by (auto simp: client_start_def Let_def client_inv_def client_core_def channel_terminate_sends_only collecting_def cl_event_def finished_def)
  qed
qed

lemma client_confirm_inv:
  assumes "client_inv path F c" "cl_state c = St_Confirm"
  shows "\<exists>c'. client_confirm c = give c' \<and> client_inv path F c'"
proof -
  have "cl_state c \<noteq> St_Idle" using assms(2) by simp
  from client_wait_cases [OF assms(1) this, of Confirm] show ?thesis
  proof cases
    case 1
    then show ?thesis using client_waiting_inv [OF assms(1)] by (simp add: client_confirm_def)
  next
    case (2 m ms)
    with assms show ?thesis
      by (auto simp: client_confirm_def client_inv_def client_core_def channel_terminate_sends_only cl_event_def finished_def)
  qed
qed

lemma client_data_inv:
  assumes inv: "client_inv path F c" and "cl_state c = St_Data" and F: "length F < 2 ^ 64"
  shows "\<exists>c'. client_data c = give c' \<and> client_inv path F c'"
proof -
  have "cl_state c \<noteq> St_Idle" using assms(2) by simp
  from client_wait_cases [OF inv this, of Data] show ?thesis
  proof cases
    case 1
    then show ?thesis using client_waiting_inv [OF inv] by (simp add: client_data_def)
  next
    case (2 m ms)
    then obtain b where b: "m = DataProtocol path (of_nat b) (blk F b)" "b * 1024 < length F" by (auto simp: from_server_def)
    define c1 where "c1 = c\<lparr>cl_protocols := ms, cl_channel := channel_terminate (cl_channel c) (cl_handle c)\<rparr>"
    have c1: "client_inv path F c1" "cl_state c1 = St_Data"
      using client_woken_inv [OF inv 2(4)] assms(2) by (simp_all add: c1_def)
    have wait: "client_wait Data c = (c1\<lparr>cl_protocols := m # ms\<rparr>, Some True)" using 2(1) by (simp add: c1_def)
    have c1_ms: "c1\<lparr>cl_protocols := m # ms, cl_protocols := ms\<rparr> = c1" by (simp add: c1_def)
    have data: "client_data c = (if (of_nat b :: 64 word) < cl_next c1 \<or> cl_cache c1 (of_nat b) \<noteq> None
        then give (c1\<lparr>cl_block := of_nat b, cl_state := St_Acknowledge, cl_duplicate := cl_duplicate c1 + 1\<rparr>)
        else try_bind (client_drain [] (c1\<lparr>cl_cache := (cl_cache c1)(of_nat b \<mapsto> blk F b), cl_block := of_nat b\<rparr>)) (\<lambda>(complete, c).
                give (c\<lparr>cl_cache := fold (\<lambda>block m. m(block := None)) complete (cl_cache c), cl_state := St_Acknowledge\<rparr>)))"
      using c1_ms unfolding client_data_def wait b(1) by (simp add: Let_def cong: if_cong)
    show ?thesis
    proof (cases "(of_nat b :: 64 word) < cl_next c1 \<or> cl_cache c1 (of_nat b) \<noteq> None")
      case True
      then show ?thesis unfolding data using c1 by (auto simp: client_inv_def client_core_def)
    next
      case False
      define c2 where "c2 = c1\<lparr>cl_cache := (cl_cache c1)(of_nat b \<mapsto> blk F b), cl_block := of_nat b\<rparr>"
      from c1 have "collecting F c1" by (simp add: client_inv_def client_core_def)
      then obtain k where k: "k = 0 \<or> (k - 1) * 1024 < length F" "cl_next c1 = of_nat k" "cl_output c1 = take (k * 1024) F"
        "fed (cl_checksum c1) (cl_output c1)" "\<And>b d. cl_cache c1 b = Some d \<Longrightarrow> \<exists>j \<ge> k. j * 1024 < length F \<and> b = of_nat j \<and> d = blk F j"
        unfolding collecting_def by blast
      have "k < 2 ^ 64" "b < 2 ^ 64" using k(1) b(2) F by auto
      then have "k \<le> b" using False k(2) by (simp add: word_less_nat_alt unat_of_nat take_bit_nat_eq_self not_less)
      have "draining F k [] c2"
        unfolding draining_def
      proof (intro conjI allI impI)
        fix w d assume w: "cl_cache c2 w = Some d"
        show "w \<in> set [] \<or> (\<exists>j \<ge> k. j * 1024 < length F \<and> w = of_nat j \<and> d = blk F j)"
        proof (cases "w = of_nat b")
          case True
          then have "d = blk F b" using w by (simp add: c2_def)
          with True b(2) \<open>k \<le> b\<close> show ?thesis by blast
        next
          case False
          then have "cl_cache c1 w = Some d" using w by (simp add: c2_def)
          then show ?thesis using k(5) by blast
        qed
      qed (use k(1-4) in \<open>simp_all add: c2_def\<close>)
      from drain_returns [OF this F] obtain complete c3 k' where c3: "client_drain [] c2 = Some (Inr (complete, c3))" "draining F k' complete c3"
        "same_but_output c2 c3" by blast
      define c4 where "c4 = c3\<lparr>cl_cache := fold (\<lambda>block m. m(block := None)) complete (cl_cache c3), cl_state := St_Acknowledge\<rparr>"
      have "client_data c = give c4"
        unfolding data if_not_P [OF False] c2_def [symmetric] c3(1) c4_def by (simp add: try_bind_def)
      moreover have "collecting F c4" unfolding c4_def using c3(2) by (rule drained_collecting)
      moreover from this have "length (mBuffer (cl_checksum c4)) = 64" by (auto simp: collecting_def fed_def Let_def)
      moreover have "client_inv path F c4" if "collecting F c4" "length (mBuffer (cl_checksum c4)) = 64"
        using c1 c3(3) that unfolding same_but_output_def by (auto simp: client_inv_def client_core_def c4_def c2_def finished_def)
      ultimately show ?thesis by blast
    qed
  qed
qed

lemma client_dispatch_inv:
  assumes "client_inv path F c" "length F < 2 ^ 64"
  shows "\<exists>c'. client_dispatch opens now c = Some c' \<and> client_inv path F c'"
proof -
  have "\<exists>c'. (case cl_state c of St_Idle \<Rightarrow> give c | St_Query \<Rightarrow> give (client_query now c) | St_Size \<Rightarrow> client_size c
       | St_Get \<Rightarrow> give (client_get now c) | St_Start \<Rightarrow> client_start opens c | St_Data \<Rightarrow> client_data c
       | St_Acknowledge \<Rightarrow> give (client_acknowledge now c) | St_Checksum \<Rightarrow> client_checksum now c
       | St_Confirm \<Rightarrow> client_confirm c | St_Error \<Rightarrow> client_error c) = give c' \<and> client_inv path F c'"
  proof (cases "cl_state c")
    case St_Error
    then show ?thesis using assms(1) by (simp add: client_inv_def client_core_def)
  qed (use assms client_data_inv client_acknowledge_inv in
      \<open>simp_all add: client_query_inv client_size_inv client_get_inv client_start_inv client_checksum_inv client_confirm_inv\<close>)
  then show ?thesis by (auto simp: client_dispatch_def give_def)
qed

lemma client_onTimeout_inv: "client_inv path F c \<Longrightarrow> client_inv path F (client_onTimeout t c)"
  by (auto simp: client_onTimeout_def Let_def client_inv_def client_core_def cl_event_def finished_def channel_terminate_sends_only)

end
