(* ===== verification/RDT_Serving.thy ===== *)
theory RDT_Serving
  imports RDT_Server RDT_Download
begin

text \<open>
  What the server makes of the messages of an honest client: an invariant of its states that each step keeps.
\<close>

text \<open>A task: its checksum has been fed what has been sent, or is final and in the cache.\<close>

definition serving :: "bytes \<Rightarrow> bytes \<Rightarrow> bool \<Rightarrow> stask \<Rightarrow> bool" where
  "serving path F cached t \<longleftrightarrow> sk_path t = path \<and> sk_size t = length F \<and> sk_file t = F \<and> sk_tellg t \<le> length F \<and>
     (sk_tellg t mod 1024 = 0 \<or> sk_tellg t = length F) \<and> length (mBuffer (sk_checksum t)) = 64 \<and>
     (fed (sk_checksum t) (take (sk_tellg t) F) \<or> sk_tellg t = length F \<and> mValid (sk_checksum t) \<and> cached)"

definition server_inv :: "bytes \<Rightarrow> bytes \<Rightarrow> server \<Rightarrow> bool" where
  "server_inv path F s \<longleftrightarrow> 100 \<le> sv_timeout s \<and> sends_only (carries (from_server path F)) (sv_channel s) \<and>
     (\<forall>d. sv_MD5Cache s path = Some d \<longrightarrow> d = md5_spec F) \<and>
     (\<forall>client t. sv_tasks s client = Some t \<longrightarrow> serving path F (sv_MD5Cache s path \<noteq> None) t)"

text \<open>What the worker changes of a server: the channel, where it only sends, and the cache, where it only adds the digest.\<close>

definition worked :: "bytes \<Rightarrow> bytes \<Rightarrow> server \<Rightarrow> server \<Rightarrow> bool" where
  "worked path F s s' \<longleftrightarrow> (\<exists>ch cache. s' = s\<lparr>sv_channel := ch, sv_MD5Cache := cache\<rparr> \<and> sends_only (carries (from_server path F)) ch \<and>
     (cache = sv_MD5Cache s \<or> sv_MD5Cache s path = None \<and> cache = (sv_MD5Cache s)(path \<mapsto> md5_spec F)))"

lemma server_send_worked:
  assumes "sends_only (carries (from_server path F)) (sv_channel s)" "from_server path F m"
  shows "\<exists>ch h. server_send m client timeout retries now s = (s\<lparr>sv_channel := ch\<rparr>, h) \<and> sends_only (carries (from_server path F)) ch"
proof -
  obtain ch cb h where send: "channel_send (sv_channel s) \<lparr>t_data = serialize m, t_IP = fst client, t_port = snd client\<rparr> timeout retries now = (ch, cb, h)"
    by (metis prod_cases3)
  have "carries (from_server path F) \<lparr>t_data = serialize m, t_IP = fst client, t_port = snd client\<rparr>" using assms(2) by (auto simp: carries_def)
  from channel_send_sends_only [OF assms(1) this send] send show ?thesis by (auto simp: server_send_def)
qed

lemma server_inv_taskD: "server_inv path F s \<Longrightarrow> sv_tasks s client = Some t \<Longrightarrow> serving path F (sv_MD5Cache s path \<noteq> None) t"
  unfolding server_inv_def by blast

section \<open>The worker\<close>

lemma send_block_ok:
  assumes "sends_only (carries (from_server path F)) (sv_channel s)" "serving path F cached t" "\<not> sk_isEnd t"
  shows "\<exists>ch t'. send_block client now s t = Inr (s\<lparr>sv_channel := ch\<rparr>, t') \<and> sends_only (carries (from_server path F)) ch \<and>
    serving path F cached t' \<and> sk_tellg t < sk_tellg t'"
proof -
  define b where "b = sk_tellg t div 1024"
  define e where "e = min (sk_tellg t + 1024) (length F)"
  have t: "sk_path t = path" "sk_size t = length F" "sk_file t = F" "sk_tellg t < length F" "sk_tellg t = b * 1024"
    "fed (sk_checksum t) (take (sk_tellg t) F)"
    using assms(2,3) by (auto simp: serving_def sk_isEnd_def b_def)
  have d: "take (e - sk_tellg t) (drop (sk_tellg t) F) = blk F b"
    by (auto simp: blk_def e_def t(5) min_def)
  have "length (take (sk_tellg t) F) mod 64 = 0" using t(4,5) length_take_blocks by simp
  from fed_update [OF t(6) this, of "blk F b"] obtain m where m: "md5_update (sk_checksum t) (blk F b) = Inr m" "fed m (take (sk_tellg t) F @ blk F b)" by blast
  have "take (sk_tellg t) F @ blk F b = take (Suc b * 1024) F" using take_blk t(5) by simp
  also have "\<dots> = take e F" by (auto simp: e_def t(5) min_def add.commute)
  finally have fed: "fed m (take e F)" using m(2) by simp
  have "from_server path F (DataProtocol path (of_nat b) (blk F b))" using t(4,5) by (auto simp: from_server_def)
  from server_send_worked [OF assms(1) this, of client "sk_timeout t" "sv_retries s" now] obtain ch h where
    send: "server_send (DataProtocol path (of_nat b) (blk F b)) client (sk_timeout t) (sv_retries s) now s = (s\<lparr>sv_channel := ch\<rparr>, h)"
    "sends_only (carries (from_server path F)) ch" by blast
  define t' where "t' = t\<lparr>sk_tellg := e, sk_checksum := m\<rparr>"
  have "e mod 1024 = 0 \<or> e = length F" by (simp add: e_def t(5) min_def)
  then have t': "serving path F cached t'" "serving path F cached (t'\<lparr>sk_packets := q\<rparr>)" for q
    using t fed by (auto simp: t'_def serving_def e_def fed_def Let_def)
  have "sk_tellg t < e" using t(4) by (simp add: e_def)
  moreover have "send_block client now s t = Inr (s\<lparr>sv_channel := ch\<rparr>, case sk_packets t b of
      None \<Rightarrow> t'\<lparr>sk_packets := (sk_packets t)(b \<mapsto> \<lparr>pk_handle = h, pk_departure = uint now\<rparr>)\<rparr> | Some _ \<Rightarrow> t')"
    using t(1-3) m(1) send(1) d
    by (simp add: send_block_def sBlockSize_def Let_def e_def [symmetric] b_def [symmetric]) (simp add: t'_def b_def sBlockSize_def split: option.split)
  ultimately show ?thesis using send(2) t' by (cases "sk_packets t b") (auto simp: t'_def)
qed

lemma send_blocks_ok:
  assumes "sends_only (carries (from_server path F)) (sv_channel s)" "serving path F cached t" "sk_size t - sk_tellg t \<le> n"
  shows "\<exists>ch t'. send_blocks n client now s t = Some (Inr (s\<lparr>sv_channel := ch\<rparr>, t')) \<and> sends_only (carries (from_server path F)) ch \<and> serving path F cached t'"
  using assms
proof (induction n arbitrary: s t)
  case 0
  then have "sk_isEnd t" by (simp add: sk_isEnd_def serving_def)
  then have "send_blocks 0 client now s t = Some (Inr (s\<lparr>sv_channel := sv_channel s\<rparr>, t))" by simp
  with 0 show ?case by blast
next
  case (Suc n)
  show ?case
  proof (cases "packets_size t < sk_window t \<and> \<not> sk_isEnd t")
    case True
    with send_block_ok [OF Suc.prems(1,2), of client now] obtain ch t' where
      b: "send_block client now s t = Inr (s\<lparr>sv_channel := ch\<rparr>, t')" "sends_only (carries (from_server path F)) ch" "serving path F cached t'"
      "sk_tellg t < sk_tellg t'" by blast
    have "sk_size t' - sk_tellg t' \<le> n" using Suc.prems(2,3) b(3,4) by (simp add: serving_def)
    with Suc.IH [of "s\<lparr>sv_channel := ch\<rparr>" t'] b True show ?thesis by auto
  next
    case False
    then have "send_blocks (Suc n) client now s t = Some (Inr (s\<lparr>sv_channel := sv_channel s\<rparr>, t))" by (simp only: send_blocks.simps if_False) simp
    with Suc.prems show ?thesis by blast
  qed
qed

lemma worked_refl: "sends_only (carries (from_server path F)) (sv_channel s) \<Longrightarrow> worked path F s s"
  unfolding worked_def by (rule exI [of _ "sv_channel s"], rule exI [of _ "sv_MD5Cache s"]) simp

lemma valid_finalize: "mValid (md5_finalize m)"
  by (simp add: md5_finalize_def Let_def split: prod.splits)

lemma digest_finalized: "\<exists>digest. md5_digest (md5_finalize m) = Inr digest"
  by (cases "mABCD (md5_finalize m)") (simp add: md5_digest_def valid_finalize)

lemma work_ok:
  assumes "server_inv path F s" "serving path F (sv_MD5Cache s path \<noteq> None) t"
  shows "\<exists>s' t' complete. work client now s t = Some (Inr (s', t', complete)) \<and> worked path F s s' \<and> serving path F (sv_MD5Cache s' path \<noteq> None) t'"
proof (cases "sk_window t \<le> packets_size t")
  case True
  with assms worked_refl show ?thesis by (auto simp: work_def server_inv_def)
next
  case False
  have "sends_only (carries (from_server path F)) (sv_channel s)" using assms(1) by (simp add: server_inv_def)
  from send_blocks_ok [OF this assms(2), of "sk_size t" client now] obtain ch t1 where
    t1: "send_blocks (sk_size t) client now s t = Some (Inr (s\<lparr>sv_channel := ch\<rparr>, t1))" "sends_only (carries (from_server path F)) ch"
    "serving path F (sv_MD5Cache s path \<noteq> None) t1" by auto
  show ?thesis
  proof (cases "sk_isEnd t1")
    case False
    have "worked path F s (s\<lparr>sv_channel := ch\<rparr>)"
      unfolding worked_def by (rule exI [of _ ch], rule exI [of _ "sv_MD5Cache s"]) (simp add: t1(2))
    moreover have "work client now s t = Some (Inr (s\<lparr>sv_channel := ch\<rparr>, t1, False))"
      using False \<open>\<not> sk_window t \<le> packets_size t\<close> t1(1) by (simp add: work_def)
    moreover have "serving path F (sv_MD5Cache (s\<lparr>sv_channel := ch\<rparr>) path \<noteq> None) t1" using t1(3) by simp
    ultimately show ?thesis by blast
  next
    case True
    define t2 where "t2 = t1\<lparr>sk_checksum := md5_finalize (sk_checksum t1)\<rparr>"
    have sent: "sk_tellg t1 = length F" "sk_path t1 = path" using True t1(3) by (simp_all add: sk_isEnd_def serving_def)
    from digest_finalized [of "sk_checksum t1"] obtain digest where some: "md5_digest (md5_finalize (sk_checksum t1)) = Inr digest" by blast
    have "fed (sk_checksum t1) F" if "sv_MD5Cache s path = None" using t1(3) that sent(1) by (simp add: serving_def)
    then have digest: "md5_digest (md5_finalize (sk_checksum t1)) = Inr digest" "sv_MD5Cache s path = None \<Longrightarrow> digest = md5_spec F"
      using some finalize_digest [of "sk_checksum t1" F] by auto
    define s2 where "s2 = s\<lparr>sv_channel := ch, sv_MD5Cache := (case sv_MD5Cache s path of None \<Rightarrow> (sv_MD5Cache s)(path \<mapsto> digest) | Some _ \<Rightarrow> sv_MD5Cache s)\<rparr>"
    have "work client now s t = Some (Inr (s2, t2, packets_size t2 = 0))"
      using \<open>\<not> sk_window t \<le> packets_size t\<close> t1(1) True digest(1) sent(2) by (simp add: work_def Let_def t2_def s2_def packets_size_def split: option.split)
    moreover have "worked path F s s2"
      using t1(2) digest(2) by (cases "sv_MD5Cache s path") (auto simp: worked_def s2_def)
    moreover have "serving path F (sv_MD5Cache s2 path \<noteq> None) t2"
      using t1(3) sent(1) valid_finalize length_md5_finalize by (cases "sv_MD5Cache s path") (auto simp: serving_def t2_def s2_def)
    ultimately show ?thesis by blast
  qed
qed

text \<open>The invariant is kept by what the worker does, by ending tasks and by new or updated tasks.\<close>

lemma serving_mono: "serving path F b t \<Longrightarrow> (b \<Longrightarrow> b') \<Longrightarrow> serving path F b' t"
  by (auto simp: serving_def)

lemma worked_inv:
  assumes "server_inv path F s" "worked path F s s'"
  shows "server_inv path F s'"
  using assms unfolding worked_def server_inv_def by (elim exE conjE disjE) (auto intro: serving_mono)

lemma server_inv_task: "server_inv path F s \<Longrightarrow> serving path F (sv_MD5Cache s path \<noteq> None) t \<Longrightarrow> server_inv path F (s\<lparr>sv_tasks := (sv_tasks s)(client \<mapsto> t)\<rparr>)"
  by (simp add: server_inv_def)

lemma server_inv_updates [simp]: "server_inv path F (sv_event e s) = server_inv path F s" "server_inv path F (s\<lparr>sv_received := st\<rparr>) = server_inv path F s"
  by (simp_all add: server_inv_def sv_event_def)

lemma server_inv_channel: "server_inv path F s \<Longrightarrow> sends_only (carries (from_server path F)) ch \<Longrightarrow> server_inv path F (s\<lparr>sv_channel := ch\<rparr>)"
  by (simp add: server_inv_def)

lemma server_terminate_inv:
  assumes "server_inv path F s"
  shows "server_inv path F (server_terminate bs client s)"
proof (cases "sv_tasks s client")
  case (Some t)
  have "sends_only P (fold (\<lambda>b ch. case sk_packets t b of None \<Rightarrow> ch | Some p \<Rightarrow> channel_terminate ch (pk_handle p)) bs ch)"
    if "sends_only P ch" for P ch
    using that by (induction bs arbitrary: ch) (simp_all add: channel_terminate_sends_only split: option.split)
  with assms Some show ?thesis by (simp add: server_terminate_def Let_def server_inv_def)
qed (use assms in \<open>simp add: server_terminate_def\<close>)

lemma worker_task_ok:
  assumes "server_inv path F s"
  shows "\<exists>s' complete. worker_task client now s = Some (s', complete) \<and> server_inv path F s'"
proof (cases "sv_tasks s client")
  case (Some t)
  with assms have "serving path F (sv_MD5Cache s path \<noteq> None) t" by (rule server_inv_taskD)
  from work_ok [OF assms this, of client now] obtain s' t' complete where
    w: "work client now s t = Some (Inr (s', t', complete))" "worked path F s s'" "serving path F (sv_MD5Cache s' path \<noteq> None) t'" by blast
  from server_inv_task [OF worked_inv [OF assms w(2)] w(3), of client] w(1) Some show ?thesis by (simp add: worker_task_def Let_def)
next
  case None
  then have "worker_task client now s = Some (s, False)" by (simp add: worker_task_def)
  with assms show ?thesis by blast
qed

lemma worker_tasks_ok: "server_inv path F s \<Longrightarrow> \<exists>s' complete. worker_tasks order now s = Some (s', complete) \<and> server_inv path F s'"
proof (induction order arbitrary: s)
  case (Cons client order)
  from worker_task_ok [OF Cons.prems] obtain s1 complete where s1: "worker_task client now s = Some (s1, complete)" "server_inv path F s1" by blast
  from Cons.IH [OF s1(2)] s1(1) show ?case by auto
qed simp

lemma worker_round_ok:
  assumes "server_inv path F s"
  shows "\<exists>s'. worker_round order bs now s = Some s' \<and> server_inv path F s'"
proof -
  have "server_inv path F (fold (\<lambda>client s. server_terminate (bs client) client s) complete s)" if "server_inv path F s" for s complete
    using that by (induction complete arbitrary: s) (simp_all add: server_terminate_inv)
  then show ?thesis using worker_tasks_ok [OF assms, of order now] assms by (cases "sv_running s") (auto simp: worker_round_def)
qed

section \<open>The handlers\<close>

lemma server_onRetry_inv: "server_inv path F s \<Longrightarrow> server_inv path F (server_onRetry tk s)"
  by (cases "sv_tasks s (t_IP tk, t_port tk)") (auto simp: server_onRetry_def Let_def server_inv_def serving_def)

lemma server_onTimeout_inv: "server_inv path F s \<Longrightarrow> server_inv path F (server_onTimeout bs tk s)"
  by (simp add: server_onTimeout_def server_terminate_inv)

lemma server_send_once_inv: "server_inv path F s \<Longrightarrow> from_server path F m \<Longrightarrow> server_inv path F (server_send_once m client now s)"
  using server_send_worked [of path F s m client 1 0 now] by (auto simp: server_send_once_def server_inv_def)

lemma server_onQuery_inv: "server_inv path F s \<Longrightarrow> fs path = Some F \<Longrightarrow> server_inv path F (server_onQuery fs client path now s)"
  by (simp add: server_onQuery_def server_send_once_inv from_server_def)

lemma server_onGet_inv:
  assumes "server_inv path F s" "fs path = Some F" "length (mBuffer m) = 64"
  shows "server_inv path F (server_onGet fs m client path now s)"
proof -
  define s1 where "s1 = server_send_once (StartProtocol path) client now s"
  define t where "t = \<lparr>sk_path = path, sk_size = length F, sk_file = F, sk_tellg = 0, sk_checksum = md5_reset m, sk_packets = Map.empty,
    sk_window = 1, sk_average = sv_timeout s1, sk_variance = 0, sk_timeout = sv_timeout s1\<rparr>"
  have s1: "server_inv path F s1" using assms(1) by (simp add: s1_def server_send_once_inv from_server_def)
  have "length (mBuffer (md5_reset m)) = 64" using assms(3) by (simp add: md5_reset_def)
  then have "serving path F (sv_MD5Cache s1 path \<noteq> None) t" using fed_reset [OF assms(3)] by (simp add: t_def serving_def)
  from server_inv_task [OF s1 this, of client] s1 assms(2) show ?thesis
    by (simp add: server_onGet_def Let_def s1_def [symmetric]) (simp add: t_def)
qed

lemma server_onAcknowledge_ok:
  assumes "server_inv path F s"
  shows "\<exists>s'. server_onAcknowledge client block now s = Some s' \<and> server_inv path F s'"
proof (cases "sv_tasks s client")
  case (Some t)
  show ?thesis
  proof (cases "sk_packets t (unat block)")
    case (Some p)
    have "100 \<le> sv_timeout s" "serving path F (sv_MD5Cache s path \<noteq> None) t" "sends_only (carries (from_server path F)) (channel_terminate (sv_channel s) (pk_handle p))"
      using assms server_inv_taskD [OF assms \<open>sv_tasks s client = Some t\<close>] by (simp_all add: server_inv_def channel_terminate_sends_only)
    moreover have "serving path F b (t\<lparr>sk_packets := q, sk_window := w, sk_average := a, sk_variance := v, sk_timeout := x\<rparr>) = serving path F b t" for b q w a v x
      by (simp add: serving_def)
    moreover have "server_inv path F (s\<lparr>sv_channel := ch, sv_tasks := (sv_tasks s)(client \<mapsto> t')\<rparr>)"
      if "sends_only (carries (from_server path F)) ch" "serving path F (sv_MD5Cache s path \<noteq> None) t'" for ch t'
      using assms that by (simp add: server_inv_def)
    ultimately show ?thesis using \<open>sv_tasks s client = Some t\<close> Some by (simp add: server_onAcknowledge_def Let_def clamp_def)
  qed (use assms Some in \<open>simp add: server_onAcknowledge_def\<close>)
qed (use assms in \<open>simp add: server_onAcknowledge_def\<close>)

lemma server_onChecksum_ok:
  assumes "server_inv path F s" "fs path = Some F" "length (mBuffer m) = 64"
  shows "\<exists>s'. server_onChecksum fs m bs client path (md5_spec F) now s = give s' \<and> server_inv path F s'"
proof -
  define s1 where "s1 = server_terminate bs client s"
  have s1: "server_inv path F s1" using assms(1) by (simp add: s1_def server_terminate_inv)
  have confirm: "from_server path F (ConfirmProtocol path)" by (simp add: from_server_def)
  show ?thesis
  proof (cases "sv_MD5Cache s1 path")
    case (Some d)
    then have "d = md5_spec F" using s1 by (simp add: server_inv_def)
    with Some server_send_once_inv [OF s1 confirm, of client now] show ?thesis
      by (simp add: server_onChecksum_def Let_def s1_def [symmetric])
  next
    case None
    have "\<exists>m'. md5_compute_stream m F = Inr m' \<and> md5_digest m' = Inr (md5_spec F)"
      using feed_digest [OF assms(3), of "read_chunks F"] read_chunks_concat [of F] by (auto simp: md5_compute_stream_def)
    then obtain m' where m': "md5_compute_stream m F = Inr m'" "md5_digest m' = Inr (md5_spec F)" by blast
    define s2 where "s2 = s1\<lparr>sv_MD5Cache := (sv_MD5Cache s1)(path \<mapsto> md5_spec F)\<rparr>"
    have "sends_only (carries (from_server path F)) (sv_channel s1)" using s1 by (simp add: server_inv_def)
    then have "worked path F s1 s2"
      unfolding worked_def s2_def using None by (intro exI [of _ "sv_channel s1"]) auto
    from worked_inv [OF s1 this] have "server_inv path F s2" .
    with None m' assms(2) server_send_once_inv [OF _ confirm, of s2 client now] show ?thesis
      by (simp add: server_onChecksum_def Let_def s1_def [symmetric] s2_def)
  qed
qed

lemma proper_from_client: "0 \<notin> set path \<Longrightarrow> from_client path F m \<Longrightarrow> proper m"
  by (auto simp: from_client_def proper_def)

lemma proper_from_server: "0 \<notin> set path \<Longrightarrow> from_server path F m \<Longrightarrow> proper m"
  by (auto simp: from_server_def proper_def)

lemma server_onReceive_ok:
  assumes "server_inv path F s" "fs path = Some F" "length (mBuffer m) = 64" "from_client path F p" "0 \<notin> set path"
  shows "\<exists>s'. server_onReceive fs m bs client (serialize p) now s = Some s' \<and> server_inv path F s'"
proof -
  have read: "deserialize (serialize p) = give p" using deserialize_serialize proper_from_client assms(4,5) by blast
  from assms(4) consider "p = QueryProtocol path" | "p = GetProtocol path" | b where "p = AcknowledgeProtocol path b" | "p = ChecksumProtocol path (md5_spec F)"
    by (auto simp: from_client_def)
  then show ?thesis
  proof cases
    case 1
    then show ?thesis using assms(1,2) read server_onQuery_inv by (simp add: server_onReceive_def give_def)
  next
    case 2
    then show ?thesis using assms(1-3) read server_onGet_inv by (simp add: server_onReceive_def give_def)
  next
    case (3 b)
    then show ?thesis using assms(1) read server_onAcknowledge_ok by (simp add: server_onReceive_def give_def)
  next
    case 4
    from server_onChecksum_ok [of path F s fs m bs client now] assms(1-3) obtain s' where
      "server_onChecksum fs m bs client path (md5_spec F) now s = give s'" "server_inv path F s'" by blast
    with 4 assms(1) read show ?thesis by (simp add: server_onReceive_def give_def)
  qed
qed

lemma client_onReceive_ok:
  assumes "client_inv path F c" "from_server path F m" "0 \<notin> set path"
  shows "\<exists>c'. client_onReceive (serialize m) c = give c' \<and> client_inv path F c'"
proof -
  have "deserialize (serialize m) = give m" using deserialize_serialize proper_from_server assms(2,3) by blast
  with assms(1,2) show ?thesis by (auto simp: client_onReceive_def give_def client_inv_def)
qed

end
