(* ===== verification/RDT_Transfer.thy ===== *)
theory RDT_Transfer
  imports RDT_Serving
begin

text \<open>
  Client and server of the RDT lab on a network that loses, repeats, reorders and damages packets.
\<close>

text \<open>
  A step of the two: a round of the client's \<open>dispatch\<close> or of the server's \<open>worker\<close>, a round of the timer of any message, or the arrival
  of a packet that was sent at any earlier time, whole or damaged.  The file system, the client's address and what the machine
  chooses are arguments: the time, whether the output file opens, the orders of the tables and what an MD5 object holds at first.  The
  result is \<open>None\<close> when the step is undefined.
\<close>

inductive rdt_step :: "(bytes \<Rightarrow> bytes option) \<Rightarrow> address \<Rightarrow> client \<times> server \<Rightarrow> (client \<times> server) option \<Rightarrow> bool" for fs a where
  dispatch: "rdt_step fs a (c, s) (map_option (\<lambda>c'. (c', s)) (client_dispatch opens now c))"
| client_timer: "rdt_step fs a (c, s) (Some (client_timer h now c, s))"
| to_client: "(p, IP, port) \<in> set (mSocket (sv_channel s)) \<Longrightarrow> p' = p \<or> damaged p p' \<Longrightarrow>
    rdt_step fs a (c, s) (map_option (\<lambda>c'. (c', s)) (client_packet p' c))"
| worker: "rdt_step fs a (c, s) (map_option (\<lambda>s'. (c, s')) (worker_round order packets now s))"
| server_timer: "rdt_step fs a (c, s) (Some (c, server_timer bs h now s))"
| to_server: "(p, IP, port) \<in> set (mSocket (cl_channel c)) \<Longrightarrow> p' = p \<or> damaged p p' \<Longrightarrow> length (mBuffer m) = 64 \<Longrightarrow>
    rdt_step fs a (c, s) (map_option (\<lambda>s'. (c, s')) (server_packet fs m bs a p' now s))"

inductive rdt_reachable :: "(bytes \<Rightarrow> bytes option) \<Rightarrow> address \<Rightarrow> client \<times> server \<Rightarrow> client \<times> server \<Rightarrow> bool" for fs a st where
  here: "rdt_reachable fs a st st"
| later: "rdt_reachable fs a st st' \<Longrightarrow> rdt_step fs a st' (Some st'') \<Longrightarrow> rdt_reachable fs a st st''"

inductive_cases rdt_stepE: "rdt_step fs a (c, s) r"

definition fresh_client :: "client \<Rightarrow> bool" where
  "fresh_client c \<longleftrightarrow> sends_only (\<lambda>t. False) (cl_channel c) \<and> cl_events c = [] \<and> length (mBuffer (cl_checksum c)) = 64"

definition fresh_server :: "server \<Rightarrow> bool" where
  "fresh_server s \<longleftrightarrow> sends_only (\<lambda>t. False) (sv_channel s) \<and> 100 \<le> sv_timeout s \<and> sv_tasks s = Map.empty \<and> sv_MD5Cache s = Map.empty"

lemma sends_only_mono: "sends_only P c \<Longrightarrow> (\<And>t. P t \<Longrightarrow> Q t) \<Longrightarrow> sends_only Q c"
  unfolding sends_only_def by blast

lemma fresh_client_inv:
  assumes "fresh_client c"
  shows "client_inv path F (client_download IP port path destination c)"
proof -
  have "sends_only (carries (from_client path F)) (cl_channel c)" using assms sends_only_mono unfolding fresh_client_def by blast
  with assms show ?thesis
    by (simp add: fresh_client_def client_download_def client_inv_def client_core_def finished_def md5_reset_def)
qed

lemma fresh_server_inv: "fresh_server s \<Longrightarrow> server_inv path F s"
  using sends_only_mono unfolding fresh_server_def server_inv_def by fastforce

text \<open>A packet of one side gives the other side a message of that side or nothing.\<close>

lemma packet_carries:
  assumes "sends_only (carries Q) ch" "(p, IP, port) \<in> set (mSocket ch)" "p' = p \<or> damaged p p'"
  shows "\<exists>st'. receiver st p' = (st', None) \<or> (\<exists>m. Q m \<and> receiver st p' = (st', Some (serialize m)))"
proof -
  from assms(1,2) obtain t n now where t: "carries Q t" "p = encode (t_data t) n now"
    by (fastforce simp: sends_only_def transmission_def)
  then obtain m where m: "Q m" "p = encode (serialize m) n now" by (auto simp: carries_def)
  from assms(3) show ?thesis
  proof
    assume "p' = p"
    have "receiver st p = (st\<lparr>mLost := mLost st + (if (of_nat n :: 32 word) = 0 then 0 else 1), mSuccessful := mSuccessful st + 1\<rparr>, Some (serialize m))"
      unfolding m(2) by (simp add: receiver_def decode_encode word_gt_0)
    with m(1) \<open>p' = p\<close> show ?thesis by blast
  next
    assume d: "damaged p p'"
    then have "p' \<noteq> []" using m(2) by (auto simp: damaged_def)
    moreover have "\<not> h_valid (fst (decode p'))" using damaged_invalid d m(2) by blast
    ultimately have "receiver st p' = (st\<lparr>mCorrupted := mCorrupted st + 1\<rparr>, None)" by (cases "decode p'") (auto simp: receiver_def)
    then show ?thesis by blast
  qed
qed

lemma client_inv_received: "client_inv path F (c\<lparr>cl_received := st\<rparr>) = client_inv path F c"
  by (simp add: client_inv_def)

lemma client_packet_ok:
  assumes "client_inv path F c" "0 \<notin> set path" "receiver (cl_received c) p = (st, None) \<or> (\<exists>m. from_server path F m \<and> receiver (cl_received c) p = (st, Some (serialize m)))"
  shows "\<exists>c'. client_packet p c = Some c' \<and> client_inv path F c'"
  using assms(3)
proof (elim disjE exE conjE)
  assume "receiver (cl_received c) p = (st, None)"
  then show ?thesis using assms(1) by (simp add: client_packet_def client_inv_received)
next
  fix m assume m: "from_server path F m" "receiver (cl_received c) p = (st, Some (serialize m))"
  have "client_inv path F (c\<lparr>cl_received := st\<rparr>)" using assms(1) by (simp add: client_inv_received)
  from client_onReceive_ok [OF this m(1) assms(2)] m(2) show ?thesis by (auto simp: client_packet_def give_def)
qed

lemma server_packet_ok:
  assumes "server_inv path F s" "fs path = Some F" "length (mBuffer md) = 64" "0 \<notin> set path"
    "receiver (sv_received s) p = (st, None) \<or> (\<exists>m. from_client path F m \<and> receiver (sv_received s) p = (st, Some (serialize m)))"
  shows "\<exists>s'. server_packet fs md bs client p now s = Some s' \<and> server_inv path F s'"
  using assms(5)
proof (elim disjE exE conjE)
  assume "receiver (sv_received s) p = (st, None)"
  then show ?thesis using assms(1) by (simp add: server_packet_def)
next
  fix m assume m: "from_client path F m" "receiver (sv_received s) p = (st, Some (serialize m))"
  have "server_inv path F (s\<lparr>sv_received := st\<rparr>)" using assms(1) by simp
  from server_onReceive_ok [where fs = fs and m = md, OF this assms(2,3) m(1) assms(4), of bs client now] m(2) show ?thesis
    by (auto simp: server_packet_def)
qed

lemma client_timer_inv:
  assumes "client_inv path F c"
  shows "client_inv path F (client_timer h now c)"
proof -
  obtain ch cb where r: "timer_round (cl_channel c) h now = (ch, cb)" by fastforce
  with assms timer_round_sends_only have "client_inv path F (c\<lparr>cl_channel := ch\<rparr>)" unfolding client_inv_def by fastforce
  then show ?thesis using r client_onTimeout_inv by (cases cb) (simp_all add: client_timer_def)
qed

lemma server_timer_inv:
  assumes "server_inv path F s"
  shows "server_inv path F (server_timer bs h now s)"
proof -
  obtain ch cb where r: "timer_round (sv_channel s) h now = (ch, cb)" by fastforce
  have "sends_only (carries (from_server path F)) ch" using assms timer_round_sends_only [OF _ r] unfolding server_inv_def by blast
  with assms have "server_inv path F (s\<lparr>sv_channel := ch\<rparr>)" by (rule server_inv_channel)
  then show ?thesis using r server_onTimeout_inv server_onRetry_inv by (cases cb) (simp_all add: server_timer_def)
qed

definition transfer_inv :: "bytes \<Rightarrow> bytes \<Rightarrow> client \<times> server \<Rightarrow> bool" where
  "transfer_inv path F = (\<lambda>(c, s). client_inv path F c \<and> server_inv path F s)"

lemma transfer_inv_step:
  assumes "fs path = Some F" "0 \<notin> set path" "length F < 2 ^ 64" "transfer_inv path F (c, s)" "rdt_step fs a (c, s) r"
  shows "\<exists>st. r = Some st \<and> transfer_inv path F st"
proof -
  have c: "client_inv path F c" "sends_only (carries (from_client path F)) (cl_channel c)" using assms(4) by (simp_all add: transfer_inv_def client_inv_def)
  have s: "server_inv path F s" "sends_only (carries (from_server path F)) (sv_channel s)" using assms(4) by (simp_all add: transfer_inv_def server_inv_def)
  show ?thesis
    using assms(5)
  proof (cases rule: rdt_stepE [consumes 1])
    case (1 opens now)
    from client_dispatch_inv [OF c(1) assms(3), of opens now] 1 s(1) show ?thesis by (auto simp: transfer_inv_def)
  next
    case (2 h now)
    then show ?thesis using client_timer_inv [OF c(1)] s(1) by (simp add: transfer_inv_def)
  next
    case (3 p IP port p')
    from packet_carries [OF s(2) 3(2,3)] client_packet_ok [OF c(1) assms(2)] obtain c' where "client_packet p' c = Some c'" "client_inv path F c'" by metis
    with 3 s(1) show ?thesis by (simp add: transfer_inv_def)
  next
    case (4 order packets now)
    from worker_round_ok [OF s(1), of order packets now] 4 c(1) show ?thesis by (auto simp: transfer_inv_def)
  next
    case (5 bs h now)
    then show ?thesis using server_timer_inv [OF s(1)] c(1) by (simp add: transfer_inv_def)
  next
    case (6 p IP port p' m bs now)
    from packet_carries [OF c(2) 6(2,3), of "sv_received s"]
      server_packet_ok [where fs = fs and md = m and p = p' and bs = bs and client = a and now = now, OF s(1) assms(1) 6(4) assms(2)]
    obtain s' where "server_packet fs m bs a p' now s = Some s'" "server_inv path F s'" by metis
    with 6 c(1) show ?thesis by (simp add: transfer_inv_def)
  qed
qed

lemma transfer_inv_reachable:
  assumes "fs path = Some F" "0 \<notin> set path" "length F < 2 ^ 64" "transfer_inv path F st" "rdt_reachable fs a st st'"
  shows "transfer_inv path F st'"
  using assms(5,4)
proof (induction rule: rdt_reachable.induct)
  case (later st' st'')
  then show ?case using transfer_inv_step [where fs = fs and a = a, OF assms(1-3), of "fst st'" "snd st'" "Some st''"] by auto
qed


definition new_client :: client where
  "new_client = \<lparr>cl_timeout = 1000, cl_retries = 5, cl_state = St_Idle, cl_channel = idle_channel,
     cl_received = \<lparr>mCorrupted = 0, mLost = 0, mSuccessful = 0\<rparr>, cl_handle = 0, cl_protocols = [], cl_IP = [], cl_port = 0, cl_file = [],
     cl_destination = [], cl_size = 0, cl_open = False, cl_output = [], cl_block = 0, cl_next = 0, cl_cache = Map.empty,
     cl_checksum = fresh_md5, cl_duplicate = 0, cl_events = []\<rparr>"

definition new_server :: server where
  "new_server = \<lparr>sv_timeout = 1000, sv_retries = 5, sv_channel = idle_channel, sv_received = \<lparr>mCorrupted = 0, mLost = 0, mSuccessful = 0\<rparr>,
     sv_running = True, sv_tasks = Map.empty, sv_MD5Cache = Map.empty, sv_events = []\<rparr>"


section \<open>The empty file\<close>

text \<open>
  There is no block of an empty file, so no message takes the client on from its state \<open>Data\<close>: in no reachable state has it asked for the
  checksum or finished.
\<close>

definition no_block :: "bytes \<Rightarrow> client \<Rightarrow> bool" where
  "no_block path c \<longleftrightarrow> client_inv path [] c \<and> cl_state c \<notin> {St_Acknowledge, St_Checksum, St_Confirm} \<and> \<not> finished c"

lemma client_send_state [simp]: "cl_state (client_send m t r now c) = cl_state c" "cl_events (client_send m t r now c) = cl_events c"
  by (simp_all add: client_send_def split: prod.split)

lemma wait_same: "cl_events (fst (client_wait t c)) = cl_events c" "snd (client_wait t c) \<noteq> Some True \<Longrightarrow> cl_state (fst (client_wait t c)) \<in> {cl_state c, St_Error}"
  by (auto simp: client_wait_def Let_def split: list.split)

lemma finished_events: "cl_events c = cl_events c' \<Longrightarrow> finished c = finished c'"
  by (simp add: finished_def)

lemma no_block_dispatch:
  assumes "no_block path c"
  shows "\<exists>c'. client_dispatch opens now c = Some c' \<and> no_block path c'"
proof -
  have inv: "client_inv path [] c" using assms by (simp add: no_block_def)
  from client_dispatch_inv [OF inv, of opens now] obtain c' where c': "client_dispatch opens now c = Some c'" "client_inv path [] c'" by auto
  have "cl_state c' \<notin> {St_Acknowledge, St_Checksum, St_Confirm} \<and> \<not> finished c'"
  proof (cases "cl_state c")
    case St_Query
    with c'(1) assms show ?thesis by (auto simp: client_dispatch_def give_def no_block_def client_query_def finished_def)
  next
    case St_Get
    with c'(1) assms show ?thesis by (auto simp: client_dispatch_def give_def no_block_def client_get_def finished_def)
  next
    case St_Size
    with c'(1) assms wait_same [of Size c] show ?thesis
      by (auto simp: client_dispatch_def client_size_def give_def no_block_def finished_def split: prod.splits option.splits bool.splits list.splits protocol.splits)
  next
    case St_Start
    with c'(1) assms wait_same [of Start c] show ?thesis
      by (auto simp: client_dispatch_def client_start_def give_def no_block_def finished_def Let_def cl_event_def split: prod.splits option.splits bool.splits if_splits)
  next
    case St_Data
    then have "cl_state c \<noteq> St_Idle" by simp
    from client_wait_cases [OF inv this, of Data] have "client_wait Data c = (c\<lparr>cl_protocols := []\<rparr>, None)"
      by cases (auto simp: from_server_def)
    with c'(1) assms St_Data show ?thesis by (auto simp: client_dispatch_def client_data_def give_def no_block_def)
  qed (use c' assms inv in \<open>auto simp: client_dispatch_def give_def no_block_def client_inv_def client_core_def\<close>)
  with c' show ?thesis by (simp add: no_block_def)
qed

lemma no_block_timer: "no_block path c \<Longrightarrow> no_block path (client_timer h now c)"
  using client_timer_inv [of path "[]" c h now]
  by (auto simp: no_block_def client_timer_def client_onTimeout_def cl_event_def finished_def Let_def split: prod.splits callback.splits)

lemma client_packet_same: "client_packet p c = Some c' \<Longrightarrow> cl_state c' \<in> {cl_state c, St_Idle} \<and> (finished c' \<longrightarrow> finished c)"
  by (auto simp: client_packet_def client_onReceive_def give_def Let_def split: prod.splits option.splits sum.splits)

lemma no_block_step:
  assumes "fs path = Some []" "0 \<notin> set path" "no_block path c" "server_inv path [] s" "rdt_step fs a (c, s) (Some (c', s'))"
  shows "no_block path c'"
proof -
  have "transfer_inv path [] (c, s)" using assms(3,4) by (simp add: transfer_inv_def no_block_def)
  from transfer_inv_step [where fs = fs, OF assms(1,2) _ this assms(5)] have inv: "client_inv path [] c'" by (simp add: transfer_inv_def)
  show ?thesis
    using assms(5)
  proof (cases rule: rdt_stepE [consumes 1])
    case (1 opens now)
    with no_block_dispatch [OF assms(3), of opens now] show ?thesis by auto
  next
    case (2 h now)
    with no_block_timer [OF assms(3)] show ?thesis by simp
  next
    case (3 p IP port p')
    then have "client_packet p' c = Some c'" by (auto simp: map_option_case split: option.splits)
    from client_packet_same [OF this] inv assms(3) show ?thesis by (auto simp: no_block_def)
  qed (use assms(3) in \<open>auto simp: map_option_case split: option.splits\<close>)
qed

lemma rdt_empty_file_waits:
  assumes "fs path = Some []" "0 \<notin> set path" "fresh_client c" "fresh_server s"
    "rdt_reachable fs a (client_download IP port path destination c, s) (c', s')"
  shows "cl_state c' \<notin> {St_Acknowledge, St_Checksum, St_Confirm} \<and> (\<forall>f n. Finished f n \<notin> set (cl_events c'))"
proof -
  let ?st = "(client_download IP port path destination c, s)"
  have start: "no_block path (fst ?st) \<and> server_inv path [] (snd ?st)"
    using fresh_client_inv [OF assms(3)] fresh_server_inv [OF assms(4)] assms(3)
    by (simp add: no_block_def client_download_def fresh_client_def finished_def)
  have "no_block path (fst (c', s')) \<and> server_inv path [] (snd (c', s'))"
    using assms(5)
  proof (induction rule: rdt_reachable.induct)
    case (later st st')
    have "transfer_inv path [] (fst st, snd st)" using later.IH by (cases st) (simp add: transfer_inv_def no_block_def)
    with transfer_inv_step [where fs = fs and a = a, OF assms(1,2), of "fst st" "snd st" "Some st'"] later.hyps(2) have "server_inv path [] (snd st')"
      by (auto simp: transfer_inv_def)
    moreover have "no_block path (fst st')"
      using no_block_step [where fs = fs and a = a, OF assms(1,2), of "fst st" "snd st" "fst st'" "snd st'"] later by simp
    ultimately show ?case by blast
  qed (rule start)
  then show ?thesis by (auto simp: no_block_def finished_def)
qed

end
