(* ===== verification/STL_Result.thy ===== *)
theory STL_Result
  imports Prelude
begin

text \<open>
  \<open>CS0501 Data Structure/STLite/exceptions.hpp\<close>: the exceptions the containers throw.  A result is undefined (\<open>None\<close>), an exception
  (\<open>Inl\<close>), or a value.
\<close>

datatype stl_error = index_out_of_bound | runtime_error | invalid_iterator | container_is_empty

type_synonym 'a result = "(stl_error + 'a) option"

definition throws :: "stl_error \<Rightarrow> 'a result" where
  "throws e = Some (Inl e)"

definition returns :: "'a \<Rightarrow> 'a result" where
  "returns x = Some (Inr x)"

lemma result_simps [simp]: "throws e \<noteq> returns x" "returns x \<noteq> throws e" "throws e \<noteq> None" "returns x \<noteq> None" "None \<noteq> throws e" "None \<noteq> returns x"
  "returns x = returns y \<longleftrightarrow> x = y" "throws e = throws e' \<longleftrightarrow> e = e'"
  by (simp_all add: throws_def returns_def)

definition after :: "'a result \<Rightarrow> ('a \<Rightarrow> 'b result) \<Rightarrow> 'b result" where
  "after r f = (case r of None \<Rightarrow> None | Some (Inl e) \<Rightarrow> Some (Inl e) | Some (Inr x) \<Rightarrow> f x)"

lemma after_simps [simp]: "after None f = None" "after (throws e) f = throws e" "after (returns x) f = f x"
  by (simp_all add: after_def throws_def returns_def)

end
