(* ===== verification/Array_Algorithms.thy ===== *)
theory Array_Algorithms
  imports C_Int
begin

text \<open>
  \<open>CS0501 Data Structure/STLite/algorithm.hpp\<close>: quicksort between two pointers, and the two binary searches.

  A pointer into the array is an index; \<open>end - 1\<close> may lie before the array.  An access outside the array and an overflow of
  \<open>int\<close> are undefined (\<open>None\<close>), as is a loop that does not end.  \<open>cmp\<close> is the comparison the caller passes.
\<close>

section \<open>\<open>sort\<close>\<close>

definition ptr_get :: "'a list \<Rightarrow> int \<Rightarrow> 'a option" where
  "ptr_get a p = (if 0 \<le> p then arr_get a (nat p) else None)"

definition ptr_swap :: "'a list \<Rightarrow> int \<Rightarrow> int \<Rightarrow> 'a list option" where
  "ptr_swap a i j = do { x \<leftarrow> ptr_get a i; y \<leftarrow> ptr_get a j; Some (a[nat i := y, nat j := x]) }"

partial_function (option) scan_up :: "('a \<Rightarrow> 'a \<Rightarrow> bool) \<Rightarrow> 'a list \<Rightarrow> 'a \<Rightarrow> int \<Rightarrow> int option" where
  "scan_up cmp a pivot i = do { x \<leftarrow> ptr_get a i; if cmp x pivot then scan_up cmp a pivot (i + 1) else Some i }"

partial_function (option) scan_down :: "('a \<Rightarrow> 'a \<Rightarrow> bool) \<Rightarrow> 'a list \<Rightarrow> 'a \<Rightarrow> int \<Rightarrow> int option" where
  "scan_down cmp a pivot j = do { x \<leftarrow> ptr_get a j; if cmp pivot x then scan_down cmp a pivot (j - 1) else Some j }"

partial_function (option) partition_loop :: "('a \<Rightarrow> 'a \<Rightarrow> bool) \<Rightarrow> 'a \<Rightarrow> 'a list \<Rightarrow> int \<Rightarrow> int \<Rightarrow> ('a list \<times> int \<times> int) option" where
  "partition_loop cmp pivot a i j = (
     if 0 \<le> j - i then do {
       i \<leftarrow> scan_up cmp a pivot i;
       j \<leftarrow> scan_down cmp a pivot j;
       if 0 \<le> j - i then do { a \<leftarrow> ptr_swap a i j; partition_loop cmp pivot a (i + 1) (j - 1) }
       else partition_loop cmp pivot a i j }
     else Some (a, i, j))"

partial_function (option) stl_sort :: "('a \<Rightarrow> 'a \<Rightarrow> bool) \<Rightarrow> int \<Rightarrow> int \<Rightarrow> 'a list \<Rightarrow> 'a list option" where
  "stl_sort cmp begin end a = (
     let len = as_int (end - begin) in
     if len \<le> 1 then Some a
     else do {
       ensure (len + 1 < 2 ^ 31);
       pivot \<leftarrow> ptr_get a (begin + (len + 1) div 2 - 1);
       (a, i, j) \<leftarrow> partition_loop cmp pivot a begin (end - 1);
       a \<leftarrow> (if 0 < j - begin then stl_sort cmp begin i a else Some a);
       if 1 < end - i then stl_sort cmp i end a else Some a })"

section \<open>What the comparison must be\<close>

locale comparison =
  fixes cmp :: "'a \<Rightarrow> 'a \<Rightarrow> bool"
  assumes asym: "cmp x y \<Longrightarrow> \<not> cmp y x"
    and trans: "\<not> cmp x y \<Longrightarrow> \<not> cmp y z \<Longrightarrow> \<not> cmp x z"
begin

lemma refl: "\<not> cmp x x"
  using asym by blast

end

text \<open>The elements of a part of the array, and an array that differs from another in a permutation of that part.\<close>

definition at :: "'a list \<Rightarrow> int \<Rightarrow> 'a" where
  "at a k = a ! nat k"

definition part :: "'a list \<Rightarrow> int \<Rightarrow> int \<Rightarrow> 'a multiset" where
  "part a b e = image_mset (at a) (mset_set {b..<e})"

definition permuted :: "int \<Rightarrow> int \<Rightarrow> 'a list \<Rightarrow> 'a list \<Rightarrow> bool" where
  "permuted b e a a' \<longleftrightarrow> length a' = length a \<and> part a' b e = part a b e \<and> (\<forall>k \<ge> 0. k \<notin> {b..<e} \<longrightarrow> at a' k = at a k)"

lemma permuted_refl: "permuted b e a a"
  by (simp add: permuted_def)

lemma permuted_trans: "permuted b e a a' \<Longrightarrow> permuted b e a' a'' \<Longrightarrow> permuted b e a a''"
  by (simp add: permuted_def)

lemma piece_split: "b \<le> m \<Longrightarrow> m \<le> e \<Longrightarrow> part a b e = part a b m + part a m e"
proof -
  assume "b \<le> m" "m \<le> e"
  then have "mset_set {b..<e} = mset_set {b..<m} + mset_set {m..<e}"
    by (subst mset_set_Union [symmetric]) (auto simp: ivl_disj_un)
  then show ?thesis by (simp add: part_def)
qed

lemma piece_cong: "(\<And>k. b \<le> k \<Longrightarrow> k < e \<Longrightarrow> at a' k = at a k) \<Longrightarrow> part a' b e = part a b e"
  unfolding part_def by (rule image_mset_cong) simp

text \<open>A permutation of a smaller part is one of the larger part.\<close>

lemma permuted_wider:
  assumes "permuted b e a a'" "b' \<le> b" "b \<le> e" "e \<le> e'" "0 \<le> b'"
  shows "permuted b' e' a a'"
proof -
  have "part a' b' b = part a b' b" "part a' e e' = part a e e'"
    using assms by (auto simp: permuted_def intro!: piece_cong)
  then have "part a' b' e' = part a b' e'"
    using assms piece_split [of b' b e' a'] piece_split [of b' b e' a] piece_split [of b e e' a'] piece_split [of b e e' a]
    by (simp add: permuted_def)
  moreover have "at a' k = at a k" if "0 \<le> k" "k \<notin> {b'..<e'}" for k
  proof -
    have "k \<notin> {b..<e}" using that assms(2,4) by auto
    with assms(1) that(1) show ?thesis by (simp add: permuted_def)
  qed
  ultimately show ?thesis using assms(1) by (simp add: permuted_def)
qed

lemma permuted_all:
  assumes "permuted b e a a'" "\<And>k. b \<le> k \<Longrightarrow> k < e \<Longrightarrow> P (at a k)" "b \<le> k" "k < e"
  shows "P (at a' k)"
proof -
  have "at a' k \<in># part a' b e" using assms(3,4) by (simp add: part_def)
  then have "at a' k \<in># part a b e" using assms(1) by (simp add: permuted_def)
  with assms(2) show ?thesis by (auto simp: part_def)
qed

lemma at_update: "0 \<le> i \<Longrightarrow> i < int (length a) \<Longrightarrow> 0 \<le> k \<Longrightarrow> at (a[nat i := x]) k = (if k = i then x else at a k)"
  by (auto simp: at_def nth_list_update)

lemma ptr_get_in: "0 \<le> p \<Longrightarrow> p < int (length a) \<Longrightarrow> ptr_get a p = Some (at a p)"
  by (simp add: ptr_get_def at_def)

lemma ptr_swap_permuted:
  assumes "0 \<le> b" "e \<le> int (length a)" "b \<le> i" "i < e" "b \<le> j" "j < e"
  shows "\<exists>a'. ptr_swap a i j = Some a' \<and> permuted b e a a' \<and> at a' i = at a j \<and> at a' j = at a i \<and>
    (\<forall>k \<ge> 0. k \<noteq> i \<longrightarrow> k \<noteq> j \<longrightarrow> at a' k = at a k)"
proof -
  define a' where "a' = a[nat i := at a j, nat j := at a i]"
  have a': "at a' k = (if k = j then at a i else if k = i then at a j else at a k)" if "0 \<le> k" for k
    using that assms by (simp add: a'_def at_update)
  define s where "s = (\<lambda>k. if k = i then j else if k = j then i else k)"
  have "inj_on s {b..<e}" "s ` {b..<e} = {b..<e}"
  proof -
    show "inj_on s {b..<e}" by (auto simp: inj_on_def s_def split: if_splits)
    have "s (s k) = k" "k \<in> {b..<e} \<Longrightarrow> s k \<in> {b..<e}" for k using assms by (auto simp: s_def)
    then show "s ` {b..<e} = {b..<e}" by (metis image_eqI subsetI subset_antisym image_subsetI)
  qed
  then have "image_mset s (mset_set {b..<e}) = mset_set {b..<e}" by (simp add: image_mset_mset_set)
  then have "part a b e = image_mset (at a) (image_mset s (mset_set {b..<e}))" by (simp add: part_def)
  also have "\<dots> = part a' b e"
    unfolding part_def image_mset.compositionality using assms(1) by (intro image_mset_cong) (auto simp: a' s_def)
  finally have "permuted b e a a'" using a' assms by (auto simp: permuted_def a'_def)
  moreover have "ptr_swap a i j = Some a'" using assms by (simp add: ptr_swap_def ptr_get_in a'_def)
  ultimately show ?thesis using a' assms by auto
qed

section \<open>Partition\<close>

context comparison
begin

text \<open>A scan stops at a sentinel at the latest.\<close>

lemma scan_up_stops:
  assumes "0 \<le> i" "i \<le> k" "k < int (length a)" "\<not> cmp (at a k) p"
  shows "\<exists>i'. scan_up cmp a p i = Some i' \<and> i \<le> i' \<and> i' \<le> k \<and> \<not> cmp (at a i') p \<and> (\<forall>m. i \<le> m \<longrightarrow> m < i' \<longrightarrow> cmp (at a m) p)"
  using assms
proof (induction "nat (k - i)" arbitrary: i rule: less_induct)
  case less
  show ?case
  proof (cases "cmp (at a i) p")
    case True
    with less.prems have "i < k" by (cases "i = k") auto
    then have "nat (k - (i + 1)) < nat (k - i)" "0 \<le> i + 1" "i + 1 \<le> k" using less.prems by auto
    from less.hyps [OF this less.prems(3,4)] obtain i' where i': "scan_up cmp a p (i + 1) = Some i'" "i + 1 \<le> i'" "i' \<le> k" "\<not> cmp (at a i') p"
      "\<And>m. i + 1 \<le> m \<Longrightarrow> m < i' \<Longrightarrow> cmp (at a m) p" by blast
    have "scan_up cmp a p i = Some i'" using less.prems True i'(1) by (subst scan_up.simps) (simp add: ptr_get_in)
    moreover have "cmp (at a m) p" if "i \<le> m" "m < i'" for m using i'(5) [of m] that True by (cases "m = i") auto
    ultimately show ?thesis using i' by auto
  next
    case False
    then have "scan_up cmp a p i = Some i" using less.prems by (subst scan_up.simps) (simp add: ptr_get_in)
    with False less.prems show ?thesis by auto
  qed
qed

lemma scan_down_stops:
  assumes "0 \<le> k" "k \<le> j" "j < int (length a)" "\<not> cmp p (at a k)"
  shows "\<exists>j'. scan_down cmp a p j = Some j' \<and> k \<le> j' \<and> j' \<le> j \<and> \<not> cmp p (at a j') \<and> (\<forall>m. j' < m \<longrightarrow> m \<le> j \<longrightarrow> cmp p (at a m))"
  using assms
proof (induction "nat (j - k)" arbitrary: j rule: less_induct)
  case less
  show ?case
  proof (cases "cmp p (at a j)")
    case True
    with less.prems have "k < j" by (cases "j = k") auto
    then have "nat (j - 1 - k) < nat (j - k)" "k \<le> j - 1" "j - 1 < int (length a)" using less.prems by auto
    from less.hyps [OF this(1) less.prems(1) this(2,3) less.prems(4)] obtain j' where
      j': "scan_down cmp a p (j - 1) = Some j'" "k \<le> j'" "j' \<le> j - 1" "\<not> cmp p (at a j')" "\<And>m. j' < m \<Longrightarrow> m \<le> j - 1 \<Longrightarrow> cmp p (at a m)" by blast
    have "scan_down cmp a p j = Some j'" using less.prems True j'(1) by (subst scan_down.simps) (simp add: ptr_get_in)
    moreover have "cmp p (at a m)" if "j' < m" "m \<le> j" for m using j'(5) [of m] that True by (cases "m = j") auto
    ultimately show ?thesis using j' by auto
  next
    case False
    then have "scan_down cmp a p j = Some j" using less.prems by (subst scan_down.simps) (simp add: ptr_get_in)
    with False less.prems show ?thesis by auto
  qed
qed

text \<open>Nothing before \<open>i\<close> is above the pivot and nothing after \<open>j\<close> below it.\<close>

definition parted :: "'a \<Rightarrow> int \<Rightarrow> int \<Rightarrow> 'a list \<Rightarrow> int \<Rightarrow> int \<Rightarrow> bool" where
  "parted p b e a i j \<longleftrightarrow> 0 \<le> b \<and> e \<le> int (length a) \<and> b \<le> i \<and> j < e \<and> (\<forall>k. b \<le> k \<longrightarrow> k < i \<longrightarrow> \<not> cmp p (at a k)) \<and>
     (\<forall>k. j < k \<longrightarrow> k < e \<longrightarrow> \<not> cmp (at a k) p)"

text \<open>A round of the loop, given the sentinels \<open>u\<close> for the scan up and \<open>d\<close> for the scan down.\<close>

lemma partition_round:
  assumes "parted p b e a i j" "i \<le> j" "i \<le> u" "u < e" "\<not> cmp (at a u) p" "b \<le> d" "d \<le> j" "\<not> cmp p (at a d)"
    and "u \<le> j + 1" "i \<le> d + 1"
  shows "\<exists>i' j'. i \<le> i' \<and> i' \<le> u \<and> d \<le> j' \<and> j' \<le> j \<and>
    (if i' \<le> j' then \<exists>a'. permuted b e a a' \<and> parted p b e a' (i' + 1) (j' - 1) \<and>
         partition_loop cmp p a i j = partition_loop cmp p a' (i' + 1) (j' - 1)
     else partition_loop cmp p a i j = Some (a, i', j') \<and> parted p b e a i' j' \<and> i' \<le> j' + 1)"
proof -
  have bounds: "0 \<le> b" "e \<le> int (length a)" "b \<le> i" "j < e" using assms(1) by (simp_all add: parted_def)
  obtain i' where i': "scan_up cmp a p i = Some i'" "i \<le> i'" "i' \<le> u" "\<not> cmp (at a i') p" "\<And>m. i \<le> m \<Longrightarrow> m < i' \<Longrightarrow> cmp (at a m) p"
    using scan_up_stops [of i u a p] assms(3-5) bounds by auto
  obtain j' where j': "scan_down cmp a p j = Some j'" "d \<le> j'" "j' \<le> j" "\<not> cmp p (at a j')" "\<And>m. j' < m \<Longrightarrow> m \<le> j \<Longrightarrow> cmp p (at a m)"
    using scan_down_stops [of d j a p] assms(6-8) bounds by auto
  have low: "\<not> cmp p (at a k)" if "b \<le> k" "k < i'" for k
    using assms(1) i'(5) [of k] asym that unfolding parted_def by (cases "k < i") auto
  have high: "\<not> cmp (at a k) p" if "j' < k" "k < e" for k
    using assms(1) j'(5) [of k] asym that unfolding parted_def by (cases "j < k") auto
  have loop: "partition_loop cmp p a i j =
      (if 0 \<le> j' - i' then do { a \<leftarrow> ptr_swap a i' j'; partition_loop cmp p a (i' + 1) (j' - 1) } else partition_loop cmp p a i' j')"
    using assms(2) i'(1) j'(1) by (subst partition_loop.simps) simp
  show ?thesis
  proof (cases "i' \<le> j'")
    case True
    have "b \<le> i'" "i' < e" "b \<le> j'" "j' < e" using i' j' bounds assms(4,6) by auto
    from ptr_swap_permuted [OF bounds(1,2) this] obtain a' where a': "ptr_swap a i' j' = Some a'" "permuted b e a a'" "at a' i' = at a j'" "at a' j' = at a i'"
      "\<And>k. 0 \<le> k \<Longrightarrow> k \<noteq> i' \<Longrightarrow> k \<noteq> j' \<Longrightarrow> at a' k = at a k" by blast
    have "\<not> cmp p (at a' k)" if "b \<le> k" "k < i' + 1" for k
      using that low [of k] a'(3,5) j'(4) bounds True by (cases "k = i'") auto
    moreover have "\<not> cmp (at a' k) p" if "j' - 1 < k" "k < e" for k
      using that high [of k] a'(4,5) i'(4) bounds True \<open>b \<le> i'\<close> by (cases "k = j'") auto
    moreover have "length a' = length a" using a'(2) by (simp add: permuted_def)
    ultimately have "parted p b e a' (i' + 1) (j' - 1)" using bounds \<open>b \<le> i'\<close> \<open>j' < e\<close> by (simp add: parted_def)
    with True a'(1,2) i'(2,3) j'(2,3) loop show ?thesis by (intro exI [of _ i'] exI [of _ j']) auto
  next
    case False
    then have "partition_loop cmp p a i' j' = Some (a, i', j')" by (subst partition_loop.simps) simp
    moreover have "parted p b e a i' j'" using low high bounds i'(2) j'(3) by (simp add: parted_def)
    moreover have "i' \<le> j' + 1"
    proof (cases "j' < j")
      case True
      then have "\<not> cmp (at a (j' + 1)) p" using j'(5) [of "j' + 1"] asym by auto
      moreover have "i \<le> j' + 1" using assms(10) j'(2) by simp
      ultimately show ?thesis using i'(5) [of "j' + 1"] by linarith
    qed (use i'(3) j'(3) assms(9) in auto)
    ultimately show ?thesis using False loop i'(2,3) j'(2,3) by (intro exI [of _ i'] exI [of _ j']) auto
  qed
qed

text \<open>The loop after its first exchange.  The last exchanged elements are the sentinels.\<close>

lemma partition_rest:
  assumes "parted p b e a i j" "b < i" "i < e" "j < e - 1" "i \<le> j + 2"
  shows "\<exists>a' i' j'. partition_loop cmp p a i j = Some (a', i', j') \<and> permuted b e a a' \<and> parted p b e a' i' j' \<and> b < i' \<and> i' < e \<and> j' < i' \<and> i' \<le> j' + 2"
  using assms
proof (induction "nat (j - i + 1)" arbitrary: a i j rule: less_induct)
  case less
  show ?case
  proof (cases "i \<le> j")
    case False
    then have "partition_loop cmp p a i j = Some (a, i, j)" by (subst partition_loop.simps) simp
    with False less.prems permuted_refl show ?thesis by fastforce
  next
    case True
    have "\<not> cmp (at a (j + 1)) p" "\<not> cmp p (at a (i - 1))" using less.prems by (simp_all add: parted_def)
    with partition_round [OF less.prems(1) True, of "j + 1" "i - 1"] less.prems True obtain i' j' where
      ij: "i \<le> i'" "i' \<le> j + 1" "i - 1 \<le> j'" "j' \<le> j"
      "if i' \<le> j' then \<exists>a'. permuted b e a a' \<and> parted p b e a' (i' + 1) (j' - 1) \<and>
         partition_loop cmp p a i j = partition_loop cmp p a' (i' + 1) (j' - 1)
       else partition_loop cmp p a i j = Some (a, i', j') \<and> parted p b e a i' j' \<and> i' \<le> j' + 1"
      by auto
    show ?thesis
    proof (cases "i' \<le> j'")
      case True
      with ij(5) obtain a' where a': "permuted b e a a'" "parted p b e a' (i' + 1) (j' - 1)"
        "partition_loop cmp p a i j = partition_loop cmp p a' (i' + 1) (j' - 1)" by auto
      have "nat (j' - 1 - (i' + 1) + 1) < nat (j - i + 1)" "b < i' + 1" "i' + 1 < e" "j' - 1 < e - 1" "i' + 1 \<le> j' - 1 + 2"
        using ij(1-4) True less.prems by auto
      from less.hyps [OF this(1) a'(2) this(2-5)] a'(1,3) permuted_trans show ?thesis by fastforce
    next
      case False
      with ij less.prems permuted_refl [of b e a] show ?thesis by fastforce
    qed
  qed
qed

lemma partition_parts:
  assumes "0 \<le> b" "b < m" "m \<le> e - 1" "e \<le> int (length a)" "p = at a (m - 1)"
  shows "\<exists>a' i j. partition_loop cmp p a b (e - 1) = Some (a', i, j) \<and> permuted b e a a' \<and> parted p b e a' i j \<and> b < i \<and> i < e \<and> j < i \<and> i \<le> j + 2"
proof -
  have "parted p b e a b (e - 1)" using assms by (simp add: parted_def)
  with partition_round [of p b e a b "e - 1" "m - 1" "m - 1"] assms refl obtain i' j' where
    ij: "b \<le> i'" "i' \<le> m - 1" "m - 1 \<le> j'" "j' \<le> e - 1"
    "if i' \<le> j' then \<exists>a'. permuted b e a a' \<and> parted p b e a' (i' + 1) (j' - 1) \<and>
       partition_loop cmp p a b (e - 1) = partition_loop cmp p a' (i' + 1) (j' - 1)
     else partition_loop cmp p a b (e - 1) = Some (a, i', j') \<and> parted p b e a i' j' \<and> i' \<le> j' + 1"
    by auto
  then obtain a' where a': "permuted b e a a'" "parted p b e a' (i' + 1) (j' - 1)"
    "partition_loop cmp p a b (e - 1) = partition_loop cmp p a' (i' + 1) (j' - 1)" by auto
  have "b < i' + 1" "i' + 1 < e" "j' - 1 < e - 1" "i' + 1 \<le> j' - 1 + 2" using ij(1-4) assms by auto
  from partition_rest [OF a'(2) this] a'(1,3) permuted_trans show ?thesis by fastforce
qed

section \<open>The recursion\<close>

definition ordered :: "int \<Rightarrow> int \<Rightarrow> 'a list \<Rightarrow> bool" where
  "ordered b e a \<longleftrightarrow> (\<forall>k l. b \<le> k \<longrightarrow> k < l \<longrightarrow> l < e \<longrightarrow> \<not> cmp (at a l) (at a k))"

lemma sort_returns:
  assumes "0 \<le> b" "b \<le> e" "e \<le> int (length a)" "int (length a) < 2 ^ 31 - 1"
  shows "\<exists>a'. stl_sort cmp b e a = Some a' \<and> permuted b e a a' \<and> ordered b e a'"
  using assms
proof (induction "nat (e - b)" arbitrary: a b e rule: less_induct)
  case less
  have len: "as_int (e - b) = e - b" using less.prems by (intro as_int_id) auto
  show ?case
  proof (cases "e - b \<le> 1")
    case True
    then have "stl_sort cmp b e a = Some a" using len by (subst stl_sort.simps) (simp add: Let_def)
    with True permuted_refl show ?thesis by (force simp: ordered_def)
  next
    case False
    define m where "m = b + (e - b + 1) div 2"
    define p where "p = at a (m - 1)"
    have m: "b < m" "m \<le> e - 1" using False by (auto simp: m_def)
    then have get: "ptr_get a (m - 1) = Some p" using less.prems by (simp add: p_def ptr_get_in)
    from partition_parts [OF less.prems(1) m less.prems(3) p_def] obtain a1 i j where
      a1: "partition_loop cmp p a b (e - 1) = Some (a1, i, j)" "permuted b e a a1" "parted p b e a1 i j" "b < i" "i < e" "j < i" "i \<le> j + 2" by blast
    have len1: "length a1 = length a" using a1(2) by (simp add: permuted_def)
    have "\<exists>a2. (if 0 < j - b then stl_sort cmp b i a1 else Some a1) = Some a2 \<and> permuted b i a1 a2 \<and> ordered b i a2"
    proof (cases "0 < j - b")
      case True
      then show ?thesis using less.hyps [of i b a1] less.prems len1 a1(4,5) by simp
    next
      case False
      have "\<not> cmp (at a1 l) (at a1 k)" if "b \<le> k" "k < l" "l < i" for k l
      proof -
        from that False a1(7) have "k = b" "l = b + 1" "j < l" by linarith+
        then have "\<not> cmp (at a1 l) p" "\<not> cmp p (at a1 k)" using a1(3,5) that by (auto simp: parted_def)
        then show ?thesis by (rule trans)
      qed
      with False permuted_refl show ?thesis by (auto simp: ordered_def)
    qed
    then obtain a2 where a2: "(if 0 < j - b then stl_sort cmp b i a1 else Some a1) = Some a2" "permuted b i a1 a2" "ordered b i a2" by blast
    have len2: "length a2 = length a" using a2(2) len1 by (simp add: permuted_def)
    have "\<exists>a3. (if 1 < e - i then stl_sort cmp i e a2 else Some a2) = Some a3 \<and> permuted i e a2 a3 \<and> ordered i e a3"
    proof (cases "1 < e - i")
      case True
      then show ?thesis using less.hyps [of e i a2] less.prems len2 a1(4,5) by simp
    next
      case False
      then show ?thesis using permuted_refl by (force simp: ordered_def)
    qed
    then obtain a3 where a3: "(if 1 < e - i then stl_sort cmp i e a2 else Some a2) = Some a3" "permuted i e a2 a3" "ordered i e a3" by blast
    have "m - 1 = b + (e - b + 1) div 2 - 1" by (simp add: m_def)
    then have sort: "stl_sort cmp b e a = Some a3"
      using len False less.prems get a1(1) a2(1) a3(1) by (subst stl_sort.simps) (simp add: Let_def)
    have perm: "permuted b e a a3"
      using a1(2) permuted_wider [OF a2(2), of b e] permuted_wider [OF a3(2), of b e] a1(4,5) less.prems(1) permuted_trans by (metis less_imp_le order_refl)
    have left: "at a3 k = at a2 k" if "b \<le> k" "k < i" for k using a3(2) that less.prems(1) by (simp add: permuted_def)
    have right: "at a2 k = at a1 k" if "i \<le> k" "k < e" for k using a2(2) that less.prems(1) a1(4) by (simp add: permuted_def)
    have low: "\<not> cmp p (at a3 k)" if k: "b \<le> k" "k < i" for k
      using permuted_all [OF a2(2), of "\<lambda>x. \<not> cmp p x", OF _ k] a1(3) left [OF k] by (simp add: parted_def)
    have high: "\<not> cmp (at a3 k) p" if k: "i \<le> k" "k < e" for k
      using permuted_all [OF a3(2), of "\<lambda>x. \<not> cmp x p", OF _ k] a1(3,6) right by (simp add: parted_def)
    have "\<not> cmp (at a3 l) (at a3 k)" if kl: "b \<le> k" "k < l" "l < e" for k l
    proof -
      consider "l < i" | "i \<le> k" | "k < i" "i \<le> l" by linarith
      then show ?thesis
      proof cases
        case 1
        then show ?thesis using a2(3) left [of k] left [of l] kl by (simp add: ordered_def)
      next
        case 2
        then show ?thesis using a3(3) kl by (simp add: ordered_def)
      next
        case 3
        then show ?thesis using trans [OF high [of l] low [of k]] kl by simp
      qed
    qed
    then show ?thesis using sort perm by (auto simp: ordered_def)
  qed
qed

lemma part_whole: "part a 0 (int (length a)) = mset a"
proof -
  have "mset_set {0..<int (length a)} = image_mset int (mset_set {0..<length a})"
    by (subst image_mset_mset_set) (simp_all add: image_int_atLeastLessThan)
  then have "part a 0 (int (length a)) = image_mset (\<lambda>k. a ! k) (mset_set {0..<length a})"
    by (simp add: part_def at_def image_mset.compositionality comp_def)
  also have "\<dots> = mset (map ((!) a) [0..<length a])" by (simp add: mset_map flip: mset_upt)
  finally show ?thesis by (simp add: map_nth)
qed

lemma sort_whole:
  assumes "int (length a) < 2 ^ 31 - 1"
  shows "\<exists>a'. stl_sort cmp 0 (int (length a)) a = Some a' \<and> mset a' = mset a \<and> sorted_wrt (\<lambda>x y. \<not> cmp y x) a'"
proof -
  from sort_returns [of 0 "int (length a)" a] assms obtain a' where a': "stl_sort cmp 0 (int (length a)) a = Some a'"
    "permuted 0 (int (length a)) a a'" "ordered 0 (int (length a)) a'" by auto
  have len: "length a' = length a" using a'(2) by (simp add: permuted_def)
  then have "mset a' = mset a" using a'(2) part_whole [of a] part_whole [of a'] by (simp add: permuted_def)
  moreover have "sorted_wrt (\<lambda>x y. \<not> cmp y x) a'"
    unfolding sorted_wrt_iff_nth_less
  proof (intro allI impI)
    fix k l assume "k < l" "l < length a'"
    then have "\<not> cmp (at a' (int l)) (at a' (int k))" using a'(3) len by (simp add: ordered_def)
    then show "\<not> cmp (a' ! l) (a' ! k)" by (simp add: at_def)
  qed
  ultimately show ?thesis using a'(1) by blast
qed

end

text \<open>The comparison by \<open><\<close> of \<open>std::less\<close>.\<close>

interpretation less: comparison "(<) :: 'a::linorder \<Rightarrow> 'a \<Rightarrow> bool"
  by unfold_locales auto

lemma stl_sort_less:
  assumes "int (length (a :: 'a::linorder list)) < 2 ^ 31 - 1"
  shows "stl_sort (<) 0 (int (length a)) a = Some (sort a)"
proof -
  from less.sort_whole [OF assms] obtain a' where a': "stl_sort (<) 0 (int (length a)) a = Some a'" "mset a' = mset a"
    "sorted_wrt (\<lambda>x y. \<not> y < x) a'" by blast
  then have "sorted a'" by (simp add: not_less)
  with a'(2) have "sort a = a'" by (intro properties_for_sort) simp_all
  with a'(1) show ?thesis by simp
qed



text \<open>With a comparison that holds of equal elements the scan runs off the array.\<close>

lemma stl_sort_not_strict: "stl_sort (\<le>) 0 2 [7, 7 :: int] = None"
proof -
  have "scan_up (\<le>) [7, 7 :: int] 7 2 = None" by (subst scan_up.simps) (simp add: ptr_get_def arr_get_def)
  then have "scan_up (\<le>) [7, 7 :: int] 7 1 = None" by (subst scan_up.simps) (simp add: ptr_get_def)
  then have "scan_up (\<le>) [7, 7 :: int] 7 0 = None" by (subst scan_up.simps) (simp add: ptr_get_def)
  then have "partition_loop (\<le>) 7 [7, 7 :: int] 0 1 = None" by (subst partition_loop.simps) simp
  moreover have "as_int 2 = 2" by (rule as_int_id) simp_all
  ultimately show ?thesis by (subst stl_sort.simps) (simp add: ptr_get_def)
qed

section \<open>\<open>upper_bound\<close> and \<open>lower_bound\<close>\<close>

definition middle :: "int \<Rightarrow> int \<Rightarrow> int option" where
  "middle l r = do { ensure (l + r < 2 ^ 31); Some ((l + r) div 2) }"

text \<open>The loop of both: \<open>left\<close> is the condition under which the right end moves.\<close>

partial_function (option) bisect :: "('a \<Rightarrow> bool) \<Rightarrow> 'a list \<Rightarrow> int \<Rightarrow> int \<Rightarrow> int option" where
  "bisect left a l r = (
     if l + 1 < r then do {
       mid \<leftarrow> middle l r;
       x \<leftarrow> ptr_get a mid;
       if left x then bisect left a l mid else bisect left a mid r }
     else Some r)"

definition upper_bound :: "'a::linorder list \<Rightarrow> 'a \<Rightarrow> int option" where
  "upper_bound a num = bisect (\<lambda>x. num < x) a (- 1) (as_int (int (length a)))"

definition lower_bound :: "'a::linorder list \<Rightarrow> 'a \<Rightarrow> int option" where
  "lower_bound a num = bisect (\<lambda>x. num \<le> x) a (- 1) (as_int (int (length a)))"

lemma bisect_returns:
  assumes "- 1 \<le> l" "l < r" "r \<le> int (length a)" "length a \<le> 2 ^ 30"
    "\<And>k. 0 \<le> k \<Longrightarrow> k \<le> l \<Longrightarrow> \<not> left (at a k)" "\<And>k. r \<le> k \<Longrightarrow> k < int (length a) \<Longrightarrow> left (at a k)"
    and up: "\<And>k m. 0 \<le> k \<Longrightarrow> k \<le> m \<Longrightarrow> m < int (length a) \<Longrightarrow> left (at a k) \<Longrightarrow> left (at a m)"
  shows "\<exists>r'. bisect left a l r = Some r' \<and> 0 \<le> r' \<and> r' \<le> int (length a) \<and> (\<forall>k. 0 \<le> k \<longrightarrow> k < int (length a) \<longrightarrow> (left (at a k) \<longleftrightarrow> r' \<le> k))"
  using assms(1-6)
proof (induction "nat (r - l)" arbitrary: l r rule: less_induct)
  case less
  show ?case
  proof (cases "l + 1 < r")
    case True
    define mid where "mid = (l + r) div 2"
    have mid: "l < mid" "mid < r" "0 \<le> mid" "l + r < 2 ^ 31" using True less.prems(1,3,4) by (auto simp: mid_def)
    then have "ptr_get a mid = Some (at a mid)" using less.prems(3) by (simp add: ptr_get_in)
    then have step: "bisect left a l r = (if left (at a mid) then bisect left a l mid else bisect left a mid r)"
      using True mid(4) by (subst bisect.simps) (simp add: middle_def mid_def)
    show ?thesis
    proof (cases "left (at a mid)")
      case True
      then have "left (at a k)" if "mid \<le> k" "k < int (length a)" for k using up [of mid k] that mid(3) by simp
      then show ?thesis using less.hyps [of mid l] less.prems mid True step by simp
    next
      case False
      then have "\<not> left (at a k)" if "0 \<le> k" "k \<le> mid" for k using up [of k mid] that mid less.prems(3) by auto
      then show ?thesis using less.hyps [of r mid] less.prems mid False step by simp
    qed
  next
    case False
    then have "bisect left a l r = Some r" by (subst bisect.simps) simp
    moreover have "left (at a k) \<longleftrightarrow> r \<le> k" if "0 \<le> k" "k < int (length a)" for k
      using less.prems(5,6) [of k] that False less.prems(2) by (cases "r \<le> k") auto
    ultimately show ?thesis using less.prems by auto
  qed
qed

lemma bisect_count:
  assumes "length a \<le> 2 ^ 30" "\<And>k m. 0 \<le> k \<Longrightarrow> k \<le> m \<Longrightarrow> m < int (length a) \<Longrightarrow> left (at a k) \<Longrightarrow> left (at a m)"
  shows "bisect left a (- 1) (as_int (int (length a))) = Some (int (length (filter (\<lambda>x. \<not> left x) a)))"
proof -
  have "as_int (int (length a)) = int (length a)" using assms(1) by (intro as_int_id) auto
  moreover have "\<exists>r. bisect left a (- 1) (int (length a)) = Some r \<and> 0 \<le> r \<and> r \<le> int (length a) \<and>
      (\<forall>k. 0 \<le> k \<longrightarrow> k < int (length a) \<longrightarrow> (left (at a k) \<longleftrightarrow> r \<le> k))"
  proof (rule bisect_returns)
    show "left (at a m)" if "0 \<le> k" "k \<le> m" "m < int (length a)" "left (at a k)" for k m using assms(2) that by blast
  qed (use assms(1) in simp_all)
  ultimately obtain r where r: "bisect left a (- 1) (as_int (int (length a))) = Some r" "0 \<le> r" "r \<le> int (length a)"
    "\<And>k. 0 \<le> k \<Longrightarrow> k < int (length a) \<Longrightarrow> left (at a k) \<longleftrightarrow> r \<le> k" by metis
  have "left (a ! k) \<longleftrightarrow> nat r \<le> k" if "k < length a" for k using r(4) [of "int k"] that by (simp add: at_def nat_le_iff)
  then have "{k. k < length a \<and> \<not> left (a ! k)} = {..<nat r}" using r(3) by auto
  then have "length (filter (\<lambda>x. \<not> left x) a) = nat r" by (simp add: length_filter_conv_card)
  with r(1,2) show ?thesis by simp
qed

lemma sorted_at: "sorted a \<Longrightarrow> 0 \<le> k \<Longrightarrow> k \<le> m \<Longrightarrow> m < int (length a) \<Longrightarrow> at a k \<le> at a m"
  unfolding at_def by (rule sorted_nth_mono) auto

text \<open>On a sorted array of at most \<open>2 ^ 30\<close> elements the binary searches return, with no overflow and no access outside, the number
  of elements up to \<open>num\<close> and the number of elements below it.\<close>

lemma bounds_count:
  assumes "sorted a" "length a \<le> 2 ^ 30"
  shows "upper_bound a num = Some (int (length (filter (\<lambda>x. x \<le> num) a))) \<and> lower_bound a num = Some (int (length (filter (\<lambda>x. x < num) a)))"
proof
  have "num < at a m" if "0 \<le> k" "k \<le> m" "m < int (length a)" "num < at a k" for k m using sorted_at [OF assms(1) that(1-3)] that(4) by simp
  from bisect_count [where left = "\<lambda>x. num < x", OF assms(2) this] show "upper_bound a num = Some (int (length (filter (\<lambda>x. x \<le> num) a)))" by (simp add: upper_bound_def not_less)
  have "num \<le> at a m" if "0 \<le> k" "k \<le> m" "m < int (length a)" "num \<le> at a k" for k m using sorted_at [OF assms(1) that(1-3)] that(4) by simp
  from bisect_count [where left = "\<lambda>x. num \<le> x", OF assms(2) this] show "lower_bound a num = Some (int (length (filter (\<lambda>x. x < num) a)))" by (simp add: lower_bound_def not_le)
qed

lemma bounds_count_witness: "upper_bound [1, 3, 3, 8 :: int] 3 = Some 3 \<and> lower_bound [1, 3, 3, 8 :: int] 3 = Some 1"
  using bounds_count [of "[1, 3, 3, 8 :: int]" 3] by simp

end
