(* ===== verification/Binomial_Queue.thy ===== *)
theory Binomial_Queue
  imports STL_Result Array_Algorithms
begin

text \<open>
  \<open>CS0501 Data Structure/STLite/priority_queue.hpp\<close>: a priority queue of binomial trees, the greatest element first.

  A node's chain of \<open>next\<close> pointers is the list of nodes from it on; a node is owned by the one chain it is in.  \<open>root\<close> is \<open>None\<close>
  when the pointer is indeterminate or dangling.  \<open>prior\<close> is a position in the chain of roots.  \<open>size_t\<close> is a natural number.
\<close>

section \<open>The operations\<close>

datatype 'a node = Node (key: 'a) (degree: nat) (child: "'a node list")

record 'a pqueue =
  pq_root :: "'a node list option"
  pq_length :: nat
  pq_prior :: "nat option"

fun link :: "'a node list \<Rightarrow> 'a node list \<Rightarrow> 'a node list" where
  "link [] ys = ys"
| "link xs [] = xs"
| "link (x # xs) (y # ys) = (if degree x \<le> degree y then x # link xs (y # ys) else y # link (x # xs) ys)"

text \<open>The assignments that make \<open>x\<close> the first child of \<open>y\<close>.\<close>

definition hang :: "'a node \<Rightarrow> 'a node \<Rightarrow> 'a node" where
  "hang x y = Node (key y) (degree y + 1) (x # child y)"

text \<open>The two loops of \<open>merge\<close>: at the root, and with \<open>prev\<close> at the head of the list and \<open>current\<close> after it.\<close>

fun merge_root :: "('a \<Rightarrow> 'a \<Rightarrow> bool) \<Rightarrow> 'a node list \<Rightarrow> 'a node list" where
  "merge_root cmp (x # y # rest) =
     (if degree x = degree y then merge_root cmp ((if cmp (key x) (key y) then hang x y else hang y x) # rest) else x # y # rest)"
| "merge_root cmp xs = xs"

fun merge_rest :: "('a \<Rightarrow> 'a \<Rightarrow> bool) \<Rightarrow> 'a node list \<Rightarrow> 'a node list" where
  "merge_rest cmp (prev # current # next # rest) =
     (if degree current = degree next then
        if rest \<noteq> [] \<and> degree next = degree (hd rest) then prev # merge_rest cmp (current # next # rest)
        else if cmp (key current) (key next) then prev # merge_rest cmp (hang current next # rest)
        else prev # merge_rest cmp (hang next current # rest)
      else prev # merge_rest cmp (current # next # rest))"
| "merge_rest cmp xs = xs"

definition merge_roots :: "('a \<Rightarrow> 'a \<Rightarrow> bool) \<Rightarrow> 'a node list \<Rightarrow> 'a node list" where
  "merge_roots cmp roots = merge_rest cmp (merge_root cmp roots)"

definition pq_new :: "'a pqueue" where
  "pq_new = \<lparr>pq_root = Some [], pq_length = 0, pq_prior = None\<rparr>"

text \<open>\<open>top\<close>: the greatest key so far and \<open>prior\<close>; \<open>i\<close> is the position of \<open>p\<close>.\<close>

fun top_scan :: "('a \<Rightarrow> 'a \<Rightarrow> bool) \<Rightarrow> 'a \<Rightarrow> nat option \<Rightarrow> nat \<Rightarrow> 'a node list \<Rightarrow> 'a \<times> nat option" where
  "top_scan cmp t prior i [] = (t, prior)"
| "top_scan cmp t prior i (p # ps) = (if cmp t (key p) then top_scan cmp (key p) (Some i) (i + 1) ps else top_scan cmp t prior (i + 1) ps)"

definition pq_top :: "('a \<Rightarrow> 'a \<Rightarrow> bool) \<Rightarrow> 'a pqueue \<Rightarrow> ('a \<times> 'a pqueue) result" where
  "pq_top cmp q = (
     if pq_length q = 0 then throws container_is_empty
     else case pq_root q of None \<Rightarrow> None | Some roots \<Rightarrow>
       (case pq_prior q of
          Some i \<Rightarrow> (if i < length roots then returns (key (roots ! i), q) else None)
        | None \<Rightarrow> (case roots of [] \<Rightarrow> None | r # rs \<Rightarrow>
            (case top_scan cmp (key r) None 0 roots of (t, prior) \<Rightarrow> returns (t, q\<lparr>pq_prior := prior\<rparr>)))))"

definition pq_push :: "('a \<Rightarrow> 'a \<Rightarrow> bool) \<Rightarrow> 'a \<Rightarrow> 'a pqueue \<Rightarrow> 'a pqueue option" where
  "pq_push cmp e q = do {
     roots \<leftarrow> pq_root q;
     Some \<lparr>pq_root = Some (merge_roots cmp (link roots [Node e 0 []])), pq_length = pq_length q + 1, pq_prior = None\<rparr> }"

text \<open>\<open>pop\<close>: the scan of \<open>p\<close> over the chain finds the predecessor \<open>prev\<close> of the node to be removed.\<close>

function pop_scan :: "('a \<Rightarrow> 'a \<Rightarrow> bool) \<Rightarrow> 'a node list \<Rightarrow> nat \<Rightarrow> nat \<Rightarrow> nat" where
  "pop_scan cmp roots prev p =
     (if p + 1 < length roots then
        pop_scan cmp roots (if cmp (key (roots ! (prev + 1))) (key (roots ! (p + 1))) then p else prev) (p + 1)
      else prev)"
  by pat_completeness auto
termination
  by (relation "measure (\<lambda>(cmp, roots, prev, p). length roots - p)") auto

declare pop_scan.simps [simp del]

definition pq_pop :: "('a \<Rightarrow> 'a \<Rightarrow> bool) \<Rightarrow> 'a pqueue \<Rightarrow> 'a pqueue result" where
  "pq_pop cmp q = (
     if pq_length q = 0 then throws container_is_empty
     else case pq_root q of None \<Rightarrow> None | Some roots \<Rightarrow>
       if roots = [] then None
       else
         let prev = pop_scan cmp roots 0 0;
             (current, roots) =
               (if prev + 1 < length roots \<and> cmp (key (roots ! 0)) (key (roots ! (prev + 1)))
                then (roots ! (prev + 1), take (prev + 1) roots @ drop (prev + 2) roots)
                else (hd roots, tl roots));
             roots = fold (\<lambda>p roots. merge_roots cmp (link roots [p])) (child current) roots
         in returns \<lparr>pq_root = Some roots, pq_length = pq_length q - 1, pq_prior = None\<rparr>)"

definition pq_size :: "'a pqueue \<Rightarrow> nat" where
  "pq_size q = pq_length q"

definition pq_empty :: "'a pqueue \<Rightarrow> bool" where
  "pq_empty q \<longleftrightarrow> pq_length q = 0"

text \<open>\<open>merge\<close> with another queue, and what is left of that.\<close>

definition pq_merge :: "('a \<Rightarrow> 'a \<Rightarrow> bool) \<Rightarrow> 'a pqueue \<Rightarrow> 'a pqueue \<Rightarrow> ('a pqueue \<times> 'a pqueue) option" where
  "pq_merge cmp q other = do {
     roots \<leftarrow> pq_root q;
     others \<leftarrow> pq_root other;
     Some (\<lparr>pq_root = Some (merge_roots cmp (link roots others)), pq_length = pq_length q + pq_length other, pq_prior = None\<rparr>,
           other\<lparr>pq_length := 0, pq_root := Some []\<rparr>) }"

text \<open>
  The copies are deep, so equal to their originals.  The constructor sets \<open>root\<close> only when there is something to copy, and the
  assignment then leaves \<open>root\<close> pointing to what it has just deleted; the destructor reads it.
\<close>

definition pq_copy :: "'a pqueue \<Rightarrow> 'a pqueue" where
  "pq_copy other = \<lparr>pq_root = (if pq_length other \<noteq> 0 then pq_root other else None), pq_length = pq_length other, pq_prior = None\<rparr>"

definition pq_assign :: "'a pqueue \<Rightarrow> 'a pqueue \<Rightarrow> 'a pqueue option" where
  "pq_assign q other = do {
     roots \<leftarrow> pq_root q;
     Some \<lparr>pq_root = (if pq_length other \<noteq> 0 then pq_root other else if roots = [] then Some [] else None),
           pq_length = pq_length other, pq_prior = None\<rparr> }"

definition pq_destroy :: "'a pqueue \<Rightarrow> unit option" where
  "pq_destroy q = do { roots \<leftarrow> pq_root q; Some () }"

section \<open>The contents\<close>

fun node_mset :: "'a node \<Rightarrow> 'a multiset" where
  "node_mset (Node k d ns) = add_mset k (sum_list (map node_mset ns))"

abbreviation nodes_mset :: "'a node list \<Rightarrow> 'a multiset" where
  "nodes_mset ns \<equiv> sum_list (map node_mset ns)"

definition contents :: "'a pqueue \<Rightarrow> 'a multiset" where
  "contents q = (case pq_root q of None \<Rightarrow> {#} | Some roots \<Rightarrow> nodes_mset roots)"

lemma node_mset_sel: "node_mset n = add_mset (key n) (nodes_mset (child n))"
  by (cases n) simp

lemma nodes_mset_link [simp]: "nodes_mset (link xs ys) = nodes_mset xs + nodes_mset ys"
  by (induction xs ys rule: link.induct) (simp_all add: ac_simps)

lemma node_mset_hang [simp]: "node_mset (hang x y) = node_mset x + node_mset y"
  by (simp add: hang_def node_mset_sel [of y] ac_simps)

lemma nodes_mset_merge_root [simp]: "nodes_mset (merge_root cmp xs) = nodes_mset xs"
  by (induction cmp xs rule: merge_root.induct) (simp_all add: ac_simps)

lemma nodes_mset_merge_rest [simp]: "nodes_mset (merge_rest cmp xs) = nodes_mset xs"
  by (induction cmp xs rule: merge_rest.induct) (simp_all add: ac_simps)

lemma nodes_mset_merge_roots [simp]: "nodes_mset (merge_roots cmp xs) = nodes_mset xs"
  by (simp add: merge_roots_def)

lemma nodes_mset_relink: "nodes_mset (fold (\<lambda>p roots. merge_roots cmp (link roots [p])) ps roots) = nodes_mset ps + nodes_mset roots"
  by (induction ps arbitrary: roots) (simp_all add: ac_simps)

section \<open>The order\<close>

text \<open>No node is below a child.\<close>

fun heap :: "('a \<Rightarrow> 'a \<Rightarrow> bool) \<Rightarrow> 'a node \<Rightarrow> bool" where
  "heap cmp (Node k d ns) \<longleftrightarrow> (\<forall>n \<in> set ns. \<not> cmp k (key n) \<and> heap cmp n)"

lemma heap_sel: "heap cmp n \<longleftrightarrow> (\<forall>m \<in> set (child n). \<not> cmp (key n) (key m) \<and> heap cmp m)"
  by (cases n) simp

lemma heap_hang: "heap cmp x \<Longrightarrow> heap cmp y \<Longrightarrow> \<not> cmp (key y) (key x) \<Longrightarrow> heap cmp (hang x y)"
  by (cases y) (simp add: hang_def)

lemma heap_hang_less: "comparison cmp \<Longrightarrow> cmp (key x) (key y) \<Longrightarrow> heap cmp x \<Longrightarrow> heap cmp y \<Longrightarrow> heap cmp (hang x y)"
  using comparison.asym heap_hang by metis

lemma set_link [simp]: "set (link xs ys) = set xs \<union> set ys"
  by (induction xs ys rule: link.induct) auto

lemma heap_merge_root: "comparison cmp \<Longrightarrow> \<forall>n \<in> set xs. heap cmp n \<Longrightarrow> \<forall>n \<in> set (merge_root cmp xs). heap cmp n"
  by (induction cmp xs rule: merge_root.induct) (simp_all add: heap_hang heap_hang_less)

lemma heap_merge_rest: "comparison cmp \<Longrightarrow> \<forall>n \<in> set xs. heap cmp n \<Longrightarrow> \<forall>n \<in> set (merge_rest cmp xs). heap cmp n"
  by (induction cmp xs rule: merge_rest.induct) (simp_all add: heap_hang heap_hang_less)

lemma heap_merge_roots: "comparison cmp \<Longrightarrow> \<forall>n \<in> set xs. heap cmp n \<Longrightarrow> \<forall>n \<in> set (merge_roots cmp xs). heap cmp n"
  unfolding merge_roots_def by (intro heap_merge_rest heap_merge_root)

lemma heap_relink:
  "comparison cmp \<Longrightarrow> \<forall>n \<in> set ps. heap cmp n \<Longrightarrow> \<forall>n \<in> set roots. heap cmp n \<Longrightarrow>
    \<forall>n \<in> set (fold (\<lambda>p roots. merge_roots cmp (link roots [p])) ps roots). heap cmp n"
proof (induction ps arbitrary: roots)
  case (Cons p ps)
  have "\<forall>n \<in> set (merge_roots cmp (link roots [p])). heap cmp n" using Cons.prems by (intro heap_merge_roots) auto
  with Cons show ?case by simp
qed simp

text \<open>The key of a root is greatest in its tree.\<close>

lemma heap_greatest: "comparison cmp \<Longrightarrow> heap cmp n \<Longrightarrow> x \<in># node_mset n \<Longrightarrow> \<not> cmp (key n) x"
proof (induction n arbitrary: x)
  case (Node k d ns)
  from Node.prems(3) consider "x = k" | n where "n \<in> set ns" "x \<in># node_mset n" by auto
  then show ?case
  proof cases
    case 1
    then show ?thesis using comparison.refl [OF Node.prems(1)] by simp
  next
    case (2 n)
    with Node.prems have "\<not> cmp k (key n)" "heap cmp n" by auto
    then show ?thesis using Node.IH [OF 2(1) Node.prems(1) _ 2(2)] comparison.trans [OF Node.prems(1), of k "key n" x] by simp
  qed
qed

section \<open>The scans\<close>

text \<open>Both scans find the first greatest root.  \<open>first_greatest cmp roots m i\<close>: of the roots before \<open>m\<close> it is the \<open>i\<close>-th.\<close>

definition first_greatest :: "('a \<Rightarrow> 'a \<Rightarrow> bool) \<Rightarrow> 'a node list \<Rightarrow> nat \<Rightarrow> nat \<Rightarrow> bool" where
  "first_greatest cmp roots m i \<longleftrightarrow> i < m \<and> m \<le> length roots \<and> (\<forall>k < m. \<not> cmp (key (roots ! i)) (key (roots ! k))) \<and>
     (\<forall>k < i. cmp (key (roots ! k)) (key (roots ! i)))"

lemma first_greatest_start: "comparison cmp \<Longrightarrow> roots \<noteq> [] \<Longrightarrow> first_greatest cmp roots 1 0"
  by (simp add: first_greatest_def Suc_le_eq comparison.refl)

lemma first_greatest_unique: "first_greatest cmp roots m i \<Longrightarrow> first_greatest cmp roots m j \<Longrightarrow> i = j"
  unfolding first_greatest_def by (metis nat_neq_iff)

lemma first_greatest_step:
  assumes cmp: "comparison cmp" and first: "first_greatest cmp roots m i" and m: "m < length roots"
  shows "first_greatest cmp roots (Suc m) (if cmp (key (roots ! i)) (key (roots ! m)) then m else i)"
proof -
  have i: "i < m" "\<And>k. k < m \<Longrightarrow> \<not> cmp (key (roots ! i)) (key (roots ! k))" "\<And>k. k < i \<Longrightarrow> cmp (key (roots ! k)) (key (roots ! i))"
    using first unfolding first_greatest_def by blast+
  show ?thesis
  proof (cases "cmp (key (roots ! i)) (key (roots ! m))")
    case True
    have above: "cmp (key (roots ! k)) (key (roots ! m))" if "k < m" for k
      using comparison.trans [OF cmp i(2) [OF that], of "key (roots ! m)"] True by blast
    have "\<not> cmp (key (roots ! m)) (key (roots ! k))" if "k < Suc m" for k
      using comparison.asym [OF cmp above [of k]] comparison.refl [OF cmp] that less_Suc_eq by metis
    with above True m show ?thesis unfolding first_greatest_def by (simp add: Suc_le_eq)
  next
    case False
    then have "\<not> cmp (key (roots ! i)) (key (roots ! k))" if "k < Suc m" for k using i(2) that less_Suc_eq by metis
    with False i(1,3) m show ?thesis unfolding first_greatest_def by (simp add: Suc_le_eq)
  qed
qed

lemma greatest_contents:
  assumes cmp: "comparison cmp" and "first_greatest cmp roots (length roots) i" "\<forall>n \<in> set roots. heap cmp n" "x \<in># nodes_mset roots"
  shows "\<not> cmp (key (roots ! i)) x"
proof -
  have "\<exists>n \<in> set roots. x \<in># node_mset n" using assms(4) by (induction roots) auto
  then obtain n where n: "n \<in> set roots" "x \<in># node_mset n" by blast
  have "\<not> cmp (key n) x" by (rule heap_greatest [OF cmp _ n(2)]) (use assms(3) n(1) in blast)
  moreover have "\<not> cmp (key (roots ! i)) (key n)" using assms(2) n(1) by (auto simp: first_greatest_def in_set_conv_nth)
  ultimately show ?thesis using comparison.trans [OF cmp, of "key (roots ! i)" "key n" x] by simp
qed

definition position :: "nat \<Rightarrow> nat option" where
  "position i = (if i = 0 then None else Some i)"

lemma top_scan_first:
  assumes "comparison cmp" "first_greatest cmp roots m i"
  shows "\<exists>i'. top_scan cmp (key (roots ! i)) (position i) m (drop m roots) = (key (roots ! i'), position i') \<and> first_greatest cmp roots (length roots) i'"
  using assms(2)
proof (induction "length roots - m" arbitrary: m i)
  case 0
  then have "m = length roots" by (simp add: first_greatest_def)
  with 0 show ?case by auto
next
  case (Suc n)
  then have m: "m < length roots" "0 < m" by (auto simp: first_greatest_def)
  define i1 where "i1 = (if cmp (key (roots ! i)) (key (roots ! m)) then m else i)"
  have "drop m roots = roots ! m # drop (Suc m) roots" using m by (simp add: Cons_nth_drop_Suc)
  then have step: "top_scan cmp (key (roots ! i)) (position i) m (drop m roots) = top_scan cmp (key (roots ! i1)) (position i1) (Suc m) (drop (Suc m) roots)"
    using m(2) by (simp add: i1_def position_def)
  have "first_greatest cmp roots (Suc m) i1" unfolding i1_def by (rule first_greatest_step [OF assms(1) Suc.prems m(1)])
  moreover have "n = length roots - Suc m" using Suc.hyps(2) by simp
  ultimately show ?case unfolding step by (rule Suc.hyps(1) [rotated])
qed

text \<open>The scan of \<open>pop\<close> leaves out the root itself.\<close>

lemma first_greatest_Cons:
  assumes "comparison cmp" "first_greatest cmp rs m i"
  shows "first_greatest cmp (r # rs) (Suc m) (if cmp (key r) (key (rs ! i)) then Suc i else 0)"
proof -
  have i: "i < m" "m \<le> length rs" "\<And>k. k < m \<Longrightarrow> \<not> cmp (key (rs ! i)) (key (rs ! k))" "\<And>k. k < i \<Longrightarrow> cmp (key (rs ! k)) (key (rs ! i))"
    using assms(2) unfolding first_greatest_def by blast+
  show ?thesis
  proof (cases "cmp (key r) (key (rs ! i))")
    case True
    have "\<not> cmp (key (rs ! i)) (key ((r # rs) ! k))" if "k < Suc m" for k
      using i(3) comparison.asym [OF assms(1) True] that by (cases k) auto
    moreover have "cmp (key ((r # rs) ! k)) (key (rs ! i))" if "k < Suc i" for k
      using i(4) True that by (cases k) auto
    ultimately show ?thesis using True i(1,2) by (simp add: first_greatest_def)
  next
    case False
    have "\<not> cmp (key r) (key ((r # rs) ! k))" if "k < Suc m" for k
      using comparison.trans [OF assms(1) False] i(3) comparison.refl [OF assms(1)] that by (cases k) auto
    with False i(2) show ?thesis by (simp add: first_greatest_def)
  qed
qed

lemma pop_scan_first:
  assumes "comparison cmp" "first_greatest cmp rs p prev"
  shows "first_greatest cmp rs (length rs) (pop_scan cmp (r # rs) prev p)"
  using assms(2)
proof (induction "length rs - p" arbitrary: p prev)
  case 0
  then have "p = length rs" by (simp add: first_greatest_def)
  with 0 show ?case by (subst pop_scan.simps) simp
next
  case (Suc n)
  then have "p < length rs" by simp
  then have "pop_scan cmp (r # rs) prev p = pop_scan cmp (r # rs) (if cmp (key (rs ! prev)) (key (rs ! p)) then p else prev) (Suc p)"
    by (subst pop_scan.simps) simp
  moreover have "n = length rs - Suc p" using Suc.hyps(2) by simp
  ultimately show ?case using Suc.hyps(1) first_greatest_step [OF assms(1) Suc.prems \<open>p < length rs\<close>] by simp
qed

lemma pop_scan_start:
  assumes "comparison cmp" "rs \<noteq> []"
  shows "first_greatest cmp rs (length rs) (pop_scan cmp (r # rs) 0 0)"
proof -
  have "pop_scan cmp (r # rs) 0 0 = pop_scan cmp (r # rs) 0 1"
    using assms comparison.refl [OF assms(1)] by (subst pop_scan.simps) simp
  with pop_scan_first [OF assms(1) first_greatest_start [OF assms]] show ?thesis by simp
qed

section \<open>A priority queue\<close>

text \<open>The invariant: heap-ordered trees, the number of elements, and the cached position.\<close>

definition pq_inv :: "('a \<Rightarrow> 'a \<Rightarrow> bool) \<Rightarrow> 'a pqueue \<Rightarrow> bool" where
  "pq_inv cmp q \<longleftrightarrow> (\<exists>roots. pq_root q = Some roots \<and> (\<forall>n \<in> set roots. heap cmp n) \<and> pq_length q = size (nodes_mset roots) \<and>
     (\<forall>i. pq_prior q = Some i \<longrightarrow> first_greatest cmp roots (length roots) i))"

lemma nodes_mset_empty_iff [simp]: "nodes_mset roots = {#} \<longleftrightarrow> roots = []"
  by (cases roots) (auto simp: node_mset_sel)

lemma pq_inv_new: "pq_inv cmp pq_new \<and> contents pq_new = {#}"
  by (simp add: pq_inv_def pq_new_def contents_def)

lemma pq_inv_empty: "pq_inv cmp q \<Longrightarrow> pq_length q = size (contents q)"
  by (auto simp: pq_inv_def contents_def)

lemma pq_push_ok:
  assumes "comparison cmp" "pq_inv cmp q"
  shows "\<exists>q'. pq_push cmp e q = Some q' \<and> pq_inv cmp q' \<and> contents q' = add_mset e (contents q)"
proof -
  from assms(2) obtain roots where q: "pq_root q = Some roots" "\<forall>n \<in> set roots. heap cmp n" "pq_length q = size (nodes_mset roots)"
    unfolding pq_inv_def by blast
  have "\<forall>n \<in> set (merge_roots cmp (link roots [Node e 0 []])). heap cmp n" using q(2) assms(1) by (intro heap_merge_roots) auto
  then show ?thesis using q by (auto simp: pq_push_def pq_inv_def contents_def)
qed

lemma pq_merge_ok:
  assumes "comparison cmp" "pq_inv cmp q" "pq_inv cmp other"
  shows "\<exists>q' other'. pq_merge cmp q other = Some (q', other') \<and> pq_inv cmp q' \<and> contents q' = contents q + contents other \<and> contents other' = {#} \<and> pq_length other' = 0"
proof -
  from assms(2) obtain roots where q: "pq_root q = Some roots" "\<forall>n \<in> set roots. heap cmp n" "pq_length q = size (nodes_mset roots)"
    unfolding pq_inv_def by blast
  from assms(3) obtain others where o: "pq_root other = Some others" "\<forall>n \<in> set others. heap cmp n" "pq_length other = size (nodes_mset others)"
    unfolding pq_inv_def by blast
  have "\<forall>n \<in> set (merge_roots cmp (link roots others)). heap cmp n" using q(2) o(2) assms(1) by (intro heap_merge_roots) auto
  then show ?thesis using q o by (auto simp: pq_merge_def pq_inv_def contents_def)
qed

lemma pq_top_ok:
  assumes "comparison cmp" "pq_inv cmp q" "contents q \<noteq> {#}"
  shows "\<exists>q' x roots i. pq_top cmp q = returns (x, q') \<and> pq_inv cmp q' \<and> contents q' = contents q \<and>
    pq_root q = Some roots \<and> first_greatest cmp roots (length roots) i \<and> x = key (roots ! i)"
proof -
  from assms(2) obtain roots where q: "pq_root q = Some roots" "\<forall>n \<in> set roots. heap cmp n" "pq_length q = size (nodes_mset roots)"
    "\<And>i. pq_prior q = Some i \<Longrightarrow> first_greatest cmp roots (length roots) i"
    unfolding pq_inv_def by blast
  have ne: "roots \<noteq> []" using assms(3) q(1) by (auto simp: contents_def)
  then have len: "pq_length q \<noteq> 0" using q(3) by simp
  show ?thesis
  proof (cases "pq_prior q")
    case (Some i)
    with q(4) have "first_greatest cmp roots (length roots) i" by blast
    moreover from this have "i < length roots" by (simp add: first_greatest_def)
    ultimately show ?thesis using Some len q(1) assms(2) by (auto simp: pq_top_def)
  next
    case None
    from ne obtain r rs where roots: "roots = r # rs" by (cases roots) auto
    from top_scan_first [OF assms(1) first_greatest_start [OF assms(1) ne]] obtain i where
      i: "top_scan cmp (key (roots ! 0)) None 1 (drop 1 roots) = (key (roots ! i), position i)" "first_greatest cmp roots (length roots) i"
      by (auto simp: position_def)
    have "top_scan cmp (key r) None 0 roots = (key (roots ! i), position i)"
      using i(1) comparison.refl [OF assms(1)] by (simp add: roots)
    then have "pq_top cmp q = returns (key (roots ! i), q\<lparr>pq_prior := position i\<rparr>)"
      using None len q(1) roots by (simp add: pq_top_def)
    moreover have "pq_inv cmp (q\<lparr>pq_prior := position i\<rparr>)"
      using q i(2) by (auto simp: pq_inv_def position_def split: if_splits)
    ultimately show ?thesis using q(1) i(2) by (fastforce simp: contents_def)
  qed
qed

lemma nodes_mset_remove: "i < length roots \<Longrightarrow> nodes_mset roots = node_mset (roots ! i) + nodes_mset (take i roots @ drop (Suc i) roots)"
proof -
  assume "i < length roots"
  then have "roots = take i roots @ roots ! i # drop (Suc i) roots" by (rule id_take_nth_drop)
  then have "nodes_mset roots = nodes_mset (take i roots @ roots ! i # drop (Suc i) roots)" by simp
  then show ?thesis by (simp add: ac_simps)
qed

lemma pq_pop_ok:
  assumes "comparison cmp" "pq_inv cmp q" "pq_root q = Some roots" "first_greatest cmp roots (length roots) i"
  shows "\<exists>q'. pq_pop cmp q = returns q' \<and> pq_inv cmp q' \<and> contents q = add_mset (key (roots ! i)) (contents q')"
proof -
  from assms(2,3) have q: "\<forall>n \<in> set roots. heap cmp n" "pq_length q = size (nodes_mset roots)" unfolding pq_inv_def by auto
  from assms(4) have i: "i < length roots" by (simp add: first_greatest_def)
  then obtain r rs where roots: "roots = r # rs" by (cases roots) auto
  then have len: "pq_length q \<noteq> 0" using q(2) by (simp add: node_mset_sel)
  define prev where "prev = pop_scan cmp roots 0 0"
  have found: "i = (if prev + 1 < length roots \<and> cmp (key (roots ! 0)) (key (roots ! (prev + 1))) then prev + 1 else 0)"
  proof (cases "rs = []")
    case True
    then show ?thesis using i by (simp add: roots)
  next
    case False
    from pop_scan_start [OF assms(1) False, of r] have p: "first_greatest cmp rs (length rs) prev" by (simp add: prev_def roots)
    then have "prev < length rs" by (simp add: first_greatest_def)
    with first_greatest_Cons [OF assms(1) p, of r] first_greatest_unique [OF assms(4)] show ?thesis by (auto simp: roots)
  qed
  define others where "others = take i roots @ drop (Suc i) roots"
  have chosen: "(if prev + 1 < length roots \<and> cmp (key (roots ! 0)) (key (roots ! (prev + 1)))
      then (roots ! (prev + 1), take (prev + 1) roots @ drop (prev + 2) roots) else (hd roots, tl roots)) = (roots ! i, others)"
    unfolding others_def found by (simp add: roots)
  define roots' where "roots' = fold (\<lambda>p roots. merge_roots cmp (link roots [p])) (child (roots ! i)) others"
  have "pq_pop cmp q = returns \<lparr>pq_root = Some roots', pq_length = pq_length q - 1, pq_prior = None\<rparr>"
  proof -
    have "roots \<noteq> []" by (simp add: roots)
    then show ?thesis using len by (simp only: pq_pop_def Let_def assms(3) option.case prev_def [symmetric] chosen prod.case if_False roots'_def)
  qed
  moreover have "heap cmp (roots ! i)" using q(1) i by simp
  then have "\<forall>n \<in> set roots'. heap cmp n"
    unfolding roots'_def using q(1) by (intro heap_relink [OF assms(1)]) (auto simp: heap_sel [of cmp "roots ! i"] others_def dest: in_set_takeD in_set_dropD)
  moreover have "nodes_mset roots = add_mset (key (roots ! i)) (nodes_mset roots')"
    unfolding roots'_def nodes_mset_relink nodes_mset_remove [OF i] others_def by (simp add: node_mset_sel)
  ultimately show ?thesis using assms(3) q(2) by (auto simp: pq_inv_def contents_def)
qed

section \<open>Sessions\<close>

datatype 'a pq_command = Push 'a | Pop | Top | Size | Empty

datatype 'a pq_answer = Done | Shown 'a | Counted nat | Answered bool | Thrown stl_error

definition pq_do :: "('a \<Rightarrow> 'a \<Rightarrow> bool) \<Rightarrow> 'a pq_command \<Rightarrow> 'a pqueue \<Rightarrow> ('a pq_answer \<times> 'a pqueue) option" where
  "pq_do cmp command q = (case command of
     Push e \<Rightarrow> do { q \<leftarrow> pq_push cmp e q; Some (Done, q) }
   | Pop \<Rightarrow> (case pq_pop cmp q of None \<Rightarrow> None | Some (Inl e) \<Rightarrow> Some (Thrown e, q) | Some (Inr q) \<Rightarrow> Some (Done, q))
   | Top \<Rightarrow> (case pq_top cmp q of None \<Rightarrow> None | Some (Inl e) \<Rightarrow> Some (Thrown e, q) | Some (Inr (x, q)) \<Rightarrow> Some (Shown x, q))
   | Size \<Rightarrow> Some (Counted (pq_size q), q)
   | Empty \<Rightarrow> Some (Answered (pq_empty q), q))"

fun pq_run :: "('a \<Rightarrow> 'a \<Rightarrow> bool) \<Rightarrow> 'a pq_command list \<Rightarrow> 'a pqueue \<Rightarrow> 'a pq_answer list option" where
  "pq_run cmp [] q = Some []"
| "pq_run cmp (command # commands) q = do { (answer, q) \<leftarrow> pq_do cmp command q; answers \<leftarrow> pq_run cmp commands q; Some (answer # answers) }"

text \<open>What they should do, on a multiset.\<close>

definition spec_do :: "'a::linorder pq_command \<Rightarrow> 'a multiset \<Rightarrow> 'a pq_answer \<times> 'a multiset" where
  "spec_do command M = (case command of
     Push e \<Rightarrow> (Done, add_mset e M)
   | Pop \<Rightarrow> if M = {#} then (Thrown container_is_empty, M) else (Done, M - {#Max_mset M#})
   | Top \<Rightarrow> if M = {#} then (Thrown container_is_empty, M) else (Shown (Max_mset M), M)
   | Size \<Rightarrow> (Counted (size M), M)
   | Empty \<Rightarrow> (Answered (M = {#}), M))"

fun spec_run :: "'a::linorder pq_command list \<Rightarrow> 'a multiset \<Rightarrow> 'a pq_answer list" where
  "spec_run [] M = []"
| "spec_run (command # commands) M = (case spec_do command M of (answer, M) \<Rightarrow> answer # spec_run commands M)"

lemma less_comparison: "comparison ((<) :: 'a::linorder \<Rightarrow> 'a \<Rightarrow> bool)"
  by unfold_locales

lemma greatest_Max:
  assumes "pq_inv (<) q" "pq_root q = Some roots" "first_greatest (<) roots (length roots) i"
  shows "key (roots ! i) = Max_mset (contents (q :: 'a::linorder pqueue))"
proof -
  have q: "\<forall>n \<in> set roots. heap (<) n" using assms(1,2) unfolding pq_inv_def by fastforce
  have contents: "contents q = nodes_mset roots" using assms(2) by (simp add: contents_def)
  have "i < length roots" using assms(3) by (simp add: first_greatest_def)
  then have "nodes_mset roots = add_mset (key (roots ! i)) (nodes_mset (child (roots ! i)) + nodes_mset (take i roots @ drop (Suc i) roots))"
    using nodes_mset_remove [of i roots] node_mset_sel [of "roots ! i"] by simp
  then have "key (roots ! i) \<in># nodes_mset roots" by simp
  moreover have "x \<le> key (roots ! i)" if "x \<in># nodes_mset roots" for x
    using greatest_contents [OF less_comparison assms(3) q that] by simp
  ultimately have "Max_mset (nodes_mset roots) = key (roots ! i)" by (intro Max_eqI) simp_all
  then show ?thesis by (simp add: contents)
qed

lemma pq_do_spec:
  assumes "pq_inv (<) (q :: 'a::linorder pqueue)"
  shows "\<exists>q'. pq_do (<) command q = Some (fst (spec_do command (contents q)), q') \<and> pq_inv (<) q' \<and> contents q' = snd (spec_do command (contents q))"
proof -
  have len: "pq_length q = size (contents q)" using assms by (rule pq_inv_empty)
  then have empty: "pq_pop (<) q = throws container_is_empty" "pq_top (<) q = throws container_is_empty" if "contents q = {#}"
    using that by (simp_all add: pq_pop_def pq_top_def)
  have top: "\<exists>q'. pq_top (<) q = returns (Max_mset (contents q), q') \<and> pq_inv (<) q' \<and> contents q' = contents q" if "contents q \<noteq> {#}"
  proof -
    from pq_top_ok [OF less_comparison assms that] obtain q' x roots i where t: "pq_top (<) q = returns (x, q')" "pq_inv (<) q'" "contents q' = contents q"
      "pq_root q = Some roots" "first_greatest (<) roots (length roots) i" "x = key (roots ! i)" by blast
    with greatest_Max [OF assms t(4,5)] show ?thesis by auto
  qed
  have pop: "\<exists>q'. pq_pop (<) q = returns q' \<and> pq_inv (<) q' \<and> contents q' = contents q - {#Max_mset (contents q)#}" if "contents q \<noteq> {#}"
  proof -
    from pq_top_ok [OF less_comparison assms that] obtain roots i where r: "pq_root q = Some roots" "first_greatest (<) roots (length roots) i" by blast
    from pq_pop_ok [OF less_comparison assms r] obtain q' where "pq_pop (<) q = returns q'" "pq_inv (<) q'" "contents q = add_mset (key (roots ! i)) (contents q')" by blast
    then show ?thesis using greatest_Max [OF assms r] by (metis add_mset_remove_trivial)
  qed
  show ?thesis
  proof (cases command)
    case (Push e)
    then show ?thesis using pq_push_ok [OF less_comparison assms, of e] by (auto simp: pq_do_def spec_do_def)
  next
    case Pop
    then show ?thesis using empty pop assms by (cases "contents q = {#}") (auto simp: pq_do_def spec_do_def throws_def returns_def)
  next
    case Top
    then show ?thesis using empty top assms by (cases "contents q = {#}") (auto simp: pq_do_def spec_do_def throws_def returns_def)
  qed (use assms len in \<open>auto simp: pq_do_def spec_do_def pq_size_def pq_empty_def\<close>)
qed

text \<open>
  C39 (refinement).  Every sequence of calls on a new queue, ordered by \<open><\<close>, gives the answers of a multiset: \<open>top\<close> shows the greatest element,
  \<open>pop\<close> removes it, both throw on the empty queue, and no pointer is followed that is null.  The binomial trees, their linking by degree,
  the cached \<open>prior\<close> and the scan for the predecessor of the node to be removed do not show.
\<close>

theorem priority_queue_refines_multiset: "pq_run (<) commands (pq_new :: 'a::linorder pqueue) = Some (spec_run commands {#})"
proof -
  have "pq_run (<) commands q = Some (spec_run commands (contents q))" if "pq_inv (<) q" for q :: "'a pqueue"
    using that
  proof (induction commands arbitrary: q)
    case (Cons command commands)
    from pq_do_spec [OF Cons.prems, of command] obtain q' where q': "pq_do (<) command q = Some (fst (spec_do command (contents q)), q')" "pq_inv (<) q'"
      "contents q' = snd (spec_do command (contents q))" by blast
    with Cons.IH [OF q'(2)] show ?case by (simp split: prod.split)
  qed simp
  with pq_inv_new show ?thesis by metis
qed

text \<open>\<open>merge\<close> takes everything over and leaves the other queue empty.\<close>

lemma priority_queue_merge:
  assumes "pq_inv (<) (q :: 'a::linorder pqueue)" "pq_inv (<) other"
  shows "\<exists>q' other'. pq_merge (<) q other = Some (q', other') \<and> pq_inv (<) q' \<and> contents q' = contents q + contents other \<and> contents other' = {#} \<and> pq_length other' = 0"
  using pq_merge_ok [OF less_comparison assms] .

section \<open>Flaws\<close>

text \<open>A copy of the empty queue has an indeterminate \<open>root\<close>: using or destroying it is undefined.  A copy of any other is as good as the original.\<close>

lemma pq_copy_empty: "pq_push cmp e (pq_copy pq_new) = None \<and> pq_destroy (pq_copy pq_new) = None"
  by (simp add: pq_copy_def pq_new_def pq_push_def pq_destroy_def)

lemma pq_copy_ok: "pq_inv cmp q \<Longrightarrow> contents q \<noteq> {#} \<Longrightarrow> pq_inv cmp (pq_copy q) \<and> contents (pq_copy q) = contents q"
  using pq_inv_empty [of cmp q] by (auto simp: pq_inv_def pq_copy_def contents_def)

lemma pq_assign_empty: "pq_inv cmp q \<Longrightarrow> contents q \<noteq> {#} \<Longrightarrow> \<exists>q'. pq_assign q pq_new = Some q' \<and> pq_push cmp e q' = None \<and> pq_destroy q' = None"
  by (auto simp: pq_inv_def pq_assign_def contents_def pq_new_def pq_push_def pq_destroy_def)

text \<open>\<open>merge\<close> compares the tree it has just made with nothing, so two roots of the same degree may stay.\<close>

lemma merge_roots_same_degree:
  fixes a b c d :: "'a node"
  assumes "degree a = 0" "degree b = 2" "degree c = 2" "degree d = 3"
  shows "map degree (merge_roots cmp (link [a, b, d] [c])) = [0, 3, 3]"
  using assms by (simp add: merge_roots_def hang_def)

end
