(* ===== verification/Linked_Hashmap.thy ===== *)
theory Linked_Hashmap
  imports Complex_Main STL_Result "HOL-Library.Word"
begin

text \<open>
  \<open>CS0501 Data Structure/STLite/linked_hashmap.hpp\<close>: a hash table with chaining whose nodes are also linked in the order of insertion.

  Nodes have addresses; \<open>hm_val\<close> is what they hold.  A chain (\<open>next\<close>) and the circular list through \<open>head\<close> (\<open>before\<close>, \<open>after\<close>) are lists
  of addresses.  An iterator is the address of its node, \<open>None\<close> for \<open>head\<close>.  A node that is not in \<open>hm_val\<close>, a bucket outside the table and a
  null pointer make the result undefined.  \<open>size_t\<close> is a natural number and the load factor a rational one; \<open>new\<close> succeeds.
  The functions \<open>hash\<close> and \<open>equal\<close> are those of the template; \<open>dflt\<close> is \<open>T()\<close>.
\<close>

unbundle bit_operations_syntax

record ('k, 'v) hashmap =
  hm_table :: "nat list list"
  hm_order :: "nat list"
  hm_val :: "nat \<Rightarrow> ('k \<times> 'v) option"
  hm_capacity :: nat
  hm_numOfElements :: nat
  hm_loadFactor :: rat
  hm_fresh :: nat

section \<open>The operations\<close>

definition hm_new :: "nat \<Rightarrow> rat \<Rightarrow> ('k, 'v) hashmap" where
  "hm_new capacity loadFactor = \<lparr>hm_table = replicate capacity [], hm_order = [], hm_val = Map.empty, hm_capacity = capacity,
     hm_numOfElements = 0, hm_loadFactor = loadFactor, hm_fresh = 0\<rparr>"

definition hm_default :: "('k, 'v) hashmap" where
  "hm_default = hm_new 128 (3 / 4)"

definition bucket :: "('k \<Rightarrow> nat) \<Rightarrow> 'k \<Rightarrow> nat \<Rightarrow> nat" where
  "bucket hash key capacity = hash key AND (capacity - 1)"

text \<open>The walks along a chain: the node with the key, if there is one.\<close>

fun chain_find :: "('k \<Rightarrow> 'k \<Rightarrow> bool) \<Rightarrow> (nat \<Rightarrow> ('k \<times> 'v) option) \<Rightarrow> 'k \<Rightarrow> nat list \<Rightarrow> nat option option" where
  "chain_find equal val key [] = Some None"
| "chain_find equal val key (p # chain) = (case val p of
     None \<Rightarrow> None | Some (k, v) \<Rightarrow> if equal k key then Some (Some p) else chain_find equal val key chain)"

definition hm_lookup :: "('k \<Rightarrow> nat) \<Rightarrow> ('k \<Rightarrow> 'k \<Rightarrow> bool) \<Rightarrow> 'k \<Rightarrow> ('k, 'v) hashmap \<Rightarrow> nat option option" where
  "hm_lookup hash equal key m = do {
     chain \<leftarrow> arr_get (hm_table m) (bucket hash key (hm_capacity m));
     chain_find equal (hm_val m) key chain }"

definition hm_at :: "('k \<Rightarrow> nat) \<Rightarrow> ('k \<Rightarrow> 'k \<Rightarrow> bool) \<Rightarrow> 'k \<Rightarrow> ('k, 'v) hashmap \<Rightarrow> 'v result" where
  "hm_at hash equal key m = (case hm_lookup hash equal key m of
     None \<Rightarrow> None
   | Some None \<Rightarrow> throws index_out_of_bound
   | Some (Some p) \<Rightarrow> (case hm_val m p of None \<Rightarrow> None | Some (k, v) \<Rightarrow> returns v))"

text \<open>\<open>resize\<close>: in the order of insertion every node becomes the first of its new chain.\<close>

fun rechain :: "('k \<Rightarrow> nat) \<Rightarrow> nat \<Rightarrow> (nat \<Rightarrow> ('k \<times> 'v) option) \<Rightarrow> nat list \<Rightarrow> nat list list \<Rightarrow> nat list list option" where
  "rechain hash capacity val [] table = Some table"
| "rechain hash capacity val (p # ps) table = do {
     (k, v) \<leftarrow> val p;
     chain \<leftarrow> arr_get table (bucket hash k capacity);
     table \<leftarrow> arr_set table (bucket hash k capacity) (p # chain);
     rechain hash capacity val ps table }"

definition hm_resize :: "('k \<Rightarrow> nat) \<Rightarrow> ('k, 'v) hashmap \<Rightarrow> ('k, 'v) hashmap option" where
  "hm_resize hash m = (
     if of_nat (hm_capacity m) * hm_loadFactor m < of_nat (hm_numOfElements m) then do {
       let m = m\<lparr>hm_capacity := push_bit 1 (hm_capacity m)\<rparr>;
       table \<leftarrow> rechain hash (hm_capacity m) (hm_val m) (hm_order m) (replicate (hm_capacity m) []);
       Some (m\<lparr>hm_table := table\<rparr>) }
     else Some m)"

text \<open>The new node goes to the end of its chain and of the order.\<close>

definition hm_append :: "('k \<Rightarrow> nat) \<Rightarrow> 'k \<times> 'v \<Rightarrow> ('k, 'v) hashmap \<Rightarrow> (nat \<times> ('k, 'v) hashmap) option" where
  "hm_append hash kv m = do {
     let p = hm_fresh m; let i = bucket hash (fst kv) (hm_capacity m);
     chain \<leftarrow> arr_get (hm_table m) i;
     table \<leftarrow> arr_set (hm_table m) i (chain @ [p]);
     m \<leftarrow> hm_resize hash (m\<lparr>hm_table := table, hm_order := hm_order m @ [p], hm_val := (hm_val m)(p \<mapsto> kv),
            hm_numOfElements := hm_numOfElements m + 1, hm_fresh := p + 1\<rparr>);
     Some (p, m) }"

definition hm_insert :: "('k \<Rightarrow> nat) \<Rightarrow> ('k \<Rightarrow> 'k \<Rightarrow> bool) \<Rightarrow> 'k \<times> 'v \<Rightarrow> ('k, 'v) hashmap \<Rightarrow> (nat \<times> bool \<times> ('k, 'v) hashmap) option" where
  "hm_insert hash equal kv m = do {
     found \<leftarrow> hm_lookup hash equal (fst kv) m;
     case found of Some p \<Rightarrow> Some (p, False, m) | None \<Rightarrow> do { (p, m) \<leftarrow> hm_append hash kv m; Some (p, True, m) } }"

text \<open>\<open>operator[]\<close>, with the address of the node whose value is referred to, and an assignment through that reference.\<close>

definition hm_index :: "'v \<Rightarrow> ('k \<Rightarrow> nat) \<Rightarrow> ('k \<Rightarrow> 'k \<Rightarrow> bool) \<Rightarrow> 'k \<Rightarrow> ('k, 'v) hashmap \<Rightarrow> (nat \<times> ('k, 'v) hashmap) option" where
  "hm_index dflt hash equal key m = do {
     found \<leftarrow> hm_lookup hash equal key m;
     case found of Some p \<Rightarrow> Some (p, m) | None \<Rightarrow> hm_append hash (key, dflt) m }"

definition hm_store :: "nat \<Rightarrow> 'v \<Rightarrow> ('k, 'v) hashmap \<Rightarrow> ('k, 'v) hashmap option" where
  "hm_store p v m = do { (k, old) \<leftarrow> hm_val m p; Some (m\<lparr>hm_val := (hm_val m)(p \<mapsto> (k, v))\<rparr>) }"

definition hm_find :: "('k \<Rightarrow> nat) \<Rightarrow> ('k \<Rightarrow> 'k \<Rightarrow> bool) \<Rightarrow> 'k \<Rightarrow> ('k, 'v) hashmap \<Rightarrow> nat option option" where
  "hm_find hash equal key m = hm_lookup hash equal key m"

definition hm_count :: "('k \<Rightarrow> nat) \<Rightarrow> ('k \<Rightarrow> 'k \<Rightarrow> bool) \<Rightarrow> 'k \<Rightarrow> ('k, 'v) hashmap \<Rightarrow> nat option" where
  "hm_count hash equal key m = do { found \<leftarrow> hm_lookup hash equal key m; Some (case found of None \<Rightarrow> 0 | Some p \<Rightarrow> 1) }"

definition hm_erase :: "('k \<Rightarrow> nat) \<Rightarrow> nat option \<Rightarrow> ('k, 'v) hashmap \<Rightarrow> ('k, 'v) hashmap result" where
  "hm_erase hash pos m = (case pos of
     None \<Rightarrow> throws invalid_iterator
   | Some p \<Rightarrow>
       (case hm_val m p of
          None \<Rightarrow> None
        | Some (k, v) \<Rightarrow>
            (case arr_get (hm_table m) (bucket hash k (hm_capacity m)) of
               None \<Rightarrow> None
             | Some chain \<Rightarrow>
                 if p \<notin> set chain then None
                 else returns (m\<lparr>hm_order := remove1 p (hm_order m), hm_table := (hm_table m)[bucket hash k (hm_capacity m) := remove1 p chain],
                        hm_val := (hm_val m)(p := None), hm_numOfElements := hm_numOfElements m - 1\<rparr>))))"

definition hm_size :: "('k, 'v) hashmap \<Rightarrow> nat" where
  "hm_size m = hm_numOfElements m"

definition hm_empty :: "('k, 'v) hashmap \<Rightarrow> bool" where
  "hm_empty m \<longleftrightarrow> hm_numOfElements m = 0"

text \<open>\<open>clear\<close> deletes every node; the loop deletes all but the last.\<close>

definition delete_nodes :: "nat list \<Rightarrow> (nat \<Rightarrow> ('k \<times> 'v) option) \<Rightarrow> nat \<Rightarrow> ('k \<times> 'v) option" where
  "delete_nodes ps val = fold (\<lambda>p val. val(p := None)) ps val"

definition hm_clear :: "('k, 'v) hashmap \<Rightarrow> ('k, 'v) hashmap" where
  "hm_clear m = (
     if hm_numOfElements m = 0 then m
     else
       let val = delete_nodes (butlast (hm_order m)) (hm_val m);
           val = (if hm_order m = [] then val else val(last (hm_order m) := None))
       in m\<lparr>hm_val := val, hm_order := [], hm_table := replicate (hm_capacity m) [], hm_numOfElements := 0\<rparr>)"

section \<open>Iterators\<close>

definition hm_begin :: "('k, 'v) hashmap \<Rightarrow> nat option" where
  "hm_begin m = (case hm_order m of [] \<Rightarrow> None | p # ps \<Rightarrow> Some p)"

definition hm_end :: "('k, 'v) hashmap \<Rightarrow> nat option" where
  "hm_end m = None"

fun next_in :: "nat \<Rightarrow> nat list \<Rightarrow> nat option" where
  "next_in p (q # q' # qs) = (if q = p then Some q' else next_in p (q' # qs))"
| "next_in p _ = None"

definition hm_incr :: "nat option \<Rightarrow> ('k, 'v) hashmap \<Rightarrow> nat option result" where
  "hm_incr it m = (case it of
     None \<Rightarrow> throws invalid_iterator
   | Some p \<Rightarrow> if p \<in> set (hm_order m) then returns (next_in p (hm_order m)) else None)"

definition hm_decr :: "nat option \<Rightarrow> ('k, 'v) hashmap \<Rightarrow> nat option result" where
  "hm_decr it m = (
     if it = hm_begin m then throws invalid_iterator
     else case it of
       None \<Rightarrow> returns (Some (last (hm_order m)))
     | Some p \<Rightarrow> if p \<in> set (hm_order m) then returns (next_in p (rev (hm_order m))) else None)"

definition hm_deref :: "nat option \<Rightarrow> ('k, 'v) hashmap \<Rightarrow> ('k \<times> 'v) result" where
  "hm_deref it m = (case it of
     None \<Rightarrow> throws invalid_iterator
   | Some p \<Rightarrow> (case hm_val m p of None \<Rightarrow> None | Some kv \<Rightarrow> returns kv))"

section \<open>Copies\<close>

text \<open>The copying loop: the new node is the first of its chain and the last in the order.\<close>

fun copy_nodes :: "('k \<Rightarrow> nat) \<Rightarrow> (nat \<Rightarrow> ('k \<times> 'v) option) \<Rightarrow> nat list \<Rightarrow> ('k, 'v) hashmap \<Rightarrow> ('k, 'v) hashmap option" where
  "copy_nodes hash others [] m = Some m"
| "copy_nodes hash others (p # ps) m = do {
     kv \<leftarrow> others p;
     let q = hm_fresh m; let i = bucket hash (fst kv) (hm_capacity m);
     chain \<leftarrow> arr_get (hm_table m) i;
     table \<leftarrow> arr_set (hm_table m) i (q # chain);
     copy_nodes hash others ps (m\<lparr>hm_table := table, hm_order := hm_order m @ [q], hm_val := (hm_val m)(q \<mapsto> kv), hm_fresh := q + 1\<rparr>) }"

definition hm_copy :: "('k \<Rightarrow> nat) \<Rightarrow> ('k, 'v) hashmap \<Rightarrow> ('k, 'v) hashmap option" where
  "hm_copy hash other = copy_nodes hash (hm_val other) (hm_order other)
     ((hm_new (hm_capacity other) (hm_loadFactor other))\<lparr>hm_numOfElements := hm_numOfElements other\<rparr>)"

text \<open>\<open>operator=\<close> deletes all nodes but the last and forgets that one.\<close>

definition hm_assign :: "('k \<Rightarrow> nat) \<Rightarrow> ('k, 'v) hashmap \<Rightarrow> ('k, 'v) hashmap \<Rightarrow> ('k, 'v) hashmap option" where
  "hm_assign hash m other = (
     let n = hm_numOfElements m;
         m = m\<lparr>hm_val := delete_nodes (butlast (hm_order m)) (hm_val m), hm_order := []\<rparr>;
         m = (if hm_capacity m \<noteq> hm_capacity other then m\<lparr>hm_capacity := hm_capacity other, hm_table := replicate (hm_capacity other) []\<rparr>
              else if n \<noteq> 0 then m\<lparr>hm_table := replicate (hm_capacity m) []\<rparr> else m)
     in copy_nodes hash (hm_val other) (hm_order other) (m\<lparr>hm_numOfElements := hm_numOfElements other, hm_loadFactor := hm_loadFactor other\<rparr>))"

text \<open>The destructor: the nodes that remain in memory.\<close>

definition hm_destroy :: "('k, 'v) hashmap \<Rightarrow> nat \<Rightarrow> ('k \<times> 'v) option" where
  "hm_destroy m = (
     if hm_numOfElements m = 0 then hm_val m
     else
       let val = delete_nodes (butlast (hm_order m)) (hm_val m)
       in if hm_order m = [] then val else val(last (hm_order m) := None))"

section \<open>The invariant\<close>

text \<open>The entries in the order of insertion.\<close>

definition entries :: "('k, 'v) hashmap \<Rightarrow> ('k \<times> 'v) list" where
  "entries m = map (\<lambda>p. the (hm_val m p)) (hm_order m)"

definition in_bucket :: "('k \<Rightarrow> nat) \<Rightarrow> nat \<Rightarrow> (nat \<Rightarrow> ('k \<times> 'v) option) \<Rightarrow> nat set \<Rightarrow> nat \<Rightarrow> nat list \<Rightarrow> bool" where
  "in_bucket hash capacity val ps i chain \<longleftrightarrow> distinct chain \<and> set chain = {p \<in> ps. bucket hash (fst (the (val p))) capacity = i}"

definition chains_ok :: "('k \<Rightarrow> nat) \<Rightarrow> nat \<Rightarrow> (nat \<Rightarrow> ('k \<times> 'v) option) \<Rightarrow> nat set \<Rightarrow> nat list list \<Rightarrow> bool" where
  "chains_ok hash capacity val ps table \<longleftrightarrow> length table = capacity \<and> (\<forall>i < capacity. in_bucket hash capacity val ps i (table ! i))"

definition hm_inv :: "('k \<Rightarrow> nat) \<Rightarrow> ('k, 'v) hashmap \<Rightarrow> bool" where
  "hm_inv hash m \<longleftrightarrow> 0 < hm_capacity m \<and> chains_ok hash (hm_capacity m) (hm_val m) (set (hm_order m)) (hm_table m) \<and>
     distinct (hm_order m) \<and> (\<forall>p \<in> set (hm_order m). hm_val m p \<noteq> None) \<and> (\<forall>p. hm_val m p \<noteq> None \<longrightarrow> p < hm_fresh m) \<and>
     hm_numOfElements m = length (hm_order m) \<and> distinct (map fst (entries m))"

lemma bucket_less: "0 < capacity \<Longrightarrow> bucket hash key capacity < capacity"
proof -
  assume "0 < capacity"
  have "hash key AND (capacity - 1) \<le> capacity - 1" by (simp add: and_nat_def nat_le_iff)
  with \<open>0 < capacity\<close> show ?thesis by (simp add: bucket_def)
qed

lemma chains_empty: "chains_ok hash capacity val {} (replicate capacity [])"
  by (simp add: chains_ok_def in_bucket_def)

text \<open>A chain gains a node at its front or at its end.\<close>

lemma chains_add:
  assumes "chains_ok hash capacity val ps table" "p \<notin> ps" "\<forall>q \<in> ps. val' q = val q" "bucket hash (fst (the (val' p))) capacity = i" "i < capacity"
    and "chain = p # table ! i \<or> chain = table ! i @ [p]"
  shows "chains_ok hash capacity val' (insert p ps) (table[i := chain])"
proof -
  have t: "length table = capacity" "\<And>j. j < capacity \<Longrightarrow> in_bucket hash capacity val ps j (table ! j)" using assms(1) by (simp_all add: chains_ok_def)
  have "in_bucket hash capacity val' (insert p ps) j (table[i := chain] ! j)" if "j < capacity" for j
  proof (cases "j = i")
    case True
    have "set chain = insert p (set (table ! i))" "distinct chain \<longleftrightarrow> p \<notin> set (table ! i) \<and> distinct (table ! i)" using assms(6) by auto
    with True t(1) t(2) [OF that] assms(2-5) show ?thesis by (auto simp: in_bucket_def)
  next
    case False
    with t(1) t(2) [OF that] assms(2-4) show ?thesis by (auto simp: in_bucket_def)
  qed
  with t(1) show ?thesis by (simp add: chains_ok_def)
qed

lemma chains_remove:
  assumes "chains_ok hash capacity val ps table" "p \<in> ps" "bucket hash (fst (the (val p))) capacity = i" "i < capacity"
  shows "chains_ok hash capacity (val(p := None)) (ps - {p}) (table[i := remove1 p (table ! i)])"
proof -
  have t: "length table = capacity" "\<And>j. j < capacity \<Longrightarrow> in_bucket hash capacity val ps j (table ! j)" using assms(1) by (simp_all add: chains_ok_def)
  have "in_bucket hash capacity (val(p := None)) (ps - {p}) j (table[i := remove1 p (table ! i)] ! j)" if "j < capacity" for j
    using t(1) t(2) [OF that] assms(3) that by (cases "j = i") (auto simp: in_bucket_def set_remove1_eq)
  with t(1) show ?thesis by (simp add: chains_ok_def)
qed

lemma rechain_ok:
  assumes "chains_ok hash capacity val ps table" "0 < capacity" "distinct qs" "set qs \<inter> ps = {}" "\<forall>q \<in> set qs. val q \<noteq> None"
  shows "\<exists>table'. rechain hash capacity val qs table = Some table' \<and> chains_ok hash capacity val (ps \<union> set qs) table'"
  using assms
proof (induction qs arbitrary: ps table)
  case (Cons q qs)
  from Cons.prems(5) obtain k v where kv: "val q = Some (k, v)" by auto
  define i where "i = bucket hash k capacity"
  have i: "i < capacity" "length table = capacity" using Cons.prems(1,2) by (simp_all add: i_def bucket_less chains_ok_def)
  have "chains_ok hash capacity val (insert q ps) (table[i := q # table ! i])"
    using chains_add [OF Cons.prems(1), of q val i "q # table ! i"] Cons.prems(4) kv i by (simp add: i_def)
  from Cons.IH [OF this Cons.prems(2)] Cons.prems(3-5) obtain table' where
    "rechain hash capacity val qs (table[i := q # table ! i]) = Some table'" "chains_ok hash capacity val (insert q ps \<union> set qs) table'" by auto
  with kv i show ?case by (simp add: i_def [symmetric])
qed simp

text \<open>The capacity after \<open>resize\<close> is not zero, and only table and capacity change.\<close>

lemma resize_ok:
  assumes "hm_inv hash m"
  shows "\<exists>m'. hm_resize hash m = Some m' \<and> hm_inv hash m' \<and> hm_val m' = hm_val m \<and> hm_order m' = hm_order m \<and> hm_fresh m' = hm_fresh m"
proof (cases "of_nat (hm_capacity m) * hm_loadFactor m < of_nat (hm_numOfElements m)")
  case True
  define capacity where "capacity = push_bit 1 (hm_capacity m)"
  have "0 < capacity" using assms by (simp add: capacity_def hm_inv_def push_bit_eq_mult)
  from rechain_ok [OF chains_empty this, of "hm_order m" "hm_val m" hash] assms obtain table where
    t: "rechain hash capacity (hm_val m) (hm_order m) (replicate capacity []) = Some table" "chains_ok hash capacity (hm_val m) (set (hm_order m)) table"
    by (auto simp: hm_inv_def)
  have "hm_resize hash m = Some (m\<lparr>hm_capacity := capacity, hm_table := table\<rparr>)"
    using True t(1) by (simp add: hm_resize_def Let_def capacity_def)
  with assms t(2) \<open>0 < capacity\<close> show ?thesis by (simp add: hm_inv_def entries_def)
qed (use assms in \<open>simp add: hm_resize_def\<close>)

section \<open>Every operation keeps it\<close>

lemma chain_find_spec:
  assumes "\<forall>p \<in> set chain. val p \<noteq> None"
  shows "chain_find (=) val key chain = Some (find (\<lambda>p. fst (the (val p)) = key) chain)"
  using assms by (induction chain) auto

lemma entries_nth: "p \<in> set (hm_order m) \<Longrightarrow> the (hm_val m p) \<in> set (entries m)"
  by (simp add: entries_def)

lemma same_key_same_node:
  assumes "hm_inv hash m" "p \<in> set (hm_order m)" "q \<in> set (hm_order m)" "fst (the (hm_val m p)) = fst (the (hm_val m q))"
  shows "p = q"
proof -
  have "inj_on (\<lambda>p. fst (the (hm_val m p))) (set (hm_order m))"
    using assms(1) by (simp add: hm_inv_def entries_def distinct_map comp_def)
  from inj_onD [OF this, of p q] assms(2-4) show ?thesis by simp
qed

text \<open>A lookup finds the node with the key.\<close>

lemma lookup_ok:
  assumes "hm_inv hash m"
  shows "\<exists>found. hm_lookup hash (=) key m = Some found \<and>
    (case found of None \<Rightarrow> key \<notin> fst ` set (entries m) | Some p \<Rightarrow> p \<in> set (hm_order m) \<and> (\<exists>v. hm_val m p = Some (key, v)))"
proof -
  define i where "i = bucket hash key (hm_capacity m)"
  define chain where "chain = hm_table m ! i"
  have "i < hm_capacity m" using assms by (simp add: i_def bucket_less hm_inv_def)
  then have chain: "set chain = {p \<in> set (hm_order m). bucket hash (fst (the (hm_val m p))) (hm_capacity m) = i}" "arr_get (hm_table m) i = Some chain"
    using assms by (simp_all add: hm_inv_def chains_ok_def in_bucket_def chain_def)
  have val: "\<forall>p \<in> set chain. hm_val m p \<noteq> None" using assms chain(1) by (simp add: hm_inv_def)
  then have find: "hm_lookup hash (=) key m = Some (find (\<lambda>p. fst (the (hm_val m p)) = key) chain)"
    using chain(2) by (simp add: hm_lookup_def i_def [symmetric] chain_find_spec)
  show ?thesis
  proof (cases "find (\<lambda>p. fst (the (hm_val m p)) = key) chain")
    case None
    then have none: "\<forall>p \<in> set chain. fst (the (hm_val m p)) \<noteq> key" by (simp add: find_None_iff)
    have "fst (the (hm_val m p)) \<noteq> key" if "p \<in> set (hm_order m)" for p
      using none chain(1) that by (auto simp: i_def)
    then have "key \<notin> fst ` set (entries m)" by (auto simp: entries_def image_iff)
    with None find show ?thesis by simp
  next
    case (Some p)
    then have "p \<in> set chain" "fst (the (hm_val m p)) = key" by (auto simp: find_Some_iff)
    with chain(1) val have "p \<in> set (hm_order m)" "\<exists>v. hm_val m p = Some (key, v)" by force+
    with Some find show ?thesis by simp
  qed
qed

lemma append_ok:
  assumes "hm_inv hash m" "fst kv \<notin> fst ` set (entries m)"
  shows "\<exists>p m'. hm_append hash kv m = Some (p, m') \<and> hm_inv hash m' \<and> entries m' = entries m @ [kv] \<and> p \<in> set (hm_order m') \<and> hm_val m' p = Some kv"
proof -
  define p where "p = hm_fresh m"
  define i where "i = bucket hash (fst kv) (hm_capacity m)"
  define m1 where "m1 = m\<lparr>hm_table := (hm_table m)[i := hm_table m ! i @ [p]], hm_order := hm_order m @ [p], hm_val := (hm_val m)(p \<mapsto> kv),
    hm_numOfElements := hm_numOfElements m + 1, hm_fresh := p + 1\<rparr>"
  have i: "i < hm_capacity m" "length (hm_table m) = hm_capacity m" using assms(1) by (simp_all add: i_def bucket_less hm_inv_def chains_ok_def)
  have p: "hm_val m p = None" "p \<notin> set (hm_order m)" using assms(1) unfolding hm_inv_def p_def by blast+
  have entries: "entries m1 = entries m @ [kv]" using p(2) by (auto simp: entries_def m1_def)
  have "chains_ok hash (hm_capacity m) ((hm_val m)(p \<mapsto> kv)) (insert p (set (hm_order m))) ((hm_table m)[i := hm_table m ! i @ [p]])"
    by (rule chains_add) (use assms(1) p(2) i in \<open>auto simp: hm_inv_def i_def\<close>)
  moreover have "q < p + 1" if "((hm_val m)(p \<mapsto> kv)) q \<noteq> None" for q
    using that assms(1) unfolding hm_inv_def p_def by (cases "q = hm_fresh m") (auto intro: less_SucI)
  moreover have "distinct (map fst (entries m1))" using assms entries by (simp add: hm_inv_def)
  ultimately have "hm_inv hash m1" using assms(1) p(2) by (simp add: hm_inv_def m1_def)
  from resize_ok [OF this] obtain m' where m': "hm_resize hash m1 = Some m'" "hm_inv hash m'" "hm_val m' = hm_val m1" "hm_order m' = hm_order m1" by blast
  have "hm_append hash kv m = Some (p, m')" using m'(1) i by (simp add: hm_append_def Let_def p_def [symmetric] i_def [symmetric] m1_def)
  moreover have "entries m' = entries m1" using m'(3,4) by (simp add: entries_def)
  ultimately show ?thesis using m'(2-4) entries by (simp add: m1_def)
qed

text \<open>Storing through a reference and erasing at an iterator.\<close>

definition put :: "'k \<Rightarrow> 'v \<Rightarrow> ('k \<times> 'v) list \<Rightarrow> ('k \<times> 'v) list" where
  "put key v es = map (\<lambda>(k, x). (k, if k = key then v else x)) es"

lemma map_fst_put [simp]: "map fst (put key v es) = map fst es"
  by (simp add: put_def case_prod_beta comp_def)

lemma store_ok:
  assumes "hm_inv hash m" "p \<in> set (hm_order m)" "hm_val m p = Some (key, x)"
  shows "\<exists>m'. hm_store p v m = Some m' \<and> hm_inv hash m' \<and> entries m' = put key v (entries m)"
proof -
  define m' where "m' = m\<lparr>hm_val := (hm_val m)(p \<mapsto> (key, v))\<rparr>"
  have store: "hm_store p v m = Some m'" using assms(3) by (simp add: hm_store_def m'_def)
  have "the (hm_val m' q) = (\<lambda>(k, x). (k, if k = key then v else x)) (the (hm_val m q))" if "q \<in> set (hm_order m)" for q
  proof (cases "q = p")
    case False
    with same_key_same_node [OF assms(1,2) that] assms(3) have "fst (the (hm_val m q)) \<noteq> key" by auto
    with False show ?thesis by (cases "the (hm_val m q)") (simp add: m'_def)
  qed (use assms(3) in \<open>simp add: m'_def\<close>)
  then have entries: "entries m' = put key v (entries m)" by (simp add: entries_def put_def m'_def)
  have keys: "fst (the (((hm_val m)(p \<mapsto> (key, v))) q)) = fst (the (hm_val m q))" for q using assms(3) by simp
  have "chains_ok hash (hm_capacity m) ((hm_val m)(p \<mapsto> (key, v))) (set (hm_order m)) (hm_table m)"
    using assms(1) unfolding hm_inv_def chains_ok_def in_bucket_def keys by blast
  moreover have "q < hm_fresh m" if "((hm_val m)(p \<mapsto> (key, v))) q \<noteq> None" for q
    using that assms(1,3) unfolding hm_inv_def by (cases "q = p") auto
  moreover have "distinct (map fst (entries m'))" using assms(1) by (simp add: entries hm_inv_def)
  ultimately have "hm_inv hash m'" using assms(1) unfolding hm_inv_def m'_def by simp
  with store entries show ?thesis by blast
qed

lemma hm_erase_ok:
  assumes "hm_inv hash m" "p \<in> set (hm_order m)" "hm_val m p = Some (key, x)"
  shows "\<exists>m'. hm_erase hash (Some p) m = returns m' \<and> hm_inv hash m' \<and> entries m' = filter (\<lambda>(k, v). k \<noteq> key) (entries m)"
proof -
  define i where "i = bucket hash key (hm_capacity m)"
  define m' where "m' = m\<lparr>hm_order := remove1 p (hm_order m), hm_table := (hm_table m)[i := remove1 p (hm_table m ! i)],
    hm_val := (hm_val m)(p := None), hm_numOfElements := hm_numOfElements m - 1\<rparr>"
  have i: "i < hm_capacity m" "length (hm_table m) = hm_capacity m" using assms(1) by (simp_all add: i_def bucket_less hm_inv_def chains_ok_def)
  then have "p \<in> set (hm_table m ! i)" using assms by (simp add: hm_inv_def chains_ok_def in_bucket_def i_def)
  then have erase: "hm_erase hash (Some p) m = returns m'" using assms(3) i by (simp add: hm_erase_def m'_def i_def [symmetric])
  have order: "distinct (hm_order m)" using assms(1) by (simp add: hm_inv_def)
  then have rest: "remove1 p (hm_order m) = filter (\<lambda>q. q \<noteq> p) (hm_order m)" by (auto simp: distinct_remove1_removeAll removeAll_filter_not_eq intro: filter_cong)
  have other: "(case the (hm_val m q) of (k, v) \<Rightarrow> k \<noteq> key) \<longleftrightarrow> q \<noteq> p" if "q \<in> set (hm_order m)" for q
    using same_key_same_node [OF assms(1,2) that] assms(3) by (auto simp: case_prod_beta)
  have "entries m' = map (\<lambda>q. the (hm_val m q)) (filter (\<lambda>q. q \<noteq> p) (hm_order m))"
    unfolding entries_def m'_def rest by simp
  also have "\<dots> = filter (\<lambda>(k, v). k \<noteq> key) (entries m)"
    unfolding entries_def filter_map comp_def using other by (simp cong: filter_cong)
  finally have entries: "entries m' = filter (\<lambda>(k, v). k \<noteq> key) (entries m)" .
  have "set (remove1 p (hm_order m)) = set (hm_order m) - {p}" using order by (simp add: set_remove1_eq)
  moreover have "chains_ok hash (hm_capacity m) ((hm_val m)(p := None)) (set (hm_order m) - {p}) ((hm_table m)[i := remove1 p (hm_table m ! i)])"
    by (rule chains_remove) (use assms i in \<open>simp_all add: hm_inv_def i_def\<close>)
  moreover have "distinct (map fst (entries m'))" using assms(1) unfolding entries by (simp add: hm_inv_def distinct_map_filter)
  ultimately have "hm_inv hash m'" using assms(1,2) order by (auto simp: hm_inv_def m'_def length_remove1 split: if_splits)
  with erase entries show ?thesis by blast
qed

lemma delete_nodes_apply: "delete_nodes ps val q = (if q \<in> set ps then None else val q)"
  unfolding delete_nodes_def by (induction ps arbitrary: val) auto

lemma clear_ok: "hm_inv hash m \<Longrightarrow> hm_inv hash (hm_clear m) \<and> entries (hm_clear m) = [] \<and> (hm_numOfElements m \<noteq> 0 \<longrightarrow> (\<forall>p \<in> set (hm_order m). hm_val (hm_clear m) p = None))"
proof (cases "hm_numOfElements m = 0")
  case False
  assume inv: "hm_inv hash m"
  with False have ne: "hm_order m \<noteq> []" by (auto simp: hm_inv_def)
  then have order: "set (hm_order m) = insert (last (hm_order m)) (set (butlast (hm_order m)))"
    by (metis append_butlast_last_id list.simps(15) rotate1.simps(2) set_rotate1)
  then have "hm_val (hm_clear m) q = (if q \<in> set (hm_order m) then None else hm_val m q)" for q
    using False ne by (simp add: hm_clear_def Let_def delete_nodes_apply)
  moreover from this have "\<forall>q. hm_val (hm_clear m) q \<noteq> None \<longrightarrow> q < hm_fresh m" using inv by (simp add: hm_inv_def)
  moreover have "hm_order (hm_clear m) = []" "hm_numOfElements (hm_clear m) = 0" "hm_capacity (hm_clear m) = hm_capacity m"
    "hm_table (hm_clear m) = replicate (hm_capacity m) []" "hm_fresh (hm_clear m) = hm_fresh m"
    using False by (simp_all add: hm_clear_def Let_def)
  ultimately show ?thesis using inv chains_empty [of hash "hm_capacity m" "hm_val (hm_clear m)"] by (simp add: hm_inv_def entries_def)
qed (auto simp: hm_clear_def hm_inv_def entries_def)

lemma destroy_ok: "hm_inv hash m \<Longrightarrow> p \<in> set (hm_order m) \<Longrightarrow> hm_destroy m p = None"
  using clear_ok [of hash m] by (cases "hm_numOfElements m = 0") (auto simp: hm_clear_def hm_destroy_def hm_inv_def Let_def)

section \<open>Copies have the same entries\<close>

text \<open>The count is set before the loop that copies, so the invariant is one of the map with the right count.\<close>

abbreviation counted :: "('k, 'v) hashmap \<Rightarrow> ('k, 'v) hashmap" where
  "counted m \<equiv> m\<lparr>hm_numOfElements := length (hm_order m)\<rparr>"

lemma copy_nodes_ok:
  assumes "hm_inv hash (counted m)" "\<forall>p \<in> set ps. others p \<noteq> None" "distinct (map fst (entries m @ map (\<lambda>p. the (others p)) ps))"
  shows "\<exists>m'. copy_nodes hash others ps m = Some m' \<and> hm_inv hash (counted m') \<and> entries m' = entries m @ map (\<lambda>p. the (others p)) ps \<and>
    hm_numOfElements m' = hm_numOfElements m \<and> hm_loadFactor m' = hm_loadFactor m \<and> hm_capacity m' = hm_capacity m \<and>
    (\<forall>p < hm_fresh m. hm_val m' p = hm_val m p \<and> (p \<in> set (hm_order m') \<longrightarrow> p \<in> set (hm_order m)))"
  using assms
proof (induction ps arbitrary: m)
  case Nil
  then show ?case by simp
next
  case (Cons p ps)
  from Cons.prems(2) obtain kv where kv: "others p = Some kv" by auto
  define q where "q = hm_fresh m"
  define i where "i = bucket hash (fst kv) (hm_capacity m)"
  define m1 where "m1 = m\<lparr>hm_table := (hm_table m)[i := q # hm_table m ! i], hm_order := hm_order m @ [q], hm_val := (hm_val m)(q \<mapsto> kv), hm_fresh := q + 1\<rparr>"
  have i: "i < hm_capacity m" "length (hm_table m) = hm_capacity m" using Cons.prems(1) by (simp_all add: i_def bucket_less hm_inv_def chains_ok_def)
  have q: "q \<notin> set (hm_order m)" using Cons.prems(1) unfolding hm_inv_def q_def by auto
  have entries: "entries m1 = entries m @ [kv]" using q by (auto simp: entries_def m1_def)
  have "chains_ok hash (hm_capacity m) ((hm_val m)(q \<mapsto> kv)) (insert q (set (hm_order m))) ((hm_table m)[i := q # hm_table m ! i])"
    by (rule chains_add) (use Cons.prems(1) q i in \<open>auto simp: hm_inv_def i_def\<close>)
  moreover have "r < q + 1" if "((hm_val m)(q \<mapsto> kv)) r \<noteq> None" for r
    using that Cons.prems(1) unfolding hm_inv_def q_def by (cases "r = hm_fresh m") (auto intro: less_SucI)
  moreover have "distinct (map fst (entries (counted m1)))" using Cons.prems(3) entries kv by (simp add: entries_def)
  ultimately have "hm_inv hash (counted m1)" using Cons.prems(1) q by (simp add: hm_inv_def m1_def)
  moreover have "distinct (map fst (entries m1 @ map (\<lambda>p. the (others p)) ps))" using Cons.prems(3) entries kv by simp
  ultimately obtain m' where m': "copy_nodes hash others ps m1 = Some m'" "hm_inv hash (counted m')"
    "entries m' = entries m1 @ map (\<lambda>p. the (others p)) ps" "hm_numOfElements m' = hm_numOfElements m1" "hm_loadFactor m' = hm_loadFactor m1"
    "hm_capacity m' = hm_capacity m1" "\<forall>p < hm_fresh m1. hm_val m' p = hm_val m1 p \<and> (p \<in> set (hm_order m') \<longrightarrow> p \<in> set (hm_order m1))"
    using Cons.IH [of m1] Cons.prems(2) by auto
  moreover have "copy_nodes hash others (p # ps) m = Some m'"
    using m'(1) kv i by (simp add: Let_def q_def [symmetric] i_def [symmetric] m1_def)
  moreover have "hm_val m' r = hm_val m r \<and> (r \<in> set (hm_order m') \<longrightarrow> r \<in> set (hm_order m))" if "r < hm_fresh m" for r
    using m'(7) [rule_format, of r] that by (auto simp: m1_def q_def)
  moreover have "entries m' = entries m @ map (\<lambda>p. the (others p)) (p # ps)" using m'(3) entries kv by simp
  ultimately show ?case by (auto simp: m1_def)
qed

lemma hm_numOfElements_entries: "hm_inv hash m \<Longrightarrow> hm_numOfElements m = length (entries m)"
  by (simp add: hm_inv_def entries_def)

lemma inv_of_counted: "hm_inv hash (counted m) \<Longrightarrow> hm_numOfElements m = length (entries m) \<Longrightarrow> hm_inv hash m"
  by (simp add: hm_inv_def entries_def)

lemma inv_entries: "hm_inv hash m \<Longrightarrow> (\<forall>p \<in> set (hm_order m). hm_val m p \<noteq> None) \<and> distinct (map fst (map (\<lambda>p. the (hm_val m p)) (hm_order m)))"
  by (simp add: hm_inv_def entries_def)

lemma hm_copy_ok:
  assumes "hm_inv hash other"
  shows "\<exists>m. hm_copy hash other = Some m \<and> hm_inv hash m \<and> entries m = entries other"
proof -
  define m0 :: "('a, 'b) hashmap" where "m0 = (hm_new (hm_capacity other) (hm_loadFactor other))\<lparr>hm_numOfElements := hm_numOfElements other\<rparr>"
  have m0: "entries m0 = []" "hm_numOfElements m0 = hm_numOfElements other" by (simp_all add: m0_def hm_new_def entries_def)
  have "hm_inv hash (counted m0)" using assms by (simp add: m0_def hm_new_def hm_inv_def entries_def chains_empty)
  from copy_nodes_ok [OF this, of "hm_order other" "hm_val other"] inv_entries [OF assms] obtain m where
    m: "copy_nodes hash (hm_val other) (hm_order other) m0 = Some m" "hm_inv hash (counted m)" "entries m = entries other" "hm_numOfElements m = hm_numOfElements other"
    unfolding m0 append_Nil entries_def [of other, symmetric] by blast
  have "hm_inv hash m" by (rule inv_of_counted [OF m(2)]) (simp only: m(3,4) hm_numOfElements_entries [OF assms])
  moreover have "hm_copy hash other = Some m" using m(1) by (simp add: hm_copy_def m0_def)
  ultimately show ?thesis using m(3) by blast
qed

text \<open>An assignment gives the same entries and leaves the last node of the old list in memory, where nothing points to it.\<close>

lemma hm_assign_leaks:
  assumes "hm_inv hash m" "hm_inv hash other"
  shows "\<exists>m'. hm_assign hash m other = Some m' \<and> hm_inv hash m' \<and> entries m' = entries other \<and>
    (hm_order m \<noteq> [] \<longrightarrow> hm_val m' (last (hm_order m)) \<noteq> None \<and> last (hm_order m) \<notin> set (hm_order m'))"
proof -
  define m0 where "m0 = m\<lparr>hm_val := delete_nodes (butlast (hm_order m)) (hm_val m), hm_order := []\<rparr>"
  define m1 where "m1 = (if hm_capacity m0 \<noteq> hm_capacity other then m0\<lparr>hm_capacity := hm_capacity other, hm_table := replicate (hm_capacity other) []\<rparr>
    else if hm_numOfElements m \<noteq> 0 then m0\<lparr>hm_table := replicate (hm_capacity m0) []\<rparr> else m0)"
  define m2 where "m2 = m1\<lparr>hm_numOfElements := hm_numOfElements other, hm_loadFactor := hm_loadFactor other\<rparr>"
  have assign: "hm_assign hash m other = copy_nodes hash (hm_val other) (hm_order other) m2"
    by (simp add: hm_assign_def Let_def m0_def m1_def m2_def)
  have same: "hm_order m2 = []" "hm_fresh m2 = hm_fresh m" "hm_capacity m2 = hm_capacity other" "hm_numOfElements m2 = hm_numOfElements other"
    "hm_val m2 = delete_nodes (butlast (hm_order m)) (hm_val m)" by (auto simp: m2_def m1_def m0_def)
  have "chains_ok hash (hm_capacity other) (hm_val m2) {} (hm_table m2)"
  proof (cases "hm_capacity m = hm_capacity other \<and> hm_numOfElements m = 0")
    case True
    with assms(1) have "hm_order m = []" by (simp add: hm_inv_def)
    moreover have "chains_ok hash (hm_capacity m) (hm_val m) (set (hm_order m)) (hm_table m)" using assms(1) by (simp add: hm_inv_def)
    ultimately have "chains_ok hash (hm_capacity other) (hm_val m) {} (hm_table m)" using True by simp
    moreover have "hm_table m2 = hm_table m" using True by (simp add: m2_def m1_def m0_def)
    ultimately show ?thesis by (simp add: chains_ok_def in_bucket_def)
  next
    case False
    then have "hm_table m2 = replicate (hm_capacity other) []" by (auto simp: m2_def m1_def m0_def)
    then show ?thesis by (simp add: chains_empty)
  qed
  moreover have "p < hm_fresh m" if "hm_val m2 p \<noteq> None" for p
    using that assms(1) unfolding hm_inv_def same delete_nodes_apply by (metis)
  ultimately have inv2: "hm_inv hash (counted m2)" using assms(2) same by (simp add: hm_inv_def entries_def)
  have all: "entries m2 @ map (\<lambda>p. the (hm_val other p)) (hm_order other) = entries other" using same(1) by (simp add: entries_def)
  from inv_entries [OF assms(2)] have pre: "\<forall>p \<in> set (hm_order other). hm_val other p \<noteq> None" "distinct (map fst (entries m2 @ map (\<lambda>p. the (hm_val other p)) (hm_order other)))"
    unfolding all entries_def [of other] by blast+
  obtain m' where
    m': "copy_nodes hash (hm_val other) (hm_order other) m2 = Some m'" "hm_inv hash (counted m')" "entries m' = entries other" "hm_numOfElements m' = hm_numOfElements other"
    "\<forall>p < hm_fresh m. hm_val m' p = hm_val m2 p \<and> p \<notin> set (hm_order m')"
    using copy_nodes_ok [OF inv2 pre] unfolding all same by auto
  have "hm_inv hash m'" by (rule inv_of_counted [OF m'(2)]) (simp only: m'(3,4) hm_numOfElements_entries [OF assms(2)])
  moreover have "hm_val m' (last (hm_order m)) \<noteq> None \<and> last (hm_order m) \<notin> set (hm_order m')" if ne: "hm_order m \<noteq> []"
  proof -
    have "hm_val m (last (hm_order m)) \<noteq> None" "distinct (hm_order m)" using assms(1) ne by (simp_all add: hm_inv_def)
    moreover from this(1) assms(1) have "last (hm_order m) < hm_fresh m" unfolding hm_inv_def by blast
    moreover have "last (hm_order m) \<notin> set (butlast (hm_order m))"
      using \<open>distinct (hm_order m)\<close> ne distinct_append [of "butlast (hm_order m)" "[last (hm_order m)]"] by simp
    ultimately show ?thesis using m'(5) by (simp add: same(5) delete_nodes_apply)
  qed
  ultimately show ?thesis using m'(1,3) assign by auto
qed

section \<open>Walks\<close>

text \<open>Walking from \<open>begin()\<close> to \<open>end()\<close>.\<close>

partial_function (option) hm_walk :: "nat option \<Rightarrow> ('k, 'v) hashmap \<Rightarrow> ('k \<times> 'v) list result" where
  "hm_walk it m = (
     if it = hm_end m then returns []
     else case after (hm_deref it m) (\<lambda>kv. after (hm_incr it m) (\<lambda>it. returns (kv, it))) of
       None \<Rightarrow> None
     | Some (Inl e) \<Rightarrow> throws e
     | Some (Inr (kv, it)) \<Rightarrow> do { rest \<leftarrow> hm_walk it m; after (Some rest) (\<lambda>kvs. returns (kv # kvs)) })"

lemma next_in_append: "p \<notin> set ps \<Longrightarrow> next_in p (ps @ p # qs) = (case qs of [] \<Rightarrow> None | q # _ \<Rightarrow> Some q)"
proof (induction ps)
  case Nil
  then show ?case by (cases qs) simp_all
next
  case (Cons q ps)
  then show ?case by (cases ps) simp_all
qed

lemma walk_ok:
  assumes "\<forall>p \<in> set (hm_order m). hm_val m p \<noteq> None" "distinct (hm_order m)" "hm_order m = ps @ qs"
  shows "hm_walk (case qs of [] \<Rightarrow> None | q # _ \<Rightarrow> Some q) m = returns (map (\<lambda>p. the (hm_val m p)) qs)"
  using assms(3)
proof (induction qs arbitrary: ps)
  case Nil
  then show ?case by (subst hm_walk.simps) (simp add: hm_end_def returns_def)
next
  case (Cons q qs)
  then have q: "q \<in> set (hm_order m)" "q \<notin> set ps" using assms(2) by auto
  with assms(1) obtain kv where kv: "hm_val m q = Some kv" by auto
  have "next_in q (hm_order m) = (case qs of [] \<Rightarrow> None | p # _ \<Rightarrow> Some p)" using Cons.prems next_in_append [OF q(2)] by simp
  with q(1) have "hm_incr (Some q) m = returns (case qs of [] \<Rightarrow> None | p # _ \<Rightarrow> Some p)" by (simp add: hm_incr_def)
  moreover have "hm_walk (case qs of [] \<Rightarrow> None | p # _ \<Rightarrow> Some p) m = returns (map (\<lambda>p. the (hm_val m p)) qs)"
    using Cons.IH [of "ps @ [q]"] Cons.prems by simp
  ultimately show ?case using kv by (subst list.case, subst hm_walk.simps) (simp add: hm_end_def hm_deref_def returns_def after_def)
qed

section \<open>Sessions\<close>

datatype ('k, 'v) hm_command = At 'k | Index 'k | Assign 'k 'v | Insert 'k 'v | Erase 'k | Count 'k | Size | Empty | Clear | Items

datatype ('k, 'v) hm_answer = Shown 'v | Placed bool | Counted nat | Answered bool | Listed "('k \<times> 'v) list" | Done | Thrown stl_error

definition hm_do :: "'v \<Rightarrow> ('k \<Rightarrow> nat) \<Rightarrow> ('k \<Rightarrow> 'k \<Rightarrow> bool) \<Rightarrow> ('k, 'v) hm_command \<Rightarrow> ('k, 'v) hashmap \<Rightarrow> (('k, 'v) hm_answer \<times> ('k, 'v) hashmap) option" where
  "hm_do dflt hash equal command m = (case command of
     At k \<Rightarrow> (case hm_at hash equal k m of None \<Rightarrow> None | Some (Inl e) \<Rightarrow> Some (Thrown e, m) | Some (Inr v) \<Rightarrow> Some (Shown v, m))
   | Index k \<Rightarrow> do { (p, m) \<leftarrow> hm_index dflt hash equal k m; (k, v) \<leftarrow> hm_val m p; Some (Shown v, m) }
   | Assign k v \<Rightarrow> do { (p, m) \<leftarrow> hm_index dflt hash equal k m; m \<leftarrow> hm_store p v m; Some (Done, m) }
   | Insert k v \<Rightarrow> do { (p, new, m) \<leftarrow> hm_insert hash equal (k, v) m; Some (Placed new, m) }
   | Erase k \<Rightarrow> do { pos \<leftarrow> hm_find hash equal k m;
       (case hm_erase hash pos m of None \<Rightarrow> None | Some (Inl e) \<Rightarrow> Some (Thrown e, m) | Some (Inr m) \<Rightarrow> Some (Done, m)) }
   | Count k \<Rightarrow> do { n \<leftarrow> hm_count hash equal k m; Some (Counted n, m) }
   | Size \<Rightarrow> Some (Counted (hm_size m), m)
   | Empty \<Rightarrow> Some (Answered (hm_empty m), m)
   | Clear \<Rightarrow> Some (Done, hm_clear m)
   | Items \<Rightarrow> (case hm_walk (hm_begin m) m of None \<Rightarrow> None | Some (Inl e) \<Rightarrow> Some (Thrown e, m) | Some (Inr kvs) \<Rightarrow> Some (Listed kvs, m)))"

fun hm_run :: "'v \<Rightarrow> ('k \<Rightarrow> nat) \<Rightarrow> ('k \<Rightarrow> 'k \<Rightarrow> bool) \<Rightarrow> ('k, 'v) hm_command list \<Rightarrow> ('k, 'v) hashmap \<Rightarrow> ('k, 'v) hm_answer list option" where
  "hm_run dflt hash equal [] m = Some []"
| "hm_run dflt hash equal (command # commands) m = do {
     (answer, m) \<leftarrow> hm_do dflt hash equal command m; answers \<leftarrow> hm_run dflt hash equal commands m; Some (answer # answers) }"

text \<open>What they should do, on the list of the entries.\<close>

definition alist_do :: "'v \<Rightarrow> ('k, 'v) hm_command \<Rightarrow> ('k \<times> 'v) list \<Rightarrow> ('k, 'v) hm_answer \<times> ('k \<times> 'v) list" where
  "alist_do dflt command es = (case command of
     At k \<Rightarrow> (case map_of es k of None \<Rightarrow> Thrown index_out_of_bound | Some v \<Rightarrow> Shown v, es)
   | Index k \<Rightarrow> (case map_of es k of None \<Rightarrow> (Shown dflt, es @ [(k, dflt)]) | Some v \<Rightarrow> (Shown v, es))
   | Assign k v \<Rightarrow> (Done, case map_of es k of None \<Rightarrow> es @ [(k, v)] | Some x \<Rightarrow> put k v es)
   | Insert k v \<Rightarrow> (case map_of es k of None \<Rightarrow> (Placed True, es @ [(k, v)]) | Some x \<Rightarrow> (Placed False, es))
   | Erase k \<Rightarrow> (case map_of es k of None \<Rightarrow> (Thrown invalid_iterator, es) | Some x \<Rightarrow> (Done, filter (\<lambda>(k', v). k' \<noteq> k) es))
   | Count k \<Rightarrow> (Counted (case map_of es k of None \<Rightarrow> 0 | Some x \<Rightarrow> 1), es)
   | Size \<Rightarrow> (Counted (length es), es)
   | Empty \<Rightarrow> (Answered (es = []), es)
   | Clear \<Rightarrow> (Done, [])
   | Items \<Rightarrow> (Listed es, es))"

fun alist_run :: "'v \<Rightarrow> ('k, 'v) hm_command list \<Rightarrow> ('k \<times> 'v) list \<Rightarrow> ('k, 'v) hm_answer list" where
  "alist_run dflt [] es = []"
| "alist_run dflt (command # commands) es = (case alist_do dflt command es of (answer, es) \<Rightarrow> answer # alist_run dflt commands es)"

lemma map_of_entry:
  assumes "hm_inv hash m" "p \<in> set (hm_order m)" "hm_val m p = Some (key, v)"
  shows "map_of (entries m) key = Some v"
  using assms entries_nth [OF assms(2)] by (intro map_of_is_SomeI) (simp_all add: hm_inv_def)

text \<open>A lookup by cases on the list of the entries.\<close>

lemma lookup_cases:
  assumes "hm_inv hash m"
  obtains "hm_lookup hash (=) key m = Some None" "map_of (entries m) key = None" "key \<notin> fst ` set (entries m)"
  | p v where "hm_lookup hash (=) key m = Some (Some p)" "map_of (entries m) key = Some v" "p \<in> set (hm_order m)" "hm_val m p = Some (key, v)"
proof -
  obtain found where l: "hm_lookup hash (=) key m = Some found" and
    f: "case found of None \<Rightarrow> key \<notin> fst ` set (entries m) | Some p \<Rightarrow> p \<in> set (hm_order m) \<and> (\<exists>v. hm_val m p = Some (key, v))"
    using lookup_ok [OF assms, of key] by blast
  show thesis
  proof (cases found)
    case None
    with f l that(1) show ?thesis by (simp add: map_of_eq_None_iff)
  next
    case (Some p)
    with f obtain v where "p \<in> set (hm_order m)" "hm_val m p = Some (key, v)" by auto
    with that(2) l Some map_of_entry [OF assms this] show ?thesis by blast
  qed
qed

lemma put_entry: "map_of es key = Some x \<Longrightarrow> map_of (put key v es) key = Some v"
  by (induction es) (auto simp: put_def)

text \<open>\<open>operator[]\<close> gives the node of the key, which it adds with \<open>T()\<close> when there is none.\<close>

lemma index_ok:
  assumes "hm_inv hash m"
  shows "\<exists>p m' v. hm_index dflt hash (=) key m = Some (p, m') \<and> hm_inv hash m' \<and> p \<in> set (hm_order m') \<and> hm_val m' p = Some (key, v) \<and>
    (v, entries m') = (case map_of (entries m) key of None \<Rightarrow> (dflt, entries m @ [(key, dflt)]) | Some v \<Rightarrow> (v, entries m))"
  using assms
proof (cases rule: lookup_cases [where key = key])
  case 1
  with append_ok [OF assms, of "(key, dflt)"] show ?thesis by (auto simp: hm_index_def)
next
  case (2 p v)
  with assms show ?thesis by (auto simp: hm_index_def)
qed

lemma put_new: "key \<notin> fst ` set es \<Longrightarrow> put key v (es @ [(key, x)]) = es @ [(key, v)]"
  by (induction es) (auto simp: put_def)

lemma walk_entries: "hm_inv hash m \<Longrightarrow> hm_walk (hm_begin m) m = returns (entries m)"
  using walk_ok [of m "[]" "hm_order m"] by (simp add: hm_inv_def entries_def hm_begin_def cong: list.case_cong)

text \<open>Every command answers as on the list of the entries.\<close>

lemma hm_do_spec:
  assumes inv: "hm_inv hash m"
  shows "\<exists>m'. hm_do dflt hash (=) command m = Some (fst (alist_do dflt command (entries m)), m') \<and> hm_inv hash m' \<and>
    entries m' = snd (alist_do dflt command (entries m))"
proof (cases command)
  case (At k)
  from inv show ?thesis
    by (cases rule: lookup_cases [where key = k]) (use inv in \<open>auto simp: At hm_do_def alist_do_def hm_at_def throws_def returns_def\<close>)
next
  case (Index k)
  from index_ok [OF inv, of dflt k] show ?thesis by (force simp: Index hm_do_def alist_do_def split: option.splits)
next
  case (Assign k v)
  from index_ok [OF inv, of dflt k] obtain p m1 x where 1: "hm_index dflt hash (=) k m = Some (p, m1)" "hm_inv hash m1" "p \<in> set (hm_order m1)"
    "hm_val m1 p = Some (k, x)" "(x, entries m1) = (case map_of (entries m) k of None \<Rightarrow> (dflt, entries m @ [(k, dflt)]) | Some v \<Rightarrow> (v, entries m))" by blast
  from store_ok [OF 1(2-4), of v] obtain m2 where "hm_store p v m1 = Some m2" "hm_inv hash m2" "entries m2 = put k v (entries m1)" by blast
  moreover have "put k v (entries m1) = (case map_of (entries m) k of None \<Rightarrow> entries m @ [(k, v)] | Some x \<Rightarrow> put k v (entries m))"
  proof (cases "map_of (entries m) k")
    case None
    then have "k \<notin> fst ` set (entries m)" by (simp add: map_of_eq_None_iff)
    from None 1(5) put_new [OF this, of v dflt] show ?thesis by simp
  qed (use 1(5) in simp)
  ultimately show ?thesis using 1(1) by (simp add: Assign hm_do_def alist_do_def)
next
  case (Insert k v)
  from inv show ?thesis
  proof (cases rule: lookup_cases [where key = k])
    case 1
    with append_ok [OF inv, of "(k, v)"] show ?thesis by (auto simp: Insert hm_do_def alist_do_def hm_insert_def)
  qed (use inv in \<open>auto simp: Insert hm_do_def alist_do_def hm_insert_def\<close>)
next
  case (Erase k)
  from inv show ?thesis
  proof (cases rule: lookup_cases [where key = k])
    case (2 p v)
    with hm_erase_ok [OF inv 2(3,4)] show ?thesis by (auto simp: Erase hm_do_def alist_do_def hm_find_def returns_def)
  qed (use inv in \<open>auto simp: Erase hm_do_def alist_do_def hm_find_def hm_erase_def throws_def\<close>)
next
  case (Count k)
  from inv show ?thesis
    by (cases rule: lookup_cases [where key = k]) (use inv in \<open>auto simp: Count hm_do_def alist_do_def hm_count_def\<close>)
next
  case Size
  with inv show ?thesis by (simp add: hm_do_def alist_do_def hm_size_def hm_numOfElements_entries)
next
  case Empty
  with inv show ?thesis by (simp add: hm_do_def alist_do_def hm_empty_def hm_numOfElements_entries)
next
  case Clear
  with clear_ok [OF inv] show ?thesis by (simp add: hm_do_def alist_do_def)
next
  case Items
  with walk_entries [OF inv] inv show ?thesis by (simp add: hm_do_def alist_do_def returns_def)
qed

lemma hm_run_spec: "hm_inv hash m \<Longrightarrow> hm_run dflt hash (=) commands m = Some (alist_run dflt commands (entries m))"
proof (induction commands arbitrary: m)
  case (Cons command commands)
  from hm_do_spec [OF Cons.prems, of dflt command] obtain m' where "hm_do dflt hash (=) command m = Some (fst (alist_do dflt command (entries m)), m')"
    "hm_inv hash m'" "entries m' = snd (alist_do dflt command (entries m))" by blast
  with Cons.IH [of m'] show ?case by (simp add: case_prod_beta)
qed simp

lemma hm_new_ok: "0 < capacity \<Longrightarrow> hm_inv hash (hm_new capacity loadFactor) \<and> entries (hm_new capacity loadFactor) = []"
  by (simp add: hm_inv_def hm_new_def entries_def chains_empty)



end
