(* ===== verification/Linked_List.thy ===== *)
theory Linked_List
  imports STL_Result Ring
begin

text \<open>
  \<open>CS0501 Data Structure/STLite/list.hpp\<close>: a circular doubly linked list with a sentinel, at the level of its pointers.

  All lists share one memory of nodes.  A node that is not in \<open>lm_live\<close> has been deleted or never was allocated, and touching it is
  undefined behaviour (\<open>None\<close>), as is dereferencing a null \<open>_data\<close>.  A node owns what \<open>_data\<close> points to, so the pointer is the value.
  A list object is known by its sentinel; an iterator is a node with the sentinel of its list.  \<open>size_t\<close> is a natural number.
\<close>

section \<open>Memory\<close>

record 'a lmem =
  lm_data :: "ptr \<Rightarrow> 'a option"
  lm_prev :: "ptr \<Rightarrow> ptr"
  lm_next :: "ptr \<Rightarrow> ptr"
  lm_live :: "ptr set"
  lm_brk :: ptr

record lobj =
  lo_node :: ptr
  lo_size :: nat

record iter =
  it_node :: ptr
  it_list :: ptr

definition next_of :: "'a lmem \<Rightarrow> ptr \<Rightarrow> ptr option" where
  "next_of M q = (if q \<in> lm_live M then Some (lm_next M q) else None)"

definition prev_of :: "'a lmem \<Rightarrow> ptr \<Rightarrow> ptr option" where
  "prev_of M q = (if q \<in> lm_live M then Some (lm_prev M q) else None)"

definition data_ptr :: "'a lmem \<Rightarrow> ptr \<Rightarrow> 'a option option" where
  "data_ptr M q = (if q \<in> lm_live M then Some (lm_data M q) else None)"

definition data_of :: "'a lmem \<Rightarrow> ptr \<Rightarrow> 'a option" where
  "data_of M q = do { d \<leftarrow> data_ptr M q; d }"

definition set_next :: "ptr \<Rightarrow> ptr \<Rightarrow> 'a lmem \<Rightarrow> 'a lmem option" where
  "set_next q v M = (if q \<in> lm_live M then Some (M\<lparr>lm_next := (lm_next M)(q := v)\<rparr>) else None)"

definition set_prev :: "ptr \<Rightarrow> ptr \<Rightarrow> 'a lmem \<Rightarrow> 'a lmem option" where
  "set_prev q v M = (if q \<in> lm_live M then Some (M\<lparr>lm_prev := (lm_prev M)(q := v)\<rparr>) else None)"

definition set_data :: "ptr \<Rightarrow> 'a option \<Rightarrow> 'a lmem \<Rightarrow> 'a lmem option" where
  "set_data q d M = (if q \<in> lm_live M then Some (M\<lparr>lm_data := (lm_data M)(q := d)\<rparr>) else None)"

definition new_node :: "'a option \<Rightarrow> ptr \<Rightarrow> ptr \<Rightarrow> 'a lmem \<Rightarrow> ptr \<times> 'a lmem" where
  "new_node d pv nx M = (lm_brk M, M\<lparr>lm_data := (lm_data M)(lm_brk M := d), lm_prev := (lm_prev M)(lm_brk M := pv),
     lm_next := (lm_next M)(lm_brk M := nx), lm_live := insert (lm_brk M) (lm_live M), lm_brk := Suc (lm_brk M)\<rparr>)"

definition delete_node :: "ptr \<Rightarrow> 'a lmem \<Rightarrow> 'a lmem option" where
  "delete_node q M = (if q \<in> lm_live M then Some (M\<lparr>lm_live := lm_live M - {q}\<rparr>) else None)"

lemmas lmem_defs = next_of_def prev_of_def data_ptr_def data_of_def set_next_def set_prev_def set_data_def new_node_def delete_node_def

text \<open>The state when nothing has been allocated; 0 is the null pointer.\<close>

definition lm_start :: "'a lmem" where
  "lm_start = \<lparr>lm_data = Map.empty, lm_prev = (\<lambda>_. NULL), lm_next = (\<lambda>_. NULL), lm_live = {}, lm_brk = 1\<rparr>"

section \<open>Operations\<close>

definition list_new :: "'a lmem \<Rightarrow> ('a lmem \<times> lobj) option" where
  "list_new M = (
     let (h, M) = new_node None NULL NULL M in do {
     M \<leftarrow> set_next h h M;
     M \<leftarrow> set_prev h h M;
     Some (M, \<lparr>lo_node = h, lo_size = 0\<rparr>) })"

text \<open>The private \<open>insert\<close> and \<open>erase\<close>, which link and unlink a node.\<close>

definition list_link :: "ptr \<Rightarrow> ptr \<Rightarrow> 'a lmem \<times> lobj \<Rightarrow> ('a lmem \<times> lobj) option" where
  "list_link pos cur = (\<lambda>(M, l). do {
     before \<leftarrow> prev_of M pos;
     M \<leftarrow> set_next before cur M;
     M \<leftarrow> set_next cur pos M;
     before \<leftarrow> prev_of M pos;
     M \<leftarrow> set_prev cur before M;
     M \<leftarrow> set_prev pos cur M;
     Some (M, l\<lparr>lo_size := lo_size l + 1\<rparr>) })"

definition list_unlink :: "ptr \<Rightarrow> 'a lmem \<times> lobj \<Rightarrow> ('a lmem \<times> lobj) option" where
  "list_unlink pos = (\<lambda>(M, l). do {
     before \<leftarrow> prev_of M pos;
     after \<leftarrow> next_of M pos;
     M \<leftarrow> set_next before after M;
     after \<leftarrow> next_of M pos;
     before \<leftarrow> prev_of M pos;
     M \<leftarrow> set_prev after before M;
     Some (M, l\<lparr>lo_size := lo_size l - 1\<rparr>) })"

text \<open>\<open>x = x->_prev->_next = new node(new T(value), x->_prev, x)\<close>, for a node \<open>x\<close>: the new node comes before it.\<close>

definition put_before :: "ptr \<Rightarrow> 'a \<Rightarrow> 'a lmem \<Rightarrow> (ptr \<times> 'a lmem) option" where
  "put_before x value M = do {
     before \<leftarrow> prev_of M x;
     let (q, M) = new_node (Some value) before x M;
     before \<leftarrow> prev_of M x;
     M \<leftarrow> set_next before q M;
     M \<leftarrow> set_prev x q M;
     Some (q, M) }"

definition list_push_back :: "'a \<Rightarrow> 'a lmem \<times> lobj \<Rightarrow> ('a lmem \<times> lobj) option" where
  "list_push_back value = (\<lambda>(M, l). do { (q, M) \<leftarrow> put_before (lo_node l) value M; Some (M, l\<lparr>lo_size := lo_size l + 1\<rparr>) })"

definition list_push_front :: "'a \<Rightarrow> 'a lmem \<times> lobj \<Rightarrow> ('a lmem \<times> lobj) option" where
  "list_push_front value = (\<lambda>(M, l). do {
     front \<leftarrow> next_of M (lo_node l);
     let (q, M) = new_node (Some value) (lo_node l) front M;
     front \<leftarrow> next_of M (lo_node l);
     M \<leftarrow> set_prev front q M;
     M \<leftarrow> set_next (lo_node l) q M;
     Some (M, l\<lparr>lo_size := lo_size l + 1\<rparr>) })"

text \<open>The operations that may throw: a result for the undefined, the exception and the new state.\<close>

definition list_pop_back :: "'a lmem \<times> lobj \<Rightarrow> ('a lmem \<times> lobj) result" where
  "list_pop_back = (\<lambda>(M, l).
     if lo_size l = 0 then throws container_is_empty
     else case do {
       tmp \<leftarrow> prev_of M (lo_node l);
       before \<leftarrow> prev_of M tmp;
       M \<leftarrow> set_prev (lo_node l) before M;
       M \<leftarrow> set_next before (lo_node l) M;
       delete_node tmp M } of None \<Rightarrow> None | Some M \<Rightarrow> returns (M, l\<lparr>lo_size := lo_size l - 1\<rparr>))"

definition list_pop_front :: "'a lmem \<times> lobj \<Rightarrow> ('a lmem \<times> lobj) result" where
  "list_pop_front = (\<lambda>(M, l).
     if lo_size l = 0 then throws container_is_empty
     else case do {
       tmp \<leftarrow> next_of M (lo_node l);
       second \<leftarrow> next_of M tmp;
       M \<leftarrow> set_next (lo_node l) second M;
       M \<leftarrow> set_prev second (lo_node l) M;
       delete_node tmp M } of None \<Rightarrow> None | Some M \<Rightarrow> returns (M, l\<lparr>lo_size := lo_size l - 1\<rparr>))"

definition list_front :: "'a lmem \<times> lobj \<Rightarrow> 'a result" where
  "list_front = (\<lambda>(M, l).
     if lo_size l = 0 then throws container_is_empty
     else case do { q \<leftarrow> next_of M (lo_node l); data_of M q } of None \<Rightarrow> None | Some x \<Rightarrow> returns x)"

definition list_back :: "'a lmem \<times> lobj \<Rightarrow> 'a result" where
  "list_back = (\<lambda>(M, l).
     if lo_size l = 0 then throws container_is_empty
     else case do { q \<leftarrow> prev_of M (lo_node l); data_of M q } of None \<Rightarrow> None | Some x \<Rightarrow> returns x)"

definition list_size :: "lobj \<Rightarrow> nat" where
  "list_size l = lo_size l"

definition list_empty :: "lobj \<Rightarrow> bool" where
  "list_empty l \<longleftrightarrow> lo_size l = 0"

text \<open>The loop that deletes the nodes after the sentinel.\<close>

partial_function (option) delete_nodes_from :: "ptr \<Rightarrow> ptr \<Rightarrow> 'a lmem \<Rightarrow> 'a lmem option" where
  "delete_nodes_from h p M = (
     if p = h then Some M
     else do {
       q \<leftarrow> next_of M p;
       M \<leftarrow> delete_node p M;
       delete_nodes_from h q M })"

definition list_clear :: "'a lmem \<times> lobj \<Rightarrow> ('a lmem \<times> lobj) option" where
  "list_clear = (\<lambda>(M, l). do {
     p \<leftarrow> next_of M (lo_node l);
     M \<leftarrow> delete_nodes_from (lo_node l) p M;
     M \<leftarrow> set_next (lo_node l) (lo_node l) M;
     M \<leftarrow> set_prev (lo_node l) (lo_node l) M;
     Some (M, l\<lparr>lo_size := 0\<rparr>) })"

definition list_destroy :: "'a lmem \<times> lobj \<Rightarrow> 'a lmem option" where
  "list_destroy = (\<lambda>(M, l).
     if lo_node l = NULL then Some M
     else do {
       p \<leftarrow> next_of M (lo_node l);
       M \<leftarrow> delete_nodes_from (lo_node l) p M;
       delete_node (lo_node l) M })"

text \<open>The loop that appends copies of the nodes from \<open>q\<close> on; it ends at the sentinel \<open>other\<close> and gives the last node.\<close>

partial_function (option) copy_from :: "ptr \<Rightarrow> ptr \<Rightarrow> ptr \<Rightarrow> ptr \<Rightarrow> 'a lmem \<Rightarrow> (ptr \<times> 'a lmem) option" where
  "copy_from h other p q M = (
     if q = other then Some (p, M)
     else do {
       x \<leftarrow> data_of M q;
       let (r, M) = new_node (Some x) p h M;
       M \<leftarrow> set_next p r M;
       q \<leftarrow> next_of M q;
       copy_from h other r q M })"

definition list_copy :: "lobj \<Rightarrow> 'a lmem \<Rightarrow> ('a lmem \<times> lobj) option" where
  "list_copy other M = (
     let (h, M) = new_node None NULL NULL M in do {
     M \<leftarrow> set_next h h M;
     q \<leftarrow> next_of M (lo_node other);
     (p, M) \<leftarrow> copy_from h (lo_node other) h q M;
     M \<leftarrow> set_prev h p M;
     Some (M, \<lparr>lo_node = h, lo_size = lo_size other\<rparr>) })"

text \<open>The moved list is left without a sentinel.\<close>

definition list_move :: "lobj \<Rightarrow> lobj \<times> lobj" where
  "list_move other = (\<lparr>lo_node = lo_node other, lo_size = lo_size other\<rparr>, other\<lparr>lo_node := NULL\<rparr>)"

text \<open>\<open>operator=\<close> does not compare the two objects.\<close>

definition list_assign :: "lobj \<Rightarrow> 'a lmem \<times> lobj \<Rightarrow> ('a lmem \<times> lobj) option" where
  "list_assign other = (\<lambda>(M, l). do {
     p \<leftarrow> next_of M (lo_node l);
     M \<leftarrow> delete_nodes_from (lo_node l) p M;
     M \<leftarrow> set_next (lo_node l) (lo_node l) M;
     q \<leftarrow> next_of M (lo_node other);
     (p, M) \<leftarrow> copy_from (lo_node l) (lo_node other) (lo_node l) q M;
     M \<leftarrow> set_prev (lo_node l) p M;
     Some (M, l\<lparr>lo_size := lo_size other\<rparr>) })"

section \<open>Iterators\<close>

definition list_begin :: "'a lmem \<times> lobj \<Rightarrow> iter option" where
  "list_begin = (\<lambda>(M, l). do { q \<leftarrow> next_of M (lo_node l); Some \<lparr>it_node = q, it_list = lo_node l\<rparr> })"

definition list_end :: "lobj \<Rightarrow> iter" where
  "list_end l = \<lparr>it_node = lo_node l, it_list = lo_node l\<rparr>"

definition iter_incr :: "iter \<Rightarrow> 'a lmem \<Rightarrow> iter result" where
  "iter_incr i M = (
     if it_node i = it_list i then throws invalid_iterator
     else case next_of M (it_node i) of None \<Rightarrow> None | Some q \<Rightarrow> returns (i\<lparr>it_node := q\<rparr>))"

definition iter_decr :: "iter \<Rightarrow> 'a lmem \<Rightarrow> iter result" where
  "iter_decr i M = (case next_of M (it_list i) of
     None \<Rightarrow> None
   | Some first \<Rightarrow>
       if it_node i = first then throws invalid_iterator
       else case prev_of M (it_node i) of None \<Rightarrow> None | Some q \<Rightarrow> returns (i\<lparr>it_node := q\<rparr>))"

definition iter_deref :: "iter \<Rightarrow> 'a lmem \<Rightarrow> 'a result" where
  "iter_deref i M = (case data_ptr M (it_node i) of
     None \<Rightarrow> None | Some None \<Rightarrow> throws invalid_iterator | Some (Some x) \<Rightarrow> returns x)"

definition list_insert :: "iter \<Rightarrow> 'a \<Rightarrow> 'a lmem \<times> lobj \<Rightarrow> (iter \<times> 'a lmem \<times> lobj) result" where
  "list_insert pos value = (\<lambda>(M, l).
     if it_list pos \<noteq> lo_node l then throws invalid_iterator
     else case put_before (it_node pos) value M of
       None \<Rightarrow> None | Some (q, M) \<Rightarrow> returns (\<lparr>it_node = q, it_list = lo_node l\<rparr>, M, l\<lparr>lo_size := lo_size l + 1\<rparr>))"

definition list_erase :: "iter \<Rightarrow> 'a lmem \<times> lobj \<Rightarrow> (iter \<times> 'a lmem \<times> lobj) result" where
  "list_erase pos = (\<lambda>(M, l).
     if lo_size l = 0 then throws container_is_empty
     else if it_node pos = lo_node l then throws invalid_iterator
     else case do {
       (M, l) \<leftarrow> list_unlink (it_node pos) (M, l);
       q \<leftarrow> next_of M (it_node pos);
       M \<leftarrow> delete_node (it_node pos) M;
       Some (\<lparr>it_node = q, it_list = lo_node l\<rparr>, M, l) } of None \<Rightarrow> None | Some r \<Rightarrow> returns r)"

section \<open>The list an object stands for\<close>

definition mem_ok :: "'a lmem \<Rightarrow> bool" where
  "mem_ok M \<longleftrightarrow> (\<forall>q \<in> lm_live M. 0 < q \<and> q < lm_brk M) \<and> 0 < lm_brk M"

definition list_nodes :: "'a lmem \<Rightarrow> lobj \<Rightarrow> ptr list \<Rightarrow> 'a list \<Rightarrow> bool" where
  "list_nodes M l ps xs \<longleftrightarrow> ring (lm_next M) (lm_prev M) (lo_node l) ps \<and> map (lm_data M) ps = map Some xs \<and> lm_data M (lo_node l) = None \<and>
     lo_node l \<in> lm_live M \<and> set ps \<subseteq> lm_live M \<and> lo_size l = length xs"

definition same_node :: "'a lmem \<Rightarrow> 'a lmem \<Rightarrow> ptr \<Rightarrow> bool" where
  "same_node M M' q \<longleftrightarrow> lm_data M' q = lm_data M q \<and> lm_next M' q = lm_next M q \<and> lm_prev M' q = lm_prev M q"

text \<open>
  The effect of an operation on one list: its nodes \<open>ps\<close> become \<open>ps'\<close> with the contents \<open>xs'\<close>, nothing else is allocated or
  deleted, and the nodes of other lists are as before.
\<close>

definition becomes :: "'a lmem \<Rightarrow> lobj \<Rightarrow> ptr list \<Rightarrow> 'a lmem \<Rightarrow> lobj \<Rightarrow> ptr list \<Rightarrow> 'a list \<Rightarrow> bool" where
  "becomes M l ps M' l' ps' xs' \<longleftrightarrow> mem_ok M' \<and> list_nodes M' l' ps' xs' \<and> lo_node l' = lo_node l \<and> lm_brk M \<le> lm_brk M' \<and>
     lm_live M' = (lm_live M - set ps) \<union> set ps' \<and> set ps' \<inter> (lm_live M - set ps) = {} \<and>
     (\<forall>q \<in> lm_live M - insert (lo_node l) (set ps). same_node M M' q)"

lemma list_nodes_length: "list_nodes M l ps xs \<Longrightarrow> length ps = length xs"
  unfolding list_nodes_def by (metis length_map)

lemma list_nodes_ring: "list_nodes M l ps xs \<Longrightarrow> ring (lm_next M) (lm_prev M) (lo_node l) ps"
  by (simp add: list_nodes_def)

lemma list_nodes_distinct: "list_nodes M l ps xs \<Longrightarrow> distinct ps \<and> lo_node l \<notin> set ps"
  by (auto simp: list_nodes_def dest: ring_distinct)

lemma list_nodes_fresh: "mem_ok M \<Longrightarrow> list_nodes M l ps xs \<Longrightarrow> lm_brk M \<noteq> lo_node l \<and> lm_brk M \<notin> set ps"
  by (auto simp: mem_ok_def list_nodes_def)

lemma seg_cong:
  assumes "\<forall>q \<in> insert a (set xs). n' q = n q" "\<forall>q \<in> insert b (set xs). p' q = p q"
  shows "seg n' p' a xs b = seg n p a xs b"
  using assms by (induction xs arbitrary: a) auto

lemma other_list:
  assumes "list_nodes M k qs ys" "\<forall>q \<in> insert (lo_node k) (set qs). same_node M M' q \<and> q \<in> lm_live M'"
  shows "list_nodes M' k qs ys"
proof -
  have "seg (lm_next M') (lm_prev M') (lo_node k) qs (lo_node k) = seg (lm_next M) (lm_prev M) (lo_node k) qs (lo_node k)"
    by (rule seg_cong) (use assms(2) in \<open>auto simp: same_node_def\<close>)
  moreover have "map (lm_data M') qs = map (lm_data M) qs" using assms(2) by (simp add: same_node_def)
  then have "map (lm_data M') qs = map Some ys" using assms(1) by (simp only: list_nodes_def)
  ultimately show ?thesis using assms by (simp add: list_nodes_def ring_def same_node_def subset_iff)
qed

text \<open>Lists with other nodes are not touched.\<close>

lemma becomes_other:
  assumes "becomes M l ps M' l' ps' xs'" "list_nodes M l ps xs" "list_nodes M k qs ys" "lo_node k \<noteq> lo_node l" "insert (lo_node k) (set qs) \<inter> insert (lo_node l) (set ps) = {}"
  shows "list_nodes M' k qs ys"
  by (rule other_list [OF assms(3)]) (use assms in \<open>auto simp: becomes_def list_nodes_def\<close>)

lemma becomes_trans:
  assumes "becomes M l ps M1 l1 ps1 xs1" "becomes M1 l1 ps1 M2 l2 ps2 xs2"
  shows "becomes M l ps M2 l2 ps2 xs2"
proof -
  note a = assms [unfolded becomes_def]
  have "q \<in> lm_live M1 - insert (lo_node l1) (set ps1)" if "q \<in> lm_live M - insert (lo_node l) (set ps)" for q
    using that a by auto
  then have "\<forall>q \<in> lm_live M - insert (lo_node l) (set ps). same_node M M2 q"
    using a by (simp add: same_node_def)
  moreover have "lm_live M2 = (lm_live M - set ps) \<union> set ps2" using a by blast
  moreover have "set ps2 \<inter> (lm_live M - set ps) = {}" using a by blast
  ultimately show ?thesis using a by (simp add: becomes_def)
qed

section \<open>Inserting and removing a node\<close>

lemma last_live: "list_nodes M l (as @ bs) xs \<Longrightarrow> last (lo_node l # as) \<in> lm_live M"
  using last_Cons_mem [of "lo_node l" as] by (auto simp: list_nodes_def)

lemma hd_live: "list_nodes M l (as @ bs) xs \<Longrightarrow> hd (bs @ [lo_node l]) \<in> lm_live M"
  by (cases bs) (auto simp: list_nodes_def)

lemma at_prev: "list_nodes M l (as @ bs) xs \<Longrightarrow> lm_prev M (hd (bs @ [lo_node l])) = last (lo_node l # as)"
  using ring_node_prev [of "lm_next M" "lm_prev M" "lo_node l" as "hd bs" "tl bs"] ring_head_prev [of "lm_next M" "lm_prev M" "lo_node l" as]
  by (cases bs) (auto simp: list_nodes_def)

lemma at_next: "list_nodes M l (as @ bs) xs \<Longrightarrow> lm_next M (last (lo_node l # as)) = hd (bs @ [lo_node l])"
proof (cases as rule: rev_cases)
  case Nil
  then show "list_nodes M l (as @ bs) xs \<Longrightarrow> ?thesis" using ring_head_next [of "lm_next M" "lm_prev M" "lo_node l" bs] by (auto simp: list_nodes_def)
next
  case (snoc cs c)
  then show "list_nodes M l (as @ bs) xs \<Longrightarrow> ?thesis" using ring_node_next [of "lm_next M" "lm_prev M" "lo_node l" cs c bs] by (auto simp: list_nodes_def)
qed

text \<open>The memory with a new node between \<open>a\<close> and \<open>b\<close>.\<close>

definition with_node :: "ptr \<Rightarrow> 'a \<Rightarrow> ptr \<Rightarrow> 'a lmem \<Rightarrow> 'a lmem" where
  "with_node a value b M = (let q = lm_brk M in M\<lparr>lm_data := (lm_data M)(q \<mapsto> value), lm_prev := (lm_prev M)(b := q, q := a),
     lm_next := (lm_next M)(a := q, q := b), lm_live := insert q (lm_live M), lm_brk := Suc q\<rparr>)"

lemma with_node_becomes:
  assumes "mem_ok M" "list_nodes M l (as @ bs) (xs @ ys)" "length as = length xs" "a = last (lo_node l # as)" "b = hd (bs @ [lo_node l])"
  shows "becomes M l (as @ bs) (with_node a v b M) (l\<lparr>lo_size := lo_size l + 1\<rparr>) (as @ lm_brk M # bs) (xs @ v # ys)"
proof -
  have fresh: "lm_brk M \<noteq> lo_node l" "lm_brk M \<notin> set as" "lm_brk M \<notin> set bs" "lm_brk M \<notin> lm_live M"
    using list_nodes_fresh [OF assms(1,2)] assms(1) by (auto simp: mem_ok_def)
  have "ring ((lm_next M)(a := lm_brk M, lm_brk M := b)) ((lm_prev M)(b := lm_brk M, lm_brk M := a)) (lo_node l) (as @ lm_brk M # bs)"
    by (rule ring_link [OF list_nodes_ring [OF assms(2)] fresh(1-3) assms(4,5)])
  moreover have "map (lm_data M) as = map Some xs" "map (lm_data M) bs = map Some ys"
    using assms(2,3) by (auto simp: list_nodes_def)
  ultimately have "list_nodes (with_node a v b M) (l\<lparr>lo_size := lo_size l + 1\<rparr>) (as @ lm_brk M # bs) (xs @ v # ys)"
    using assms(2) fresh by (auto simp: list_nodes_def with_node_def Let_def)
  moreover have "same_node M (with_node a v b M) q" if "q \<in> lm_live M - insert (lo_node l) (set (as @ bs))" for q
  proof -
    have "q \<noteq> a" using that last_Cons_mem [of "lo_node l" as] assms(4) by auto
    moreover have "q \<noteq> b" using that assms(5) by (cases bs) auto
    ultimately show ?thesis using that fresh(4) by (auto simp: same_node_def with_node_def Let_def)
  qed
  moreover have "mem_ok (with_node a v b M)" using assms(1) by (auto simp: mem_ok_def with_node_def Let_def less_SucI)
  moreover have "set (as @ bs) \<subseteq> lm_live M" using assms(2) by (simp add: list_nodes_def)
  ultimately show ?thesis using fresh by (auto simp: becomes_def with_node_def Let_def)
qed

lemma put_before_ok:
  assumes "mem_ok M" "list_nodes M l (as @ bs) xs" "x = hd (bs @ [lo_node l])"
  shows "put_before x v M = Some (lm_brk M, with_node (last (lo_node l # as)) v x M)"
proof -
  define a where "a = last (lo_node l # as)"
  have "x \<in> lm_live M" "a \<in> lm_live M" "lm_prev M x = a" "lm_brk M \<notin> lm_live M"
    using hd_live [OF assms(2)] last_live [OF assms(2)] at_prev [OF assms(2)] assms(1,3) unfolding a_def mem_ok_def by blast+
  then show ?thesis unfolding a_def [symmetric]
    by (auto simp: put_before_def lmem_defs with_node_def Let_def intro!: lmem.equality ext)
qed

text \<open>The memory without the node \<open>q\<close>.\<close>

definition unlinked :: "ptr \<Rightarrow> 'a lmem \<Rightarrow> 'a lmem" where
  "unlinked q M = M\<lparr>lm_next := (lm_next M)(lm_prev M q := lm_next M q), lm_prev := (lm_prev M)(lm_next M q := lm_prev M q)\<rparr>"

definition without_node :: "ptr \<Rightarrow> 'a lmem \<Rightarrow> 'a lmem" where
  "without_node q M = (unlinked q M)\<lparr>lm_live := lm_live M - {q}\<rparr>"

lemma without_node_becomes:
  assumes "mem_ok M" "list_nodes M l (as @ q # bs) (xs @ y # ys)" "length as = length xs"
  shows "becomes M l (as @ q # bs) (without_node q M) (l\<lparr>lo_size := lo_size l - 1\<rparr>) (as @ bs) (xs @ ys)"
proof -
  note r = list_nodes_ring [OF assms(2)]
  have d: "q \<notin> set as" "q \<notin> set bs" "q \<noteq> lo_node l" using list_nodes_distinct [OF assms(2)] by auto
  have "map (lm_data M) as = map Some xs" "map (lm_data M) bs = map Some ys" using assms(2,3) by (auto simp: list_nodes_def)
  with ring_unlink [OF r] assms(2) d have "list_nodes (without_node q M) (l\<lparr>lo_size := lo_size l - 1\<rparr>) (as @ bs) (xs @ ys)"
    by (auto simp: list_nodes_def without_node_def unlinked_def)
  moreover have "same_node M (without_node q M) z" if "z \<in> lm_live M - insert (lo_node l) (set (as @ q # bs))" for z
  proof -
    have "z \<noteq> lm_prev M q" using that ring_node_prev [OF r] last_Cons_mem [of "lo_node l" as] by auto
    moreover have "z \<noteq> lm_next M q" using that ring_node_next [OF r] by (cases bs) auto
    ultimately show ?thesis by (simp add: same_node_def without_node_def unlinked_def)
  qed
  moreover have "set (as @ q # bs) \<subseteq> lm_live M" using assms(2) by (simp add: list_nodes_def)
  ultimately show ?thesis using assms(1) d list_nodes_distinct [OF assms(2)] by (auto simp: becomes_def mem_ok_def without_node_def unlinked_def)
qed

lemma unlink_ok:
  assumes "list_nodes M l (as @ q # bs) xs"
  shows "list_unlink q (M, l) = Some (unlinked q M, l\<lparr>lo_size := lo_size l - 1\<rparr>)" "q \<in> lm_live M"
    "lm_prev M q \<in> lm_live M" "lm_next M q \<in> lm_live M" "lm_prev M q = last (lo_node l # as)" "lm_next M q = hd (bs @ [lo_node l])"
proof -
  show q: "q \<in> lm_live M" using assms by (simp add: list_nodes_def)
  show p: "lm_prev M q = last (lo_node l # as)" using at_prev [of M l as "q # bs"] assms by simp
  show n: "lm_next M q = hd (bs @ [lo_node l])" using at_next [of M l "as @ [q]" bs] assms by simp
  show P: "lm_prev M q \<in> lm_live M" using p last_live [OF assms] by simp
  show N: "lm_next M q \<in> lm_live M" using n hd_live [of M l "as @ [q]" bs] assms by simp
  have "lm_prev M q \<noteq> q" using p list_nodes_distinct [OF assms] last_Cons_mem [of "lo_node l" as] by auto
  then show "list_unlink q (M, l) = Some (unlinked q M, l\<lparr>lo_size := lo_size l - 1\<rparr>)"
    using q P N by (simp add: list_unlink_def lmem_defs unlinked_def)
qed

section \<open>The operations on the contents\<close>

lemma new_ok:
  assumes "mem_ok M"
  shows "\<exists>M' l. list_new M = Some (M', l) \<and> mem_ok M' \<and> list_nodes M' l [] [] \<and> lo_node l = lm_brk M \<and> lm_live M' = insert (lm_brk M) (lm_live M) \<and>
    lm_brk M \<notin> lm_live M \<and> (\<forall>q \<in> lm_live M. same_node M M' q)"
  using assms by (auto simp: list_new_def lmem_defs mem_ok_def list_nodes_def same_node_def)

lemma push_back_ok:
  assumes "mem_ok M" "list_nodes M l ps xs"
  shows "\<exists>M' l' ps'. list_push_back v (M, l) = Some (M', l') \<and> becomes M l ps M' l' ps' (xs @ [v])"
proof -
  have "put_before (lo_node l) v M = Some (lm_brk M, with_node (last (lo_node l # ps)) v (lo_node l) M)"
    by (rule put_before_ok [OF assms(1), of l ps "[]" xs]) (use assms(2) in simp_all)
  moreover have "becomes M l (ps @ []) (with_node (last (lo_node l # ps)) v (lo_node l) M) (l\<lparr>lo_size := lo_size l + 1\<rparr>) (ps @ lm_brk M # []) (xs @ v # [])"
    by (rule with_node_becomes [OF assms(1)]) (use assms(2) list_nodes_length [OF assms(2)] in simp_all)
  ultimately show ?thesis unfolding list_push_back_def by auto
qed

lemma push_front_ok:
  assumes "mem_ok M" "list_nodes M l ps xs"
  shows "\<exists>M' l' ps'. list_push_front v (M, l) = Some (M', l') \<and> becomes M l ps M' l' ps' (v # xs)"
proof -
  define b where "b = hd (ps @ [lo_node l])"
  have "lo_node l \<in> lm_live M" "b \<in> lm_live M" "lm_next M (lo_node l) = b" "lm_brk M \<notin> lm_live M"
    using assms hd_live [of M l "[]" ps xs] at_next [of M l "[]" ps xs] unfolding b_def mem_ok_def list_nodes_def by auto
  then have "list_push_front v (M, l) = Some (with_node (lo_node l) v b M, l\<lparr>lo_size := lo_size l + 1\<rparr>)"
    by (auto simp: list_push_front_def lmem_defs with_node_def Let_def intro!: lmem.equality ext)
  then show ?thesis using with_node_becomes [OF assms(1), of l "[]" ps "[]" xs "lo_node l" b v] assms(2) by (auto simp: b_def)
qed

lemma pop_back_ok:
  assumes "mem_ok M" "list_nodes M l ps (xs @ [x])"
  shows "\<exists>M' l' ps'. list_pop_back (M, l) = returns (M', l') \<and> becomes M l ps M' l' ps' xs"
proof -
  obtain as q where ps: "ps = as @ [q]" using list_nodes_length [OF assms(2)] by (cases ps rule: rev_cases) auto
  have nodes: "list_nodes M l (as @ q # []) (xs @ x # [])" using assms(2) ps by simp
  note u = unlink_ok [OF nodes]
  have "lm_prev M (lo_node l) = q" using at_prev [of M l ps "[]"] assms(2) ps by simp
  moreover have "lo_node l \<in> lm_live M" "lo_size l \<noteq> 0" using assms(2) by (auto simp: list_nodes_def)
  moreover have "lm_next M q = lo_node l" using u(6) by simp
  ultimately have "list_pop_back (M, l) = returns (without_node q M, l\<lparr>lo_size := lo_size l - 1\<rparr>)"
    using u(2-4) by (auto simp: list_pop_back_def lmem_defs without_node_def unlinked_def intro!: lmem.equality ext)
  then show ?thesis using without_node_becomes [OF assms(1) nodes] list_nodes_length [OF assms(2)] by (auto simp: ps)
qed

lemma pop_front_ok:
  assumes "mem_ok M" "list_nodes M l ps (x # xs)"
  shows "\<exists>M' l' ps'. list_pop_front (M, l) = returns (M', l') \<and> becomes M l ps M' l' ps' xs"
proof -
  obtain q bs where ps: "ps = q # bs" using list_nodes_length [OF assms(2)] by (cases ps) auto
  have nodes: "list_nodes M l ([] @ q # bs) ([] @ x # xs)" using assms(2) ps by simp
  note u = unlink_ok [OF nodes]
  have "lm_next M (lo_node l) = q" using at_next [of M l "[]" ps] assms(2) ps by simp
  moreover have "lo_node l \<in> lm_live M" "lo_size l \<noteq> 0" using assms(2) by (auto simp: list_nodes_def)
  moreover have "lm_prev M q = lo_node l" using u(5) by simp
  ultimately have "list_pop_front (M, l) = returns (without_node q M, l\<lparr>lo_size := lo_size l - 1\<rparr>)"
    using u(2-4) by (auto simp: list_pop_front_def lmem_defs without_node_def unlinked_def intro!: lmem.equality ext)
  then show ?thesis using without_node_becomes [OF assms(1) nodes] by (auto simp: ps)
qed

lemma front_ok: "list_nodes M l ps (x # xs) \<Longrightarrow> list_front (M, l) = returns x"
  using at_next [of M l "[]" ps "x # xs"] by (cases ps) (auto simp: list_front_def lmem_defs list_nodes_def)

lemma back_ok: "list_nodes M l ps (xs @ [x]) \<Longrightarrow> list_back (M, l) = returns x"
  using at_prev [of M l ps "[]" "xs @ [x]"] by (cases ps rule: rev_cases) (auto simp: list_back_def lmem_defs list_nodes_def)

lemma empty_throws:
  assumes "list_nodes M l ps []"
  shows "list_front (M, l) = throws container_is_empty" "list_back (M, l) = throws container_is_empty"
    "list_pop_back (M, l) = throws container_is_empty" "list_pop_front (M, l) = throws container_is_empty"
    "list_erase i (M, l) = throws container_is_empty"
  using assms by (simp_all add: list_front_def list_back_def list_pop_back_def list_pop_front_def list_erase_def list_nodes_def)

text \<open>Deleting all nodes.\<close>

lemma delete_nodes_from_ok:
  assumes "seg (lm_next M) pv a qs h" "distinct qs" "h \<notin> set qs" "set qs \<subseteq> lm_live M"
  shows "delete_nodes_from h (hd (qs @ [h])) M = Some (M\<lparr>lm_live := lm_live M - set qs\<rparr>)"
  using assms
proof (induction qs arbitrary: a M)
  case Nil
  then show ?case by (subst delete_nodes_from.simps) simp
next
  case (Cons q qs)
  define M1 where "M1 = M\<lparr>lm_live := lm_live M - {q}\<rparr>"
  have "delete_nodes_from h (hd (qs @ [h])) M1 = Some (M1\<lparr>lm_live := lm_live M1 - set qs\<rparr>)"
    by (rule Cons.IH [of _ q]) (use Cons.prems in \<open>auto simp: M1_def\<close>)
  moreover have "lm_next M q = hd (qs @ [h])" using Cons.prems(1) by (auto dest: seg_next)
  ultimately show ?case using Cons.prems by (subst delete_nodes_from.simps) (simp add: lmem_defs M1_def Diff_insert2 [symmetric])
qed

lemma delete_all_ok:
  assumes "list_nodes M l ps xs"
  shows "next_of M (lo_node l) = Some (hd (ps @ [lo_node l]))" "delete_nodes_from (lo_node l) (hd (ps @ [lo_node l])) M = Some (M\<lparr>lm_live := lm_live M - set ps\<rparr>)"
  using assms at_next [of M l "[]" ps xs] delete_nodes_from_ok [of M "lm_prev M" "lo_node l" ps "lo_node l"]
  by (auto simp: list_nodes_def ring_def lmem_defs)

lemma clear_becomes:
  assumes "mem_ok M" "list_nodes M l ps xs"
  shows "\<exists>M' l'. list_clear (M, l) = Some (M', l') \<and> becomes M l ps M' l' [] []"
  using delete_all_ok [OF assms(2)] assms list_nodes_distinct [OF assms(2)]
  by (auto simp: list_clear_def set_next_def set_prev_def becomes_def mem_ok_def list_nodes_def same_node_def)

lemma destroy_frees:
  assumes "mem_ok M" "list_nodes M l ps xs"
  shows "\<exists>M'. list_destroy (M, l) = Some M' \<and> mem_ok M' \<and> lm_live M' = lm_live M - insert (lo_node l) (set ps) \<and> (\<forall>q \<in> lm_live M'. same_node M M' q)"
proof -
  have "lo_node l \<noteq> 0" "lo_node l \<in> lm_live M" "lo_node l \<notin> set ps" using assms list_nodes_distinct [OF assms(2)] by (auto simp: mem_ok_def list_nodes_def)
  then show ?thesis using delete_all_ok [OF assms(2)] assms(1) by (auto simp: list_destroy_def delete_node_def mem_ok_def same_node_def)
qed

section \<open>Copies\<close>

text \<open>A list under construction: the \<open>_prev\<close> of the sentinel is set at the end.\<close>

definition half_ring :: "'a lmem \<Rightarrow> ptr \<Rightarrow> ptr list \<Rightarrow> bool" where
  "half_ring M h ps \<longleftrightarrow> ring (lm_next M) ((lm_prev M)(h := last (h # ps))) h ps \<and> insert h (set ps) \<subseteq> lm_live M"

lemma copy_step:
  assumes "mem_ok M" "half_ring M h ps" "M1 = snd (new_node (Some x) (last (h # ps)) h M)"
    "M2 = M1\<lparr>lm_next := (lm_next M1)(last (h # ps) := lm_brk M)\<rparr>"
  shows "mem_ok M2 \<and> half_ring M2 h (ps @ [lm_brk M]) \<and> lm_live M2 = insert (lm_brk M) (lm_live M) \<and> lm_brk M2 = Suc (lm_brk M) \<and> lm_brk M \<notin> lm_live M \<and>
    set_next (last (h # ps)) (lm_brk M) M1 = Some M2 \<and> lm_data M2 = (lm_data M)(lm_brk M \<mapsto> x) \<and> (\<forall>q \<in> lm_live M - insert h (set ps). same_node M M2 q)"
proof -
  define r where "r = lm_brk M"
  define e where "e = last (h # ps)"
  have live: "r \<notin> lm_live M" "h \<in> lm_live M" "set ps \<subseteq> lm_live M" "e \<in> insert h (set ps)"
    using assms(1,2) last_Cons_mem [of h ps] by (auto simp: mem_ok_def half_ring_def r_def e_def)
  then have r: "r \<noteq> h" "r \<notin> set ps" "r \<noteq> e" by auto
  have "ring ((lm_next M)(e := r, r := h)) ((lm_prev M)(h := e, h := r, r := e)) h (ps @ [r])"
    using ring_append [of "lm_next M" "(lm_prev M)(h := e)" h ps r] assms(2) r unfolding half_ring_def e_def by simp
  moreover have "(lm_prev M)(h := e, h := r, r := e) = (lm_prev M)(r := e, h := r)" using r(1) by (simp add: fun_upd_twist)
  moreover have "(lm_next M)(e := r, r := h) = (lm_next M)(r := h, e := r)" using r(3) by (simp add: fun_upd_twist)
  moreover have M2: "M2 = M\<lparr>lm_data := (lm_data M)(r \<mapsto> x), lm_prev := (lm_prev M)(r := e), lm_next := (lm_next M)(r := h, e := r), lm_live := insert r (lm_live M), lm_brk := Suc r\<rparr>"
    using assms(3,4) by (simp add: new_node_def r_def e_def)
  ultimately have "half_ring M2 h (ps @ [r])" using live by (auto simp: half_ring_def)
  moreover have "mem_ok M2" using assms(1) by (auto simp: M2 mem_ok_def r_def less_SucI)
  moreover have "set_next e r M1 = Some M2" using live assms(3,4) by (auto simp: set_next_def new_node_def r_def e_def)
  moreover have "same_node M M2 q" if "q \<in> lm_live M - insert h (set ps)" for q using that live by (auto simp: M2 same_node_def)
  ultimately show ?thesis using live(1) unfolding r_def [symmetric] e_def [symmetric] by (simp add: M2)
qed

lemma copy_from_ok:
  assumes "mem_ok M" "half_ring M h ps" "seg (lm_next M) pv a qs k" "k \<notin> set qs" "map (lm_data M) qs = map Some ys"
    "set qs \<subseteq> lm_live M" "set qs \<inter> insert h (set ps) = {}"
  shows "\<exists>M' rs. copy_from h k (last (h # ps)) (hd (qs @ [k])) M = Some (last (h # ps @ rs), M') \<and> mem_ok M' \<and> half_ring M' h (ps @ rs) \<and>
    map (lm_data M') (ps @ rs) = map (lm_data M) ps @ map Some ys \<and> lm_data M' h = lm_data M h \<and> lm_live M' = lm_live M \<union> set rs \<and>
    set rs \<inter> lm_live M = {} \<and> lm_brk M \<le> lm_brk M' \<and> (\<forall>q \<in> lm_live M - insert h (set ps). same_node M M' q)"
  using assms
proof (induction qs arbitrary: a ps M ys)
  case Nil
  then show ?case by (subst copy_from.simps) (auto simp: same_node_def intro!: exI [of _ "[]"])
next
  case (Cons q qs)
  then obtain y ys' where ys: "ys = y # ys'" "lm_data M q = Some y" "map (lm_data M) qs = map Some ys'" by (cases ys) auto
  define M1 where "M1 = snd (new_node (Some y) (last (h # ps)) h M)"
  define M2 where "M2 = M1\<lparr>lm_next := (lm_next M1)(last (h # ps) := lm_brk M)\<rparr>"
  note s = copy_step [OF Cons.prems(1,2) M1_def M2_def]
  have M1: "new_node (Some y) (last (h # ps)) h M = (lm_brk M, M1)" by (simp add: M1_def new_node_def)
  have live: "set ps \<subseteq> lm_live M" "h \<in> lm_live M" using Cons.prems(2) by (auto simp: half_ring_def)
  have "\<forall>z \<in> set (q # qs). same_node M M2 z" using s Cons.prems(6,7) by auto
  then have same: "\<forall>z \<in> set (q # qs). lm_next M2 z = lm_next M z" by (simp add: same_node_def)
  have "seg (lm_next M2) pv q qs k"
    using Cons.prems(3) same seg_cong [of q qs "lm_next M2" "lm_next M" k pv pv] by simp
  moreover have "map (lm_data M2) qs = map Some ys'" proof -
    have "lm_brk M \<notin> set qs" using s Cons.prems(6) by auto
    then have "map (lm_data M2) qs = map (lm_data M) qs" using s by simp
    with ys(3) show ?thesis by (simp only:)
  qed
  moreover have "set qs \<inter> insert h (set (ps @ [lm_brk M])) = {}" using Cons.prems(6,7) s by auto
  ultimately have "\<exists>M' rs. copy_from h k (last (h # ps @ [lm_brk M])) (hd (qs @ [k])) M2 = Some (last (h # (ps @ [lm_brk M]) @ rs), M') \<and> mem_ok M' \<and> half_ring M' h ((ps @ [lm_brk M]) @ rs) \<and>
    map (lm_data M') ((ps @ [lm_brk M]) @ rs) = map (lm_data M2) (ps @ [lm_brk M]) @ map Some ys' \<and> lm_data M' h = lm_data M2 h \<and> lm_live M' = lm_live M2 \<union> set rs \<and>
    set rs \<inter> lm_live M2 = {} \<and> lm_brk M2 \<le> lm_brk M' \<and> (\<forall>q \<in> lm_live M2 - insert h (set (ps @ [lm_brk M])). same_node M2 M' q)"
    using Cons.prems(4,6) s by (intro Cons.IH [of M2 "ps @ [lm_brk M]" q ys']) (assumption | force)+
  then obtain M' rs where M': "copy_from h k (lm_brk M) (hd (qs @ [k])) M2 = Some (last (h # ps @ lm_brk M # rs), M')" "mem_ok M'" "half_ring M' h (ps @ lm_brk M # rs)"
    "map (lm_data M') (ps @ lm_brk M # rs) = map (lm_data M2) (ps @ [lm_brk M]) @ map Some ys'" "lm_data M' h = lm_data M2 h" "lm_live M' = lm_live M2 \<union> set rs"
    "set rs \<inter> lm_live M2 = {}" "lm_brk M2 \<le> lm_brk M'" "\<forall>q \<in> lm_live M2 - insert h (set (ps @ [lm_brk M])). same_node M2 M' q"
    by auto
  have "next_of M2 q = Some (hd (qs @ [k]))" using Cons.prems(3,6) same s by (auto simp: next_of_def dest: seg_next)
  moreover have "q \<noteq> k" "data_of M q = Some y" using Cons.prems(4,6) ys(2) by (auto simp: data_of_def data_ptr_def)
  ultimately have "copy_from h k (last (h # ps)) (hd ((q # qs) @ [k])) M = Some (last (h # ps @ lm_brk M # rs), M')"
    using s M'(1) M1 by (subst copy_from.simps) (simp add: Let_def)
  moreover have "map (lm_data M2) ps = map (lm_data M) ps" using s live by auto
  then have "map (lm_data M') (ps @ lm_brk M # rs) = map (lm_data M) ps @ map Some ys" using M'(4) s by (simp add: ys(1))
  moreover have "\<forall>z \<in> lm_live M - insert h (set ps). same_node M M' z"
  proof
    fix z assume z: "z \<in> lm_live M - insert h (set ps)"
    then have "z \<in> lm_live M2 - insert h (set (ps @ [lm_brk M]))" "same_node M M2 z" using s by auto
    with M'(9) show "same_node M M' z" by (simp add: same_node_def)
  qed
  moreover have "lm_data M' h = lm_data M h" using M'(5) s live(2) by auto
  moreover have "lm_live M' = lm_live M \<union> set (lm_brk M # rs)" "set (lm_brk M # rs) \<inter> lm_live M = {}" "lm_brk M \<le> lm_brk M'" using M'(6,7,8) s by auto
  ultimately show ?case using M'(2,3) by blast
qed

lemma copy_from_start:
  assumes "mem_ok M" "half_ring M h []" "seg (lm_next M) pv a qs k" "k \<notin> set qs" "map (lm_data M) qs = map Some ys"
    "set qs \<subseteq> lm_live M" "h \<notin> set qs"
  obtains M' rs where "copy_from h k h (hd (qs @ [k])) M = Some (last (h # rs), M')" "mem_ok M'" "half_ring M' h rs"
    "map (lm_data M') rs = map Some ys" "lm_data M' h = lm_data M h" "lm_live M' = lm_live M \<union> set rs"
    "set rs \<inter> lm_live M = {}" "lm_brk M \<le> lm_brk M'" "\<forall>q \<in> lm_live M - {h}. same_node M M' q"
proof -
  have "set qs \<inter> insert h (set []) = {}" using assms(7) by simp
  from copy_from_ok [OF assms(1-6) this] that show thesis unfolding append_Nil list.map last.simps list.set by (simp only: simp_thms if_True) blast
qed

text \<open>Closing the ring.\<close>

lemma half_ring_close: "half_ring M h ps \<Longrightarrow> M' = M\<lparr>lm_prev := (lm_prev M)(h := last (h # ps))\<rparr> \<Longrightarrow> set_prev h (last (h # ps)) M = Some M' \<and> ring (lm_next M') (lm_prev M') h ps"
  by (auto simp: half_ring_def set_prev_def)

lemma assign_becomes:
  assumes "mem_ok M" "list_nodes M l ps xs" "list_nodes M k qs ys" "insert (lo_node k) (set qs) \<inter> insert (lo_node l) (set ps) = {}"
  shows "\<exists>M' l' rs. list_assign k (M, l) = Some (M', l') \<and> becomes M l ps M' l' rs ys"
proof -
  define h where "h = lo_node l"
  define M0 where "M0 = M\<lparr>lm_live := lm_live M - set ps, lm_next := (lm_next M)(h := h)\<rparr>"
  have h: "h \<in> lm_live M" "h \<notin> set ps" "lm_data M h = None" using assms(2) list_nodes_distinct [OF assms(2)] by (auto simp: list_nodes_def h_def)
  have k: "seg (lm_next M) (lm_prev M) (lo_node k) qs (lo_node k)" "lo_node k \<notin> set qs" "map (lm_data M) qs = map Some ys" "insert (lo_node k) (set qs) \<subseteq> lm_live M" "lo_size k = length ys"
    using assms(3) list_nodes_distinct [OF assms(3)] by (auto simp: list_nodes_def ring_def)
  have "seg (lm_next M0) (lm_prev M) (lo_node k) qs (lo_node k)"
    using k(1) assms(4) seg_cong [of "lo_node k" qs "lm_next M0" "lm_next M" "lo_node k" "lm_prev M" "lm_prev M"] by (auto simp: M0_def h_def)
  moreover have "mem_ok M0" using assms(1) by (auto simp: M0_def mem_ok_def)
  moreover have "half_ring M0 h []" using h by (simp add: half_ring_def M0_def)
  moreover have "set qs \<subseteq> lm_live M0" "h \<notin> set qs" "map (lm_data M0) qs = map Some ys" using k assms(4) by (auto simp: M0_def h_def)
  ultimately obtain M1 rs where M1: "copy_from h (lo_node k) h (hd (qs @ [lo_node k])) M0 = Some (last (h # rs), M1)" "mem_ok M1" "half_ring M1 h rs"
    "map (lm_data M1) rs = map Some ys" "lm_data M1 h = lm_data M0 h" "lm_live M1 = lm_live M0 \<union> set rs" "set rs \<inter> lm_live M0 = {}" "lm_brk M0 \<le> lm_brk M1"
    "\<forall>q \<in> lm_live M0 - {h}. same_node M0 M1 q"
    using copy_from_start [of M0 h "lm_prev M" "lo_node k" qs "lo_node k" ys thesis] k(2) by blast
  define M2 where "M2 = M1\<lparr>lm_prev := (lm_prev M1)(h := last (h # rs))\<rparr>"
  note c = half_ring_close [OF M1(3) M2_def]
  have "next_of M0 (lo_node k) = Some (hd (qs @ [lo_node k]))" using k(1,4) assms(4) by (auto simp: next_of_def M0_def h_def dest: seg_next)
  then have "list_assign k (M, l) = Some (M2, l\<lparr>lo_size := length ys\<rparr>)"
    using delete_all_ok [OF assms(2)] h M1(1) c k(5) unfolding h_def [symmetric] by (simp add: list_assign_def h_def [symmetric] set_next_def M0_def)
  moreover have "becomes M l ps M2 (l\<lparr>lo_size := length ys\<rparr>) rs ys"
    using M1 c h by (auto simp: becomes_def list_nodes_def M2_def mem_ok_def M0_def same_node_def h_def half_ring_def)
  ultimately show ?thesis by blast
qed

text \<open>Assigned to itself a list loses its nodes but keeps its size, and then reads through a null pointer.\<close>

lemma assign_self_breaks:
  assumes "mem_ok M" "list_nodes M l ps xs" "xs \<noteq> []"
  shows "\<exists>M' l'. list_assign l (M, l) = Some (M', l') \<and> list_size l' = length xs \<and> lm_live M' = lm_live M - set ps \<and> list_front (M', l') = None"
proof -
  define h where "h = lo_node l"
  have h: "h \<in> lm_live M" "h \<notin> set ps" "lm_data M h = None" "lo_size l = length xs" using assms(2) list_nodes_distinct [OF assms(2)] by (auto simp: list_nodes_def h_def)
  have c: "copy_from h h h h N = Some (h, N)" for N :: "'a lmem" by (subst copy_from.simps) simp
  show ?thesis
    using delete_all_ok [OF assms(2)] h c assms(3) unfolding h_def [symmetric]
    by (simp add: list_assign_def h_def [symmetric] lmem_defs list_size_def list_front_def)
qed

lemma copy_ok:
  assumes "mem_ok M" "list_nodes M k qs ys"
  shows "\<exists>M' l rs. list_copy k M = Some (M', l) \<and> mem_ok M' \<and> list_nodes M' l rs ys \<and> lm_live M' = insert (lo_node l) (set rs) \<union> lm_live M \<and>
    insert (lo_node l) (set rs) \<inter> lm_live M = {} \<and> (\<forall>q \<in> lm_live M. same_node M M' q)"
proof -
  define h where "h = lm_brk M"
  define M0 where "M0 = (snd (new_node None NULL NULL M))\<lparr>lm_next := (lm_next M)(h := h)\<rparr>"
  have M0: "lm_live M0 = insert h (lm_live M)" "lm_data M0 = (lm_data M)(h := None)" "lm_next M0 = (lm_next M)(h := h)" "lm_prev M0 = (lm_prev M)(h := NULL)"
    by (simp_all add: M0_def new_node_def h_def)
  have h: "h \<notin> lm_live M" using assms(1) by (auto simp: h_def mem_ok_def)
  have k: "seg (lm_next M) (lm_prev M) (lo_node k) qs (lo_node k)" "lo_node k \<notin> set qs" "map (lm_data M) qs = map Some ys" "insert (lo_node k) (set qs) \<subseteq> lm_live M" "lo_size k = length ys"
    using assms(2) list_nodes_distinct [OF assms(2)] by (auto simp: list_nodes_def ring_def)
  have hk: "h \<notin> insert (lo_node k) (set qs)" using h k(4) by auto
  have "seg (lm_next M0) (lm_prev M) (lo_node k) qs (lo_node k)"
    using k(1) hk seg_cong [of "lo_node k" qs "lm_next M0" "lm_next M" "lo_node k" "lm_prev M" "lm_prev M"] by (auto simp: M0)
  moreover have "map (lm_data M0) qs = map Some ys" using k(3) hk by (simp add: M0)
  moreover have "mem_ok M0" using assms(1) by (auto simp: M0_def new_node_def mem_ok_def h_def less_SucI)
  moreover have "half_ring M0 h []" by (simp add: half_ring_def M0)
  moreover have "set qs \<subseteq> lm_live M0" "h \<notin> set qs" "map (lm_data M0) qs = map Some ys" using k hk by (auto simp: M0)
  ultimately obtain M1 rs where M1: "copy_from h (lo_node k) h (hd (qs @ [lo_node k])) M0 = Some (last (h # rs), M1)" "mem_ok M1" "half_ring M1 h rs"
    "map (lm_data M1) rs = map Some ys" "lm_data M1 h = lm_data M0 h" "lm_live M1 = lm_live M0 \<union> set rs" "set rs \<inter> lm_live M0 = {}"
    "\<forall>q \<in> lm_live M0 - {h}. same_node M0 M1 q"
    using copy_from_start [of M0 h "lm_prev M" "lo_node k" qs "lo_node k" ys thesis] k(2) by blast
  define M2 where "M2 = M1\<lparr>lm_prev := (lm_prev M1)(h := last (h # rs))\<rparr>"
  note c = half_ring_close [OF M1(3) M2_def]
  have "next_of M0 (lo_node k) = Some (hd (qs @ [lo_node k]))" using k(1,4) hk by (auto simp: next_of_def M0 dest: seg_next)
  moreover have "set_next h h (snd (new_node None NULL NULL M)) = Some M0" by (simp add: set_next_def M0_def new_node_def h_def)
  moreover have "fst (new_node None NULL NULL M) = h" by (simp add: new_node_def h_def)
  ultimately have "list_copy k M = Some (M2, \<lparr>lo_node = h, lo_size = length ys\<rparr>)"
    using M1(1) c k(5) by (simp add: list_copy_def Let_def case_prod_beta)
  moreover have "mem_ok M2" using M1(2) by (simp add: mem_ok_def M2_def)
  moreover have "list_nodes M2 \<lparr>lo_node = h, lo_size = length ys\<rparr> rs ys"
    using M1 c by (auto simp: list_nodes_def M2_def M0 half_ring_def)
  moreover have "same_node M M2 q" if "q \<in> lm_live M" for q
  proof -
    have "q \<noteq> h" "q \<in> lm_live M0 - {h}" using that h by (auto simp: M0)
    with M1(8) show ?thesis by (auto simp: same_node_def M2_def M0)
  qed
  moreover have "insert h (set rs) \<inter> lm_live M = {}" "lm_live M2 = insert h (set rs) \<union> lm_live M" using M1(6,7) h by (auto simp: M0 M2_def)
  ultimately show ?thesis by (intro exI [of _ M2] exI [of _ "\<lparr>lo_node = h, lo_size = length ys\<rparr>"] exI [of _ rs]) simp
qed

section \<open>Iterators\<close>

text \<open>The iterator at a position of a list; the position after the last element is \<open>end()\<close>.\<close>

definition iter_at :: "lobj \<Rightarrow> ptr list \<Rightarrow> nat \<Rightarrow> iter" where
  "iter_at l ps k = \<lparr>it_node = hd (drop k ps @ [lo_node l]), it_list = lo_node l\<rparr>"

lemma begin_ok: "list_nodes M l ps xs \<Longrightarrow> list_begin (M, l) = Some (iter_at l ps 0)"
  using delete_all_ok(1) [of M l ps xs] by (simp add: list_begin_def iter_at_def)

lemma end_ok: "list_nodes M l ps xs \<Longrightarrow> list_end l = iter_at l ps (length xs)"
  using list_nodes_length [of M l ps xs] by (simp add: list_end_def iter_at_def)

lemma iter_at_split:
  assumes "list_nodes M l ps xs" "k < length xs"
  obtains q where "iter_at l ps k = \<lparr>it_node = q, it_list = lo_node l\<rparr>" "list_nodes M l (take k ps @ q # drop (Suc k) ps) (take k xs @ xs ! k # drop (Suc k) xs)"
    "length (take k ps) = length (take k xs)" "q \<in> lm_live M" "q \<noteq> lo_node l" "lm_data M q = Some (xs ! k)" "ps ! k = q"
proof -
  have len: "k < length ps" using assms list_nodes_length by metis
  then have ps: "ps = take k ps @ ps ! k # drop (Suc k) ps" by (rule id_take_nth_drop)
  have xs: "xs = take k xs @ xs ! k # drop (Suc k) xs" using assms(2) by (rule id_take_nth_drop)
  have d: "drop k ps = ps ! k # drop (Suc k) ps" using len by (simp add: Cons_nth_drop_Suc)
  have "lm_data M (ps ! k) = map (lm_data M) ps ! k" using len by simp
  also have "\<dots> = Some (xs ! k)" using assms by (simp add: list_nodes_def)
  finally have data: "lm_data M (ps ! k) = Some (xs ! k)" .
  have in_ps: "ps ! k \<in> set ps" using len by simp
  show thesis
  proof (rule that [of "ps ! k"])
    show "list_nodes M l (take k ps @ ps ! k # drop (Suc k) ps) (take k xs @ xs ! k # drop (Suc k) xs)" using assms(1) ps xs by (simp only: )
    show "ps ! k \<in> lm_live M" "ps ! k \<noteq> lo_node l" using in_ps assms(1) list_nodes_distinct [OF assms(1)] by (auto simp: list_nodes_def)
    show "iter_at l ps k = \<lparr>it_node = ps ! k, it_list = lo_node l\<rparr>" by (simp add: iter_at_def d)
  qed (use data len assms(2) in simp_all)
qed

lemma iter_incr_ok:
  assumes "list_nodes M l ps xs"
  shows "iter_incr (iter_at l ps k) M = (if k < length xs then returns (iter_at l ps (Suc k)) else throws invalid_iterator)"
proof (cases "k < length xs")
  case True
  from iter_at_split [OF assms True] obtain q where q: "iter_at l ps k = \<lparr>it_node = q, it_list = lo_node l\<rparr>"
    "list_nodes M l (take k ps @ q # drop (Suc k) ps) (take k xs @ xs ! k # drop (Suc k) xs)" "q \<in> lm_live M" "q \<noteq> lo_node l" by blast
  then have "lm_next M q = hd (drop (Suc k) ps @ [lo_node l])" by (simp add: unlink_ok(6))
  with q True show ?thesis by (simp add: iter_incr_def next_of_def iter_at_def)
next
  case False
  then show ?thesis using list_nodes_length [OF assms] by (simp add: iter_incr_def iter_at_def)
qed

lemma iter_decr_ok:
  assumes "list_nodes M l ps xs" "k \<le> length xs"
  shows "iter_decr (iter_at l ps k) M = (if 0 < k then returns (iter_at l ps (k - 1)) else throws invalid_iterator)"
proof (cases k)
  case 0
  then show ?thesis using delete_all_ok(1) [OF assms(1)] by (simp add: iter_decr_def iter_at_def)
next
  case (Suc j)
  with assms(2) have "j < length xs" by simp
  from iter_at_split [OF assms(1) this] obtain q where q: "iter_at l ps j = \<lparr>it_node = q, it_list = lo_node l\<rparr>"
    "list_nodes M l (take j ps @ q # drop (Suc j) ps) (take j xs @ xs ! j # drop (Suc j) xs)" "q \<in> lm_live M" by blast
  define r where "r = hd (drop k ps @ [lo_node l])"
  have ps: "take k ps @ drop k ps = ps" by simp
  have "list_nodes M l ((take j ps @ [q]) @ drop k ps) xs" using q(2) assms(1) \<open>j < length xs\<close> Suc by (simp add: id_take_nth_drop [symmetric])
  from at_prev [OF this] hd_live [OF this] have r: "lm_prev M r = q" "r \<in> lm_live M" by (simp_all add: r_def)
  have first: "next_of M (lo_node l) = Some (hd (ps @ [lo_node l]))" by (rule delete_all_ok(1) [OF assms(1)])
  have "r \<noteq> hd (ps @ [lo_node l])"
  proof (cases "drop k ps")
    case Nil
    have "ps \<noteq> []" using \<open>j < length xs\<close> list_nodes_length [OF assms(1)] by auto
    with Nil list_nodes_distinct [OF assms(1)] show ?thesis by (auto simp: r_def)
  next
    case (Cons x zs)
    have "r \<noteq> hd ps" if "distinct (take k ps @ drop k ps)"
    proof -
      have "hd ps \<in> set (take k ps)" using Cons Suc by (cases ps) auto
      moreover have "r \<in> set (drop k ps)" using Cons by (simp add: r_def)
      ultimately show ?thesis using that by (auto simp del: append_take_drop_id)
    qed
    moreover have "ps \<noteq> []" using Cons by auto
    ultimately show ?thesis using list_nodes_distinct [OF assms(1)] ps by simp
  qed
  moreover have "iter_at l ps k = \<lparr>it_node = r, it_list = lo_node l\<rparr>" by (simp add: iter_at_def r_def)
  moreover have "0 < k" "k - 1 = j" using Suc by simp_all
  ultimately show ?thesis using r q(1) first by (simp add: iter_decr_def prev_of_def)
qed

lemma iter_deref_ok:
  assumes "list_nodes M l ps xs"
  shows "iter_deref (iter_at l ps k) M = (if k < length xs then returns (xs ! k) else throws invalid_iterator)"
proof (cases "k < length xs")
  case True
  from iter_at_split [OF assms True] obtain q where "iter_at l ps k = \<lparr>it_node = q, it_list = lo_node l\<rparr>" "q \<in> lm_live M" "lm_data M q = Some (xs ! k)" by blast
  with True show ?thesis by (simp add: iter_deref_def data_ptr_def)
next
  case False
  then show ?thesis using list_nodes_length [OF assms] assms by (simp add: iter_deref_def iter_at_def data_ptr_def list_nodes_def)
qed

text \<open>\<open>insert\<close> puts the value before the iterator and gives an iterator to it, \<open>erase\<close> gives the iterator to the next element.\<close>

lemma insert_ok:
  assumes "mem_ok M" "list_nodes M l ps xs" "k \<le> length xs"
  shows "\<exists>M' l' ps'. list_insert (iter_at l ps k) v (M, l) = returns (iter_at l' ps' k, M', l') \<and> becomes M l ps M' l' ps' (take k xs @ v # drop k xs)"
proof -
  define x where "x = hd (drop k ps @ [lo_node l])"
  define a where "a = last (lo_node l # take k ps)"
  have nodes: "list_nodes M l (take k ps @ drop k ps) xs" "list_nodes M l (take k ps @ drop k ps) (take k xs @ drop k xs)" using assms(2) by simp_all
  have len: "length (take k ps) = length (take k xs)" "length (take k ps) = k" using list_nodes_length [OF assms(2)] assms(3) by simp_all
  have "put_before x v M = Some (lm_brk M, with_node a v x M)" unfolding a_def by (rule put_before_ok [OF assms(1) nodes(1) x_def])
  moreover have b: "becomes M l (take k ps @ drop k ps) (with_node a v x M) (l\<lparr>lo_size := lo_size l + 1\<rparr>) (take k ps @ lm_brk M # drop k ps) (take k xs @ v # drop k xs)"
    by (rule with_node_becomes [OF assms(1) nodes(2) len(1) a_def x_def])
  moreover have "iter_at (l\<lparr>lo_size := lo_size l + 1\<rparr>) (take k ps @ lm_brk M # drop k ps) k = \<lparr>it_node = lm_brk M, it_list = lo_node l\<rparr>"
    using len(2) by (simp add: iter_at_def)
  moreover have "it_node (iter_at l ps k) = x" "it_list (iter_at l ps k) = lo_node l" by (simp_all add: iter_at_def x_def)
  ultimately show ?thesis unfolding list_insert_def by (intro exI) auto
qed

lemma erase_ok:
  assumes "mem_ok M" "list_nodes M l ps xs" "k < length xs"
  shows "\<exists>M' l' ps'. list_erase (iter_at l ps k) (M, l) = returns (iter_at l' ps' k, M', l') \<and> becomes M l ps M' l' ps' (take k xs @ drop (Suc k) xs)"
proof -
  from iter_at_split [OF assms(2,3)] obtain q where q: "iter_at l ps k = \<lparr>it_node = q, it_list = lo_node l\<rparr>"
    "list_nodes M l (take k ps @ q # drop (Suc k) ps) (take k xs @ xs ! k # drop (Suc k) xs)"
    "length (take k ps) = length (take k xs)" "q \<in> lm_live M" "q \<noteq> lo_node l" "ps ! k = q" by blast
  note u = unlink_ok [OF q(2)]
  have len: "k < length ps" "lo_size l \<noteq> 0" using assms(2,3) list_nodes_length [OF assms(2)] by (auto simp: list_nodes_def)
  have ps: "take k ps @ q # drop (Suc k) ps = ps" unfolding q(6) [symmetric] using len(1) by (rule id_take_nth_drop [symmetric])
  define r where "r = hd (drop (Suc k) ps @ [lo_node l])"
  define M' where "M' = without_node q M"
  define l' where "l' = l\<lparr>lo_size := lo_size l - 1\<rparr>"
  have "q \<noteq> last (lo_node l # take k ps)"
    using list_nodes_distinct [OF q(2)] last_Cons_mem [of "lo_node l" "take k ps"] by auto
  then have "lm_next (unlinked q M) q = r" using u(5,6) by (simp add: unlinked_def r_def)
  then have "list_erase (iter_at l ps k) (M, l) = returns (\<lparr>it_node = r, it_list = lo_node l\<rparr>, M', l')"
    using q(1,4,5) u(1) len(2) by (simp add: list_erase_def next_of_def delete_node_def M'_def l'_def without_node_def) (simp add: unlinked_def)
  moreover have "becomes M l ps M' l' (take k ps @ drop (Suc k) ps) (take k xs @ drop (Suc k) xs)"
    using without_node_becomes [OF assms(1) q(2,3)] unfolding ps M'_def l'_def .
  moreover have "iter_at l' (take k ps @ drop (Suc k) ps) k = \<lparr>it_node = r, it_list = lo_node l\<rparr>" using len(1) by (simp add: iter_at_def r_def l'_def)
  ultimately show ?thesis by metis
qed

lemma erase_end: "list_nodes M l ps xs \<Longrightarrow> xs \<noteq> [] \<Longrightarrow> list_erase (iter_at l ps (length xs)) (M, l) = throws invalid_iterator"
  using list_nodes_length [of M l ps xs] by (simp add: list_erase_def iter_at_def list_nodes_def)

end
