(* ===== verification/Linked_List_Algorithms.thy ===== *)
theory Linked_List_Algorithms
  imports Linked_List
begin

text \<open>
  \<open>sort\<close>, \<open>merge\<close>, \<open>reverse\<close> and \<open>unique\<close> of \<open>list.hpp\<close>, and whole programs that use a list.  \<open>sort\<close> is a quicksort that moves the
  \<open>_data\<close> pointers between the nodes; \<open>merge\<close> moves the nodes of the other list.
\<close>

section \<open>The operations\<close>

text \<open>The two inner loops of \<open>sort\<close>: the first fills the hole at \<open>i\<close>, the second the hole at \<open>j\<close>.\<close>

partial_function (option) sort_left :: "'a::linorder \<Rightarrow> ptr \<Rightarrow> ptr \<Rightarrow> 'a lmem \<Rightarrow> ('a lmem \<times> ptr \<times> ptr) option" where
  "sort_left pivot i j M = (
     if i = j then Some (M, i, j)
     else do {
       x \<leftarrow> data_of M j;
       if x < pivot then do { d \<leftarrow> data_ptr M j; M \<leftarrow> set_data i d M; i \<leftarrow> next_of M i; Some (M, i, j) }
       else do { j \<leftarrow> prev_of M j; sort_left pivot i j M } })"

partial_function (option) sort_right :: "'a::linorder \<Rightarrow> ptr \<Rightarrow> ptr \<Rightarrow> 'a lmem \<Rightarrow> ('a lmem \<times> ptr \<times> ptr) option" where
  "sort_right pivot i j M = (
     if i = j then Some (M, i, j)
     else do {
       x \<leftarrow> data_of M i;
       if \<not> x < pivot then do { d \<leftarrow> data_ptr M i; M \<leftarrow> set_data j d M; j \<leftarrow> prev_of M j; Some (M, i, j) }
       else do { i \<leftarrow> next_of M i; sort_right pivot i j M } })"

partial_function (option) sort_holes :: "'a::linorder \<Rightarrow> ptr \<Rightarrow> ptr \<Rightarrow> 'a lmem \<Rightarrow> ('a lmem \<times> ptr \<times> ptr) option" where
  "sort_holes pivot i j M = (
     if i = j then Some (M, i, j)
     else do {
       (M, i, j) \<leftarrow> sort_left pivot i j M;
       (M, i, j) \<leftarrow> sort_right pivot i j M;
       sort_holes pivot i j M })"

partial_function (option) sort_nodes :: "ptr \<Rightarrow> ptr \<Rightarrow> 'a::linorder lmem \<Rightarrow> 'a lmem option" where
  "sort_nodes begin end M = do {
     second \<leftarrow> next_of M begin;
     if second = end \<or> begin = end then Some M
     else do {
       j \<leftarrow> prev_of M end;
       pivot \<leftarrow> data_of M begin;
       (M, i, j) \<leftarrow> sort_holes pivot begin j M;
       M \<leftarrow> set_data i (Some pivot) M;
       M \<leftarrow> sort_nodes begin i M;
       right \<leftarrow> next_of M j;
       sort_nodes right end M } }"

definition list_sort :: "'a::linorder lmem \<times> lobj \<Rightarrow> ('a lmem \<times> lobj) option" where
  "list_sort = (\<lambda>(M, l). do {
     begin \<leftarrow> next_of M (lo_node l);
     M \<leftarrow> sort_nodes begin (lo_node l) M;
     Some (M, l) })"

partial_function (option) reverse_loop :: "ptr \<Rightarrow> ptr \<Rightarrow> 'a lmem \<Rightarrow> 'a lmem option" where
  "reverse_loop p q M = (
     if p = q then Some M
     else do {
       before \<leftarrow> prev_of M p;
       if before = q then Some M
       else do {
         tmp \<leftarrow> data_ptr M p;
         d \<leftarrow> data_ptr M q;
         M \<leftarrow> set_data p d M;
         M \<leftarrow> set_data q tmp M;
         p \<leftarrow> next_of M p;
         q \<leftarrow> prev_of M q;
         reverse_loop p q M } })"

definition list_reverse :: "'a lmem \<times> lobj \<Rightarrow> ('a lmem \<times> lobj) option" where
  "list_reverse = (\<lambda>(M, l). do {
     p \<leftarrow> next_of M (lo_node l);
     q \<leftarrow> prev_of M (lo_node l);
     M \<leftarrow> reverse_loop p q M;
     Some (M, l) })"

text \<open>The loops of \<open>unique\<close>: the inner one deletes the nodes after \<open>p\<close> that hold the same.\<close>

partial_function (option) unique_inner :: "ptr \<Rightarrow> 'a lmem \<times> lobj \<Rightarrow> ('a lmem \<times> lobj) option" where
  "unique_inner p st = (case st of (M, l) \<Rightarrow> do {
     nx \<leftarrow> next_of M p;
     if nx = lo_node l then Some (M, l)
     else do {
       x \<leftarrow> data_of M p;
       y \<leftarrow> data_of M nx;
       if x = y then do {
         (M, l) \<leftarrow> list_unlink nx (M, l);
         M \<leftarrow> delete_node nx M;
         unique_inner p (M, l) }
       else Some (M, l) } })"

partial_function (option) unique_loop :: "ptr \<Rightarrow> 'a lmem \<times> lobj \<Rightarrow> ('a lmem \<times> lobj) option" where
  "unique_loop p st = (case st of (M, l) \<Rightarrow>
     if p = lo_node l then Some (M, l)
     else do {
       nx \<leftarrow> next_of M p;
       if nx = lo_node l then Some (M, l)
       else do {
         (M, l) \<leftarrow> unique_inner p (M, l);
         p \<leftarrow> next_of M p;
         unique_loop p (M, l) } })"

definition list_unique :: "'a lmem \<times> lobj \<Rightarrow> ('a lmem \<times> lobj) option" where
  "list_unique = (\<lambda>(M, l). do { p \<leftarrow> next_of M (lo_node l); unique_loop p (M, l) })"

text \<open>\<open>merge\<close>: \<open>q\<close> walks along the other list with the sentinel \<open>other\<close>; a node of it is linked once \<open>q\<close> has left it.\<close>

partial_function (option) merge_loop :: "ptr \<Rightarrow> ptr \<Rightarrow> ptr \<Rightarrow> 'a::linorder lmem \<times> lobj \<Rightarrow> (('a lmem \<times> lobj) \<times> ptr \<times> ptr) option" where
  "merge_loop other p q st = (case st of (M, l) \<Rightarrow>
     if p \<noteq> lo_node l \<and> q \<noteq> other then do {
       x \<leftarrow> data_of M p;
       y \<leftarrow> data_of M q;
       if \<not> x < y then do {
         q \<leftarrow> next_of M q;
         cur \<leftarrow> prev_of M q;
         (M, l) \<leftarrow> list_link p cur (M, l);
         merge_loop other p q (M, l) }
       else do { p \<leftarrow> next_of M p; merge_loop other p q (M, l) } }
     else Some ((M, l), p, q))"

partial_function (option) merge_tail :: "ptr \<Rightarrow> ptr \<Rightarrow> 'a lmem \<times> lobj \<Rightarrow> ('a lmem \<times> lobj) option" where
  "merge_tail other q st = (case st of (M, l) \<Rightarrow>
     if q = other then Some (M, l)
     else do {
       q \<leftarrow> next_of M q;
       cur \<leftarrow> prev_of M q;
       (M, l) \<leftarrow> list_link (lo_node l) cur (M, l);
       merge_tail other q (M, l) })"

definition list_merge :: "lobj \<Rightarrow> 'a::linorder lmem \<times> lobj \<Rightarrow> ('a lmem \<times> lobj \<times> lobj) option" where
  "list_merge other = (\<lambda>(M, l). do {
     p \<leftarrow> next_of M (lo_node l);
     q \<leftarrow> next_of M (lo_node other);
     ((M, l), p, q) \<leftarrow> merge_loop (lo_node other) p q (M, l);
     (M, l) \<leftarrow> (if p = lo_node l then merge_tail (lo_node other) q (M, l) else Some (M, l));
     M \<leftarrow> set_next (lo_node other) (lo_node other) M;
     M \<leftarrow> set_prev (lo_node other) (lo_node other) M;
     Some (M, l, other\<lparr>lo_size := 0\<rparr>) })"

section \<open>Chains of nodes\<close>

definition chain :: "'a lmem \<Rightarrow> ptr list \<Rightarrow> bool" where
  "chain M cs \<longleftrightarrow> distinct cs \<and> set cs \<subseteq> lm_live M \<and> (\<forall>k. Suc k < length cs \<longrightarrow> lm_next M (cs ! k) = cs ! Suc k \<and> lm_prev M (cs ! Suc k) = cs ! k)"

definition vals :: "'a lmem \<Rightarrow> ptr list \<Rightarrow> 'a list \<Rightarrow> bool" where
  "vals M cs xs \<longleftrightarrow> length xs \<le> length cs \<and> (\<forall>k < length xs. lm_data M (cs ! k) = Some (xs ! k))"

text \<open>Only the data of the nodes with values change, to \<open>xs'\<close>.\<close>

definition stores :: "'a lmem \<Rightarrow> ptr list \<Rightarrow> 'a list \<Rightarrow> 'a lmem \<Rightarrow> 'a list \<Rightarrow> bool" where
  "stores M cs xs M' xs' \<longleftrightarrow> M' = M\<lparr>lm_data := lm_data M'\<rparr> \<and> (\<forall>q. q \<notin> set (take (length xs) cs) \<longrightarrow> lm_data M' q = lm_data M q) \<and>
     length xs' = length xs \<and> vals M' cs xs'"

lemma chain_data: "M' = M\<lparr>lm_data := d\<rparr> \<Longrightarrow> chain M' cs = chain M cs"
  by (simp add: chain_def)

lemma chain_stores: "stores M cs xs M' xs' \<Longrightarrow> chain M' ds = chain M ds"
  unfolding stores_def using chain_data by blast

lemma stores_refl: "vals M cs xs \<Longrightarrow> stores M cs xs M xs"
  by (simp add: stores_def)

lemma stores_trans: "stores M cs xs M1 xs1 \<Longrightarrow> stores M1 cs xs1 M2 xs2 \<Longrightarrow> stores M cs xs M2 xs2"
  unfolding stores_def by (metis lmem.surjective lmem.update_convs(1))

lemma chain_live: "chain M cs \<Longrightarrow> k < length cs \<Longrightarrow> cs ! k \<in> lm_live M"
  by (auto simp: chain_def)

lemma chain_next: "chain M cs \<Longrightarrow> Suc k < length cs \<Longrightarrow> next_of M (cs ! k) = Some (cs ! Suc k)"
  by (simp add: chain_def next_of_def subset_iff)

lemma chain_prev: "chain M cs \<Longrightarrow> Suc k < length cs \<Longrightarrow> prev_of M (cs ! Suc k) = Some (cs ! k)"
  by (simp add: chain_def prev_of_def subset_iff)

lemma chain_eq: "chain M cs \<Longrightarrow> i < length cs \<Longrightarrow> j < length cs \<Longrightarrow> cs ! i = cs ! j \<longleftrightarrow> i = j"
  by (simp add: chain_def nth_eq_iff_index_eq)

lemma vals_data: "chain M cs \<Longrightarrow> vals M cs xs \<Longrightarrow> k < length xs \<Longrightarrow> data_ptr M (cs ! k) = Some (Some (xs ! k)) \<and> data_of M (cs ! k) = Some (xs ! k)"
  by (simp add: vals_def data_ptr_def data_of_def chain_live)

lemma chain_take: "chain M cs \<Longrightarrow> chain M (take n cs)"
  by (auto simp: chain_def dest: in_set_takeD)

lemma chain_drop: "chain M cs \<Longrightarrow> chain M (drop n cs)"
  unfolding chain_def by (auto simp: dest: in_set_dropD)

text \<open>Storing a value.\<close>

lemma set_data_stores:
  assumes "chain M cs" "vals M cs xs" "k < length xs"
  shows "\<exists>M'. set_data (cs ! k) (Some v) M = Some M' \<and> stores M cs xs M' (xs[k := v])"
proof -
  define M' where "M' = M\<lparr>lm_data := (lm_data M)(cs ! k \<mapsto> v)\<rparr>"
  have len: "length xs \<le> length cs" using assms(2) by (simp add: vals_def)
  have "set_data (cs ! k) (Some v) M = Some M'" using assms(3) len by (simp add: set_data_def M'_def chain_live [OF assms(1)])
  moreover have "cs ! k \<in> set (take (length xs) cs)" using assms(3) len by (auto simp: in_set_conv_nth intro!: exI [of _ k])
  moreover have "vals M' cs (xs[k := v])"
    using assms len chain_eq [OF assms(1)] by (auto simp: vals_def M'_def nth_list_update)
  ultimately show ?thesis by (auto simp: stores_def M'_def)
qed

section \<open>Sorting\<close>

lemma sort_left_ok:
  assumes "chain M cs" "vals M cs xs" "a \<le> b" "b < length xs"
  shows "\<exists>M' a' b' xs'. sort_left p (cs ! a) (cs ! b) M = Some (M', cs ! a', cs ! b') \<and> stores M cs xs M' xs' \<and> a' \<le> b' \<and> b' \<le> b \<and>
    (\<forall>k. b' < k \<longrightarrow> k \<le> b \<longrightarrow> \<not> xs ! k < p) \<and> (a' = a \<and> b' = a \<and> xs' = xs \<or> a' = Suc a \<and> xs ! b' < p \<and> xs' = xs[a := xs ! b'])"
  using assms(3,4)
proof (induction "b - a" arbitrary: b)
  case 0
  then have "a = b" by simp
  with stores_refl [OF assms(2)] show ?case by (subst sort_left.simps) (auto intro!: exI [of _ a])
next
  case (Suc n)
  have len: "length xs \<le> length cs" using assms(2) by (simp add: vals_def)
  have ne: "cs ! a \<noteq> cs ! b" using Suc.hyps(2) Suc.prems len chain_eq [OF assms(1), of a b] by simp
  note d = vals_data [OF assms(1,2), of b]
  show ?case
  proof (cases "xs ! b < p")
    case True
    from set_data_stores [OF assms(1,2), of a "xs ! b"] Suc.prems obtain M' where
      M': "set_data (cs ! a) (Some (xs ! b)) M = Some M'" "stores M cs xs M' (xs[a := xs ! b])" by auto
    have "next_of M' (cs ! a) = Some (cs ! Suc a)"
      using chain_next [of M' cs a] chain_stores [OF M'(2)] assms(1) Suc.hyps(2) Suc.prems len by simp
    then have "sort_left p (cs ! a) (cs ! b) M = Some (M', cs ! Suc a, cs ! b)"
      using ne d M'(1) True Suc.prems by (subst sort_left.simps) simp
    with M'(2) True Suc.hyps(2) Suc.prems show ?thesis by (intro exI [of _ M'] exI [of _ "Suc a"] exI [of _ b] exI [of _ "xs[a := xs ! b]"]) auto
  next
    case False
    have b: "b - 1 - a = n" "a \<le> b - 1" "b - 1 < length xs" "Suc (b - 1) = b" using Suc.hyps(2) Suc.prems by auto
    have "prev_of M (cs ! b) = Some (cs ! (b - 1))" using chain_prev [OF assms(1), of "b - 1"] b(4) Suc.prems len by simp
    then have step: "sort_left p (cs ! a) (cs ! b) M = sort_left p (cs ! a) (cs ! (b - 1)) M"
      using ne d False Suc.prems by (subst sort_left.simps) simp
    from Suc.hyps(1) [OF b(1) [symmetric] b(2,3)] obtain M' a' b' xs' where
      IH: "sort_left p (cs ! a) (cs ! (b - 1)) M = Some (M', cs ! a', cs ! b')" "stores M cs xs M' xs'" "a' \<le> b'" "b' \<le> b - 1"
      "\<forall>k. b' < k \<longrightarrow> k \<le> b - 1 \<longrightarrow> \<not> xs ! k < p" "a' = a \<and> b' = a \<and> xs' = xs \<or> a' = Suc a \<and> xs ! b' < p \<and> xs' = xs[a := xs ! b']" by blast
    have "\<not> xs ! k < p" if "b' < k" "k \<le> b" for k using that IH(5) False b(4) by (cases "k = b") auto
    with IH step b show ?thesis by (intro exI [of _ M'] exI [of _ a'] exI [of _ b'] exI [of _ xs']) auto
  qed
qed

lemma sort_right_ok:
  assumes "chain M cs" "vals M cs xs" "a \<le> b" "b < length xs"
  shows "\<exists>M' a' b' xs'. sort_right p (cs ! a) (cs ! b) M = Some (M', cs ! a', cs ! b') \<and> stores M cs xs M' xs' \<and> a \<le> a' \<and> a' \<le> b' \<and>
    (\<forall>k. a \<le> k \<longrightarrow> k < a' \<longrightarrow> xs ! k < p) \<and> (a' = b \<and> b' = b \<and> xs' = xs \<or> Suc b' = b \<and> \<not> xs ! a' < p \<and> xs' = xs[b := xs ! a'])"
  using assms(3)
proof (induction "b - a" arbitrary: a)
  case 0
  then have "a = b" by simp
  with stores_refl [OF assms(2)] show ?case by (subst sort_right.simps) (auto intro!: exI [of _ b])
next
  case (Suc n)
  have len: "length xs \<le> length cs" using assms(2) by (simp add: vals_def)
  have ne: "cs ! a \<noteq> cs ! b" using Suc.hyps(2) assms(4) len chain_eq [OF assms(1), of a b] by simp
  note d = vals_data [OF assms(1,2), of a]
  have a: "a < length xs" "n = b - Suc a" "Suc a \<le> b" using Suc.hyps(2) assms(4) by auto
  show ?case
  proof (cases "xs ! a < p")
    case False
    from set_data_stores [OF assms(1,2,4), of "xs ! a"] obtain M' where
      M': "set_data (cs ! b) (Some (xs ! a)) M = Some M'" "stores M cs xs M' (xs[b := xs ! a])" by auto
    have "prev_of M' (cs ! b) = Some (cs ! (b - 1))"
      using chain_prev [of M' cs "b - 1"] chain_stores [OF M'(2)] assms(1,4) a(3) len by simp
    then have "sort_right p (cs ! a) (cs ! b) M = Some (M', cs ! a, cs ! (b - 1))"
      using ne d M'(1) False a(1) by (subst sort_right.simps) simp
    with M'(2) False a(3) show ?thesis by (intro exI [of _ M'] exI [of _ a] exI [of _ "b - 1"] exI [of _ "xs[b := xs ! a]"]) auto
  next
    case True
    have "next_of M (cs ! a) = Some (cs ! Suc a)" using chain_next [OF assms(1), of a] a(3) assms(4) len by simp
    then have step: "sort_right p (cs ! a) (cs ! b) M = sort_right p (cs ! Suc a) (cs ! b) M"
      using ne d True a(1) by (subst sort_right.simps) simp
    from Suc.hyps(1) [OF a(2,3)] obtain M' a' b' xs' where
      IH: "sort_right p (cs ! Suc a) (cs ! b) M = Some (M', cs ! a', cs ! b')" "stores M cs xs M' xs'" "Suc a \<le> a'" "a' \<le> b'"
      "\<forall>k. Suc a \<le> k \<longrightarrow> k < a' \<longrightarrow> xs ! k < p" "a' = b \<and> b' = b \<and> xs' = xs \<or> Suc b' = b \<and> \<not> xs ! a' < p \<and> xs' = xs[b := xs ! a']" by blast
    have "xs ! k < p" if "a \<le> k" "k < a'" for k using that IH(5) True by (cases "k = a") auto
    with IH step show ?thesis by (intro exI [of _ M'] exI [of _ a'] exI [of _ b'] exI [of _ xs']) auto
  qed
qed

text \<open>Moving a value into the hole moves the hole.\<close>

lemma mset_hole: "a < length xs \<Longrightarrow> b < length xs \<Longrightarrow> a \<noteq> b \<Longrightarrow> mset (xs[a := xs ! b, b := p]) = mset (xs[a := p])"
  using mset_swap [of a "xs[a := p]" b] by (simp add: list_update_swap [of a b])

lemma sort_holes_ok:
  assumes "chain M cs" "vals M cs xs" "a \<le> b" "b < length xs"
  shows "\<exists>M' c xs'. sort_holes p (cs ! a) (cs ! b) M = Some (M', cs ! c, cs ! c) \<and> stores M cs xs M' xs' \<and> a \<le> c \<and> c \<le> b \<and>
    (\<forall>k. a \<le> k \<longrightarrow> k < c \<longrightarrow> xs' ! k < p) \<and> (\<forall>k. c < k \<longrightarrow> k \<le> b \<longrightarrow> \<not> xs' ! k < p) \<and> (\<forall>k. k < a \<or> b < k \<longrightarrow> xs' ! k = xs ! k) \<and>
    mset (xs'[c := p]) = mset (xs[a := p])"
  using assms
proof (induction "b - a" arbitrary: a b M xs rule: less_induct)
  case less
  note pre = less.prems
  have len: "length xs \<le> length cs" using pre(2) by (simp add: vals_def)
  show ?case
  proof (cases "a = b")
    case True
    with stores_refl [OF pre(2)] show ?thesis by (subst sort_holes.simps) (auto intro!: exI [of _ a])
  next
    case False
    then have ne: "cs ! a \<noteq> cs ! b" using pre(3,4) len chain_eq [OF pre(1), of a b] by simp
    have stop: "sort_right p q q N = Some (N, q, q)" "sort_holes p q q N = Some (N, q, q)" for q and N :: "'a lmem"
      by (simp_all add: sort_right.simps sort_holes.simps)
    from sort_left_ok [OF pre, of p] obtain M1 a1 b1 xs1 where
      l: "sort_left p (cs ! a) (cs ! b) M = Some (M1, cs ! a1, cs ! b1)" "stores M cs xs M1 xs1" "a1 \<le> b1" "b1 \<le> b"
      "\<forall>k. b1 < k \<longrightarrow> k \<le> b \<longrightarrow> \<not> xs ! k < p" "a1 = a \<and> b1 = a \<and> xs1 = xs \<or> a1 = Suc a \<and> xs ! b1 < p \<and> xs1 = xs[a := xs ! b1]" by blast
    from l(6) show ?thesis
    proof (elim disjE conjE)
      assume 1: "a1 = a" "b1 = a" "xs1 = xs"
      then have "sort_holes p (cs ! a) (cs ! b) M = Some (M1, cs ! a, cs ! a)" using l(1) ne stop by (subst sort_holes.simps) simp
      with 1 l(2,5) pre(3) show ?thesis by (intro exI [of _ M1] exI [of _ a] exI [of _ xs]) auto
    next
      assume 2: "a1 = Suc a" "xs ! b1 < p" "xs1 = xs[a := xs ! b1]"
      have c1: "chain M1 cs" "vals M1 cs xs1" "b1 < length xs1" using pre(1,4) l(2,4) chain_stores [OF l(2)] by (auto simp: stores_def)
      have b1: "a < b1" "b1 < length xs" using 2(1) l(3,4) pre(4) by auto
      from sort_right_ok [OF c1(1,2) l(3) c1(3), of p] obtain M2 a2 b2 xs2 where
        r: "sort_right p (cs ! a1) (cs ! b1) M1 = Some (M2, cs ! a2, cs ! b2)" "stores M1 cs xs1 M2 xs2" "a1 \<le> a2" "a2 \<le> b2"
        "\<forall>k. a1 \<le> k \<longrightarrow> k < a2 \<longrightarrow> xs1 ! k < p" "a2 = b1 \<and> b2 = b1 \<and> xs2 = xs1 \<or> Suc b2 = b1 \<and> \<not> xs1 ! a2 < p \<and> xs2 = xs1[b1 := xs1 ! a2]" by blast
      have rw: "stores M cs xs M2 xs2" using stores_trans [OF l(2) r(2)] .
      have step: "sort_holes p (cs ! a) (cs ! b) M = sort_holes p (cs ! a2) (cs ! b2) M2" using ne l(1) r(1) by (subst sort_holes.simps) simp
      have m1: "mset (xs1[b1 := p]) = mset (xs[a := p])" using mset_hole [of a xs b1 p] b1 2(3) by simp
      have low1: "xs1 ! k < p" if "a \<le> k" "k < a2" for k
        using that r(5) 2 b1 by (cases "k = a") auto
      have high1: "\<not> xs1 ! k < p" if "b1 < k" "k \<le> b" for k using that l(5) 2(3) b1(1) by simp
      have same1: "xs1 ! k = xs ! k" if "k < a \<or> b < k" for k using that 2(3) b1(1) l(4) by auto
      from r(6) show ?thesis
      proof (elim disjE conjE)
        assume 3: "a2 = b1" "b2 = b1" "xs2 = xs1"
        then have "sort_holes p (cs ! a) (cs ! b) M = Some (M2, cs ! b1, cs ! b1)" using step stop by simp
        with rw 3 m1 low1 high1 same1 b1(1) l(4) show ?thesis by (intro exI [of _ M2] exI [of _ b1] exI [of _ xs1]) auto
      next
        assume 3: "Suc b2 = b1" "\<not> xs1 ! a2 < p" "xs2 = xs1[b1 := xs1 ! a2]"
        have c2: "chain M2 cs" "vals M2 cs xs2" "b2 < length xs2" using c1(1,3) r(2) 3(1) chain_stores [OF r(2)] by (auto simp: stores_def)
        have m2: "mset (xs2[a2 := p]) = mset (xs1[b1 := p])" using mset_hole [of b1 xs1 a2 p] 3 r(4) c1(3) by simp
        have "b2 - a2 < b - a" using 3(1) r(3,4) 2(1) l(4) by linarith
        from less.hyps [OF this c2(1,2) r(4) c2(3)] obtain M' c xs' where
          IH: "sort_holes p (cs ! a2) (cs ! b2) M2 = Some (M', cs ! c, cs ! c)" "stores M2 cs xs2 M' xs'" "a2 \<le> c" "c \<le> b2"
          "\<forall>k. a2 \<le> k \<longrightarrow> k < c \<longrightarrow> xs' ! k < p" "\<forall>k. c < k \<longrightarrow> k \<le> b2 \<longrightarrow> \<not> xs' ! k < p" "\<forall>k. k < a2 \<or> b2 < k \<longrightarrow> xs' ! k = xs2 ! k"
          "mset (xs'[c := p]) = mset (xs2[a2 := p])" by blast
        have low: "xs' ! k < p" if "a \<le> k" "k < c" for k
        proof (cases "k < a2")
          case True
          then have "k \<noteq> b1" "xs' ! k = xs2 ! k" using IH(7) 3(1) r(4) by auto
          with True low1 [OF that(1)] show ?thesis by (simp add: 3(3))
        qed (use IH(5) that in simp)
        have high: "\<not> xs' ! k < p" if "c < k" "k \<le> b" for k
        proof (cases "k \<le> b2")
          case False
          then have "xs' ! k = xs2 ! k" using IH(7) by simp
          with False 3 high1 [of k] that(2) c1(3) show ?thesis by (cases "k = b1") auto
        qed (use IH(6) that in simp)
        have same: "xs' ! k = xs ! k" if "k < a \<or> b < k" for k
        proof -
          have "xs' ! k = xs2 ! k" "k \<noteq> b1" using that IH(7) r(3) 2(1) 3(1) l(4) b1(1) by auto
          with same1 [OF that] show ?thesis by (simp add: 3(3))
        qed
        have "a \<le> c" "c \<le> b" using IH(3,4) r(3) 2(1) 3(1) l(4) by auto
        then show ?thesis using step IH(1,8) stores_trans [OF rw IH(2)] low high same m1 m2
          by (intro exI [of _ M'] exI [of _ c] exI [of _ xs']) simp
      qed
    qed
  qed
qed

lemma stores_take:
  assumes "stores M (take n cs) (take c xs) M' ys" "vals M cs xs" "chain M cs" "c \<le> length xs" "c \<le> n"
  shows "stores M cs xs M' (ys @ drop c xs)"
proof -
  have len: "length xs \<le> length cs" "length ys = c" using assms(1,2,4) by (auto simp: vals_def stores_def)
  have other: "lm_data M' q = lm_data M q" if "q \<notin> set (take c cs)" for q
    using assms(1,4,5) that by (simp add: stores_def min_def)
  have "set (take c cs) \<subseteq> set (take (length xs) cs)" using assms(4) by (simp add: set_take_subset_set_take)
  then have "lm_data M' q = lm_data M q" if "q \<notin> set (take (length xs) cs)" for q using other that by blast
  moreover have "lm_data M' (cs ! k) = Some ((ys @ drop c xs) ! k)" if "k < length xs" for k
  proof (cases "k < c")
    case True
    then have "lm_data M' (take n cs ! k) = Some (ys ! k)" using assms(1) len(2) unfolding stores_def vals_def by blast
    moreover have "take n cs ! k = cs ! k" using True assms(5) by simp
    ultimately show ?thesis using True len(2) by (simp add: nth_append)
  next
    case False
    then have "cs ! k \<notin> set (take c cs)" using assms(3) that len(1) by (auto simp: chain_def in_set_conv_nth nth_eq_iff_index_eq)
    with False that assms(2) len(2) other show ?thesis by (simp add: nth_append vals_def)
  qed
  ultimately show ?thesis using assms(1,4) len by (simp add: stores_def vals_def)
qed

lemma stores_drop:
  assumes "stores M (drop c cs) (drop c xs) M' ys" "vals M cs xs" "chain M cs" "c \<le> length xs"
  shows "stores M cs xs M' (take c xs @ ys)"
proof -
  have len: "length xs \<le> length cs" "length ys = length xs - c" using assms(1,2) by (auto simp: vals_def stores_def)
  have other: "lm_data M' q = lm_data M q" if "q \<notin> set (take (length xs - c) (drop c cs))" for q
    using assms(1) that by (simp add: stores_def)
  have seg: "take (length xs - c) (drop c cs) = drop c (take (length xs) cs)" by (simp add: drop_take)
  have "lm_data M' (cs ! k) = Some ((take c xs @ ys) ! k)" if "k < length xs" for k
  proof (cases "k < c")
    case True
    then have "cs ! k \<notin> set (drop c (take (length xs) cs))" using assms(3) len(1) that by (auto simp: chain_def in_set_conv_nth nth_eq_iff_index_eq)
    with True assms(2,4) that other show ?thesis by (simp add: seg nth_append vals_def)
  next
    case False
    then have "lm_data M' (drop c cs ! (k - c)) = Some (ys ! (k - c))" using assms(1) len(2) that by (simp add: stores_def vals_def)
    with False that assms(4) len show ?thesis by (simp add: nth_append)
  qed
  moreover have "lm_data M' q = lm_data M q" if "q \<notin> set (take (length xs) cs)" for q
    using other [of q] that in_set_dropD [of q c "take (length xs) cs"] by (auto simp: seg)
  ultimately show ?thesis using assms(1,4) len by (auto simp: stores_def vals_def)
qed

lemma vals_take: "vals M cs xs \<Longrightarrow> c \<le> n \<Longrightarrow> vals M (take n cs) (take c xs)"
  by (auto simp: vals_def min_def)

lemma vals_drop: "vals M cs xs \<Longrightarrow> vals M (drop c cs) (drop c xs)"
  by (auto simp: vals_def)

text \<open>Sorting both sides of the pivot sorts the whole.\<close>

lemma sort_pivot:
  fixes xs :: "'a::linorder list"
  assumes "c < length xs" "xs ! c = p" "\<And>k. k < c \<Longrightarrow> xs ! k < p" "\<And>k. c < k \<Longrightarrow> k < length xs \<Longrightarrow> \<not> xs ! k < p"
  shows "sort (take c xs) @ p # sort (drop (Suc c) xs) = sort xs"
proof (rule sym, rule properties_for_sort)
  have "xs = take c xs @ p # drop (Suc c) xs" using assms(1,2) id_take_nth_drop by blast
  then have "mset xs = mset (take c xs @ p # drop (Suc c) xs)" by simp
  then show "mset (sort (take c xs) @ p # sort (drop (Suc c) xs)) = mset xs" by simp
  have "x < p" if "x \<in> set (take c xs)" for x using that assms(1,3) by (auto simp: in_set_conv_nth)
  moreover have "p \<le> x" if "x \<in> set (drop (Suc c) xs)" for x
  proof -
    from that obtain i where i: "i < length xs - Suc c" "x = xs ! (Suc c + i)" by (auto simp: in_set_conv_nth)
    then have "Suc c + i < length xs" by linarith
    with assms(4) [of "Suc c + i"] i(2) show ?thesis by simp
  qed
  ultimately show "sorted (sort (take c xs) @ p # sort (drop (Suc c) xs))" by (fastforce simp: sorted_append)
qed

lemma sort_nodes_ok:
  assumes "chain M cs" "vals M cs xs" "length cs = Suc (length xs)"
  shows "\<exists>M'. sort_nodes (cs ! 0) (cs ! length xs) M = Some M' \<and> stores M cs xs M' (sort xs)"
  using assms
proof (induction "length xs" arbitrary: cs xs M rule: less_induct)
  case less
  note pre = less.prems
  obtain s where s: "next_of M (cs ! 0) = Some s" using chain_live [OF pre(1), of 0] pre(3) by (simp add: next_of_def)
  consider "length xs = 0" | "length xs = 1" | "2 \<le> length xs" by linarith
  then show ?case
  proof cases
    case 1
    with s pre(2) show ?thesis by (subst sort_nodes.simps) (simp add: stores_refl)
  next
    case 2
    then obtain x where "xs = [x]" by (auto simp: length_Suc_conv)
    moreover have "s = cs ! 1" using chain_next [OF pre(1), of 0] s 2 pre(3) by simp
    ultimately show ?thesis using s pre(2) 2 by (subst sort_nodes.simps) (simp add: stores_refl)
  next
    case 3
    define n where "n = length xs"
    define p where "p = xs ! 0"
    have n: "length cs = Suc n" "2 \<le> n" "length xs = n" using 3 pre(3) by (simp_all add: n_def)
    have "s = cs ! 1" using chain_next [OF pre(1), of 0] s n by simp
    then have go: "s \<noteq> cs ! n" "cs ! 0 \<noteq> cs ! n" using chain_eq [OF pre(1), of 1 n] chain_eq [OF pre(1), of 0 n] n by auto
    have last: "prev_of M (cs ! n) = Some (cs ! (n - 1))" using chain_prev [OF pre(1), of "n - 1"] n by simp
    have pivot: "data_of M (cs ! 0) = Some p" using vals_data [OF pre(1,2), of 0] n by (simp add: p_def)
    from sort_holes_ok [OF pre(1,2), of 0 "n - 1" p] n obtain M1 c xs1 where
      h: "sort_holes p (cs ! 0) (cs ! (n - 1)) M = Some (M1, cs ! c, cs ! c)" "stores M cs xs M1 xs1" "c \<le> n - 1"
      "\<forall>k. 0 \<le> k \<longrightarrow> k < c \<longrightarrow> xs1 ! k < p" "\<forall>k. c < k \<longrightarrow> k \<le> n - 1 \<longrightarrow> \<not> xs1 ! k < p" "mset (xs1[c := p]) = mset (xs[0 := p])" by auto
    have c: "c < n" using h(3) n by linarith
    have i1: "chain M1 cs" "vals M1 cs xs1" "length xs1 = n" using h(2) pre(1) chain_stores [OF h(2)] n by (auto simp: stores_def)
    define xs2 where "xs2 = xs1[c := p]"
    from set_data_stores [OF i1(1,2), of c p] i1(3) c obtain M2 where
      M2: "set_data (cs ! c) (Some p) M1 = Some M2" "stores M1 cs xs1 M2 xs2" by (auto simp: xs2_def)
    have i2: "chain M2 cs" "vals M2 cs xs2" "length xs2 = n" using M2(2) i1 chain_stores [OF M2(2)] by (auto simp: stores_def)
    have "\<exists>M3. sort_nodes (take (Suc c) cs ! 0) (take (Suc c) cs ! length (take c xs2)) M2 = Some M3 \<and>
      stores M2 (take (Suc c) cs) (take c xs2) M3 (sort (take c xs2))"
      by (rule less.hyps) (use i2 c n in \<open>simp_all add: chain_take vals_take\<close>)
    then obtain M3 where M3: "sort_nodes (cs ! 0) (cs ! c) M2 = Some M3" "stores M2 (take (Suc c) cs) (take c xs2) M3 (sort (take c xs2))"
      using i2(3) c by auto
    define xs3 where "xs3 = sort (take c xs2) @ drop c xs2"
    have st3: "stores M2 cs xs2 M3 xs3" unfolding xs3_def using stores_take [OF M3(2) i2(2,1)] i2(3) c by simp
    have i3: "chain M3 cs" "vals M3 cs xs3" "length xs3 = n" using st3 i2 chain_stores [OF st3] by (auto simp: stores_def)
    have right: "next_of M3 (cs ! c) = Some (cs ! Suc c)" using chain_next [OF i3(1), of c] c n by simp
    have drop3: "drop (Suc c) xs3 = drop (Suc c) xs2" using i2(3) c by (simp add: xs3_def)
    have "\<exists>M4. sort_nodes (drop (Suc c) cs ! 0) (drop (Suc c) cs ! length (drop (Suc c) xs3)) M3 = Some M4 \<and>
      stores M3 (drop (Suc c) cs) (drop (Suc c) xs3) M4 (sort (drop (Suc c) xs3))"
      by (rule less.hyps) (use i3 c n in \<open>simp_all add: chain_drop vals_drop\<close>)
    then obtain M4 where M4: "sort_nodes (cs ! Suc c) (cs ! n) M3 = Some M4" "stores M3 (drop (Suc c) cs) (drop (Suc c) xs3) M4 (sort (drop (Suc c) xs3))"
      using i3(3) c n by auto
    have st4: "stores M3 cs xs3 M4 (take (Suc c) xs3 @ sort (drop (Suc c) xs3))" using stores_drop [OF M4(2) i3(2,1)] i3(3) c by simp
    have "sort_nodes (cs ! 0) (cs ! n) M = Some M4"
      using s go last pivot h(1) M2(1) M3(1) right M4(1) by (subst sort_nodes.simps) simp
    moreover have "xs2 ! c = p" using i1(3) c by (simp add: xs2_def)
    moreover have "take (Suc c) xs3 = sort (take c xs2) @ [xs2 ! c]" using i2(3) c by (simp add: xs3_def take_Suc_conv_app_nth take_drop)
    moreover have "sort (take c xs2) @ p # sort (drop (Suc c) xs2) = sort xs2"
      by (rule sort_pivot) (use c i2(3) i1(3) h(4,5) in \<open>auto simp: xs2_def\<close>)
    moreover have "mset xs2 = mset xs" using h(6) n by (simp add: xs2_def p_def list_update_id)
    then have "sort xs2 = sort xs" by (intro properties_for_sort) simp_all
    moreover have "stores M cs xs M4 (take (Suc c) xs3 @ sort (drop (Suc c) xs3))"
      using stores_trans [OF stores_trans [OF stores_trans [OF h(2) M2(2)] st3] st4] .
    ultimately show ?thesis unfolding n(3) by (simp add: drop3)
  qed
qed

text \<open>The nodes of a list and its sentinel are a chain.\<close>

lemma seg_chain:
  assumes "seg (lm_next M) (lm_prev M) a ps b" "distinct (ps @ [b])" "set (ps @ [b]) \<subseteq> lm_live M"
  shows "chain M (ps @ [b])"
proof -
  have "lm_next M ((ps @ [b]) ! k) = (ps @ [b]) ! Suc k \<and> lm_prev M ((ps @ [b]) ! Suc k) = (ps @ [b]) ! k" if "k < length ps" for k
    using assms(1) that
  proof (induction ps arbitrary: a k)
    case (Cons p ps)
    show ?case
    proof (cases k)
      case 0
      have "lm_next M p = hd (ps @ [b])" "lm_prev M (hd (ps @ [b])) = p" using Cons.prems(1) by (cases ps; simp)+
      with 0 show ?thesis by (simp add: hd_conv_nth)
    next
      case (Suc j)
      with Cons show ?thesis by auto
    qed
  qed simp
  with assms(2,3) show ?thesis by (simp add: chain_def)
qed

lemma list_nodes_chain:
  assumes "list_nodes M l ps xs"
  shows "chain M (ps @ [lo_node l])" "vals M (ps @ [lo_node l]) xs" "(ps @ [lo_node l]) ! length xs = lo_node l" "(ps @ [lo_node l]) ! 0 = hd (ps @ [lo_node l])"
proof -
  have "seg (lm_next M) (lm_prev M) (lo_node l) ps (lo_node l)" "set (ps @ [lo_node l]) \<subseteq> lm_live M" using assms by (simp_all add: list_nodes_def ring_def)
  moreover have "distinct (ps @ [lo_node l])" using list_nodes_distinct [OF assms] by simp
  ultimately show "chain M (ps @ [lo_node l])" by (intro seg_chain)
  note len = list_nodes_length [OF assms]
  have "lm_data M (ps ! k) = Some (xs ! k)" if "k < length xs" for k
  proof -
    have "map (lm_data M) ps ! k = map Some xs ! k" using assms by (simp add: list_nodes_def)
    with that len show ?thesis by simp
  qed
  with len show "vals M (ps @ [lo_node l]) xs" by (simp add: vals_def nth_append)
  show "(ps @ [lo_node l]) ! length xs = lo_node l" using len by (simp add: nth_append)
  show "(ps @ [lo_node l]) ! 0 = hd (ps @ [lo_node l])" by (simp add: hd_conv_nth)
qed

text \<open>Storing other values in the nodes of a list.\<close>

lemma stores_becomes:
  assumes "mem_ok M" "list_nodes M l ps xs" "stores M (ps @ [lo_node l]) xs M' xs'"
  shows "becomes M l ps M' l ps xs'"
proof -
  note len = list_nodes_length [OF assms(2)]
  have d: "M' = M\<lparr>lm_data := lm_data M'\<rparr>" "\<forall>q. q \<notin> set ps \<longrightarrow> lm_data M' q = lm_data M q" "length xs' = length ps" "vals M' (ps @ [lo_node l]) xs'"
    using assms(3) len by (auto simp: stores_def)
  then have f: "lm_next M' = lm_next M" "lm_prev M' = lm_prev M" "lm_live M' = lm_live M" "lm_brk M' = lm_brk M" by (metis lmem.select_convs lmem.surjective lmem.update_convs(1))+
  have "map (lm_data M') ps = map Some xs'" using d(3,4) by (intro nth_equalityI) (auto simp: vals_def nth_append)
  then have "list_nodes M' l ps xs'" using assms(2) d(2,3) f list_nodes_distinct [OF assms(2)] len by (simp add: list_nodes_def)
  moreover have "mem_ok M'" using assms(1) f by (simp add: mem_ok_def)
  moreover have "set ps \<subseteq> lm_live M" using assms(2) by (simp add: list_nodes_def)
  ultimately show ?thesis using d(2) f by (auto simp: becomes_def same_node_def)
qed

lemma list_sort_ok:
  assumes "mem_ok M" "list_nodes M l ps xs"
  shows "\<exists>M'. list_sort (M, l) = Some (M', l) \<and> becomes M l ps M' l ps (sort xs)"
proof -
  note c = list_nodes_chain [OF assms(2)]
  from sort_nodes_ok [OF c(1,2)] list_nodes_length [OF assms(2)] obtain M' where
    M': "sort_nodes (hd (ps @ [lo_node l])) (lo_node l) M = Some M'" "stores M (ps @ [lo_node l]) xs M' (sort xs)" unfolding c(3,4) by auto
  have "list_sort (M, l) = Some (M', l)" using M'(1) delete_all_ok(1) [OF assms(2)] by (simp add: list_sort_def)
  with stores_becomes [OF assms M'(2)] show ?thesis by blast
qed

section \<open>Reversing\<close>

text \<open>The values between two positions, reversed.\<close>

definition rev_between :: "nat \<Rightarrow> nat \<Rightarrow> 'a list \<Rightarrow> 'a list" where
  "rev_between a b xs = map (\<lambda>k. if a \<le> k \<and> k \<le> b then xs ! (a + b - k) else xs ! k) [0..<length xs]"

lemma rev_between_whole: "rev_between 0 (length xs - 1) xs = rev xs"
  by (rule nth_equalityI) (auto simp: rev_between_def rev_nth)

lemma rev_between_step:
  assumes "a < b" "b < length xs"
  shows "rev_between (Suc a) (b - 1) (xs[a := xs ! b, b := xs ! a]) = rev_between a b xs"
proof (rule nth_equalityI)
  fix k assume "k < length (rev_between (Suc a) (b - 1) (xs[a := xs ! b, b := xs ! a]))"
  then have k: "k < length xs" by (simp add: rev_between_def)
  have "Suc a + (b - 1) - k = a + b - k" using assms by simp
  moreover have "a + b - k \<noteq> a" "a + b - k \<noteq> b" if "Suc a \<le> k" "k \<le> b - 1" using that assms by auto
  ultimately show "rev_between (Suc a) (b - 1) (xs[a := xs ! b, b := xs ! a]) ! k = rev_between a b xs ! k"
    using k assms by (auto simp: rev_between_def nth_list_update)
qed (simp add: rev_between_def)

lemma reverse_loop_ok:
  assumes "chain M cs" "vals M cs xs" "length xs < length cs" "prev_of M (cs ! 0) = Some (cs ! length xs)" "a \<le> Suc b" "b < length xs" "a < length xs"
  shows "\<exists>M'. reverse_loop (cs ! a) (cs ! b) M = Some M' \<and> stores M cs xs M' (rev_between a b xs)"
  using assms
proof (induction "Suc b - a" arbitrary: a b M xs rule: less_induct)
  case less
  note pre = less.prems
  have eq: "cs ! i = cs ! j \<longleftrightarrow> i = j" if "i \<le> length xs" "j \<le> length xs" for i j using chain_eq [OF pre(1)] that pre(3) by simp
  consider "a = b" | "a = Suc b" | "a < b" using pre(5) by linarith
  then show ?case
  proof cases
    case 1
    then have "rev_between a b xs = xs" by (auto simp: rev_between_def intro!: nth_equalityI)
    with 1 stores_refl [OF pre(2)] show ?thesis by (subst reverse_loop.simps) simp
  next
    case 2
    then have "rev_between a b xs = xs" by (auto simp: rev_between_def intro!: nth_equalityI)
    moreover have "prev_of M (cs ! a) = Some (cs ! b)" using chain_prev [OF pre(1), of b] 2 pre(3,7) by simp
    ultimately show ?thesis using 2 eq [of a b] pre(6,7) stores_refl [OF pre(2)] by (subst reverse_loop.simps) simp
  next
    case 3
    obtain c where c: "prev_of M (cs ! a) = Some (cs ! c)" "c \<le> length xs" "c \<noteq> b"
    proof (cases a)
      case 0
      with pre(4,6) that [of "length xs"] show thesis by simp
    next
      case (Suc j)
      with chain_prev [OF pre(1), of j] pre(3,7) 3 that [of j] show thesis by simp
    qed
    have ne: "cs ! a \<noteq> cs ! b" "cs ! c \<noteq> cs ! b" using eq [of a b] eq [of c b] c 3 pre(6,7) by auto
    have d: "data_ptr M (cs ! a) = Some (Some (xs ! a))" "data_ptr M (cs ! b) = Some (Some (xs ! b))"
      using vals_data [OF pre(1,2) pre(7)] vals_data [OF pre(1,2) pre(6)] by auto
    from set_data_stores [OF pre(1,2) pre(7), of "xs ! b"] obtain M1 where
      M1: "set_data (cs ! a) (Some (xs ! b)) M = Some M1" "stores M cs xs M1 (xs[a := xs ! b])" by auto
    have i1: "chain M1 cs" "vals M1 cs (xs[a := xs ! b])" using pre(1) chain_stores [OF M1(2)] M1(2) by (auto simp: stores_def)
    define ys where "ys = xs[a := xs ! b, b := xs ! a]"
    from set_data_stores [OF i1, of b "xs ! a"] pre(6) obtain M2 where
      M2: "set_data (cs ! b) (Some (xs ! a)) M1 = Some M2" "stores M1 cs (xs[a := xs ! b]) M2 ys" by (auto simp: ys_def)
    have rw: "stores M cs xs M2 ys" using stores_trans [OF M1(2) M2(2)] .
    have i2: "chain M2 cs" "vals M2 cs ys" "length ys = length xs" using pre(1) chain_stores [OF rw] rw by (auto simp: stores_def)
    have f: "lm_prev M2 = lm_prev M" "lm_live M2 = lm_live M" using rw unfolding stores_def by (metis lmem.select_convs lmem.surjective lmem.update_convs(1))+
    have walk: "next_of M2 (cs ! a) = Some (cs ! Suc a)" "prev_of M2 (cs ! b) = Some (cs ! (b - 1))"
      using chain_next [OF i2(1), of a] chain_prev [OF i2(1), of "b - 1"] 3 pre(3,6) by auto
    have before: "prev_of M2 (cs ! 0) = Some (cs ! length ys)" using pre(4) by (simp only: prev_of_def f i2(3))
    have "Suc (b - 1) - Suc a < Suc b - a" "length ys < length cs" "Suc a \<le> Suc (b - 1)" "b - 1 < length ys" "Suc a < length ys"
      using 3 pre(3,6) i2(3) by linarith+
    from less.hyps [OF this(1) i2(1,2) this(2) before this(3-5)] obtain M' where M': "reverse_loop (cs ! Suc a) (cs ! (b - 1)) M2 = Some M'" "stores M2 cs ys M' (rev_between (Suc a) (b - 1) ys)" by blast
    have "reverse_loop (cs ! a) (cs ! b) M = Some M'" using ne c(1) d M1(1) M2(1) walk M'(1) by (subst reverse_loop.simps) simp
    moreover have "rev_between (Suc a) (b - 1) ys = rev_between a b xs" unfolding ys_def using 3 pre(6) by (rule rev_between_step)
    ultimately show ?thesis using stores_trans [OF rw M'(2)] by simp
  qed
qed

lemma list_reverse_ok:
  assumes "mem_ok M" "list_nodes M l ps xs"
  shows "\<exists>M'. list_reverse (M, l) = Some (M', l) \<and> becomes M l ps M' l ps (rev xs)"
proof -
  note c = list_nodes_chain [OF assms(2)] and len = list_nodes_length [OF assms(2)]
  have first: "next_of M (lo_node l) = Some ((ps @ [lo_node l]) ! 0)" using delete_all_ok(1) [OF assms(2)] c(4) by simp
  have h: "lo_node l \<in> lm_live M" using assms(2) by (simp add: list_nodes_def)
  show ?thesis
  proof (cases "xs = []")
    case True
    then have "list_reverse (M, l) = Some (M, l)"
      using first len at_prev [of M l "[]" "[]" "[]"] assms(2) h by (simp add: list_reverse_def prev_of_def reverse_loop.simps)
    moreover have "becomes M l ps M l ps (rev xs)" using True stores_becomes [OF assms stores_refl [OF c(2)]] by simp
    ultimately show ?thesis by blast
  next
    case False
    then obtain qs q where ps: "ps = qs @ [q]" using len by (cases ps rule: rev_cases) auto
    have n: "0 < length xs" "length xs = Suc (length qs)" using False len ps by auto
    have "(ps @ [lo_node l]) ! (length xs - 1) = q" using n ps by (simp add: nth_append)
    moreover have "lm_prev M (lo_node l) = q" using at_prev [of M l ps "[]" xs] assms(2) ps by simp
    ultimately have last: "prev_of M (lo_node l) = Some ((ps @ [lo_node l]) ! (length xs - 1))" using h by (simp add: prev_of_def)
    have "hd (ps @ [lo_node l]) \<in> lm_live M" "lm_prev M (hd (ps @ [lo_node l])) = lo_node l"
      using hd_live [of M l "[]" ps] at_prev [of M l "[]" ps] assms(2) by auto
    then have before: "prev_of M ((ps @ [lo_node l]) ! 0) = Some ((ps @ [lo_node l]) ! length xs)" unfolding c(3,4) by (simp add: prev_of_def)
    have "length xs < length (ps @ [lo_node l])" "0 \<le> Suc (length xs - 1)" "length xs - 1 < length xs" using len n(1) by simp_all
    from reverse_loop_ok [OF c(1,2) this(1) before this(2,3) n(1)] obtain M' where
      M': "reverse_loop ((ps @ [lo_node l]) ! 0) ((ps @ [lo_node l]) ! (length xs - 1)) M = Some M'" "stores M (ps @ [lo_node l]) xs M' (rev xs)"
      unfolding rev_between_whole by blast
    have "list_reverse (M, l) = Some (M', l)" using first last M'(1) by (simp add: list_reverse_def)
    with stores_becomes [OF assms M'(2)] show ?thesis by blast
  qed
qed

section \<open>Removing repetitions\<close>

lemma becomes_refl: "mem_ok M \<Longrightarrow> list_nodes M l ps xs \<Longrightarrow> becomes M l ps M l ps xs"
  by (auto simp: becomes_def same_node_def list_nodes_def)

lemma data_at:
  assumes "list_nodes M l (as @ q # bs) (us @ x # ys)" "length as = length us"
  shows "data_of M q = Some x" "next_of M q = Some (hd (bs @ [lo_node l]))" "q \<noteq> lo_node l" "hd (bs @ [lo_node l]) = lo_node l \<longleftrightarrow> ys = []"
proof -
  show "data_of M q = Some x" using assms by (auto simp: data_of_def data_ptr_def list_nodes_def)
  show "next_of M q = Some (hd (bs @ [lo_node l]))" using unlink_ok(2,6) [OF assms(1)] by (simp add: next_of_def)
  show "q \<noteq> lo_node l" using list_nodes_distinct [OF assms(1)] by auto
  have "length bs = length ys" using list_nodes_length [OF assms(1)] assms(2) by simp
  then show "hd (bs @ [lo_node l]) = lo_node l \<longleftrightarrow> ys = []" using list_nodes_distinct [OF assms(1)] by (cases bs; cases ys) auto
qed

lemma unique_inner_ok:
  assumes "mem_ok M" "list_nodes M l (as @ p # bs) (us @ x # ys)" "length as = length us"
  shows "\<exists>M' l' bs'. unique_inner p (M, l) = Some (M', l') \<and> becomes M l (as @ p # bs) M' l' (as @ p # bs') (us @ x # dropWhile (\<lambda>y. y = x) ys)"
  using assms
proof (induction ys arbitrary: M l bs)
  case Nil
  note d = data_at [OF Nil(2,3)]
  have "unique_inner p (M, l) = Some (M, l)" using d by (subst unique_inner.simps) simp
  with becomes_refl [OF Nil(1,2)] show ?case by auto
next
  case (Cons y ys)
  note d = data_at [OF Cons.prems(2,3)]
  obtain q bs1 where bs: "bs = q # bs1" using list_nodes_length [OF Cons.prems(2)] Cons.prems(3) by (cases bs) auto
  have nodes: "list_nodes M l ((as @ [p]) @ q # bs1) ((us @ [x]) @ y # ys)" using Cons.prems(2) bs by simp
  note e = data_at [OF nodes] and u = unlink_ok [OF nodes]
  show ?case
  proof (cases "y = x")
    case False
    then have "unique_inner p (M, l) = Some (M, l)" using d(1,2) e(1,3) bs Cons.prems(3) by (subst unique_inner.simps) auto
    with False becomes_refl [OF Cons.prems(1,2)] show ?thesis by auto
  next
    case True
    define M1 where "M1 = without_node q M"
    define l1 where "l1 = l\<lparr>lo_size := lo_size l - 1\<rparr>"
    have b1: "becomes M l (as @ p # bs) M1 l1 (as @ p # bs1) (us @ x # ys)"
      using without_node_becomes [OF Cons.prems(1) nodes] Cons.prems(3) bs by (simp add: M1_def l1_def)
    then obtain M' l' bs' where IH: "unique_inner p (M1, l1) = Some (M', l')" "becomes M1 l1 (as @ p # bs1) M' l' (as @ p # bs') (us @ x # dropWhile (\<lambda>y. y = x) ys)"
      using Cons.IH [of M1 l1 bs1] Cons.prems(3) by (auto simp: becomes_def)
    have "delete_node q (unlinked q M) = Some M1" using u(2) by (simp add: delete_node_def M1_def without_node_def) (simp add: unlinked_def)
    then have "unique_inner p (M, l) = unique_inner p (M1, l1)"
      using d(1,2) e(1,3) u(1) bs True Cons.prems(3) by (subst unique_inner.simps) (simp add: l1_def)
    with IH(1) becomes_trans [OF b1 IH(2)] True show ?thesis by auto
  qed
qed

lemma unique_loop_ok:
  assumes "mem_ok M" "list_nodes M l (as @ bs) (us @ ys)" "length as = length us"
  shows "\<exists>M' l' bs'. unique_loop (hd (bs @ [lo_node l])) (M, l) = Some (M', l') \<and> becomes M l (as @ bs) M' l' (as @ bs') (us @ remdups_adj ys)"
  using assms
proof (induction "length ys" arbitrary: M l as us bs ys rule: less_induct)
  case less
  note pre = less.prems
  show ?case
  proof (cases ys)
    case Nil
    then have "bs = []" using list_nodes_length [OF pre(2)] pre(3) by simp
    then have "unique_loop (hd (bs @ [lo_node l])) (M, l) = Some (M, l)" by (subst unique_loop.simps) simp
    with Nil becomes_refl [OF pre(1,2)] show ?thesis by auto
  next
    case (Cons x zs)
    then obtain p bs1 where bs: "bs = p # bs1" using list_nodes_length [OF pre(2)] pre(3) by (cases bs) auto
    have nodes: "list_nodes M l (as @ p # bs1) (us @ x # zs)" using pre(2) Cons bs by simp
    note d = data_at [OF nodes pre(3)]
    show ?thesis
    proof (cases zs)
      case Nil
      then have "unique_loop p (M, l) = Some (M, l)" using d by (subst unique_loop.simps) simp
      with Nil Cons bs becomes_refl [OF pre(1,2)] show ?thesis by auto
    next
      case (Cons z zs')
      define ws where "ws = dropWhile (\<lambda>y. y = x) zs"
      from unique_inner_ok [OF pre(1) nodes pre(3)] obtain M1 l1 bs2 where
        i: "unique_inner p (M, l) = Some (M1, l1)" "becomes M l (as @ p # bs1) M1 l1 (as @ p # bs2) (us @ x # ws)" by (auto simp: ws_def)
      have n1: "mem_ok M1" "list_nodes M1 l1 ((as @ [p]) @ bs2) ((us @ [x]) @ ws)" "lo_node l1 = lo_node l" using i(2) by (simp_all add: becomes_def)
      have "length ws < length ys" using length_dropWhile_le [of "\<lambda>y. y = x" zs] \<open>ys = x # zs\<close> by (simp add: ws_def)
      from less.hyps [OF this n1(1,2)] pre(3) obtain M' l' bs' where
        IH: "unique_loop (hd (bs2 @ [lo_node l1])) (M1, l1) = Some (M', l')" "becomes M1 l1 ((as @ [p]) @ bs2) M' l' ((as @ [p]) @ bs') ((us @ [x]) @ remdups_adj ws)" by auto
      have "next_of M1 p = Some (hd (bs2 @ [lo_node l1]))" using data_at(2) [of M1 l1 as p bs2 us x ws] n1(2) pre(3) by simp
      then have "unique_loop p (M, l) = Some (M', l')" using d(2-4) Cons i(1) IH(1) by (subst unique_loop.simps) simp
      moreover have "becomes M l (as @ p # bs1) M' l' (as @ p # bs') (us @ x # remdups_adj ws)" using becomes_trans [OF i(2)] IH(2) by simp
      moreover have "remdups_adj ys = x # remdups_adj ws" unfolding ws_def \<open>ys = x # zs\<close> by (rule remdups_adj_Cons')
      ultimately show ?thesis using bs by auto
    qed
  qed
qed

lemma list_unique_ok:
  assumes "mem_ok M" "list_nodes M l ps xs"
  shows "\<exists>M' l' ps'. list_unique (M, l) = Some (M', l') \<and> becomes M l ps M' l' ps' (remdups_adj xs)"
  using unique_loop_ok [OF assms(1), of l "[]" ps "[]" xs] delete_all_ok(1) [OF assms(2)] assms(2) by (auto simp: list_unique_def)

section \<open>Merging\<close>

text \<open>An element of the other list goes first when it is not greater.\<close>

fun merge_lists :: "'a::linorder list \<Rightarrow> 'a list \<Rightarrow> 'a list" where
  "merge_lists [] ys = ys"
| "merge_lists xs [] = xs"
| "merge_lists (x # xs) (y # ys) = (if \<not> x < y then y # merge_lists (x # xs) ys else x # merge_lists xs (y # ys))"

lemma merge_lists_Nil [simp]: "merge_lists xs [] = xs"
  by (cases xs) simp_all

lemma mset_merge_lists: "mset (merge_lists xs ys) = mset xs + mset ys"
  by (induction xs ys rule: merge_lists.induct) auto

lemma sorted_merge_lists: "sorted xs \<Longrightarrow> sorted ys \<Longrightarrow> sorted (merge_lists xs ys)"
proof (induction xs ys rule: merge_lists.induct)
  case (3 x xs y ys)
  have "set (merge_lists us vs) = set us \<union> set vs" for us vs :: "'a list" using mset_merge_lists [of us vs] by (metis set_mset_mset set_mset_union)
  with 3 show ?case by (auto simp: not_less)
qed simp_all

lemma merge_lists_sorted: "sorted xs \<Longrightarrow> sorted ys \<Longrightarrow> merge_lists xs ys = sort (xs @ ys)"
  by (rule sym, rule properties_for_sort) (simp_all add: mset_merge_lists sorted_merge_lists)

definition untouched :: "ptr set \<Rightarrow> 'a lmem \<Rightarrow> 'a lmem \<Rightarrow> bool" where
  "untouched S M M' \<longleftrightarrow> mem_ok M' \<and> lm_live M' = lm_live M \<and> lm_data M' = lm_data M \<and> (\<forall>z. z \<notin> S \<longrightarrow> same_node M M' z)"

lemma untouched_trans: "untouched S M M1 \<Longrightarrow> untouched S M1 M2 \<Longrightarrow> untouched S M M2"
  by (simp add: untouched_def same_node_def)

lemma untouched_mono: "untouched S M M1 \<Longrightarrow> S \<subseteq> T \<Longrightarrow> untouched T M M1"
  by (auto simp: untouched_def)

lemma link_ok:
  assumes "mem_ok M" "list_nodes M l (as @ bs) (us @ vs)" "length as = length us" "cur \<in> lm_live M" "cur \<notin> insert (lo_node l) (set (as @ bs))"
    "lm_data M cur = Some y"
  shows "\<exists>M'. list_link (hd (bs @ [lo_node l])) cur (M, l) = Some (M', l\<lparr>lo_size := lo_size l + 1\<rparr>) \<and>
    list_nodes M' (l\<lparr>lo_size := lo_size l + 1\<rparr>) (as @ cur # bs) (us @ y # vs) \<and> untouched (insert (lo_node l) (set (as @ cur # bs))) M M'"
proof -
  define a where "a = last (lo_node l # as)"
  define b where "b = hd (bs @ [lo_node l])"
  define M' where "M' = M\<lparr>lm_next := (lm_next M)(a := cur, cur := b), lm_prev := (lm_prev M)(b := cur, cur := a)\<rparr>"
  have ab: "a \<in> lm_live M" "b \<in> lm_live M" "lm_prev M b = a" "a \<in> insert (lo_node l) (set as)" "b \<in> insert (lo_node l) (set bs)"
    using last_live [OF assms(2)] hd_live [OF assms(2)] at_prev [OF assms(2)] last_Cons_mem [of "lo_node l" as] unfolding a_def b_def by (auto simp: hd_append)
  then have ne: "cur \<noteq> a" "cur \<noteq> b" using assms(5) by auto
  have "(lm_prev M)(cur := a, b := cur) = (lm_prev M)(b := cur, cur := a)" using ne(2) by (simp add: fun_upd_twist)
  then have link: "list_link b cur (M, l) = Some (M', l\<lparr>lo_size := lo_size l + 1\<rparr>)"
    using ab ne assms(4) by (simp add: list_link_def lmem_defs M'_def)
  have "ring (lm_next M') (lm_prev M') (lo_node l) (as @ cur # bs)"
    using ring_link [OF list_nodes_ring [OF assms(2)], of cur a b] assms(5) by (simp add: M'_def a_def b_def)
  moreover have "map (lm_data M) as = map Some us" "map (lm_data M) bs = map Some vs" using assms(2,3) by (auto simp: list_nodes_def)
  ultimately have "list_nodes M' (l\<lparr>lo_size := lo_size l + 1\<rparr>) (as @ cur # bs) (us @ y # vs)"
    using assms(2,4,6) by (simp add: list_nodes_def M'_def)
  moreover have "untouched (insert (lo_node l) (set (as @ cur # bs))) M M'"
    using assms(1) ab(4,5) by (auto simp: untouched_def same_node_def mem_ok_def M'_def)
  ultimately show ?thesis using link by (simp add: b_def)
qed

text \<open>While merging: \<open>as\<close> is behind \<open>p\<close>, which is the first of \<open>bs\<close>; \<open>q\<close> is the first of \<open>qs\<close>.\<close>

definition merging :: "'a lmem \<Rightarrow> lobj \<Rightarrow> ptr list \<Rightarrow> ptr list \<Rightarrow> 'a list \<Rightarrow> 'a list \<Rightarrow> ptr \<Rightarrow> ptr list \<Rightarrow> 'a list \<Rightarrow> bool" where
  "merging M l as bs us xs k qs ys \<longleftrightarrow> mem_ok M \<and> list_nodes M l (as @ bs) (us @ xs) \<and> length as = length us \<and> chain M (qs @ [k]) \<and>
     map (lm_data M) qs = map Some ys \<and> set (qs @ [k]) \<inter> insert (lo_node l) (set (as @ bs)) = {}"

lemma chain_same: "chain M cs \<Longrightarrow> lm_live M' = lm_live M \<Longrightarrow> \<forall>z \<in> set cs. same_node M M' z \<Longrightarrow> chain M' cs"
  by (simp add: chain_def same_node_def)

lemma merging_link:
  assumes "merging M l as bs us xs k (cur # qs) (y # ys)"
  shows "\<exists>M' l'. next_of M cur = Some (hd (qs @ [k])) \<and> prev_of M (hd (qs @ [k])) = Some cur \<and>
    list_link (hd (bs @ [lo_node l])) cur (M, l) = Some (M', l') \<and> lo_node l' = lo_node l \<and>
    merging M' l' (as @ [cur]) bs (us @ [y]) xs k qs ys \<and> untouched (insert (lo_node l) (set (as @ bs @ cur # qs))) M M'"
proof -
  note m = assms [unfolded merging_def]
  have c: "chain M (cur # qs @ [k])" using m by simp
  have walk: "next_of M cur = Some (hd (qs @ [k]))" "prev_of M (hd (qs @ [k])) = Some cur"
    using chain_next [OF c, of 0] chain_prev [OF c, of 0] by (simp_all add: hd_conv_nth)
  have cur: "cur \<in> lm_live M" "cur \<notin> insert (lo_node l) (set (as @ bs))" "lm_data M cur = Some y" using m chain_live [OF c, of 0] by auto
  from link_ok [of M l as bs us xs cur y] m cur obtain M' where
    M': "list_link (hd (bs @ [lo_node l])) cur (M, l) = Some (M', l\<lparr>lo_size := lo_size l + 1\<rparr>)"
    "list_nodes M' (l\<lparr>lo_size := lo_size l + 1\<rparr>) (as @ cur # bs) (us @ y # xs)" "untouched (insert (lo_node l) (set (as @ cur # bs))) M M'" by blast
  have d: "distinct (cur # qs @ [k])" using c by (simp add: chain_def)
  have "chain M' (qs @ [k])"
  proof (rule chain_same)
    show "chain M (qs @ [k])" using chain_drop [OF c, of 1] by simp
    show "lm_live M' = lm_live M" using M'(3) by (simp add: untouched_def)
    have "z \<notin> insert (lo_node l) (set (as @ cur # bs))" if "z \<in> set (qs @ [k])" for z using that m d by auto
    with M'(3) show "\<forall>z \<in> set (qs @ [k]). same_node M M' z" by (simp add: untouched_def)
  qed
  moreover have "map (lm_data M') qs = map Some ys" using m M'(3) by (simp add: untouched_def)
  moreover have "set (qs @ [k]) \<inter> insert (lo_node l) (set ((as @ [cur]) @ bs)) = {}" using m d by auto
  ultimately have "merging M' (l\<lparr>lo_size := lo_size l + 1\<rparr>) (as @ [cur]) bs (us @ [y]) xs k qs ys"
    using m M' by (simp add: merging_def untouched_def)
  moreover have "untouched (insert (lo_node l) (set (as @ bs @ cur # qs))) M M'" by (rule untouched_mono [OF M'(3)]) auto
  ultimately show ?thesis using walk M'(1) by auto
qed

lemma merge_loop_ok:
  assumes "merging M l as bs us xs k qs ys"
  shows "\<exists>M' l' as' bs' us' xs' qs' ys'. merge_loop k (hd (bs @ [lo_node l])) (hd (qs @ [k])) (M, l) = Some ((M', l'), hd (bs' @ [lo_node l']), hd (qs' @ [k])) \<and>
    merging M' l' as' bs' us' xs' k qs' ys' \<and> (bs' = [] \<or> qs' = []) \<and> us' @ merge_lists xs' ys' = us @ merge_lists xs ys \<and> lo_node l' = lo_node l \<and>
    set (as' @ bs' @ qs') = set (as @ bs @ qs) \<and> untouched (insert (lo_node l) (set (as @ bs @ qs))) M M'"
  using assms
proof (induction "length bs + length qs" arbitrary: M l as bs us xs qs ys)
  case 0
  then have "bs = []" "qs = []" by simp_all
  then have "merge_loop k (hd (bs @ [lo_node l])) (hd (qs @ [k])) (M, l) = Some ((M, l), hd (bs @ [lo_node l]), hd (qs @ [k]))"
    by (subst merge_loop.simps) simp
  moreover have "untouched S M M" for S using 0(2) by (simp add: untouched_def merging_def same_node_def)
  ultimately show ?case using 0(2) \<open>bs = []\<close> by blast
next
  case (Suc n)
  note m = Suc.prems [unfolded merging_def]
  have refl: "untouched S M M" for S using m by (simp add: untouched_def same_node_def)
  show ?case
  proof (cases "bs = [] \<or> qs = []")
    case True
    then have "merge_loop k (hd (bs @ [lo_node l])) (hd (qs @ [k])) (M, l) = Some ((M, l), hd (bs @ [lo_node l]), hd (qs @ [k]))"
      by (subst merge_loop.simps) auto
    with True Suc.prems refl show ?thesis by blast
  next
    case False
    then obtain p bs1 q qs1 where bq: "bs = p # bs1" "qs = q # qs1" by (meson list.exhaust)
    have "length bs = length xs" using list_nodes_length [of M l "as @ bs" "us @ xs"] m by simp
    then obtain x xs1 where xs: "xs = x # xs1" using bq by (cases xs) auto
    obtain y ys1 where ys: "ys = y # ys1" using m bq by (cases ys) auto
    have nodes: "list_nodes M l (as @ p # bs1) (us @ x # xs1)" "length as = length us" using m bq xs by simp_all
    note d = data_at [OF nodes]
    have q: "data_of M q = Some y" "q \<noteq> k" using m bq ys chain_live [of M "qs @ [k]" 0] by (auto simp: data_of_def data_ptr_def chain_def)
    show ?thesis
    proof (cases "x < y")
      case False
      from Suc.prems have "merging M l as bs us xs k (q # qs1) (y # ys1)" by (simp add: bq ys)
      from merging_link [OF this] obtain M1 l1 where
        l1: "next_of M q = Some (hd (qs1 @ [k]))" "prev_of M (hd (qs1 @ [k])) = Some q" "list_link (hd (bs @ [lo_node l])) q (M, l) = Some (M1, l1)"
        "lo_node l1 = lo_node l" "merging M1 l1 (as @ [q]) bs (us @ [y]) xs k qs1 ys1" "untouched (insert (lo_node l) (set (as @ bs @ q # qs1))) M M1" by blast
      have "n = length bs + length qs1" using Suc.hyps(2) bq by simp
      from Suc.hyps(1) [OF this l1(5)] obtain M' l' as' bs' us' xs' qs' ys' where
        IH: "merge_loop k (hd (bs @ [lo_node l1])) (hd (qs1 @ [k])) (M1, l1) = Some ((M', l'), hd (bs' @ [lo_node l']), hd (qs' @ [k]))"
        "merging M' l' as' bs' us' xs' k qs' ys'" "bs' = [] \<or> qs' = []" "us' @ merge_lists xs' ys' = (us @ [y]) @ merge_lists xs ys1"
        "lo_node l' = lo_node l1" "set (as' @ bs' @ qs') = set ((as @ [q]) @ bs @ qs1)" "untouched (insert (lo_node l1) (set ((as @ [q]) @ bs @ qs1))) M1 M'" by blast
      have "merge_loop k p q (M, l) = Some ((M', l'), hd (bs' @ [lo_node l']), hd (qs' @ [k]))"
        using d(1,3) q False l1(1-4) IH(1) bq by (subst merge_loop.simps) simp
      then have step: "merge_loop k (hd (bs @ [lo_node l])) (hd (qs @ [k])) (M, l) = Some ((M', l'), hd (bs' @ [lo_node l']), hd (qs' @ [k]))" by (simp add: bq)
      have sets: "set ((as @ [q]) @ bs @ qs1) = set (as @ bs @ qs)" "set (as @ bs @ q # qs1) = set (as @ bs @ qs)" using bq(2) by auto
      have "us' @ merge_lists xs' ys' = us @ merge_lists xs ys" using IH(4) False by (simp add: xs ys)
      moreover have "untouched (insert (lo_node l) (set (as @ bs @ qs))) M M'"
        using untouched_trans [OF l1(6)] IH(7) by (simp only: sets l1(4))
      ultimately show ?thesis using step IH(2,3,5,6) unfolding sets l1(4) by blast
    next
      case True
      have n: "n = length bs1 + length qs" using Suc.hyps(2) bq by simp
      have "merging M l (as @ [p]) bs1 (us @ [x]) xs1 k qs ys" using m bq xs by (simp add: merging_def)
      from Suc.hyps(1) [OF n this] obtain M' l' as' bs' us' xs' qs' ys' where
        IH: "merge_loop k (hd (bs1 @ [lo_node l])) (hd (qs @ [k])) (M, l) = Some ((M', l'), hd (bs' @ [lo_node l']), hd (qs' @ [k]))"
        "merging M' l' as' bs' us' xs' k qs' ys'" "bs' = [] \<or> qs' = []" "us' @ merge_lists xs' ys' = (us @ [x]) @ merge_lists xs1 ys"
        "lo_node l' = lo_node l" "set (as' @ bs' @ qs') = set ((as @ [p]) @ bs1 @ qs)" "untouched (insert (lo_node l) (set ((as @ [p]) @ bs1 @ qs))) M M'" by blast
      have "merge_loop k p q (M, l) = Some ((M', l'), hd (bs' @ [lo_node l']), hd (qs' @ [k]))"
        using d(1-3) q True IH(1) bq by (subst merge_loop.simps) simp
      then have step: "merge_loop k (hd (bs @ [lo_node l])) (hd (qs @ [k])) (M, l) = Some ((M', l'), hd (bs' @ [lo_node l']), hd (qs' @ [k]))" by (simp add: bq)
      have sets: "set ((as @ [p]) @ bs1 @ qs) = set (as @ bs @ qs)" using bq(1) by auto
      have "us' @ merge_lists xs' ys' = us @ merge_lists xs ys" using IH(4) True by (simp add: xs ys)
      then show ?thesis using step IH(2,3,5-7) unfolding sets by blast
    qed
  qed
qed

lemma merge_tail_ok:
  assumes "merging M l as [] us [] k qs ys"
  shows "\<exists>M' l' as'. merge_tail k (hd (qs @ [k])) (M, l) = Some (M', l') \<and> merging M' l' as' [] (us @ ys) [] k [] [] \<and> lo_node l' = lo_node l \<and>
    set as' = set (as @ qs) \<and> untouched (insert (lo_node l) (set (as @ qs))) M M'"
  using assms
proof (induction qs arbitrary: M l as us ys)
  case Nil
  then have "ys = []" "untouched S M M" for S by (simp_all add: merging_def untouched_def same_node_def)
  with Nil show ?case by (subst merge_tail.simps) auto
next
  case (Cons q qs)
  then obtain y ys1 where ys: "ys = y # ys1" by (cases ys) (auto simp: merging_def)
  from merging_link [OF Cons.prems [unfolded ys]] obtain M1 l1 where
    l1: "next_of M q = Some (hd (qs @ [k]))" "prev_of M (hd (qs @ [k])) = Some q" "list_link (lo_node l) q (M, l) = Some (M1, l1)"
    "lo_node l1 = lo_node l" "merging M1 l1 (as @ [q]) [] (us @ [y]) [] k qs ys1" "untouched (insert (lo_node l) (set (as @ q # qs))) M M1" by auto
  from Cons.IH [OF l1(5)] obtain M' l' as' where
    IH: "merge_tail k (hd (qs @ [k])) (M1, l1) = Some (M', l')" "merging M' l' as' [] ((us @ [y]) @ ys1) [] k [] []" "lo_node l' = lo_node l1"
    "set as' = set ((as @ [q]) @ qs)" "untouched (insert (lo_node l1) (set ((as @ [q]) @ qs))) M1 M'" by blast
  have "q \<noteq> k" using Cons.prems by (auto simp: merging_def chain_def)
  then have "merge_tail k q (M, l) = Some (M', l')" using l1(1-4) IH(1) by (subst merge_tail.simps) simp
  then show ?case using IH(2-5) l1(4) untouched_trans [OF l1(6), of M'] ys
    by (intro exI [of _ M'] exI [of _ l'] exI [of _ as']) auto
qed

lemma list_merge_ok:
  assumes "mem_ok M" "list_nodes M l ps xs" "list_nodes M k qs ys" "insert (lo_node k) (set qs) \<inter> insert (lo_node l) (set ps) = {}"
  shows "\<exists>M' l' k' ps'. list_merge k (M, l) = Some (M', l', k') \<and> mem_ok M' \<and> list_nodes M' l' ps' (merge_lists xs ys) \<and> list_nodes M' k' [] [] \<and>
    lo_node l' = lo_node l \<and> lo_node k' = lo_node k \<and> set ps' = set ps \<union> set qs \<and> lm_live M' = lm_live M"
proof -
  have k: "lo_node k \<in> lm_live M" "lm_data M (lo_node k) = None" "map (lm_data M) qs = map Some ys" using assms(3) by (simp_all add: list_nodes_def)
  have "merging M l [] ps [] xs (lo_node k) qs ys"
    using assms k list_nodes_chain(1) [OF assms(3)] by (auto simp: merging_def)
  from merge_loop_ok [OF this, unfolded append_Nil] obtain M1 l1 as bs us xs1 qs1 ys1 where
    m: "merge_loop (lo_node k) (hd (ps @ [lo_node l])) (hd (qs @ [lo_node k])) (M, l) = Some ((M1, l1), hd (bs @ [lo_node l1]), hd (qs1 @ [lo_node k]))"
    "merging M1 l1 as bs us xs1 (lo_node k) qs1 ys1" "bs = [] \<or> qs1 = []" "us @ merge_lists xs1 ys1 = merge_lists xs ys" "lo_node l1 = lo_node l"
    "set (as @ bs @ qs1) = set (ps @ qs)" "untouched (insert (lo_node l) (set (ps @ qs))) M M1" by blast
  have "\<exists>M2 l2 ps'. (if hd (bs @ [lo_node l1]) = lo_node l1 then merge_tail (lo_node k) (hd (qs1 @ [lo_node k])) (M1, l1) else Some (M1, l1)) = Some (M2, l2) \<and>
    mem_ok M2 \<and> list_nodes M2 l2 ps' (merge_lists xs ys) \<and> lo_node l2 = lo_node l \<and> set ps' = set (ps @ qs) \<and> lo_node k \<notin> insert (lo_node l2) (set ps') \<and> lm_live M2 = lm_live M \<and> lm_data M2 = lm_data M"
  proof (cases bs)
    case Nil
    have "xs1 = []" using m(2) Nil list_nodes_length [of M1 l1 as "us @ xs1"] by (simp add: merging_def)
    with Nil m(2) have "merging M1 l1 as [] us [] (lo_node k) qs1 ys1" by simp
    from merge_tail_ok [OF this] obtain M2 l2 as2 where
      t: "merge_tail (lo_node k) (hd (qs1 @ [lo_node k])) (M1, l1) = Some (M2, l2)" "merging M2 l2 as2 [] (us @ ys1) [] (lo_node k) [] []" "lo_node l2 = lo_node l1"
      "set as2 = set (as @ qs1)" "untouched (insert (lo_node l1) (set (as @ qs1))) M1 M2" by blast
    have "list_nodes M2 l2 as2 (merge_lists xs ys)" using t(2) m(4) \<open>xs1 = []\<close> by (simp add: merging_def)
    moreover have "lo_node k \<notin> insert (lo_node l2) (set as2)" using t(2) by (auto simp: merging_def)
    moreover have "lo_node k \<notin> set ps" "lo_node k \<notin> set qs" using assms(4) list_nodes_distinct [OF assms(3)] by auto
    ultimately show ?thesis using Nil t m(5-7) by (intro exI [of _ M2] exI [of _ l2] exI [of _ as2]) (simp add: untouched_def)
  next
    case (Cons p bs1)
    then have "qs1 = []" using m(3) by simp
    then have "ys1 = []" using m(2) by (simp add: merging_def)
    then have "list_nodes M1 l1 (as @ bs) (merge_lists xs ys)" using m(2,4) by (simp add: merging_def)
    moreover have "lo_node k \<notin> insert (lo_node l1) (set (as @ bs))" using m(2) by (auto simp: merging_def)
    moreover have "hd (bs @ [lo_node l1]) \<noteq> lo_node l1" using Cons list_nodes_distinct [of M1 l1 "as @ bs"] m(2) by (auto simp: merging_def)
    moreover have "lo_node k \<notin> set ps" "lo_node k \<notin> set qs" using assms(4) list_nodes_distinct [OF assms(3)] by auto
    ultimately show ?thesis using m(5-7) \<open>qs1 = []\<close> by (intro exI [of _ M1] exI [of _ l1] exI [of _ "as @ bs"]) (simp add: untouched_def)
  qed
  then obtain M2 l2 ps' where e: "(if hd (bs @ [lo_node l1]) = lo_node l1 then merge_tail (lo_node k) (hd (qs1 @ [lo_node k])) (M1, l1) else Some (M1, l1)) = Some (M2, l2)"
    "mem_ok M2" "list_nodes M2 l2 ps' (merge_lists xs ys)" "lo_node l2 = lo_node l" "set ps' = set (ps @ qs)" "lo_node k \<notin> insert (lo_node l2) (set ps')" "lm_live M2 = lm_live M" "lm_data M2 = lm_data M" by blast
  define M3 where "M3 = M2\<lparr>lm_next := (lm_next M2)(lo_node k := lo_node k), lm_prev := (lm_prev M2)(lo_node k := lo_node k)\<rparr>"
  have "list_merge k (M, l) = Some (M3, l2, k\<lparr>lo_size := 0\<rparr>)"
    using delete_all_ok(1) [OF assms(2)] delete_all_ok(1) [OF assms(3)] m(1) e(1,7) k(1) by (simp add: list_merge_def set_next_def set_prev_def M3_def)
  moreover have "list_nodes M3 l2 ps' (merge_lists xs ys)"
    by (rule other_list [OF e(3)]) (use e(3,6) in \<open>auto simp: same_node_def M3_def list_nodes_def\<close>)
  moreover have "list_nodes M3 (k\<lparr>lo_size := 0\<rparr>) [] []" using k e(7,8) by (simp add: list_nodes_def M3_def)
  moreover have "mem_ok M3" "lm_live M3 = lm_live M" using e(2,7) by (simp_all add: mem_ok_def M3_def)
  ultimately show ?thesis using e(4,5) by (intro exI [of _ M3] exI [of _ l2] exI [of _ "k\<lparr>lo_size := 0\<rparr>"] exI [of _ ps']) simp
qed

section \<open>Programs\<close>

text \<open>What a program may do with a list; \<open>Insert\<close> and \<open>Erase\<close> advance an iterator from \<open>begin()\<close>, the other list of \<open>Merge\<close> and \<open>Assign\<close> is built
  with \<open>push_back\<close> and destroyed, and \<open>Copy\<close> goes on with a copy.\<close>

datatype 'a list_command = Push_back 'a | Push_front 'a | Pop_back | Pop_front | Front | Back | Size | Empty | Clear
  | Insert nat 'a | Erase nat | Get nat | Get_back nat | Sort | Reverse | Unique | Merge "'a list" | Assign "'a list" | Copy

datatype 'a list_answer = Shown 'a | Counted nat | Answered bool | Done | Thrown stl_error

fun push_all :: "'a list \<Rightarrow> 'a lmem \<times> lobj \<Rightarrow> ('a lmem \<times> lobj) option" where
  "push_all [] st = Some st"
| "push_all (x # xs) st = do { st \<leftarrow> list_push_back x st; push_all xs st }"

definition list_build :: "'a list \<Rightarrow> 'a lmem \<Rightarrow> ('a lmem \<times> lobj) option" where
  "list_build xs M = do { st \<leftarrow> list_new M; push_all xs st }"

fun advance :: "nat \<Rightarrow> 'a lmem \<Rightarrow> iter \<Rightarrow> iter result" where
  "advance 0 M i = returns i"
| "advance (Suc n) M i = after (iter_incr i M) (advance n M)"

fun retreat :: "nat \<Rightarrow> 'a lmem \<Rightarrow> iter \<Rightarrow> iter result" where
  "retreat 0 M i = returns i"
| "retreat (Suc n) M i = after (iter_decr i M) (retreat n M)"

text \<open>The answer to a result: an exception leaves the state.\<close>

definition answer :: "'a lmem \<times> lobj \<Rightarrow> ('b \<Rightarrow> 'a list_answer \<times> 'a lmem \<times> lobj) \<Rightarrow> 'b result \<Rightarrow> ('a list_answer \<times> 'a lmem \<times> lobj) option" where
  "answer st f r = (case r of None \<Rightarrow> None | Some (Inl e) \<Rightarrow> Some (Thrown e, st) | Some (Inr x) \<Rightarrow> Some (f x))"

definition list_do :: "'a::linorder list_command \<Rightarrow> 'a lmem \<times> lobj \<Rightarrow> ('a list_answer \<times> 'a lmem \<times> lobj) option" where
  "list_do command st = (case command of
     Push_back x \<Rightarrow> map_option (Pair Done) (list_push_back x st)
   | Push_front x \<Rightarrow> map_option (Pair Done) (list_push_front x st)
   | Pop_back \<Rightarrow> answer st (Pair Done) (list_pop_back st)
   | Pop_front \<Rightarrow> answer st (Pair Done) (list_pop_front st)
   | Front \<Rightarrow> answer st (\<lambda>x. (Shown x, st)) (list_front st)
   | Back \<Rightarrow> answer st (\<lambda>x. (Shown x, st)) (list_back st)
   | Size \<Rightarrow> Some (Counted (list_size (snd st)), st)
   | Empty \<Rightarrow> Some (Answered (list_empty (snd st)), st)
   | Clear \<Rightarrow> map_option (Pair Done) (list_clear st)
   | Insert n x \<Rightarrow> do { b \<leftarrow> list_begin st; answer st (\<lambda>(i, st). (Done, st)) (after (advance n (fst st) b) (\<lambda>i. list_insert i x st)) }
   | Erase n \<Rightarrow> do { b \<leftarrow> list_begin st; answer st (\<lambda>(i, st). (Done, st)) (after (advance n (fst st) b) (\<lambda>i. list_erase i st)) }
   | Get n \<Rightarrow> do { b \<leftarrow> list_begin st; answer st (\<lambda>x. (Shown x, st)) (after (advance n (fst st) b) (\<lambda>i. iter_deref i (fst st))) }
   | Get_back n \<Rightarrow> answer st (\<lambda>x. (Shown x, st)) (after (retreat n (fst st) (list_end (snd st))) (\<lambda>i. iter_deref i (fst st)))
   | Sort \<Rightarrow> map_option (Pair Done) (list_sort st)
   | Reverse \<Rightarrow> map_option (Pair Done) (list_reverse st)
   | Unique \<Rightarrow> map_option (Pair Done) (list_unique st)
   | Merge ys \<Rightarrow> do {
       (M, k) \<leftarrow> list_build ys (fst st);
       (M, l, k) \<leftarrow> list_merge k (M, snd st);
       M \<leftarrow> list_destroy (M, k);
       Some (Done, M, l) }
   | Assign ys \<Rightarrow> do {
       (M, k) \<leftarrow> list_build ys (fst st);
       (M, l) \<leftarrow> list_assign k (M, snd st);
       M \<leftarrow> list_destroy (M, k);
       Some (Done, M, l) }
   | Copy \<Rightarrow> do {
       (M, k) \<leftarrow> list_copy (snd st) (fst st);
       M \<leftarrow> list_destroy (M, snd st);
       Some (Done, M, k) })"

fun list_run :: "'a::linorder list_command list \<Rightarrow> 'a lmem \<times> lobj \<Rightarrow> ('a list_answer list \<times> 'a lmem \<times> lobj) option" where
  "list_run [] st = Some ([], st)"
| "list_run (command # commands) st = do { (a, st) \<leftarrow> list_do command st; (as, st) \<leftarrow> list_run commands st; Some (a # as, st) }"

text \<open>The whole program, with the nodes that are left.\<close>

definition list_program :: "'a::linorder list_command list \<Rightarrow> ('a list_answer list \<times> ptr set) option" where
  "list_program commands = do {
     st \<leftarrow> list_new lm_start;
     (answers, st) \<leftarrow> list_run commands st;
     M \<leftarrow> list_destroy st;
     Some (answers, lm_live M) }"

text \<open>What the commands mean.\<close>

definition list_means :: "'a::linorder list_command \<Rightarrow> 'a list \<Rightarrow> 'a list_answer \<times> 'a list" where
  "list_means command xs = (case command of
     Push_back x \<Rightarrow> (Done, xs @ [x])
   | Push_front x \<Rightarrow> (Done, x # xs)
   | Pop_back \<Rightarrow> if xs = [] then (Thrown container_is_empty, xs) else (Done, butlast xs)
   | Pop_front \<Rightarrow> if xs = [] then (Thrown container_is_empty, xs) else (Done, tl xs)
   | Front \<Rightarrow> (if xs = [] then Thrown container_is_empty else Shown (hd xs), xs)
   | Back \<Rightarrow> (if xs = [] then Thrown container_is_empty else Shown (last xs), xs)
   | Size \<Rightarrow> (Counted (length xs), xs)
   | Empty \<Rightarrow> (Answered (xs = []), xs)
   | Clear \<Rightarrow> (Done, [])
   | Insert n x \<Rightarrow> if n \<le> length xs then (Done, take n xs @ x # drop n xs) else (Thrown invalid_iterator, xs)
   | Erase n \<Rightarrow> if n < length xs then (Done, take n xs @ drop (Suc n) xs)
       else (Thrown (if n = 0 then container_is_empty else invalid_iterator), xs)
   | Get n \<Rightarrow> (if n < length xs then Shown (xs ! n) else Thrown invalid_iterator, xs)
   | Get_back n \<Rightarrow> (if 0 < n \<and> n \<le> length xs then Shown (xs ! (length xs - n)) else Thrown invalid_iterator, xs)
   | Sort \<Rightarrow> (Done, sort xs)
   | Reverse \<Rightarrow> (Done, rev xs)
   | Unique \<Rightarrow> (Done, remdups_adj xs)
   | Merge ys \<Rightarrow> (Done, merge_lists xs ys)
   | Assign ys \<Rightarrow> (Done, ys)
   | Copy \<Rightarrow> (Done, xs))"

fun list_meaning :: "'a::linorder list_command list \<Rightarrow> 'a list \<Rightarrow> 'a list_answer list" where
  "list_meaning [] xs = []"
| "list_meaning (command # commands) xs = (case list_means command xs of (a, xs) \<Rightarrow> a # list_meaning commands xs)"

lemma advance_ok: "list_nodes M l ps xs \<Longrightarrow> j \<le> length xs \<Longrightarrow>
    advance n M (iter_at l ps j) = (if j + n \<le> length xs then returns (iter_at l ps (j + n)) else throws invalid_iterator)"
  by (induction n arbitrary: j) (simp_all add: iter_incr_ok)

lemma retreat_ok: "list_nodes M l ps xs \<Longrightarrow> j \<le> length xs \<Longrightarrow>
    retreat n M (iter_at l ps j) = (if n \<le> j then returns (iter_at l ps (j - n)) else throws invalid_iterator)"
  by (induction n arbitrary: j) (auto simp: iter_decr_ok)

lemma answer_simps [simp]: "answer st f (returns x) = Some (f x)" "answer st f (throws e) = Some (Thrown e, st)"
  by (simp_all add: answer_def returns_def throws_def)

lemma push_all_ok:
  assumes "mem_ok M" "list_nodes M l ps xs"
  shows "\<exists>M' l' ps'. push_all ys (M, l) = Some (M', l') \<and> becomes M l ps M' l' ps' (xs @ ys)"
  using assms
proof (induction ys arbitrary: M l ps xs)
  case Nil
  with becomes_refl [OF Nil] show ?case by auto
next
  case (Cons y ys)
  from push_back_ok [OF Cons.prems, of y] obtain M1 l1 ps1 where 1: "list_push_back y (M, l) = Some (M1, l1)" "becomes M l ps M1 l1 ps1 (xs @ [y])" by blast
  then have "mem_ok M1" "list_nodes M1 l1 ps1 (xs @ [y])" by (simp_all add: becomes_def)
  from Cons.IH [OF this] obtain M' l' ps' where 2: "push_all ys (M1, l1) = Some (M', l')" "becomes M1 l1 ps1 M' l' ps' (xs @ y # ys)" by auto
  have "push_all (y # ys) (M, l) = Some (M', l')" using 1(1) 2(1) by simp
  with becomes_trans [OF 1(2) 2(2)] show ?case by blast
qed

lemma build_ok:
  assumes "mem_ok M"
  shows "\<exists>M' k qs. list_build ys M = Some (M', k) \<and> mem_ok M' \<and> list_nodes M' k qs ys \<and> lm_live M' = lm_live M \<union> insert (lo_node k) (set qs) \<and>
    insert (lo_node k) (set qs) \<inter> lm_live M = {} \<and> (\<forall>z \<in> lm_live M. same_node M M' z)"
proof -
  from new_ok [OF assms] obtain M1 k1 where n: "list_new M = Some (M1, k1)" "mem_ok M1" "list_nodes M1 k1 [] []" "lo_node k1 = lm_brk M"
    "lm_live M1 = insert (lm_brk M) (lm_live M)" "lm_brk M \<notin> lm_live M" "\<forall>q \<in> lm_live M. same_node M M1 q" by blast
  from push_all_ok [OF n(2,3), of ys] obtain M' k qs where p: "push_all ys (M1, k1) = Some (M', k)" "becomes M1 k1 [] M' k qs ys" by auto
  have "same_node M M' z" if "z \<in> lm_live M" for z
  proof -
    have "z \<in> lm_live M1 - insert (lo_node k1) (set [])" using that n(4-6) by auto
    with p(2) have "same_node M1 M' z" by (simp add: becomes_def)
    with n(7) that show ?thesis by (simp add: same_node_def)
  qed
  moreover have "mem_ok M'" "list_nodes M' k qs ys" "lo_node k = lm_brk M" "lm_live M' = lm_live M1 \<union> set qs" "set qs \<inter> lm_live M1 = {}"
    using p(2) n(4) by (simp_all add: becomes_def)
  moreover from this(3-5) n(5,6) have "lm_live M' = lm_live M \<union> insert (lo_node k) (set qs)" "insert (lo_node k) (set qs) \<inter> lm_live M = {}" by auto
  moreover have "list_build ys M = Some (M', k)" using n(1) p(1) by (simp add: list_build_def)
  ultimately show ?thesis by blast
qed

text \<open>The state of a program: one list, and no other nodes.\<close>

definition list_ok :: "'a lmem \<times> lobj \<Rightarrow> 'a list \<Rightarrow> bool" where
  "list_ok st xs \<longleftrightarrow> mem_ok (fst st) \<and> (\<exists>ps. list_nodes (fst st) (snd st) ps xs \<and> lm_live (fst st) = insert (lo_node (snd st)) (set ps))"

lemma list_okI: "mem_ok M \<Longrightarrow> list_nodes M l ps xs \<Longrightarrow> lm_live M = insert (lo_node l) (set ps) \<Longrightarrow> list_ok (M, l) xs"
  by (auto simp: list_ok_def)

lemma becomes_list_ok:
  assumes "list_nodes M l ps xs" "lm_live M = insert (lo_node l) (set ps)" "becomes M l ps M' l' ps' xs'"
  shows "list_ok (M', l') xs'"
proof (rule list_okI)
  have "lo_node l \<notin> set ps" using list_nodes_distinct [OF assms(1)] by simp
  with assms(2,3) show "lm_live M' = insert (lo_node l') (set ps')" by (auto simp: becomes_def)
qed (use assms(3) in \<open>simp_all add: becomes_def\<close>)

text \<open>Every command means what it says.\<close>

lemma list_do_ok:
  assumes "list_ok (M, l) xs"
  shows "\<exists>st. list_do command (M, l) = Some (fst (list_means command xs), st) \<and> list_ok st (snd (list_means command xs))"
proof -
  from assms obtain ps where ok: "mem_ok M" "list_nodes M l ps xs" and live: "lm_live M = insert (lo_node l) (set ps)" by (auto simp: list_ok_def)
  note after_becomes = becomes_list_ok [OF ok(2) live]
  note b0 = begin_ok [OF ok(2)] and adv = advance_ok [OF ok(2), of 0]
  have h: "lo_node l \<notin> set ps" using list_nodes_distinct [OF ok(2)] by simp
  show ?thesis
  proof (cases command)
    case (Push_back x)
    from push_back_ok [OF ok, of x] show ?thesis by (auto simp: Push_back list_do_def list_means_def dest: after_becomes)
  next
    case (Push_front x)
    from push_front_ok [OF ok, of x] show ?thesis by (auto simp: Push_front list_do_def list_means_def dest: after_becomes)
  next
    case Pop_back
    show ?thesis
    proof (cases xs rule: rev_cases)
      case (snoc ys y)
      with pop_back_ok [OF ok(1), of l ps ys y] ok(2) obtain M' l' ps' where "list_pop_back (M, l) = returns (M', l')" "becomes M l ps M' l' ps' ys" by blast
      with after_becomes [OF this(2)] snoc show ?thesis by (simp add: Pop_back list_do_def list_means_def)
    qed (use assms empty_throws(3) [of M l ps] ok in \<open>simp add: Pop_back list_do_def list_means_def\<close>)
  next
    case Pop_front
    show ?thesis
    proof (cases xs)
      case (Cons y ys)
      with pop_front_ok [OF ok(1), of l ps y ys] ok(2) obtain M' l' ps' where "list_pop_front (M, l) = returns (M', l')" "becomes M l ps M' l' ps' ys" by blast
      with after_becomes [OF this(2)] Cons show ?thesis by (simp add: Pop_front list_do_def list_means_def)
    qed (use assms empty_throws(4) [of M l ps] ok in \<open>simp add: Pop_front list_do_def list_means_def\<close>)
  next
    case Front
    show ?thesis
    proof (cases xs)
      case (Cons y ys)
      with front_ok [of M l ps y ys] ok(2) assms show ?thesis by (simp add: Front list_do_def list_means_def)
    qed (use assms empty_throws(1) [of M l ps] ok in \<open>simp add: Front list_do_def list_means_def\<close>)
  next
    case Back
    show ?thesis
    proof (cases xs rule: rev_cases)
      case (snoc ys y)
      with back_ok [of M l ps ys y] ok(2) assms show ?thesis by (simp add: Back list_do_def list_means_def)
    qed (use assms empty_throws(2) [of M l ps] ok in \<open>simp add: Back list_do_def list_means_def\<close>)
  next
    case Size
    with assms ok(2) show ?thesis by (simp add: list_do_def list_means_def list_size_def list_nodes_def)
  next
    case Empty
    with assms ok(2) show ?thesis by (simp add: list_do_def list_means_def list_empty_def list_nodes_def)
  next
    case Clear
    from clear_becomes [OF ok] show ?thesis by (auto simp: Clear list_do_def list_means_def dest: after_becomes)
  next
    case (Insert n x)
    show ?thesis
    proof (cases "n \<le> length xs")
      case True
      from insert_ok [OF ok True, of x] obtain M' l' ps' where "list_insert (iter_at l ps n) x (M, l) = returns (iter_at l' ps' n, M', l')"
        "becomes M l ps M' l' ps' (take n xs @ x # drop n xs)" by blast
      with after_becomes [OF this(2)] True b0 adv show ?thesis by (simp add: Insert list_do_def list_means_def)
    qed (use assms b0 adv in \<open>simp add: Insert list_do_def list_means_def\<close>)
  next
    case (Erase n)
    consider "n < length xs" | "n = length xs" "xs \<noteq> []" | "n = 0" "xs = []" | "length xs < n" by (cases "xs = []") fastforce+
    then show ?thesis
    proof cases
      case 1
      from erase_ok [OF ok 1] obtain M' l' ps' where "list_erase (iter_at l ps n) (M, l) = returns (iter_at l' ps' n, M', l')"
        "becomes M l ps M' l' ps' (take n xs @ drop (Suc n) xs)" by blast
      with after_becomes [OF this(2)] 1 b0 adv show ?thesis by (simp add: Erase list_do_def list_means_def)
    next
      case 2
      with assms b0 adv erase_end [OF ok(2)] show ?thesis by (simp add: Erase list_do_def list_means_def)
    next
      case 3
      with assms b0 adv ok(2) empty_throws(5) [of M l ps] show ?thesis by (simp add: Erase list_do_def list_means_def)
    qed (use assms b0 adv in \<open>simp add: Erase list_do_def list_means_def\<close>)
  next
    case (Get n)
    show ?thesis
      by (cases "n \<le> length xs") (use assms b0 adv iter_deref_ok [OF ok(2), of n] in \<open>auto simp: Get list_do_def list_means_def\<close>)
  next
    case (Get_back n)
    have "retreat n M (list_end l) = (if n \<le> length xs then returns (iter_at l ps (length xs - n)) else throws invalid_iterator)"
      using end_ok [OF ok(2)] retreat_ok [OF ok(2), of "length xs" n] by simp
    then show ?thesis
      by (cases "n \<le> length xs") (use assms iter_deref_ok [OF ok(2), of "length xs - n"] in \<open>auto simp: Get_back list_do_def list_means_def\<close>)
  next
    case Sort
    from list_sort_ok [OF ok] show ?thesis by (auto simp: Sort list_do_def list_means_def dest: after_becomes)
  next
    case Reverse
    from list_reverse_ok [OF ok] show ?thesis by (auto simp: Reverse list_do_def list_means_def dest: after_becomes)
  next
    case Unique
    from list_unique_ok [OF ok] show ?thesis by (auto simp: Unique list_do_def list_means_def dest: after_becomes)
  next
    case (Merge ys)
    from build_ok [OF ok(1), of ys] obtain M1 k qs where b: "list_build ys M = Some (M1, k)" "mem_ok M1" "list_nodes M1 k qs ys"
      "lm_live M1 = lm_live M \<union> insert (lo_node k) (set qs)" "insert (lo_node k) (set qs) \<inter> lm_live M = {}" "\<forall>z \<in> lm_live M. same_node M M1 z" by blast
    have n1: "list_nodes M1 l ps xs" by (rule other_list [OF ok(2)]) (use b(4,6) live in auto)
    have "insert (lo_node k) (set qs) \<inter> insert (lo_node l) (set ps) = {}" using b(5) live by auto
    from list_merge_ok [OF b(2) n1 b(3) this] obtain M2 l2 k2 ps2 where m: "list_merge k (M1, l) = Some (M2, l2, k2)" "mem_ok M2"
      "list_nodes M2 l2 ps2 (merge_lists xs ys)" "list_nodes M2 k2 [] []" "lo_node l2 = lo_node l" "lo_node k2 = lo_node k" "set ps2 = set ps \<union> set qs" "lm_live M2 = lm_live M1" by blast
    from destroy_frees [OF m(2,4)] obtain M3 where d: "list_destroy (M2, k2) = Some M3" "mem_ok M3" "lm_live M3 = lm_live M2 - {lo_node k2}" "\<forall>q \<in> lm_live M3. same_node M2 M3 q" by auto
    have k: "lo_node k \<notin> set qs" "lo_node k \<notin> set ps" "lo_node k \<noteq> lo_node l" using list_nodes_distinct [OF b(3)] b(5) live by auto
    have live3: "lm_live M3 = insert (lo_node l2) (set ps2)" using k b(4) live by (auto simp: d(3) m(5-8))
    have "list_nodes M3 l2 ps2 (merge_lists xs ys)" by (rule other_list [OF m(3)]) (use d(4) live3 in auto)
    from list_okI [OF d(2) this live3] b(1) m(1) d(1) show ?thesis by (simp add: Merge list_do_def list_means_def)
  next
    case (Assign ys)
    from build_ok [OF ok(1), of ys] obtain M1 k qs where b: "list_build ys M = Some (M1, k)" "mem_ok M1" "list_nodes M1 k qs ys"
      "lm_live M1 = lm_live M \<union> insert (lo_node k) (set qs)" "insert (lo_node k) (set qs) \<inter> lm_live M = {}" "\<forall>z \<in> lm_live M. same_node M M1 z" by blast
    have n1: "list_nodes M1 l ps xs" by (rule other_list [OF ok(2)]) (use b(4,6) live in auto)
    have dj: "insert (lo_node k) (set qs) \<inter> insert (lo_node l) (set ps) = {}" using b(5) live by auto
    from assign_becomes [OF b(2) n1 b(3) dj] obtain M2 l2 rs where a: "list_assign k (M1, l) = Some (M2, l2)" "becomes M1 l ps M2 l2 rs ys" by blast
    have k: "lo_node k \<noteq> lo_node l" using dj by auto
    have a': "mem_ok M2" "list_nodes M2 l2 rs ys" "lo_node l2 = lo_node l" "lm_live M2 = (lm_live M1 - set ps) \<union> set rs" "set rs \<inter> (lm_live M1 - set ps) = {}" using a(2) by (simp_all add: becomes_def)
    have n2: "list_nodes M2 k qs ys" by (rule becomes_other [OF a(2) n1 b(3) k dj])
    from destroy_frees [OF a'(1) n2] obtain M3 where d: "list_destroy (M2, k) = Some M3" "mem_ok M3" "lm_live M3 = lm_live M2 - insert (lo_node k) (set qs)" "\<forall>q \<in> lm_live M3. same_node M2 M3 q" by auto
    have "insert (lo_node k) (set qs) \<subseteq> lm_live M1 - set ps" using b(4) dj by auto
    then have live3: "lm_live M3 = insert (lo_node l2) (set rs)" using a'(5) b(4) live dj h unfolding d(3) a'(3,4) by blast
    have "list_nodes M3 l2 rs ys" by (rule other_list [OF a'(2)]) (use d(4) live3 in auto)
    from list_okI [OF d(2) this live3] b(1) a(1) d(1) show ?thesis by (simp add: Assign list_do_def list_means_def)
  next
    case Copy
    from copy_ok [OF ok] obtain M1 k rs where c: "list_copy l M = Some (M1, k)" "mem_ok M1" "list_nodes M1 k rs xs" "lm_live M1 = insert (lo_node k) (set rs) \<union> lm_live M"
      "insert (lo_node k) (set rs) \<inter> lm_live M = {}" "\<forall>q \<in> lm_live M. same_node M M1 q" by blast
    have n1: "list_nodes M1 l ps xs" by (rule other_list [OF ok(2)]) (use c(4,6) live in auto)
    from destroy_frees [OF c(2) n1] obtain M2 where d: "list_destroy (M1, l) = Some M2" "mem_ok M2" "lm_live M2 = lm_live M1 - insert (lo_node l) (set ps)" "\<forall>q \<in> lm_live M2. same_node M1 M2 q" by auto
    have live2: "lm_live M2 = insert (lo_node k) (set rs)" using c(4,5) live unfolding d(3) by blast
    have "list_nodes M2 k rs xs" by (rule other_list [OF c(3)]) (use d(4) live2 in auto)
    from list_okI [OF d(2) this live2] c(1) d(1) show ?thesis by (simp add: Copy list_do_def list_means_def)
  qed
qed

lemma list_run_ok: "list_ok st xs \<Longrightarrow> \<exists>st' xs'. list_run commands st = Some (list_meaning commands xs, st') \<and> list_ok st' xs'"
proof (induction commands arbitrary: st xs)
  case (Cons command commands)
  obtain M l where st: "st = (M, l)" by (cases st)
  from list_do_ok [OF Cons.prems [unfolded st], of command] obtain st1 where
    1: "list_do command st = Some (fst (list_means command xs), st1)" "list_ok st1 (snd (list_means command xs))" by (auto simp: st)
  from Cons.IH [OF 1(2)] 1(1) show ?case by (auto simp: case_prod_beta)
qed auto

text \<open>
  C37 (refinement).  Every program that makes a list, works on it with any sequence of the operations (both ends, iterators, \<open>sort\<close>, \<open>reverse\<close>,
  \<open>unique\<close>, \<open>merge\<close> with and assignment from another list, \<open>clear\<close>, the copy constructor) and destroys it, returns with the answers the same
  sequence has on mathematical lists, exceptions included: no bad pointer is used, every loop ends, and no node is left.
\<close>

theorem linked_list_refines_lists: "list_program commands = Some (list_meaning (commands :: 'a::linorder list_command list) [], {})"
proof -
  have "mem_ok (lm_start :: 'a lmem)" by (simp add: mem_ok_def lm_start_def)
  from new_ok [OF this] obtain M l where n: "list_new (lm_start :: 'a lmem) = Some (M, l)" "mem_ok M" "list_nodes M l [] []" "lo_node l = lm_brk (lm_start :: 'a lmem)"
    "lm_live M = insert (lm_brk (lm_start :: 'a lmem)) (lm_live (lm_start :: 'a lmem))" by blast
  have "list_ok (M, l) []" by (rule list_okI [OF n(2,3)]) (simp only: n(4,5), simp add: lm_start_def)
  from list_run_ok [OF this] obtain M' l' xs' where r: "list_run commands (M, l) = Some (list_meaning commands [], M', l')" "list_ok (M', l') xs'" by fastforce
  from r(2) obtain ps where "mem_ok M'" "list_nodes M' l' ps xs'" "lm_live M' = insert (lo_node l') (set ps)" by (auto simp: list_ok_def)
  with destroy_frees [of M' l' ps xs'] obtain M2 where "list_destroy (M', l') = Some M2" "lm_live M2 = {}" by auto
  with n(1) r(1) show ?thesis by (simp add: list_program_def)
qed

text \<open>On sorted lists \<open>merge\<close> gives the sorted list of both.\<close>

lemma merge_sorts: "sorted xs \<Longrightarrow> sorted ys \<Longrightarrow> list_means (Merge ys) xs = (Done, sort (xs @ ys))"
  by (simp add: list_means_def merge_lists_sorted)

end
