(* ===== verification/Spec2Isabelle.thy ===== *)
theory Spec2Isabelle
  imports Banker Virtual_Memory Allocator_CLI Scheduler_Driver Producer_Consumer Thread_Pool
    Parallel_Sort Sudoku_Check Shell_Exec Proc_Modules Quantization Inference Loop_Variants Matrix_Product RDT_Transfer Binomial_Queue Linked_Hashmap Linked_List_Algorithms
begin

text \<open>
  \<^bold>\<open>What is verified.\<close>  The repository holds the programming work of a degree: operating-system projects, labs on computer architecture and networks,
  a small standard library, and the software of an accelerator project.  The programs with logic of their own are modelled here, each from
  its own sources under \<open>src/\<close>; they share no state with each other.  What the theories share is in \<open>Prelude\<close> (lists, options, guards, characters,
  numbers as text), \<open>C_Int\<close> (\<open>int\<close>, \<open>atoi\<close>), \<open>Bytes\<close> (words and bytes), \<open>Ring\<close> (circular lists over a heap of nodes), \<open>Array_Loops\<close> and
  \<open>Array_Filling\<close> (loops that fill an array).

  \<^bold>\<open>How C is read.\<close>  A definition bears the name of the function or type it models.  State, whether global variables or objects, is a record
  passed through; loops are recursion; threads are relations whose steps are the statements that touch shared data.  Undefined behaviour
  (a bad pointer, an index out of range, an overflow of \<open>int\<close>, a step that a caller must not make) is \<open>None\<close>, and so is a loop that does not
  return: a theorem that says \<open>= Some\<close> says that the code returns and is defined.  Errors the code reports are values.  Integers have their width
  where the code can reach it, otherwise they are unbounded and a premise or a remark says why.  \<open>malloc\<close> and \<open>new\<close> succeed.
  Operating system, kernel, clock, network, accelerator, files and generated tables are arguments; what is needed of them is a named
  premise: \<open>multiplies\<close> (the accelerator computes the product it is asked for), \<open>drains\<close> (the transmitter empties now and then), and
  for the network only that what arrives was sent before, whole or damaged as \<open>damaged\<close> says.

  \<^bold>\<open>CS2303 Operating System.\<close>

  \<^item> Project 1 and \<open>pid.c\<close> of Project 2: \<open>Proc_Modules\<close> (\<open>jiffies.c\<close>, \<open>seconds.c\<close>, \<open>pid.c\<close>), kernel modules.  Reading a file to its end gives one report, without overrunning a buffer.

  \<^item> Project 2: \<open>Shell\<close> (state, parser, \<open>cd\<close>, \<open>history\<close>, \<open>!!\<close>), \<open>Shell_Parse\<close> and \<open>Shell_Exec\<close> (\<open>osh.c\<close>).  The parser reads back printed pipelines of at
    most 16 commands of at most 63 words, the sizes of \<open>commands\<close> and \<open>argv\<close>; execution starts the stages in order, connects them, closes every
    descriptor once and waits for every child.

  \<^item> Project 3: \<open>Parallel_Sort\<close> (\<open>ParallelSort.c\<close>), where every interleaving of the threads sorts, in at most \<open>5 n\<^sup>2 + 1\<close> steps, for arrays below \<open>2\<^sup>3\<^sup>0\<close> elements,
    so that no index overflows; \<open>Sudoku_Check\<close> (\<open>SudokuCheck.c\<close>), right for every order in which the threads end.

  \<^item> Project 4: \<open>Task_List\<close> (\<open>list.c\<close>), \<open>CPU\<close> (\<open>CPU.c\<close>), \<open>Schedulers\<close> (the five \<open>schedule_*.c\<close>), \<open>Scheduler_Driver\<close> (\<open>driver.c\<close>).  \<open>Scheduling\<close> and \<open>Round_Robin\<close> refine the
    pointer programs to functions of the task list and prove what each policy does, and that shortest job first waits least.

  \<^item> Project 5: \<open>Bounded_Buffer\<close> is the protocol of two semaphores, a mutex and a ring as an abstract machine; \<open>Producer_Consumer\<close> (\<open>producer-comsumer.c\<close>) and
    \<open>Thread_Pool\<close> (\<open>threadpool.c\<close>, \<open>client.c\<close>) are shown to follow it (locale \<open>follows_buffer\<close>): exclusion, order, no loss, no deadlock.

  \<^item> Project 6: \<open>Banker\<close> (\<open>banker.c\<close>).  The safety check is exact; the program never leaves the safe states and conserves the resources.

  \<^item> Project 7: \<open>Freelist\<close>, \<open>Freelist_Check\<close>, \<open>Policy\<close>, \<open>Alloclist\<close>, \<open>Allocator\<close>, \<open>Allocator_CLI\<close> (\<open>freelist.c\<close>, \<open>policy.c\<close>, \<open>alloclist.c\<close>, \<open>allocator.c\<close>, \<open>main.c\<close>).  The free list is a
    heap of nodes in two rings, by address and by size.  Used and free blocks tile the memory in whole pages after every session.

  \<^item> Project 8: \<open>LRU_Cache\<close>, \<open>TLB\<close>, \<open>Physical_Memory\<close>, \<open>Virtual_Memory\<close> (the files of these names, and \<open>main.c\<close>).  The cache is a ring of nodes that refines a recency list
    (locale \<open>lru_store\<close>); the TLB, the page replacement and the whole of virtual memory rest on that, up to a flat memory.

  \<^bold>\<open>CS2305 Computer System Architecture.\<close>  \<open>Loop_Variants\<close> (Lab 1: unrolled and threaded loops agree with the plain ones), \<open>Tiled_Matmul\<close> and \<open>Matrix_Product\<close> (Lab 3:
  the transposed, tiled and vectorised product is the plain triple loop; sizes up to 32768 terms of entries in \<open>[-256, 256)\<close>, so that no sum overflows).

  \<^bold>\<open>EE0503 Accelerators\<close> (the programs under \<open>release/baremetal\<close>).  \<open>Kprintf\<close> (\<open>printf\<close> over a UART), \<open>Quantization\<close> and \<open>Neural_Net\<close> (\<open>nn_math.c\<close>, \<open>nn.c\<close>, \<open>mlp.c\<close>), \<open>Inference\<close> (\<open>mat_mult_acc.c\<close>, \<open>main.c\<close>): the
  program reports for each image the first greatest output of the network.

  \<^bold>\<open>CS3311 Computer Network, RDT Lab\<close> (\<open>core/\<close>).  \<open>Wire_Protocol\<close> (\<open>Protocol.*\<close>), \<open>CRC32\<close> and \<open>MD5\<close> (\<open>Checksum.*\<close>, against RFC 1321 for MD5 and against polynomial division for the
  CRC), \<open>Channel\<close> (\<open>Channel.*\<close>, \<open>Timer.*\<close>), \<open>RDT_Client\<close> with \<open>RDT_Download\<close> (\<open>Client.*\<close> and the invariant of a download), \<open>RDT_Server\<close> with \<open>RDT_Serving\<close> (\<open>Server.*\<close>), and
  \<open>RDT_Transfer\<close>, the two on a network.  The loop over the blocks of a file has as many rounds as the file has bytes, which is enough since
  every round advances; timeouts of the server are at least 100 ms, below which \<open>std::clamp\<close> is undefined.

  \<^bold>\<open>CS0501 Data Structure, STLite.\<close>  \<open>STL_Result\<close> (\<open>exceptions.hpp\<close>), \<open>Array_Algorithms\<close> (\<open>algorithm.hpp\<close>: sorting below \<open>2\<^sup>3\<^sup>1 - 1\<close> elements, binary search up to \<open>2\<^sup>3\<^sup>0\<close>, the
  bounds of its \<open>int\<close>), \<open>Binomial_Queue\<close> (\<open>priority_queue.hpp\<close>, a multiset), \<open>Linked_Hashmap\<close> (\<open>linked_hashmap.hpp\<close>, a list of entries), \<open>Linked_List\<close> and \<open>Linked_List_Algorithms\<close> (\<open>list.hpp\<close>, pointer by pointer against mathematical lists).

  \<^bold>\<open>Not modelled.\<close>  The command lines, sockets and threads around the RDT client and server, and the Socket Lab: sequences of system calls.  The GUI homeworks, the map area calculator and the
  quadtree: drawing with FLTK, and floating point.  The QEMU sample: calls of the kernel.  The answers to the online judge: their
  exercises are not in the repository.  Lab 2 and the hardware: other languages.  The tables of weights and images, and the
  tests: data.  Of the modelled programs: \<open>main\<close> of the producers and consumers after its sleep and \<open>pool_shutdown\<close>, which destroy semaphores in use;
  the constructor and destructor of \<open>Channel\<close>; of STLite, \<open>vector.hpp\<close> and \<open>map.hpp\<close>.
\<close>

end
